(* ===== verification/Prelude.thy ===== *)
theory Prelude
  imports Main "HOL-Library.Word"
begin

text \<open>
  Shared vocabulary of the development: the kernel's scalar types (\<open>types/scalar.h\<close>), the
  faults that replace undefined behaviour and non-returning calls, a sequencing operator for
  code that may fault, the counting loop, and the generic lemmas on lists, function updates
  and alignment that the component theories use.
\<close>

unbundle bit_operations_syntax

section \<open>Scalars and faults\<close>

type_synonym u8 = "8 word"
type_synonym u16 = "16 word"
type_synonym u32 = "32 word"
type_synonym u64 = "64 word"

text \<open>
  What the C code does where it does not return normally: \<open>WildAccess\<close> is a read or write
  outside the object that is accessed (undefined behaviour in C), \<open>Panicked\<close> is a call of
  \<open>panic()\<close>, \<open>Halted\<close> an intended endless loop, and \<open>OutOfFuel\<close> marks a model function whose
  recursion was cut off.
\<close>

datatype fault = WildAccess | Panicked | Halted | OutOfFuel

type_synonym 'a result = "fault + 'a"

definition bindR :: "'a result \<Rightarrow> ('a \<Rightarrow> 'b result) \<Rightarrow> 'b result" where
  "bindR m f = (case m of Inl e \<Rightarrow> Inl e | Inr x \<Rightarrow> f x)"

definition guardR :: "bool \<Rightarrow> fault \<Rightarrow> unit result" where
  "guardR b e = (if b then Inr () else Inl e)"

lemma bindR_simps [simp]:
  "bindR (Inl e) f = Inl e"
  "bindR (Inr x) f = f x"
  by (simp_all add: bindR_def)

lemma bindR_assoc: "bindR (bindR m f) g = bindR m (\<lambda>x. bindR (f x) g)"
  by (cases m) simp_all

lemma bindR_eq_Inr: "bindR m f = Inr y \<longleftrightarrow> (\<exists>x. m = Inr x \<and> f x = Inr y)"
  by (cases m) auto

lemma bindR_eq_Inl: "bindR m f = Inl e \<longleftrightarrow> m = Inl e \<or> (\<exists>x. m = Inr x \<and> f x = Inl e)"
  by (cases m) auto

lemma guardR_simps [simp]:
  "guardR True e = Inr ()"
  "guardR False e = Inl e"
  "guardR b e = Inr u \<longleftrightarrow> b"
  by (simp_all add: guardR_def)

named_theorems align_simps \<open>arithmetic of alignment\<close>

section \<open>Counting loops\<close>

text \<open>\<open>for (i = a; i < b; i++) body\<close> on an explicit state.\<close>

definition for_range :: "nat \<Rightarrow> nat \<Rightarrow> (nat \<Rightarrow> 's \<Rightarrow> 's) \<Rightarrow> 's \<Rightarrow> 's" where
  "for_range a b body s = fold body [a..<b] s"

lemma for_range_empty [simp]: "b \<le> a \<Longrightarrow> for_range a b body s = s"
  by (simp add: for_range_def)

lemma for_range_Suc: "a \<le> b \<Longrightarrow> for_range a (Suc b) body s = body b (for_range a b body s)"
  by (simp add: for_range_def)

lemma for_range_invariant:
  assumes "P a s" and "a \<le> b"
    and "\<And>i t. a \<le> i \<Longrightarrow> i < b \<Longrightarrow> P i t \<Longrightarrow> P (Suc i) (body i t)"
  shows "P b (for_range a b body s)"
  using assms(2,1,3)
proof (induction b rule: dec_induct)
  case base
  then show ?case by simp
next
  case (step n)
  then show ?case by (simp add: for_range_Suc)
qed

section \<open>Alignment\<close>

text \<open>\<open>ALIGN_DOWN\<close> and \<open>ALIGN_UP\<close> of \<open>macros.h\<close> on 64-bit values.\<close>

definition ALIGN_DOWN :: "u64 \<Rightarrow> u64 \<Rightarrow> u64" where
  "ALIGN_DOWN x a = x AND NOT (a - 1)"

definition ALIGN_UP :: "u64 \<Rightarrow> u64 \<Rightarrow> u64" where
  "ALIGN_UP x a = (x + (a - 1)) AND NOT (a - 1)"

lemma and_not_mask_eq: "(x :: 'a::len word) AND NOT (mask n) = push_bit n (drop_bit n x)"
  by (rule bit_word_eqI)
    (auto simp: bit_simps)

lemma pow2_minus_1_mask: "(2 :: 'a::len word) ^ n - 1 = mask n"
  by (simp add: mask_eq_exp_minus_1)

lemma unat_and_not_mask: "unat (x AND NOT (mask n) :: 'a::len word) = unat x div 2 ^ n * 2 ^ n"
proof -
  have "unat (x AND NOT (mask n)) = push_bit n (drop_bit n (unat x))"
    by (rule bit_eqI) (auto simp: bit_simps bit_unsigned_iff dest: bit_imp_le_length)
  then show ?thesis
    by (simp add: push_bit_eq_mult drop_bit_eq_div)
qed

lemma unat_mask_word: "n \<le> LENGTH('a) \<Longrightarrow> unat (mask n :: 'a::len word) = 2 ^ n - 1"
proof -
  assume "n \<le> LENGTH('a)"
  then have "unat (mask n :: 'a word) = mask n"
    by (intro bit_eqI) (auto simp: bit_simps bit_unsigned_iff)
  then show ?thesis by (simp add: mask_eq_exp_minus_1)
qed

lemma unat_exp_word: "k < LENGTH('a) \<Longrightarrow> unat (2 ^ k :: 'a::len word) = 2 ^ k"
proof -
  assume k: "k < LENGTH('a)"
  have "(2 ^ k :: 'a word) = of_nat (2 ^ k)" by simp
  then have "unat (2 ^ k :: 'a word) = 2 ^ k mod 2 ^ LENGTH('a)" by (simp only: unat_of_nat)
  with k show ?thesis by simp
qed

lemma unat_ucast_word: "unat (ucast x :: 'b::len word) = take_bit LENGTH('b) (unat x)"
  by transfer (simp add: nat_take_bit_eq [symmetric])

lemma unat_ALIGN_DOWN [align_simps]:
  "unat (ALIGN_DOWN x (2 ^ n)) = unat x div 2 ^ n * 2 ^ n"
  by (simp add: ALIGN_DOWN_def pow2_minus_1_mask unat_and_not_mask)

lemma unat_ALIGN_UP [align_simps]:
  assumes "n < 64" and "unat x + (2 ^ n - 1) < 2 ^ 64"
  shows "unat (ALIGN_UP x (2 ^ n)) = (unat x + (2 ^ n - 1)) div 2 ^ n * 2 ^ n"
proof -
  have "unat (mask n :: u64) = 2 ^ n - 1"
    using assms(1) by (simp add: unat_mask_word)
  then have "unat (x + mask n) = unat x + (2 ^ n - 1)"
    using assms(2) by (simp add: unat_word_ariths)
  then show ?thesis
    by (simp add: ALIGN_UP_def pow2_minus_1_mask unat_and_not_mask)
qed

section \<open>Flipping one bit\<close>

text \<open>The buddy of a block is found by flipping one bit of its page-frame number.\<close>

lemma bit_exp_le: "bit (p::nat) k \<Longrightarrow> 2 ^ k \<le> p"
  by (metis bit_iff_odd div_less even_zero leI)

lemma bit_word_exp_le: "bit (w :: 'a::len word) n \<Longrightarrow> 2 ^ n \<le> unat w"
  by (rule bit_exp_le) (simp add: bit_unsigned_iff bit_imp_le_length)

lemma xor_exp_nat: "(p::nat) XOR 2 ^ k = (if bit p k then p - 2 ^ k else p + 2 ^ k)"
proof -
  have "int (p XOR 2 ^ k) = flip_bit k (int p)"
    by (simp add: flip_bit_eq_xor of_nat_xor_eq)
  also have "\<dots> = (if bit p k then int p - 2 ^ k else int p + 2 ^ k)"
    by (simp add: flip_bit_eq_if set_bit_eq unset_bit_eq bit_of_nat_iff_bit)
  also have "\<dots> = int (if bit p k then p - 2 ^ k else p + 2 ^ k)"
    by (simp add: bit_exp_le of_nat_diff)
  finally show ?thesis by (simp only: of_nat_eq_iff)
qed

lemma xor_exp_less: assumes "p < 2 ^ n" and "k < n" shows "(p::nat) XOR 2 ^ k < 2 ^ n"
proof -
  have "take_bit n (p XOR 2 ^ k) = p XOR 2 ^ k"
    using assms by (simp add: take_bit_xor take_bit_of_exp take_bit_nat_eq_self)
  then show ?thesis by (simp only: take_bit_nat_eq_self_iff)
qed

lemma xor_exp_ge: assumes "p < 2 ^ n" and "n \<le> k" shows "2 ^ n \<le> (p::nat) XOR 2 ^ k"
proof -
  have "p < 2 ^ k" using assms by (meson less_le_trans one_le_numeral power_increasing)
  then have "\<not> bit p k" using bit_exp_le leD by blast
  moreover have "(2::nat) ^ n \<le> 2 ^ k" using assms by simp
  ultimately show ?thesis by (simp add: xor_exp_nat trans_le_add2)
qed

lemma max_min_xor_exp: "max (p XOR 2 ^ k) p = min (p XOR 2 ^ k) p + (2::nat) ^ k" 
  by (auto simp add: xor_exp_nat dest: bit_exp_le)

end
