(* ===== verification/Intrusive_List.thy ===== *)
theory Intrusive_List
  imports Prelude
begin

text \<open>
  The intrusive doubly linked lists of \<open>utils/datastructures.h\<close>. A list is a cycle of
  \<open>list_head_t\<close> nodes through a head node; nodes live inside other objects, so the model keeps
  one store of next and previous links over an arbitrary type of node addresses, and every
  operation performs exactly the pointer writes of the C code, in its order.
  \<open>dlist L h xs\<close> says that the cycle through head \<open>h\<close> visits the nodes \<open>xs\<close>.
  The locale \<open>list_family\<close> is the interface the kernel's clients use: many heads, many nodes,
  each node on at most one list; it turns the pointer operations into updates of a function
  from heads to sequences.
\<close>

section \<open>The code\<close>

record 'n list_head_t =
  lnext :: "'n \<Rightarrow> 'n"
  lprev :: "'n \<Rightarrow> 'n"

definition set_next :: "'n \<Rightarrow> 'n \<Rightarrow> 'n list_head_t \<Rightarrow> 'n list_head_t" where
  "set_next a v L = L\<lparr>lnext := (lnext L)(a := v)\<rparr>"

definition set_prev :: "'n \<Rightarrow> 'n \<Rightarrow> 'n list_head_t \<Rightarrow> 'n list_head_t" where
  "set_prev a v L = L\<lparr>lprev := (lprev L)(a := v)\<rparr>"

definition INIT_LIST_HEAD :: "'n \<Rightarrow> 'n list_head_t \<Rightarrow> 'n list_head_t" where
  "INIT_LIST_HEAD head L = set_prev head head (set_next head head L)"

definition list_add :: "'n \<Rightarrow> 'n \<Rightarrow> 'n list_head_t \<Rightarrow> 'n list_head_t" where
  "list_add newnode head L =
     (let L1 = set_next newnode (lnext L head) L;
          L2 = set_prev newnode head L1;
          L3 = set_prev (lnext L2 head) newnode L2
      in set_next head newnode L3)"

definition list_remove :: "'n \<Rightarrow> 'n list_head_t \<Rightarrow> 'n list_head_t" where
  "list_remove node L =
     (let L1 = set_next (lprev L node) (lnext L node) L;
          L2 = set_prev (lnext L1 node) (lprev L1 node) L1;
          L3 = set_next node node L2
      in set_prev node node L3)"

definition list_empty :: "'n \<Rightarrow> 'n list_head_t \<Rightarrow> bool" where
  "list_empty head L \<longleftrightarrow> lnext L head = head"

section \<open>Cycles\<close>

primrec seg :: "'n list_head_t \<Rightarrow> 'n \<Rightarrow> 'n list \<Rightarrow> 'n \<Rightarrow> bool" where
  "seg L a [] b \<longleftrightarrow> lnext L a = b \<and> lprev L b = a"
| "seg L a (x # xs) b \<longleftrightarrow> lnext L a = x \<and> lprev L x = a \<and> seg L x xs b"

definition dlist :: "'n list_head_t \<Rightarrow> 'n \<Rightarrow> 'n list \<Rightarrow> bool" where
  "dlist L h xs \<longleftrightarrow> distinct (h # xs) \<and> seg L h xs h"

text \<open>A node that is on no list points to itself.\<close>

definition unlinked :: "'n list_head_t \<Rightarrow> 'n \<Rightarrow> bool" where
  "unlinked L n \<longleftrightarrow> lnext L n = n \<and> lprev L n = n"

lemma lnext_set [simp]:
  "lnext (set_next a v L) = (lnext L)(a := v)" "lnext (set_prev a v L) = lnext L"
  "lprev (set_prev a v L) = (lprev L)(a := v)" "lprev (set_next a v L) = lprev L"
  by (simp_all add: set_next_def set_prev_def)

lemma lnext_list_add [simp]:
  "lnext (list_add n h L) = (lnext L)(n := lnext L h, h := n)"
  by (simp add: list_add_def Let_def)

lemma lprev_list_add:
  "n \<noteq> h \<Longrightarrow> lprev (list_add n h L) = (lprev L)(n := h, lnext L h := n)"
  by (simp add: list_add_def Let_def)

lemma lnext_list_remove: "lnext (list_remove n L) = (lnext L)(lprev L n := lnext L n, n := n)"
  by (simp add: list_remove_def Let_def)

lemma lprev_list_remove:
  "lprev L n \<noteq> n \<Longrightarrow> lprev (list_remove n L) = (lprev L)(lnext L n := lprev L n, n := n)"
  by (simp add: list_remove_def Let_def)

lemma seg_append: "seg L a (xs @ y # ys) b \<longleftrightarrow> seg L a xs y \<and> seg L y ys b"
  by (induction xs arbitrary: a) auto

text \<open>Writing links of nodes outside a segment does not change it.\<close>

lemma seg_cong:
  assumes "\<And>z. z \<in> insert a (set xs) \<Longrightarrow> lnext L' z = lnext L z"
    and "\<And>z. z \<in> insert b (set xs) \<Longrightarrow> lprev L' z = lprev L z"
  shows "seg L' a xs b \<longleftrightarrow> seg L a xs b"
  using assms by (induction xs arbitrary: a) auto

lemma seg_nextD: "seg L a xs b \<Longrightarrow> lnext L a = hd (xs @ [b])"
  by (cases xs) auto

lemma seg_prevD: "seg L a xs b \<Longrightarrow> lprev L b = last (a # xs)"
  by (induction xs arbitrary: a) auto

lemma dlist_next: "dlist L h xs \<Longrightarrow> lnext L h = hd (xs @ [h])"
  by (simp add: dlist_def seg_nextD)

lemma dlist_prev: "dlist L h xs \<Longrightarrow> lprev L h = last (h # xs)"
  unfolding dlist_def by (blast dest: seg_prevD)

lemma dlist_distinct: "dlist L h xs \<Longrightarrow> distinct xs \<and> h \<notin> set xs"
  by (simp add: dlist_def)

lemma dlist_init: "dlist (INIT_LIST_HEAD h L) h []"
  by (simp add: dlist_def INIT_LIST_HEAD_def)

lemma unlinked_init: "unlinked (INIT_LIST_HEAD n L) n"
  by (simp add: unlinked_def INIT_LIST_HEAD_def)

lemma dlist_empty: "dlist L h xs \<Longrightarrow> list_empty h L \<longleftrightarrow> xs = []"
  by (cases xs) (auto simp: dlist_def list_empty_def)

lemma dlist_add:
  assumes "dlist L h xs" and "n \<notin> set xs" and "n \<noteq> h"
  shows "dlist (list_add n h L) h (n # xs)"
proof (cases xs)
  case Nil
  with assms show ?thesis
    by (auto simp: dlist_def lprev_list_add)
next
  case (Cons y ys)
  let ?L = "list_add n h L"
  have "seg L y ys h" and nx: "lnext L h = y" and d: "distinct (h # y # ys)" "n \<notin> set (h # y # ys)"
    using assms Cons by (auto simp: dlist_def)
  then have "seg ?L y ys h \<longleftrightarrow> seg L y ys h"
    by (intro seg_cong) (auto simp: lprev_list_add)
  with \<open>seg L y ys h\<close> nx d Cons show ?thesis
    by (auto simp: dlist_def lprev_list_add)
qed

lemma seg_retarget:
  assumes "seg L a xs b" and "distinct (a # xs)"
    and "\<And>z. z \<in> set (butlast (a # xs)) \<Longrightarrow> lnext L' z = lnext L z"
    and "\<And>z. z \<in> set xs \<Longrightarrow> lprev L' z = lprev L z"
    and "lnext L' (last (a # xs)) = c" and "lprev L' c = last (a # xs)"
  shows "seg L' a xs c"
  using assms by (induction xs arbitrary: a) (auto split: if_splits)

lemma dlist_remove:
  assumes "dlist L h (as @ n # bs)"
  shows "dlist (list_remove n L) h (as @ bs)" and "unlinked (list_remove n L) n"
proof -
  let ?L = "list_remove n L"
  have d: "distinct (h # as @ n # bs)" and sa: "seg L h as n" and sb: "seg L n bs h"
    using assms by (auto simp: dlist_def seg_append)
  define p where "p = last (h # as)"
  define q where "q = hd (bs @ [h])"
  have p: "lprev L n = p" and q: "lnext L n = q"
    using seg_prevD [OF sa] seg_nextD [OF sb] by (simp_all add: p_def q_def)
  have pn: "p \<noteq> n" "q \<noteq> n" and pin: "p \<in> insert h (set as)" and qin: "q \<in> insert h (set bs)"
    using d by (auto simp: p_def q_def hd_append)
  have nx: "lnext ?L = (lnext L)(p := q, n := n)"
    and pv: "lprev ?L = (lprev L)(q := p, n := n)"
    using pn by (simp_all add: lnext_list_remove lprev_list_remove p q)
  show "unlinked ?L n"
    by (simp add: unlinked_def nx pv)
  have dist: "distinct (butlast (h # as) @ [p])"
    unfolding p_def using d by (subst append_butlast_last_id) auto
  then have pb: "p \<notin> set (butlast (h # as))" by simp
  have sub: "set (butlast (h # as)) \<subseteq> insert h (set as)"
    by (auto dest: in_set_butlastD split: if_splits)
  have front: "seg ?L h as q"
  proof (rule seg_retarget [OF sa])
    show "lnext ?L z = lnext L z" if "z \<in> set (butlast (h # as))" for z
      using that pb sub d by (auto simp: nx)
    show "lprev ?L z = lprev L z" if "z \<in> set as" for z
      using that qin d by (auto simp: pv)
  qed (use d pn in \<open>auto simp: nx pv p_def\<close>)
  have "seg ?L h (as @ bs) h"
  proof (cases bs)
    case Nil
    with front show ?thesis by (simp add: q_def)
  next
    case (Cons y ys)
    then have "q = y" and "seg L y ys h" using sb by (simp_all add: q_def)
    then have "seg ?L y ys h"
      using d Cons pin by (subst seg_cong [where L = L]) (auto simp: nx pv)
    with front \<open>q = y\<close> Cons show ?thesis by (simp add: seg_append)
  qed
  then show "dlist ?L h (as @ bs)"
    using d by (auto simp: dlist_def)
qed

text \<open>Lists that do not contain the nodes an operation writes keep their shape.\<close>

lemma dlist_cong:
  assumes "\<And>z. z \<in> insert h (set xs) \<Longrightarrow> lnext L' z = lnext L z \<and> lprev L' z = lprev L z"
  shows "dlist L' h xs \<longleftrightarrow> dlist L h xs"
  unfolding dlist_def using seg_cong [of h xs L' L h] assms by auto

lemma dlist_add_frame:
  assumes "dlist L h' ys" and "dlist L h xs" and "n \<noteq> h"
    and "insert h' (set ys) \<inter> insert n (insert h (set xs)) = {}"
  shows "dlist (list_add n h L) h' ys"
proof -
  have "lnext L h \<in> insert h (set xs)"
    using dlist_next [OF assms(2)] by (cases xs) auto
  then show ?thesis
    using assms by (subst dlist_cong [where L = L]) (auto simp: lprev_list_add)
qed

lemma dlist_remove_frame:
  assumes "dlist L h' ys" and "dlist L h (as @ n # bs)"
    and "insert h' (set ys) \<inter> insert h (set (as @ n # bs)) = {}"
  shows "dlist (list_remove n L) h' ys"
proof -
  have sa: "seg L h as n" and sb: "seg L n bs h" and d: "distinct (h # as @ n # bs)"
    using assms(2) by (auto simp: dlist_def seg_append)
  have "lprev L n \<in> insert h (set as)" "lnext L n \<in> insert h (set bs)"
    using seg_prevD [OF sa] seg_nextD [OF sb] by (auto simp: hd_append)
  moreover from this d have "lprev L n \<noteq> n" by auto
  ultimately show ?thesis
    using assms
    by (subst dlist_cong [where L = L]) (auto simp: lnext_list_remove lprev_list_remove)
qed

text \<open>Removing a node that is on no list changes nothing.\<close>

lemma list_remove_unlinked: "unlinked L n \<Longrightarrow> list_remove n L = L"
  by (cases L) (auto simp: unlinked_def list_remove_def Let_def set_next_def set_prev_def
      fun_upd_idem_iff)

section \<open>Families of lists\<close>

text \<open>
  \<open>lists_of head node L K F\<close>: the store \<open>L\<close> holds, for every key \<open>k\<close> of \<open>K\<close>, the list
  \<open>F k\<close> of elements at head \<open>head k\<close>, and no element is on two lists.
\<close>

definition lists_of ::
  "('k \<Rightarrow> 'n) \<Rightarrow> ('a \<Rightarrow> 'n) \<Rightarrow> 'n list_head_t \<Rightarrow> 'k set \<Rightarrow> ('k \<Rightarrow> 'a list) \<Rightarrow> bool" where
  "lists_of head node L K F \<longleftrightarrow>
     (\<forall>k\<in>K. dlist L (head k) (map node (F k))) \<and>
     (\<forall>j\<in>K. \<forall>k\<in>K. j \<noteq> k \<longrightarrow> set (F j) \<inter> set (F k) = {})"

locale list_family =
  fixes head :: "'k \<Rightarrow> 'n" and node :: "'a \<Rightarrow> 'n"
  assumes inj_head: "inj head" and inj_node: "inj node" and head_not_node: "head k \<noteq> node a"
begin

lemma head_eq [simp]: "head j = head k \<longleftrightarrow> j = k"
  using inj_head by (auto dest: injD)

lemma node_eq [simp]: "node a = node b \<longleftrightarrow> a = b"
  using inj_node by (auto dest: injD)

lemma node_mem [simp]: "node a \<in> node ` A \<longleftrightarrow> a \<in> A"
  by auto

text \<open>Initialising every head of a family gives a family of empty lists.\<close>

lemma family_init:
  "lists_of head node (fold (\<lambda>k. INIT_LIST_HEAD (head k)) ks L) (set ks) (\<lambda>_. [])"
proof (induction ks rule: rev_induct)
  case Nil
  then show ?case by (simp add: lists_of_def)
next
  case (snoc k ks)
  let ?L = "fold (\<lambda>k. INIT_LIST_HEAD (head k)) ks L"
  have "dlist (INIT_LIST_HEAD (head k) ?L) (head j) []" if "j \<in> set (ks @ [k])" for j
  proof (cases "j = k")
    case True
    then show ?thesis by (simp add: dlist_init)
  next
    case False
    with that snoc have "dlist ?L (head j) []" by (auto simp: lists_of_def)
    with False show ?thesis
      by (subst dlist_cong [where L = ?L]) (auto simp: INIT_LIST_HEAD_def)
  qed
  then show ?case by (simp add: lists_of_def)
qed

lemma family_distinct: "lists_of head node L K F \<Longrightarrow> k \<in> K \<Longrightarrow> distinct (F k)"
  unfolding lists_of_def by (auto dest!: dlist_distinct simp: distinct_map)

lemma family_disjoint:
  "lists_of head node L K F \<Longrightarrow> j \<in> K \<Longrightarrow> k \<in> K \<Longrightarrow> a \<in> set (F j) \<Longrightarrow> a \<in> set (F k) \<Longrightarrow> j = k"
  unfolding lists_of_def by blast

lemma family_empty:
  "lists_of head node L K F \<Longrightarrow> k \<in> K \<Longrightarrow> list_empty (head k) L \<longleftrightarrow> F k = []"
  unfolding lists_of_def by (auto dest: dlist_empty)

lemma family_first:
  assumes "lists_of head node L K F" and "k \<in> K" and "F k = a # as"
  shows "lnext L (head k) = node a"
  using assms dlist_next [of L "head k" "map node (F k)"] by (auto simp: lists_of_def)

lemma family_last:
  assumes "lists_of head node L K F" and "k \<in> K" and "F k = as @ [a]"
  shows "lprev L (head k) = node a"
  using assms dlist_prev [of L "head k" "map node (F k)"] by (auto simp: lists_of_def)

lemma family_add:
  assumes fam: "lists_of head node L K F" and k: "k \<in> K"
    and fresh: "\<And>j. j \<in> K \<Longrightarrow> a \<notin> set (F j)"
  shows "lists_of head node (list_add (node a) (head k) L) K (F(k := a # F k))"
proof -
  let ?L = "list_add (node a) (head k) L"
  have kk: "dlist L (head k) (map node (F k))" using fam k by (simp add: lists_of_def)
  have "dlist ?L (head j) (map node ((F(k := a # F k)) j))" if "j \<in> K" for j
  proof (cases "j = k")
    case True
    with dlist_add [OF kk, of "node a"] fresh k head_not_node [of k a] show ?thesis by auto
  next
    case False
    have "insert (head j) (set (map node (F j))) \<inter>
        insert (node a) (insert (head k) (set (map node (F k)))) = {}"
      using fam that k False fresh [OF that] head_not_node head_not_node [symmetric]
      unfolding lists_of_def by fastforce
    moreover have "dlist L (head j) (map node (F j))" using fam that by (simp add: lists_of_def)
    ultimately have "dlist ?L (head j) (map node (F j))"
      using dlist_add_frame [OF _ kk, of "head j" "map node (F j)" "node a"]
        head_not_node [of k a] by metis
    with False show ?thesis by simp
  qed
  with fam fresh show ?thesis
    unfolding lists_of_def by auto
qed

lemma family_remove:
  assumes fam: "lists_of head node L K F" and k: "k \<in> K" and a: "a \<in> set (F k)"
  shows "lists_of head node (list_remove (node a) L) K (F(k := remove1 a (F k)))"
    and "unlinked (list_remove (node a) L) (node a)"
proof -
  let ?L = "list_remove (node a) L"
  obtain xs ys where F: "F k = xs @ a # ys" and nx: "a \<notin> set xs"
    using a by (blast dest: split_list_first)
  have r: "remove1 a (F k) = xs @ ys" using F nx by (simp add: remove1_append)
  have kk: "dlist L (head k) (map node xs @ node a # map node ys)"
    using fam k F unfolding lists_of_def by fastforce
  show "unlinked ?L (node a)" using dlist_remove(2) [OF kk] .
  have "dlist ?L (head j) (map node ((F(k := xs @ ys)) j))" if "j \<in> K" for j
  proof (cases "j = k")
    case True
    with dlist_remove(1) [OF kk] show ?thesis by simp
  next
    case False
    have "insert (head j) (set (map node (F j))) \<inter>
        insert (head k) (set (map node xs @ node a # map node ys)) = {}"
      using fam that k False F head_not_node head_not_node [symmetric]
      unfolding lists_of_def by fastforce
    moreover have "dlist L (head j) (map node (F j))" using fam that by (simp add: lists_of_def)
    ultimately have "dlist ?L (head j) (map node (F j))"
      using dlist_remove_frame [OF _ kk] by blast
    with False show ?thesis by simp
  qed
  moreover have "set ((F(k := xs @ ys)) i) \<inter> set ((F(k := xs @ ys)) j) = {}"
    if "i \<in> K" "j \<in> K" "i \<noteq> j" for i j
  proof -
    have "set (xs @ ys) \<subseteq> set (F k)" using F by auto
    with fam that k show ?thesis unfolding lists_of_def by (simp split: if_splits) blast
  qed
  ultimately show "lists_of head node ?L K (F(k := remove1 a (F k)))"
    unfolding lists_of_def r by blast
qed

end

end
