(* ===== verification/Buddy.thy ===== *)
theory Buddy
  imports Intrusive_List
begin

text \<open>
  The page allocator of \<open>memory/paging.c\<close>: the page-frame array that describes the first GiB
  of physical RAM and the buddy allocator over it. The state is the array and the store of list
  links of the free lists; addresses are 64-bit words, page-frame numbers and orders are natural
  numbers (they are below \<open>2 ^ 18\<close> and \<open>19\<close>). Every array access outside the page-frame array
  is a \<open>WildAccess\<close>.
\<close>

section \<open>Types and constants\<close>

text \<open>\<open>page_state\<close> and \<open>page_flags\<close> are stored in bit fields of 3 and 5 bits.\<close>

abbreviation PAGE_FREE :: "3 word" where "PAGE_FREE \<equiv> 0"
abbreviation PAGE_BUDDY :: "3 word" where "PAGE_BUDDY \<equiv> 1"
abbreviation PAGE_SLAB :: "3 word" where "PAGE_SLAB \<equiv> 2"
abbreviation PAGE_RESERVED :: "3 word" where "PAGE_RESERVED \<equiv> 3"

abbreviation PAGE_BUDDY_TAIL :: "5 word" where "PAGE_BUDDY_TAIL \<equiv> 1"
abbreviation PAGE_BUDDY_HEAD :: "5 word" where "PAGE_BUDDY_HEAD \<equiv> 2"

text \<open>
  The \<open>list\<close> member of \<open>page_frame_t\<close> lives in the link store, addressed by \<open>FrameNode pfn\<close>.
  For a head page \<open>order\<close> is the order of its block, for a tail page the number of its head.
\<close>

record page_frame_t =
  pf_order :: nat
  pf_refcount :: u32
  pf_state :: "3 word"
  pf_flags :: "5 word"

datatype buddy_node = BuddyList nat | FrameNode nat | NullNode

record buddy =
  frame_metadata :: "nat \<Rightarrow> page_frame_t"
  buddy_links :: "buddy_node list_head_t"

definition MAX_ORDER :: nat where "MAX_ORDER = 18"

definition NPAGES :: nat where "NPAGES = 2 ^ 18"

definition VIRT_BASE :: u64 where "VIRT_BASE = 0xFFFF800000000000"

definition va_to_pa :: "u64 \<Rightarrow> u64" where "va_to_pa va = va - VIRT_BASE"

definition pa_to_va :: "u64 \<Rightarrow> u64" where "pa_to_va pa = pa + VIRT_BASE"

definition pfn_of :: "u64 \<Rightarrow> nat" where
  "pfn_of addr = unat (drop_bit 12 (va_to_pa addr))"

definition page_addr :: "nat \<Rightarrow> u64" where
  "page_addr pfn = pa_to_va (push_bit 12 (of_nat pfn))"

definition set_frame :: "nat \<Rightarrow> (page_frame_t \<Rightarrow> page_frame_t) \<Rightarrow> buddy \<Rightarrow> buddy" where
  "set_frame p f st = st\<lparr>frame_metadata := (frame_metadata st)(p := f (frame_metadata st p))\<rparr>"

definition set_links ::
  "(buddy_node list_head_t \<Rightarrow> buddy_node list_head_t) \<Rightarrow> buddy \<Rightarrow> buddy" where
  "set_links f st = st\<lparr>buddy_links := f (buddy_links st)\<rparr>"

text \<open>\<open>list_entry(buddy_lists[k].next, page_frame_t, list)\<close>.\<close>

definition first_frame :: "nat \<Rightarrow> buddy \<Rightarrow> nat result" where
  "first_frame k st =
     (case lnext (buddy_links st) (BuddyList k) of FrameNode p \<Rightarrow> Inr p | _ \<Rightarrow> Inl WildAccess)"

section \<open>Allocation\<close>

text \<open>
  One level of \<open>_split_down\<close>: the first block of order \<open>curr_order\<close> leaves its list and its two
  halves enter the list below it.
\<close>

definition split_block :: "nat \<Rightarrow> nat \<Rightarrow> buddy \<Rightarrow> buddy" where
  "split_block pfn curr_order st =
     (let buddy_pfn = pfn + 2 ^ (curr_order - 1);
          s1 = set_links (list_remove (lnext (buddy_links st) (BuddyList curr_order))) st;
          s2 = set_links (list_add (FrameNode buddy_pfn) (BuddyList (curr_order - 1))) s1;
          s3 = set_links (list_add (FrameNode pfn) (BuddyList (curr_order - 1))) s2;
          s4 = set_frame pfn (\<lambda>f. f\<lparr>pf_order := curr_order - 1\<rparr>) s3;
          s5 = set_frame buddy_pfn (\<lambda>f. f\<lparr>pf_order := curr_order - 1\<rparr>) s4;
          s6 = set_frame buddy_pfn (\<lambda>f. f\<lparr>pf_flags := PAGE_BUDDY_HEAD\<rparr>) s5;
          s7 = set_frame buddy_pfn (\<lambda>f. f\<lparr>pf_state := PAGE_FREE\<rparr>) s6
      in for_range 1 (2 ^ (curr_order - 1))
           (\<lambda>j s. set_frame (pfn + j) (\<lambda>f. f\<lparr>pf_order := pfn, pf_flags := PAGE_BUDDY_TAIL\<rparr>)
              (set_frame (buddy_pfn + j)
                 (\<lambda>f. f\<lparr>pf_order := buddy_pfn, pf_flags := PAGE_BUDDY_TAIL\<rparr>) s)) s7)"

fun split_down :: "nat \<Rightarrow> nat \<Rightarrow> buddy \<Rightarrow> (nat \<times> buddy) result" where
  "split_down req_order curr_order st =
     bindR (first_frame curr_order st) (\<lambda>pfn.
       if req_order = curr_order then Inr (pfn, st)
       else if curr_order = 0 \<or> NPAGES < pfn + 2 ^ curr_order then Inl WildAccess
       else split_down req_order (curr_order - 1) (split_block pfn curr_order st))"

declare split_down.simps [simp del]

definition alloc_and_return :: "nat \<Rightarrow> buddy \<Rightarrow> (u64 \<times> buddy) result" where
  "alloc_and_return req_order st =
     bindR (first_frame req_order st) (\<lambda>pfn.
       if NPAGES < pfn + 2 ^ req_order then Inl WildAccess
       else
         let s1 = set_links (list_remove (FrameNode pfn)) st;
             s2 = set_frame pfn (\<lambda>f. f\<lparr>pf_refcount := 1\<rparr>) s1;
             s3 = set_frame pfn (\<lambda>f. f\<lparr>pf_state := PAGE_BUDDY\<rparr>) s2;
             s4 = set_frame pfn (\<lambda>f. f\<lparr>pf_flags := pf_flags f OR PAGE_BUDDY_HEAD\<rparr>) s3;
             s5 = for_range 1 (2 ^ req_order)
                    (\<lambda>i. set_frame (pfn + i)
                       (\<lambda>f. f\<lparr>pf_flags := PAGE_BUDDY_TAIL, pf_state := PAGE_BUDDY,
                              pf_refcount := 1, pf_order := pfn\<rparr>)) s4
         in Inr (page_addr pfn, s5))"

text \<open>
  The size of a request: bytes are rounded up to pages, the page count is truncated to 32 bits,
  and the loop finds the least order whose block is large enough. The shift \<open>1U << 32\<close> is
  undefined, which the loop reaches for more than \<open>2 ^ 31\<close> pages.
\<close>

definition request_pages :: "u64 \<Rightarrow> u32" where
  "request_pages bytes = ucast (drop_bit 12 (bytes + 4095))"

function find_order :: "nat \<Rightarrow> u32 \<Rightarrow> nat result" where
  "find_order ord n_pages =
     (if 32 \<le> ord then Inl WildAccess
      else if push_bit ord 1 < n_pages then find_order (Suc ord) n_pages
      else Inr ord)"
  by pat_completeness auto
termination
  by (relation "measure (\<lambda>(ord, n). 32 - ord)") auto

declare find_order.simps [simp del]

text \<open>The search for a larger block, from order \<open>i\<close> up to \<open>MAX_ORDER\<close>.\<close>

function alloc_from :: "nat \<Rightarrow> nat \<Rightarrow> buddy \<Rightarrow> (u64 \<times> buddy) result" where
  "alloc_from req_order i st =
     (if MAX_ORDER < i then Inr (0, st)
      else if \<not> list_empty (BuddyList i) (buddy_links st)
      then bindR (split_down req_order i st) (\<lambda>(_, st'). alloc_and_return req_order st')
      else alloc_from req_order (Suc i) st)"
  by pat_completeness auto
termination
  by (relation "measure (\<lambda>(r, i, st). Suc MAX_ORDER - i)") auto

declare alloc_from.simps [simp del]

definition buddy_alloc :: "u64 \<Rightarrow> buddy \<Rightarrow> (u64 \<times> buddy) result" where
  "buddy_alloc bytes st =
     bindR (find_order 0 (request_pages bytes)) (\<lambda>requested_order.
       if MAX_ORDER < requested_order then Inr (0, st)
       else if \<not> list_empty (BuddyList requested_order) (buddy_links st)
       then alloc_and_return requested_order st
       else alloc_from requested_order (Suc requested_order) st)"

section \<open>Release\<close>

text \<open>
  The merge that \<open>coalesce_up\<close> performs on two adjacent free blocks of order \<open>block_order\<close>.
\<close>

definition merge_blocks :: "nat \<Rightarrow> nat \<Rightarrow> nat \<Rightarrow> buddy \<Rightarrow> buddy" where
  "merge_blocks prev_frame next_frame block_order st =
     (let s1 = set_links (list_remove (FrameNode prev_frame)) st;
          s2 = set_links (list_remove (FrameNode next_frame)) s1;
          s3 = set_frame next_frame (\<lambda>f. f\<lparr>pf_flags := PAGE_BUDDY_TAIL\<rparr>) s2;
          s4 = for_range 0 (2 ^ block_order)
                 (\<lambda>i. set_frame (next_frame + i) (\<lambda>f. f\<lparr>pf_order := prev_frame\<rparr>)) s3;
          s5 = set_frame prev_frame (\<lambda>f. f\<lparr>pf_order := Suc (pf_order f)\<rparr>) s4
      in set_links (list_add (FrameNode prev_frame) (BuddyList (Suc block_order))) s5)"

lemma set_frame_sel [simp]:
  "frame_metadata (set_frame p f st) = (frame_metadata st)(p := f (frame_metadata st p))"
  "buddy_links (set_frame p f st) = buddy_links st"
  by (simp_all add: set_frame_def)

lemma set_links_sel [simp]:
  "frame_metadata (set_links g st) = frame_metadata st"
  "buddy_links (set_links g st) = g (buddy_links st)"
  by (simp_all add: set_links_def)

text \<open>A counting loop that rewrites the frames of a range.\<close>

lemma frames_for_range:
  assumes "\<And>i s. body i s = set_frame (b + i) f s"
  shows "frame_metadata (for_range m n body st) =
      (\<lambda>x. if b + m \<le> x \<and> x < b + n then f (frame_metadata st x) else frame_metadata st x)"
    and "buddy_links (for_range m n body st) = buddy_links st"
proof -
  have "frame_metadata (for_range m n body st) =
      (\<lambda>x. if b + m \<le> x \<and> x < b + n then f (frame_metadata st x) else frame_metadata st x) \<and>
      buddy_links (for_range m n body st) = buddy_links st"
  proof (cases "m \<le> n")
    case True
    then show ?thesis
    proof (induction n rule: dec_induct)
      case base
      then show ?case by (auto simp: fun_eq_iff)
    next
      case (step n)
      then show ?case by (auto simp: for_range_Suc assms fun_eq_iff)
    qed
  qed (auto simp: fun_eq_iff)
  then show "frame_metadata (for_range m n body st) =
      (\<lambda>x. if b + m \<le> x \<and> x < b + n then f (frame_metadata st x) else frame_metadata st x)"
    and "buddy_links (for_range m n body st) = buddy_links st" by blast+
qed

lemma merge_blocks_frames:
  assumes "prv < nxt"
  shows "frame_metadata (merge_blocks prv nxt k st) =
    (\<lambda>x. if x = prv then (frame_metadata st prv)\<lparr>pf_order := Suc (pf_order (frame_metadata st prv))\<rparr>
         else if nxt \<le> x \<and> x < nxt + 2 ^ k
         then (if x = nxt then (frame_metadata st x)\<lparr>pf_order := prv, pf_flags := PAGE_BUDDY_TAIL\<rparr>
               else (frame_metadata st x)\<lparr>pf_order := prv\<rparr>)
         else frame_metadata st x)"
  using assms
  by (auto simp: merge_blocks_def Let_def frames_for_range [OF refl] fun_eq_iff)

function coalesce_up :: "nat \<Rightarrow> buddy \<Rightarrow> buddy result" where
  "coalesce_up curr_pfn st =
     (let block_order = pf_order (frame_metadata st curr_pfn);
          buddy = curr_pfn XOR 2 ^ block_order;
          prev_frame = min buddy curr_pfn;
          next_frame = max buddy curr_pfn
      in if NPAGES \<le> next_frame then Inl WildAccess
         else if pf_order (frame_metadata st prev_frame) \<noteq> pf_order (frame_metadata st next_frame)
         then Inr st
         else if pf_state (frame_metadata st prev_frame) = PAGE_FREE \<and>
                 pf_state (frame_metadata st next_frame) = PAGE_FREE
         then (if NPAGES < next_frame + 2 ^ block_order then Inl WildAccess
               else coalesce_up prev_frame (merge_blocks prev_frame next_frame block_order st))
         else Inr st)"
  by pat_completeness auto

termination
proof (relation "measure (\<lambda>(p, st). MAX_ORDER - pf_order (frame_metadata st p))", goal_cases)
  case 1
  show ?case by simp
next
  case (2 curr st k buddy prv nxt)
  have lt: "prv < nxt"
    using 2 max_min_xor_exp [of curr k] by simp
  have ord: "pf_order (frame_metadata st prv) = k"
    using 2 by (auto simp: min_def max_def split: if_splits)
  have "curr < 2 ^ 18" "buddy < 2 ^ 18" using 2 by (auto simp: NPAGES_def)
  with xor_exp_ge [of curr 18 k] 2(2) have "k < 18" using leD linorder_not_less by blast
  then have "MAX_ORDER - Suc k < MAX_ORDER - k" unfolding MAX_ORDER_def by linarith
  moreover have "pf_order (frame_metadata (merge_blocks prv nxt k st) prv) = Suc k"
    by (simp add: merge_blocks_frames [OF lt] ord)
  ultimately show ?case using 2(1) by simp
qed

declare coalesce_up.simps [simp del]

definition buddy_free :: "u64 \<Rightarrow> buddy \<Rightarrow> buddy result" where
  "buddy_free page st =
     (let pfn = pfn_of page; frame = frame_metadata st pfn
      in if NPAGES \<le> pfn then Inl WildAccess
         else if pf_flags frame AND PAGE_BUDDY_HEAD = 0 then Inr st
         else if pf_state frame = PAGE_FREE then Inr st
         else
           let s1 = set_frame pfn (\<lambda>f. f\<lparr>pf_state := PAGE_FREE\<rparr>) st;
               block_order = pf_order (frame_metadata s1 pfn)
           in if MAX_ORDER < block_order then Inl WildAccess
              else
                let s2 = set_links (list_add (FrameNode pfn) (BuddyList block_order)) s1
                in if block_order < MAX_ORDER then coalesce_up pfn s2 else Inr s2)"

section \<open>Reference counts and ownership\<close>

text \<open>
  \<open>decrement_ref\<close> returns the new count, \<open>-2\<close> for a reserved page and \<open>-1\<close> for a page that is
  not a block head, as 64-bit values. The count is read again after \<open>buddy_free\<close>.
\<close>

definition decrement_ref :: "u64 \<Rightarrow> buddy \<Rightarrow> (u64 \<times> buddy) result" where
  "decrement_ref addr st =
     (let pfn = pfn_of addr; pf = frame_metadata st pfn
      in if NPAGES \<le> pfn then Inl WildAccess
         else if pf_state pf = PAGE_RESERVED then Inr (- 2, st)
         else if pf_flags pf AND PAGE_BUDDY_HEAD = 0 then Inr (- 1, st)
         else
           let s1 = set_frame pfn (\<lambda>f. f\<lparr>pf_refcount := pf_refcount f - 1\<rparr>) st
           in bindR (if pf_refcount (frame_metadata s1 pfn) = 0 then buddy_free addr s1 else Inr s1)
                (\<lambda>s2. Inr (ucast (pf_refcount (frame_metadata s2 pfn)), s2)))"

text \<open>The page whose metadata describes the block of \<open>page_addr\<close>: the head, for a tail page.\<close>

definition owner_pfn :: "u64 \<Rightarrow> buddy \<Rightarrow> nat result" where
  "owner_pfn addr st =
     (let pfn = pfn_of addr
      in if NPAGES \<le> pfn then Inl WildAccess
         else
           let pfn' = (if pf_flags (frame_metadata st pfn) AND PAGE_BUDDY_TAIL \<noteq> 0
                       then pf_order (frame_metadata st pfn) else pfn)
           in if NPAGES \<le> pfn' then Inl WildAccess else Inr pfn')"

definition set_page_owner :: "u64 \<Rightarrow> 3 word \<Rightarrow> buddy \<Rightarrow> buddy result" where
  "set_page_owner addr new_owner st =
     bindR (owner_pfn addr st) (\<lambda>pfn. Inr (set_frame pfn (\<lambda>f. f\<lparr>pf_state := new_owner\<rparr>) st))"

definition get_page_owner :: "u64 \<Rightarrow> buddy \<Rightarrow> (3 word) result" where
  "get_page_owner addr st =
     bindR (owner_pfn addr st) (\<lambda>pfn. Inr (pf_state (frame_metadata st pfn)))"

definition head_from_page :: "u64 \<Rightarrow> buddy \<Rightarrow> u64 result" where
  "head_from_page addr st =
     (let pfn = pfn_of addr
      in if NPAGES \<le> pfn then Inl WildAccess
         else
           let pfn' = (if pf_flags (frame_metadata st pfn) = PAGE_BUDDY_TAIL
                       then pf_order (frame_metadata st pfn) else pfn)
           in if NPAGES \<le> pfn' then Inl WildAccess
              else if pf_flags (frame_metadata st pfn') AND PAGE_BUDDY_HEAD \<noteq> 0
              then Inr (page_addr pfn') else Inr 0)"

definition get_block_order :: "u64 \<Rightarrow> buddy \<Rightarrow> u8 result" where
  "get_block_order addr st =
     (if addr AND 0xFFF \<noteq> 0 then Inr (- 1)
      else let pfn = unat (drop_bit 12 addr)
           in if NPAGES \<le> pfn then Inl WildAccess
              else Inr (of_nat (pf_order (frame_metadata st pfn))))"

section \<open>Initialisation\<close>

text \<open>
  One step of the loop of \<open>_initialize_buddy_allocator\<close>, which places a block of order \<open>i\<close> where
  bit \<open>i\<close> of the page count is set. As in the source, the tail pages get the value of
  \<open>PAGE_BUDDY_TAIL\<close> in their state field, not in their flags.
\<close>

definition init_block :: "nat \<Rightarrow> nat \<Rightarrow> (nat \<times> buddy) result \<Rightarrow> (nat \<times> buddy) result" where
  "init_block available_pages i r =
     bindR r (\<lambda>(curr_pfn, st).
       if \<not> bit available_pages i then Inr (curr_pfn, st)
       else if NPAGES < curr_pfn + 2 ^ i then Inl WildAccess
       else
         let s1 = set_frame curr_pfn (\<lambda>f. f\<lparr>pf_order := i\<rparr>) st;
             s2 = for_range 1 (2 ^ i)
                    (\<lambda>j. set_frame (curr_pfn + j)
                       (\<lambda>f. f\<lparr>pf_order := curr_pfn, pf_state := ucast PAGE_BUDDY_TAIL\<rparr>)) s1;
             s3 = set_frame curr_pfn
                    (\<lambda>f. f\<lparr>pf_state := PAGE_FREE, pf_flags := PAGE_BUDDY_HEAD\<rparr>) s2;
             s4 = set_links (list_add (FrameNode curr_pfn) (BuddyList i)) s3
         in Inr (curr_pfn + 2 ^ i, s4))"

definition initialize_buddy_allocator :: "nat \<Rightarrow> nat \<Rightarrow> buddy \<Rightarrow> buddy result" where
  "initialize_buddy_allocator start_pfn available_pages st =
     map_sum id snd
       (fold (init_block available_pages) (rev [0..<Suc MAX_ORDER]) (Inr (start_pfn, st)))"

definition zero_frame :: page_frame_t where
  "zero_frame = \<lparr>pf_order = 0, pf_refcount = 0, pf_state = 0, pf_flags = 0\<rparr>"

text \<open>\<open>memset(frame_metadata, 0, ...)\<close> clears the frames and the links inside them.\<close>

definition zero_links :: "buddy_node list_head_t \<Rightarrow> buddy_node list_head_t" where
  "zero_links L =
     L\<lparr>lnext := (\<lambda>n. case n of FrameNode p \<Rightarrow> if p < NPAGES then NullNode else lnext L n | _ \<Rightarrow> lnext L n),
       lprev := (\<lambda>n. case n of FrameNode p \<Rightarrow> if p < NPAGES then NullNode else lprev L n | _ \<Rightarrow> lprev L n)\<rparr>"

text \<open>
  \<open>reserved_memory\<close> is \<open>get_phys_test_region() + get_test_size()\<close>, the end of the kernel image as
  the linker script lays it out. It is a physical address below 1 GiB.
\<close>

definition initialize_page_frame_array :: "nat \<Rightarrow> buddy \<Rightarrow> (nat \<times> buddy) result" where
  "initialize_page_frame_array reserved_memory st =
     (let s0 = set_links (\<lambda>L. fold (\<lambda>k. INIT_LIST_HEAD (BuddyList k)) [0..<Suc MAX_ORDER] L) st;
          reserved_pages = (reserved_memory + 0xFFF) div 2 ^ 12;
          start_page_addr = (reserved_memory + 0xFFF) div 2 ^ 12 * 2 ^ 12
      in if NPAGES < reserved_pages then Inl WildAccess
         else
           let available_pages = 2 ^ 18 - reserved_pages;
               s1 = set_links zero_links
                      (s0\<lparr>frame_metadata :=
                         (\<lambda>p. if p < NPAGES then zero_frame else frame_metadata s0 p)\<rparr>);
               s2 = for_range 0 reserved_pages
                      (\<lambda>i. set_frame (0 + i) (\<lambda>f. f\<lparr>pf_state := PAGE_RESERVED\<rparr>)) s1
           in bindR (initialize_buddy_allocator (start_page_addr div 2 ^ 12) available_pages s2)
                (\<lambda>s3. Inr (reserved_pages, s3)))"

end
