(* ===== verification/Buddy_Correct.thy ===== *)
theory Buddy_Correct
  imports Buddy
begin

text \<open>
  Correctness of the page allocator. The invariant \<open>buddy_wf\<close> says that blocks tile the managed
  part of RAM, that allocated blocks carry complete tail metadata and that the free lists hold
  exactly the free block heads. Every operation keeps it and never leaves the page-frame array;
  the locale \<open>page_allocator\<close> states what a client may rely on and derives the safety of whole
  runs of requests.
\<close>

section \<open>Tilings\<close>

definition is_head :: "page_frame_t \<Rightarrow> bool" where
  "is_head f \<longleftrightarrow> pf_flags f AND PAGE_BUDDY_HEAD \<noteq> 0"

text \<open>\<open>one_block p k fr\<close>: page \<open>p\<close> heads a block of order \<open>k\<close> and the pages after it point back.\<close>

definition one_block :: "nat \<Rightarrow> nat \<Rightarrow> (nat \<Rightarrow> page_frame_t) \<Rightarrow> bool" where
  "one_block p k fr \<longleftrightarrow> is_head (fr p) \<and> pf_order (fr p) = k \<and>
     (\<forall>q. p < q \<and> q < p + 2 ^ k \<longrightarrow> \<not> is_head (fr q) \<and> pf_order (fr q) = p)"

definition tiles :: "nat \<Rightarrow> nat \<Rightarrow> (nat \<Rightarrow> page_frame_t) \<Rightarrow> bool" where
  "tiles lo hi fr \<longleftrightarrow>
     (\<forall>p. lo \<le> p \<and> p < hi \<and> is_head (fr p) \<longrightarrow>
        p + 2 ^ pf_order (fr p) \<le> hi \<and> one_block p (pf_order (fr p)) fr) \<and>
     (\<forall>q. lo \<le> q \<and> q < hi \<longrightarrow>
        (\<exists>p. lo \<le> p \<and> p \<le> q \<and> is_head (fr p) \<and> q < p + 2 ^ pf_order (fr p)))"

lemma tiles_blockD:
  "tiles lo hi fr \<Longrightarrow> lo \<le> p \<Longrightarrow> p < hi \<Longrightarrow> is_head (fr p) \<Longrightarrow>
   p + 2 ^ pf_order (fr p) \<le> hi \<and> one_block p (pf_order (fr p)) fr"
  by (simp add: tiles_def)

lemma tiles_coverD:
  assumes "tiles lo hi fr" and "lo \<le> q" and "q < hi"
  obtains p where "lo \<le> p" "p \<le> q" "is_head (fr p)" "q < p + 2 ^ pf_order (fr p)"
    "q \<noteq> p \<Longrightarrow> pf_order (fr q) = p \<and> \<not> is_head (fr q)"
proof -
  from assms obtain p where p: "lo \<le> p" "p \<le> q" "is_head (fr p)" "q < p + 2 ^ pf_order (fr p)"
    unfolding tiles_def by blast
  moreover have "q \<noteq> p \<Longrightarrow> pf_order (fr q) = p \<and> \<not> is_head (fr q)"
    using tiles_blockD [OF assms(1), of p] p assms(3) by (auto simp: one_block_def)
  ultimately show ?thesis by (rule that)
qed

lemma one_block_cong:
  "(\<And>q. p \<le> q \<Longrightarrow> q < p + 2 ^ k \<Longrightarrow> fr q = gr q) \<Longrightarrow> one_block p k fr = one_block p k gr"
  by (auto simp: one_block_def)

lemma tiles_cong:
  assumes "\<And>q. lo \<le> q \<Longrightarrow> q < hi \<Longrightarrow> fr q = gr q"
  shows "tiles lo hi fr \<longleftrightarrow> tiles lo hi gr"
proof -
  have "tiles lo hi gr" if t: "tiles lo hi fr" and e: "\<And>q. lo \<le> q \<Longrightarrow> q < hi \<Longrightarrow> fr q = gr q"
    for fr gr :: "nat \<Rightarrow> page_frame_t"
    unfolding tiles_def
  proof (intro conjI allI impI; elim conjE)
    fix p assume p: "lo \<le> p" "p < hi" "is_head (gr p)"
    with e tiles_blockD [OF t, of p]
    have b: "p + 2 ^ pf_order (gr p) \<le> hi" "one_block p (pf_order (gr p)) fr" by auto
    then show "p + 2 ^ pf_order (gr p) \<le> hi" by simp
    from b p e show "one_block p (pf_order (gr p)) gr"
      by (subst one_block_cong [of _ _ _ fr]) auto
  next
    fix q assume q: "lo \<le> q" "q < hi"
    from tiles_coverD [OF t q] obtain p where
      p: "lo \<le> p" "p \<le> q" "is_head (fr p)" "q < p + 2 ^ pf_order (fr p)" by metis
    moreover from p q have "fr p = gr p" by (intro e) auto
    ultimately show "\<exists>p\<ge>lo. p \<le> q \<and> is_head (gr p) \<and> q < p + 2 ^ pf_order (gr p)" by auto
  qed
  from this [of fr gr] this [of gr fr] assms show ?thesis by auto
qed

lemma tiles_single: "one_block p k fr \<Longrightarrow> tiles p (p + 2 ^ k) fr"
  unfolding tiles_def one_block_def
  by (auto simp: le_less)

lemma tiles_append:
  assumes "tiles a b fr" and "tiles b c fr" and "a \<le> b" and "b \<le> c"
  shows "tiles a c fr"
  unfolding tiles_def
proof (intro conjI allI impI; elim conjE)
  fix p assume p: "a \<le> p" "p < c" "is_head (fr p)"
  show "p + 2 ^ pf_order (fr p) \<le> c"
    using p assms tiles_blockD [of a b fr p] tiles_blockD [of b c fr p] by (cases "p < b") auto
  show "one_block p (pf_order (fr p)) fr"
    using p assms tiles_blockD [of a b fr p] tiles_blockD [of b c fr p] by (cases "p < b") auto
next
  fix q assume q: "a \<le> q" "q < c"
  show "\<exists>p\<ge>a. p \<le> q \<and> is_head (fr p) \<and> q < p + 2 ^ pf_order (fr p)"
  proof (cases "q < b")
    case True
    with assms(1) q show ?thesis unfolding tiles_def by blast
  next
    case False
    with assms(2) q obtain p where "b \<le> p" "p \<le> q" "is_head (fr p)" "q < p + 2 ^ pf_order (fr p)"
      unfolding tiles_def by (metis not_less)
    with assms(3) show ?thesis by (meson le_trans)
  qed
qed

lemma tiles_split:
  assumes t: "tiles a c fr" and "a \<le> b" and "b \<le> c" and bd: "b = c \<or> is_head (fr b)"
  shows "tiles a b fr" and "tiles b c fr"
proof -
  have cross: "p + 2 ^ pf_order (fr p) \<le> b" if "a \<le> p" "p < b" "is_head (fr p)" for p
  proof -
    have blk: "p + 2 ^ pf_order (fr p) \<le> c" "one_block p (pf_order (fr p)) fr"
      using tiles_blockD [OF t, of p] that assms by auto
    show ?thesis
      using blk bd that assms(3) unfolding one_block_def
      by (metis le_neq_implies_less not_le)
  qed
  show "tiles a b fr"
    unfolding tiles_def
  proof (intro conjI allI impI; elim conjE)
    fix p assume "a \<le> p" "p < b" "is_head (fr p)"
    with cross tiles_blockD [OF t, of p] assms
    show "p + 2 ^ pf_order (fr p) \<le> b" "one_block p (pf_order (fr p)) fr" by auto
  next
    fix q assume "a \<le> q" "q < b"
    with t assms(3) show "\<exists>p\<ge>a. p \<le> q \<and> is_head (fr p) \<and> q < p + 2 ^ pf_order (fr p)"
      unfolding tiles_def by (meson less_le_trans)
  qed
  show "tiles b c fr"
    unfolding tiles_def
  proof (intro conjI allI impI; elim conjE)
    fix p assume "b \<le> p" "p < c" "is_head (fr p)"
    with tiles_blockD [OF t, of p] assms
    show "p + 2 ^ pf_order (fr p) \<le> c" "one_block p (pf_order (fr p)) fr" by auto
  next
    fix q assume q: "b \<le> q" "q < c"
    with t assms(2) obtain p where p: "a \<le> p" "p \<le> q" "is_head (fr p)" "q < p + 2 ^ pf_order (fr p)"
      unfolding tiles_def by (meson le_trans)
    with cross q have "b \<le> p" by (meson le_less_trans not_le)
    with p show "\<exists>p\<ge>b. p \<le> q \<and> is_head (fr p) \<and> q < p + 2 ^ pf_order (fr p)" by blast
  qed
qed

text \<open>The page after a block is a block head or the end of the tiling.\<close>

lemma tiles_next:
  assumes t: "tiles a c fr" and p: "a \<le> p" "p < c" "is_head (fr p)"
  shows "p + 2 ^ pf_order (fr p) = c \<or> is_head (fr (p + 2 ^ pf_order (fr p)))"
proof (rule ccontr)
  let ?e = "p + 2 ^ pf_order (fr p)"
  assume neg: "\<not> ?thesis"
  have blk: "?e \<le> c" "one_block p (pf_order (fr p)) fr"
    using tiles_blockD [OF t p] by auto
  with neg have lt: "?e < c" by simp
  have ple: "p < ?e" by simp
  from p(1) have "a \<le> ?e" by simp
  from tiles_coverD [OF t this lt] obtain h where
    h: "a \<le> h" "h \<le> ?e" "is_head (fr h)" "?e < h + 2 ^ pf_order (fr h)" by metis
  with neg have hlt: "h < ?e" by (metis le_neq_implies_less)
  have "one_block h (pf_order (fr h)) fr" using tiles_blockD [OF t, of h] h lt by auto
  with h p(3) ple hlt have "\<not> h < p" unfolding one_block_def by (meson less_trans)
  with blk(2) h(3) hlt have "h = p" unfolding one_block_def by (metis linorder_neqE_nat)
  with h(4) show False by simp
qed

text \<open>Distinct blocks of a tiling are disjoint.\<close>

lemma tiles_disjoint:
  assumes t: "tiles a c fr" and p: "a \<le> p" "p < c" "is_head (fr p)"
    and q: "a \<le> q" "q < c" "is_head (fr q)" and ne: "p \<noteq> q"
  shows "{p ..< p + 2 ^ pf_order (fr p)} \<inter> {q ..< q + 2 ^ pf_order (fr q)} = {}"
proof -
  have "x + 2 ^ pf_order (fr x) \<le> y" if "a \<le> x" "x < c" "is_head (fr x)" "is_head (fr y)" "x < y" for x y
    using tiles_blockD [OF t that(1-3)] that(4,5) unfolding one_block_def by (metis not_le)
  from this [of p q] this [of q p] p q ne show ?thesis
    by (cases "p < q") auto
qed

text \<open>Replacing the frames of consecutive blocks by a tiling of the same pages.\<close>

lemma tiles_replace:
  assumes t: "tiles a c fr" and p: "a \<le> p" "p \<le> e" "e \<le> c"
    and bp: "is_head (fr p)" and be: "e = c \<or> is_head (fr e)"
    and inner: "tiles p e gr"
    and outer: "\<And>q. a \<le> q \<Longrightarrow> q < c \<Longrightarrow> q < p \<or> e \<le> q \<Longrightarrow> gr q = fr q"
  shows "tiles a c gr"
proof -
  have "tiles a p fr" "tiles e c fr" using tiles_split [OF t, of p] tiles_split [OF t, of e] p bp be by auto
  then have "tiles a p gr" "tiles e c gr"
    using outer p by (subst tiles_cong [of _ _ _ fr]; auto)+
  with inner p have "tiles a e gr" by (intro tiles_append [of a p gr e]) auto
  then show ?thesis using \<open>tiles e c gr\<close> p by (intro tiles_append [of a e gr c]) auto
qed

section \<open>The invariant\<close>

definition heads :: "nat \<Rightarrow> buddy \<Rightarrow> nat set" where
  "heads R st = {p. R \<le> p \<and> p < NPAGES \<and> is_head (frame_metadata st p)}"

definition free_heads :: "nat \<Rightarrow> nat \<Rightarrow> buddy \<Rightarrow> nat set" where
  "free_heads R k st = {p \<in> heads R st. pf_state (frame_metadata st p) = PAGE_FREE \<and>
                                      pf_order (frame_metadata st p) = k}"

text \<open>The allocated blocks, as pairs of first page and order.\<close>

definition live_blocks :: "nat \<Rightarrow> buddy \<Rightarrow> (nat \<times> nat) set" where
  "live_blocks R st = {(p, pf_order (frame_metadata st p)) | p.
     p \<in> heads R st \<and> pf_state (frame_metadata st p) \<noteq> PAGE_FREE}"

lemma pair_set_eqI: "(\<And>a b. (a, b) \<in> A \<longleftrightarrow> (a, b) \<in> B) \<Longrightarrow> A = B"
  by auto

lemma live_blocks_iff:
  "(p, k) \<in> live_blocks R st \<longleftrightarrow> p \<in> heads R st \<and> pf_state (frame_metadata st p) \<noteq> PAGE_FREE \<and>
     pf_order (frame_metadata st p) = k"
  by (auto simp: live_blocks_def)

lemma free_heads_iff:
  "p \<in> free_heads R k st \<longleftrightarrow> p \<in> heads R st \<and> pf_state (frame_metadata st p) = PAGE_FREE \<and>
     pf_order (frame_metadata st p) = k"
  by (simp add: free_heads_def)

definition tails_ok :: "nat \<Rightarrow> buddy \<Rightarrow> bool" where
  "tails_ok R st \<longleftrightarrow> (\<forall>p \<in> heads R st. pf_state (frame_metadata st p) \<noteq> PAGE_FREE \<longrightarrow>
     (\<forall>q. p < q \<and> q < p + 2 ^ pf_order (frame_metadata st p) \<longrightarrow>
        pf_flags (frame_metadata st q) = PAGE_BUDDY_TAIL))"

definition reserved_ok :: "nat \<Rightarrow> buddy \<Rightarrow> bool" where
  "reserved_ok R st \<longleftrightarrow> (\<forall>p < R. pf_state (frame_metadata st p) = PAGE_RESERVED \<and>
                                 \<not> is_head (frame_metadata st p))"

definition free_lists :: "nat \<Rightarrow> buddy \<Rightarrow> (nat \<Rightarrow> nat list) \<Rightarrow> bool" where
  "free_lists R st F \<longleftrightarrow>
     lists_of BuddyList FrameNode (buddy_links st) {..MAX_ORDER} F \<and>
     (\<forall>k \<le> MAX_ORDER. set (F k) = free_heads R k st)"

text \<open>
  The first \<open>R\<close> pages are reserved. The bound \<open>19 \<le> R\<close> is what keeps a tail page, whose order
  field holds its head's number, from looking like a block of a legal order.
\<close>

definition buddy_wf :: "nat \<Rightarrow> buddy \<Rightarrow> bool" where
  "buddy_wf R st \<longleftrightarrow> MAX_ORDER < R \<and> R \<le> NPAGES \<and>
     tiles R NPAGES (frame_metadata st) \<and> tails_ok R st \<and> reserved_ok R st \<and>
     (\<exists>F. free_lists R st F)"

interpretation bl: list_family BuddyList FrameNode
  by unfold_locales (auto simp: inj_def)

lemma buddy_wfD:
  assumes "buddy_wf R st"
  shows "MAX_ORDER < R" "R \<le> NPAGES" "tiles R NPAGES (frame_metadata st)" "tails_ok R st"
    "reserved_ok R st" "\<exists>F. free_lists R st F"
  using assms by (simp_all add: buddy_wf_def)

lemma is_head_simps [simp]:
  "is_head (f\<lparr>pf_order := k\<rparr>) = is_head f"
  "is_head (f\<lparr>pf_state := s\<rparr>) = is_head f"
  "is_head (f\<lparr>pf_refcount := r\<rparr>) = is_head f"
  "is_head (f\<lparr>pf_flags := PAGE_BUDDY_HEAD\<rparr>)"
  "\<not> is_head (f\<lparr>pf_flags := PAGE_BUDDY_TAIL\<rparr>)"
  by (simp_all add: is_head_def)

lemma is_head_or [simp]: "is_head (f\<lparr>pf_flags := x OR PAGE_BUDDY_HEAD\<rparr>)"
  by (simp add: is_head_def word_ao_absorbs)

lemma headsD:
  assumes "p \<in> heads R st"
  shows "R \<le> p" "p < NPAGES" "is_head (frame_metadata st p)"
  using assms by (simp_all add: heads_def)

text \<open>A block of the invariant is smaller than RAM, so its order is a legal index.\<close>

lemma head_order:
  assumes wf: "buddy_wf R st" and p: "p \<in> heads R st"
  shows "p + 2 ^ pf_order (frame_metadata st p) \<le> NPAGES" "pf_order (frame_metadata st p) < MAX_ORDER"
    "one_block p (pf_order (frame_metadata st p)) (frame_metadata st)"
proof -
  let ?k = "pf_order (frame_metadata st p)"
  show le: "p + 2 ^ ?k \<le> NPAGES"
    and "one_block p ?k (frame_metadata st)"
    using tiles_blockD [OF buddy_wfD(3) [OF wf] headsD [OF p]] by auto
  have "0 < p" using buddy_wfD(1) [OF wf] headsD(1) [OF p] by linarith
  with le have "(2::nat) ^ ?k < 2 ^ 18" unfolding NPAGES_def by linarith
  then show "?k < MAX_ORDER" unfolding MAX_ORDER_def by (rule power_less_imp_less_exp [rotated]) simp
qed

lemma block_heads:
  assumes wf: "buddy_wf R st" and p: "p \<in> heads R st" and q: "q \<in> heads R st"
    and "p \<le> q" and "q < p + 2 ^ pf_order (frame_metadata st p)"
  shows "q = p"
  using head_order(3) [OF wf p] headsD(3) [OF q] assms(4,5) unfolding one_block_def by (metis le_less)

lemma live_blocks_bounds:
  assumes wf: "buddy_wf R st" and "(p, k) \<in> live_blocks R st"
  shows "R \<le> p" "p + 2 ^ k \<le> NPAGES" "k < MAX_ORDER"
  using assms head_order [OF wf, of p] headsD [of p R st]
  by (auto simp: live_blocks_def)

lemma live_blocks_disjoint:
  assumes wf: "buddy_wf R st" and "(p, k) \<in> live_blocks R st" and "(q, l) \<in> live_blocks R st"
    and "(p, k) \<noteq> (q, l)"
  shows "{p ..< p + 2 ^ k} \<inter> {q ..< q + 2 ^ l} = {}"
  using assms tiles_disjoint [OF buddy_wfD(3) [OF wf], of p q]
  by (auto simp: live_blocks_def heads_def)

text \<open>What the list operations give, in terms of the invariant.\<close>

lemma free_lists_empty:
  "free_lists R st F \<Longrightarrow> k \<le> MAX_ORDER \<Longrightarrow> list_empty (BuddyList k) (buddy_links st) \<longleftrightarrow> F k = []"
  by (auto simp: free_lists_def bl.family_empty)

lemma free_lists_first:
  assumes "free_lists R st F" and "k \<le> MAX_ORDER" and "F k = p # ps"
  shows "lnext (buddy_links st) (BuddyList k) = FrameNode p" "first_frame k st = Inr p"
    "p \<in> free_heads R k st"
proof -
  show nx: "lnext (buddy_links st) (BuddyList k) = FrameNode p"
    using assms bl.family_first [of "buddy_links st" "{..MAX_ORDER}" F k p ps]
    by (simp add: free_lists_def)
  then show "first_frame k st = Inr p" by (simp add: first_frame_def)
  have "p \<in> set (F k)" using assms(3) by simp
  then show "p \<in> free_heads R k st" using assms(1,2) by (simp add: free_lists_def)
qed

lemma free_listsI:
  assumes "lists_of BuddyList FrameNode (buddy_links st) {..MAX_ORDER} F"
    and "\<And>k. k \<le> MAX_ORDER \<Longrightarrow> set (F k) = free_heads R k st"
  shows "free_lists R st F"
  using assms by (simp add: free_lists_def)

lemma free_lists_distinct: "free_lists R st F \<Longrightarrow> k \<le> MAX_ORDER \<Longrightarrow> distinct (F k)"
  unfolding free_lists_def by (auto dest: bl.family_distinct)

lemma free_lists_mem:
  "free_lists R st F \<Longrightarrow> k \<le> MAX_ORDER \<Longrightarrow> p \<in> set (F k) \<longleftrightarrow> p \<in> free_heads R k st"
  by (simp add: free_lists_def)

section \<open>Splitting a block\<close>

lemma frames_for_range2:
  assumes "\<And>i s. body i s = set_frame (b + i) f (set_frame (c + i) g s)"
    and "b + n \<le> c" 
  shows "frame_metadata (for_range m n body st) =
      (\<lambda>x. if b + m \<le> x \<and> x < b + n then f (frame_metadata st x)
           else if c + m \<le> x \<and> x < c + n then g (frame_metadata st x) else frame_metadata st x) \<and>
      buddy_links (for_range m n body st) = buddy_links st"
proof (cases "m \<le> n")
  case True
  then show ?thesis
    using assms(2)
  proof (induction n rule: dec_induct)
    case base
    then show ?case by (auto simp: fun_eq_iff)
  next
    case (step n)
    then show ?case by (auto simp: for_range_Suc assms(1) fun_eq_iff)
  qed
qed (auto simp: fun_eq_iff)

lemma split_block_frames:
  fixes st :: buddy and p j :: nat
  defines "b \<equiv> p + 2 ^ j" and "fr \<equiv> frame_metadata st"
  shows "frame_metadata (split_block p (Suc j) st) =
    (\<lambda>x. if x = p then (fr x)\<lparr>pf_order := j\<rparr>
         else if x = b then (fr x)\<lparr>pf_order := j, pf_flags := PAGE_BUDDY_HEAD, pf_state := PAGE_FREE\<rparr>
         else if p < x \<and> x < b then (fr x)\<lparr>pf_order := p, pf_flags := PAGE_BUDDY_TAIL\<rparr>
         else if b < x \<and> x < b + 2 ^ j then (fr x)\<lparr>pf_order := b, pf_flags := PAGE_BUDDY_TAIL\<rparr>
         else fr x)"
  unfolding b_def fr_def
  by (auto simp: split_block_def Let_def frames_for_range2 [OF refl] fun_eq_iff)

lemma split_block_links:
  "buddy_links (split_block p (Suc j) st) =
     list_add (FrameNode p) (BuddyList j)
       (list_add (FrameNode (p + 2 ^ j)) (BuddyList j)
         (list_remove (lnext (buddy_links st) (BuddyList (Suc j))) (buddy_links st)))"
  by (simp add: split_block_def Let_def frames_for_range2 [OF refl])

text \<open>
  An operation that rewrites the frames of the consecutive blocks in \<open>[p, e)\<close> only: what it must
  establish there to keep the parts of the invariant that speak about frames.
\<close>

lemma replace_region:
  fixes st s :: buddy
  defines "fr \<equiv> frame_metadata st" and "gr \<equiv> frame_metadata s"
  assumes wf: "buddy_wf R st" and p: "p \<in> heads R st" and pe: "p \<le> e" "e \<le> NPAGES"
    and e: "e = NPAGES \<or> is_head (fr e)"
    and out: "\<And>q. q < p \<or> e \<le> q \<Longrightarrow> gr q = fr q"
    and inner: "tiles p e gr"
    and tail: "\<And>h q. p \<le> h \<Longrightarrow> h < e \<Longrightarrow> is_head (gr h) \<Longrightarrow> pf_state (gr h) \<noteq> PAGE_FREE \<Longrightarrow>
      h < q \<Longrightarrow> q < h + 2 ^ pf_order (gr h) \<Longrightarrow> pf_flags (gr q) = PAGE_BUDDY_TAIL"
  shows "tiles R NPAGES gr" "tails_ok R s" "reserved_ok R s"
    "heads R s = heads R st - {p ..< e} \<union> {h. p \<le> h \<and> h < e \<and> is_head (gr h)}"
proof -
  note t = buddy_wfD(3) [OF wf, folded fr_def] and ph = headsD [OF p, folded fr_def]
  show tg: "tiles R NPAGES gr"
    using tiles_replace [OF t ph(1) pe ph(3) e inner] out by auto
  show "reserved_ok R s"
    using buddy_wfD(5) [OF wf] out ph(1) unfolding reserved_ok_def gr_def fr_def by simp
  show "heads R s = heads R st - {p ..< e} \<union> {h. p \<le> h \<and> h < e \<and> is_head (gr h)}"
    using out ph(1) pe unfolding heads_def gr_def fr_def by (auto simp: not_le)
  show "tails_ok R s"
    unfolding tails_ok_def gr_def [symmetric]
  proof (intro ballI impI allI; elim conjE)
    fix h q assume h: "h \<in> heads R s" "pf_state (gr h) \<noteq> PAGE_FREE" "h < q" "q < h + 2 ^ pf_order (gr h)"
    show "pf_flags (gr q) = PAGE_BUDDY_TAIL"
    proof (cases "p \<le> h \<and> h < e")
      case True
      with h headsD(3) [OF h(1)] tail show ?thesis by (auto simp: gr_def)
    next
      case False
      then have gh: "gr h = fr h" using out [of h] by auto
      have hh: "h \<in> heads R st" using h(1) gh by (simp add: heads_def gr_def fr_def)
      have "q < p" if "h < p"
        using block_heads [OF wf hh p] that h(4) gh unfolding fr_def by (cases "q < p") auto
      then have "gr q = fr q" using out [of q] False h(3) by auto
      moreover have "pf_flags (fr q) = PAGE_BUDDY_TAIL"
        using buddy_wfD(4) [OF wf] hh h gh unfolding tails_ok_def fr_def by auto
      ultimately show ?thesis by simp
    qed
  qed
qed

lemma block_end:
  assumes wf: "buddy_wf R st" and p: "p \<in> heads R st"
  shows "p + 2 ^ pf_order (frame_metadata st p) = NPAGES \<or>
         is_head (frame_metadata st (p + 2 ^ pf_order (frame_metadata st p)))"
  by (rule tiles_next [OF buddy_wfD(3) [OF wf] headsD [OF p]])

lemma split_block_shape:
  assumes wf: "buddy_wf R st" and p: "p \<in> free_heads R (Suc j) st"
  shows "tiles R NPAGES (frame_metadata (split_block p (Suc j) st))"
    "tails_ok R (split_block p (Suc j) st)" "reserved_ok R (split_block p (Suc j) st)"
    "heads R (split_block p (Suc j) st) = insert (p + 2 ^ j) (heads R st)"
    "p + 2 ^ j \<notin> heads R st"
    "\<And>q. q \<in> heads R st \<Longrightarrow> q \<noteq> p \<Longrightarrow>
       frame_metadata (split_block p (Suc j) st) q = frame_metadata st q"
proof -
  let ?s = "split_block p (Suc j) st" and ?b = "p + 2 ^ j" and ?e = "p + 2 ^ Suc j"
  let ?fr = "frame_metadata st" and ?gr = "frame_metadata (split_block p (Suc j) st)"
  have ph: "p \<in> heads R st" and po: "pf_order (?fr p) = Suc j" and ps: "pf_state (?fr p) = PAGE_FREE"
    using p by (auto simp: free_heads_def)
  note hp = headsD [OF ph]
  have nh: "\<not> is_head (?fr q)" if "p < q" "q < ?e" for q
    using head_order(3) [OF wf ph] that po by (auto simp: one_block_def)
  have out: "?gr q = ?fr q" if "q < p \<or> ?e \<le> q" for q
    using that by (auto simp: split_block_frames)
  have heads_in: "is_head (?gr h) \<longleftrightarrow> h = p \<or> h = ?b" if "p \<le> h" "h < ?e" for h
    using that hp(3) by (auto simp: split_block_frames)
  have "one_block p j ?gr" "one_block ?b j ?gr"
    using hp(3) by (auto simp: one_block_def split_block_frames)
  then have inner: "tiles p ?e ?gr"
    using tiles_append [OF tiles_single tiles_single, of p j ?gr] by (simp add: mult_2 add.assoc)
  have free: "pf_state (?gr h) = PAGE_FREE" if "p \<le> h" "h < ?e" "is_head (?gr h)" for h
    using that ps heads_in [OF that(1,2)] by (auto simp: split_block_frames)
  have e: "?e \<le> NPAGES" "?e = NPAGES \<or> is_head (?fr ?e)"
    using head_order(1) [OF wf ph] block_end [OF wf ph] po by simp_all
  note rb = replace_region [OF wf ph le_add1 e out inner]
  show "tiles R NPAGES ?gr" "tails_ok R ?s" "reserved_ok R ?s"
    using rb(1-3) free by blast+
  have "heads R ?s = heads R st - {p ..< ?e} \<union> {h. p \<le> h \<and> h < ?e \<and> is_head (?gr h)}"
    using rb(4) free by blast
  also have "{h. p \<le> h \<and> h < ?e \<and> is_head (?gr h)} = {p, ?b}"
    using heads_in by auto
  also have "heads R st - {p ..< ?e} \<union> {p, ?b} = insert ?b (heads R st)"
    using ph nh by (auto simp: heads_def le_less)
  finally show "heads R ?s = insert ?b (heads R st)" .
  have "\<not> is_head (?fr ?b)" by (rule nh) auto
  then show "?b \<notin> heads R st" by (simp add: heads_def)
  show "?gr q = ?fr q" if "q \<in> heads R st" "q \<noteq> p" for q
  proof (rule out, rule ccontr)
    assume "\<not> (q < p \<or> ?e \<le> q)"
    with that(2) nh [of q] headsD(3) [OF that(1)] show False by simp
  qed
qed

text \<open>An operation that leaves the head frames of all allocated blocks alone.\<close>

definition keeps_live :: "nat \<Rightarrow> buddy \<Rightarrow> buddy \<Rightarrow> bool" where
  "keeps_live R st s \<longleftrightarrow> (\<forall>q l. (q, l) \<in> live_blocks R st \<longrightarrow> frame_metadata s q = frame_metadata st q)"

lemma keeps_live_refl: "keeps_live R st st"
  by (simp add: keeps_live_def)

lemma keeps_live_trans:
  "keeps_live R a b \<Longrightarrow> live_blocks R a \<subseteq> live_blocks R b \<Longrightarrow> keeps_live R b c \<Longrightarrow> keeps_live R a c"
  unfolding keeps_live_def by (metis subsetD)

lemma split_block_lists:
  assumes wf: "buddy_wf R st" and F: "free_lists R st F" and j: "Suc j \<le> MAX_ORDER"
    and Fk: "F (Suc j) = p # ps"
  shows "free_lists R (split_block p (Suc j) st) (F(Suc j := ps, j := p # (p + 2 ^ j) # F j))"
proof (rule free_listsI)
  let ?s = "split_block p (Suc j) st" and ?b = "p + 2 ^ j"
  let ?F = "F(Suc j := ps, j := p # ?b # F j)"
  have pf: "p \<in> free_heads R (Suc j) st" and nx: "lnext (buddy_links st) (BuddyList (Suc j)) = FrameNode p"
    using free_lists_first [OF F j Fk] by auto
  note sh = split_block_shape [OF wf pf]
  have L: "lists_of BuddyList FrameNode (buddy_links st) {..MAX_ORDER} F"
    using F by (simp add: free_lists_def)
  have nb: "?b \<notin> set (F k)" if "k \<le> MAX_ORDER" for k
    using free_lists_mem [OF F that] sh(5) by (simp add: free_heads_def)
  have np: "p \<notin> set (F k)" if "k \<le> MAX_ORDER" "k \<noteq> Suc j" for k
    using free_lists_mem [OF F that(1)] that pf by (simp add: free_heads_def)
  have pps: "p \<notin> set ps" "?b \<notin> set ps"
    using free_lists_distinct [OF F j] nb [OF j] Fk by simp_all
  let ?F1 = "F(Suc j := ps)" and ?F2 = "F(Suc j := ps, j := ?b # F j)"
  have L1: "lists_of BuddyList FrameNode
      (list_remove (FrameNode p) (buddy_links st)) {..MAX_ORDER} ?F1"
    using bl.family_remove(1) [OF L, of "Suc j" p] j Fk by simp
  have "?b \<notin> set (?F1 k)" if "k \<in> {..MAX_ORDER}" for k
    using that nb pps by simp
  then have L2: "lists_of BuddyList FrameNode (list_add (FrameNode ?b) (BuddyList j)
      (list_remove (FrameNode p) (buddy_links st))) {..MAX_ORDER} ?F2"
    using bl.family_add [OF L1, of j ?b] j by simp
  have "p \<notin> set (?F2 k)" if "k \<in> {..MAX_ORDER}" for k
    using that np pps j by simp
  then show "lists_of BuddyList FrameNode (buddy_links ?s) {..MAX_ORDER} ?F"
    using bl.family_add [OF L2, of j p] j by (simp add: split_block_links nx)
  fix k assume k: "k \<le> MAX_ORDER"
  have po: "pf_order (frame_metadata st p) = Suc j" "pf_state (frame_metadata st p) = PAGE_FREE"
    "p \<in> heads R st" using pf by (auto simp: free_heads_def)
  have fb: "frame_metadata ?s p = (frame_metadata st p)\<lparr>pf_order := j\<rparr>"
    "pf_order (frame_metadata ?s ?b) = j" "pf_state (frame_metadata ?s ?b) = PAGE_FREE"
    by (simp_all add: split_block_frames)
  have fh: "free_heads R k ?s = (if k = j then insert p (insert ?b (free_heads R k st))
                                 else free_heads R k st - {p})" (is "_ = ?rhs")
  proof (rule set_eqI)
    fix q show "q \<in> free_heads R k ?s \<longleftrightarrow> q \<in> ?rhs"
      using sh(5) sh(6) [of q] po fb unfolding free_heads_def sh(4)
      by (cases "q = p"; cases "q = ?b") auto
  qed
  have "set ps = free_heads R (Suc j) st - {p}"
    using free_lists_mem [OF F j] Fk pps by auto
  moreover have "set (F k) = free_heads R k st" using F k by (simp add: free_lists_def)
  moreover have "p \<notin> free_heads R k st" if "k \<noteq> Suc j" using that po by (simp add: free_heads_def)
  ultimately show "set (?F k) = free_heads R k ?s"
    unfolding fh by auto
qed

lemma split_block_wf:
  assumes wf: "buddy_wf R st" and F: "free_lists R st F" and j: "Suc j \<le> MAX_ORDER"
    and Fk: "F (Suc j) = p # ps"
  shows "buddy_wf R (split_block p (Suc j) st)"
    and "live_blocks R (split_block p (Suc j) st) = live_blocks R st"
    and "keeps_live R st (split_block p (Suc j) st)"
proof -
  have pf: "p \<in> free_heads R (Suc j) st" using free_lists_first [OF F j Fk] by auto
  note sh = split_block_shape [OF wf pf]
  show "buddy_wf R (split_block p (Suc j) st)"
    using buddy_wfD(1,2) [OF wf] sh(1-3) split_block_lists [OF assms] unfolding buddy_wf_def by blast
  show "keeps_live R st (split_block p (Suc j) st)"
    using sh(6) pf by (auto simp: keeps_live_def live_blocks_iff free_heads_iff)
  have free: "pf_state (frame_metadata (split_block p (Suc j) st) q) = PAGE_FREE"
    if "q = p \<or> q = p + 2 ^ j" for q
    using that pf by (auto simp: split_block_frames free_heads_def)
  show "live_blocks R (split_block p (Suc j) st) = live_blocks R st"
  proof (rule set_eqI)
    fix x :: "nat \<times> nat"
    show "x \<in> live_blocks R (split_block p (Suc j) st) \<longleftrightarrow> x \<in> live_blocks R st"
      using sh(5) sh(6) [of "fst x"] free [of "fst x"] pf
      unfolding live_blocks_def sh(4) free_heads_def
      by (cases x; cases "fst x = p \<or> fst x = p + 2 ^ j") auto
  qed
qed

lemma split_down_wf:
  assumes "buddy_wf R st" and "free_lists R st F" and "F cur \<noteq> []" and "req \<le> cur" and "cur \<le> MAX_ORDER"
  shows "\<exists>p st' F'. split_down req cur st = Inr (p, st') \<and> buddy_wf R st' \<and>
    live_blocks R st' = live_blocks R st \<and> free_lists R st' F' \<and> F' req \<noteq> [] \<and> keeps_live R st st'"
  using assms
proof (induction "cur - req" arbitrary: cur st F)
  case 0
  then obtain p ps where "F cur = p # ps" by (cases "F cur") auto
  with 0 show ?case
    using free_lists_first(2) [of R st F cur p ps] keeps_live_refl [of R st]
    by (subst split_down.simps) auto
next
  case (Suc n)
  then obtain j where c: "cur = Suc j" by (cases cur) auto
  from Suc.prems obtain p ps where Fc: "F cur = p # ps" by (cases "F cur") auto
  have ff: "first_frame cur st = Inr p" and pf: "p \<in> free_heads R cur st"
    using free_lists_first [OF Suc.prems(2,5) Fc] by auto
  let ?s = "split_block p cur st" and ?F = "F(Suc j := ps, j := p # (p + 2 ^ j) # F j)"
  have le: "p + 2 ^ cur \<le> NPAGES"
    using head_order(1) [OF Suc.prems(1), of p] pf by (simp add: free_heads_def)
  have wf: "buddy_wf R ?s" and live: "live_blocks R ?s = live_blocks R st" and fl: "free_lists R ?s ?F"
    and kl: "keeps_live R st ?s"
    using split_block_wf [OF Suc.prems(1,2), of j p ps] split_block_lists [OF Suc.prems(1,2), of j p ps]
      Suc.prems(5) Fc c by auto
  have "\<exists>q st' F'. split_down req j ?s = Inr (q, st') \<and> buddy_wf R st' \<and>
      live_blocks R st' = live_blocks R ?s \<and> free_lists R st' F' \<and> F' req \<noteq> [] \<and> keeps_live R ?s st'"
    by (rule Suc.hyps(1) [OF _ wf fl]) (use Suc.hyps(2) Suc.prems(5) c in auto)
  then obtain q st' F' where r: "split_down req j ?s = Inr (q, st')" "buddy_wf R st'"
    "live_blocks R st' = live_blocks R st" "free_lists R st' F'" "F' req \<noteq> []" "keeps_live R ?s st'"
    using live by auto
  have "keeps_live R st st'" using keeps_live_trans [OF kl _ r(6)] live by simp
  moreover have "split_down req cur st = Inr (q, st')"
    using Suc.hyps(2) le c ff r(1) by (subst split_down.simps) auto
  ultimately show ?case using r(2-5) by blast
qed

section \<open>Taking a block\<close>

lemma pfn_page_addr [simp]: "p < NPAGES \<Longrightarrow> pfn_of (page_addr p) = p"
proof -
  assume p: "p < NPAGES"
  then have lt: "p * 4096 < 2 ^ 64" by (simp add: NPAGES_def)
  have u: "unat (push_bit 12 (of_nat p) :: u64) = p * 4096"
    using lt by (simp add: push_bit_eq_mult unat_word_ariths unat_of_nat take_bit_nat_eq_self mult.commute)
  have "pfn_of (page_addr p) = unat (drop_bit 12 (push_bit 12 (of_nat p) :: u64))"
    by (simp add: pfn_of_def page_addr_def va_to_pa_def pa_to_va_def)
  also have "\<dots> = p * 4096 div 4096"
    unfolding unat_drop_bit_eq u by (simp add: drop_bit_eq_div)
  finally show ?thesis by simp
qed

lemma alloc_and_return_eq:
  assumes "first_frame k st = Inr p" and "p + 2 ^ k \<le> NPAGES"
  shows "\<exists>s. alloc_and_return k st = Inr (page_addr p, s) \<and>
    buddy_links s = list_remove (FrameNode p) (buddy_links st) \<and>
    frame_metadata s p = (frame_metadata st p)\<lparr>pf_refcount := 1, pf_state := PAGE_BUDDY,
        pf_flags := pf_flags (frame_metadata st p) OR PAGE_BUDDY_HEAD\<rparr> \<and>
    (\<forall>x. p < x \<longrightarrow> x < p + 2 ^ k \<longrightarrow> frame_metadata s x =
       (frame_metadata st x)\<lparr>pf_flags := PAGE_BUDDY_TAIL, pf_state := PAGE_BUDDY,
              pf_refcount := 1, pf_order := p\<rparr>) \<and>
    (\<forall>x. x < p \<or> p + 2 ^ k \<le> x \<longrightarrow> frame_metadata s x = frame_metadata st x)"
  using assms
  by (auto simp: alloc_and_return_def Let_def frames_for_range [OF refl])

text \<open>
  Taking the first block of a list: the block becomes live, all other blocks keep their frames.
\<close>

lemma alloc_and_return_wf:
  assumes wf: "buddy_wf R st" and F: "free_lists R st F" and k: "k \<le> MAX_ORDER" and Fk: "F k = p # ps"
  obtains s where "alloc_and_return k st = Inr (page_addr p, s)" "buddy_wf R s"
    "live_blocks R s = insert (p, k) (live_blocks R st)" "p \<in> free_heads R k st"
    "pf_state (frame_metadata s p) = PAGE_BUDDY" "pf_refcount (frame_metadata s p) = 1"
    "keeps_live R st s"
proof -
  let ?fr = "frame_metadata st"
  have pf: "p \<in> free_heads R k st" and ff: "first_frame k st = Inr p"
    using free_lists_first [OF F k Fk] by auto
  then have ph: "p \<in> heads R st" and po: "pf_order (?fr p) = k" and ps: "pf_state (?fr p) = PAGE_FREE"
    by (auto simp: free_heads_def)
  have le: "p + 2 ^ k \<le> NPAGES" using head_order(1) [OF wf ph] po by simp
  obtain s where S: "alloc_and_return k st = Inr (page_addr p, s) \<and>
    buddy_links s = list_remove (FrameNode p) (buddy_links st) \<and>
    frame_metadata s p = (?fr p)\<lparr>pf_refcount := 1, pf_state := PAGE_BUDDY,
        pf_flags := pf_flags (?fr p) OR PAGE_BUDDY_HEAD\<rparr> \<and>
    (\<forall>x. p < x \<longrightarrow> x < p + 2 ^ k \<longrightarrow> frame_metadata s x =
       (?fr x)\<lparr>pf_flags := PAGE_BUDDY_TAIL, pf_state := PAGE_BUDDY, pf_refcount := 1, pf_order := p\<rparr>) \<and>
    (\<forall>x. x < p \<or> p + 2 ^ k \<le> x \<longrightarrow> frame_metadata s x = ?fr x)"
    using alloc_and_return_eq [OF ff le] by (rule exE)
  note s = S [THEN conjunct1] and lk = S [THEN conjunct2, THEN conjunct1]
    and gp' = S [THEN conjunct2, THEN conjunct2, THEN conjunct1]
    and gt = S [THEN conjunct2, THEN conjunct2, THEN conjunct2, THEN conjunct1, rule_format]
    and out = S [THEN conjunct2, THEN conjunct2, THEN conjunct2, THEN conjunct2, rule_format]
  let ?gr = "frame_metadata s" and ?e = "p + 2 ^ k"
  have gp: "pf_order (?gr p) = k" "pf_state (?gr p) = PAGE_BUDDY" "pf_refcount (?gr p) = 1"
    "is_head (?gr p)"
    using po by (simp_all add: gp' is_head_def word_ao_absorbs)
  have nh: "\<not> is_head (?gr q)" "pf_order (?gr q) = p" "pf_flags (?gr q) = PAGE_BUDDY_TAIL"
    if "p < q" "q < ?e" for q
    using gt [OF that] by (simp_all add: is_head_def)
  have hd_in: "is_head (?gr h) \<longleftrightarrow> h = p" if "p \<le> h" "h < ?e" for h
    using that nh(1) [of h] gp(4) by (cases "h = p") auto
  have "one_block p k ?gr" using gp(1,4) nh by (simp add: one_block_def)
  then have inner: "tiles p ?e ?gr" by (rule tiles_single)
  have e: "?e = NPAGES \<or> is_head (?fr ?e)" using block_end [OF wf ph] po by simp
  have tail: "pf_flags (?gr q) = PAGE_BUDDY_TAIL"
    if "p \<le> h" "h < ?e" "is_head (?gr h)" "pf_state (?gr h) \<noteq> PAGE_FREE"
      "h < q" "q < h + 2 ^ pf_order (?gr h)" for h q
  proof -
    have "h = p" using hd_in that by blast
    with that gp(1) nh(3) show ?thesis by simp
  qed
  have rb: "tiles R NPAGES ?gr" "tails_ok R s" "reserved_ok R s"
    "heads R s = heads R st - {p ..< ?e} \<union> {h. p \<le> h \<and> h < ?e \<and> is_head (?gr h)}"
    by (rule replace_region [OF wf ph le_add1 le e]; fact out inner tail)+
  have "heads R s = heads R st - {p ..< ?e} \<union> {h. p \<le> h \<and> h < ?e \<and> is_head (?gr h)}"
    by (rule rb(4))
  also have "{h. p \<le> h \<and> h < ?e \<and> is_head (?gr h)} = {p}"
    using hd_in gp(4) by (intro set_eqI iffI) auto
  also have "heads R st - {p ..< ?e} \<union> {p} = heads R st"
    using ph block_heads [OF wf ph] po by auto
  finally have hd: "heads R s = heads R st" .
  have same: "?gr q = ?fr q" if "q \<in> heads R st" "q \<noteq> p" for q
  proof (rule out, rule ccontr)
    assume "\<not> (q < p \<or> ?e \<le> q)"
    with that hd_in [of q] headsD(3) [of q R s] hd show False by simp
  qed
  have fl: "free_lists R s (F(k := ps))"
  proof (rule free_listsI)
    have L: "lists_of BuddyList FrameNode (buddy_links st) {..MAX_ORDER} F"
      using F by (simp add: free_lists_def)
    show "lists_of BuddyList FrameNode (buddy_links s) {..MAX_ORDER} (F(k := ps))"
      using bl.family_remove(1) [OF L, of k p] k Fk lk by simp
    fix l assume l: "l \<le> MAX_ORDER"
    have mem: "q \<in> free_heads R l s \<longleftrightarrow> q \<in> free_heads R l st \<and> q \<noteq> p" for q
    proof (cases "q = p")
      case True
      then show ?thesis using gp(2) by (simp add: free_heads_iff)
    next
      case False
      then show ?thesis using same [of q] hd by (auto simp: free_heads_iff)
    qed
    have "set (F l) = free_heads R l st" using F l by (simp add: free_lists_def)
    moreover have "p \<notin> set ps" using free_lists_distinct [OF F k] Fk by simp
    moreover have "p \<notin> free_heads R l st" if "l \<noteq> k" using that po by (simp add: free_heads_iff)
    ultimately show "set ((F(k := ps)) l) = free_heads R l s"
      unfolding set_eq_iff mem using Fk by (cases "l = k") auto
  qed
  have wf': "buddy_wf R s"
    unfolding buddy_wf_def using buddy_wfD(1,2) [OF wf] rb(1-3) fl by (intro conjI exI) 
  have live: "live_blocks R s = insert (p, k) (live_blocks R st)"
  proof (rule pair_set_eqI)
    fix q l
    show "(q, l) \<in> live_blocks R s \<longleftrightarrow> (q, l) \<in> insert (p, k) (live_blocks R st)"
    proof (cases "q = p")
      case True
      then show ?thesis using gp ps ph po hd by (auto simp: live_blocks_iff)
    next
      case False
      then show ?thesis using same [of q] hd by (auto simp: live_blocks_iff)
    qed
  qed
  have "keeps_live R st s"
    using same ps by (auto simp: keeps_live_def live_blocks_iff)
  then show ?thesis by (rule that [OF s wf' live pf gp(2,3)])
qed

text \<open>The search for an order finds the least block size that holds the request.\<close>

lemma unat_exp_u32: "k < 32 \<Longrightarrow> unat (push_bit k (1 :: u32)) = 2 ^ k"
  by (simp add: push_bit_eq_mult unat_exp_word)

lemma find_order_spec:
  assumes "unat n \<le> 2 ^ 31" and "ord \<le> 31" and "\<And>j. j < ord \<Longrightarrow> 2 ^ j < unat n"
  shows "\<exists>k\<le>31. find_order ord n = Inr k \<and> unat n \<le> 2 ^ k \<and> (\<forall>j<k. 2 ^ j < unat n)"
  using assms(2,3)
proof (induction "31 - ord" arbitrary: ord)
  case 0
  then have "ord = 31" by simp
  then show ?case
    using assms(1) 0(3) unat_exp_u32 [of 31] by (subst find_order.simps) (auto simp: word_less_nat_alt)
next
  case (Suc d)
  show ?case
  proof (cases "2 ^ ord < unat n")
    case True
    have "\<exists>k\<le>31. find_order (Suc ord) n = Inr k \<and> unat n \<le> 2 ^ k \<and> (\<forall>j<k. 2 ^ j < unat n)"
      by (rule Suc.hyps(1)) (use Suc.hyps(2) Suc.prems True in \<open>auto simp: less_Suc_eq\<close>)
    then show ?thesis
      using True Suc.hyps(2) unat_exp_u32 [of ord]
      by (subst find_order.simps) (auto simp: word_less_nat_alt)
  next
    case False
    then show ?thesis
      using Suc.prems unat_exp_u32 [of ord] by (subst find_order.simps) (auto simp: word_less_nat_alt)
  qed
qed

lemma request_pages_unat:
  assumes "unat bytes \<le> 2 ^ 43"
  shows "unat (request_pages bytes) = (unat bytes + 4095) div 4096" "unat (request_pages bytes) \<le> 2 ^ 31"
proof -
  have "unat (bytes + 4095) = unat bytes + 4095"
    using assms by (simp add: unat_word_ariths)
  then have "unat (drop_bit 12 (bytes + 4095)) = (unat bytes + 4095) div 4096"
    unfolding unat_drop_bit_eq by (simp add: drop_bit_eq_div)
  moreover have "(unat bytes + 4095) div 4096 \<le> 2 ^ 31" using assms by simp
  ultimately show "unat (request_pages bytes) = (unat bytes + 4095) div 4096"
    "unat (request_pages bytes) \<le> 2 ^ 31"
    by (simp_all add: request_pages_def unat_ucast_word take_bit_nat_eq_self)
qed

definition order_for :: "nat \<Rightarrow> nat \<Rightarrow> bool" where
  "order_for bytes k \<longleftrightarrow> bytes \<le> 2 ^ k * 4096 \<and> (\<forall>j<k. 2 ^ j * 4096 < bytes)"

lemma order_for_request:
  assumes "unat bytes \<le> 2 ^ 43"
  shows "\<exists>k. find_order 0 (request_pages bytes) = Inr k \<and> order_for (unat bytes) k"
proof -
  note u = request_pages_unat [OF assms]
  obtain k where k: "k \<le> 31 \<and> find_order 0 (request_pages bytes) = Inr k \<and>
      unat (request_pages bytes) \<le> 2 ^ k \<and> (\<forall>j<k. 2 ^ j < unat (request_pages bytes))"
    using find_order_spec [OF u(2), of 0] by blast
  have up: "(b + 4095) div 4096 \<le> x \<Longrightarrow> b \<le> x * 4096" for x b :: nat by simp
  have down: "x < (b + 4095) div 4096 \<Longrightarrow> x * 4096 < b" for x b :: nat by simp
  have "unat bytes \<le> 2 ^ k * 4096"
    by (rule up) (use k u(1) in simp)
  moreover have "2 ^ j * 4096 < unat bytes" if "j < k" for j
    by (rule down) (use k that u(1) in simp)
  ultimately show ?thesis unfolding order_for_def using k by blast
qed

lemma alloc_and_return_fresh:
  assumes wf: "buddy_wf R st" and ne: "free_heads R k st \<noteq> {}" and k: "k \<le> MAX_ORDER"
  shows "\<exists>p s. alloc_and_return k st = Inr (page_addr p, s) \<and> buddy_wf R s \<and> p \<in> free_heads R k st \<and>
    live_blocks R s = insert (p, k) (live_blocks R st) \<and>
    pf_state (frame_metadata s p) = PAGE_BUDDY \<and> pf_refcount (frame_metadata s p) = 1 \<and> keeps_live R st s"
proof -
  obtain F where F: "free_lists R st F" using buddy_wfD(6) [OF wf] by blast
  then obtain p ps where Fk: "F k = p # ps"
    using ne k by (cases "F k") (auto simp: free_lists_def)
  show ?thesis
    by (rule alloc_and_return_wf [OF wf F k Fk]) (intro exI conjI; assumption)
qed

text \<open>What a successful allocation returns.\<close>

definition fresh_block :: "nat \<Rightarrow> nat \<Rightarrow> u64 \<Rightarrow> buddy \<Rightarrow> buddy \<Rightarrow> bool" where
  "fresh_block R k a st st' \<longleftrightarrow>
     (\<exists>p. a = page_addr p \<and> live_blocks R st' = insert (p, k) (live_blocks R st) \<and>
          (\<forall>l. (p, l) \<notin> live_blocks R st) \<and> pf_state (frame_metadata st' p) = PAGE_BUDDY \<and>
          pf_refcount (frame_metadata st' p) = 1) \<and> keeps_live R st st'"

lemma fresh_blockI:
  assumes "alloc_and_return k st1 = Inr (page_addr p, s)" and "p \<in> free_heads R k st1"
    and "live_blocks R st1 = live_blocks R st" and "live_blocks R s = insert (p, k) (live_blocks R st1)"
    and "pf_state (frame_metadata s p) = PAGE_BUDDY" and "pf_refcount (frame_metadata s p) = 1"
    and "keeps_live R st st1" and "keeps_live R st1 s"
  shows "fresh_block R k (page_addr p) st s"
proof -
  have "(p, l) \<notin> live_blocks R st" for l
    using assms(2) unfolding assms(3) [symmetric] live_blocks_iff free_heads_iff by simp
  moreover have "keeps_live R st s" using keeps_live_trans [OF assms(7) _ assms(8)] assms(3) by simp
  ultimately show ?thesis unfolding fresh_block_def using assms(3-6) by (intro conjI exI [of _ p]) simp_all
qed

lemma alloc_from_spec:
  assumes wf: "buddy_wf R st" and "k < i"
  shows "if \<exists>j\<ge>i. j \<le> MAX_ORDER \<and> free_heads R j st \<noteq> {}
         then \<exists>a st'. alloc_from k i st = Inr (a, st') \<and> buddy_wf R st' \<and> fresh_block R k a st st'
         else alloc_from k i st = Inr (0, st)"
  using assms(2)
proof (induction "Suc MAX_ORDER - i" arbitrary: i)
  case 0
  then show ?case by (subst alloc_from.simps) auto
next
  case (Suc d)
  obtain F where F: "free_lists R st F" using buddy_wfD(6) [OF wf] by blast
  have i: "i \<le> MAX_ORDER" using Suc.hyps(2) by simp
  have emp: "list_empty (BuddyList i) (buddy_links st) \<longleftrightarrow> free_heads R i st = {}"
    using free_lists_empty [OF F i] F i by (auto simp: free_lists_def)
  show ?case
  proof (cases "free_heads R i st = {}")
    case True
    have ex: "(\<exists>j\<ge>i. j \<le> MAX_ORDER \<and> free_heads R j st \<noteq> {}) \<longleftrightarrow>
        (\<exists>j\<ge>Suc i. j \<le> MAX_ORDER \<and> free_heads R j st \<noteq> {})"
      using True by (metis Suc_leD le_antisym not_less_eq_eq)
    have "alloc_from k i st = alloc_from k (Suc i) st"
      using True emp i by (subst alloc_from.simps) simp
    then show ?thesis
      using Suc.hyps(1) [of "Suc i"] Suc.hyps(2) Suc.prems unfolding ex by simp
  next
    case False
    then have "F i \<noteq> []" using F i by (auto simp: free_lists_def)
    then obtain q st1 F1 where s1: "split_down k i st = Inr (q, st1)" "buddy_wf R st1"
      "live_blocks R st1 = live_blocks R st" "free_lists R st1 F1" "F1 k \<noteq> []" "keeps_live R st st1"
      using split_down_wf [OF wf F, of i k] Suc.prems i by auto
    have k: "k \<le> MAX_ORDER" using Suc.prems i by simp
    have "free_heads R k st1 \<noteq> {}" using s1(4,5) k by (auto simp: free_lists_def)
    from alloc_and_return_fresh [OF s1(2) this k] obtain p s where
      ar: "alloc_and_return k st1 = Inr (page_addr p, s)" "buddy_wf R s" "p \<in> free_heads R k st1"
        "live_blocks R s = insert (p, k) (live_blocks R st1)"
        "pf_state (frame_metadata s p) = PAGE_BUDDY" "pf_refcount (frame_metadata s p) = 1"
        "keeps_live R st1 s" by blast
    have "alloc_from k i st = Inr (page_addr p, s)"
      using False emp i s1(1) ar(1) by (subst alloc_from.simps) simp
    moreover have "fresh_block R k (page_addr p) st s"
      by (rule fresh_blockI [OF ar(1,3) s1(3) ar(4-6) s1(6) ar(7)])
    ultimately show ?thesis using ar(2) False i by auto
  qed
qed

lemma buddy_alloc_spec:
  assumes wf: "buddy_wf R st" and "unat bytes \<le> 2 ^ 43"
  shows "\<exists>k. order_for (unat bytes) k \<and>
    (if \<exists>j\<ge>k. free_heads R j st \<noteq> {}
     then \<exists>a st'. buddy_alloc bytes st = Inr (a, st') \<and> buddy_wf R st' \<and> fresh_block R k a st st'
     else buddy_alloc bytes st = Inr (0, st))"
proof -
  from order_for_request [OF assms(2)] obtain k where
    k: "find_order 0 (request_pages bytes) = Inr k" "order_for (unat bytes) k" by blast
  obtain F where F: "free_lists R st F" using buddy_wfD(6) [OF wf] by blast
  have small: "j \<le> MAX_ORDER" if "free_heads R j st \<noteq> {}" for j
    using that head_order(2) [OF wf] by (auto simp: free_heads_iff less_imp_le)
  have "if \<exists>j\<ge>k. free_heads R j st \<noteq> {}
     then \<exists>a st'. buddy_alloc bytes st = Inr (a, st') \<and> buddy_wf R st' \<and> fresh_block R k a st st'
     else buddy_alloc bytes st = Inr (0, st)"
  proof (cases "MAX_ORDER < k")
    case True
    then have "\<not> (\<exists>j\<ge>k. free_heads R j st \<noteq> {})" using small by (meson leD le_trans)
    with True show ?thesis by (auto simp: buddy_alloc_def k(1))
  next
    case False
    then have km: "k \<le> MAX_ORDER" by simp
    have emp: "list_empty (BuddyList k) (buddy_links st) \<longleftrightarrow> free_heads R k st = {}"
      using free_lists_empty [OF F km] F km by (auto simp: free_lists_def)
    show ?thesis
    proof (cases "free_heads R k st = {}")
      case True
      have ex: "(\<exists>j\<ge>k. free_heads R j st \<noteq> {}) \<longleftrightarrow>
          (\<exists>j\<ge>Suc k. j \<le> MAX_ORDER \<and> free_heads R j st \<noteq> {})"
        using True small by (metis Suc_leD le_antisym not_less_eq_eq)
      have "buddy_alloc bytes st = alloc_from k (Suc k) st"
        using True emp km by (simp add: buddy_alloc_def k(1))
      then show ?thesis
        using alloc_from_spec [OF wf, of k "Suc k"] unfolding ex by simp
    next
      case ne: False
      from alloc_and_return_fresh [OF wf ne km] obtain p s where
        ar: "alloc_and_return k st = Inr (page_addr p, s)" "buddy_wf R s" "p \<in> free_heads R k st"
          "live_blocks R s = insert (p, k) (live_blocks R st)"
          "pf_state (frame_metadata s p) = PAGE_BUDDY" "pf_refcount (frame_metadata s p) = 1"
          "keeps_live R st s" by blast
      have "buddy_alloc bytes st = Inr (page_addr p, s)"
        using ne emp km ar(1) by (simp add: buddy_alloc_def k(1))
      moreover have "fresh_block R k (page_addr p) st s"
        by (rule fresh_blockI [OF ar(1,3) refl ar(4-6) keeps_live_refl ar(7)])
      ultimately show ?thesis using ar(2) ne by auto
    qed
  qed
  with k(2) show ?thesis by blast
qed

section \<open>Giving a block back\<close>

text \<open>Frames after a merge of the adjacent free blocks \<open>p\<close> and \<open>n\<close> of order \<open>k\<close>.\<close>

lemma merge_blocks_shape:
  assumes wf: "buddy_wf R st" and p: "p \<in> free_heads R k st" and n: "p + 2 ^ k \<in> free_heads R k st"
  defines "s \<equiv> merge_blocks p (p + 2 ^ k) k st"
  shows "tiles R NPAGES (frame_metadata s)" "tails_ok R s" "reserved_ok R s"
    "heads R s = heads R st - {p + 2 ^ k}"
    "frame_metadata s p = (frame_metadata st p)\<lparr>pf_order := Suc k\<rparr>"
    "\<And>q. q \<in> heads R s \<Longrightarrow> q \<noteq> p \<Longrightarrow> frame_metadata s q = frame_metadata st q"
proof -
  let ?n = "p + 2 ^ k" and ?e = "p + 2 ^ Suc k"
  let ?fr = "frame_metadata st" and ?gr = "frame_metadata s"
  have ph: "p \<in> heads R st" "pf_order (?fr p) = k" "pf_state (?fr p) = PAGE_FREE"
    and nh: "?n \<in> heads R st" "pf_order (?fr ?n) = k" using p n by (auto simp: free_heads_iff)
  have lt: "p < ?n" by simp
  note gr = merge_blocks_frames [OF lt, of k st, folded s_def]
  show gp: "?gr p = (?fr p)\<lparr>pf_order := Suc k\<rparr>" using ph(2) by (simp add: gr)
  have e2: "?e = ?n + 2 ^ k" by simp
  have in1: "\<not> is_head (?fr q)" "pf_order (?fr q) = p" if "p < q" "q < ?n" for q
    using head_order(3) [OF wf ph(1)] ph(2) that by (auto simp: one_block_def)
  have in2: "\<not> is_head (?fr q)" if "?n < q" "q < ?e" for q
    using head_order(3) [OF wf nh(1)] nh(2) that unfolding e2 one_block_def by simp
  have tl: "\<not> is_head (?gr q)" "pf_order (?gr q) = p" if q: "p < q" "q < ?e" for q
  proof -
    consider "q < ?n" | "q = ?n" | "?n < q" by linarith
    then show "\<not> is_head (?gr q)"
      by cases (use q in1(1) [of q] in2 [of q] in \<open>simp_all add: gr e2\<close>)
    show "pf_order (?gr q) = p"
      using q in1(2) [of q] by (cases "q < ?n") (simp_all add: gr e2)
  qed
  have blk: "one_block p (Suc k) ?gr"
    using headsD(3) [OF ph(1)] tl by (simp add: one_block_def gp)
  have out: "?gr q = ?fr q" if "q < p \<or> ?e \<le> q" for q using that by (auto simp: gr)
  have hin: "is_head (?gr h) \<longleftrightarrow> h = p" if "p \<le> h" "h < ?e" for h
    using that tl(1) [of h] headsD(3) [OF ph(1)] by (cases "h = p") (auto simp: gp)
  have e: "?e \<le> NPAGES" "?e = NPAGES \<or> is_head (?fr ?e)"
    using head_order(1) [OF wf nh(1)] block_end [OF wf nh(1)] nh(2) unfolding e2 by simp_all
  have tail: "pf_flags (?gr q) = PAGE_BUDDY_TAIL"
    if "p \<le> h" "h < ?e" "is_head (?gr h)" "pf_state (?gr h) \<noteq> PAGE_FREE"
      "h < q" "q < h + 2 ^ pf_order (?gr h)" for h q
    using that hin [of h] gp ph(3) by simp
  have rr: "tiles R NPAGES ?gr" "tails_ok R s" "reserved_ok R s"
    "heads R s = heads R st - {p ..< ?e} \<union> {h. p \<le> h \<and> h < ?e \<and> is_head (?gr h)}"
    by (rule replace_region [OF wf ph(1) le_add1 e]; fact out tiles_single [OF blk] tail)+
  then show "tiles R NPAGES ?gr" "tails_ok R s" "reserved_ok R s" by blast+
  have hs: "q \<in> heads R s \<longleftrightarrow> q \<in> heads R st \<and> q \<noteq> ?n" for q
  proof (cases "p \<le> q \<and> q < ?e")
    case True
    consider "q = p" | "p < q" "q < ?n" | "q = ?n" | "?n < q" using True by linarith
    then show ?thesis
      by cases (use rr(4) hin [of q] True in1(1) [of q] in2 [of q] ph(1) headsD(3) [of q R st] in auto)
  next
    case False
    then show ?thesis using rr(4) lt e2 by auto
  qed
  then show "heads R s = heads R st - {?n}" by blast
  show "?gr q = ?fr q" if "q \<in> heads R s" "q \<noteq> p" for q
  proof (rule out, rule ccontr)
    assume "\<not> (q < p \<or> ?e \<le> q)"
    with that hin [of q] headsD(3) [OF that(1)] show False by simp
  qed
qed

lemma merge_blocks_links:
  "buddy_links (merge_blocks p n k st) = list_add (FrameNode p) (BuddyList (Suc k))
     (list_remove (FrameNode n) (list_remove (FrameNode p) (buddy_links st)))"
  by (simp add: merge_blocks_def Let_def frames_for_range [OF refl])

lemma merge_blocks_wf:
  assumes wf: "buddy_wf R st" and p: "p \<in> free_heads R k st" and n: "p + 2 ^ k \<in> free_heads R k st"
  defines "s \<equiv> merge_blocks p (p + 2 ^ k) k st"
  shows "buddy_wf R s" "live_blocks R s = live_blocks R st" "p \<in> free_heads R (Suc k) s"
    "keeps_live R st s"
proof -
  let ?n = "p + 2 ^ k"
  note sh = merge_blocks_shape [OF wf p n, folded s_def]
  have P: "p \<in> heads R st" "pf_order (frame_metadata st p) = k" "pf_state (frame_metadata st p) = PAGE_FREE"
    and N: "?n \<in> heads R st" "pf_order (frame_metadata st ?n) = k" "pf_state (frame_metadata st ?n) = PAGE_FREE"
    using p n by (auto simp: free_heads_iff)
  have k: "k < MAX_ORDER" using head_order(2) [OF wf P(1)] P(2) by simp
  obtain F where F: "free_lists R st F" using buddy_wfD(6) [OF wf] by blast
  have mem: "q \<in> set (F l) \<longleftrightarrow> q \<in> free_heads R l st" if "l \<le> MAX_ORDER" for q l
    by (rule free_lists_mem [OF F that])
  have L: "lists_of BuddyList FrameNode (buddy_links st) {..MAX_ORDER} F"
    using F by (simp add: free_lists_def)
  let ?F1 = "F(k := remove1 p (F k))"
  let ?F2 = "F(k := remove1 ?n (remove1 p (F k)))"
  have L1: "lists_of BuddyList FrameNode (list_remove (FrameNode p) (buddy_links st)) {..MAX_ORDER} ?F1"
    by (rule bl.family_remove(1) [OF L]) (use k p mem in auto)
  have L2: "lists_of BuddyList FrameNode
      (list_remove (FrameNode ?n) (list_remove (FrameNode p) (buddy_links st))) {..MAX_ORDER} ?F2"
    using bl.family_remove(1) [OF L1, of k ?n] k n mem by simp
  have dk: "distinct (F k)" using free_lists_distinct [OF F] k by simp
  have F2: "q \<in> set (?F2 l) \<longleftrightarrow> q \<in> free_heads R l st \<and> q \<noteq> p \<and> q \<noteq> ?n" if l: "l \<le> MAX_ORDER" for q l
  proof (cases "l = k")
    case True
    then show ?thesis using mem [OF l, of q] dk by auto
  next
    case False
    then show ?thesis using mem [OF l, of q] P(2) N(2) by (auto simp: free_heads_iff)
  qed
  have "p \<notin> set (?F2 l)" if "l \<in> {..MAX_ORDER}" for l
    using F2 [of l p] that by simp
  then have L3: "lists_of BuddyList FrameNode (buddy_links s) {..MAX_ORDER}
      (?F2(Suc k := p # ?F2 (Suc k)))"
    using bl.family_add [OF L2, of "Suc k" p] k by (simp add: s_def merge_blocks_links)
  have hq: "q \<in> heads R s \<longleftrightarrow> q \<in> heads R st \<and> q \<noteq> ?n" for q by (simp add: sh(4))
  have same: "frame_metadata s q = frame_metadata st q" if "q \<in> heads R st" "q \<noteq> ?n" "q \<noteq> p" for q
    by (rule sh(6)) (use that hq in simp_all)
  have Ps: "p \<in> heads R s" "pf_order (frame_metadata s p) = Suc k" "pf_state (frame_metadata s p) = PAGE_FREE"
    using P sh(5) hq by simp_all
  have fh: "q \<in> free_heads R l s \<longleftrightarrow>
      (q \<in> free_heads R l st \<and> q \<noteq> p \<and> q \<noteq> ?n) \<or> (q = p \<and> l = Suc k)" for q l
  proof (cases "q = p")
    case True
    then show ?thesis using Ps by (simp add: free_heads_iff eq_commute [of l])
  next
    case False
    then show ?thesis using same [of q] hq [of q]
      by (cases "q \<in> heads R s") (simp_all add: free_heads_iff)
  qed
  have "free_lists R s (?F2(Suc k := p # ?F2 (Suc k)))"
  proof (rule free_listsI [OF L3], rule set_eqI)
    fix l q assume l: "l \<le> MAX_ORDER"
    show "q \<in> set ((?F2(Suc k := p # ?F2 (Suc k))) l) \<longleftrightarrow> q \<in> free_heads R l s"
    proof (cases "l = Suc k")
      case True
      then show ?thesis using F2 [OF l, of q] fh [of q l] by auto
    next
      case False
      then have "(?F2(Suc k := p # ?F2 (Suc k))) l = ?F2 l" by simp
      then show ?thesis using F2 [OF l, of q] fh [of q l] False by (simp del: fun_upd_apply)
    qed
  qed
  with sh(1-3) buddy_wfD(1,2) [OF wf] show "buddy_wf R s" unfolding buddy_wf_def by blast
  show "p \<in> free_heads R (Suc k) s" by (simp add: fh)
  show "keeps_live R st s"
    unfolding keeps_live_def live_blocks_iff using same P(3) N(3) by metis
  show "live_blocks R s = live_blocks R st"
  proof (rule pair_set_eqI)
    fix q l
    show "(q, l) \<in> live_blocks R s \<longleftrightarrow> (q, l) \<in> live_blocks R st"
    proof (cases "q = p")
      case True
      then show ?thesis using P Ps by (simp add: live_blocks_iff)
    next
      case False
      then show ?thesis using same [of q] hq [of q] N(3)
        by (cases "q = ?n") (simp_all add: live_blocks_iff cong: conj_cong)
    qed
  qed
qed

text \<open>The page found by flipping a bit is a block of the same order whenever the code merges it.\<close>

lemma buddy_is_free_head:
  assumes wf: "buddy_wf R st" and p: "p \<in> free_heads R k st"
    and b: "b < NPAGES" "pf_order (frame_metadata st b) = k" "pf_state (frame_metadata st b) = PAGE_FREE"
  shows "b \<in> free_heads R k st"
proof -
  have R: "R \<le> b"
  proof (rule ccontr)
    assume "\<not> R \<le> b"
    then have "pf_state (frame_metadata st b) = PAGE_RESERVED"
      using buddy_wfD(5) [OF wf] by (simp add: reserved_ok_def)
    with b(3) show False by simp
  qed
  have "is_head (frame_metadata st b)"
  proof (rule ccontr)
    assume nh: "\<not> is_head (frame_metadata st b)"
    obtain h where "R \<le> h" "is_head (frame_metadata st h)" "b \<noteq> h \<Longrightarrow> pf_order (frame_metadata st b) = h"
      using tiles_coverD [OF buddy_wfD(3) [OF wf] R b(1)] by metis
    then have "R \<le> k" using nh b(2) by (cases "b = h") auto
    moreover have "k < MAX_ORDER" using head_order(2) [OF wf, of p] p by (simp add: free_heads_iff)
    ultimately show False using buddy_wfD(1) [OF wf] by simp
  qed
  then show ?thesis using R b by (simp add: free_heads_iff heads_def)
qed

lemma coalesce_up_wf:
  assumes "buddy_wf R st" and "p \<in> free_heads R k st"
  shows "\<exists>s. coalesce_up p st = Inr s \<and> buddy_wf R s \<and> live_blocks R s = live_blocks R st \<and> keeps_live R st s"
  using assms
proof (induction "MAX_ORDER - k" arbitrary: k p st)
  case (0 k p st)
  then show ?case using head_order(2) [of R st p] by (simp add: free_heads_iff)
next
  case (Suc d k p st)
  note wf = Suc.prems(1)
  have P: "p < NPAGES" "pf_order (frame_metadata st p) = k" "pf_state (frame_metadata st p) = PAGE_FREE"
    using Suc.prems(2) by (auto simp: free_heads_iff heads_def)
  define b where "b = p XOR 2 ^ k"
  define prv nxt where "prv = min b p" and "nxt = max b p"
  have "b < NPAGES" using xor_exp_less [of p 18 k] P(1) Suc.hyps(2) by (simp add: b_def NPAGES_def MAX_ORDER_def)
  then have nN: "nxt < NPAGES" using P(1) by (simp add: nxt_def)
  have adj: "nxt = prv + 2 ^ k" using max_min_xor_exp [of p k] by (simp add: prv_def nxt_def b_def)
  have step: "coalesce_up p st =
      (if pf_order (frame_metadata st prv) \<noteq> pf_order (frame_metadata st nxt) then Inr st
       else if pf_state (frame_metadata st prv) = PAGE_FREE \<and> pf_state (frame_metadata st nxt) = PAGE_FREE
       then (if NPAGES < nxt + 2 ^ k then Inl WildAccess else coalesce_up prv (merge_blocks prv nxt k st))
       else Inr st)"
    using nN unfolding coalesce_up.simps [of p st] Let_def P(2) b_def [symmetric]
      prv_def [symmetric] nxt_def [symmetric] by (simp only: if_not_P not_le)
  show ?case
  proof (cases "pf_order (frame_metadata st prv) = pf_order (frame_metadata st nxt) \<and>
      pf_state (frame_metadata st prv) = PAGE_FREE \<and> pf_state (frame_metadata st nxt) = PAGE_FREE")
    case False
    then show ?thesis using step wf keeps_live_refl by auto
  next
    case True
    have "pf_order (frame_metadata st b) = k" "pf_state (frame_metadata st b) = PAGE_FREE"
      using True P by (auto simp: prv_def nxt_def min_def max_def split: if_splits)
    with buddy_is_free_head [OF wf Suc.prems(2) \<open>b < NPAGES\<close>]
    have fb: "b \<in> free_heads R k st" by blast
    then have both: "prv \<in> free_heads R k st" "prv + 2 ^ k \<in> free_heads R k st"
      using Suc.prems(2) unfolding adj [symmetric] by (auto simp: prv_def nxt_def min_def max_def)
    let ?s = "merge_blocks prv nxt k st"
    note m = merge_blocks_wf [OF wf both, folded adj]
    have "nxt + 2 ^ k \<le> NPAGES"
      using head_order(1) [OF wf, of nxt] both(2) unfolding adj [symmetric] by (simp add: free_heads_iff)
    then have "coalesce_up p st = coalesce_up prv ?s" using step True by simp
    moreover obtain s where s: "coalesce_up prv ?s = Inr s" "buddy_wf R s" "live_blocks R s = live_blocks R ?s"
      "keeps_live R ?s s"
    proof -
      have "d = MAX_ORDER - Suc k" using Suc.hyps(2) by simp
      from Suc.hyps(1) [OF this m(1,3)] show ?thesis using that by blast
    qed
    moreover have "keeps_live R st s" using keeps_live_trans [OF m(4) _ s(4)] m(2) by simp
    ultimately show ?thesis using m(2) by simp
  qed
qed

text \<open>Marking a live block free and putting it on its list.\<close>

lemma release_block_wf:
  assumes wf: "buddy_wf R st" and lv: "(p, k) \<in> live_blocks R st"
  defines "s \<equiv> set_links (list_add (FrameNode p) (BuddyList k))
                 (set_frame p (\<lambda>f. f\<lparr>pf_state := PAGE_FREE\<rparr>) st)"
  shows "buddy_wf R s" "live_blocks R s = live_blocks R st - {(p, k)}" "p \<in> free_heads R k s"
proof -
  let ?fr = "frame_metadata st" and ?gr = "frame_metadata s" and ?e = "p + 2 ^ k"
  have P: "p \<in> heads R st" "pf_order (?fr p) = k" "pf_state (?fr p) \<noteq> PAGE_FREE"
    using lv by (simp_all add: live_blocks_iff)
  have k: "k \<le> MAX_ORDER" using head_order(2) [OF wf P(1)] P(2) by simp
  have gp: "?gr p = (?fr p)\<lparr>pf_state := PAGE_FREE\<rparr>" and go: "\<And>q. q \<noteq> p \<Longrightarrow> ?gr q = ?fr q"
    by (simp_all add: s_def)
  have ih: "is_head (?gr q) = is_head (?fr q)" "pf_order (?gr q) = pf_order (?fr q)" for q
    using gp go [of q] by (cases "q = p"; simp)+
  have e: "?e \<le> NPAGES" "?e = NPAGES \<or> is_head (?fr ?e)"
    using head_order(1) [OF wf P(1)] block_end [OF wf P(1)] P(2) by simp_all
  have blk: "one_block p k ?gr"
    using head_order(3) [OF wf P(1)] P(2) by (simp add: one_block_def ih)
  have out: "?gr q = ?fr q" if "q < p \<or> ?e \<le> q" for q
    by (rule go) (use that in auto)
  have tail: "pf_flags (?gr q) = PAGE_BUDDY_TAIL"
    if "p \<le> h" "h < ?e" "is_head (?gr h)" "pf_state (?gr h) \<noteq> PAGE_FREE"
      "h < q" "q < h + 2 ^ pf_order (?gr h)" for h q
  proof -
    have "h \<noteq> p" using gp that(4) by auto
    with that(1-3) blk show ?thesis by (simp add: one_block_def)
  qed
  have rr: "tiles R NPAGES ?gr" "tails_ok R s" "reserved_ok R s"
    by (rule replace_region [OF wf P(1) le_add1 e]; fact out tiles_single [OF blk] tail)+
  have hd: "heads R s = heads R st" unfolding heads_def ih ..
  obtain F where F: "free_lists R st F" using buddy_wfD(6) [OF wf] by blast
  have L: "lists_of BuddyList FrameNode (buddy_links st) {..MAX_ORDER} F"
    using F by (simp add: free_lists_def)
  have np: "p \<notin> set (F l)" if "l \<in> {..MAX_ORDER}" for l
    using free_lists_mem [OF F, of l p] that P(3) by (simp add: free_heads_iff)
  have fh: "q \<in> free_heads R l s \<longleftrightarrow> q \<in> free_heads R l st \<or> (q = p \<and> l = k)" for q l
    using gp go [of q] P by (cases "q = p") (simp_all add: free_heads_iff hd eq_commute [of l])
  have "free_lists R s (F(k := p # F k))"
  proof (rule free_listsI)
    show "lists_of BuddyList FrameNode (buddy_links s) {..MAX_ORDER} (F(k := p # F k))"
      using bl.family_add [OF L _ np, of k] k by (simp add: s_def)
    fix l assume l: "l \<le> MAX_ORDER"
    show "set ((F(k := p # F k)) l) = free_heads R l s"
    proof (rule set_eqI)
      fix q show "q \<in> set ((F(k := p # F k)) l) \<longleftrightarrow> q \<in> free_heads R l s"
        using free_lists_mem [OF F l, of q] fh [of q l] by (cases "l = k") auto
    qed
  qed
  with rr buddy_wfD(1,2) [OF wf] show "buddy_wf R s" unfolding buddy_wf_def by blast
  show "p \<in> free_heads R k s" by (simp add: fh)
  show "live_blocks R s = live_blocks R st - {(p, k)}"
  proof (rule pair_set_eqI)
    fix q l
    show "(q, l) \<in> live_blocks R s \<longleftrightarrow> (q, l) \<in> live_blocks R st - {(p, k)}"
      using gp go [of q] P by (cases "q = p") (simp_all add: live_blocks_iff hd)
  qed
qed

lemma buddy_free_live:
  assumes wf: "buddy_wf R st" and lv: "(pfn_of page, k) \<in> live_blocks R st"
  shows "\<exists>s. buddy_free page st = Inr s \<and> buddy_wf R s \<and>
    live_blocks R s = live_blocks R st - {(pfn_of page, k)} \<and>
    (\<forall>q l. (q, l) \<in> live_blocks R s \<longrightarrow> frame_metadata s q = frame_metadata st q)"
proof -
  let ?p = "pfn_of page"
  have P: "?p \<in> heads R st" "pf_order (frame_metadata st ?p) = k" "pf_state (frame_metadata st ?p) \<noteq> PAGE_FREE"
    using lv by (simp_all add: live_blocks_iff)
  have k: "k < MAX_ORDER" using head_order(2) [OF wf P(1)] P(2) by simp
  note r = release_block_wf [OF wf lv]
  let ?s = "set_links (list_add (FrameNode ?p) (BuddyList k))
      (set_frame ?p (\<lambda>f. f\<lparr>pf_state := PAGE_FREE\<rparr>) st)"
  have "buddy_free page st = coalesce_up ?p ?s"
    using P k headsD(2,3) [OF P(1)] by (simp add: buddy_free_def Let_def is_head_def)
  then obtain s where s: "buddy_free page st = Inr s" "buddy_wf R s"
    "live_blocks R s = live_blocks R st - {(?p, k)}" "keeps_live R ?s s"
    using coalesce_up_wf [OF r(1,3)] r(2) by auto
  have "frame_metadata s q = frame_metadata st q" if "(q, l) \<in> live_blocks R s" for q l
  proof -
    have ql: "(q, l) \<in> live_blocks R ?s" using that s(3) r(2) by simp
    have "pf_state (frame_metadata ?s ?p) = PAGE_FREE" by simp
    then have "q \<noteq> ?p" using ql unfolding live_blocks_iff by metis
    moreover have "frame_metadata s q = frame_metadata ?s q" using s(4) ql unfolding keeps_live_def by blast
    ultimately show ?thesis by simp
  qed
  with s(1-3) show ?thesis by blast
qed

text \<open>A page that does not head an allocated block is left alone.\<close>

lemma buddy_free_dead:
  assumes wf: "buddy_wf R st" and "pfn_of page < NPAGES" and "\<And>k. (pfn_of page, k) \<notin> live_blocks R st"
  shows "buddy_free page st = Inr st"
proof (cases "is_head (frame_metadata st (pfn_of page))")
  case True
  then have "R \<le> pfn_of page"
    using buddy_wfD(5) [OF wf] by (auto simp: reserved_ok_def not_le [symmetric])
  with True assms(2) assms(3) [of "pf_order (frame_metadata st (pfn_of page))"]
  have "pf_state (frame_metadata st (pfn_of page)) = PAGE_FREE"
    by (simp add: live_blocks_iff heads_def)
  with assms(2) show ?thesis by (simp add: buddy_free_def Let_def)
next
  case False
  then show ?thesis using assms(2) by (simp add: buddy_free_def Let_def is_head_def)
qed

section \<open>Flags\<close>

text \<open>No page is a head and a tail at once.\<close>

definition flags_ok :: "buddy \<Rightarrow> bool" where
  "flags_ok st \<longleftrightarrow> (\<forall>p<NPAGES. pf_flags (frame_metadata st p) \<in> {0, PAGE_BUDDY_TAIL, PAGE_BUDDY_HEAD})"

lemma flags_okI:
  "(\<And>p. p < NPAGES \<Longrightarrow> pf_flags (frame_metadata st p) \<in> {0, PAGE_BUDDY_TAIL, PAGE_BUDDY_HEAD}) \<Longrightarrow> flags_ok st"
  by (simp add: flags_ok_def)

lemma flags_okD:
  "flags_ok st \<Longrightarrow> p < NPAGES \<Longrightarrow> pf_flags (frame_metadata st p) \<in> {0, PAGE_BUDDY_TAIL, PAGE_BUDDY_HEAD}"
  by (simp add: flags_ok_def)

lemma flags_ok_head:
  assumes "flags_ok st" and "p < NPAGES" and "is_head (frame_metadata st p)"
  shows "pf_flags (frame_metadata st p) = PAGE_BUDDY_HEAD"
  using flags_okD [OF assms(1,2)] assms(3) by (auto simp: is_head_def)

lemma flags_ok_split_block:
  assumes "flags_ok st" shows "flags_ok (split_block p (Suc j) st)"
  by (rule flags_okI) (use flags_okD [OF assms] in \<open>simp add: split_block_frames\<close>)

lemma flags_ok_split_down:
  "split_down r c st = Inr (p, s) \<Longrightarrow> flags_ok st \<Longrightarrow> flags_ok s"
proof (induction r c st arbitrary: p s rule: split_down.induct)
  case (1 r c st)
  then obtain q where q: "first_frame c st = Inr q"
    by (subst (asm) split_down.simps) (auto simp: bindR_eq_Inr)
  show ?case
  proof (cases "r = c \<or> c = 0")
    case True
    with 1 q show ?thesis by (subst (asm) (2) split_down.simps) (auto split: if_splits)
  next
    case False
    then obtain j where c: "c = Suc j" by (cases c) auto
    have "\<not> NPAGES < q + 2 ^ c" "split_down r j (split_block q c st) = Inr (p, s)"
      using "1.prems"(1) [unfolded split_down.simps [of r c st] q] False c by (auto split: if_splits)
    then show ?thesis
      using "1.IH" [of q p s] False q c flags_ok_split_block [OF "1.prems"(2)] by auto
  qed
qed

lemma flags_ok_alloc_and_return:
  assumes wf: "buddy_wf R st" and ok: "flags_ok st" and k: "k \<le> MAX_ORDER"
    and r: "alloc_and_return k st = Inr (a, s)" and ne: "free_heads R k st \<noteq> {}"
  shows "flags_ok s"
proof (rule flags_okI)
  fix q assume q: "q < NPAGES"
  obtain F where F: "free_lists R st F" using buddy_wfD(6) [OF wf] by blast
  then obtain p ps where Fk: "F k = p # ps"
    using ne k by (cases "F k") (auto simp: free_lists_def)
  have pf: "p \<in> free_heads R k st" and ff: "first_frame k st = Inr p"
    using free_lists_first [OF F k Fk] by auto
  then have ph: "p \<in> heads R st" and le: "p + 2 ^ k \<le> NPAGES"
    using head_order(1) [OF wf, of p] by (auto simp: free_heads_iff)
  have hp: "pf_flags (frame_metadata st p) = PAGE_BUDDY_HEAD"
    by (rule flags_ok_head [OF ok headsD(2,3) [OF ph]])
  have gp: "pf_flags (frame_metadata s p) = PAGE_BUDDY_HEAD"
    and gt: "p < q \<Longrightarrow> q < p + 2 ^ k \<Longrightarrow> pf_flags (frame_metadata s q) = PAGE_BUDDY_TAIL"
    and out: "q < p \<or> p + 2 ^ k \<le> q \<Longrightarrow> frame_metadata s q = frame_metadata st q"
    using alloc_and_return_eq [OF ff le] r hp by auto
  consider "q = p" | "p < q" "q < p + 2 ^ k" | "q < p \<or> p + 2 ^ k \<le> q" by linarith
  then show "pf_flags (frame_metadata s q) \<in> {0, PAGE_BUDDY_TAIL, PAGE_BUDDY_HEAD}"
    by cases (use gp gt out flags_okD [OF ok q] in auto)
qed

lemma flags_ok_merge:
  assumes "flags_ok st" and "p < n" shows "flags_ok (merge_blocks p n k st)"
  by (rule flags_okI) (use flags_okD [OF assms(1)] in \<open>simp add: merge_blocks_frames [OF assms(2)]\<close>)

lemma flags_ok_coalesce: "coalesce_up p st = Inr s \<Longrightarrow> flags_ok st \<Longrightarrow> flags_ok s"
proof (induction p st arbitrary: s rule: coalesce_up.induct)
  case (1 p st)
  define k b where "k = pf_order (frame_metadata st p)" and "b = p XOR 2 ^ k"
  have lt: "min b p < max b p" using max_min_xor_exp [of p k] by (simp add: b_def)
  note IH = "1.IH" [OF refl refl refl refl, folded k_def, folded b_def]
  from "1.prems"(1) [unfolded coalesce_up.simps [of p st] Let_def, folded k_def, folded b_def]
  have "s = st \<or> (coalesce_up (min b p) (merge_blocks (min b p) (max b p) k st) = Inr s \<and>
      \<not> NPAGES \<le> max b p \<and> pf_order (frame_metadata st (min b p)) = pf_order (frame_metadata st (max b p)) \<and>
      pf_state (frame_metadata st (min b p)) = PAGE_FREE \<and> pf_state (frame_metadata st (max b p)) = PAGE_FREE \<and>
      \<not> NPAGES < max b p + 2 ^ k)"
    by (simp split: if_splits)
  then show ?case
    using IH flags_ok_merge [OF "1.prems"(2) lt] "1.prems"(2) by auto
qed

lemma flags_ok_alloc_from:
  assumes wf: "buddy_wf R st" and ok: "flags_ok st" and "k < i"
    and "alloc_from k i st = Inr (a, s)"
  shows "flags_ok s"
  using assms(3,4)
proof (induction "Suc MAX_ORDER - i" arbitrary: i)
  case 0
  then show ?case using ok by (subst (asm) alloc_from.simps) auto
next
  case (Suc d)
  obtain F where F: "free_lists R st F" using buddy_wfD(6) [OF wf] by blast
  have i: "i \<le> MAX_ORDER" "k \<le> MAX_ORDER" using Suc.hyps(2) Suc.prems(1) by simp_all
  show ?case
  proof (cases "F i = []")
    case True
    then have "alloc_from k (Suc i) st = Inr (a, s)"
      using Suc.prems(2) free_lists_empty [OF F i(1)] i by (simp add: alloc_from.simps [of k i])
    then show ?thesis using Suc.hyps(1) [of "Suc i"] Suc.hyps(2) Suc.prems(1) by simp
  next
    case False
    then obtain q st1 F1 where s1: "split_down k i st = Inr (q, st1)" "buddy_wf R st1"
      "free_lists R st1 F1" "F1 k \<noteq> []"
      using split_down_wf [OF wf F, of i k] Suc.prems(1) i by auto
    have "alloc_and_return k st1 = Inr (a, s)"
      using Suc.prems(2) free_lists_empty [OF F i(1)] False i s1(1) by (simp add: alloc_from.simps [of k i])
    moreover have "free_heads R k st1 \<noteq> {}" using s1(3,4) i by (auto simp: free_lists_def)
    ultimately show ?thesis
      using flags_ok_alloc_and_return [OF s1(2) flags_ok_split_down [OF s1(1) ok] i(2)] by blast
  qed
qed

lemma flags_ok_buddy_alloc:
  assumes wf: "buddy_wf R st" and ok: "flags_ok st" and r: "buddy_alloc bytes st = Inr (a, s)"
  shows "flags_ok s"
proof -
  obtain F where F: "free_lists R st F" using buddy_wfD(6) [OF wf] by blast
  from r obtain k where k: "find_order 0 (request_pages bytes) = Inr k"
    by (auto simp: buddy_alloc_def bindR_eq_Inr)
  have ne: "\<not> list_empty (BuddyList k) (buddy_links st) \<Longrightarrow> k \<le> MAX_ORDER \<Longrightarrow> free_heads R k st \<noteq> {}"
    using free_lists_empty [OF F] F by (auto simp: free_lists_def)
  show ?thesis
    using r ok flags_ok_alloc_and_return [OF wf ok _ _ ne] flags_ok_alloc_from [OF wf ok, of k "Suc k"]
    by (auto simp: buddy_alloc_def k not_less split: if_splits)
qed

lemma flags_ok_set_frame:
  "flags_ok st \<Longrightarrow> (\<And>f. pf_flags (g f) = pf_flags f) \<Longrightarrow> flags_ok (set_frame p g st)"
  by (simp add: flags_ok_def)

lemma flags_ok_set_links: "flags_ok (set_links g st) = flags_ok st"
  by (simp add: flags_ok_def)

lemma flags_ok_buddy_free: "buddy_free page st = Inr s \<Longrightarrow> flags_ok st \<Longrightarrow> flags_ok s"
  by (auto simp: buddy_free_def Let_def flags_ok_set_frame flags_ok_set_links
      dest!: flags_ok_coalesce split: if_splits)

lemma flags_ok_init_block:
  assumes "init_block avail i (Inr (c, st)) = Inr (c', s)" and ok: "flags_ok st"
  shows "flags_ok s"
proof (rule flags_okI)
  fix p assume p: "p < NPAGES"
  then show "pf_flags (frame_metadata s p) \<in> {0, PAGE_BUDDY_TAIL, PAGE_BUDDY_HEAD}"
    using assms(1) flags_okD [OF ok p]
    by (auto simp: init_block_def Let_def frames_for_range [OF refl] split: if_splits)
qed

lemma init_block_Inl: "fold (init_block avail) xs (Inl e) = Inl e"
  by (induction xs) (simp_all add: init_block_def)

lemma flags_ok_init_fold:
  "fold (init_block avail) xs (Inr (c, st)) = Inr (c', s) \<Longrightarrow> flags_ok st \<Longrightarrow> flags_ok s"
proof (induction xs arbitrary: c st)
  case (Cons i xs)
  then obtain d t where "init_block avail i (Inr (c, st)) = Inr (d, t)"
    by (cases "init_block avail i (Inr (c, st))") (auto simp: init_block_Inl)
  with Cons flags_ok_init_block show ?case by fastforce
qed simp

section \<open>Initialisation\<close>

text \<open>What holds while \<open>_initialize_buddy_allocator\<close> has placed the blocks below \<open>cur\<close>.\<close>

definition init_inv :: "nat \<Rightarrow> nat \<Rightarrow> buddy \<Rightarrow> bool" where
  "init_inv R cur st \<longleftrightarrow> R \<le> cur \<and> cur \<le> NPAGES \<and> tiles R cur (frame_metadata st) \<and>
     (\<forall>p. cur \<le> p \<and> p < NPAGES \<longrightarrow> \<not> is_head (frame_metadata st p)) \<and> reserved_ok R st \<and>
     (\<forall>p\<in>heads R st. pf_state (frame_metadata st p) = PAGE_FREE) \<and> (\<exists>F. free_lists R st F)"

lemma init_block_eq:
  assumes "bit avail i" and "cur + 2 ^ i \<le> NPAGES"
  shows "\<exists>s. init_block avail i (Inr (cur, st)) = Inr (cur + 2 ^ i, s) \<and>
    buddy_links s = list_add (FrameNode cur) (BuddyList i) (buddy_links st) \<and>
    frame_metadata s cur = (frame_metadata st cur)\<lparr>pf_order := i, pf_state := PAGE_FREE,
        pf_flags := PAGE_BUDDY_HEAD\<rparr> \<and>
    (\<forall>x. cur < x \<longrightarrow> x < cur + 2 ^ i \<longrightarrow> frame_metadata s x =
       (frame_metadata st x)\<lparr>pf_order := cur, pf_state := ucast PAGE_BUDDY_TAIL\<rparr>) \<and>
    (\<forall>x. x < cur \<or> cur + 2 ^ i \<le> x \<longrightarrow> frame_metadata s x = frame_metadata st x)"
  using assms
  by (auto simp: init_block_def Let_def frames_for_range [OF refl])

lemma init_block_inv:
  assumes inv: "init_inv R cur st" and i: "i \<le> MAX_ORDER" and b: "bit avail i" and le: "cur + 2 ^ i \<le> NPAGES"
  shows "\<exists>s. init_block avail i (Inr (cur, st)) = Inr (cur + 2 ^ i, s) \<and> init_inv R (cur + 2 ^ i) s"
proof -
  let ?fr = "frame_metadata st" and ?e = "cur + 2 ^ i"
  have I: "R \<le> cur" "tiles R cur ?fr" "\<And>p. cur \<le> p \<Longrightarrow> p < NPAGES \<Longrightarrow> \<not> is_head (?fr p)"
    "reserved_ok R st" "\<And>p. p \<in> heads R st \<Longrightarrow> pf_state (?fr p) = PAGE_FREE"
    using inv by (simp_all add: init_inv_def)
  obtain F where F: "free_lists R st F" using inv by (auto simp: init_inv_def)
  obtain s where S: "init_block avail i (Inr (cur, st)) = Inr (?e, s) \<and>
    buddy_links s = list_add (FrameNode cur) (BuddyList i) (buddy_links st) \<and>
    frame_metadata s cur = (?fr cur)\<lparr>pf_order := i, pf_state := PAGE_FREE, pf_flags := PAGE_BUDDY_HEAD\<rparr> \<and>
    (\<forall>x. cur < x \<longrightarrow> x < ?e \<longrightarrow> frame_metadata s x =
       (?fr x)\<lparr>pf_order := cur, pf_state := ucast PAGE_BUDDY_TAIL\<rparr>) \<and>
    (\<forall>x. x < cur \<or> ?e \<le> x \<longrightarrow> frame_metadata s x = ?fr x)"
    using init_block_eq [OF b le] by (rule exE)
  note lk = S [THEN conjunct2, THEN conjunct1]
    and gc = S [THEN conjunct2, THEN conjunct2, THEN conjunct1]
    and gt = S [THEN conjunct2, THEN conjunct2, THEN conjunct2, THEN conjunct1, rule_format]
    and out = S [THEN conjunct2, THEN conjunct2, THEN conjunct2, THEN conjunct2, rule_format]
  let ?gr = "frame_metadata s"
  have tl: "\<not> is_head (?gr q)" "pf_order (?gr q) = cur" if "cur < q" "q < ?e" for q
    using gt [OF that] I(3) [of q] that le by simp_all
  have blk: "one_block cur i ?gr" using gc tl by (simp add: one_block_def)
  have "tiles R cur ?gr" using I(2) out by (subst tiles_cong [of _ _ _ ?fr]) auto
  then have "tiles R ?e ?gr" by (rule tiles_append [OF _ tiles_single [OF blk]]) (use I(1) in auto)
  moreover have "\<not> is_head (?gr p)" if "?e \<le> p" "p < NPAGES" for p
    using I(3) [of p] out [of p] that by simp
  moreover have "reserved_ok R s" using I(1,4) out by (simp add: reserved_ok_def)
  moreover have hs: "q \<in> heads R s \<longleftrightarrow> q = cur \<or> q \<in> heads R st" for q
  proof -
    consider "q = cur" | "cur < q" "q < ?e" | "q < cur \<or> ?e \<le> q" by linarith
    then show ?thesis
    proof cases
      case 1
      have "cur < NPAGES" by (rule less_le_trans [OF _ le]) simp
      with 1 show ?thesis using gc I(1) by (simp add: heads_def)
    next
      case 2
      then show ?thesis using tl(1) [of q] I(3) [of q] le by (simp add: heads_def)
    next
      case 3
      then show ?thesis using out [of q] by (auto simp: heads_def)
    qed
  qed
  moreover have same: "?gr q = ?fr q" if "q \<in> heads R st" for q
    using out [of q] headsD [OF that] I(3) [of q] by (cases "q < cur") auto
  then have fr: "pf_state (?gr p) = PAGE_FREE" if "p \<in> heads R s" for p
    using that hs [of p] I(5) [of p] same [of p] gc by auto
  moreover have ch: "cur \<notin> heads R st" using I(3) [of cur] by (auto simp: heads_def)
  have L: "lists_of BuddyList FrameNode (buddy_links st) {..MAX_ORDER} F"
    using F by (simp add: free_lists_def)
  have nc: "cur \<notin> set (F l)" if "l \<in> {..MAX_ORDER}" for l
    using free_lists_mem [OF F, of l cur] that ch by (simp add: free_heads_iff)
  have fh: "q \<in> free_heads R l s \<longleftrightarrow> q \<in> free_heads R l st \<or> (q = cur \<and> l = i)" for q l
  proof (cases "q = cur")
    case True
    then show ?thesis using gc ch hs [of q] by (simp add: free_heads_iff eq_commute [of l])
  next
    case False
    then show ?thesis using hs [of q] same [of q]
      by (cases "q \<in> heads R st") (simp_all add: free_heads_iff)
  qed
  moreover have "free_lists R s (F(i := cur # F i))"
  proof (rule free_listsI)
    show "lists_of BuddyList FrameNode (buddy_links s) {..MAX_ORDER} (F(i := cur # F i))"
      using bl.family_add [OF L _ nc, of i] i by (simp add: lk)
    fix l assume l: "l \<le> MAX_ORDER"
    show "set ((F(i := cur # F i)) l) = free_heads R l s"
    proof (rule set_eqI)
      fix q show "q \<in> set ((F(i := cur # F i)) l) \<longleftrightarrow> q \<in> free_heads R l s"
        using free_lists_mem [OF F l, of q] fh [of q l] by (cases "l = i") auto
    qed
  qed
  ultimately have "init_inv R ?e s" using I(1) le unfolding init_inv_def by (intro conjI) auto
  then show ?thesis using S by blast
qed

lemma mod_exp_Suc: "(a::nat) mod 2 ^ Suc n = (if bit a n then 2 ^ n else 0) + a mod 2 ^ n"
  using take_bit_Suc_from_most [of n a]
  by (simp add: take_bit_eq_mod push_bit_eq_mult)

lemma init_fold:
  assumes "init_inv R cur st" and "cur + avail mod 2 ^ n = NPAGES" and "n \<le> Suc MAX_ORDER"
  shows "\<exists>s. fold (init_block avail) (rev [0..<n]) (Inr (cur, st)) = Inr (NPAGES, s) \<and> init_inv R NPAGES s"
  using assms
proof (induction n arbitrary: cur st)
  case 0
  then show ?case by simp
next
  case (Suc n)
  show ?case
  proof (cases "bit avail n")
    case True
    then have e: "cur + 2 ^ n + avail mod 2 ^ n = NPAGES" using Suc.prems(2) unfolding mod_exp_Suc by simp
    have "n \<le> MAX_ORDER" "cur + 2 ^ n \<le> NPAGES" using e Suc.prems(3) by linarith+
    from init_block_inv [OF Suc.prems(1) this(1) True this(2)] obtain s where
      s: "init_block avail n (Inr (cur, st)) = Inr (cur + 2 ^ n, s)" "init_inv R (cur + 2 ^ n) s" by blast
    from Suc.IH [OF s(2) e] Suc.prems(3) s(1) show ?thesis by simp
  next
    case False
    then have e: "cur + avail mod 2 ^ n = NPAGES" using Suc.prems(2) unfolding mod_exp_Suc by simp
    have "init_block avail n (Inr (cur, st)) = Inr (cur, st)" using False by (simp add: init_block_def)
    with Suc.IH [OF Suc.prems(1) e] Suc.prems(3) show ?thesis by simp
  qed
qed

lemma zero_links_empty:
  assumes "lists_of BuddyList FrameNode L K (\<lambda>_. [])"
  shows "lists_of BuddyList FrameNode (zero_links L) K (\<lambda>_. [])"
  using assms by (simp add: lists_of_def dlist_def zero_links_def)

lemma init_inv_start:
  assumes "R \<le> NPAGES"
    and "\<And>p. p < NPAGES \<Longrightarrow> frame_metadata st p = (if p < R then zero_frame\<lparr>pf_state := PAGE_RESERVED\<rparr> else zero_frame)"
    and "lists_of BuddyList FrameNode (buddy_links st) {..MAX_ORDER} (\<lambda>_. [])"
  shows "init_inv R R st"
proof -
  have nh: "\<not> is_head (frame_metadata st p)" if "p < NPAGES" for p
    using assms(2) [OF that] by (simp add: is_head_def zero_frame_def)
  then have he: "heads R st = {}" by (auto simp: heads_def)
  have "free_lists R st (\<lambda>_. [])"
    by (rule free_listsI [OF assms(3)]) (simp add: free_heads_def he)
  moreover have "reserved_ok R st" using assms(1,2) by (simp add: reserved_ok_def is_head_def zero_frame_def)
  ultimately show ?thesis
    using assms(1) nh unfolding init_inv_def he by (auto simp: tiles_def)
qed

lemma init_inv_done:
  assumes "init_inv R NPAGES st" and "MAX_ORDER < R"
  shows "buddy_wf R st" "live_blocks R st = {}"
proof -
  have fr: "\<And>p. p \<in> heads R st \<Longrightarrow> pf_state (frame_metadata st p) = PAGE_FREE"
    using assms by (simp add: init_inv_def)
  then have "tails_ok R st" by (simp add: tails_ok_def)
  with assms show "buddy_wf R st" by (simp add: init_inv_def buddy_wf_def)
  show "live_blocks R st = {}" using fr by (auto simp: live_blocks_def)
qed

lemma initialize_wf:
  fixes mem :: nat
  defines "R \<equiv> (mem + 0xFFF) div 2 ^ 12"
  assumes "MAX_ORDER < R" and "R \<le> NPAGES"
  shows "\<exists>s. initialize_page_frame_array mem st = Inr (R, s) \<and> buddy_wf R s \<and> live_blocks R s = {} \<and>
    flags_ok s"
proof -
  define s1 where "s1 = set_links zero_links
    ((set_links (\<lambda>L. fold (\<lambda>k. INIT_LIST_HEAD (BuddyList k)) [0..<Suc MAX_ORDER] L) st)
       \<lparr>frame_metadata := (\<lambda>p. if p < NPAGES then zero_frame else frame_metadata st p)\<rparr>)"
  define s2 where "s2 = for_range 0 R (\<lambda>i. set_frame (0 + i) (\<lambda>f. f\<lparr>pf_state := PAGE_RESERVED\<rparr>)) s1"
  have "lists_of BuddyList FrameNode (buddy_links s2) {..MAX_ORDER} (\<lambda>_. [])"
    using zero_links_empty [OF bl.family_init [of "[0..<Suc MAX_ORDER]" "buddy_links st"]]
    unfolding s2_def frames_for_range(2) [OF refl] s1_def
    by (simp add: atLeast0LessThan lessThan_Suc_atMost del: upt_Suc fold_simps)
  moreover have fr2: "frame_metadata s2 p =
      (if p < R then zero_frame\<lparr>pf_state := PAGE_RESERVED\<rparr> else zero_frame)" if "p < NPAGES" for p
    using that unfolding s2_def frames_for_range(1) [OF refl] by (simp add: s1_def)
  ultimately have inv: "init_inv R R s2" using init_inv_start assms(3) by blast
  have "R + (2 ^ 18 - R) mod 2 ^ Suc MAX_ORDER = NPAGES"
    using assms(3) by (simp add: MAX_ORDER_def NPAGES_def)
  from init_fold [OF inv this] obtain s where
    s: "fold (init_block (2 ^ 18 - R)) (rev [0..<Suc MAX_ORDER]) (Inr (R, s2)) = Inr (NPAGES, s)"
      "init_inv R NPAGES s" by blast
  have "initialize_page_frame_array mem st = Inr (R, s)"
  proof -
    have "initialize_page_frame_array mem st =
        bindR (initialize_buddy_allocator R (2 ^ 18 - R) s2) (\<lambda>s3. Inr (R, s3))"
      using assms(3) unfolding initialize_page_frame_array_def Let_def R_def [symmetric] s2_def s1_def
        set_links_sel(1) by (simp del: upt_Suc)
    then show ?thesis unfolding initialize_buddy_allocator_def s(1) by simp
  qed
  moreover have "flags_ok s2" by (rule flags_okI) (simp add: fr2 zero_frame_def)
  then have "flags_ok s" by (rule flags_ok_init_fold [OF s(1)])
  ultimately show ?thesis using init_inv_done [OF s(2) assms(2)] by blast
qed

end
