(* ===== verification/Page_Allocator.thy ===== *)
theory Page_Allocator
  imports Buddy_Correct
begin

text \<open>
  The page allocator as its clients see it: the slab allocator, the page-table code and the
  system calls only call \<open>buddy_alloc\<close>, \<open>buddy_free\<close>, \<open>decrement_ref\<close> and the owner queries. The
  locale \<open>page_allocator\<close> names the laws they rely on; whole runs of requests are proved safe in
  it once and the buddy allocator of \<open>paging.c\<close> is an instance.
\<close>

section \<open>The interface\<close>

datatype request = Alloc u64 | Free u64

text \<open>A request whose size and address the kernel can handle.\<close>

fun request_ok :: "request \<Rightarrow> bool" where
  "request_ok (Alloc n) \<longleftrightarrow> unat n \<le> 2 ^ 43"
| "request_ok (Free a) \<longleftrightarrow> pfn_of a < NPAGES"

text \<open>One request, sent to an allocator that may already have failed.\<close>

fun serve ::
  "(u64 \<Rightarrow> 's \<Rightarrow> (u64 \<times> 's) result) \<Rightarrow> (u64 \<Rightarrow> 's \<Rightarrow> 's result) \<Rightarrow> request \<Rightarrow> 's result \<Rightarrow> 's result"
where
  "serve alloc free (Alloc n) r = bindR r (\<lambda>s. bindR (alloc n s) (\<lambda>(a, s'). Inr s'))"
| "serve alloc free (Free a) r = bindR r (free a)"

definition separated :: "(nat \<times> nat) set \<Rightarrow> bool" where
  "separated B \<longleftrightarrow> (\<forall>(p, k)\<in>B. \<forall>(q, l)\<in>B. (p, k) \<noteq> (q, l) \<longrightarrow>
     {p ..< p + 2 ^ k} \<inter> {q ..< q + 2 ^ l} = {})"

locale page_allocator =
  fixes inv :: "'s \<Rightarrow> bool" and live :: "'s \<Rightarrow> (nat \<times> nat) set"
    and alloc :: "u64 \<Rightarrow> 's \<Rightarrow> (u64 \<times> 's) result" and free :: "u64 \<Rightarrow> 's \<Rightarrow> 's result"
  assumes alloc_law: "inv s \<Longrightarrow> unat n \<le> 2 ^ 43 \<Longrightarrow>
      \<exists>a s'. alloc n s = Inr (a, s') \<and> inv s' \<and>
        (a = 0 \<and> s' = s \<or>
         a \<noteq> 0 \<and> (\<exists>k. unat n \<le> 2 ^ k * 4096 \<and> live s' = insert (pfn_of a, k) (live s) \<and>
                     (\<forall>l. (pfn_of a, l) \<notin> live s)))"
    and free_law: "inv s \<Longrightarrow> pfn_of a < NPAGES \<Longrightarrow>
      \<exists>s'. free a s = Inr s' \<and> inv s' \<and> live s' = {b \<in> live s. fst b \<noteq> pfn_of a}"
    and separated_law: "inv s \<Longrightarrow> separated (live s)"
    and bounded_law: "inv s \<Longrightarrow> (p, k) \<in> live s \<Longrightarrow> p + 2 ^ k \<le> NPAGES"
begin

lemma run_safe:
  assumes "inv s" and "\<forall>q \<in> set qs. request_ok q"
  shows "\<exists>s'. fold (serve alloc free) qs (Inr s) = Inr s' \<and> inv s' \<and> separated (live s')"
  using assms
proof (induction qs arbitrary: s)
  case Nil
  then show ?case using separated_law by simp
next
  case (Cons q qs)
  have "\<exists>s1. serve alloc free q (Inr s) = Inr s1 \<and> inv s1"
    using Cons.prems alloc_law [of s] free_law [of s] by (cases q) fastforce+
  then obtain s1 where "serve alloc free q (Inr s) = Inr s1" "inv s1" by blast
  with Cons show ?case by simp
qed

text \<open>Freeing the block an allocation returned gives the old set of blocks.\<close>

lemma alloc_free:
  assumes "inv s" and "unat n \<le> 2 ^ 43" and "alloc n s = Inr (a, s1)" and "a \<noteq> 0"
  shows "\<exists>s2. free a s1 = Inr s2 \<and> inv s2 \<and> live s2 = live s"
proof -
  obtain k where k: "inv s1" "live s1 = insert (pfn_of a, k) (live s)" "\<forall>l. (pfn_of a, l) \<notin> live s"
    using alloc_law [OF assms(1,2)] assms(3,4) by auto
  have "pfn_of a + 2 ^ k \<le> NPAGES" using bounded_law [OF k(1), of "pfn_of a" k] k(2) by simp
  then have "pfn_of a < NPAGES" by (rule less_le_trans [rotated]) simp
  from free_law [OF k(1) this] k(2,3) show ?thesis by (auto simp: set_eq_iff)
qed

end

section \<open>The buddy allocator is a page allocator\<close>

definition buddy_ok :: "nat \<Rightarrow> buddy \<Rightarrow> bool" where
  "buddy_ok R st \<longleftrightarrow> buddy_wf R st \<and> flags_ok st"

lemma page_addr_not_0: "p < NPAGES \<Longrightarrow> page_addr p \<noteq> 0"
proof
  assume "p < NPAGES" and "page_addr p = 0"
  then have "p = pfn_of 0" using pfn_page_addr [of p] by simp
  also have "\<dots> = 2 ^ 35" by (simp add: pfn_of_def va_to_pa_def VIRT_BASE_def drop_bit_eq_div)
  finally show False using \<open>p < NPAGES\<close> by (simp add: NPAGES_def)
qed

text \<open>The block of order \<open>k\<close> at page \<open>p\<close> became allocated and nothing else happened to live blocks.\<close>

definition got_block :: "nat \<Rightarrow> nat \<Rightarrow> nat \<Rightarrow> buddy \<Rightarrow> buddy \<Rightarrow> bool" where
  "got_block R k p st st' \<longleftrightarrow> p < NPAGES \<and> buddy_ok R st' \<and>
     live_blocks R st' = insert (p, k) (live_blocks R st) \<and> (\<forall>l. (p, l) \<notin> live_blocks R st) \<and>
     pf_state (frame_metadata st' p) = PAGE_BUDDY \<and> pf_refcount (frame_metadata st' p) = 1 \<and> keeps_live R st st'"

lemma got_blockD:
  assumes "got_block R k p st st'"
  shows "p < NPAGES" "buddy_ok R st'" "live_blocks R st' = insert (p, k) (live_blocks R st)"
    "\<And>l. (p, l) \<notin> live_blocks R st" "pf_state (frame_metadata st' p) = PAGE_BUDDY"
    "pf_refcount (frame_metadata st' p) = 1" "keeps_live R st st'"
  using assms by (simp_all add: got_block_def)

definition has_block :: "nat \<Rightarrow> nat \<Rightarrow> buddy \<Rightarrow> bool" where
  "has_block R k st \<longleftrightarrow> (\<exists>j\<ge>k. free_heads R j st \<noteq> {})"

lemma buddy_alloc_cases:
  assumes ok: "buddy_ok R st" and n: "unat n \<le> 2 ^ 43"
  obtains (got) k p st' where "order_for (unat n) k" "has_block R k st"
      "buddy_alloc n st = Inr (page_addr p, st')" "got_block R k p st st'"
  | (none) k where "order_for (unat n) k" "\<not> has_block R k st" "buddy_alloc n st = Inr (0, st)"
proof -
  have wf: "buddy_wf R st" and fl: "flags_ok st" using ok by (simp_all add: buddy_ok_def)
  obtain k where k: "order_for (unat n) k"
    "if has_block R k st
     then \<exists>a st'. buddy_alloc n st = Inr (a, st') \<and> buddy_wf R st' \<and> fresh_block R k a st st'
     else buddy_alloc n st = Inr (0, st)" using buddy_alloc_spec [OF wf n] by (auto simp: has_block_def)
  show thesis
  proof (cases "has_block R k st")
    case True
    with k(2) obtain a st' where r: "buddy_alloc n st = Inr (a, st')" "buddy_wf R st'" "fresh_block R k a st st'"
      by auto
    then obtain p where p: "a = page_addr p" "live_blocks R st' = insert (p, k) (live_blocks R st)"
      "\<forall>l. (p, l) \<notin> live_blocks R st" "pf_state (frame_metadata st' p) = PAGE_BUDDY"
      "pf_refcount (frame_metadata st' p) = 1" "keeps_live R st st'" unfolding fresh_block_def by blast
    have "p \<in> heads R st'" using p(2) live_blocks_iff [of p k R st'] by simp
    then have "p < NPAGES" by (rule headsD)
    moreover have "buddy_ok R st'" using flags_ok_buddy_alloc [OF wf fl r(1)] r(2) by (simp add: buddy_ok_def)
    ultimately have "got_block R k p st st'" using p by (simp add: got_block_def)
    then show thesis using got True k(1) r(1) p(1) by blast
  next
    case False
    with k none show thesis by simp
  qed
qed

lemma live_minus:
  assumes "(p, k) \<in> live_blocks R st"
  shows "live_blocks R st - {(p, k)} = {b \<in> live_blocks R st. fst b \<noteq> p}"
proof (rule pair_set_eqI)
  fix q l
  show "(q, l) \<in> live_blocks R st - {(p, k)} \<longleftrightarrow> (q, l) \<in> {b \<in> live_blocks R st. fst b \<noteq> p}"
    using assms by (cases "q = p") (simp_all add: live_blocks_iff)
qed

lemma buddy_free_cases:
  assumes ok: "buddy_ok R st" and a: "pfn_of a < NPAGES"
  shows "\<exists>s. buddy_free a st = Inr s \<and> buddy_ok R s \<and>
    live_blocks R s = {b \<in> live_blocks R st. fst b \<noteq> pfn_of a} \<and>
    (\<forall>q l. (q, l) \<in> live_blocks R s \<longrightarrow> frame_metadata s q = frame_metadata st q)"
proof -
  have wf: "buddy_wf R st" and fl: "flags_ok st" using ok by (simp_all add: buddy_ok_def)
  show ?thesis
  proof (cases "\<exists>k. (pfn_of a, k) \<in> live_blocks R st")
    case True
    then obtain k where k: "(pfn_of a, k) \<in> live_blocks R st" by blast
    from buddy_free_live [OF wf k] obtain s where s: "buddy_free a st = Inr s" "buddy_wf R s"
      "live_blocks R s = live_blocks R st - {(pfn_of a, k)}"
      "\<forall>q l. (q, l) \<in> live_blocks R s \<longrightarrow> frame_metadata s q = frame_metadata st q" by blast
    have "live_blocks R s = {b \<in> live_blocks R st. fst b \<noteq> pfn_of a}"
      unfolding s(3) by (rule live_minus [OF k])
    with s flags_ok_buddy_free [OF s(1) fl] show ?thesis by (simp add: buddy_ok_def)
  next
    case False
    then have "buddy_free a st = Inr st" using buddy_free_dead [OF wf a] by blast
    moreover have "live_blocks R st = {b \<in> live_blocks R st. fst b \<noteq> pfn_of a}" using False by auto
    ultimately show ?thesis using ok by blast
  qed
qed

lemma separated_live: "buddy_ok R st \<Longrightarrow> separated (live_blocks R st)"
  unfolding separated_def buddy_ok_def using live_blocks_disjoint [of R st] by blast

interpretation buddy_pages: page_allocator "buddy_ok R" "live_blocks R" buddy_alloc buddy_free for R
proof
  fix s n assume ok: "buddy_ok R s" and n: "unat (n :: u64) \<le> 2 ^ 43"
  show "\<exists>a s'. buddy_alloc n s = Inr (a, s') \<and> buddy_ok R s' \<and>
        (a = 0 \<and> s' = s \<or>
         a \<noteq> 0 \<and> (\<exists>k. unat n \<le> 2 ^ k * 4096 \<and> live_blocks R s' = insert (pfn_of a, k) (live_blocks R s) \<and>
                     (\<forall>l. (pfn_of a, l) \<notin> live_blocks R s)))"
  proof (cases rule: buddy_alloc_cases [OF ok n])
    case (1 k p st')
    note g = got_blockD [OF 1(4)]
    show ?thesis
      using 1(1,3) g(1-4) page_addr_not_0 [OF g(1)]
      by (intro exI [of _ "page_addr p"] exI [of _ st']) (auto simp: order_for_def)
  next
    case (2 k)
    then show ?thesis using ok by auto
  qed
next
  fix s a assume "buddy_ok R s" and "pfn_of a < NPAGES"
  then show "\<exists>s'. buddy_free a s = Inr s' \<and> buddy_ok R s' \<and>
      live_blocks R s' = {b \<in> live_blocks R s. fst b \<noteq> pfn_of a}"
    using buddy_free_cases [of R s a] by blast
next
  fix s assume "buddy_ok R s"
  then show "separated (live_blocks R s)" by (rule separated_live)
next
  fix s p k assume "buddy_ok R s" and "(p, k) \<in> live_blocks R s"
  then show "p + 2 ^ k \<le> NPAGES" using live_blocks_bounds(2) [of R s p k] by (simp add: buddy_ok_def)
qed

section \<open>Owners and reference counts\<close>

text \<open>A frame update that keeps the block structure and does not free or allocate a block.\<close>

lemma set_frame_neutral:
  assumes ok: "buddy_ok R st" and p: "R \<le> p"
    and g: "\<And>f. pf_order (g f) = pf_order f" "\<And>f. pf_flags (g f) = pf_flags f"
    and st: "pf_state (g (frame_metadata st p)) = PAGE_FREE \<longleftrightarrow> pf_state (frame_metadata st p) = PAGE_FREE"
  shows "buddy_ok R (set_frame p g st)" "live_blocks R (set_frame p g st) = live_blocks R st"
proof -
  let ?s = "set_frame p g st"
  have wf: "buddy_wf R st" and fl: "flags_ok st" using ok by (simp_all add: buddy_ok_def)
  have o: "pf_order (frame_metadata ?s q) = pf_order (frame_metadata st q)"
    and f: "pf_flags (frame_metadata ?s q) = pf_flags (frame_metadata st q)"
    and i: "is_head (frame_metadata ?s q) = is_head (frame_metadata st q)"
    and z: "pf_state (frame_metadata ?s q) = PAGE_FREE \<longleftrightarrow> pf_state (frame_metadata st q) = PAGE_FREE" for q
    using g st by (simp_all add: is_head_def)
  have h: "heads R ?s = heads R st" unfolding heads_def i ..
  have "free_heads R k ?s = free_heads R k st" for k unfolding free_heads_def h o z ..
  then have fls: "free_lists R ?s F = free_lists R st F" for F by (simp add: free_lists_def)
  have "tiles R NPAGES (frame_metadata ?s)"
    using buddy_wfD(3) [OF wf] unfolding tiles_def one_block_def o i .
  moreover have "tails_ok R ?s" using buddy_wfD(4) [OF wf] unfolding tails_ok_def h z o f .
  moreover have "reserved_ok R ?s" using buddy_wfD(5) [OF wf] p i by (simp add: reserved_ok_def)
  moreover have "flags_ok ?s" using fl unfolding flags_ok_def f .
  ultimately show "buddy_ok R ?s"
    using buddy_wfD(1,2,6) [OF wf] fls unfolding buddy_ok_def buddy_wf_def by blast
  show "live_blocks R ?s = live_blocks R st" unfolding live_blocks_def h o z ..
qed

lemma live_flags:
  assumes ok: "buddy_ok R st" and lv: "(p, k) \<in> live_blocks R st" and q: "p \<le> q" "q < p + 2 ^ k"
  shows "q < NPAGES" "p < NPAGES"
    "pf_flags (frame_metadata st p) = PAGE_BUDDY_HEAD"
    "q \<noteq> p \<Longrightarrow> pf_flags (frame_metadata st q) = PAGE_BUDDY_TAIL \<and> pf_order (frame_metadata st q) = p"
proof -
  have wf: "buddy_wf R st" and fl: "flags_ok st" using ok by (simp_all add: buddy_ok_def)
  have P: "p \<in> heads R st" "pf_state (frame_metadata st p) \<noteq> PAGE_FREE" "pf_order (frame_metadata st p) = k"
    using lv by (simp_all add: live_blocks_iff)
  show "q < NPAGES" using head_order(1) [OF wf P(1)] P(3) q(2) by simp
  show pN: "p < NPAGES" by (rule headsD(2) [OF P(1)])
  show "pf_flags (frame_metadata st p) = PAGE_BUDDY_HEAD"
    by (rule flags_ok_head [OF fl pN headsD(3) [OF P(1)]])
  show "pf_flags (frame_metadata st q) = PAGE_BUDDY_TAIL \<and> pf_order (frame_metadata st q) = p" if "q \<noteq> p"
    using that q P buddy_wfD(4) [OF wf] head_order(3) [OF wf P(1)] unfolding tails_ok_def one_block_def by simp
qed

lemma owner_pfn_live:
  assumes "buddy_ok R st" and "(p, k) \<in> live_blocks R st" and "p \<le> pfn_of a" "pfn_of a < p + 2 ^ k"
  shows "owner_pfn a st = Inr p" "head_from_page a st = Inr (page_addr p)"
  using live_flags [OF assms]
  by (cases "pfn_of a = p"; simp add: owner_pfn_def head_from_page_def Let_def)+

lemma coalesce_refcount:
  "coalesce_up p st = Inr s \<Longrightarrow> pf_refcount (frame_metadata s q) = pf_refcount (frame_metadata st q)"
proof (induction p st arbitrary: s rule: coalesce_up.induct)
  case (1 p st)
  define k b where "k = pf_order (frame_metadata st p)" and "b = p XOR 2 ^ k"
  have lt: "min b p < max b p" using max_min_xor_exp [of p k] by (simp add: b_def)
  note IH = "1.IH" [OF refl refl refl refl, folded k_def, folded b_def]
  from "1.prems" [unfolded coalesce_up.simps [of p st] Let_def, folded k_def, folded b_def]
  have "s = st \<or> (coalesce_up (min b p) (merge_blocks (min b p) (max b p) k st) = Inr s \<and>
      \<not> NPAGES \<le> max b p \<and> pf_order (frame_metadata st (min b p)) = pf_order (frame_metadata st (max b p)) \<and>
      pf_state (frame_metadata st (min b p)) = PAGE_FREE \<and> pf_state (frame_metadata st (max b p)) = PAGE_FREE \<and>
      \<not> NPAGES < max b p + 2 ^ k)"
    by (simp split: if_splits)
  moreover have "pf_refcount (frame_metadata (merge_blocks (min b p) (max b p) k st) q) =
      pf_refcount (frame_metadata st q)"
    by (simp add: merge_blocks_frames [OF lt])
  ultimately show ?case using IH by auto
qed

lemma buddy_free_refcount:
  "buddy_free a st = Inr s \<Longrightarrow> pf_refcount (frame_metadata s q) = pf_refcount (frame_metadata st q)"
  by (auto simp: buddy_free_def Let_def dest!: coalesce_refcount [of _ _ _ q] split: if_splits)

section \<open>What the page allocator guarantees\<close>

text \<open>A concrete machine: 64 MiB are reserved for the kernel image and the page-frame array.\<close>

definition blank_buddy :: buddy where
  "blank_buddy = \<lparr>frame_metadata = (\<lambda>_. zero_frame), buddy_links = \<lparr>lnext = (\<lambda>n. n), lprev = (\<lambda>n. n)\<rparr>\<rparr>"

definition boot_buddy :: buddy where
  "boot_buddy = (case initialize_page_frame_array 0x4000000 blank_buddy of
     Inr (_, s) \<Rightarrow> s | Inl _ \<Rightarrow> blank_buddy)"

lemma boot_buddy_ok: "buddy_ok 16384 boot_buddy" "live_blocks 16384 boot_buddy = {}"
proof -
  have "\<exists>s. initialize_page_frame_array 0x4000000 blank_buddy = Inr (16384, s) \<and>
      buddy_wf 16384 s \<and> live_blocks 16384 s = {} \<and> flags_ok s"
    using initialize_wf [of "0x4000000" blank_buddy] by (simp add: MAX_ORDER_def NPAGES_def)
  then show "buddy_ok 16384 boot_buddy" "live_blocks 16384 boot_buddy = {}"
    by (auto simp: boot_buddy_def buddy_ok_def)
qed

lemma empty_allocator_free:
  assumes "buddy_ok R st" and "R < NPAGES" and "live_blocks R st = {}"
  shows "\<exists>j. free_heads R j st \<noteq> {}"
proof -
  have "tiles R NPAGES (frame_metadata st)" using assms(1) by (simp add: buddy_ok_def buddy_wf_def)
  from tiles_coverD [OF this order_refl assms(2)] have "is_head (frame_metadata st R)" by (metis le_antisym)
  then have h: "R \<in> heads R st" using assms(2) by (simp add: heads_def)
  with assms(3) live_blocks_iff [of R _ R st] have "pf_state (frame_metadata st R) = PAGE_FREE" by blast
  with h have "R \<in> free_heads R (pf_order (frame_metadata st R)) st" by (simp add: free_heads_iff)
  then show ?thesis by blast
qed

lemma boot_alloc_page: "\<exists>a s. buddy_alloc 4096 boot_buddy = Inr (a, s) \<and> a \<noteq> 0"
proof -
  have h: "has_block 16384 k boot_buddy" if "order_for 4096 k" for k
  proof -
    have "k = 0" using that by (cases k) (auto simp: order_for_def)
    with empty_allocator_free [OF boot_buddy_ok(1) _ boot_buddy_ok(2)]
    show ?thesis by (auto simp: NPAGES_def has_block_def)
  qed
  show ?thesis
    by (rule buddy_alloc_cases [OF boot_buddy_ok(1), of 4096])
      (use h page_addr_not_0 in \<open>auto simp: got_block_def\<close>)
qed

text \<open>
  C1. Allocation. In every state of the invariant and for every size up to \<open>2 ^ 43\<close> bytes,
  \<open>buddy_alloc\<close> returns without leaving the page-frame array and keeps the invariant. With \<open>k\<close> the
  least order whose block holds the request, it fails, with the state unchanged, exactly when no
  free block of order \<open>k\<close> or more exists; otherwise it returns the address of a block of
  order \<open>k\<close> that was not allocated before, owned by the buddy allocator with reference count 1,
  and all allocated blocks are pairwise disjoint.
\<close>

theorem buddy_alloc_correct:
  assumes "buddy_ok R st" and "unat bytes \<le> 2 ^ 43"
  shows "\<exists>k a st'. buddy_alloc bytes st = Inr (a, st') \<and> buddy_ok R st' \<and> order_for (unat bytes) k \<and>
    separated (live_blocks R st') \<and>
    (if has_block R k st then a \<noteq> 0 \<and> a = page_addr (pfn_of a) \<and> got_block R k (pfn_of a) st st'
     else a = 0 \<and> st' = st)"
proof (cases rule: buddy_alloc_cases [OF assms])
  case (1 k p st')
  note g = got_blockD [OF 1(4)]
  show ?thesis
    using 1 g(2) page_addr_not_0 [OF g(1)] separated_live [OF g(2)] pfn_page_addr [OF g(1)]
    by (intro exI [of _ k] exI [of _ "page_addr p"] exI [of _ st']) simp
next
  case (2 k)
  then show ?thesis
    using assms(1) separated_live by (intro exI [of _ k] exI [of _ 0] exI [of _ st]) simp
qed

theorem buddy_alloc_correct_witness:
  "buddy_ok 16384 boot_buddy \<and> unat (8192 :: u64) \<le> 2 ^ 43 \<and>
   (\<exists>k a st'. buddy_alloc 8192 boot_buddy = Inr (a, st') \<and> buddy_ok 16384 st' \<and> order_for 8192 k)"
  using boot_buddy_ok(1) buddy_alloc_correct [of 16384 boot_buddy 8192] by auto

text \<open>
  C2. Release. For every address of managed RAM, \<open>buddy_free\<close> returns without leaving the
  page-frame array and keeps the invariant, coalescing included. It removes exactly the allocated
  block that starts at the address; freeing a tail page, a reserved page or a block that is
  already free changes nothing.
\<close>

theorem buddy_free_correct:
  assumes "buddy_ok R st" and "pfn_of a < NPAGES"
  shows "\<exists>s. buddy_free a st = Inr s \<and> buddy_ok R s \<and>
    live_blocks R s = {b \<in> live_blocks R st. fst b \<noteq> pfn_of a} \<and>
    ((\<forall>k. (pfn_of a, k) \<notin> live_blocks R st) \<longrightarrow> s = st)"
proof -
  obtain s where s: "buddy_free a st = Inr s" "buddy_ok R s"
    "live_blocks R s = {b \<in> live_blocks R st. fst b \<noteq> pfn_of a}" using buddy_free_cases [OF assms] by blast
  have "s = st" if "\<forall>k. (pfn_of a, k) \<notin> live_blocks R st"
    using buddy_free_dead [of R st a] assms that s(1) by (simp add: buddy_ok_def)
  with s show ?thesis by blast
qed

theorem buddy_free_correct_witness:
  "buddy_ok 16384 boot_buddy \<and> pfn_of (page_addr 20000) < NPAGES \<and>
   buddy_free (page_addr 20000) boot_buddy = Inr boot_buddy"
proof -
  have "pfn_of (page_addr 20000) < NPAGES" by (subst pfn_page_addr) (simp_all add: NPAGES_def)
  with boot_buddy_ok buddy_free_correct [of 16384 boot_buddy "page_addr 20000"] show ?thesis by auto
qed

text \<open>
  C3. Every run is safe. Starting from an initialised allocator, any sequence of allocations and
  releases, releases of wrong and of already released addresses included, runs to its end
  without a wild access, keeps the invariant, and leaves allocated blocks that do not overlap.
\<close>

theorem buddy_requests_safe:
  assumes "buddy_ok R st" and "\<forall>q \<in> set qs. request_ok q"
  shows "\<exists>s. fold (serve buddy_alloc buddy_free) qs (Inr st) = Inr s \<and> buddy_ok R s \<and>
    separated (live_blocks R s)"
  by (rule buddy_pages.run_safe [OF assms])

theorem buddy_requests_safe_witness:
  "buddy_ok 16384 boot_buddy \<and>
   (\<exists>s. fold (serve buddy_alloc buddy_free) [Alloc 4096, Alloc 65536, Free (page_addr 20000)] (Inr boot_buddy)
        = Inr s \<and> separated (live_blocks 16384 s))"
proof -
  have "pfn_of (page_addr 20000) < NPAGES" by (subst pfn_page_addr) (simp_all add: NPAGES_def)
  then have "\<forall>q \<in> set [Alloc 4096, Alloc 65536, Free (page_addr 20000)]. request_ok q" by simp
  from buddy_requests_safe [OF boot_buddy_ok(1) this] boot_buddy_ok(1) show ?thesis by blast
qed

text \<open>
  Boot. When between 19 and \<open>2 ^ 18\<close> pages are reserved, \<open>initialize_page_frame_array\<close>
  returns the number of reserved pages and establishes the invariant with no block allocated,
  whatever the memory held before.
\<close>

theorem initialize_page_frame_array_correct:
  assumes "MAX_ORDER < (mem + 0xFFF) div 2 ^ 12" and "(mem + 0xFFF) div 2 ^ 12 \<le> NPAGES"
  shows "\<exists>s. initialize_page_frame_array mem st = Inr ((mem + 0xFFF) div 2 ^ 12, s) \<and>
    buddy_ok ((mem + 0xFFF) div 2 ^ 12) s \<and> live_blocks ((mem + 0xFFF) div 2 ^ 12) s = {}"
  using initialize_wf [OF assms, of st] unfolding buddy_ok_def by blast

theorem initialize_page_frame_array_correct_witness:
  "\<exists>s. initialize_page_frame_array 0x2000001 blank_buddy = Inr (8193, s) \<and> buddy_ok 8193 s"
  using initialize_page_frame_array_correct [of "0x2000001" blank_buddy]
  by (auto simp: MAX_ORDER_def NPAGES_def)

text \<open>
  Round trip. A block that was just allocated can be freed, after which the allocated blocks
  are those from before the allocation.
\<close>

theorem buddy_alloc_free_roundtrip:
  assumes "buddy_ok R st" and "unat n \<le> 2 ^ 43" and "buddy_alloc n st = Inr (a, s1)" and "a \<noteq> 0"
  shows "\<exists>s2. buddy_free a s1 = Inr s2 \<and> buddy_ok R s2 \<and> live_blocks R s2 = live_blocks R st"
  by (rule buddy_pages.alloc_free [OF assms])

theorem buddy_alloc_free_roundtrip_witness:
  "\<exists>a s1 s2. buddy_alloc 4096 boot_buddy = Inr (a, s1) \<and> a \<noteq> 0 \<and> buddy_free a s1 = Inr s2 \<and>
     live_blocks 16384 s2 = {}"
proof -
  obtain a s1 where a: "buddy_alloc 4096 boot_buddy = Inr (a, s1)" "a \<noteq> 0" using boot_alloc_page by blast
  then show ?thesis
    using buddy_alloc_free_roundtrip [OF boot_buddy_ok(1) _ a] boot_buddy_ok(2) by auto
qed

text \<open>
  Ownership. Every page of an allocated block leads to the head of the block: \<open>head_from_page\<close>
  returns its address, and what \<open>set_page_owner\<close> stores through one page of the block
  \<open>get_page_owner\<close> reads through any other. Setting an owner other than \<open>PAGE_FREE\<close> keeps the
  invariant and the allocated blocks.
\<close>

theorem page_owner_roundtrip:
  assumes "buddy_ok R st" and "(p, k) \<in> live_blocks R st" and "w \<noteq> PAGE_FREE"
    and "p \<le> pfn_of a" "pfn_of a < p + 2 ^ k" and "p \<le> pfn_of b" "pfn_of b < p + 2 ^ k"
  shows "\<exists>s. set_page_owner a w st = Inr s \<and> get_page_owner b s = Inr w \<and>
    head_from_page b s = Inr (page_addr p) \<and> buddy_ok R s \<and> live_blocks R s = live_blocks R st"
proof -
  let ?s = "set_frame p (\<lambda>f. f\<lparr>pf_state := w\<rparr>) st"
  have P: "R \<le> p" "pf_state (frame_metadata st p) \<noteq> PAGE_FREE"
    using assms(2) headsD(1) [of p R st] by (simp_all add: live_blocks_iff)
  have ok: "buddy_ok R ?s" and lv: "live_blocks R ?s = live_blocks R st"
    using set_frame_neutral [OF assms(1) P(1), of "\<lambda>f. f\<lparr>pf_state := w\<rparr>"] P(2) assms(3) by simp_all
  have "set_page_owner a w st = Inr ?s"
    by (simp add: set_page_owner_def owner_pfn_live [OF assms(1,2,4,5)])
  moreover have "(p, k) \<in> live_blocks R ?s" using lv assms(2) by simp
  note b = owner_pfn_live [OF ok this assms(6,7)]
  have "get_page_owner b ?s = Inr w" by (simp add: get_page_owner_def b)
  ultimately show ?thesis using ok lv b(2) by blast
qed

theorem page_owner_roundtrip_witness:
  "\<exists>a s1 s2. buddy_alloc 4096 boot_buddy = Inr (a, s1) \<and>
     set_page_owner a PAGE_SLAB s1 = Inr s2 \<and> get_page_owner a s2 = Inr PAGE_SLAB"
proof -
  obtain a s1 where a: "buddy_alloc 4096 boot_buddy = Inr (a, s1)" "a \<noteq> 0" using boot_alloc_page by blast
  then obtain k where ok: "buddy_ok 16384 s1" and k: "(pfn_of a, k) \<in> live_blocks 16384 s1"
    using buddy_pages.alloc_law [OF boot_buddy_ok(1), of 4096] by auto
  from page_owner_roundtrip [OF ok k, of PAGE_SLAB a a] a(1) show ?thesis by auto
qed

text \<open>
  C5. Reference counts. Dropping a reference of an allocated block with a positive count lowers
  the count and returns it; the block is given back to the allocator exactly when the count
  reaches zero. A reserved page is reported as \<open>-2\<close> and a page that heads no block as \<open>-1\<close>, with
  nothing changed.
\<close>

theorem decrement_ref_correct:
  assumes "buddy_ok R st" and "pfn_of a < NPAGES"
  shows "(pf_state (frame_metadata st (pfn_of a)) = PAGE_RESERVED \<longrightarrow> decrement_ref a st = Inr (- 2, st)) \<and>
    (pf_state (frame_metadata st (pfn_of a)) \<noteq> PAGE_RESERVED \<and> \<not> is_head (frame_metadata st (pfn_of a)) \<longrightarrow>
       decrement_ref a st = Inr (- 1, st)) \<and>
    (\<forall>k. (pfn_of a, k) \<in> live_blocks R st \<and> pf_state (frame_metadata st (pfn_of a)) \<noteq> PAGE_RESERVED \<and>
       0 < pf_refcount (frame_metadata st (pfn_of a)) \<longrightarrow>
       (\<exists>s. decrement_ref a st = Inr (ucast (pf_refcount (frame_metadata st (pfn_of a)) - 1), s) \<and>
          buddy_ok R s \<and>
          pf_refcount (frame_metadata s (pfn_of a)) = pf_refcount (frame_metadata st (pfn_of a)) - 1 \<and>
          live_blocks R s = (if pf_refcount (frame_metadata st (pfn_of a)) = 1
                             then {b \<in> live_blocks R st. fst b \<noteq> pfn_of a} else live_blocks R st)))"
proof (intro conjI allI impI; (elim conjE)?)
  let ?p = "pfn_of a" and ?s = "set_frame (pfn_of a) (\<lambda>f. f\<lparr>pf_refcount := pf_refcount f - 1\<rparr>) st"
  show "decrement_ref a st = Inr (- 2, st)" if "pf_state (frame_metadata st ?p) = PAGE_RESERVED"
    using that assms(2) by (simp add: decrement_ref_def)
  show "decrement_ref a st = Inr (- 1, st)"
    if "pf_state (frame_metadata st ?p) \<noteq> PAGE_RESERVED" "\<not> is_head (frame_metadata st ?p)"
    using that assms(2) by (simp add: decrement_ref_def is_head_def)
  fix k assume lv: "(?p, k) \<in> live_blocks R st" and ns: "pf_state (frame_metadata st ?p) \<noteq> PAGE_RESERVED"
  have P: "R \<le> ?p" "is_head (frame_metadata st ?p)"
    using lv headsD [of ?p R st] by (simp_all add: live_blocks_iff)
  have ok: "buddy_ok R ?s" and ls: "live_blocks R ?s = live_blocks R st"
    using set_frame_neutral [OF assms(1) P(1), of "\<lambda>f. f\<lparr>pf_refcount := pf_refcount f - 1\<rparr>"] by simp_all
  obtain s' where s': "buddy_free a ?s = Inr s'" "buddy_ok R s'"
    "live_blocks R s' = {b \<in> live_blocks R st. fst b \<noteq> ?p}"
    using buddy_free_cases [OF ok assms(2)] ls by auto
  have rc: "pf_refcount (frame_metadata s' ?p) = pf_refcount (frame_metadata st ?p) - 1"
    using buddy_free_refcount [OF s'(1), of ?p] by simp
  show "\<exists>s. decrement_ref a st = Inr (ucast (pf_refcount (frame_metadata st ?p) - 1), s) \<and> buddy_ok R s \<and>
      pf_refcount (frame_metadata s ?p) = pf_refcount (frame_metadata st ?p) - 1 \<and>
      live_blocks R s = (if pf_refcount (frame_metadata st ?p) = 1
                         then {b \<in> live_blocks R st. fst b \<noteq> ?p} else live_blocks R st)"
  proof (cases "pf_refcount (frame_metadata st ?p) = 1")
    case True
    then have "decrement_ref a st = Inr (ucast (pf_refcount (frame_metadata st ?p) - 1), s')"
      using ns P(2) assms(2) s'(1) rc by (simp add: decrement_ref_def Let_def is_head_def)
    with True s' rc show ?thesis by auto
  next
    case False
    then have "decrement_ref a st = Inr (ucast (pf_refcount (frame_metadata st ?p) - 1), ?s)"
      using ns P(2) assms(2) by (simp add: decrement_ref_def Let_def is_head_def)
    with False ok ls show ?thesis by auto
  qed
qed

theorem decrement_ref_correct_witness:
  "buddy_ok 16384 boot_buddy \<and> pfn_of (page_addr 5) < NPAGES \<and>
   decrement_ref (page_addr 5) boot_buddy = Inr (- 2, boot_buddy)"
proof -
  have p: "pfn_of (page_addr 5) = 5" by (rule pfn_page_addr) (simp add: NPAGES_def)
  have "pf_state (frame_metadata boot_buddy 5) = PAGE_RESERVED"
    using boot_buddy_ok(1) by (simp add: buddy_ok_def buddy_wf_def reserved_ok_def)
  with decrement_ref_correct [of 16384 boot_buddy "page_addr 5"] boot_buddy_ok(1) p
  show ?thesis by (simp add: NPAGES_def)
qed

end
