(* ===== verification/Page_Tables.thy ===== *)
theory Page_Tables
  imports Page_Allocator
begin

text \<open>
  The page tables of \<open>memory/mmap.c\<close>, \<open>memory/mmu.c\<close> and \<open>buddy_alloc_pt\<close> of
  \<open>memory/paging.c\<close>. Physical memory is a function from the address of an 8-byte word to its
  value; the kernel reaches it through its linear map at \<open>VIRT_BASE\<close>. A table is a page of 512
  descriptors, and the code builds and walks four levels of them. An access outside the first
  GiB of RAM, where all page-frame metadata ends, is a \<open>WildAccess\<close>. Barriers and cache and TLB
  maintenance have no effect on this state.
\<close>

section \<open>Descriptors\<close>

text \<open>A bit field of a 64-bit descriptor.\<close>

definition get_field :: "nat \<Rightarrow> nat \<Rightarrow> u64 \<Rightarrow> u64" where
  "get_field pos w e = take_bit w (drop_bit pos e)"

definition put_field :: "nat \<Rightarrow> nat \<Rightarrow> u64 \<Rightarrow> u64 \<Rightarrow> u64" where
  "put_field pos w v e = (e AND NOT (push_bit pos (mask w))) OR push_bit pos (take_bit w v)"

lemma bit_put_field:
  "bit (put_field pos w v e) n \<longleftrightarrow>
     n < 64 \<and> (if pos \<le> n \<and> n < pos + w then bit v (n - pos) else bit e n)"
  by (auto simp: put_field_def bit_simps)

lemma get_put_same:
  "pos + w \<le> 64 \<Longrightarrow> get_field pos w (put_field pos w v e) = take_bit w v"
  by (rule bit_word_eqI) (auto simp: get_field_def bit_simps bit_put_field)

lemma get_put_other:
  "p + w \<le> q \<or> q + u \<le> p \<Longrightarrow> get_field p w (put_field q u v e) = get_field p w e"
  by (rule bit_word_eqI) (auto simp: get_field_def bit_simps bit_put_field dest: bit_imp_le_length)

text \<open>The fields of \<open>pte\<close>: the page and block view \<open>md\<close> and the table view \<open>td\<close>.\<close>

definition pte_valid :: "u64 \<Rightarrow> bool" where "pte_valid e \<longleftrightarrow> bit e 0"

definition pte_type :: "u64 \<Rightarrow> bool" where "pte_type e \<longleftrightarrow> bit e 1"

definition pte_address :: "u64 \<Rightarrow> u64" where "pte_address e = get_field 12 36 e"

definition set_address :: "u64 \<Rightarrow> u64 \<Rightarrow> u64" where "set_address e a = put_field 12 36 a e"

abbreviation EL0_NA_EL1_RW :: u64 where "EL0_NA_EL1_RW \<equiv> 0"
abbreviation EL0_RW_EL1_RW :: u64 where "EL0_RW_EL1_RW \<equiv> 1"
abbreviation EL0_NA_EL1_RO :: u64 where "EL0_NA_EL1_RO \<equiv> 2"
abbreviation EL0_RO_EL1_RO :: u64 where "EL0_RO_EL1_RO \<equiv> 3"

abbreviation MAP_READ :: u64 where "MAP_READ \<equiv> 1"
abbreviation MAP_WRITE :: u64 where "MAP_WRITE \<equiv> 2"
abbreviation MAP_EXEC :: u64 where "MAP_EXEC \<equiv> 4"
abbreviation MAP_USER :: u64 where "MAP_USER \<equiv> 8"
abbreviation MAP_KERNEL :: u64 where "MAP_KERNEL \<equiv> 16"
abbreviation MAP_DEVICE :: u64 where "MAP_DEVICE \<equiv> 32"
abbreviation MAP_NOCACHE :: u64 where "MAP_NOCACHE \<equiv> 64"
abbreviation MAP_CACHE :: u64 where "MAP_CACHE \<equiv> 128"

definition has_flag :: "u64 \<Rightarrow> u64 \<Rightarrow> bool" where "has_flag flags f \<longleftrightarrow> flags AND f \<noteq> 0"

definition parse_table_flags :: "u64 \<Rightarrow> u64" where
  "parse_table_flags flags =
     (let td = put_field 12 36 0 (put_field 52 1 0 (put_field 53 1 0 (put_field 1 1 1 (put_field 0 1 1 0))))
      in if has_flag flags MAP_EXEC
         then (if has_flag flags MAP_KERNEL then put_field 52 1 0 td
               else if has_flag flags MAP_USER then put_field 53 1 0 td else td)
         else td)"

definition md_default :: "bool \<Rightarrow> u64" where
  "md_default is_page =
     (let m1 = put_field 0 1 1 0;
          m2 = put_field 10 1 1 m1;
          m3 = put_field 5 1 0 m2;
          m4 = put_field 8 2 3 m3;
          m5 = put_field 2 3 0 m4;
          m6 = put_field 1 1 (of_bool is_page) m5;
          m7 = put_field 6 2 EL0_NA_EL1_RO m6;
          m8 = put_field 53 1 1 m7
      in put_field 54 1 1 m8)"

definition md_memory_type :: "u64 \<Rightarrow> u64 \<Rightarrow> u64" where
  "md_memory_type flags md =
     (if has_flag flags MAP_DEVICE then put_field 8 2 0 (put_field 2 3 1 md)
      else if has_flag flags MAP_CACHE then put_field 2 3 2 md else md)"

definition md_exec :: "u64 \<Rightarrow> u64 \<Rightarrow> u64" where
  "md_exec flags md =
     (if has_flag flags MAP_EXEC
      then (if has_flag flags MAP_KERNEL then put_field 53 1 0 md
            else if has_flag flags MAP_USER then put_field 54 1 0 md else md)
      else md)"

definition md_access :: "u64 \<Rightarrow> u64 \<Rightarrow> u64" where
  "md_access flags md =
     (if has_flag flags MAP_USER
      then let m = put_field 11 1 1 md
           in if has_flag flags MAP_READ \<and> has_flag flags MAP_WRITE then put_field 6 2 EL0_RW_EL1_RW m
              else if has_flag flags MAP_READ then put_field 6 2 EL0_RO_EL1_RO m else m
      else if has_flag flags MAP_KERNEL
      then (if has_flag flags MAP_READ \<and> has_flag flags MAP_WRITE then put_field 6 2 EL0_NA_EL1_RW md
            else if has_flag flags MAP_READ then put_field 6 2 EL0_NA_EL1_RO md else md)
      else md)"

definition parse_block_flags :: "u64 \<Rightarrow> bool \<Rightarrow> u64" where
  "parse_block_flags flags is_page = md_access flags (md_exec flags (md_memory_type flags (md_default is_page)))"

section \<open>Memory\<close>

record vm =
  vm_buddy :: buddy
  vm_mem :: "u64 \<Rightarrow> u64"
  vm_l0 :: u64

definition in_ram :: "u64 \<Rightarrow> bool" where "in_ram pa \<longleftrightarrow> pa < 2 ^ 30"

definition rd64 :: "u64 \<Rightarrow> vm \<Rightarrow> u64 result" where
  "rd64 va st = (if in_ram (va_to_pa va) then Inr (vm_mem st (va_to_pa va)) else Inl WildAccess)"

definition wr64 :: "u64 \<Rightarrow> u64 \<Rightarrow> vm \<Rightarrow> vm result" where
  "wr64 va v st =
     (if in_ram (va_to_pa va) then Inr (st\<lparr>vm_mem := (vm_mem st)(va_to_pa va := v)\<rparr>) else Inl WildAccess)"

definition page_of :: "u64 \<Rightarrow> u64" where "page_of a = drop_bit 12 a"

text \<open>\<open>memset(page, 0, PAGE_SIZE)\<close> for a page-aligned address.\<close>

definition memset_page :: "u64 \<Rightarrow> vm \<Rightarrow> vm result" where
  "memset_page va st =
     (if in_ram (va_to_pa va)
      then Inr (st\<lparr>vm_mem := (\<lambda>a. if page_of a = page_of (va_to_pa va) then 0 else vm_mem st a)\<rparr>)
      else Inl WildAccess)"

section \<open>Mapping\<close>

definition pt_index :: "nat \<Rightarrow> u64 \<Rightarrow> u64" where
  "pt_index level va = drop_bit (39 - 9 * level) va AND 0x1FF"

text \<open>
  One level of the descent: allocate a table where the entry is not valid, then follow the entry.
  \<open>alloc\<close> is \<open>buddy_alloc_pt\<close>, whose definition needs \<open>map\<close>.
\<close>

definition next_table ::
  "(vm \<Rightarrow> (u64 \<times> vm) result) \<Rightarrow> u64 \<Rightarrow> u64 \<Rightarrow> u64 \<Rightarrow> vm \<Rightarrow> (u64 \<times> vm) result" where
  "next_table alloc ptte table idx st =
     bindR (rd64 (table + 8 * idx) st) (\<lambda>e.
     bindR (if pte_valid e then Inr st
            else bindR (alloc st) (\<lambda>(pg, st1).
                   wr64 (table + 8 * idx) (set_address ptte (drop_bit 12 (va_to_pa pg))) st1)) (\<lambda>st2.
     bindR (rd64 (table + 8 * idx) st2) (\<lambda>e2.
       Inr (push_bit 12 (pte_address e2) + VIRT_BASE, st2))))"

text \<open>The last level: the entry is written only where none is valid.\<close>

definition put_leaf :: "u64 \<Rightarrow> u64 \<Rightarrow> u64 \<Rightarrow> u64 \<Rightarrow> vm \<Rightarrow> vm result" where
  "put_leaf ptme table idx pa st =
     bindR (rd64 (table + 8 * idx) st) (\<lambda>e.
       if pte_valid e then Inr st
       else wr64 (table + 8 * idx) (set_address ptme (drop_bit 12 pa)) st)"

definition map_page ::
  "(vm \<Rightarrow> (u64 \<times> vm) result) \<Rightarrow> u64 \<Rightarrow> u64 \<Rightarrow> u64 \<Rightarrow> u64 \<Rightarrow> vm \<Rightarrow> vm result" where
  "map_page alloc va pa flags pt_base st =
     (let ptte = parse_table_flags flags; ptme = parse_block_flags flags True
      in bindR (next_table alloc ptte pt_base (pt_index 0 va) st) (\<lambda>(l1_table, st1).
         bindR (next_table alloc ptte l1_table (pt_index 1 va) st1) (\<lambda>(l2_table, st2).
         bindR (next_table alloc ptte l2_table (pt_index 2 va) st2) (\<lambda>(l3_table, st3).
           put_leaf ptme l3_table (pt_index 3 va) pa st3))))"

fun map_pages ::
  "(vm \<Rightarrow> (u64 \<times> vm) result) \<Rightarrow> u64 \<Rightarrow> u64 \<Rightarrow> nat \<Rightarrow> u64 \<Rightarrow> u64 \<Rightarrow> vm \<Rightarrow> vm result" where
  "map_pages alloc va pa 0 flags pt_base st = Inr st"
| "map_pages alloc va pa (Suc n) flags pt_base st =
     bindR (map_page alloc va pa flags pt_base st)
       (map_pages alloc (va + 0x1000) (pa + 0x1000) n flags pt_base)"

definition map_block ::
  "(vm \<Rightarrow> (u64 \<times> vm) result) \<Rightarrow> u64 \<Rightarrow> u64 \<Rightarrow> u64 \<Rightarrow> u64 \<Rightarrow> vm \<Rightarrow> vm result" where
  "map_block alloc va pa flags pt_base st =
     (let ptte = parse_table_flags flags; ptme = parse_block_flags flags False
      in bindR (next_table alloc ptte pt_base (pt_index 0 va) st) (\<lambda>(l1_table, st1).
         bindR (next_table alloc ptte l1_table (pt_index 1 va) st1) (\<lambda>(l2_table, st2).
           put_leaf ptme l2_table (pt_index 2 va) pa st2)))"

fun map_blocks ::
  "(vm \<Rightarrow> (u64 \<times> vm) result) \<Rightarrow> u64 \<Rightarrow> u64 \<Rightarrow> nat \<Rightarrow> u64 \<Rightarrow> u64 \<Rightarrow> vm \<Rightarrow> vm result" where
  "map_blocks alloc va pa 0 flags pt_base st = Inr st"
| "map_blocks alloc va pa (Suc n) flags pt_base st =
     bindR (map_block alloc va pa flags pt_base st)
       (map_blocks alloc (va + 0x200000) (pa + 0x200000) n flags pt_base)"

text \<open>The dispatcher. A shift of an \<open>int\<close> by 31 or more places is undefined.\<close>

definition map_with ::
  "(vm \<Rightarrow> (u64 \<times> vm) result) \<Rightarrow> u64 \<Rightarrow> u64 \<Rightarrow> nat \<Rightarrow> u64 \<Rightarrow> u64 \<Rightarrow> vm \<Rightarrow> vm result" where
  "map_with alloc virt_block phys_block block_order flags pt_base st =
     (if 9 \<le> block_order \<and> pt_index 3 virt_block = 0
      then (if 40 \<le> block_order then Inl WildAccess
            else map_blocks alloc virt_block phys_block (2 ^ (block_order - 9)) flags pt_base st)
      else (if 31 \<le> block_order then Inl WildAccess
            else map_pages alloc virt_block phys_block (2 ^ block_order) flags pt_base st))"

text \<open>
  \<open>buddy_alloc_pt\<close> maps the page it returns, which may need tables of its own. The first
  argument bounds the depth of this recursion.
\<close>

primrec buddy_alloc_pt :: "nat \<Rightarrow> vm \<Rightarrow> (u64 \<times> vm) result" where
  "buddy_alloc_pt 0 st = Inl OutOfFuel"
| "buddy_alloc_pt (Suc n) st =
     bindR (buddy_alloc 0x1000 (vm_buddy st)) (\<lambda>(new_page, b).
       let st1 = st\<lparr>vm_buddy := b\<rparr>
       in if new_page = 0 then Inr (0, st1)
          else bindR (map_with (buddy_alloc_pt n) new_page (va_to_pa new_page) 0
                        (MAP_KERNEL OR MAP_READ OR MAP_WRITE) (vm_l0 st1) st1) (\<lambda>st2.
               bindR (memset_page new_page st2) (\<lambda>st3. Inr (new_page, st3))))"

text \<open>The depth never exceeds the number of pages, so this is the function of the source.\<close>

definition pt_fuel :: nat where "pt_fuel = Suc NPAGES"

definition vm_map :: "u64 \<Rightarrow> u64 \<Rightarrow> nat \<Rightarrow> u64 \<Rightarrow> u64 \<Rightarrow> vm \<Rightarrow> vm result" where
  "vm_map = map_with (buddy_alloc_pt pt_fuel)"

text \<open>
  \<open>update_mapping\<close>: the result is \<open>Some False\<close> where the source returns \<open>FALSE\<close>; after the loop the
  source has no return statement, which is \<open>None\<close>.
\<close>

definition update_page :: "u64 \<Rightarrow> u64 \<Rightarrow> u64 \<Rightarrow> vm \<Rightarrow> (bool \<times> vm) result" where
  "update_page va flags pt_base st =
     bindR (rd64 (pt_base + 8 * pt_index 0 va) st) (\<lambda>e0.
       if \<not> pte_valid e0 then Inr (False, st) else
     bindR (rd64 (pa_to_va (push_bit 12 (pte_address e0)) + 8 * pt_index 1 va) st) (\<lambda>e1.
       if \<not> pte_valid e1 then Inr (False, st) else
     bindR (rd64 (pa_to_va (push_bit 12 (pte_address e1)) + 8 * pt_index 2 va) st) (\<lambda>e2.
       if \<not> pte_valid e2 then Inr (False, st) else
     let slot = pa_to_va (push_bit 12 (pte_address e2)) + 8 * pt_index 3 va in
     bindR (rd64 slot st) (\<lambda>entry.
       if \<not> pte_valid entry then Inr (False, st)
       else bindR (wr64 slot (set_address (parse_block_flags flags True) (pte_address entry)) st)
              (\<lambda>st1. Inr (True, st1))))))"

fun update_pages :: "u64 \<Rightarrow> nat \<Rightarrow> u64 \<Rightarrow> u64 \<Rightarrow> vm \<Rightarrow> (bool option \<times> vm) result" where
  "update_pages va 0 flags pt_base st = Inr (None, st)"
| "update_pages va (Suc n) flags pt_base st =
     bindR (update_page va flags pt_base st) (\<lambda>(ok, st1).
       if ok then update_pages (va + 0x1000) n flags pt_base st1 else Inr (Some False, st1))"

definition update_mapping :: "u64 \<Rightarrow> u64 \<Rightarrow> u64 \<Rightarrow> u64 \<Rightarrow> vm \<Rightarrow> (bool option \<times> vm) result" where
  "update_mapping virt_start virt_end flags pt_base st =
     (if virt_start AND 0xFFF \<noteq> 0 \<or> virt_end AND 0xFFF \<noteq> 0 then Inr (Some False, st)
      else update_pages virt_start (unat ((virt_end - virt_start) div 0x1000)) flags pt_base st)"

section \<open>Translation\<close>

text \<open>
  \<open>translate_va\<close> follows physical table addresses, so it reads memory without the linear map.
  It returns \<open>-1\<close> where the walk meets an entry that is not valid. Shifts are done at 64 bits; the
  addresses of a machine with a 36-bit physical address space are the same at the width of the
  bit field.
\<close>

definition rdp :: "u64 \<Rightarrow> vm \<Rightarrow> u64 result" where
  "rdp pa st = (if in_ram pa then Inr (vm_mem st pa) else Inl WildAccess)"

definition translate_va :: "u64 \<Rightarrow> u64 \<Rightarrow> vm \<Rightarrow> u64 result" where
  "translate_va va ttbr1_base st =
     (let l0 = ttbr1_base AND NOT 0xFFF; page_off = va AND 0xFFF
      in bindR (rdp (l0 + 8 * pt_index 0 va) st) (\<lambda>d0.
         if \<not> pte_valid d0 then Inr (- 1) else
         bindR (rdp (push_bit 12 (pte_address d0) + 8 * pt_index 1 va) st) (\<lambda>d1.
         if \<not> pte_valid d1 then Inr (- 1)
         else if \<not> pte_type d1 then Inr (push_bit 30 (pte_address d1) + (va AND 0x3FFFFFFF)) else
         bindR (rdp (push_bit 12 (pte_address d1) + 8 * pt_index 2 va) st) (\<lambda>d2.
         if \<not> pte_valid d2 then Inr (- 1)
         else if \<not> pte_type d2 then Inr (push_bit 12 (pte_address d2) + (va AND 0x1FFFFF)) else
         bindR (rdp (push_bit 12 (pte_address d2) + 8 * pt_index 3 va) st) (\<lambda>d3.
         if \<not> pte_valid d3 then Inr (- 1)
         else Inr ((push_bit 12 (pte_address d3) OR page_off) AND 0xFFFFFFFFF))))))"

end
