(* ===== verification/Page_Tables_Correct.thy ===== *)
theory Page_Tables_Correct
  imports Page_Tables
begin

text \<open>
  Correctness of the page-table code. A set of root tables forms a forest when no table is shared
  and no intermediate entry is a block; the address space of a root is then a partial function
  from index paths to leaf descriptors. Mapping a page updates this function at one path of one
  root and at no other path of any root, whatever intermediate tables it has to allocate.
\<close>

section \<open>Descriptor fields\<close>

lemma pte_fields_set_address [simp]:
  "pte_valid (set_address e a) = pte_valid e" "pte_type (set_address e a) = pte_type e"
  "pte_address (set_address e a) = take_bit 36 a"
  by (simp_all add: pte_valid_def pte_type_def pte_address_def set_address_def bit_put_field get_put_same)

lemma parse_table_fields [simp]:
  "pte_valid (parse_table_flags flags)" "pte_type (parse_table_flags flags)"
  by (simp_all add: parse_table_flags_def Let_def pte_valid_def pte_type_def bit_put_field)

lemma parse_block_fields [simp]:
  "pte_valid (parse_block_flags flags is_page)" "pte_type (parse_block_flags flags is_page) = is_page"
  by (simp_all add: parse_block_flags_def md_access_def md_exec_def md_memory_type_def md_default_def
      Let_def pte_valid_def pte_type_def bit_put_field)

section \<open>Slots\<close>

definition slot :: "u64 \<Rightarrow> u64 \<Rightarrow> u64" where "slot t i = push_bit 12 t + 8 * i"

lemma unat_slot:
  assumes "t < 2 ^ 18" and "i < 512"
  shows "unat (slot t i) = unat t * 4096 + unat i * 8"
proof -
  have t: "unat t < 2 ^ 18" using assms(1) by (simp add: word_less_nat_alt)
  have i: "unat i < 512" using assms(2) by (simp add: word_less_nat_alt)
  have "unat (push_bit 12 t) = unat t * 4096"
    using t by (simp add: push_bit_eq_mult unat_word_ariths mult.commute)
  moreover have "unat (8 * i) = unat i * 8" using i by (simp add: unat_word_ariths mult.commute)
  ultimately show ?thesis using t i by (simp add: slot_def unat_word_ariths)
qed

lemma page_of_slot:
  assumes "t < 2 ^ 18" and "i < 512"
  shows "page_of (slot t i) = t"
proof -
  have "unat i < 512" using assms(2) by (simp add: word_less_nat_alt)
  then have "unat (page_of (slot t i)) = unat t"
    unfolding page_of_def unat_drop_bit_eq unat_slot [OF assms] by (simp add: drop_bit_eq_div)
  then show ?thesis by (simp add: word_unat_eq_iff)
qed

lemma slot_inj:
  assumes "t < 2 ^ 18" "i < 512" "u < 2 ^ 18" "j < 512" and "slot t i = slot u j"
  shows "t = u \<and> i = j"
proof -
  have tu: "t = u" using page_of_slot [OF assms(1,2)] page_of_slot [OF assms(3,4)] assms(5) by simp
  have "unat i * 8 = unat j * 8"
    using unat_slot [OF assms(1,2)] unat_slot [OF assms(3,4)] assms(5) tu by simp
  with tu show ?thesis by (simp add: word_unat_eq_iff)
qed

lemma slot_in_ram:
  assumes "t < 2 ^ 18" and "i < 512"
  shows "in_ram (slot t i)"
proof -
  have "unat t < 2 ^ 18" "unat i < 512" using assms by (simp_all add: word_less_nat_alt)
  then show ?thesis using unat_slot [OF assms] by (simp add: in_ram_def word_less_nat_alt)
qed

lemma va_to_pa_slot [simp]: "va_to_pa (push_bit 12 t + VIRT_BASE + 8 * i) = slot t i"
  by (simp add: va_to_pa_def slot_def)

lemma pt_index_less [simp]: "pt_index l va < 512"
proof -
  have "pt_index l va \<le> 0x1FF" unfolding pt_index_def by (rule word_and_le1)
  then show ?thesis by (rule le_less_trans) simp
qed

section \<open>Trees of tables\<close>

fun node :: "(u64 \<Rightarrow> u64) \<Rightarrow> u64 \<Rightarrow> u64 list \<Rightarrow> u64 option" where
  "node m r [] = Some r"
| "node m r (i # p) =
     (if pte_valid (m (slot r i)) \<and> pte_type (m (slot r i)) then node m (pte_address (m (slot r i))) p else None)"

definition indices :: "u64 list \<Rightarrow> bool" where "indices p \<longleftrightarrow> (\<forall>i\<in>set p. i < 512)"

lemma node_append:
  "node m r (p @ [i]) =
     (case node m r p of None \<Rightarrow> None
      | Some t \<Rightarrow> if pte_valid (m (slot t i)) \<and> pte_type (m (slot t i)) then Some (pte_address (m (slot t i))) else None)"
  by (induction p arbitrary: r) auto

lemma node_prefix_None: "node m r p = None \<Longrightarrow> node m r (p @ q) = None"
  by (induction p arbitrary: r) auto

definition forest :: "(u64 \<Rightarrow> u64) \<Rightarrow> u64 set \<Rightarrow> bool" where
  "forest m roots \<longleftrightarrow>
     (\<forall>r\<in>roots. \<forall>p t. indices p \<and> length p \<le> 3 \<and> node m r p = Some t \<longrightarrow> t < 2 ^ 18) \<and>
     (\<forall>r\<in>roots. \<forall>p t i. indices p \<and> length p < 3 \<and> node m r p = Some t \<and> i < 512 \<and>
        pte_valid (m (slot t i)) \<longrightarrow> pte_type (m (slot t i))) \<and>
     (\<forall>r\<in>roots. \<forall>s\<in>roots. \<forall>p q t. indices p \<and> length p \<le> 3 \<and> indices q \<and> length q \<le> 3 \<and>
        node m r p = Some t \<and> node m s q = Some t \<longrightarrow> r = s \<and> p = q)"

lemma forest_range:
  "forest m roots \<Longrightarrow> r \<in> roots \<Longrightarrow> indices p \<Longrightarrow> length p \<le> 3 \<Longrightarrow> node m r p = Some t \<Longrightarrow> t < 2 ^ 18"
  unfolding forest_def by blast

lemma forest_no_block:
  "forest m roots \<Longrightarrow> r \<in> roots \<Longrightarrow> indices p \<Longrightarrow> length p < 3 \<Longrightarrow> node m r p = Some t \<Longrightarrow> i < 512 \<Longrightarrow>
   pte_valid (m (slot t i)) \<Longrightarrow> pte_type (m (slot t i))"
  unfolding forest_def by blast

lemma forest_unique:
  "forest m roots \<Longrightarrow> r \<in> roots \<Longrightarrow> s \<in> roots \<Longrightarrow> indices p \<Longrightarrow> length p \<le> 3 \<Longrightarrow> indices q \<Longrightarrow> length q \<le> 3 \<Longrightarrow>
   node m r p = Some t \<Longrightarrow> node m s q = Some t \<Longrightarrow> r = s \<and> p = q"
  unfolding forest_def by blast

text \<open>The leaf descriptor of a path of four indices, if there is a valid one.\<close>

definition leaf :: "(u64 \<Rightarrow> u64) \<Rightarrow> u64 \<Rightarrow> u64 list \<Rightarrow> u64 \<Rightarrow> u64 option" where
  "leaf m r p i = (case node m r p of None \<Rightarrow> None
     | Some t \<Rightarrow> if pte_valid (m (slot t i)) then Some (m (slot t i)) else None)"

definition zero_page :: "u64 \<Rightarrow> (u64 \<Rightarrow> u64) \<Rightarrow> (u64 \<Rightarrow> u64)" where
  "zero_page f m = (\<lambda>a. if page_of a = f then 0 else m a)"

lemma zero_page_slot:
  "t < 2 ^ 18 \<Longrightarrow> i < 512 \<Longrightarrow> zero_page f m (slot t i) = (if t = f then 0 else m (slot t i))"
  by (simp add: zero_page_def page_of_slot)

definition unused_table :: "(u64 \<Rightarrow> u64) \<Rightarrow> u64 set \<Rightarrow> u64 \<Rightarrow> bool" where
  "unused_table m roots f \<longleftrightarrow> (\<forall>r\<in>roots. \<forall>p. indices p \<and> length p \<le> 3 \<longrightarrow> node m r p \<noteq> Some f)"

lemma indices_append [simp]: "indices (p @ q) \<longleftrightarrow> indices p \<and> indices q"
  by (auto simp: indices_def)

lemma indices_simps [simp]: "indices []" "indices (i # p) \<longleftrightarrow> i < 512 \<and> indices p"
  by (auto simp: indices_def)

section \<open>Linking a fresh table\<close>

text \<open>
  The situation in which \<open>next_table\<close> writes: entry \<open>i\<close> of the table \<open>t\<close> at path \<open>p\<close> is not valid
  and \<open>f\<close> is a page outside all tables.
\<close>

definition can_link :: "(u64 \<Rightarrow> u64) \<Rightarrow> u64 set \<Rightarrow> u64 \<Rightarrow> u64 list \<Rightarrow> u64 \<Rightarrow> u64 \<Rightarrow> u64 \<Rightarrow> bool" where
  "can_link m roots r p t i f \<longleftrightarrow> forest m roots \<and> r \<in> roots \<and> indices p \<and> length p < 3 \<and>
     node m r p = Some t \<and> i < 512 \<and> \<not> pte_valid (m (slot t i)) \<and> unused_table m roots f \<and> f < 2 ^ 18"

definition link_table :: "u64 \<Rightarrow> u64 \<Rightarrow> u64 \<Rightarrow> (u64 \<Rightarrow> u64) \<Rightarrow> (u64 \<Rightarrow> u64)" where
  "link_table t i e m = (zero_page (pte_address e) m)(slot t i := e)"

lemma can_linkD:
  assumes "can_link m roots r p t i f"
  shows "forest m roots" "r \<in> roots" "indices p" "length p < 3" "node m r p = Some t" "i < 512"
    "\<not> pte_valid (m (slot t i))" "f < 2 ^ 18" "t < 2 ^ 18" "f \<noteq> t"
    "\<And>s q. s \<in> roots \<Longrightarrow> indices q \<Longrightarrow> length q \<le> 3 \<Longrightarrow> node m s q \<noteq> Some f"
  using assms forest_range [of m roots r p t] by (auto simp: can_link_def unused_table_def)

lemma link_read:
  assumes "can_link m roots r p t i f" and "pte_address e = f" and "u < 2 ^ 18" and "j < 512"
  shows "link_table t i e m (slot u j) = (if u = t \<and> j = i then e else if u = f then 0 else m (slot u j))"
  using slot_inj [OF assms(3,4) can_linkD(9,6) [OF assms(1)]] zero_page_slot [OF assms(3,4)] assms(2)
  by (auto simp: link_table_def)

lemma link_node:
  assumes c: "can_link m roots r p t i f"
    and e: "pte_valid e" "pte_type e" "pte_address e = f"
    and s: "s \<in> roots" and q: "indices q" "length q \<le> 3"
  shows "node (link_table t i e m) s q =
    (if s = r \<and> q = p @ [i] then Some f
     else if s = r \<and> (\<exists>j z. q = p @ i # j # z) then None else node m s q)"
  using q
proof (induction q rule: rev_induct)
  case Nil
  then show ?case by simp
next
  case (snoc j q)
  note cl = can_linkD [OF c]
  have j: "j < 512" and q: "indices q" "length q \<le> 3" "length q < 3" using snoc.prems by simp_all
  note IH = snoc.IH [OF q(1,2)]
  consider (link) "s = r" "q = p @ [i]" | (below) k z where "s = r" "q = p @ i # k # z"
    | (other) "\<not> (s = r \<and> q = p @ [i])" "\<not> (s = r \<and> (\<exists>j z. q = p @ i # j # z))" by blast
  then show ?case
  proof cases
    case link
    have "link_table t i e m (slot f j) = 0"
      using link_read [OF c e(3) cl(8) j] cl(10) by simp
    moreover have "node (link_table t i e m) s q = Some f" using IH link by simp
    ultimately have "node (link_table t i e m) s (q @ [j]) = None"
      by (simp add: node_append [of _ s q j] pte_valid_def)
    then show ?thesis using link by simp
  next
    case (below k z)
    then have "node (link_table t i e m) s q = None" using IH by simp
    then have "node (link_table t i e m) s (q @ [j]) = None" by (rule node_prefix_None)
    then show ?thesis using below by simp
  next
    case other
    then have same: "node (link_table t i e m) s q = node m s q"
      unfolding IH if_not_P [OF other(1)] if_not_P [OF other(2)] by blast
    have ext: "\<not> (s = r \<and> (\<exists>k z. q @ [j] = p @ i # k # z))"
    proof
      assume "s = r \<and> (\<exists>k z. q @ [j] = p @ i # k # z)"
      then obtain k z where kz: "s = r" "q @ [j] = p @ i # k # z" by blast
      show False
      proof (cases z rule: rev_cases)
        case Nil
        with kz have "q = p @ [i]" by simp
        with other kz show False by simp
      next
        case (snoc z' l)
        with kz have "q = p @ i # k # z'" by simp
        with other kz show False by blast
      qed
    qed
    show ?thesis
    proof (cases "node m s q")
      case None
      then have "\<not> (s = r \<and> q @ [j] = p @ [i])" using cl(5) by auto
      then show ?thesis using None same ext by (simp add: node_append)
    next
      case (Some u)
      have u: "u < 2 ^ 18" by (rule forest_range [OF cl(1) s q(1,2) Some])
      have uf: "u \<noteq> f" using cl(11) [OF s q(1,2)] Some by simp
      have rd: "link_table t i e m (slot u j) = (if u = t \<and> j = i then e else m (slot u j))"
        using link_read [OF c e(3) u j] uf by simp
      show ?thesis
      proof (cases "u = t \<and> j = i")
        case True
        then have "s = r \<and> q = p"
          using forest_unique [OF cl(1) s cl(2) q(1,2) cl(3) _ Some] cl(4,5) by simp
        with True show ?thesis using same Some rd e by (simp add: node_append)
      next
        case False
        then have n1: "\<not> (s = r \<and> q @ [j] = p @ [i])" using Some cl(5) by auto
        have "link_table t i e m (slot u j) = m (slot u j)" unfolding rd if_not_P [OF False] ..
        then have "node (link_table t i e m) s (q @ [j]) = node m s (q @ [j])"
          using same Some by (simp add: node_append)
        then show ?thesis unfolding if_not_P [OF n1] if_not_P [OF ext] .
      qed
    qed
  qed
qed

text \<open>Linking keeps the forest and every leaf of every root.\<close>

lemma link_forest:
  assumes c: "can_link m roots r p t i f" and e: "pte_valid e" "pte_type e" "pte_address e = f"
  shows "forest (link_table t i e m) roots"
proof -
  note cl = can_linkD [OF c] and ln = link_node [OF c e]
  have old: "(s = r \<and> q = p @ [i] \<and> u = f) \<or> (node m s q = Some u \<and> u \<noteq> f)"
    if "s \<in> roots" "indices q" "length q \<le> 3" "node (link_table t i e m) s q = Some u" for s q u
    using that ln [OF that(1-3)] cl(11) [OF that(1-3)] by (auto split: if_splits)
  show ?thesis
    unfolding forest_def
  proof (intro conjI ballI allI impI; elim conjE)
    fix s q u assume "s \<in> roots" "indices q" "length q \<le> 3" "node (link_table t i e m) s q = Some u"
    then show "u < 2 ^ 18"
      using old [of s q u] forest_range [OF cl(1), of s q u] cl(8) by auto
  next
    fix s q u j assume a: "s \<in> roots" "indices q" "length q < 3" "node (link_table t i e m) s q = Some u"
      "j < 512" "pte_valid (link_table t i e m (slot u j))"
    have "u < 2 ^ 18" using a old [of s q u] forest_range [OF cl(1), of s q u] cl(8) by auto
    note rd = link_read [OF c e(3) this a(5)]
    show "pte_type (link_table t i e m (slot u j))"
      using a rd e old [of s q u] forest_no_block [OF cl(1), of s q u j]
      by (auto simp: pte_valid_def split: if_splits)
  next
    fix s s' q q' u
    assume a: "s \<in> roots" "s' \<in> roots" "indices q" "length q \<le> 3" "indices q'" "length q' \<le> 3"
      "node (link_table t i e m) s q = Some u" "node (link_table t i e m) s' q' = Some u"
    from old [OF a(1,3,4,7)] old [OF a(2,5,6,8)] forest_unique [OF cl(1) a(1,2) a(3-6), of u]
    show "s = s'" "q = q'" by auto
  qed
qed

lemma link_leaf:
  assumes c: "can_link m roots r p t i f" and e: "pte_valid e" "pte_type e" "pte_address e = f"
    and s: "s \<in> roots" "indices q" "length q = 3" and j: "j < 512"
  shows "leaf (link_table t i e m) s q j = leaf m s q j"
proof -
  note cl = can_linkD [OF c]
  have ln: "node (link_table t i e m) s q =
    (if s = r \<and> q = p @ [i] then Some f
     else if s = r \<and> (\<exists>j z. q = p @ i # j # z) then None else node m s q)"
    using link_node [OF c e s(1,2)] s(3) by simp
  have gone: "node m r (p @ i # z) = None" for z
    using node_prefix_None [of m r "p @ [i]" z] cl(5,7) by (simp add: node_append)
  consider "s = r" "q = p @ [i]" | k z where "s = r" "q = p @ i # k # z" | "node (link_table t i e m) s q = node m s q"
    using ln by (auto split: if_splits)
  then show ?thesis
  proof cases
    case 1
    moreover have "\<not> pte_valid (link_table t i e m (slot f j))"
      using link_read [OF c e(3) cl(8) j] cl(10) by (simp add: pte_valid_def)
    moreover have "node (link_table t i e m) s q = Some f" using ln 1 by simp
    ultimately show ?thesis using gone [of "[]"] by (simp add: leaf_def)
  next
    case (2 k z)
    then show ?thesis using ln gone [of "k # z"] by (simp add: leaf_def)
  next
    case 3
    show ?thesis
    proof (cases "node m s q")
      case None
      then show ?thesis using 3 by (simp add: leaf_def)
    next
      case (Some u)
      have u: "u < 2 ^ 18" using forest_range [OF cl(1) s(1,2) _ Some] s(3) by simp
      have "u \<noteq> f" using cl(11) [OF s(1,2)] Some s(3) by auto
      moreover have "u \<noteq> t" using forest_unique [OF cl(1) s(1) cl(2) s(2) _ cl(3) _ Some] cl(4,5) s(3) by auto
      ultimately have "link_table t i e m (slot u j) = m (slot u j)"
        using link_read [OF c e(3) u j] by simp
      then show ?thesis using 3 Some by (simp add: leaf_def)
    qed
  qed
qed

section \<open>Writing a leaf\<close>

lemma put_leaf_effect:
  assumes fo: "forest m roots" and r: "r \<in> roots" and p: "indices p" "length p = 3"
    and t: "node m r p = Some t" and i: "i < 512" and e: "pte_valid e"
  shows "forest (m(slot t i := e)) roots"
    "\<And>s q. s \<in> roots \<Longrightarrow> indices q \<Longrightarrow> length q \<le> 3 \<Longrightarrow> node (m(slot t i := e)) s q = node m s q"
    "\<And>s q j. s \<in> roots \<Longrightarrow> indices q \<Longrightarrow> length q = 3 \<Longrightarrow> j < 512 \<Longrightarrow>
       leaf (m(slot t i := e)) s q j = (if s = r \<and> q = p \<and> j = i then Some e else leaf m s q j)"
proof -
  let ?m = "m(slot t i := e)"
  have tr: "t < 2 ^ 18" using forest_range [OF fo r p(1) _ t] p(2) by simp
  have inner: "?m (slot u j) = m (slot u j)"
    if "s \<in> roots" "indices q" "length q < 3" "node m s q = Some u" "j < 512" for s q u j
  proof -
    have "u < 2 ^ 18" using forest_range [OF fo that(1,2) _ that(4)] that(3) by simp
    moreover have "u \<noteq> t" using forest_unique [OF fo that(1) r that(2) _ p(1) _ that(4)] t p(2) that(3) by auto
    ultimately show ?thesis using slot_inj [of u j t i] that(5) tr i by auto
  qed
  show nd: "node ?m s q = node m s q" if "s \<in> roots" "indices q" "length q \<le> 3" for s q
    using that
  proof (induction q rule: rev_induct)
    case (snoc j q)
    then show ?case using inner [of s q _ j] by (simp add: node_append split: option.split)
  qed simp
  show "forest ?m roots"
    unfolding forest_def
  proof (intro conjI ballI allI impI; elim conjE)
    fix s q u assume "s \<in> roots" "indices q" "length q \<le> 3" "node ?m s q = Some u"
    then show "u < 2 ^ 18" using forest_range [OF fo, of s q u] nd by simp
  next
    fix s q u j assume "s \<in> roots" "indices q" "length q < 3" "node ?m s q = Some u" "j < 512"
      "pte_valid (?m (slot u j))"
    then show "pte_type (?m (slot u j))"
      using forest_no_block [OF fo, of s q u j] inner [of s q u j] nd [of s q] by simp
  next
    fix s s' q q' u
    assume "s \<in> roots" "s' \<in> roots" "indices q" "length q \<le> 3" "indices q'" "length q' \<le> 3"
      "node ?m s q = Some u" "node ?m s' q' = Some u"
    then show "s = s'" "q = q'" using forest_unique [OF fo, of s s' q q' u] nd by simp_all
  qed
  show "leaf ?m s q j = (if s = r \<and> q = p \<and> j = i then Some e else leaf m s q j)"
    if a: "s \<in> roots" "indices q" "length q = 3" "j < 512" for s q j
  proof (cases "node m s q")
    case None
    then show ?thesis using nd [OF a(1,2)] a(3) t by (auto simp: leaf_def)
  next
    case (Some u)
    have u: "u < 2 ^ 18" using forest_range [OF fo a(1,2) _ Some] a(3) by simp
    have "u = t \<longleftrightarrow> s = r \<and> q = p"
      using forest_unique [OF fo a(1) r a(2) _ p(1) _ Some] t a(3) p(2) Some by auto
    moreover have "slot u j = slot t i \<longleftrightarrow> u = t \<and> j = i" using slot_inj [OF u a(4) tr i] by auto
    ultimately show ?thesis using nd [OF a(1,2)] a(3) Some e by (auto simp: leaf_def)
  qed
qed

section \<open>Address spaces\<close>

definition pt_path :: "u64 \<Rightarrow> u64 list" where
  "pt_path va = [pt_index 0 va, pt_index 1 va, pt_index 2 va]"

text \<open>The address space of a root table: the leaf descriptor that translates an address.\<close>

definition aspace :: "(u64 \<Rightarrow> u64) \<Rightarrow> u64 \<Rightarrow> u64 \<Rightarrow> u64 option" where
  "aspace m r va = leaf m r (pt_path va) (pt_index 3 va)"

definition same_page :: "u64 \<Rightarrow> u64 \<Rightarrow> bool" where
  "same_page a b \<longleftrightarrow> pt_path a = pt_path b \<and> pt_index 3 a = pt_index 3 b"

text \<open>What mapping a page, and a run of pages, does to all address spaces.\<close>

definition page_desc :: "u64 \<Rightarrow> u64 \<Rightarrow> u64" where
  "page_desc flags pa = set_address (parse_block_flags flags True) (drop_bit 12 pa)"

definition spec_map ::
  "u64 \<Rightarrow> u64 \<Rightarrow> u64 \<Rightarrow> u64 \<Rightarrow> (u64 \<Rightarrow> u64 \<Rightarrow> u64 option) \<Rightarrow> u64 \<Rightarrow> u64 \<Rightarrow> u64 option" where
  "spec_map r va pa flags A s a =
     (if s = r \<and> same_page a va then Some (case A s a of None \<Rightarrow> page_desc flags pa | Some e \<Rightarrow> e)
      else A s a)"

fun spec_map_pages ::
  "u64 \<Rightarrow> u64 \<Rightarrow> u64 \<Rightarrow> nat \<Rightarrow> u64 \<Rightarrow> (u64 \<Rightarrow> u64 \<Rightarrow> u64 option) \<Rightarrow> u64 \<Rightarrow> u64 \<Rightarrow> u64 option" where
  "spec_map_pages r va pa 0 flags A = A"
| "spec_map_pages r va pa (Suc n) flags A =
     spec_map_pages r (va + 0x1000) (pa + 0x1000) n flags (spec_map r va pa flags A)"

lemma indices_path [simp]: "indices (pt_path va)" "length (pt_path va) = 3"
  by (simp_all add: pt_path_def)

lemma aspace_same_page: "same_page a b \<Longrightarrow> aspace m r a = aspace m r b"
  by (simp add: aspace_def same_page_def)

abbreviation table_va :: "u64 \<Rightarrow> u64" where "table_va t \<equiv> push_bit 12 t + VIRT_BASE"

lemma rd64_slot:
  "t < 2 ^ 18 \<Longrightarrow> i < 512 \<Longrightarrow> rd64 (table_va t + 8 * i) st = Inr (vm_mem st (slot t i))"
  by (simp add: rd64_def slot_in_ram)

lemma wr64_slot:
  "t < 2 ^ 18 \<Longrightarrow> i < 512 \<Longrightarrow>
   wr64 (table_va t + 8 * i) v st = Inr (st\<lparr>vm_mem := (vm_mem st)(slot t i := v)\<rparr>)"
  by (simp add: wr64_def slot_in_ram)

lemma drop_push_12:
  assumes "f < 2 ^ 18"
  shows "drop_bit 12 (push_bit 12 f :: u64) = f" "take_bit 36 f = f"
proof -
  have f: "unat f < 2 ^ 18" using assms by (simp add: word_less_nat_alt)
  have "unat (push_bit 12 f) = unat f * 4096"
    using f by (simp add: push_bit_eq_mult unat_word_ariths mult.commute)
  then have "unat (drop_bit 12 (push_bit 12 f :: u64)) = unat f"
    unfolding unat_drop_bit_eq by (simp add: drop_bit_eq_div)
  then show "drop_bit 12 (push_bit 12 f :: u64) = f" by (simp only: word_unat_eq_iff)
  have "unat (take_bit 36 f) = unat f" unfolding unsigned_take_bit_eq using f by (simp add: take_bit_nat_eq_self)
  then show "take_bit 36 f = f" by (simp only: word_unat_eq_iff)
qed

text \<open>Following an entry that is already valid.\<close>

lemma next_table_valid:
  assumes "t < 2 ^ 18" and "i < 512" and "pte_valid (vm_mem st (slot t i))"
  shows "next_table alloc ptte (table_va t) i st = Inr (table_va (pte_address (vm_mem st (slot t i))), st)"
  using assms by (simp add: next_table_def rd64_slot)

lemma node_step:
  assumes fo: "forest m roots" and r: "r \<in> roots" and p: "indices p" "length p < 3"
    and t: "node m r p = Some t" and i: "i < 512"
  shows "t < 2 ^ 18"
    "node m r (p @ [i]) = (if pte_valid (m (slot t i)) then Some (pte_address (m (slot t i))) else None)"
  using forest_range [OF fo r p(1) _ t] forest_no_block [OF fo r p t i] p(2) t
  by (auto simp: node_append)

text \<open>A page that is already mapped: nothing is allocated and nothing changes.\<close>

lemma map_page_mapped:
  assumes fo: "forest (vm_mem st) roots" and r: "r \<in> roots" and mapped: "aspace (vm_mem st) r va \<noteq> None"
  shows "map_page alloc va pa flags (table_va r) st = Inr st"
proof -
  let ?m = "vm_mem st"
  let ?i0 = "pt_index 0 va" and ?i1 = "pt_index 1 va" and ?i2 = "pt_index 2 va" and ?i3 = "pt_index 3 va"
  obtain t3 where t3: "node ?m r [?i0, ?i1, ?i2] = Some t3" "pte_valid (?m (slot t3 ?i3))"
    using mapped by (auto simp: aspace_def leaf_def pt_path_def split: option.splits if_splits)
  then obtain t1 t2 where t1: "node ?m r [?i0] = Some t1" and t2: "node ?m r [?i0, ?i1] = Some t2"
    by (auto split: if_splits)
  have l0: "r < 2 ^ 18" "pte_valid (?m (slot r ?i0))" "t1 = pte_address (?m (slot r ?i0))"
    using node_step [OF fo r, of "[]" r ?i0] t1 by (auto split: if_splits)
  have l1: "t1 < 2 ^ 18" "pte_valid (?m (slot t1 ?i1))" "t2 = pte_address (?m (slot t1 ?i1))"
    using node_step [OF fo r _ _ t1, of ?i1] t2 by (auto split: if_splits)
  have l2: "t2 < 2 ^ 18" "pte_valid (?m (slot t2 ?i2))" "t3 = pte_address (?m (slot t2 ?i2))"
    using node_step [OF fo r _ _ t2, of ?i2] t3(1) by (auto split: if_splits)
  have l3: "t3 < 2 ^ 18" by (rule forest_range [OF fo r _ _ t3(1)]) simp_all
  show ?thesis
    using l0 l1 l2 l3 t3(2)
    by (simp add: map_page_def Let_def next_table_valid put_leaf_def rd64_slot)
qed

section \<open>Mapping refines the update of an address space\<close>

text \<open>
  What the mapping code needs of its source of tables: while the stock lasts it returns a zeroed
  page that no table uses, and its invariant survives the linking of that page and the writing of
  a leaf.
\<close>

locale table_source =
  fixes alloc :: "vm \<Rightarrow> (u64 \<times> vm) result" and inv :: "vm \<Rightarrow> bool"
    and stock :: "vm \<Rightarrow> nat" and roots :: "u64 set"
  assumes inv_forest: "inv st \<Longrightarrow> forest (vm_mem st) roots"
    and alloc_law: "inv st \<Longrightarrow> 0 < stock st \<Longrightarrow>
      \<exists>f st1. alloc st = Inr (table_va f, st1) \<and> f < 2 ^ 18 \<and> unused_table (vm_mem st) roots f \<and>
        vm_mem st1 = zero_page f (vm_mem st) \<and> stock st \<le> Suc (stock st1) \<and>
        (\<forall>r p t i e. can_link (vm_mem st) roots r p t i f \<and> pte_valid e \<and> pte_type e \<and> pte_address e = f \<longrightarrow>
           inv (st1\<lparr>vm_mem := link_table t i e (vm_mem st)\<rparr>))"
    and stock_law: "stock (st\<lparr>vm_mem := m\<rparr>) = stock st"
    and leaf_law: "inv st \<Longrightarrow> r \<in> roots \<Longrightarrow> indices p \<Longrightarrow> length p = 3 \<Longrightarrow> node (vm_mem st) r p = Some t \<Longrightarrow>
      i < 512 \<Longrightarrow> \<not> pte_valid (vm_mem st (slot t i)) \<Longrightarrow> pte_valid e \<Longrightarrow>
      inv (st\<lparr>vm_mem := (vm_mem st)(slot t i := e)\<rparr>)"
begin

definition same_leaves :: "vm \<Rightarrow> vm \<Rightarrow> bool" where
  "same_leaves st st' \<longleftrightarrow> (\<forall>s\<in>roots. \<forall>q j. indices q \<and> length q = 3 \<and> j < 512 \<longrightarrow>
     leaf (vm_mem st') s q j = leaf (vm_mem st) s q j)"

lemma same_leaves_trans: "same_leaves a b \<Longrightarrow> same_leaves b c \<Longrightarrow> same_leaves a c"
  by (simp add: same_leaves_def)

lemma next_table_step:
  assumes inv: "inv st" and sup: "0 < stock st" and r: "r \<in> roots" and p: "indices p" "length p < 3"
    and t: "node (vm_mem st) r p = Some t" and i: "i < 512"
  shows "\<exists>t' st'. next_table alloc (parse_table_flags flags) (table_va t) i st = Inr (table_va t', st') \<and>
    inv st' \<and> node (vm_mem st') r (p @ [i]) = Some t' \<and> same_leaves st st' \<and> stock st \<le> Suc (stock st')"
proof -
  note fo = inv_forest [OF inv] and ns = node_step [OF inv_forest [OF inv] r p t i]
  show ?thesis
  proof (cases "pte_valid (vm_mem st (slot t i))")
    case True
    then show ?thesis
      using next_table_valid [OF ns(1) i True] ns(2) inv by (auto simp: same_leaves_def)
  next
    case False
    obtain f st1 where f: "alloc st = Inr (table_va f, st1)" "f < 2 ^ 18" "unused_table (vm_mem st) roots f"
      "vm_mem st1 = zero_page f (vm_mem st)" "stock st \<le> Suc (stock st1)"
      and keep: "\<And>r p t i e. can_link (vm_mem st) roots r p t i f \<Longrightarrow> pte_valid e \<Longrightarrow> pte_type e \<Longrightarrow>
         pte_address e = f \<Longrightarrow> inv (st1\<lparr>vm_mem := link_table t i e (vm_mem st)\<rparr>)"
      using alloc_law [OF inv sup] by blast
    define e where "e = set_address (parse_table_flags flags) f"
    have e: "pte_valid e" "pte_type e" "pte_address e = f" using drop_push_12 [OF f(2)] by (simp_all add: e_def)
    have c: "can_link (vm_mem st) roots r p t i f"
      using fo r p t i False f(2,3) by (simp add: can_link_def)
    let ?st = "st1\<lparr>vm_mem := link_table t i e (vm_mem st)\<rparr>"
    have pa: "drop_bit 12 (va_to_pa (table_va f)) = f" using drop_push_12 [OF f(2)] by (simp add: va_to_pa_def)
    have wr: "st1\<lparr>vm_mem := (vm_mem st1)(slot t i := e)\<rparr> = ?st" by (simp add: link_table_def f(4) e(3))
    have "next_table alloc (parse_table_flags flags) (table_va t) i st = Inr (table_va f, ?st)"
      using False e wr unfolding next_table_def rd64_slot [OF ns(1) i] f(1)
      by (simp add: wr64_slot [OF ns(1) i] rd64_slot [OF ns(1) i] pa e_def [symmetric] link_table_def f(4) e(3))
    moreover have "node (vm_mem ?st) r (p @ [i]) = Some f"
      using link_node [OF c e r, of "p @ [i]"] p i by simp
    moreover have "same_leaves st ?st" using link_leaf [OF c e] by (simp add: same_leaves_def)
    moreover have "stock st \<le> Suc (stock ?st)" using f(5) stock_law by simp
    ultimately show ?thesis using keep [OF c e] by blast
  qed
qed

lemma map_page_refines:
  assumes inv: "inv st" and sup: "3 \<le> stock st" and r: "r \<in> roots"
  shows "\<exists>st'. map_page alloc va pa flags (table_va r) st = Inr st' \<and> inv st' \<and> stock st \<le> 3 + stock st' \<and>
    (\<forall>s\<in>roots. aspace (vm_mem st') s = spec_map r va pa flags (aspace (vm_mem st)) s)"
proof -
  let ?p = "parse_table_flags flags"
  have "0 < stock st" using sup by simp
  from next_table_step [OF inv this r _ _ _ pt_index_less, of "[]" r flags 0 va] obtain t1 s1 where
    s1: "next_table alloc ?p (table_va r) (pt_index 0 va) st = Inr (table_va t1, s1)" "inv s1"
      "node (vm_mem s1) r [pt_index 0 va] = Some t1" "same_leaves st s1" "stock st \<le> Suc (stock s1)"
    by auto
  have "0 < stock s1" using sup s1(5) by simp
  from next_table_step [OF s1(2) this r _ _ s1(3) pt_index_less, of flags 1 va] obtain t2 s2 where
    s2: "next_table alloc ?p (table_va t1) (pt_index 1 va) s1 = Inr (table_va t2, s2)" "inv s2"
      "node (vm_mem s2) r [pt_index 0 va, pt_index 1 va] = Some t2" "same_leaves s1 s2" "stock s1 \<le> Suc (stock s2)"
    by auto
  have "0 < stock s2" using sup s1(5) s2(5) by simp
  from next_table_step [OF s2(2) this r _ _ s2(3) pt_index_less, of flags 2 va] obtain t3 s3 where
    s3: "next_table alloc ?p (table_va t2) (pt_index 2 va) s2 = Inr (table_va t3, s3)" "inv s3"
      "node (vm_mem s3) r (pt_path va) = Some t3" "same_leaves s2 s3" "stock s2 \<le> Suc (stock s3)"
    by (auto simp: pt_path_def)
  have t3: "t3 < 2 ^ 18" using forest_range [OF inv_forest [OF s3(2)] r _ _ s3(3)] by simp
  have sl: "same_leaves st s3" using same_leaves_trans s1(4) s2(4) s3(4) by blast
  then have as3: "aspace (vm_mem s3) s = aspace (vm_mem st) s" if "s \<in> roots" for s
    using that by (auto simp: aspace_def same_leaves_def fun_eq_iff)
  have run: "map_page alloc va pa flags (table_va r) st =
      put_leaf (parse_block_flags flags True) (table_va t3) (pt_index 3 va) pa s3"
    by (simp add: map_page_def Let_def s1(1) s2(1) s3(1) del: One_nat_def)
  let ?e = "page_desc flags pa"
  show ?thesis
  proof (cases "pte_valid (vm_mem s3 (slot t3 (pt_index 3 va)))")
    case True
    then have "aspace (vm_mem s3) r va \<noteq> None" by (simp add: aspace_def leaf_def s3(3))
    then have "spec_map r va pa flags (aspace (vm_mem st)) s = aspace (vm_mem s3) s" if "s \<in> roots" for s
      using as3 [OF that] aspace_same_page [of _ va "vm_mem s3" r]
      by (auto simp: spec_map_def fun_eq_iff split: option.splits)
    moreover have "map_page alloc va pa flags (table_va r) st = Inr s3"
      unfolding run put_leaf_def rd64_slot [OF t3 pt_index_less] using True by simp
    ultimately show ?thesis using s3(2,5) s1(5) s2(5) by (intro exI [of _ s3]) auto
  next
    case False
    let ?s = "s3\<lparr>vm_mem := (vm_mem s3)(slot t3 (pt_index 3 va) := ?e)\<rparr>"
    have ev: "pte_valid ?e" by (simp add: page_desc_def)
    have "map_page alloc va pa flags (table_va r) st = Inr ?s"
      unfolding run put_leaf_def rd64_slot [OF t3 pt_index_less] using False
      by (simp add: wr64_slot [OF t3] page_desc_def)
    moreover have "inv ?s" by (rule leaf_law [OF s3(2) r _ _ s3(3) _ False ev]) simp_all
    moreover have none: "aspace (vm_mem st) r va = None"
      using False as3 [OF r, symmetric] by (simp add: aspace_def leaf_def s3(3))
    have "aspace (vm_mem ?s) s = spec_map r va pa flags (aspace (vm_mem st)) s" if "s \<in> roots" for s
    proof
      fix a
      have "aspace (vm_mem ?s) s a =
          (if s = r \<and> pt_path a = pt_path va \<and> pt_index 3 a = pt_index 3 va then Some ?e else aspace (vm_mem s3) s a)"
        unfolding aspace_def using put_leaf_effect(3) [OF inv_forest [OF s3(2)] r _ _ s3(3) _ ev that, of "pt_index 3 va"]
        by simp
      then show "aspace (vm_mem ?s) s a = spec_map r va pa flags (aspace (vm_mem st)) s a"
        using as3 [OF that] none aspace_same_page [of a va "vm_mem st" r] by (auto simp: spec_map_def same_page_def)
    qed
    moreover have "stock st \<le> 3 + stock ?s" using s1(5) s2(5) s3(5) stock_law by simp
    ultimately show ?thesis by blast
  qed
qed

lemma spec_map_cong:
  "(\<And>s. s \<in> roots \<Longrightarrow> A s = B s) \<Longrightarrow> s \<in> roots \<Longrightarrow> spec_map r va pa flags A s = spec_map r va pa flags B s"
  by (auto simp: spec_map_def fun_eq_iff)

lemma spec_map_pages_cong:
  "(\<And>s. s \<in> roots \<Longrightarrow> A s = B s) \<Longrightarrow> s \<in> roots \<Longrightarrow>
   spec_map_pages r va pa n flags A s = spec_map_pages r va pa n flags B s"
proof (induction n arbitrary: va pa A B)
  case (Suc n)
  show ?case
    unfolding spec_map_pages.simps by (rule Suc.IH [OF spec_map_cong]) (use Suc.prems in auto)
qed simp

lemma map_pages_refines:
  assumes "inv st" and "3 * n \<le> stock st" and r: "r \<in> roots"
  shows "\<exists>st'. map_pages alloc va pa n flags (table_va r) st = Inr st' \<and> inv st' \<and>
    (\<forall>s\<in>roots. aspace (vm_mem st') s = spec_map_pages r va pa n flags (aspace (vm_mem st)) s)"
  using assms(1,2)
proof (induction n arbitrary: va pa st)
  case 0
  then show ?case by simp
next
  case (Suc n)
  obtain s1 where s1: "map_page alloc va pa flags (table_va r) st = Inr s1" "inv s1" "stock st \<le> 3 + stock s1"
    "\<forall>s\<in>roots. aspace (vm_mem s1) s = spec_map r va pa flags (aspace (vm_mem st)) s"
    using map_page_refines [OF Suc.prems(1) _ r, of va pa flags] Suc.prems(2) by auto
  have "3 * n \<le> stock s1" using Suc.prems(2) s1(3) by simp
  from Suc.IH [OF s1(2) this, of "va + 0x1000" "pa + 0x1000"] obtain s2 where
    s2: "map_pages alloc (va + 0x1000) (pa + 0x1000) n flags (table_va r) s1 = Inr s2" "inv s2"
      "\<forall>s\<in>roots. aspace (vm_mem s2) s =
         spec_map_pages r (va + 0x1000) (pa + 0x1000) n flags (aspace (vm_mem s1)) s" by blast
  have "aspace (vm_mem s2) s = spec_map_pages r va pa (Suc n) flags (aspace (vm_mem st)) s" if "s \<in> roots" for s
  proof -
    have "aspace (vm_mem s2) s =
        spec_map_pages r (va + 0x1000) (pa + 0x1000) n flags (aspace (vm_mem s1)) s" using s2(3) that by blast
    also have "\<dots> = spec_map_pages r (va + 0x1000) (pa + 0x1000) n flags (spec_map r va pa flags (aspace (vm_mem st))) s"
      by (rule spec_map_pages_cong) (use s1(4) that in auto)
    finally show ?thesis by simp
  qed
  with s1(1) s2(1,2) show ?case by simp
qed

end

end
