(* ===== verification/Virtual_Memory.thy ===== *)
theory Virtual_Memory
  imports Page_Tables_Correct
begin

text \<open>
  The mapping code on top of the page allocator: \<open>buddy_alloc_pt\<close> terminates and is a source of
  tables for the refinement theorem, translation returns what mapping stored, and the permission
  bits are those the flags ask for. The last section shows what happens where the kernel itself
  is mapped with 2 MiB blocks, as the boot code does.
\<close>

section \<open>Free pages\<close>

text \<open>The managed pages that no allocated block covers.\<close>

definition owned :: "nat \<Rightarrow> buddy \<Rightarrow> nat \<Rightarrow> bool" where
  "owned R b n \<longleftrightarrow> n < R \<or> (\<exists>(p, k)\<in>live_blocks R b. p \<le> n \<and> n < p + 2 ^ k)"

definition free_pages :: "nat \<Rightarrow> buddy \<Rightarrow> nat set" where
  "free_pages R b = {n. n < NPAGES \<and> \<not> owned R b n}"

lemma finite_free_pages [simp]: "finite (free_pages R b)"
  by (rule finite_subset [of _ "{..<NPAGES}"]) (auto simp: free_pages_def)

lemma free_page_head:
  assumes ok: "buddy_ok R b" and n: "n \<in> free_pages R b"
  shows "\<exists>j. free_heads R j b \<noteq> {}"
proof -
  have nN: "n < NPAGES" "R \<le> n" using n by (auto simp: free_pages_def owned_def)
  have "tiles R NPAGES (frame_metadata b)" using ok by (simp add: buddy_ok_def buddy_wf_def)
  from tiles_coverD [OF this nN(2,1)] obtain h where
    h: "R \<le> h" "h \<le> n" "is_head (frame_metadata b h)" "n < h + 2 ^ pf_order (frame_metadata b h)" by metis
  have hh: "h \<in> heads R b" using h nN by (simp add: heads_def)
  have "(h, pf_order (frame_metadata b h)) \<notin> live_blocks R b"
    using n h(2,4) by (auto simp: free_pages_def owned_def)
  then have "h \<in> free_heads R (pf_order (frame_metadata b h)) b"
    using hh by (simp add: live_blocks_iff free_heads_iff)
  then show ?thesis by blast
qed

lemma order_for_page: "order_for 4096 k \<Longrightarrow> k = 0"
  by (cases k) (auto simp: order_for_def)

text \<open>No page of a freshly allocated block was owned before.\<close>

lemma got_block_unowned:
  assumes g: "got_block R k p b b'" and n: "p \<le> n" "n < p + 2 ^ k"
  shows "\<not> owned R b n"
proof
  assume "owned R b n"
  note d = got_blockD [OF g]
  have wf': "buddy_wf R b'" using d(2) by (simp add: buddy_ok_def)
  have pl: "(p, k) \<in> live_blocks R b'" using d(3) by simp
  have "R \<le> n" using live_blocks_bounds(1) [OF wf' pl] n(1) by simp
  with \<open>owned R b n\<close> obtain q l where q: "(q, l) \<in> live_blocks R b" "q \<le> n" "n < q + 2 ^ l"
    by (auto simp: owned_def)
  have "(q, l) \<noteq> (p, k)" using q(1) d(4) by auto
  with live_blocks_disjoint [OF wf' pl, of q l] q d(3) n show False by auto
qed

text \<open>Allocating one page takes exactly one page from the free pages.\<close>

lemma buddy_alloc_page:
  assumes ok: "buddy_ok R b"
  shows "if free_pages R b = {} then buddy_alloc 0x1000 b = Inr (0, b)
    else \<exists>p b'. buddy_alloc 0x1000 b = Inr (page_addr p, b') \<and> buddy_ok R b' \<and> p \<in> free_pages R b \<and>
      (\<forall>n. owned R b' n \<longleftrightarrow> owned R b n \<or> n = p)"
proof -
  have u: "unat (0x1000 :: u64) \<le> 2 ^ 43" by simp
  show ?thesis
  proof (cases rule: buddy_alloc_cases [OF ok u])
    case (1 k p b')
    have k0: "k = 0" by (rule order_for_page) (use 1(1) in simp)
    note g = got_blockD [OF 1(4)]
    have own: "owned R b' n \<longleftrightarrow> owned R b n \<or> n = p" for n by (auto simp: owned_def g(3) k0)
    have pf: "p \<in> free_pages R b" using got_block_unowned [OF 1(4), of p] g(1) by (simp add: free_pages_def)
    then have "free_pages R b \<noteq> {}" by blast
    moreover have "\<exists>p b'. buddy_alloc 0x1000 b = Inr (page_addr p, b') \<and> buddy_ok R b' \<and> p \<in> free_pages R b \<and>
      (\<forall>n. owned R b' n \<longleftrightarrow> owned R b n \<or> n = p)"
      using 1(3) g(2) own pf by blast
    ultimately show ?thesis by (simp only: if_False)
  next
    case (2 k)
    have k0: "k = 0" by (rule order_for_page) (use 2(1) in simp)
    have "free_pages R b = {}" using free_page_head [OF ok] 2(2) k0 by (auto simp: has_block_def)
    then show ?thesis using 2(3) by simp
  qed
qed

lemma card_free_pages:
  assumes "p \<in> free_pages R b" and "\<And>n. owned R b' n \<longleftrightarrow> owned R b n \<or> n = p"
  shows "Suc (card (free_pages R b')) = card (free_pages R b)"
proof -
  have "free_pages R b' = free_pages R b - {p}" using assms(2) by (auto simp: free_pages_def)
  then show ?thesis using card_Suc_Diff1 [OF finite_free_pages assms(1)] by simp
qed

section \<open>Termination\<close>

text \<open>An allocator of tables that ends within a number of free pages.\<close>

definition ends_below :: "nat \<Rightarrow> nat \<Rightarrow> (vm \<Rightarrow> ('a \<times> vm) result) \<Rightarrow> bool" where
  "ends_below R B alloc \<longleftrightarrow> (\<forall>st. buddy_ok R (vm_buddy st) \<and> card (free_pages R (vm_buddy st)) < B \<longrightarrow>
     alloc st \<noteq> Inl OutOfFuel \<and>
     (\<forall>x st'. alloc st = Inr (x, st') \<longrightarrow> buddy_ok R (vm_buddy st') \<and>
        card (free_pages R (vm_buddy st')) \<le> card (free_pages R (vm_buddy st))))"

lemma ends_belowD:
  assumes "ends_below R B alloc" and "buddy_ok R (vm_buddy st)" and "card (free_pages R (vm_buddy st)) < B"
  shows "alloc st \<noteq> Inl OutOfFuel"
    "alloc st = Inr (x, st') \<Longrightarrow> buddy_ok R (vm_buddy st') \<and>
       card (free_pages R (vm_buddy st')) \<le> card (free_pages R (vm_buddy st))"
  using assms unfolding ends_below_def by blast+

lemma rd64_wr64_fuel [simp]: "rd64 a st \<noteq> Inl OutOfFuel" "wr64 a v st \<noteq> Inl OutOfFuel"
  by (simp_all add: rd64_def wr64_def)

lemma wr64_buddy: "wr64 a v st = Inr st' \<Longrightarrow> vm_buddy st' = vm_buddy st"
  by (auto simp: wr64_def split: if_splits)

lemma ends_next_table:
  assumes "ends_below R B alloc" shows "ends_below R B (next_table alloc ptte table idx)"
  unfolding ends_below_def
proof (intro allI impI conjI; elim conjE)
  fix st :: vm assume ok: "buddy_ok R (vm_buddy st)" and c: "card (free_pages R (vm_buddy st)) < B"
  note al = ends_belowD [OF assms ok c]
  show "next_table alloc ptte table idx st \<noteq> Inl OutOfFuel"
    using al(1) by (auto simp: next_table_def bindR_eq_Inl split: if_splits prod.splits)
  fix x st' assume "next_table alloc ptte table idx st = Inr (x, st')"
  then show "buddy_ok R (vm_buddy st')" "card (free_pages R (vm_buddy st')) \<le> card (free_pages R (vm_buddy st))"
    using al(2) ok by (auto simp: next_table_def bindR_eq_Inr dest!: wr64_buddy split: if_splits)
qed

definition ends_step :: "nat \<Rightarrow> nat \<Rightarrow> (vm \<Rightarrow> vm result) \<Rightarrow> bool" where
  "ends_step R B f \<longleftrightarrow> (\<forall>st. buddy_ok R (vm_buddy st) \<and> card (free_pages R (vm_buddy st)) < B \<longrightarrow>
     f st \<noteq> Inl OutOfFuel \<and>
     (\<forall>st'. f st = Inr st' \<longrightarrow> buddy_ok R (vm_buddy st') \<and>
        card (free_pages R (vm_buddy st')) \<le> card (free_pages R (vm_buddy st))))"

lemma ends_stepD:
  assumes "ends_step R B f" and "buddy_ok R (vm_buddy st)" and "card (free_pages R (vm_buddy st)) < B"
  shows "f st \<noteq> Inl OutOfFuel"
    "f st = Inr st' \<Longrightarrow> buddy_ok R (vm_buddy st') \<and>
       card (free_pages R (vm_buddy st')) \<le> card (free_pages R (vm_buddy st))"
  using assms unfolding ends_step_def by blast+

lemma ends_bind:
  assumes f: "ends_below R B f" and g: "\<And>x. ends_step R B (g x)"
  shows "ends_step R B (\<lambda>st. bindR (f st) (\<lambda>(x, s). g x s))"
  unfolding ends_step_def
proof (intro allI impI; elim conjE)
  fix st :: vm assume ok: "buddy_ok R (vm_buddy st)" and c: "card (free_pages R (vm_buddy st)) < B"
  show "bindR (f st) (\<lambda>(x, s). g x s) \<noteq> Inl OutOfFuel \<and>
    (\<forall>st'. bindR (f st) (\<lambda>(x, s). g x s) = Inr st' \<longrightarrow> buddy_ok R (vm_buddy st') \<and>
       card (free_pages R (vm_buddy st')) \<le> card (free_pages R (vm_buddy st)))"
  proof (cases "f st")
    case (Inl e)
    then show ?thesis using ends_belowD(1) [OF f ok c] by simp
  next
    case (Inr y)
    obtain x s where y: "y = (x, s)" by (cases y)
    have s: "buddy_ok R (vm_buddy s)" "card (free_pages R (vm_buddy s)) \<le> card (free_pages R (vm_buddy st))"
      using ends_belowD(2) [OF f ok c] Inr y by auto
    then have "g x s \<noteq> Inl OutOfFuel \<and> (\<forall>st'. g x s = Inr st' \<longrightarrow> buddy_ok R (vm_buddy st') \<and>
        card (free_pages R (vm_buddy st')) \<le> card (free_pages R (vm_buddy s)))"
      using g [of x] c unfolding ends_step_def by auto
    then show ?thesis using Inr y s(2) by fastforce
  qed
qed

lemma ends_seq:
  assumes "ends_step R B f" and "ends_step R B g"
  shows "ends_step R B (\<lambda>st. bindR (f st) g)"
proof -
  have "ends_below R B (\<lambda>st. bindR (f st) (\<lambda>s. Inr ((), s)))"
    unfolding ends_below_def
  proof (intro allI impI; elim conjE)
    fix st :: vm assume "buddy_ok R (vm_buddy st)" "card (free_pages R (vm_buddy st)) < B"
    with assms(1) have "f st \<noteq> Inl OutOfFuel \<and> (\<forall>st'. f st = Inr st' \<longrightarrow> buddy_ok R (vm_buddy st') \<and>
        card (free_pages R (vm_buddy st')) \<le> card (free_pages R (vm_buddy st)))"
      unfolding ends_step_def by blast
    then show "bindR (f st) (\<lambda>s. Inr ((), s)) \<noteq> Inl OutOfFuel \<and>
      (\<forall>x st'. bindR (f st) (\<lambda>s. Inr ((), s)) = Inr (x, st') \<longrightarrow> buddy_ok R (vm_buddy st') \<and>
        card (free_pages R (vm_buddy st')) \<le> card (free_pages R (vm_buddy st)))"
      by (cases "f st") auto
  qed
  from ends_bind [OF this, of "\<lambda>_. g"] assms(2) show ?thesis
    by (simp add: bindR_assoc)
qed

lemma ends_put_leaf: "ends_step R B (put_leaf ptme table idx pa)"
  unfolding ends_step_def put_leaf_def
  by (auto simp: bindR_eq_Inr bindR_eq_Inl dest!: wr64_buddy split: if_splits)

lemma ends_map_page:
  assumes "ends_below R B alloc" shows "ends_step R B (map_page alloc va pa flags base)"
proof -
  note n = ends_next_table [OF assms]
  show ?thesis
    unfolding map_page_def [abs_def] Let_def
    by (intro ends_bind n ends_put_leaf)
qed

lemma ends_map_block:
  assumes "ends_below R B alloc" shows "ends_step R B (map_block alloc va pa flags base)"
proof -
  note n = ends_next_table [OF assms]
  show ?thesis
    unfolding map_block_def [abs_def] Let_def
    by (intro ends_bind n ends_put_leaf)
qed

lemma ends_step_skip: "ends_step R B Inr" "ends_step R B (\<lambda>_. Inl WildAccess)"
  by (simp_all add: ends_step_def)

lemma ends_map_pages:
  assumes "ends_below R B alloc" shows "ends_step R B (map_pages alloc va pa n flags base)"
proof (induction n arbitrary: va pa)
  case 0
  have "map_pages alloc va pa 0 flags base = Inr" by (simp add: fun_eq_iff)
  then show ?case using ends_step_skip by simp
next
  case (Suc n)
  have "map_pages alloc va pa (Suc n) flags base = (\<lambda>st. bindR (map_page alloc va pa flags base st)
      (map_pages alloc (va + 0x1000) (pa + 0x1000) n flags base))" by (simp add: fun_eq_iff)
  then show ?case using ends_seq [OF ends_map_page [OF assms] Suc] by simp
qed

lemma ends_map_blocks:
  assumes "ends_below R B alloc" shows "ends_step R B (map_blocks alloc va pa n flags base)"
proof (induction n arbitrary: va pa)
  case 0
  have "map_blocks alloc va pa 0 flags base = Inr" by (simp add: fun_eq_iff)
  then show ?case using ends_step_skip by simp
next
  case (Suc n)
  have "map_blocks alloc va pa (Suc n) flags base = (\<lambda>st. bindR (map_block alloc va pa flags base st)
      (map_blocks alloc (va + 0x200000) (pa + 0x200000) n flags base))" by (simp add: fun_eq_iff)
  then show ?case using ends_seq [OF ends_map_block [OF assms] Suc] by simp
qed

lemma ends_map_with:
  assumes "ends_below R B alloc" shows "ends_step R B (map_with alloc va pa k flags base)"
  unfolding map_with_def [abs_def]
  by (cases "9 \<le> k"; cases "pt_index 3 va = 0"; cases "40 \<le> k"; cases "31 \<le> k")
    (use ends_map_pages [OF assms] ends_map_blocks [OF assms] ends_step_skip in simp_all)

lemma ends_buddy_alloc_pt: "ends_below R n (buddy_alloc_pt n)"
proof (induction n)
  case 0
  then show ?case by (simp add: ends_below_def)
next
  case (Suc n)
  show ?case
    unfolding ends_below_def
  proof (intro allI impI; elim conjE)
    fix st :: vm assume ok: "buddy_ok R (vm_buddy st)" and c: "card (free_pages R (vm_buddy st)) < Suc n"
    let ?good = "\<lambda>r. r \<noteq> Inl OutOfFuel \<and> (\<forall>x st'. r = Inr (x, st') \<longrightarrow> buddy_ok R (vm_buddy st') \<and>
       card (free_pages R (vm_buddy st')) \<le> card (free_pages R (vm_buddy st)))"
    show "?good (buddy_alloc_pt (Suc n) st)"
    proof (cases "free_pages R (vm_buddy st) = {}")
      case True
      then have "buddy_alloc 0x1000 (vm_buddy st) = Inr (0, vm_buddy st)"
        using buddy_alloc_page [OF ok] by simp
      then show ?thesis using ok True by simp
    next
      case False
      then obtain p b where p: "buddy_alloc 0x1000 (vm_buddy st) = Inr (page_addr p, b)" "buddy_ok R b"
        "p \<in> free_pages R (vm_buddy st)" "\<And>n. owned R b n \<longleftrightarrow> owned R (vm_buddy st) n \<or> n = p"
        using buddy_alloc_page [OF ok] by (simp only: if_False) blast
      have cd: "Suc (card (free_pages R b)) = card (free_pages R (vm_buddy st))"
        by (rule card_free_pages [OF p(3,4)])
      let ?s = "st\<lparr>vm_buddy := b\<rparr>"
      define M where "M = map_with (buddy_alloc_pt n) (page_addr p) (va_to_pa (page_addr p)) 0
        (MAP_KERNEL OR MAP_READ OR MAP_WRITE) (vm_l0 ?s)"
      have "ends_step R n M" unfolding M_def by (rule ends_map_with [OF Suc])
      moreover have "buddy_ok R (vm_buddy ?s)" "card (free_pages R (vm_buddy ?s)) < n" using p(2) cd c by simp_all
      ultimately have M: "M ?s \<noteq> Inl OutOfFuel" "\<And>st'. M ?s = Inr st' \<Longrightarrow> buddy_ok R (vm_buddy st') \<and>
          card (free_pages R (vm_buddy st')) \<le> card (free_pages R b)"
        using ends_stepD [of R n M ?s] by auto
      have "p < NPAGES" using p(3) by (simp add: free_pages_def)
      then have "buddy_alloc_pt (Suc n) st =
          bindR (M ?s) (\<lambda>st2. bindR (memset_page (page_addr p) st2) (\<lambda>st3. Inr (page_addr p, st3)))"
        using page_addr_not_0 p(1) by (simp add: M_def)
      moreover have "memset_page a s \<noteq> Inl OutOfFuel" "memset_page a s = Inr s' \<Longrightarrow> vm_buddy s' = vm_buddy s"
        for a s s' by (auto simp: memset_page_def split: if_splits)
      ultimately show ?thesis using M cd by (fastforce simp: bindR_eq_Inr bindR_eq_Inl)
    qed
  qed
qed

section \<open>The page allocator as a source of tables\<close>

text \<open>
  The invariant of the mapping code: the allocator's own invariant, a forest of tables that all
  lie in allocated or reserved pages, and a kernel table \<open>k\<close> that maps every managed page with a
  page descriptor of its own.
\<close>

definition pt_inv :: "nat \<Rightarrow> u64 \<Rightarrow> u64 set \<Rightarrow> vm \<Rightarrow> bool" where
  "pt_inv R k roots st \<longleftrightarrow> buddy_ok R (vm_buddy st) \<and> forest (vm_mem st) roots \<and> k \<in> roots \<and>
     vm_l0 st = table_va k \<and>
     (\<forall>r\<in>roots. \<forall>p t. indices p \<and> length p \<le> 3 \<and> node (vm_mem st) r p = Some t \<longrightarrow>
        owned R (vm_buddy st) (unat t)) \<and>
     (\<forall>p. R \<le> p \<and> p < NPAGES \<longrightarrow> aspace (vm_mem st) k (page_addr p) \<noteq> None)"

lemma pt_invD:
  assumes "pt_inv R k roots st"
  shows "buddy_ok R (vm_buddy st)" "forest (vm_mem st) roots" "k \<in> roots" "vm_l0 st = table_va k"
    "\<And>r p t. r \<in> roots \<Longrightarrow> indices p \<Longrightarrow> length p \<le> 3 \<Longrightarrow> node (vm_mem st) r p = Some t \<Longrightarrow>
       owned R (vm_buddy st) (unat t)"
    "\<And>p. R \<le> p \<Longrightarrow> p < NPAGES \<Longrightarrow> aspace (vm_mem st) k (page_addr p) \<noteq> None"
  using assms unfolding pt_inv_def by blast+

lemma page_word:
  assumes "p < NPAGES"
  shows "unat (of_nat p :: u64) = p" "(of_nat p :: u64) < 2 ^ 18" "page_addr p = table_va (of_nat p)"
proof -
  show u: "unat (of_nat p :: u64) = p" using assms by (simp add: unat_of_nat NPAGES_def)
  show "(of_nat p :: u64) < 2 ^ 18" unfolding word_less_nat_alt u using assms by (simp add: NPAGES_def)
  show "page_addr p = table_va (of_nat p)" by (simp add: page_addr_def pa_to_va_def)
qed

lemma memset_table:
  assumes "f < 2 ^ 18"
  shows "memset_page (table_va f) st = Inr (st\<lparr>vm_mem := zero_page f (vm_mem st)\<rparr>)"
proof -
  have "va_to_pa (table_va f) = slot f 0" by (simp add: va_to_pa_def slot_def)
  moreover have "in_ram (slot f 0)" "page_of (slot f 0) = f"
    using slot_in_ram [OF assms, of 0] page_of_slot [OF assms, of 0] by simp_all
  ultimately show ?thesis by (simp add: memset_page_def zero_page_def [abs_def])
qed

lemma buddy_alloc_pt_inv:
  assumes inv: "pt_inv R k roots st" and sup: "0 < card (free_pages R (vm_buddy st))"
  shows "\<exists>p b. buddy_alloc_pt (Suc n) st =
      Inr (page_addr p, st\<lparr>vm_buddy := b, vm_mem := zero_page (of_nat p) (vm_mem st)\<rparr>) \<and>
    buddy_ok R b \<and> p \<in> free_pages R (vm_buddy st) \<and> (\<forall>n. owned R b n \<longleftrightarrow> owned R (vm_buddy st) n \<or> n = p)"
proof -
  note iv = pt_invD [OF inv]
  have "free_pages R (vm_buddy st) \<noteq> {}" using sup by auto
  then obtain p b where p: "buddy_alloc 0x1000 (vm_buddy st) = Inr (page_addr p, b)" "buddy_ok R b"
    "p \<in> free_pages R (vm_buddy st)" "\<forall>n. owned R b n \<longleftrightarrow> owned R (vm_buddy st) n \<or> n = p"
    using buddy_alloc_page [OF iv(1)] by (simp only: if_False) blast
  have pN: "p < NPAGES" "R \<le> p" using p(3) by (auto simp: free_pages_def owned_def)
  let ?s = "st\<lparr>vm_buddy := b\<rparr>"
  have "map_page (buddy_alloc_pt n) (page_addr p) (va_to_pa (page_addr p))
      (MAP_KERNEL OR MAP_READ OR MAP_WRITE) (table_va k) ?s = Inr ?s"
    by (rule map_page_mapped [of _ roots]) (use iv(2,3,6) pN in simp_all)
  then have "map_with (buddy_alloc_pt n) (page_addr p) (va_to_pa (page_addr p)) 0
      (MAP_KERNEL OR MAP_READ OR MAP_WRITE) (vm_l0 ?s) ?s = Inr ?s"
    using iv(4) by (simp add: map_with_def)
  moreover have "memset_page (page_addr p) ?s = Inr (?s\<lparr>vm_mem := zero_page (of_nat p) (vm_mem ?s)\<rparr>)"
    unfolding page_word(3) [OF pN(1)] by (rule memset_table [OF page_word(2) [OF pN(1)]])
  ultimately have "buddy_alloc_pt (Suc n) st =
      Inr (page_addr p, st\<lparr>vm_buddy := b, vm_mem := zero_page (of_nat p) (vm_mem st)\<rparr>)"
    using p(1) page_addr_not_0 [OF pN(1)] by simp
  with p(2-4) show ?thesis by blast
qed

interpretation vmem: table_source "buddy_alloc_pt (Suc n)" "pt_inv R k roots"
  "\<lambda>st. card (free_pages R (vm_buddy st))" roots for R k roots n
proof
  fix st assume "pt_inv R k roots st"
  then show "forest (vm_mem st) roots" by (rule pt_invD)
next
  fix st assume inv: "pt_inv R k roots st" and sup: "0 < card (free_pages R (vm_buddy st))"
  note iv = pt_invD [OF inv]
  obtain p b where a: "buddy_alloc_pt (Suc n) st =
      Inr (page_addr p, st\<lparr>vm_buddy := b, vm_mem := zero_page (of_nat p) (vm_mem st)\<rparr>)"
    and b: "buddy_ok R b" "p \<in> free_pages R (vm_buddy st)" "\<forall>n. owned R b n \<longleftrightarrow> owned R (vm_buddy st) n \<or> n = p"
    using buddy_alloc_pt_inv [OF inv sup, of n] by blast
  have pN: "p < NPAGES" using b(2) by (simp add: free_pages_def)
  note pw = page_word [OF pN]
  let ?f = "of_nat p :: u64" and ?st = "st\<lparr>vm_buddy := b, vm_mem := zero_page (of_nat p) (vm_mem st)\<rparr>"
  have "unused_table (vm_mem st) roots ?f"
    using iv(5) b(2) pw(1) by (fastforce simp: unused_table_def free_pages_def)
  moreover have "card (free_pages R (vm_buddy st)) \<le> Suc (card (free_pages R (vm_buddy ?st)))"
    using card_free_pages [OF b(2)] b(3) by simp
  moreover have "pt_inv R k roots (?st\<lparr>vm_mem := link_table t i e (vm_mem st)\<rparr>)"
    if c: "can_link (vm_mem st) roots r q t i ?f" and e: "pte_valid e" "pte_type e" "pte_address e = ?f"
    for r q t i e
  proof -
    have "owned R b (unat u)"
      if "s \<in> roots" "indices z" "length z \<le> 3" "node (link_table t i e (vm_mem st)) s z = Some u" for s z u
      using link_node [OF c e that(1-3)] that iv(5) [OF that(1-3), of u] b(3) pw(1) by (auto split: if_splits)
    moreover have "aspace (link_table t i e (vm_mem st)) k a = aspace (vm_mem st) k a" for a
      unfolding aspace_def using link_leaf [OF c e iv(3)] by simp
    ultimately show ?thesis
      using b(1) link_forest [OF c e] iv(3,4,6) unfolding pt_inv_def by auto
  qed
  ultimately show "\<exists>f st1. buddy_alloc_pt (Suc n) st = Inr (table_va f, st1) \<and> f < 2 ^ 18 \<and>
      unused_table (vm_mem st) roots f \<and> vm_mem st1 = zero_page f (vm_mem st) \<and>
      card (free_pages R (vm_buddy st)) \<le> Suc (card (free_pages R (vm_buddy st1))) \<and>
      (\<forall>r p t i e. can_link (vm_mem st) roots r p t i f \<and> pte_valid e \<and> pte_type e \<and> pte_address e = f \<longrightarrow>
         pt_inv R k roots (st1\<lparr>vm_mem := link_table t i e (vm_mem st)\<rparr>))"
    using a pw(2,3) by (intro exI [of _ ?f] exI [of _ ?st]) (auto simp del: buddy_alloc_pt.simps)
next
  fix st :: vm and m
  show "card (free_pages R (vm_buddy (st\<lparr>vm_mem := m\<rparr>))) = card (free_pages R (vm_buddy st))" by simp
next
  fix st r p t i e
  assume inv: "pt_inv R k roots st" and a: "r \<in> roots" "indices p" "length p = 3" "node (vm_mem st) r p = Some t"
    "i < 512" "\<not> pte_valid (vm_mem st (slot t i))" "pte_valid e"
  note iv = pt_invD [OF inv] and ef = put_leaf_effect [OF pt_invD(2) [OF inv] a(1-5,7)]
  have kp: "aspace ((vm_mem st)(slot t i := e)) k a \<noteq> None" if "aspace (vm_mem st) k a \<noteq> None" for a
    using that ef(3) [OF iv(3), of "pt_path a" "pt_index 3 a"] by (simp add: aspace_def)
  have own: "owned R (vm_buddy st) (unat u)"
    if "s \<in> roots" "indices q" "length q \<le> 3" "node ((vm_mem st)(slot t i := e)) s q = Some u" for s q u
    using iv(5) [OF that(1-3)] ef(2) [OF that(1-3)] that(4) by simp
  show "pt_inv R k roots (st\<lparr>vm_mem := (vm_mem st)(slot t i := e)\<rparr>)"
    unfolding pt_inv_def vm.select_convs vm.update_convs
  proof (intro conjI ballI allI impI)
    fix p assume "R \<le> p \<and> p < NPAGES"
    then show "aspace (vm_mem (st\<lparr>vm_mem := (vm_mem st)(slot t i := e)\<rparr>)) k (page_addr p) \<noteq> None"
      using kp iv(6) by simp
  next
    fix s q u
    assume "s \<in> roots"
      "indices q \<and> length q \<le> 3 \<and> node (vm_mem (st\<lparr>vm_mem := (vm_mem st)(slot t i := e)\<rparr>)) s q = Some u"
    then show "owned R (vm_buddy (st\<lparr>vm_mem := (vm_mem st)(slot t i := e)\<rparr>)) (unat u)"
      using own [of s q u] by simp
  qed (use iv(1,3,4) ef(1) in simp_all)
qed

section \<open>Translation\<close>

lemma push_12_aligned: "push_bit 12 t AND NOT 0xFFF = (push_bit 12 t :: u64)"
proof -
  have m: "(0xFFF :: u64) = mask 12" by (simp add: mask_eq_exp_minus_1)
  show ?thesis unfolding m by (intro bit_word_eqI) (auto simp: bit_simps simp del: mask_numeral)
qed

lemma rdp_slot: "t < 2 ^ 18 \<Longrightarrow> i < 512 \<Longrightarrow> rdp (push_bit 12 t + 8 * i) st = Inr (vm_mem st (slot t i))"
  using slot_in_ram [of t i] by (simp add: rdp_def slot_def)

definition resolve :: "u64 option \<Rightarrow> u64 \<Rightarrow> u64" where
  "resolve d va = (case d of None \<Rightarrow> - 1
     | Some e \<Rightarrow> (push_bit 12 (pte_address e) OR (va AND 0xFFF)) AND 0xFFFFFFFFF)"

text \<open>The table walk of the code computes the address space of the root.\<close>

lemma walk_descriptors:
  fixes m :: "u64 \<Rightarrow> u64" and r va :: u64
  defines "d0 \<equiv> m (slot r (pt_index 0 va))"
  defines "t1 \<equiv> pte_address d0"
  defines "d1 \<equiv> m (slot t1 (pt_index 1 va))"
  defines "t2 \<equiv> pte_address d1"
  defines "d2 \<equiv> m (slot t2 (pt_index 2 va))"
  defines "t3 \<equiv> pte_address d2"
  defines "d3 \<equiv> m (slot t3 (pt_index 3 va))"
  assumes fo: "forest m roots" and r: "r \<in> roots"
  shows "r < 2 ^ 18" "pte_valid d0 \<Longrightarrow> pte_type d0 \<and> t1 < 2 ^ 18"
    "pte_valid d0 \<Longrightarrow> pte_valid d1 \<Longrightarrow> pte_type d1 \<and> t2 < 2 ^ 18"
    "pte_valid d0 \<Longrightarrow> pte_valid d1 \<Longrightarrow> pte_valid d2 \<Longrightarrow>
       pte_type d2 \<and> t3 < 2 ^ 18 \<and> node m r (pt_path va) = Some t3"
    "aspace m r va = (if pte_valid d0 \<and> pte_valid d1 \<and> pte_valid d2 \<and> pte_valid d3 then Some d3 else None)"
proof -
  let ?i0 = "pt_index 0 va" and ?i1 = "pt_index 1 va" and ?i2 = "pt_index 2 va" and ?i3 = "pt_index 3 va"
  have n0: "r < 2 ^ 18" "node m r [?i0] = (if pte_valid d0 then Some t1 else None)"
    "pte_valid d0 \<Longrightarrow> pte_type d0"
    using node_step [OF fo r, of "[]" r ?i0] forest_no_block [OF fo r, of "[]" r ?i0]
    by (simp_all add: d0_def t1_def)
  have n1: "t1 < 2 ^ 18" "node m r [?i0, ?i1] = (if pte_valid d1 then Some t2 else None)"
    "pte_valid d1 \<Longrightarrow> pte_type d1" if "pte_valid d0"
    using node_step [OF fo r, of "[?i0]" t1 ?i1] forest_no_block [OF fo r, of "[?i0]" t1 ?i1] n0(2) that
    by (simp_all add: d1_def t2_def)
  have n2: "t2 < 2 ^ 18" "node m r [?i0, ?i1, ?i2] = (if pte_valid d2 then Some t3 else None)"
    "pte_valid d2 \<Longrightarrow> pte_type d2" if "pte_valid d0" "pte_valid d1"
    using node_step [OF fo r, of "[?i0, ?i1]" t2 ?i2] forest_no_block [OF fo r, of "[?i0, ?i1]" t2 ?i2]
      n1(2) [OF that(1)] that
    by (simp_all add: d2_def t3_def)
  have n3: "t3 < 2 ^ 18" if "pte_valid d0" "pte_valid d1" "pte_valid d2"
    using forest_range [OF fo r, of "[?i0, ?i1, ?i2]" t3] n2(2) [OF that(1,2)] that(3) by simp
  have nd: "node m r (pt_path va) = (if pte_valid d0 \<and> pte_valid d1 \<and> pte_valid d2 then Some t3 else None)"
    using n0(3) n1(3) n2(3)
    by (auto simp: pt_path_def d0_def [symmetric] t1_def [symmetric] d1_def [symmetric]
        t2_def [symmetric] d2_def [symmetric] t3_def [symmetric] simp del: One_nat_def)
  show "r < 2 ^ 18" "pte_valid d0 \<Longrightarrow> pte_type d0 \<and> t1 < 2 ^ 18"
    "pte_valid d0 \<Longrightarrow> pte_valid d1 \<Longrightarrow> pte_type d1 \<and> t2 < 2 ^ 18"
    "pte_valid d0 \<Longrightarrow> pte_valid d1 \<Longrightarrow> pte_valid d2 \<Longrightarrow>
       pte_type d2 \<and> t3 < 2 ^ 18 \<and> node m r (pt_path va) = Some t3"
    using n0 n1 n2 n3 nd by simp_all
  show "aspace m r va = (if pte_valid d0 \<and> pte_valid d1 \<and> pte_valid d2 \<and> pte_valid d3 then Some d3 else None)"
    using nd by (simp add: aspace_def leaf_def d3_def)
qed

lemma translate_aspace:
  assumes fo: "forest (vm_mem st) roots" and r: "r \<in> roots"
  shows "translate_va va (push_bit 12 r) st = Inr (resolve (aspace (vm_mem st) r va) va)"
proof -
  define d0 where "d0 = vm_mem st (slot r (pt_index 0 va))"
  define t1 where "t1 = pte_address d0"
  define d1 where "d1 = vm_mem st (slot t1 (pt_index 1 va))"
  define t2 where "t2 = pte_address d1"
  define d2 where "d2 = vm_mem st (slot t2 (pt_index 2 va))"
  define t3 where "t3 = pte_address d2"
  define d3 where "d3 = vm_mem st (slot t3 (pt_index 3 va))"
  note w = walk_descriptors(1) [OF fo r] walk_descriptors(2-5) [OF fo r, of va, folded d0_def, folded t1_def, folded d1_def, folded t2_def,
      folded d2_def, folded t3_def, folded d3_def]
  have r0: "rdp (push_bit 12 r + 8 * pt_index 0 va) st = Inr d0" using w(1) by (simp add: rdp_slot d0_def)
  have r1: "rdp (push_bit 12 t1 + 8 * pt_index 1 va) st = Inr d1" if "pte_valid d0"
    using w(2) [OF that] by (simp add: rdp_slot d1_def)
  have r2: "rdp (push_bit 12 t2 + 8 * pt_index 2 va) st = Inr d2" if "pte_valid d0" "pte_valid d1"
    using w(3) [OF that] by (simp add: rdp_slot d2_def)
  have r3: "rdp (push_bit 12 t3 + 8 * pt_index 3 va) st = Inr d3" if "pte_valid d0" "pte_valid d1" "pte_valid d2"
    using w(4) [OF that] by (simp add: rdp_slot d3_def)
  show ?thesis
    unfolding translate_va_def Let_def push_12_aligned r0 bindR_simps t1_def [symmetric] w(5)
    using r1 r2 r3 w(3,4)
    by (cases "pte_valid d0"; cases "pte_valid d1"; cases "pte_valid d2")
      (simp_all add: t2_def [symmetric] t3_def [symmetric] resolve_def del: One_nat_def)
qed

section \<open>Changing permissions\<close>

definition reprotect :: "u64 \<Rightarrow> u64 \<Rightarrow> u64" where
  "reprotect flags e = set_address (parse_block_flags flags True) (pte_address e)"

definition spec_protect ::
  "u64 \<Rightarrow> u64 \<Rightarrow> u64 \<Rightarrow> (u64 \<Rightarrow> u64 \<Rightarrow> u64 option) \<Rightarrow> u64 \<Rightarrow> u64 \<Rightarrow> u64 option" where
  "spec_protect r va flags A s a =
     (if s = r \<and> same_page a va then map_option (reprotect flags) (A s a) else A s a)"

fun spec_protect_pages ::
  "u64 \<Rightarrow> u64 \<Rightarrow> nat \<Rightarrow> u64 \<Rightarrow> (u64 \<Rightarrow> u64 \<Rightarrow> u64 option) \<Rightarrow> u64 \<Rightarrow> u64 \<Rightarrow> u64 option" where
  "spec_protect_pages r va 0 flags A = A"
| "spec_protect_pages r va (Suc n) flags A =
     spec_protect_pages r (va + 0x1000) n flags (spec_protect r va flags A)"

lemma update_page_aspace:
  assumes fo: "forest (vm_mem st) roots" and r: "r \<in> roots"
  shows "if aspace (vm_mem st) r va = None then update_page va flags (table_va r) st = Inr (False, st)
    else \<exists>st'. update_page va flags (table_va r) st = Inr (True, st') \<and> forest (vm_mem st') roots \<and>
      (\<forall>s\<in>roots. aspace (vm_mem st') s = spec_protect r va flags (aspace (vm_mem st)) s)"
proof -
  define d0 where "d0 = vm_mem st (slot r (pt_index 0 va))"
  define t1 where "t1 = pte_address d0"
  define d1 where "d1 = vm_mem st (slot t1 (pt_index 1 va))"
  define t2 where "t2 = pte_address d1"
  define d2 where "d2 = vm_mem st (slot t2 (pt_index 2 va))"
  define t3 where "t3 = pte_address d2"
  define d3 where "d3 = vm_mem st (slot t3 (pt_index 3 va))"
  note w = walk_descriptors(1) [OF fo r] walk_descriptors(2-5) [OF fo r, of va, folded d0_def, folded t1_def, folded d1_def, folded t2_def,
      folded d2_def, folded t3_def, folded d3_def]
  have tv: "pa_to_va (push_bit 12 t) = table_va t" for t by (simp add: pa_to_va_def)
  have r0: "rd64 (table_va r + 8 * pt_index 0 va) st = Inr d0" using w(1) by (simp add: rd64_slot d0_def)
  have r1: "rd64 (table_va t1 + 8 * pt_index 1 va) st = Inr d1" if "pte_valid d0"
    using w(2) [OF that] by (simp add: rd64_slot d1_def)
  have r2: "rd64 (table_va t2 + 8 * pt_index 2 va) st = Inr d2" if "pte_valid d0" "pte_valid d1"
    using w(3) [OF that] by (simp add: rd64_slot d2_def)
  have r3: "rd64 (table_va t3 + 8 * pt_index 3 va) st = Inr d3" if "pte_valid d0" "pte_valid d1" "pte_valid d2"
    using w(4) [OF that] by (simp add: rd64_slot d3_def)
  note run = update_page_def tv
  show ?thesis
  proof (cases "pte_valid d0 \<and> pte_valid d1 \<and> pte_valid d2 \<and> pte_valid d3")
    case False
    then have "update_page va flags (table_va r) st = Inr (False, st)"
      unfolding run r0 bindR_simps t1_def [symmetric] Let_def using r1 r2 r3
      by (cases "pte_valid d0"; cases "pte_valid d1"; cases "pte_valid d2")
        (simp_all add: t2_def [symmetric] t3_def [symmetric] del: One_nat_def)
    then show ?thesis unfolding w(5) using False by (simp split: if_splits)
  next
    case True
    let ?e = "reprotect flags d3" and ?i3 = "pt_index 3 va"
    let ?st = "st\<lparr>vm_mem := (vm_mem st)(slot t3 ?i3 := ?e)\<rparr>"
    have v: "pte_valid d0" "pte_valid d1" "pte_valid d2" "pte_valid d3" using True by simp_all
    have "update_page va flags (table_va r) st = Inr (True, ?st)"
      unfolding run r0 bindR_simps t1_def [symmetric] Let_def
      using w(4) [OF v(1-3)] v r1 r2 r3
      by (simp add: t2_def [symmetric] t3_def [symmetric] wr64_slot reprotect_def del: One_nat_def)
    moreover have as: "aspace (vm_mem st) r va = Some d3" using w(5) True by simp
    have ev: "pte_valid ?e" by (simp add: reprotect_def)
    have nd: "node (vm_mem st) r (pt_path va) = Some t3" using w(4) [OF v(1-3)] by simp
    note ef = put_leaf_effect [OF fo r _ _ nd pt_index_less ev]
    have "aspace (vm_mem ?st) s = spec_protect r va flags (aspace (vm_mem st)) s" if "s \<in> roots" for s
    proof
      fix a
      have "aspace (vm_mem ?st) s a = (if s = r \<and> pt_path a = pt_path va \<and> pt_index 3 a = ?i3 then Some ?e
          else aspace (vm_mem st) s a)"
        unfolding aspace_def using ef(3) [OF _ _ that] by simp
      then show "aspace (vm_mem ?st) s a = spec_protect r va flags (aspace (vm_mem st)) s a"
        using as aspace_same_page [of a va "vm_mem st" r] by (auto simp: spec_protect_def same_page_def)
    qed
    ultimately show ?thesis using as ef(1) by auto
  qed
qed

lemma update_pages_aspace:
  assumes "forest (vm_mem st) roots" and r: "r \<in> roots"
    and "\<And>i. i < n \<Longrightarrow> aspace (vm_mem st) r (va + of_nat i * 0x1000) \<noteq> None"
  shows "\<exists>st'. update_pages va n flags (table_va r) st = Inr (None, st') \<and> forest (vm_mem st') roots \<and>
    (\<forall>s\<in>roots. aspace (vm_mem st') s = spec_protect_pages r va n flags (aspace (vm_mem st)) s)"
  using assms(1,3)
proof (induction n arbitrary: va st)
  case 0
  then show ?case by simp
next
  case (Suc n)
  have "aspace (vm_mem st) r va \<noteq> None" using Suc.prems(2) [of 0] by simp
  then obtain s1 where s1: "update_page va flags (table_va r) st = Inr (True, s1)" "forest (vm_mem s1) roots"
    "\<forall>s\<in>roots. aspace (vm_mem s1) s = spec_protect r va flags (aspace (vm_mem st)) s"
    using update_page_aspace [OF Suc.prems(1) r, of va flags] by (simp only: if_False) blast
  have m: "aspace (vm_mem s1) r (va + 0x1000 + of_nat i * 0x1000) \<noteq> None" if "i < n" for i
    using Suc.prems(2) [of "Suc i"] that s1(3) r
    by (simp add: spec_protect_def algebra_simps)
  from Suc.IH [OF s1(2) m] obtain s2 where
    s2: "update_pages (va + 0x1000) n flags (table_va r) s1 = Inr (None, s2)" "forest (vm_mem s2) roots"
      "\<forall>s\<in>roots. aspace (vm_mem s2) s = spec_protect_pages r (va + 0x1000) n flags (aspace (vm_mem s1)) s"
    by blast
  have cong: "spec_protect_pages r v k flags A s = spec_protect_pages r v k flags B s"
    if "\<And>s. s \<in> roots \<Longrightarrow> A s = B s" "s \<in> roots" for A B s v k
    using that
  proof (induction k arbitrary: v A B)
    case (Suc k)
    show ?case
      unfolding spec_protect_pages.simps
      by (rule Suc.IH) (use Suc.prems in \<open>auto simp: spec_protect_def fun_eq_iff\<close>)
  qed simp
  have "aspace (vm_mem s2) s = spec_protect_pages r va (Suc n) flags (aspace (vm_mem st)) s" if "s \<in> roots" for s
    using s2(3) that cong [of "aspace (vm_mem s1)" "spec_protect r va flags (aspace (vm_mem st))" s "va + 0x1000" n] s1(3)
    by simp
  with s1(1) s2(1,2) show ?case by simp
qed

section \<open>A concrete machine\<close>

text \<open>
  All but the last four pages are reserved; the kernel table 100 maps the four, and 200 is the
  empty root table of a process.
\<close>

abbreviation demo_R :: nat where "demo_R \<equiv> 262140"

definition demo_table :: "u64 \<Rightarrow> u64" where "demo_table t = set_address (parse_table_flags 0) t"

definition demo_mem :: "u64 \<Rightarrow> u64" where
  "demo_mem a =
     (if a = slot 100 256 then demo_table 101
      else if a = slot 101 0 then demo_table 102
      else if a = slot 102 511 then demo_table 103
      else if page_of a = 103 then page_desc (MAP_KERNEL OR MAP_READ OR MAP_WRITE) 0
      else 0)"

definition demo_buddy :: buddy where
  "demo_buddy = (case initialize_page_frame_array 0x3FFFC000 blank_buddy of
     Inr (_, s) \<Rightarrow> s | Inl _ \<Rightarrow> blank_buddy)"

definition demo_vm :: vm where
  "demo_vm = \<lparr>vm_buddy = demo_buddy, vm_mem = demo_mem, vm_l0 = table_va 100\<rparr>"

lemma demo_buddy_ok: "buddy_ok demo_R demo_buddy" "live_blocks demo_R demo_buddy = {}"
proof -
  have "\<exists>s. initialize_page_frame_array 0x3FFFC000 blank_buddy = Inr (demo_R, s) \<and>
      buddy_wf demo_R s \<and> live_blocks demo_R s = {} \<and> flags_ok s"
    using initialize_wf [of "0x3FFFC000" blank_buddy] by (simp add: MAX_ORDER_def NPAGES_def)
  then show "buddy_ok demo_R demo_buddy" "live_blocks demo_R demo_buddy = {}"
    by (auto simp: demo_buddy_def buddy_ok_def)
qed

lemma demo_free: "card (free_pages demo_R demo_buddy) = 4"
proof -
  have "free_pages demo_R demo_buddy = {demo_R ..< NPAGES}"
    by (auto simp: free_pages_def owned_def demo_buddy_ok(2))
  then show ?thesis by (simp add: NPAGES_def)
qed

lemma slot_eq_iff:
  "t < 2 ^ 18 \<Longrightarrow> i < 512 \<Longrightarrow> u < 2 ^ 18 \<Longrightarrow> j < 512 \<Longrightarrow> slot t i = slot u j \<longleftrightarrow> t = u \<and> i = j"
  using slot_inj by auto

lemma demo_slot:
  assumes "t < 2 ^ 18" "i < 512"
  shows "demo_mem (slot t i) =
     (if t = 100 \<and> i = 256 then demo_table 101
      else if t = 101 \<and> i = 0 then demo_table 102
      else if t = 102 \<and> i = 511 then demo_table 103
      else if t = 103 then page_desc (MAP_KERNEL OR MAP_READ OR MAP_WRITE) 0
      else 0)"
  unfolding demo_mem_def using assms by (simp add: slot_eq_iff page_of_slot)

lemma demo_desc [simp]:
  "pte_valid (demo_table t)" "pte_type (demo_table t)" "pte_address (demo_table t) = take_bit 36 t"
  "pte_valid (page_desc flags pa)" "\<not> pte_valid 0"
  by (simp_all add: demo_table_def page_desc_def pte_valid_def [of 0])

definition demo_shape :: "u64 \<Rightarrow> u64 list \<Rightarrow> u64 \<Rightarrow> bool" where
  "demo_shape r p t \<longleftrightarrow> (r, p, t) \<in> {(200, [], 200), (100, [], 100), (100, [256], 101),
     (100, [256, 0], 102), (100, [256, 0, 511], 103)}"

lemma demo_node:
  assumes "indices p" "length p \<le> 3" "r = 100 \<or> r = 200" "node demo_mem r p = Some t"
  shows "demo_shape r p t"
  using assms(1,2,4)
proof (induction p arbitrary: t rule: rev_induct)
  case Nil
  then show ?case using assms(3) by (auto simp: demo_shape_def)
next
  case (snoc i p)
  then obtain u where u: "node demo_mem r p = Some u" "pte_valid (demo_mem (slot u i))"
    "t = pte_address (demo_mem (slot u i))"
    by (auto simp: node_append split: option.splits if_splits)
  have i: "i < 512" using snoc.prems by simp
  have "demo_shape r p u" using snoc u(1) by simp
  then consider "u = 200" | "u = 100" "r = 100" "p = []" | "u = 101" "r = 100" "p = [256]"
    | "u = 102" "r = 100" "p = [256, 0]" | "p = [256, 0, 511]"
    by (auto simp: demo_shape_def)
  then show ?case
  proof cases
    case 1
    then show ?thesis using u(2) i by (simp add: demo_slot)
  next
    case 2
    then show ?thesis using u(2,3) i by (simp add: demo_slot demo_shape_def split: if_splits)
  next
    case 3
    then show ?thesis using u(2,3) i by (simp add: demo_slot demo_shape_def split: if_splits)
  next
    case 4
    then show ?thesis using u(2,3) i by (simp add: demo_slot demo_shape_def split: if_splits)
  next
    case 5
    then show ?thesis using snoc.prems(2) by simp
  qed
qed

lemma demo_forest: "forest demo_mem {100, 200}"
  unfolding forest_def
proof (intro conjI ballI allI impI; elim conjE)
  fix r p t assume "r \<in> {100, 200}" "indices p" "length p \<le> 3" "node demo_mem r p = Some t"
  then have "demo_shape r p t" using demo_node by auto
  then show "t < 2 ^ 18" by (auto simp: demo_shape_def)
next
  fix r p t i assume a: "r \<in> {100, 200}" "indices p" "length p < 3" "node demo_mem r p = Some t" "i < 512"
    "pte_valid (demo_mem (slot t i))"
  then have "demo_shape r p t" using demo_node [of p r t] by auto
  then consider "t = 200" | "t = 100" | "t = 101" | "t = 102" using a(3) by (auto simp: demo_shape_def)
  then show "pte_type (demo_mem (slot t i))"
    by cases (use a(5,6) in \<open>simp_all add: demo_slot split: if_splits\<close>)
next
  fix r s p q t
  assume a: "r \<in> {100, 200}" "s \<in> {100, 200}" "indices p" "length p \<le> 3" "indices q" "length q \<le> 3"
    "node demo_mem r p = Some t" "node demo_mem s q = Some t"
  have "demo_shape r p t" "demo_shape s q t" using a demo_node by auto
  then show "r = s" "p = q" by (auto simp: demo_shape_def)
qed

lemma demo_index:
  assumes "demo_R \<le> p" "p < NPAGES"
  shows "pt_path (page_addr p) = [256, 0, 511]"
proof -
  have "p \<in> {262140, 262141, 262142, 262143}" using assms by (auto simp: NPAGES_def)
  then show ?thesis
    by (auto simp: pt_path_def pt_index_def page_addr_def pa_to_va_def VIRT_BASE_def)
qed

lemma demo_inv: "pt_inv demo_R 100 {100, 200} demo_vm"
proof -
  have "aspace demo_mem 100 (page_addr p) \<noteq> None" if "demo_R \<le> p" "p < NPAGES" for p
  proof -
    have "node demo_mem 100 [256, 0, 511] = Some 103" by (simp add: demo_slot)
    then show ?thesis using demo_index [OF that] by (simp add: aspace_def leaf_def demo_slot)
  qed
  moreover have "owned demo_R demo_buddy (unat t)"
    if "r \<in> {100, 200}" "indices p" "length p \<le> 3" "node demo_mem r p = Some t" for r p t
  proof -
    have "demo_shape r p t" using that demo_node by auto
    then have "unat t < demo_R" by (auto simp: demo_shape_def)
    then show ?thesis by (simp add: owned_def)
  qed
  ultimately show ?thesis
    using demo_forest demo_buddy_ok(1) unfolding pt_inv_def demo_vm_def vm.select_convs by blast
qed

lemma page_desc_resolve:
  assumes "pa < 2 ^ 36" and "pa AND 0xFFF = 0"
  shows "resolve (Some (page_desc flags pa)) a = pa OR (a AND 0xFFF)"
proof -
  have m: "(0xFFF :: u64) = mask 12" "(0xFFFFFFFFF :: u64) = mask 36" by (simp_all add: mask_eq_exp_minus_1)
  have hi: "n < 36" if "bit pa n" for n
  proof -
    have "unat pa < 2 ^ 36" using assms(1) by (simp add: word_less_nat_alt)
    then have "take_bit 36 (unat pa) = unat pa" by (simp add: take_bit_nat_eq_self)
    then have "take_bit 36 pa = pa" by (metis unsigned_take_bit_eq word_unat_eq_iff)
    with that show ?thesis by (metis bit_take_bit_iff)
  qed
  have lo: "12 \<le> n" if "bit pa n" for n
  proof (rule ccontr)
    assume "\<not> 12 \<le> n"
    then have "bit (pa AND mask 12) n" using that by (simp add: bit_simps bit_imp_le_length)
    then show False using assms(2) unfolding m by simp
  qed
  have "(push_bit 12 (take_bit 36 (drop_bit 12 pa)) OR (a AND mask 12)) AND mask 36 = pa OR (a AND mask 12)"
    by (intro bit_word_eqI)
      (auto simp: bit_simps dest: hi lo bit_imp_le_length, metis le_add_diff_inverse lo)
  then show ?thesis unfolding resolve_def m by (simp add: page_desc_def)
qed

section \<open>What the mapping code guarantees\<close>



text \<open>
  Translation returns what mapping stored. After an unmapped page was mapped to a physical page
  below 64 GiB, \<open>translate_va\<close> returns that page with the offset of the address, for every
  address of the page; every address outside the page, and every address in any other root table,
  translates as before.
\<close>

theorem map_translate_roundtrip:
  assumes inv: "pt_inv R k roots st" and r: "r \<in> roots" and sup: "3 \<le> card (free_pages R (vm_buddy st))"
    and new: "aspace (vm_mem st) r va = None" and pa: "pa < 2 ^ 36" "pa AND 0xFFF = 0"
  shows "\<exists>st'. vm_map va pa 0 flags (table_va r) st = Inr st' \<and>
    (\<forall>a. same_page a va \<longrightarrow> translate_va a (push_bit 12 r) st' = Inr (pa OR (a AND 0xFFF))) \<and>
    (\<forall>s\<in>roots. \<forall>a. s \<noteq> r \<or> \<not> same_page a va \<longrightarrow>
       translate_va a (push_bit 12 s) st' = translate_va a (push_bit 12 s) st)"
proof -
  have "vm_map va pa 0 flags (table_va r) st = map_page (buddy_alloc_pt (Suc NPAGES)) va pa flags (table_va r) st"
    by (cases "map_page (buddy_alloc_pt (Suc NPAGES)) va pa flags (table_va r) st")
      (simp_all add: vm_map_def map_with_def pt_fuel_def del: buddy_alloc_pt.simps)
  moreover obtain st' where
    st': "map_page (buddy_alloc_pt (Suc NPAGES)) va pa flags (table_va r) st = Inr st'" "pt_inv R k roots st'"
    "\<forall>s\<in>roots. aspace (vm_mem st') s = spec_map r va pa flags (aspace (vm_mem st)) s"
    using vmem.map_page_refines [OF inv sup r] by blast
  moreover have tr: "translate_va a (push_bit 12 s) st' =
      Inr (resolve (spec_map r va pa flags (aspace (vm_mem st)) s a) a)" if "s \<in> roots" for s a
    using translate_aspace [OF pt_invD(2) [OF st'(2)] that] st'(3) that by simp
  moreover have "resolve (spec_map r va pa flags (aspace (vm_mem st)) r a) a = pa OR (a AND 0xFFF)"
    if "same_page a va" for a
    using that new aspace_same_page [OF that, of "vm_mem st" r] page_desc_resolve [OF pa]
    by (simp add: spec_map_def)
  moreover have "resolve (spec_map r va pa flags (aspace (vm_mem st)) s a) a = resolve (aspace (vm_mem st) s a) a"
    if "s \<noteq> r \<or> \<not> same_page a va" for s a using that by (auto simp: spec_map_def)
  moreover have "translate_va a (push_bit 12 s) st = Inr (resolve (aspace (vm_mem st) s a) a)"
    if "s \<in> roots" for s a by (rule translate_aspace [OF pt_invD(2) [OF inv] that])
  ultimately show ?thesis using r by auto
qed

theorem map_translate_roundtrip_witness:
  "aspace (vm_mem demo_vm) 200 0x400000 = None \<and>
   (\<exists>st'. vm_map 0x400000 0x3FFFF000 0 MAP_USER (table_va 200) demo_vm = Inr st' \<and>
      translate_va 0x400000 (push_bit 12 200) st' = Inr 0x3FFFF000)"
proof -
  have n: "aspace (vm_mem demo_vm) 200 0x400000 = None"
  proof -
    have "node demo_mem 200 (pt_path 0x400000) = None" by (simp add: pt_path_def demo_slot)
    then show ?thesis by (simp add: demo_vm_def aspace_def leaf_def)
  qed
  have s: "3 \<le> card (free_pages demo_R (vm_buddy demo_vm))" by (simp add: demo_vm_def demo_free)
  from map_translate_roundtrip [OF demo_inv _ s n, of "0x3FFFF000" MAP_USER] obtain st' where
    "vm_map 0x400000 0x3FFFF000 0 MAP_USER (table_va 200) demo_vm = Inr st'"
    "\<forall>a. same_page a 0x400000 \<longrightarrow> translate_va a (push_bit 12 200) st' = Inr (0x3FFFF000 OR (a AND 0xFFF))"
    by auto
  then show ?thesis using n by (auto simp: same_page_def)
qed

text \<open>
  C8. Termination. \<open>buddy_alloc_pt\<close> and \<open>map\<close> call each other; with the depth \<open>pt_fuel\<close> the
  mapping of any block into any table, in any state of the page allocator, ends without running
  out of depth, so the bound is never what stops it.
\<close>

theorem map_terminates:
  assumes "buddy_ok R (vm_buddy st)"
  shows "vm_map va pa n flags base st \<noteq> Inl OutOfFuel \<and> buddy_alloc_pt pt_fuel st \<noteq> Inl OutOfFuel"
proof (intro conjI)
  have "card (free_pages R (vm_buddy st)) \<le> card {..<NPAGES}"
    by (rule card_mono) (auto simp: free_pages_def)
  then have c: "card (free_pages R (vm_buddy st)) < pt_fuel" by (simp add: pt_fuel_def)
  show "vm_map va pa n flags base st \<noteq> Inl OutOfFuel"
    unfolding vm_map_def by (rule ends_stepD(1) [OF ends_map_with [OF ends_buddy_alloc_pt] assms c])
  show "buddy_alloc_pt pt_fuel st \<noteq> Inl OutOfFuel"
    by (rule ends_belowD(1) [OF ends_buddy_alloc_pt assms c])
qed

theorem map_terminates_witness:
  "buddy_ok demo_R (vm_buddy demo_vm) \<and> vm_map 0 0 18 MAP_KERNEL (table_va 100) demo_vm \<noteq> Inl OutOfFuel"
  using map_terminates [of demo_R demo_vm] demo_buddy_ok(1) by (simp add: demo_vm_def)



text \<open>
  Permission bits. A page or block descriptor is valid and has the right kind. It is
  executable by the kernel exactly when execution was asked for with the kernel flag, executable
  by user code exactly when it was asked for with the user flag alone, accessible to user code
  exactly for readable user mappings, and writable exactly when reading and writing were both
  asked for with one of the two flags.
\<close>

theorem parse_block_flags_permissions:
  "pte_valid (parse_block_flags flags is_page) \<and> pte_type (parse_block_flags flags is_page) = is_page \<and>
   (bit (parse_block_flags flags is_page) 53 = (\<not> (has_flag flags MAP_EXEC \<and> has_flag flags MAP_KERNEL))) \<and>
   (bit (parse_block_flags flags is_page) 54 =
      (\<not> (has_flag flags MAP_EXEC \<and> \<not> has_flag flags MAP_KERNEL \<and> has_flag flags MAP_USER))) \<and>
   (bit (parse_block_flags flags is_page) 6 = (has_flag flags MAP_USER \<and> has_flag flags MAP_READ)) \<and>
   (bit (parse_block_flags flags is_page) 7 =
      (\<not> (has_flag flags MAP_READ \<and> has_flag flags MAP_WRITE \<and>
          (has_flag flags MAP_USER \<or> has_flag flags MAP_KERNEL))))"
proof (intro conjI)
  note defs = parse_block_flags_def md_access_def md_exec_def md_memory_type_def md_default_def Let_def
  show "pte_valid (parse_block_flags flags is_page)" "pte_type (parse_block_flags flags is_page) = is_page"
    by simp_all
  show "bit (parse_block_flags flags is_page) 53 = (\<not> (has_flag flags MAP_EXEC \<and> has_flag flags MAP_KERNEL))"
    by (auto simp: defs bit_put_field)
  show "bit (parse_block_flags flags is_page) 54 =
      (\<not> (has_flag flags MAP_EXEC \<and> \<not> has_flag flags MAP_KERNEL \<and> has_flag flags MAP_USER))"
    by (auto simp: defs bit_put_field)
  show "bit (parse_block_flags flags is_page) 6 = (has_flag flags MAP_USER \<and> has_flag flags MAP_READ)"
    by (auto simp: defs bit_put_field)
  show "bit (parse_block_flags flags is_page) 7 =
      (\<not> (has_flag flags MAP_READ \<and> has_flag flags MAP_WRITE \<and>
          (has_flag flags MAP_USER \<or> has_flag flags MAP_KERNEL)))"
    by (auto simp: defs bit_put_field)
qed

text \<open>
  A kernel mapped with 2 MiB blocks. \<open>map_pages\<close> does not look at the type of a level-2 entry.
  Where the kernel reaches the page that \<open>buddy_alloc_pt\<close> returns through a block descriptor, the
  first page of the block is taken for a level-3 table: unless bit 0 of the word at the page's
  index is set, that word of the block's data is overwritten with a page descriptor.
\<close>

theorem buddy_alloc_pt_overwrites_block:
  assumes al: "buddy_alloc 0x1000 (vm_buddy st) = Inr (page_addr p, b)" and p: "p < NPAGES"
    and l0: "vm_l0 st = table_va k" "k < 2 ^ 18" "pte_valid (vm_mem st (slot k (pt_index 0 (page_addr p))))"
      "pte_address (vm_mem st (slot k (pt_index 0 (page_addr p)))) = t1"
    and l1: "t1 < 2 ^ 18" "pte_valid (vm_mem st (slot t1 (pt_index 1 (page_addr p))))"
      "pte_address (vm_mem st (slot t1 (pt_index 1 (page_addr p)))) = t2"
    and l2: "t2 < 2 ^ 18" "pte_valid (vm_mem st (slot t2 (pt_index 2 (page_addr p))))"
      "\<not> pte_type (vm_mem st (slot t2 (pt_index 2 (page_addr p))))"
      "pte_address (vm_mem st (slot t2 (pt_index 2 (page_addr p)))) = blk"
    and blk: "blk < 2 ^ 18" "blk \<noteq> of_nat p" "\<not> pte_valid (vm_mem st (slot blk (pt_index 3 (page_addr p))))"
  shows "\<exists>st'. buddy_alloc_pt (Suc n) st = Inr (page_addr p, st') \<and>
    vm_mem st' (slot blk (pt_index 3 (page_addr p))) =
      page_desc (MAP_KERNEL OR MAP_READ OR MAP_WRITE) (va_to_pa (page_addr p))"
proof -
  let ?va = "page_addr p" and ?f = "MAP_KERNEL OR MAP_READ OR MAP_WRITE" and ?s = "st\<lparr>vm_buddy := b\<rparr>"
  let ?d = "page_desc ?f (va_to_pa ?va)"
  have n: "next_table (buddy_alloc_pt n) (parse_table_flags ?f) (table_va k) (pt_index 0 ?va) ?s = Inr (table_va t1, ?s)"
    "next_table (buddy_alloc_pt n) (parse_table_flags ?f) (table_va t1) (pt_index 1 ?va) ?s = Inr (table_va t2, ?s)"
    "next_table (buddy_alloc_pt n) (parse_table_flags ?f) (table_va t2) (pt_index 2 ?va) ?s = Inr (table_va blk, ?s)"
    using l0 l1 l2 by (subst next_table_valid; simp)+
  let ?st = "?s\<lparr>vm_mem := (vm_mem st)(slot blk (pt_index 3 ?va) := ?d)\<rparr>"
  have "put_leaf (parse_block_flags ?f True) (table_va blk) (pt_index 3 ?va) (va_to_pa ?va) ?s = Inr ?st"
    using blk by (simp add: put_leaf_def rd64_slot wr64_slot page_desc_def)
  then have "map_page (buddy_alloc_pt n) ?va (va_to_pa ?va) ?f (table_va k) ?s = Inr ?st"
    unfolding map_page_def Let_def n bindR_simps prod.case .
  then have "map_with (buddy_alloc_pt n) ?va (va_to_pa ?va) 0 ?f (vm_l0 ?s) ?s = Inr ?st"
    using l0(1) by (simp add: map_with_def)
  moreover have "memset_page ?va ?st = Inr (?st\<lparr>vm_mem := zero_page (of_nat p) (vm_mem ?st)\<rparr>)"
    unfolding page_word(3) [OF p] by (rule memset_table [OF page_word(2) [OF p]])
  ultimately have "buddy_alloc_pt (Suc n) st = Inr (?va, ?st\<lparr>vm_mem := zero_page (of_nat p) (vm_mem ?st)\<rparr>)"
    using al page_addr_not_0 [OF p] by simp
  moreover have "zero_page (of_nat p) (vm_mem ?st) (slot blk (pt_index 3 ?va)) = ?d"
    using zero_page_slot [OF blk(1) pt_index_less] blk(2) by simp
  ultimately show ?thesis by simp
qed

text \<open>The machine above, with its last 2 MiB mapped by one block.\<close>

definition block_mem :: "u64 \<Rightarrow> u64" where
  "block_mem a =
     (if a = slot 100 256 then demo_table 101
      else if a = slot 101 0 then demo_table 102
      else if a = slot 102 511 then set_address (parse_block_flags (MAP_KERNEL OR MAP_READ) False) 261632
      else 0)"

theorem buddy_alloc_pt_overwrites_block_witness:
  "\<exists>p st'. buddy_alloc_pt 1 (demo_vm\<lparr>vm_mem := block_mem\<rparr>) = Inr (page_addr p, st') \<and>
     vm_mem st' (slot 261632 (pt_index 3 (page_addr p))) \<noteq> 0"
proof -
  let ?st = "demo_vm\<lparr>vm_mem := block_mem\<rparr>"
  have "free_pages demo_R demo_buddy \<noteq> {}" using demo_free by auto
  then obtain p b where p: "buddy_alloc 0x1000 demo_buddy = Inr (page_addr p, b)" "p \<in> free_pages demo_R demo_buddy"
    using buddy_alloc_page [OF demo_buddy_ok(1)] by (simp only: if_False) blast
  have pN: "p < NPAGES" "demo_R \<le> p" using p(2) by (auto simp: free_pages_def owned_def)
  have ix: "pt_index 0 (page_addr p) = 256" "pt_index 1 (page_addr p) = 0" "pt_index 2 (page_addr p) = 511"
    using demo_index [OF pN(2,1)] by (simp_all add: pt_path_def)
  have rd: "block_mem (slot t i) = (if t = 100 \<and> i = 256 then demo_table 101
      else if t = 101 \<and> i = 0 then demo_table 102
      else if t = 102 \<and> i = 511 then set_address (parse_block_flags (MAP_KERNEL OR MAP_READ) False) 261632
      else 0)" if "t < 2 ^ 18" "i < 512" for t i
    unfolding block_mem_def using that by (simp add: slot_eq_iff)
  have ne: "261632 \<noteq> (of_nat p :: u64)"
  proof
    assume "261632 = (of_nat p :: u64)"
    then have "unat (261632 :: u64) = p" using page_word(1) [OF pN(1)] by simp
    then show False using pN(2) by simp
  qed
  have "\<exists>st'. buddy_alloc_pt (Suc 0) ?st = Inr (page_addr p, st') \<and>
      vm_mem st' (slot 261632 (pt_index 3 (page_addr p))) =
        page_desc (MAP_KERNEL OR MAP_READ OR MAP_WRITE) (va_to_pa (page_addr p))"
    by (rule buddy_alloc_pt_overwrites_block [where k = 100 and ?t1.0 = 101 and ?t2.0 = 102 and b = b])
      (use p(1) pN(1) ne in \<open>simp_all add: demo_vm_def ix rd del: One_nat_def\<close>)
  moreover have "page_desc fl x \<noteq> 0" for fl x using demo_desc(4,5) by metis
  ultimately show ?thesis by (metis One_nat_def)
qed

end
