(* ===== verification/Kmalloc.thy ===== *)
theory Kmalloc
  imports Virtual_Memory
begin

text \<open>
  The kernel heap of \<open>memory/kmalloc.c\<close>: seven caches of slabs for objects of 32 to 2048 bytes on
  top of the page allocator, larger requests straight from it. A slab header lies at the start of
  its block; headers are kept in a store indexed by the page-frame number of the block, with
  whatever an earlier use of the page left there. Its list node is \<open>SlabNode\<close> of that number.
\<close>

section \<open>Types\<close>

record slab =
  slab_bitmap :: "nat \<Rightarrow> u8"
  slab_inuse :: u16
  slab_total :: u16
  slab_order :: u16

text \<open>\<open>CacheList i full\<close> is the head of the list of full or of partial slabs of cache \<open>i\<close>.\<close>

datatype kh_node = CacheList nat bool | SlabNode nat | NoNode

record kheap =
  kh_vm :: vm
  kh_slabs :: "nat \<Rightarrow> slab"
  kh_links :: "kh_node list_head_t"

definition CACHES :: nat where "CACHES = 7"

abbreviation MIN_SLAB_ORDER :: nat where "MIN_SLAB_ORDER \<equiv> 5"
abbreviation MAX_SLAB_ORDER :: nat where "MAX_SLAB_ORDER \<equiv> 11"

text \<open>Two list pointers, 16 bytes of bitmap and three 16-bit counters, padded to 8 bytes.\<close>

definition sizeof_slab :: u64 where "sizeof_slab = 40"

definition set_slab :: "nat \<Rightarrow> (slab \<Rightarrow> slab) \<Rightarrow> kheap \<Rightarrow> kheap" where
  "set_slab p f st = st\<lparr>kh_slabs := (kh_slabs st)(p := f (kh_slabs st p))\<rparr>"

definition set_kh_links :: "(kh_node list_head_t \<Rightarrow> kh_node list_head_t) \<Rightarrow> kheap \<Rightarrow> kheap" where
  "set_kh_links f st = st\<lparr>kh_links := f (kh_links st)\<rparr>"

section \<open>Sizes\<close>

text \<open>\<open>log2_pow2\<close> of \<open>utils/utils.c\<close>. A shift of a 64-bit value by 64 places is undefined.\<close>

function log2_loop :: "u64 \<Rightarrow> nat \<Rightarrow> nat result" where
  "log2_loop num ret =
     (if 64 \<le> ret then Inl WildAccess
      else if drop_bit ret num \<noteq> 0 then log2_loop num (Suc ret)
      else Inr (ret - 1))"
  by pat_completeness auto
termination
  by (relation "measure (\<lambda>(num, ret). 64 - ret)") auto

declare log2_loop.simps [simp del]

definition log2_pow2 :: "u64 \<Rightarrow> nat result" where
  "log2_pow2 num = (if num = 0 then Inr 0 else log2_loop num 0)"

text \<open>The number of significant bits: \<open>64 - __builtin_clzll(x)\<close> for \<open>x\<close> other than zero.\<close>

fun bit_length :: "nat \<Rightarrow> nat" where
  "bit_length n = (if n = 0 then 0 else Suc (bit_length (n div 2)))"

declare bit_length.simps [simp del]

definition aligned_bytes :: "u64 \<Rightarrow> u64" where
  "aligned_bytes bytes = push_bit (bit_length (unat (max bytes 32 - 1))) 1"

section \<open>Slabs\<close>

text \<open>As in the source, the owner is set before the result of the allocation is tested.\<close>

definition slab_alloc :: "nat \<Rightarrow> kheap \<Rightarrow> (u64 \<times> kheap) result" where
  "slab_alloc order st =
     bindR (buddy_alloc (0x1000 * (of_nat order + 1)) (vm_buddy (kh_vm st))) (\<lambda>(phys_page, b).
     bindR (set_page_owner phys_page PAGE_SLAB b) (\<lambda>b'.
       if phys_page = 0 then Inl Panicked
       else bindR (vm_map phys_page (va_to_pa phys_page) order (MAP_KERNEL OR MAP_READ OR MAP_WRITE)
                     (vm_l0 (kh_vm st)) ((kh_vm st)\<lparr>vm_buddy := b'\<rparr>))
              (\<lambda>v. Inr (phys_page, st\<lparr>kh_vm := v\<rparr>))))"

definition kheap_init :: "kheap \<Rightarrow> kheap" where
  "kheap_init st =
     set_kh_links (\<lambda>L. fold (\<lambda>i L. INIT_LIST_HEAD (CacheList i False) (INIT_LIST_HEAD (CacheList i True) L))
                         [0..<CACHES] L) st"

fun scan_bitmap :: "nat \<Rightarrow> nat \<Rightarrow> slab \<Rightarrow> nat option result" where
  "scan_bitmap i 0 s = Inr None"
| "scan_bitmap i (Suc n) s =
     (if 128 \<le> i then Inl WildAccess
      else if \<not> bit (slab_bitmap s (i div 8)) (i mod 8) then Inr (Some i)
      else scan_bitmap (Suc i) n s)"

definition put_bit :: "nat \<Rightarrow> bool \<Rightarrow> slab \<Rightarrow> slab" where
  "put_bit i v s = s\<lparr>slab_bitmap := (slab_bitmap s)(i div 8 :=
     (if v then set_bit (i mod 8) (slab_bitmap s (i div 8)) else unset_bit (i mod 8) (slab_bitmap s (i div 8))))\<rparr>"

definition object_addr :: "nat \<Rightarrow> nat \<Rightarrow> nat \<Rightarrow> u64" where
  "object_addr p ord i = page_addr p + ALIGN_UP sizeof_slab (2 ^ ord) + of_nat i * 2 ^ ord"

definition addr_from_slab :: "nat \<Rightarrow> kheap \<Rightarrow> (u64 \<times> kheap) result" where
  "addr_from_slab p st =
     (let s = kh_slabs st p
      in bindR (scan_bitmap 0 (unat (slab_total s)) s) (\<lambda>r.
           case r of None \<Rightarrow> Inr (0, st)
           | Some i \<Rightarrow> Inr (object_addr p (unat (slab_order s)) i,
               set_slab p (\<lambda>s. (put_bit i True s)\<lparr>slab_inuse := slab_inuse s + 1\<rparr>) st)))"

definition new_slab :: "nat \<Rightarrow> u64 \<Rightarrow> kheap \<Rightarrow> kheap result" where
  "new_slab log2 aligned st =
     (let order = (if 9 < log2 then log2 - 9 else 0)
      in bindR (slab_alloc order st) (\<lambda>(addr, st1).
           let p = pfn_of addr;
               st2 = set_slab p (\<lambda>s. s\<lparr>slab_bitmap := (\<lambda>i. if i < 8 then 0 else slab_bitmap s i)\<rparr>) st1;
               st3 = set_slab p (\<lambda>s. s\<lparr>slab_inuse := 0,
                        slab_total := ucast ((push_bit order 0x1000 - ALIGN_UP sizeof_slab aligned) div aligned),
                        slab_order := of_nat log2\<rparr>) st2
           in Inr (set_kh_links (list_add (SlabNode p) (CacheList (log2 - MIN_SLAB_ORDER) False)) st3)))"

text \<open>The end of \<open>kmalloc\<close>: an object of the first partial slab; a slab that is now full changes lists.\<close>

definition take_from_cache :: "nat \<Rightarrow> kheap \<Rightarrow> (u64 \<times> kheap) result" where
  "take_from_cache cache_idx st =
     (case lnext (kh_links st) (CacheList cache_idx False) of
        SlabNode p \<Rightarrow>
          bindR (addr_from_slab p st) (\<lambda>(addr, st2).
            Inr (addr,
              if slab_inuse (kh_slabs st2 p) = slab_total (kh_slabs st2 p)
              then set_kh_links (\<lambda>L. list_add (SlabNode p) (CacheList cache_idx True)
                                       (list_remove (SlabNode p) L)) st2
              else st2))
      | _ \<Rightarrow> Inl WildAccess)"

definition kmalloc_small :: "nat \<Rightarrow> u64 \<Rightarrow> kheap \<Rightarrow> (u64 \<times> kheap) result" where
  "kmalloc_small log2 aligned st =
     (let cache_idx = log2 - MIN_SLAB_ORDER
      in bindR (if list_empty (CacheList cache_idx False) (kh_links st) then new_slab log2 aligned st else Inr st)
           (take_from_cache cache_idx))"

definition kmalloc_large :: "nat \<Rightarrow> u64 \<Rightarrow> kheap \<Rightarrow> (u64 \<times> kheap) result" where
  "kmalloc_large log2 aligned st =
     bindR (buddy_alloc aligned (vm_buddy (kh_vm st))) (\<lambda>(pages, b).
     bindR (vm_map pages (va_to_pa pages) (log2 - 12) MAP_KERNEL (vm_l0 (kh_vm st)) ((kh_vm st)\<lparr>vm_buddy := b\<rparr>))
       (\<lambda>v. Inr (pages, st\<lparr>kh_vm := v\<rparr>)))"

definition kmalloc :: "u64 \<Rightarrow> kheap \<Rightarrow> (u64 \<times> kheap) result" where
  "kmalloc bytes st =
     (if 2 ^ 30 < bytes then Inr (0, st)
      else bindR (log2_pow2 (aligned_bytes bytes)) (\<lambda>log2.
        if MAX_SLAB_ORDER < log2 then kmalloc_large log2 (aligned_bytes bytes) st
        else kmalloc_small log2 (aligned_bytes bytes) st))"

section \<open>Release\<close>

text \<open>A slab that was full returns to the partial list of its cache.\<close>

definition to_partial :: "nat \<Rightarrow> nat \<Rightarrow> bool \<Rightarrow> kheap \<Rightarrow> kheap result" where
  "to_partial p ord was_full st =
     (if \<not> was_full then Inr st
      else if ord < MIN_SLAB_ORDER \<or> CACHES \<le> ord - MIN_SLAB_ORDER then Inl WildAccess
      else Inr (set_kh_links (\<lambda>L. list_add (SlabNode p) (CacheList (ord - MIN_SLAB_ORDER) False)
                                     (list_remove (SlabNode p) L)) st))"

text \<open>\<open>slab_free\<close> dereferences the header that \<open>head_from_page\<close> returns.\<close>

definition slab_free :: "u64 \<Rightarrow> kheap \<Rightarrow> kheap result" where
  "slab_free ptr st =
     bindR (head_from_page (ALIGN_DOWN ptr 0x1000) (vm_buddy (kh_vm st))) (\<lambda>slab_head.
     let p = pfn_of slab_head; s = kh_slabs st p; ord = unat (slab_order s)
     in if slab_head = 0 \<or> 31 \<le> ord then Inl WildAccess
        else
          let item_size = 2 ^ ord;
              metadata_size = ALIGN_UP sizeof_slab item_size div item_size;
              offset = (ptr - slab_head) div item_size - metadata_size;
              i = unat offset
          in if 128 \<le> i then Inl WildAccess
             else if \<not> bit (slab_bitmap s (i div 8)) (i mod 8) then Inr st
             else
               let st1 = set_slab p (put_bit i False) st
               in bindR (to_partial p ord (slab_inuse s = slab_total s) st1) (\<lambda>st2.
                    let st3 = set_slab p (\<lambda>s. s\<lparr>slab_inuse := slab_inuse s - 1\<rparr>) st2
                    in if slab_inuse (kh_slabs st3 p) = 0
                       then bindR (buddy_free slab_head (vm_buddy (kh_vm st3))) (\<lambda>b.
                              Inr ((set_kh_links (list_remove (SlabNode p)) st3)
                                     \<lparr>kh_vm := (kh_vm st3)\<lparr>vm_buddy := b\<rparr>\<rparr>))
                       else Inr st3))"

definition kfree :: "u64 \<Rightarrow> kheap \<Rightarrow> kheap result" where
  "kfree ptr st =
     (if ptr = 0 then Inr st
      else
        let aligned_ptr = ALIGN_DOWN ptr 0x1000
        in bindR (get_page_owner aligned_ptr (vm_buddy (kh_vm st))) (\<lambda>owner.
             if owner = PAGE_BUDDY
             then bindR (buddy_free aligned_ptr (vm_buddy (kh_vm st))) (\<lambda>b.
                    Inr (st\<lparr>kh_vm := (kh_vm st)\<lparr>vm_buddy := b\<rparr>\<rparr>))
             else if owner = PAGE_SLAB then slab_free ptr st
             else if owner = PAGE_FREE then Inr st
             else Inl Panicked))"

end
