(* ===== verification/Kmalloc_Correct.thy ===== *)
theory Kmalloc_Correct
  imports Kmalloc
begin

text \<open>
  Correctness of the kernel heap: the size classes, the bitmap, the invariant that ties slab
  headers, the lists of the caches and the page allocator together, and how taking an object
  changes it. The properties of \<open>kmalloc\<close> and \<open>kfree\<close> follow in \<open>Kernel_Heap\<close>.
\<close>

section \<open>Size classes\<close>

lemma bit_length_bounds: "0 < n \<Longrightarrow> 2 ^ (bit_length n - 1) \<le> n \<and> n < 2 ^ bit_length n \<and> 0 < bit_length n"
proof (induction n rule: bit_length.induct)
  case (1 n)
  have bl: "bit_length n = Suc (bit_length (n div 2))" using 1 by (subst bit_length.simps) simp
  show ?case
  proof (cases "n div 2 = 0")
    case True
    then have "n = 1" using 1 by simp
    moreover have "bit_length (n div 2) = 0" using True by (subst bit_length.simps) simp
    ultimately show ?thesis using bl by simp
  next
    case False
    then have IH: "2 ^ (bit_length (n div 2) - 1) \<le> n div 2" "n div 2 < 2 ^ bit_length (n div 2)"
      "0 < bit_length (n div 2)" using 1 by auto
    obtain k where k: "bit_length (n div 2) = Suc k" using IH(3) by (cases "bit_length (n div 2)") auto
    have "2 * 2 ^ k \<le> n" using IH(1) k by simp
    moreover have "n < 2 * 2 ^ Suc k" using IH(2) k by (simp add: div_less_iff_less_mult)
    ultimately show ?thesis using bl k by simp
  qed
qed

text \<open>The least power of two, from 32 on, that holds a request.\<close>

definition fits_class :: "nat \<Rightarrow> nat \<Rightarrow> bool" where
  "fits_class bytes l \<longleftrightarrow> 5 \<le> l \<and> bytes \<le> 2 ^ l \<and> (l = 5 \<or> 2 ^ (l - 1) < bytes)"

lemma log2_loop_exp:
  assumes "l < 63" and "ret \<le> Suc l"
  shows "log2_loop (2 ^ l) ret = Inr l"
  using assms(2)
proof (induction "Suc l - ret" arbitrary: ret)
  case 0
  then have "ret = Suc l" by simp
  moreover have "drop_bit (Suc l) (2 ^ l :: u64) = 0"
    by (rule bit_word_eqI) (auto simp: bit_simps)
  ultimately show ?case using assms(1) by (subst log2_loop.simps) simp
next
  case (Suc d)
  have r: "ret \<le> l" using Suc.hyps(2) by simp
  have "bit (drop_bit ret (2 ^ l :: u64)) (l - ret)" using r assms(1) by (simp add: bit_simps)
  then have "drop_bit ret (2 ^ l :: u64) \<noteq> 0" by auto
  moreover have "log2_loop (2 ^ l) (Suc ret) = Inr l" by (rule Suc.hyps(1)) (use Suc.hyps(2) r in auto)
  ultimately show ?case using assms(1) r by (subst log2_loop.simps) simp
qed

lemma aligned_size_class:
  assumes "bytes \<le> 2 ^ 30"
  shows "\<exists>l\<le>30. aligned_bytes bytes = 2 ^ l \<and> log2_pow2 (aligned_bytes bytes) = Inr l \<and> fits_class (unat bytes) l"
proof -
  define x where "x = unat (max bytes 32 - 1)"
  define l where "l = bit_length x"
  have b: "unat bytes \<le> 2 ^ 30" using assms by (simp add: word_le_nat_alt)
  have mx: "unat (max bytes 32) = max (unat bytes) 32" by (simp add: max_def word_le_nat_alt)
  have "1 \<le> max bytes 32" by (simp add: word_le_nat_alt mx)
  then have x: "x = max (unat bytes) 32 - 1" by (simp add: x_def unat_sub mx)
  then have bl: "2 ^ (l - 1) \<le> x" "x < 2 ^ l" using bit_length_bounds [of x] by (auto simp: l_def)
  have "5 \<le> l"
  proof (rule ccontr)
    assume "\<not> 5 \<le> l"
    then have "(2::nat) ^ l \<le> 2 ^ 4" by (intro power_increasing) auto
    with bl(2) x show False by simp
  qed
  moreover have "l \<le> 30"
  proof (rule ccontr)
    assume "\<not> l \<le> 30"
    then have "(2::nat) ^ 30 \<le> 2 ^ (l - 1)" by (intro power_increasing) auto
    with bl(1) x b show False by (simp add: max_def split: if_splits)
  qed
  moreover have "aligned_bytes bytes = 2 ^ l"
    by (simp add: aligned_bytes_def l_def x_def push_bit_eq_mult)
  moreover have "log2_pow2 (2 ^ l) = Inr l"
    using log2_loop_exp [of l 0] \<open>l \<le> 30\<close> by (simp add: log2_pow2_def)
  moreover have "fits_class (unat bytes) l"
  proof -
    have "unat bytes \<le> 2 ^ l" using bl(2) x by simp
    moreover have "l = 5 \<or> 2 ^ (l - 1) < unat bytes"
    proof (cases "l = 5")
      case False
      then have "(2::nat) ^ 5 \<le> 2 ^ (l - 1)" using \<open>5 \<le> l\<close> by (intro power_increasing) auto
      with bl(1) x have "2 ^ (l - 1) < unat bytes" unfolding max_def by (simp split: if_splits)
      then show ?thesis ..
    qed simp
    ultimately show ?thesis using \<open>5 \<le> l\<close> by (simp add: fits_class_def)
  qed
  ultimately show ?thesis by auto
qed

section \<open>Bitmaps\<close>

definition in_use :: "slab \<Rightarrow> nat \<Rightarrow> bool" where
  "in_use s i \<longleftrightarrow> bit (slab_bitmap s (i div 8)) (i mod 8)"

definition used :: "slab \<Rightarrow> nat set" where
  "used s = {i. i < unat (slab_total s) \<and> in_use s i}"

lemma in_use_put_bit: "in_use (put_bit i v s) j = (if j = i then v else in_use s j)"
proof -
  have "j = i \<longleftrightarrow> j div 8 = i div 8 \<and> j mod 8 = i mod 8" by (metis div_mult_mod_eq)
  moreover have "i mod 8 < 8" by simp
  ultimately show ?thesis
    by (auto simp: in_use_def put_bit_def bit_simps)
qed

lemma put_bit_sel [simp]:
  "slab_total (put_bit i v s) = slab_total s" "slab_inuse (put_bit i v s) = slab_inuse s"
  "slab_order (put_bit i v s) = slab_order s"
  by (simp_all add: put_bit_def)

lemma in_use_update [simp]: "in_use (s\<lparr>slab_inuse := n\<rparr>) = in_use s"
  by (simp add: in_use_def fun_eq_iff)

lemma used_put_bit:
  "i < unat (slab_total s) \<Longrightarrow> used (put_bit i v s) = (if v then insert i (used s) else used s - {i})"
  by (auto simp: used_def in_use_put_bit)

lemma finite_used [simp]: "finite (used s)"
  by (rule finite_subset [of _ "{..<unat (slab_total s)}"]) (auto simp: used_def)

lemma scan_bitmap_spec:
  assumes "i + n \<le> 128"
  shows "if \<forall>j. i \<le> j \<and> j < i + n \<longrightarrow> in_use s j then scan_bitmap i n s = Inr None
    else \<exists>j. scan_bitmap i n s = Inr (Some j) \<and> i \<le> j \<and> j < i + n \<and> \<not> in_use s j \<and>
      (\<forall>m. i \<le> m \<and> m < j \<longrightarrow> in_use s m)"
  using assms
proof (induction i n s rule: scan_bitmap.induct)
  case (1 i s)
  then show ?case by simp
next
  case (2 i n s)
  show ?case
  proof (cases "in_use s i")
    case False
    then show ?thesis using 2 by (auto simp: in_use_def intro: exI [of _ i])
  next
    case True
    then have eq: "scan_bitmap i (Suc n) s = scan_bitmap (Suc i) n s" using 2 by (simp add: in_use_def)
    have split: "(\<forall>j. i \<le> j \<and> j < i + Suc n \<longrightarrow> in_use s j) \<longleftrightarrow> (\<forall>j. Suc i \<le> j \<and> j < Suc i + n \<longrightarrow> in_use s j)"
      using True by (metis Suc_leD Suc_leI add_Suc_shift le_neq_implies_less)
    have IH: "if \<forall>j. Suc i \<le> j \<and> j < Suc i + n \<longrightarrow> in_use s j then scan_bitmap (Suc i) n s = Inr None
      else \<exists>j. scan_bitmap (Suc i) n s = Inr (Some j) \<and> Suc i \<le> j \<and> j < Suc i + n \<and> \<not> in_use s j \<and>
        (\<forall>m. Suc i \<le> m \<and> m < j \<longrightarrow> in_use s m)"
      using 2 True by (simp add: in_use_def)
    show ?thesis
    proof (cases "\<forall>j. Suc i \<le> j \<and> j < Suc i + n \<longrightarrow> in_use s j")
      case all: True
      then show ?thesis unfolding eq split if_P [OF all] using IH by (simp only: if_True)
    next
      case False
      then obtain j where j: "scan_bitmap (Suc i) n s = Inr (Some j)" "Suc i \<le> j" "j < Suc i + n" "\<not> in_use s j"
        "\<And>m. Suc i \<le> m \<Longrightarrow> m < j \<Longrightarrow> in_use s m" using IH by (simp only: if_False) blast
      have "in_use s m" if "i \<le> m" "m < j" for m using that j(5) True by (cases "m = i") auto
      with j(1-4) have "\<exists>j. scan_bitmap i (Suc n) s = Inr (Some j) \<and> i \<le> j \<and> j < i + Suc n \<and> \<not> in_use s j \<and>
        (\<forall>m. i \<le> m \<and> m < j \<longrightarrow> in_use s m)" unfolding eq by (intro exI [of _ j]) auto
      then show ?thesis unfolding split if_not_P [OF False] .
    qed
  qed
qed

section \<open>Geometry of a slab\<close>

definition class_order :: "nat \<Rightarrow> nat" where "class_order l = (if 9 < l then l - 9 else 0)"

definition class_hdr :: "nat \<Rightarrow> nat" where "class_hdr l = unat (ALIGN_UP sizeof_slab (2 ^ l))"

definition class_total :: "nat \<Rightarrow> nat" where
  "class_total l = (4096 * 2 ^ class_order l - class_hdr l) div 2 ^ l"

lemma class_range: "5 \<le> (l::nat) \<Longrightarrow> l \<le> 11 \<Longrightarrow> l \<in> {5, 6, 7, 8, 9, 10, 11}"
  by auto

lemma class_values:
  "class_hdr 5 = 64" "class_hdr 6 = 64" "class_hdr 7 = 128" "class_hdr 8 = 256" "class_hdr 9 = 512"
  "class_hdr 10 = 1024" "class_hdr 11 = 2048"
  by (simp_all add: class_hdr_def ALIGN_UP_def sizeof_slab_def)

lemma class_facts:
  assumes "5 \<le> l" "l \<le> 11"
  shows "0 < class_total l" "class_total l \<le> 126" "6 \<le> l \<Longrightarrow> class_total l \<le> 64"
    "class_hdr l + class_total l * 2 ^ l \<le> 4096 * 2 ^ class_order l" "class_hdr l mod 2 ^ l = 0"
    "class_order l \<le> 2" "class_hdr l \<le> 2048"
    "unat (ucast ((push_bit (class_order l) 0x1000 - ALIGN_UP sizeof_slab (2 ^ l)) div 2 ^ l) :: u16) = class_total l"
    "order_for (unat (0x1000 * (of_nat (class_order l) + 1) :: u64)) (class_order l)"
    "unat (0x1000 * (of_nat (class_order l) + 1) :: u64) \<le> 2 ^ 43"
proof -
  have "l \<in> {5, 6, 7, 8, 9, 10, 11}" by (rule class_range [OF assms])
  then consider "l = 5" | "l = 6" | "l = 7" | "l = 8" | "l = 9" | "l = 10" | "l = 11" by blast
  note c = this
  show "0 < class_total l" "class_total l \<le> 126" "6 \<le> l \<Longrightarrow> class_total l \<le> 64"
    "class_hdr l + class_total l * 2 ^ l \<le> 4096 * 2 ^ class_order l" "class_hdr l mod 2 ^ l = 0"
    "class_order l \<le> 2" "class_hdr l \<le> 2048"
    by (rule c; simp add: class_total_def class_values class_order_def)+
  show "unat (ucast ((push_bit (class_order l) 0x1000 - ALIGN_UP sizeof_slab (2 ^ l)) div 2 ^ l) :: u16) = class_total l"
    by (rule c; simp add: class_total_def class_values class_order_def ALIGN_UP_def sizeof_slab_def)
  have u: "unat (0x1000 * (of_nat (class_order l) + 1) :: u64) = 4096 * (class_order l + 1)"
    by (rule c; simp add: class_order_def)
  have "class_order l \<in> {0, 1, 2}" by (rule c; simp add: class_order_def)
  then have "class_order l = 0 \<or> class_order l = 1 \<or> class_order l = 2" by blast
  then show "order_for (unat (0x1000 * (of_nat (class_order l) + 1) :: u64)) (class_order l)"
    unfolding u order_for_def by (auto dest!: less_2_cases)
  show "unat (0x1000 * (of_nat (class_order l) + 1) :: u64) \<le> 2 ^ 43"
    unfolding u by (rule c; simp add: class_order_def)
qed

text \<open>Kernel virtual addresses of the linear map.\<close>

definition kva :: "nat \<Rightarrow> u64" where "kva n = VIRT_BASE + of_nat n"

lemma unat_kva: "n < 2 ^ 31 \<Longrightarrow> unat (kva n) = unat VIRT_BASE + n"
  by (simp add: kva_def VIRT_BASE_def unat_word_ariths unat_of_nat)

lemma page_addr_kva: "page_addr p = kva (p * 4096)"
  by (simp add: page_addr_def pa_to_va_def kva_def push_bit_eq_mult mult.commute add.commute)

lemma ALIGN_DOWN_kva:
  assumes "n < 2 ^ 31"
  shows "ALIGN_DOWN (kva n) 0x1000 = page_addr (n div 4096)"
proof -
  have "unat (ALIGN_DOWN (kva n) (2 ^ 12)) = unat (kva n) div 2 ^ 12 * 2 ^ 12" by (rule unat_ALIGN_DOWN)
  also have "\<dots> = unat VIRT_BASE + n div 4096 * 4096"
  proof -
    obtain c where c: "unat VIRT_BASE = c * 4096"
      by (rule that [of "unat VIRT_BASE div 4096"]) (simp add: VIRT_BASE_def)
    show ?thesis unfolding unat_kva [OF assms] c by simp
  qed
  also have "\<dots> = unat (kva (n div 4096 * 4096))"
    by (rule unat_kva [symmetric]) (use assms in simp)
  finally show ?thesis by (simp add: page_addr_kva word_unat_eq_iff)
qed

lemma object_addr_kva:
  assumes "5 \<le> l" "l \<le> 11"
  shows "object_addr p l j = kva (p * 4096 + class_hdr l + j * 2 ^ l)"
  by (simp add: object_addr_def page_addr_kva kva_def class_hdr_def)

text \<open>An object lies inside the block of its slab.\<close>

lemma object_inside:
  assumes "5 \<le> l" "l \<le> 11" "j < class_total l"
  shows "class_hdr l + j * 2 ^ l + 2 ^ l \<le> 4096 * 2 ^ class_order l"
proof -
  have "Suc j * 2 ^ l \<le> class_total l * 2 ^ l" using assms(3) by (intro mult_right_mono) auto
  then show ?thesis using class_facts(4) [OF assms(1,2)] by simp
qed

lemma object_page:
  assumes l: "5 \<le> l" "l \<le> 11" and j: "j < class_total l" and p: "p + 2 ^ class_order l \<le> NPAGES"
  shows "\<exists>q. ALIGN_DOWN (object_addr p l j) 0x1000 = page_addr q \<and> p \<le> q \<and> q < p + 2 ^ class_order l \<and> q < NPAGES"
proof -
  let ?off = "class_hdr l + j * 2 ^ l"
  have in_blk: "?off < 4096 * 2 ^ class_order l"
    by (rule less_le_trans [OF _ object_inside [OF l j]]) simp
  have "2 ^ class_order l \<le> (2::nat) ^ 2" using class_facts(6) [OF l] by (intro power_increasing) auto
  then have "p * 4096 + ?off < 2 ^ 31" using in_blk p by (simp add: NPAGES_def)
  then have "ALIGN_DOWN (object_addr p l j) 0x1000 = page_addr ((p * 4096 + ?off) div 4096)"
    unfolding object_addr_kva [OF l] by (simp add: ALIGN_DOWN_kva add.assoc)
  also have "(p * 4096 + ?off) div 4096 = p + ?off div 4096" by simp
  finally show ?thesis using in_blk p by (intro exI [of _ "p + ?off div 4096"]) auto
qed

text \<open>The index that \<open>slab_free\<close> computes from an object's address.\<close>

lemma object_offset:
  assumes l: "5 \<le> l" "l \<le> 11" and j: "j < class_total l"
  shows "unat ((object_addr p l j - page_addr p) div 2 ^ l - ALIGN_UP sizeof_slab (2 ^ l) div 2 ^ l) = j"
proof -
  let ?h = "ALIGN_UP sizeof_slab (2 ^ l)"
  have l64: "unat (2 ^ l :: u64) = 2 ^ l" using l by (simp add: unat_exp_word)
  have h: "unat ?h = class_hdr l" by (simp add: class_hdr_def)
  obtain c where c: "class_hdr l = c * 2 ^ l"
    using class_facts(5) [OF l] by (metis dvd_div_mult_self mod_eq_0_iff_dvd)
  have "(2::nat) ^ class_order l \<le> 2 ^ 2" using class_facts(6) [OF l] by (intro power_increasing) auto
  then have "4096 * (2::nat) ^ class_order l \<le> 16384" by simp
  moreover have "class_hdr l + j * 2 ^ l + 2 ^ l \<le> 4096 * 2 ^ class_order l" by (rule object_inside [OF l j])
  ultimately have "class_hdr l + j * 2 ^ l + 2 ^ l \<le> 16384" by (rule le_trans [rotated])
  then have sm: "class_hdr l + j * 2 ^ l < 2 ^ 16" by simp
  have "object_addr p l j - page_addr p = of_nat (class_hdr l + j * 2 ^ l)"
    by (simp add: object_addr_def class_hdr_def)
  moreover have "unat (of_nat (class_hdr l + j * 2 ^ l) :: u64) = class_hdr l + j * 2 ^ l"
    using sm unfolding unat_of_nat by (intro mod_less) simp
  ultimately have "unat (object_addr p l j - page_addr p) = (c + j) * 2 ^ l"
    by (simp only: c add_mult_distrib)
  then have a: "unat ((object_addr p l j - page_addr p) div 2 ^ l) = class_hdr l div 2 ^ l + j"
    unfolding unat_div l64 c by simp
  have b: "unat (?h div 2 ^ l) = class_hdr l div 2 ^ l" unfolding unat_div l64 h ..
  have "?h div 2 ^ l \<le> (object_addr p l j - page_addr p) div 2 ^ l" unfolding word_le_nat_alt a b by simp
  then show ?thesis using a b by (simp add: unat_sub)
qed

section \<open>The invariant of the heap\<close>

interpretation kl: list_family "case_prod CacheList" SlabNode
  by unfold_locales (auto simp: inj_def)

abbreviation kh_buddy :: "kheap \<Rightarrow> buddy" where "kh_buddy st \<equiv> vm_buddy (kh_vm st)"

definition slab_pages :: "nat \<Rightarrow> buddy \<Rightarrow> nat set" where
  "slab_pages R b = {p. \<exists>k. (p, k) \<in> live_blocks R b \<and> pf_state (frame_metadata b p) = PAGE_SLAB}"

definition slab_ok :: "nat \<Rightarrow> kheap \<Rightarrow> nat \<Rightarrow> bool \<Rightarrow> nat \<Rightarrow> bool" where
  "slab_ok R st i full p \<longleftrightarrow>
     (p, class_order (i + 5)) \<in> live_blocks R (kh_buddy st) \<and>
     pf_state (frame_metadata (kh_buddy st) p) = PAGE_SLAB \<and>
     unat (slab_order (kh_slabs st p)) = i + 5 \<and>
     unat (slab_total (kh_slabs st p)) = class_total (i + 5) \<and>
     unat (slab_inuse (kh_slabs st p)) = card (used (kh_slabs st p)) \<and>
     (full \<longleftrightarrow> card (used (kh_slabs st p)) = class_total (i + 5))"

text \<open>
  The lists \<open>F\<close> of the caches hold exactly the blocks owned by the slab allocator. Slabs outside
  \<open>E\<close> have an object in use.
\<close>

definition heap_lists :: "nat \<Rightarrow> kheap \<Rightarrow> nat set \<Rightarrow> (nat \<times> bool \<Rightarrow> nat list) \<Rightarrow> bool" where
  "heap_lists R st E F \<longleftrightarrow>
     lists_of (case_prod CacheList) SlabNode (kh_links st) ({..<CACHES} \<times> UNIV) F \<and>
     (\<forall>i<CACHES. \<forall>f. \<forall>p\<in>set (F (i, f)). slab_ok R st i f p \<and> (p \<in> E \<or> used (kh_slabs st p) \<noteq> {})) \<and>
     slab_pages R (kh_buddy st) = (\<Union>i<CACHES. \<Union>f. set (F (i, f)))"

text \<open>The pages that hold tables. No table lies in a block of the slab allocator.\<close>

definition table_pages :: "vm \<Rightarrow> u64 set \<Rightarrow> nat set" where
  "table_pages v roots = {unat t |t. \<exists>r\<in>roots. \<exists>q. indices q \<and> length q \<le> 3 \<and> node (vm_mem v) r q = Some t}"

definition heap_inv :: "nat \<Rightarrow> u64 \<Rightarrow> u64 set \<Rightarrow> kheap \<Rightarrow> bool" where
  "heap_inv R k roots st \<longleftrightarrow> pt_inv R k roots (kh_vm st) \<and> (\<exists>F. heap_lists R st {} F) \<and>
     (\<forall>(p, l)\<in>live_blocks R (kh_buddy st). pf_state (frame_metadata (kh_buddy st) p) = PAGE_SLAB \<longrightarrow>
        table_pages (kh_vm st) roots \<inter> {p ..< p + 2 ^ l} = {})"

text \<open>The objects in use: a slab and an index in it.\<close>

definition objects :: "nat \<Rightarrow> kheap \<Rightarrow> (nat \<times> nat) set" where
  "objects R st = {(p, j). p \<in> slab_pages R (kh_buddy st) \<and> j \<in> used (kh_slabs st p)}"

lemma heap_listsD:
  assumes "heap_lists R st E F"
  shows "lists_of (case_prod CacheList) SlabNode (kh_links st) ({..<CACHES} \<times> UNIV) F"
    "\<And>i f p. i < CACHES \<Longrightarrow> p \<in> set (F (i, f)) \<Longrightarrow> slab_ok R st i f p"
    "\<And>i f p. i < CACHES \<Longrightarrow> p \<in> set (F (i, f)) \<Longrightarrow> p \<in> E \<or> used (kh_slabs st p) \<noteq> {}"
    "slab_pages R (kh_buddy st) = (\<Union>i<CACHES. \<Union>f. set (F (i, f)))"
  using assms unfolding heap_lists_def by blast+

lemma slab_okD:
  assumes "slab_ok R st i f p"
  shows "(p, class_order (i + 5)) \<in> live_blocks R (kh_buddy st)"
    "pf_state (frame_metadata (kh_buddy st) p) = PAGE_SLAB"
    "unat (slab_order (kh_slabs st p)) = i + 5" "unat (slab_total (kh_slabs st p)) = class_total (i + 5)"
    "unat (slab_inuse (kh_slabs st p)) = card (used (kh_slabs st p))"
    "f \<longleftrightarrow> card (used (kh_slabs st p)) = class_total (i + 5)"
  using assms unfolding slab_ok_def by blast+

lemma slab_ok_cong:
  "kh_slabs st' p = kh_slabs st p \<Longrightarrow> kh_buddy st' = kh_buddy st \<Longrightarrow> slab_ok R st' i f p = slab_ok R st i f p"
  by (simp add: slab_ok_def)

lemma listed_once:
  assumes "heap_lists R st E F" "i < CACHES" "j < CACHES" "p \<in> set (F (i, f))" "p \<in> set (F (j, g))"
  shows "i = j \<and> f = g"
  using kl.family_disjoint [OF heap_listsD(1) [OF assms(1)], of "(i, f)" "(j, g)" p] assms by simp

lemma set_slab_sel [simp]:
  "kh_slabs (set_slab p f st) = (kh_slabs st)(p := f (kh_slabs st p))" "kh_vm (set_slab p f st) = kh_vm st"
  "kh_links (set_slab p f st) = kh_links st"
  by (simp_all add: set_slab_def)

lemma set_kh_links_sel [simp]:
  "kh_slabs (set_kh_links f st) = kh_slabs st" "kh_vm (set_kh_links f st) = kh_vm st"
  "kh_links (set_kh_links f st) = f (kh_links st)"
  by (simp_all add: set_kh_links_def)

section \<open>Taking an object\<close>

lemma inuse_less:
  assumes "slab_ok R st i f p" "i < CACHES"
  shows "card (used (kh_slabs st p)) \<le> class_total (i + 5)" "class_total (i + 5) \<le> 126"
proof -
  have "used (kh_slabs st p) \<subseteq> {..<class_total (i + 5)}" using slab_okD(4) [OF assms(1)] by (auto simp: used_def)
  from card_mono [OF _ this] show "card (used (kh_slabs st p)) \<le> class_total (i + 5)" by simp
  show "class_total (i + 5) \<le> 126" using class_facts(2) [of "i + 5"] assms(2) by (simp add: CACHES_def)
qed

lemma addr_from_slab_partial:
  assumes ok: "slab_ok R st i False p" and i: "i < CACHES"
  shows "\<exists>j st'. addr_from_slab p st = Inr (object_addr p (i + 5) j, st') \<and> j < class_total (i + 5) \<and>
    j \<notin> used (kh_slabs st p) \<and> used (kh_slabs st' p) = insert j (used (kh_slabs st p)) \<and>
    unat (slab_inuse (kh_slabs st' p)) = card (used (kh_slabs st' p)) \<and>
    slab_total (kh_slabs st' p) = slab_total (kh_slabs st p) \<and>
    slab_order (kh_slabs st' p) = slab_order (kh_slabs st p) \<and>
    kh_vm st' = kh_vm st \<and> kh_links st' = kh_links st \<and> (\<forall>q. q \<noteq> p \<longrightarrow> kh_slabs st' q = kh_slabs st q)"
proof -
  let ?s = "kh_slabs st p" and ?n = "class_total (i + 5)"
  note so = slab_okD [OF ok]
  have n: "card (used ?s) < ?n" "?n \<le> 126" using inuse_less [OF ok i] so(6) by auto
  have "\<not> (\<forall>j<?n. in_use ?s j)"
  proof
    assume "\<forall>j<?n. in_use ?s j"
    then have "used ?s = {..<?n}" using so(4) by (auto simp: used_def)
    with n(1) show False by simp
  qed
  then have "\<not> (\<forall>j. 0 \<le> j \<and> j < 0 + ?n \<longrightarrow> in_use ?s j)" by simp
  then obtain j where j: "scan_bitmap 0 ?n ?s = Inr (Some j)" "j < ?n" "\<not> in_use ?s j"
    using scan_bitmap_spec [of 0 ?n ?s] n(2) by (simp only: if_False) auto
  let ?s' = "(put_bit j True ?s)\<lparr>slab_inuse := slab_inuse ?s + 1\<rparr>"
  let ?st = "set_slab p (\<lambda>s. (put_bit j True s)\<lparr>slab_inuse := slab_inuse s + 1\<rparr>) st"
  have "addr_from_slab p st = Inr (object_addr p (i + 5) j, ?st)"
    using j(1) by (simp add: addr_from_slab_def Let_def so(3,4))
  moreover have ju: "j \<notin> used ?s" using j(3) by (simp add: used_def)
  moreover have us: "used ?s' = insert j (used ?s)"
  proof -
    have "used ?s' = used (put_bit j True ?s)" by (simp add: used_def)
    also have "\<dots> = insert j (used ?s)" using used_put_bit [of j ?s True] j(2) so(4) by simp
    finally show ?thesis .
  qed
  moreover have "unat (slab_inuse ?s + 1) = card (used ?s')"
  proof -
    have "unat (slab_inuse ?s + 1) = unat (slab_inuse ?s) + 1"
      using so(5) n by (subst unat_word_ariths) simp
    then show ?thesis using us ju so(5) by simp
  qed
  ultimately show ?thesis using j(2) by (intro exI [of _ j] exI [of _ ?st]) simp
qed

text \<open>Changing one slab header, with the slab staying on its list or moving to the other one.\<close>

definition slab_changed :: "nat \<Rightarrow> kheap \<Rightarrow> kheap \<Rightarrow> bool" where
  "slab_changed p st s \<longleftrightarrow> kh_vm s = kh_vm st \<and> (\<forall>q. q \<noteq> p \<longrightarrow> kh_slabs s q = kh_slabs st q)"

lemma slab_changedD:
  assumes "slab_changed p st s"
  shows "kh_vm s = kh_vm st" "\<And>q. q \<noteq> p \<Longrightarrow> kh_slabs s q = kh_slabs st q"
    "\<And>q. q \<noteq> p \<Longrightarrow> slab_ok R s i f q = slab_ok R st i f q"
  using assms by (simp_all add: slab_changed_def slab_ok_def)

lemma heap_lists_stay:
  assumes hl: "heap_lists R st E F" and i: "i < CACHES" and p: "p \<in> set (F (i, f))"
    and ch: "slab_changed p st s" and lk: "kh_links s = kh_links st" and ok: "slab_ok R s i f p"
    and E: "\<And>q. q \<in> E \<Longrightarrow> q \<noteq> p \<Longrightarrow> q \<in> E'" "p \<in> E' \<or> used (kh_slabs s p) \<noteq> {}"
  shows "heap_lists R s E' F"
  unfolding heap_lists_def
proof (intro conjI allI impI ballI)
  note hd = heap_listsD [OF hl] and cd = slab_changedD [OF ch]
  show "lists_of (case_prod CacheList) SlabNode (kh_links s) ({..<CACHES} \<times> UNIV) F" using hd(1) lk by simp
  show "slab_pages R (kh_buddy s) = (\<Union>i<CACHES. \<Union>f. set (F (i, f)))" using hd(4) cd(1) by simp
  fix l g q assume l: "l < CACHES" and q: "q \<in> set (F (l, g))"
  show "slab_ok R s l g q"
  proof (cases "q = p")
    case True
    then have "l = i \<and> g = f" using listed_once [OF hl l i] q p by blast
    then show ?thesis using True ok by simp
  next
    case False
    then show ?thesis using hd(2) [OF l q] cd(3) by simp
  qed
  show "q \<in> E' \<or> used (kh_slabs s q) \<noteq> {}"
    using hd(3) [OF l q] E cd(2) [of q] by (cases "q = p") auto
qed

lemma heap_lists_move:
  assumes hl: "heap_lists R st E F" and i: "i < CACHES" and p: "p \<in> set (F (i, f))"
    and ch: "slab_changed p st s" and ok: "slab_ok R s i (\<not> f) p"
    and lk: "kh_links s = list_add (SlabNode p) (CacheList i (\<not> f)) (list_remove (SlabNode p) (kh_links st))"
    and E: "\<And>q. q \<in> E \<Longrightarrow> q \<noteq> p \<Longrightarrow> q \<in> E'" "p \<in> E' \<or> used (kh_slabs s p) \<noteq> {}"
  shows "heap_lists R s E' (F((i, f) := remove1 p (F (i, f)), (i, \<not> f) := p # F (i, \<not> f)))"
proof -
  note hd = heap_listsD [OF hl] and cd = slab_changedD [OF ch]
  let ?F1 = "F((i, f) := remove1 p (F (i, f)))"
  define F' where "F' = F((i, f) := remove1 p (F (i, f)), (i, \<not> f) := p # F (i, \<not> f))"
  have L1: "lists_of (case_prod CacheList) SlabNode (list_remove (SlabNode p) (kh_links st)) ({..<CACHES} \<times> UNIV) ?F1"
    using kl.family_remove(1) [OF hd(1), of "(i, f)" p] i p by simp
  have dis: "distinct (F (i, f))" using kl.family_distinct [OF hd(1), of "(i, f)"] i by simp
  have p1: "p \<notin> set (?F1 y)" if "y \<in> {..<CACHES} \<times> UNIV" for y
  proof (cases "y = (i, f)")
    case True
    then show ?thesis using dis by simp
  next
    case False
    obtain l g where y: "y = (l, g)" by (cases y)
    have "l < CACHES" using that y by simp
    then have "p \<notin> set (F (l, g))" using listed_once [OF hl _ i _ p, of l g] False y by blast
    moreover have "?F1 y = F (l, g)" using False unfolding y by (rule fun_upd_other)
    ultimately show ?thesis by simp
  qed
  have L: "lists_of (case_prod CacheList) SlabNode (kh_links s) ({..<CACHES} \<times> UNIV) F'"
  proof -
    have e: "?F1 (i, \<not> f) = F (i, \<not> f)" by simp
    show ?thesis
      using kl.family_add [OF L1 _ p1, of "(i, \<not> f)"] i unfolding F'_def lk e
      by (simp del: fun_upd_apply)
  qed
  have mem: "q \<in> set (F' (l, g)) \<longleftrightarrow> (q \<noteq> p \<and> q \<in> set (F (l, g))) \<or> (q = p \<and> l = i \<and> g = (\<not> f))"
    if l: "l < CACHES" for q l g
  proof -
    have np: "(l, g) \<noteq> (i, f) \<Longrightarrow> p \<notin> set (F (l, g))" using listed_once [OF hl l i _ p, of g] by auto
    consider "(l, g) = (i, f)" | "(l, g) = (i, \<not> f)" | "(l, g) \<noteq> (i, f)" "(l, g) \<noteq> (i, \<not> f)" by blast
    then show ?thesis
    proof cases
      case 1
      then show ?thesis using dis by (auto simp: F'_def)
    next
      case 2
      then show ?thesis using np by (auto simp: F'_def)
    next
      case 3
      then show ?thesis using np by (auto simp: F'_def)
    qed
  qed
  have "heap_lists R s E' F'"
    unfolding heap_lists_def
  proof (intro conjI allI impI ballI)
    fix l g q assume l: "l < CACHES" and q: "q \<in> set (F' (l, g))"
    from q have c: "(q \<noteq> p \<and> q \<in> set (F (l, g))) \<or> (q = p \<and> l = i \<and> g = (\<not> f))" unfolding mem [OF l] .
    show "slab_ok R s l g q"
    proof (cases "q = p")
      case True
      then show ?thesis using c ok by simp
    next
      case False
      then have "slab_ok R st l g q" using c hd(2) [OF l] by blast
      then show ?thesis using cd(3) [OF False, of R l g] by simp
    qed
    show "q \<in> E' \<or> used (kh_slabs s q) \<noteq> {}"
    proof (cases "q = p")
      case True
      then show ?thesis using E(2) by simp
    next
      case False
      then have "q \<in> E \<or> used (kh_slabs st q) \<noteq> {}" using c hd(3) [OF l] by blast
      then show ?thesis using cd(2) [OF False] E(1) False by auto
    qed
  next
    have "(\<exists>l<CACHES. \<exists>g. q \<in> set (F' (l, g))) \<longleftrightarrow> (\<exists>l<CACHES. \<exists>g. q \<in> set (F (l, g)))" for q
    proof (cases "q = p")
      case True
      have "p \<in> set (F' (i, \<not> f))" using mem [OF i] by simp
      then show ?thesis using True i p by blast
    next
      case False
      then show ?thesis using mem by (metis (no_types))
    qed
    then have "(\<Union>l<CACHES. \<Union>g. set (F' (l, g))) = (\<Union>l<CACHES. \<Union>g. set (F (l, g)))"
      unfolding set_eq_iff UN_iff Bex_def lessThan_iff by simp
    then show "slab_pages R (kh_buddy s) = (\<Union>l<CACHES. \<Union>g. set (F' (l, g)))" using hd(4) cd(1) by simp
  qed (rule L)
  then show ?thesis unfolding F'_def .
qed

text \<open>Taking an object from the first partial slab.\<close>

lemma take_object:
  assumes hl: "heap_lists R st E F" and i: "i < CACHES" and F: "F (i, False) = p # ps"
  shows "\<exists>j st'. take_from_cache i st = Inr (object_addr p (i + 5) j, st') \<and>
    (\<exists>F'. heap_lists R st' (E - {p}) F') \<and> j < class_total (i + 5) \<and> j \<notin> used (kh_slabs st p) \<and>
    used (kh_slabs st' p) = insert j (used (kh_slabs st p)) \<and>
    slab_order (kh_slabs st' p) = slab_order (kh_slabs st p) \<and> slab_changed p st st'"
proof -
  note hd = heap_listsD [OF hl]
  have pF: "p \<in> set (F (i, False))" using F by simp
  have ok: "slab_ok R st i False p" by (rule hd(2) [OF i pF])
  have nx: "lnext (kh_links st) (CacheList i False) = SlabNode p"
    using kl.family_first [OF hd(1), of "(i, False)" p ps] i F by simp
  obtain j s where s: "addr_from_slab p st = Inr (object_addr p (i + 5) j, s)" "j < class_total (i + 5)"
    "j \<notin> used (kh_slabs st p)" "used (kh_slabs s p) = insert j (used (kh_slabs st p))"
    "unat (slab_inuse (kh_slabs s p)) = card (used (kh_slabs s p))"
    "slab_total (kh_slabs s p) = slab_total (kh_slabs st p)" "slab_order (kh_slabs s p) = slab_order (kh_slabs st p)"
    "kh_links s = kh_links st" and ch: "slab_changed p st s"
    using addr_from_slab_partial [OF ok i] unfolding slab_changed_def by blast
  note so = slab_okD [OF ok]
  have full: "slab_inuse (kh_slabs s p) = slab_total (kh_slabs s p) \<longleftrightarrow> card (used (kh_slabs s p)) = class_total (i + 5)"
    using s(5,6) so(4) by (simp add: word_unat_eq_iff)
  have okp: "slab_ok R s i f p" if "f \<longleftrightarrow> card (used (kh_slabs s p)) = class_total (i + 5)" for f
    using so s(5-7) slab_changedD(1) [OF ch] that by (simp add: slab_ok_def)
  let ?mv = "\<lambda>L. list_add (SlabNode p) (CacheList i True) (list_remove (SlabNode p) L)"
  let ?st = "if slab_inuse (kh_slabs s p) = slab_total (kh_slabs s p) then set_kh_links ?mv s else s"
  have ex: "\<exists>F'. heap_lists R ?st (E - {p}) F'"
  proof (cases "slab_inuse (kh_slabs s p) = slab_total (kh_slabs s p)")
    case True
    have "slab_changed p st (set_kh_links ?mv s)" using ch by (simp add: slab_changed_def)
    moreover have "slab_ok R (set_kh_links ?mv s) i (\<not> False) p"
      using okp [of True] True full slab_ok_cong [of "set_kh_links ?mv s" p s R i True] by simp
    ultimately have "heap_lists R (set_kh_links ?mv s) (E - {p})
        (F((i, False) := remove1 p (F (i, False)), (i, \<not> False) := p # F (i, \<not> False)))"
      by (rule heap_lists_move [OF hl i pF]) (use s(4,8) in auto)
    then show ?thesis using True by auto
  next
    case False
    then have "slab_ok R s i False p" using okp full by simp
    then have "heap_lists R s (E - {p}) F"
      by (rule heap_lists_stay [OF hl i pF ch s(8)]) (use s(4) in auto)
    then show ?thesis using False by auto
  qed
  have fin: "slab_changed p st ?st" "used (kh_slabs ?st p) = insert j (used (kh_slabs st p))"
    "slab_order (kh_slabs ?st p) = slab_order (kh_slabs st p)"
    using ch s(4,7) by (simp_all add: slab_changed_def)
  have "take_from_cache i st = Inr (object_addr p (i + 5) j, ?st)"
    unfolding take_from_cache_def nx kh_node.case s(1) bindR_simps prod.case ..
  with ex s(2,3) fin show ?thesis by blast
qed

end
