(* ===== verification/Kernel_Heap.thy ===== *)
theory Kernel_Heap
  imports Kmalloc_Correct
begin

text \<open>
  The kernel heap as its callers see it: \<open>kmalloc\<close> returns a fresh object of the requested size
  class, \<open>kfree\<close> returns it, objects never overlap and the invariant of the heap survives. Two
  theorems record what goes wrong: the bitmap of a new slab of 32-byte objects is only half
  cleared, and an exhausted page allocator is not noticed.
\<close>

section \<open>The page tables under the heap\<close>

lemma pt_inv_buddy:
  assumes "pt_inv R k roots v" and "buddy_ok R b" and "\<And>n. n \<in> table_pages v roots \<Longrightarrow> owned R b n"
  shows "pt_inv R k roots (v\<lparr>vm_buddy := b\<rparr>)"
  using assms unfolding pt_inv_def table_pages_def by auto

lemma table_pages_owned: "pt_inv R k roots v \<Longrightarrow> n \<in> table_pages v roots \<Longrightarrow> owned R (vm_buddy v) n"
  using pt_invD(5) unfolding table_pages_def by blast

lemma table_pages_buddy [simp]: "table_pages (v\<lparr>vm_buddy := b\<rparr>) roots = table_pages v roots"
  by (simp add: table_pages_def)

lemma page_addr_Suc: "page_addr p + 0x1000 = page_addr (Suc p)"
  by (simp add: page_addr_def pa_to_va_def push_bit_eq_mult algebra_simps)

text \<open>Mapping managed pages changes nothing: the kernel's table maps all of them.\<close>

lemma map_pages_managed:
  assumes pt: "pt_inv R k roots v"
  shows "R \<le> p \<Longrightarrow> p + n \<le> NPAGES \<Longrightarrow> map_pages alloc (page_addr p) pa n flags (table_va k) v = Inr v"
proof (induction n arbitrary: p pa)
  case (Suc n)
  have "aspace (vm_mem v) k (page_addr p) \<noteq> None" using pt_invD(6) [OF pt] Suc.prems by simp
  then have "map_page alloc (page_addr p) pa flags (table_va k) v = Inr v"
    by (rule map_page_mapped [OF pt_invD(2,3) [OF pt]])
  then show ?case using Suc by (simp add: page_addr_Suc)
qed simp

lemma vm_map_managed:
  assumes "pt_inv R k roots v" "R \<le> p" "p + 2 ^ l \<le> NPAGES" "l < 9"
  shows "vm_map (page_addr p) pa l flags (table_va k) v = Inr v"
  using map_pages_managed [OF assms(1-3)] assms(4) by (simp add: vm_map_def map_with_def)

section \<open>New slabs\<close>

text \<open>A block that became a slab: allocated, owned by the slab allocator, nothing else touched.\<close>

definition new_block :: "nat \<Rightarrow> nat \<Rightarrow> nat \<Rightarrow> buddy \<Rightarrow> buddy \<Rightarrow> bool" where
  "new_block R k p b b' \<longleftrightarrow> p < NPAGES \<and> buddy_ok R b' \<and>
     live_blocks R b' = insert (p, k) (live_blocks R b) \<and> (\<forall>l. (p, l) \<notin> live_blocks R b) \<and>
     pf_state (frame_metadata b' p) = PAGE_SLAB \<and> keeps_live R b b' \<and>
     (\<forall>n. p \<le> n \<and> n < p + 2 ^ k \<longrightarrow> \<not> owned R b n)"

lemma new_blockD:
  assumes "new_block R k p b b'"
  shows "p < NPAGES" "buddy_ok R b'" "live_blocks R b' = insert (p, k) (live_blocks R b)"
    "\<And>l. (p, l) \<notin> live_blocks R b" "pf_state (frame_metadata b' p) = PAGE_SLAB" "keeps_live R b b'"
    "\<And>n. p \<le> n \<Longrightarrow> n < p + 2 ^ k \<Longrightarrow> \<not> owned R b n"
  using assms unfolding new_block_def by blast+

lemma set_owner_new:
  assumes g: "got_block R k p b b1"
  shows "\<exists>b'. set_page_owner (page_addr p) PAGE_SLAB b1 = Inr b' \<and> new_block R k p b b'"
proof -
  note d = got_blockD [OF g]
  have pl: "(p, k) \<in> live_blocks R b1" using d(3) by simp
  have Rp: "R \<le> p" using live_blocks_bounds(1) [OF _ pl] d(2) by (simp add: buddy_ok_def)
  let ?b = "set_frame p (\<lambda>f. f\<lparr>pf_state := PAGE_SLAB\<rparr>) b1"
  have "owner_pfn (page_addr p) b1 = Inr p" by (rule owner_pfn_live(1) [OF d(2) pl]) (use d(1) in simp_all)
  then have s: "set_page_owner (page_addr p) PAGE_SLAB b1 = Inr ?b" by (simp add: set_page_owner_def)
  have n: "buddy_ok R ?b" "live_blocks R ?b = live_blocks R b1"
    by (rule set_frame_neutral [OF d(2) Rp]; simp add: d(5))+
  have "keeps_live R b ?b"
    using d(4,7) unfolding keeps_live_def by (auto simp: set_frame_def)
  then have "new_block R k p b ?b"
    using n d(1,3,4) got_block_unowned [OF g] unfolding new_block_def by (simp add: set_frame_def)
  with s show ?thesis by blast
qed

lemma new_block_owned: "new_block R k p b b' \<Longrightarrow> owned R b n \<Longrightarrow> owned R b' n"
  by (auto simp: owned_def dest: new_blockD(3))

lemma wild_owner: "set_page_owner 0 s b = Inl WildAccess"
  by (simp add: set_page_owner_def owner_pfn_def pfn_of_def va_to_pa_def VIRT_BASE_def NPAGES_def
      drop_bit_eq_div Let_def)

lemma order_for_unique:
  assumes "order_for n k" "order_for n l" shows "k = l"
  using assms unfolding order_for_def by (metis linorder_neqE_nat not_le)

lemma slab_alloc_spec:
  assumes pt: "pt_inv R k roots (kh_vm st)" and l: "5 \<le> l" "l \<le> 11"
  shows "if has_block R (class_order l) (kh_buddy st)
    then \<exists>p b. slab_alloc (class_order l) st = Inr (page_addr p, st\<lparr>kh_vm := (kh_vm st)\<lparr>vm_buddy := b\<rparr>\<rparr>) \<and>
      new_block R (class_order l) p (kh_buddy st) b \<and> pt_inv R k roots ((kh_vm st)\<lparr>vm_buddy := b\<rparr>)
    else slab_alloc (class_order l) st = Inl WildAccess"
proof -
  note of = class_facts(9) [OF l] and small = class_facts(10) [OF l]
  let ?n = "0x1000 * (of_nat (class_order l) + 1) :: u64"
  show ?thesis
  proof (cases rule: buddy_alloc_cases [OF pt_invD(1) [OF pt] small])
    case (1 o' p b1)
    have o: "o' = class_order l" by (rule order_for_unique [OF 1(1) of])
    obtain b where b: "set_page_owner (page_addr p) PAGE_SLAB b1 = Inr b"
      "new_block R (class_order l) p (kh_buddy st) b"
      using set_owner_new [OF 1(4)] o by blast
    note nb = new_blockD [OF b(2)]
    have pt': "pt_inv R k roots ((kh_vm st)\<lparr>vm_buddy := b\<rparr>)"
      by (rule pt_inv_buddy [OF pt nb(2)]) (rule new_block_owned [OF b(2) table_pages_owned [OF pt]])
    have lb: "R \<le> p" "p + 2 ^ class_order l \<le> NPAGES"
      using live_blocks_bounds [of R b p "class_order l"] nb(2,3) by (simp_all add: buddy_ok_def)
    have "class_order l < 9" using class_facts(6) [OF l] by simp
    from vm_map_managed [OF pt' lb this]
    have "vm_map (page_addr p) (va_to_pa (page_addr p)) (class_order l) (MAP_KERNEL OR MAP_READ OR MAP_WRITE)
        (vm_l0 (kh_vm st)) ((kh_vm st)\<lparr>vm_buddy := b\<rparr>) = Inr ((kh_vm st)\<lparr>vm_buddy := b\<rparr>)"
      using pt_invD(4) [OF pt] by simp
    then have "slab_alloc (class_order l) st = Inr (page_addr p, st\<lparr>kh_vm := (kh_vm st)\<lparr>vm_buddy := b\<rparr>\<rparr>)"
      using 1(3) b(1) page_addr_not_0 [OF nb(1)] by (simp add: slab_alloc_def)
    then show ?thesis using 1(2) o b(2) pt' by auto
  next
    case (2 o')
    have o: "o' = class_order l" by (rule order_for_unique [OF 2(1) of])
    then show ?thesis using 2(2,3) wild_owner by (simp add: slab_alloc_def)
  qed
qed


lemma new_block_slab_pages:
  assumes "new_block R k p b b'"
  shows "slab_pages R b' = insert p (slab_pages R b)" "p \<notin> slab_pages R b"
proof -
  note d = new_blockD [OF assms]
  have fr: "frame_metadata b' q = frame_metadata b q" if "(q, l) \<in> live_blocks R b" for q l
    using d(6) that unfolding keeps_live_def by blast
  show "p \<notin> slab_pages R b" using d(4) by (simp add: slab_pages_def)
  show "slab_pages R b' = insert p (slab_pages R b)"
    using d(3,5) fr unfolding slab_pages_def set_eq_iff by fastforce
qed

lemma slab_ok_transfer:
  assumes "slab_ok R st i f q" and "kh_slabs s q = kh_slabs st q"
    and "(q, class_order (i + 5)) \<in> live_blocks R (kh_buddy s)"
    and "frame_metadata (kh_buddy s) q = frame_metadata (kh_buddy st) q"
  shows "slab_ok R s i f q"
  using assms by (simp add: slab_ok_def)

text \<open>The bytes of the bitmap that \<open>kmalloc\<close> does not clear.\<close>

definition clean_tail :: "slab \<Rightarrow> bool" where
  "clean_tail s \<longleftrightarrow> (\<forall>i. 8 \<le> i \<and> i < 16 \<longrightarrow> slab_bitmap s i = 0)"

definition init_slab :: "nat \<Rightarrow> slab \<Rightarrow> slab" where
  "init_slab l s = s\<lparr>slab_bitmap := (\<lambda>i. if i < 8 then 0 else slab_bitmap s i), slab_inuse := 0,
     slab_total := ucast ((push_bit (class_order l) 0x1000 - ALIGN_UP sizeof_slab (2 ^ l)) div 2 ^ l),
     slab_order := of_nat l\<rparr>"

lemma new_slab_eq:
  "new_slab l (2 ^ l) st = bindR (slab_alloc (class_order l) st) (\<lambda>(addr, st1).
     Inr (set_kh_links (list_add (SlabNode (pfn_of addr)) (CacheList (l - MIN_SLAB_ORDER) False))
       (set_slab (pfn_of addr) (init_slab l) st1)))"
  by (simp add: new_slab_def class_order_def [symmetric] Let_def set_slab_def init_slab_def)

lemma used_init_slab:
  assumes l: "5 \<le> l" "l \<le> 11" and c: "l = 5 \<Longrightarrow> clean_tail s"
  shows "used (init_slab l s) = {}" "unat (slab_total (init_slab l s)) = class_total l"
    "unat (slab_order (init_slab l s)) = l" "slab_inuse (init_slab l s) = 0"
proof -
  show t: "unat (slab_total (init_slab l s)) = class_total l" using class_facts(8) [OF l] by (simp add: init_slab_def)
  show "unat (slab_order (init_slab l s)) = l" using l by (simp add: init_slab_def unat_of_nat)
  show "slab_inuse (init_slab l s) = 0" by (simp add: init_slab_def)
  have "\<not> in_use (init_slab l s) j" if j: "j < class_total l" for j
  proof (cases "j div 8 < 8")
    case True
    then show ?thesis by (simp add: in_use_def init_slab_def)
  next
    case False
    then have "\<not> class_total l \<le> 64" using j by simp
    then have "l = 5" using class_facts(3) [OF l] l(1) by (cases "l = 5") auto
    moreover have "j < 126" using j class_facts(2) [OF l] by simp
    ultimately show ?thesis using c False by (simp add: in_use_def init_slab_def clean_tail_def)
  qed
  then show "used (init_slab l s) = {}" using t by (auto simp: used_def)
qed

definition clean_pages :: "nat \<Rightarrow> kheap \<Rightarrow> bool" where
  "clean_pages R st \<longleftrightarrow> (\<forall>p. p \<notin> slab_pages R (kh_buddy st) \<longrightarrow> clean_tail (kh_slabs st p))"

lemma new_slab_lists:
  assumes hl: "heap_lists R st {} F" and i: "i < CACHES" and F: "F (i, False) = []"
    and nb: "new_block R (class_order (i + 5)) p (kh_buddy st) b"
    and c: "i = 0 \<Longrightarrow> clean_tail (kh_slabs st p)"
    and st1: "st1 = set_kh_links (list_add (SlabNode p) (CacheList i False))
       (set_slab p (init_slab (i + 5)) (st\<lparr>kh_vm := (kh_vm st)\<lparr>vm_buddy := b\<rparr>\<rparr>))"
  shows "heap_lists R st1 {p} (F((i, False) := [p]))" "used (kh_slabs st1 p) = {}"
proof -
  note hd = heap_listsD [OF hl] and d = new_blockD [OF nb] and sp = new_block_slab_pages [OF nb]
  have l: "5 \<le> i + 5" "i + 5 \<le> 11" using i by (simp_all add: CACHES_def)
  have b: "kh_buddy st1 = b" using st1 by simp
  note u = used_init_slab [OF l, of "kh_slabs st p"]
  show us: "used (kh_slabs st1 p) = {}" using u(1) c st1 by simp
  have fresh: "p \<notin> set (F y)" if "y \<in> {..<CACHES} \<times> UNIV" for y
    using that sp(2) hd(4) by (cases y) auto
  let ?F = "F((i, False) := [p])"
  show "heap_lists R st1 {p} ?F"
    unfolding heap_lists_def
  proof (intro conjI allI impI ballI)
    show "lists_of (case_prod CacheList) SlabNode (kh_links st1) ({..<CACHES} \<times> UNIV) ?F"
      using kl.family_add [OF hd(1) _ fresh, of "(i, False)"] i F st1 by simp
    show "slab_pages R (kh_buddy st1) = (\<Union>l<CACHES. \<Union>g. set (?F (l, g)))"
    proof (rule set_eqI)
      fix q
      have "q \<in> slab_pages R (kh_buddy st1) \<longleftrightarrow> q = p \<or> (\<exists>l<CACHES. \<exists>g. q \<in> set (F (l, g)))"
        unfolding b sp(1) hd(4) by auto
      also have "\<dots> \<longleftrightarrow> (\<exists>l<CACHES. \<exists>g. q \<in> set (?F (l, g)))"
      proof -
        have e: "q \<in> set (?F y) \<longleftrightarrow> (y = (i, False) \<and> q = p) \<or> q \<in> set (F y)" for y using F by simp
        show ?thesis unfolding e using i by blast
      qed
      finally show "q \<in> slab_pages R (kh_buddy st1) \<longleftrightarrow> q \<in> (\<Union>l<CACHES. \<Union>g. set (?F (l, g)))"
        unfolding UN_iff Bex_def lessThan_iff by simp
    qed
    fix l g q assume l: "l < CACHES" and q: "q \<in> set (?F (l, g))"
    have "slab_ok R st1 l g q \<and> (q \<in> {p} \<or> used (kh_slabs st1 q) \<noteq> {})"
    proof (cases "(l, g) = (i, False)")
      case True
      then have qp: "q = p" using q by simp
      have "0 < class_total (i + 5)" by (rule class_facts(1)) (use i in \<open>simp_all add: CACHES_def\<close>)
      then have "slab_ok R st1 i False p"
        using u us d(3,5) c b st1 by (simp add: slab_ok_def)
      then show ?thesis using True qp by simp
    next
      case False
      then have qF: "q \<in> set (F (l, g))" using q by auto
      then have qp: "q \<noteq> p" using fresh [of "(l, g)"] l by auto
      note ok = hd(2) [OF l qF]
      have lv: "(q, class_order (l + 5)) \<in> live_blocks R (kh_buddy st)" by (rule slab_okD(1) [OF ok])
      have "slab_ok R st1 l g q"
        by (rule slab_ok_transfer [OF ok]) (use lv d(3,6) qp b st1 in \<open>auto simp: keeps_live_def\<close>)
      moreover have "used (kh_slabs st1 q) \<noteq> {}" using hd(3) [OF l qF] qp st1 by simp
      ultimately show ?thesis by blast
    qed
    then show "slab_ok R st1 l g q" "q \<in> {p} \<or> used (kh_slabs st1 q) \<noteq> {}" by blast+
  qed
qed


section \<open>Objects\<close>

lemma heap_invD:
  assumes "heap_inv R k roots st"
  shows "pt_inv R k roots (kh_vm st)" "\<exists>F. heap_lists R st {} F"
    "\<And>p l. (p, l) \<in> live_blocks R (kh_buddy st) \<Longrightarrow> pf_state (frame_metadata (kh_buddy st) p) = PAGE_SLAB \<Longrightarrow>
       table_pages (kh_vm st) roots \<inter> {p ..< p + 2 ^ l} = {}"
  using assms unfolding heap_inv_def by blast+

text \<open>The size class of a slab, read from its header.\<close>

definition slab_class :: "kheap \<Rightarrow> nat \<Rightarrow> nat" where "slab_class st p = unat (slab_order (kh_slabs st p))"

lemma slab_listed:
  assumes hl: "heap_lists R st E F" and p: "p \<in> slab_pages R (kh_buddy st)"
  obtains i f where "i < CACHES" "p \<in> set (F (i, f))" "slab_ok R st i f p" "slab_class st p = i + 5"
proof -
  obtain i f where i: "i < CACHES" "p \<in> set (F (i, f))" using heap_listsD(4) [OF hl] p by blast
  have ok: "slab_ok R st i f p" by (rule heap_listsD(2) [OF hl i])
  show thesis by (rule that [OF i ok]) (use slab_okD(3) [OF ok] in \<open>simp add: slab_class_def\<close>)
qed

lemma object_facts:
  assumes inv: "heap_inv R k roots st" and o: "(p, j) \<in> objects R st"
  shows "5 \<le> slab_class st p" "slab_class st p \<le> 11" "j < class_total (slab_class st p)"
    "(p, class_order (slab_class st p)) \<in> live_blocks R (kh_buddy st)"
proof -
  obtain F where F: "heap_lists R st {} F" using heap_invD(2) [OF inv] by blast
  have p: "p \<in> slab_pages R (kh_buddy st)" and j: "j \<in> used (kh_slabs st p)" using o by (simp_all add: objects_def)
  obtain i f where i: "i < CACHES" "slab_ok R st i f p" "slab_class st p = i + 5"
    by (rule slab_listed [OF F p]) blast
  show "5 \<le> slab_class st p" "slab_class st p \<le> 11" "j < class_total (slab_class st p)"
    "(p, class_order (slab_class st p)) \<in> live_blocks R (kh_buddy st)"
    using i j slab_okD(1,4) [OF i(2)] by (simp_all add: CACHES_def used_def)
qed

text \<open>The addresses of an object, and that two objects share none.\<close>

definition object_range :: "kheap \<Rightarrow> nat \<times> nat \<Rightarrow> nat set" where
  "object_range st = (\<lambda>(p, j). let a = unat (object_addr p (slab_class st p) j)
     in {a ..< a + 2 ^ slab_class st p})"

lemma object_range_eq:
  assumes inv: "heap_inv R k roots st" and o: "(p, j) \<in> objects R st"
  defines "l \<equiv> slab_class st p"
  defines "a \<equiv> unat VIRT_BASE + p * 4096 + class_hdr l + j * 2 ^ l"
  shows "object_range st (p, j) = {a ..< a + 2 ^ l}"
    "object_range st (p, j) \<subseteq> {unat VIRT_BASE + p * 4096 ..< unat VIRT_BASE + (p + 2 ^ class_order l) * 4096}"
proof -
  note f = object_facts [OF inv o, folded l_def]
  have np: "p + 2 ^ class_order l \<le> NPAGES"
    using live_blocks_bounds(2) [OF _ f(4)] pt_invD(1) [OF heap_invD(1) [OF inv]] by (simp add: buddy_ok_def)
  have ins: "class_hdr l + j * 2 ^ l + 2 ^ l \<le> 4096 * 2 ^ class_order l" by (rule object_inside [OF f(1-3)])
  have "(2::nat) ^ class_order l \<le> 2 ^ 2" using class_facts(6) [OF f(1,2)] by (intro power_increasing) auto
  then have "p * 4096 + class_hdr l + j * 2 ^ l < 2 ^ 31" using ins np by (simp add: NPAGES_def)
  then have "unat (object_addr p l j) = a"
    unfolding object_addr_kva [OF f(1,2)] a_def by (subst unat_kva) simp_all
  then show eq: "object_range st (p, j) = {a ..< a + 2 ^ l}" by (simp add: object_range_def l_def Let_def)
  show "object_range st (p, j) \<subseteq> {unat VIRT_BASE + p * 4096 ..< unat VIRT_BASE + (p + 2 ^ class_order l) * 4096}"
    unfolding eq a_def using ins by (auto simp: algebra_simps)
qed

lemma objects_disjoint:
  assumes inv: "heap_inv R k roots st" and o: "x \<in> objects R st" "y \<in> objects R st" and ne: "x \<noteq> y"
  shows "object_range st x \<inter> object_range st y = {}"
proof -
  obtain p j q i where xy: "x = (p, j)" "y = (q, i)" by (cases x; cases y) blast
  note ox = o(1) [unfolded xy] and oy = o(2) [unfolded xy]
  show ?thesis
  proof (cases "p = q")
    case True
    then have "j \<noteq> i" using ne xy by simp
    then consider "j < i" | "i < j" by linarith
    then show ?thesis
    proof cases
      case 1
      then have "Suc j * 2 ^ slab_class st p \<le> i * 2 ^ slab_class st p" by (intro mult_right_mono) auto
      then show ?thesis unfolding xy True
        unfolding object_range_eq(1) [OF inv ox [unfolded True]] object_range_eq(1) [OF inv oy] using True by auto
    next
      case 2
      then have "Suc i * 2 ^ slab_class st p \<le> j * 2 ^ slab_class st p" by (intro mult_right_mono) auto
      then show ?thesis unfolding xy True
        unfolding object_range_eq(1) [OF inv ox [unfolded True]] object_range_eq(1) [OF inv oy] using True by auto
    qed
  next
    case False
    note lp = object_facts(4) [OF inv ox] and lq = object_facts(4) [OF inv oy]
    have wf: "buddy_wf R (kh_buddy st)" using pt_invD(1) [OF heap_invD(1) [OF inv]] by (simp add: buddy_ok_def)
    let ?k = "class_order (slab_class st p)" and ?l = "class_order (slab_class st q)"
    have "{p ..< p + 2 ^ ?k} \<inter> {q ..< q + 2 ^ ?l} = {}"
      by (rule live_blocks_disjoint [OF wf lp lq]) (use False in simp)
    then have "p + 2 ^ ?k \<le> q \<or> q + 2 ^ ?l \<le> p" using False by (auto simp: disjoint_iff)
    then have "(p + 2 ^ ?k) * 4096 \<le> q * 4096 \<or> (q + 2 ^ ?l) * 4096 \<le> p * 4096" by (auto simp del: mult_le_cancel2)
    then show ?thesis
      using object_range_eq(2) [OF inv ox] object_range_eq(2) [OF inv oy] unfolding xy by fastforce
  qed
qed


section \<open>Allocation\<close>

text \<open>What a successful \<open>kmalloc\<close> of a small object does.\<close>

definition took_object :: "nat \<Rightarrow> u64 \<Rightarrow> u64 set \<Rightarrow> nat \<Rightarrow> kheap \<Rightarrow> nat \<Rightarrow> nat \<Rightarrow> kheap \<Rightarrow> bool" where
  "took_object R k roots l st p j st' \<longleftrightarrow> heap_inv R k roots st' \<and> (p, j) \<notin> objects R st \<and>
     objects R st' = insert (p, j) (objects R st) \<and> slab_class st' p = l \<and>
     (\<forall>q\<in>slab_pages R (kh_buddy st). slab_class st' q = slab_class st q)"

text \<open>Taking an object keeps the tables apart from the slabs.\<close>

lemma take_from_cache_inv:
  assumes pt: "pt_inv R k roots (kh_vm s)" and hl: "heap_lists R s E F" and E: "E \<subseteq> {p}"
    and i: "i < CACHES" and F: "F (i, False) = p # ps"
    and ap: "\<And>q l. (q, l) \<in> live_blocks R (kh_buddy s) \<Longrightarrow> pf_state (frame_metadata (kh_buddy s) q) = PAGE_SLAB \<Longrightarrow>
       table_pages (kh_vm s) roots \<inter> {q ..< q + 2 ^ l} = {}"
  shows "\<exists>j st'. take_from_cache i s = Inr (object_addr p (i + 5) j, st') \<and>
    took_object R k roots (i + 5) s p j st'"
proof -
  obtain j st' F' where t: "take_from_cache i s = Inr (object_addr p (i + 5) j, st')"
    "heap_lists R st' (E - {p}) F'" "j < class_total (i + 5)" "j \<notin> used (kh_slabs s p)"
    "used (kh_slabs st' p) = insert j (used (kh_slabs s p))"
    "slab_order (kh_slabs st' p) = slab_order (kh_slabs s p)" "slab_changed p s st'"
    using take_object [OF hl i F] by blast
  have vm: "kh_vm st' = kh_vm s" and oth: "\<And>q. q \<noteq> p \<Longrightarrow> kh_slabs st' q = kh_slabs s q"
    using slab_changedD [OF t(7)] by blast+
  have pF: "p \<in> set (F (i, False))" using F by simp
  have pp: "p \<in> slab_pages R (kh_buddy s)" using heap_listsD(4) [OF hl] i pF by blast
  have "slab_ok R s i False p" by (rule heap_listsD(2) [OF hl i pF])
  then have cp: "slab_class s p = i + 5" by (simp add: slab_class_def slab_okD(3))
  have cl: "slab_class st' q = slab_class s q" for q
    using oth [of q] t(6) by (cases "q = p") (simp_all add: slab_class_def)
  have "heap_lists R st' {} F'" using t(2) E by (simp add: Diff_eq_empty_iff [THEN iffD2])
  then have "heap_inv R k roots st'" unfolding heap_inv_def vm using pt ap by blast
  moreover have "(p, j) \<notin> objects R s" using t(4) by (simp add: objects_def)
  moreover have "objects R st' = insert (p, j) (objects R s)"
  proof (rule pair_set_eqI)
    fix q m
    show "(q, m) \<in> objects R st' \<longleftrightarrow> (q, m) \<in> insert (p, j) (objects R s)"
      using pp t(5) oth [of q] vm by (cases "q = p") (auto simp: objects_def)
  qed
  ultimately have "took_object R k roots (i + 5) s p j st'" unfolding took_object_def using cl cp by simp
  then show ?thesis using t(1) by blast
qed

text \<open>A partial slab of the class is there, or a block for a new one.\<close>

definition has_object :: "nat \<Rightarrow> nat \<Rightarrow> kheap \<Rightarrow> bool" where
  "has_object R l st \<longleftrightarrow> has_block R (class_order l) (kh_buddy st) \<or>
     (\<exists>p\<in>slab_pages R (kh_buddy st). slab_class st p = l \<and> card (used (kh_slabs st p)) < class_total l)"

lemma partial_iff:
  assumes hl: "heap_lists R st {} F" and i: "i < CACHES"
  shows "F (i, False) \<noteq> [] \<longleftrightarrow>
    (\<exists>p\<in>slab_pages R (kh_buddy st). slab_class st p = i + 5 \<and> card (used (kh_slabs st p)) < class_total (i + 5))"
proof
  assume "F (i, False) \<noteq> []"
  then obtain p where p: "p \<in> set (F (i, False))" by (cases "F (i, False)") auto
  have ok: "slab_ok R st i False p" by (rule heap_listsD(2) [OF hl i p])
  have "p \<in> slab_pages R (kh_buddy st)" using heap_listsD(4) [OF hl] i p by blast
  moreover have "card (used (kh_slabs st p)) < class_total (i + 5)"
    using slab_okD(6) [OF ok] inuse_less(1) [OF ok i] by simp
  ultimately show "\<exists>p\<in>slab_pages R (kh_buddy st). slab_class st p = i + 5 \<and> card (used (kh_slabs st p)) < class_total (i + 5)"
    using slab_okD(3) [OF ok] unfolding slab_class_def by blast
next
  assume "\<exists>p\<in>slab_pages R (kh_buddy st). slab_class st p = i + 5 \<and> card (used (kh_slabs st p)) < class_total (i + 5)"
  then obtain p where p: "p \<in> slab_pages R (kh_buddy st)" "slab_class st p = i + 5"
    "card (used (kh_slabs st p)) < class_total (i + 5)" by blast
  obtain l f where l: "p \<in> set (F (l, f))" "slab_ok R st l f p" "slab_class st p = l + 5"
    by (rule slab_listed [OF hl p(1)]) blast
  have "l = i" using l(3) p(2) by simp
  moreover have "\<not> f" using slab_okD(6) [OF l(2)] p(3) calculation by simp
  ultimately show "F (i, False) \<noteq> []" using l(1) by auto
qed

lemma kmalloc_small_spec:
  assumes inv: "heap_inv R k roots st" and i: "i < CACHES" and c: "i = 0 \<Longrightarrow> clean_pages R st"
  shows "if has_object R (i + 5) st
    then \<exists>p j st'. kmalloc_small (i + 5) (2 ^ (i + 5)) st = Inr (object_addr p (i + 5) j, st') \<and>
      took_object R k roots (i + 5) st p j st'
    else kmalloc_small (i + 5) (2 ^ (i + 5)) st = Inl WildAccess"
proof -
  obtain F where F: "heap_lists R st {} F" using heap_invD(2) [OF inv] by blast
  note pt = heap_invD(1) [OF inv]
  have l: "5 \<le> i + 5" "i + 5 \<le> 11" using i by (simp_all add: CACHES_def)
  have em: "list_empty (CacheList i False) (kh_links st) \<longleftrightarrow> F (i, False) = []"
    using kl.family_empty [OF heap_listsD(1) [OF F], of "(i, False)"] i by simp
  show ?thesis
  proof (cases "F (i, False)")
    case (Cons p ps)
    then have ho: "has_object R (i + 5) st" using partial_iff [OF F i] unfolding has_object_def by simp
    have "kmalloc_small (i + 5) (2 ^ (i + 5)) st = take_from_cache i st"
      using em Cons by (simp add: kmalloc_small_def)
    then show ?thesis unfolding if_P [OF ho]
      using take_from_cache_inv [OF pt F _ i Cons heap_invD(3) [OF inv]] by auto
  next
    case Nil
    then have ho: "has_object R (i + 5) st \<longleftrightarrow> has_block R (class_order (i + 5)) (kh_buddy st)"
      using partial_iff [OF F i] unfolding has_object_def by blast
    have km: "kmalloc_small (i + 5) (2 ^ (i + 5)) st = bindR (new_slab (i + 5) (2 ^ (i + 5)) st) (take_from_cache i)"
      using em Nil by (simp add: kmalloc_small_def)
    note sa = slab_alloc_spec [OF pt l]
    show ?thesis
    proof (cases "has_block R (class_order (i + 5)) (kh_buddy st)")
      case False
      then have "slab_alloc (class_order (i + 5)) st = Inl WildAccess" using sa by (simp only: if_False)
      then have "kmalloc_small (i + 5) (2 ^ (i + 5)) st = Inl WildAccess" unfolding km new_slab_eq by simp
      then show ?thesis unfolding ho if_not_P [OF False] .
    next
      case True
      then obtain p b where p: "slab_alloc (class_order (i + 5)) st = Inr (page_addr p, st\<lparr>kh_vm := (kh_vm st)\<lparr>vm_buddy := b\<rparr>\<rparr>)"
        and nb: "new_block R (class_order (i + 5)) p (kh_buddy st) b"
        and pt': "pt_inv R k roots ((kh_vm st)\<lparr>vm_buddy := b\<rparr>)" using sa by (simp only: if_True) blast
      note d = new_blockD [OF nb] and sp = new_block_slab_pages [OF nb]
      define s where "s = set_kh_links (list_add (SlabNode p) (CacheList i False))
        (set_slab p (init_slab (i + 5)) (st\<lparr>kh_vm := (kh_vm st)\<lparr>vm_buddy := b\<rparr>\<rparr>))"
      have ns: "new_slab (i + 5) (2 ^ (i + 5)) st = Inr s"
        unfolding new_slab_eq p using d(1) by (simp add: s_def)
      have cl: "i = 0 \<Longrightarrow> clean_tail (kh_slabs st p)" using c sp(2) unfolding clean_pages_def by blast
      note nl = new_slab_lists [OF F i Nil nb cl s_def]
      have vm: "kh_vm s = (kh_vm st)\<lparr>vm_buddy := b\<rparr>" by (simp add: s_def)
      have ap: "table_pages (kh_vm s) roots \<inter> {q ..< q + 2 ^ m} = {}"
        if q: "(q, m) \<in> live_blocks R (kh_buddy s)" "pf_state (frame_metadata (kh_buddy s) q) = PAGE_SLAB" for q m
      proof (cases "(q, m) = (p, class_order (i + 5))")
        case True
        then show ?thesis using d(7) table_pages_owned [OF pt] vm by fastforce
      next
        case False
        then have q': "(q, m) \<in> live_blocks R (kh_buddy st)" using q(1) d(3) vm by auto
        then have "frame_metadata b q = frame_metadata (kh_buddy st) q" using d(6) unfolding keeps_live_def by blast
        then show ?thesis using heap_invD(3) [OF inv q'] q(2) vm by simp
      qed
      obtain j st' where t: "take_from_cache i s = Inr (object_addr p (i + 5) j, st')"
        "took_object R k roots (i + 5) s p j st'"
        using take_from_cache_inv [OF _ nl(1) _ i _ ap, of k p "[]"] pt' vm by auto
      have ob: "objects R s = objects R st"
      proof (rule pair_set_eqI)
        fix q m
        show "(q, m) \<in> objects R s \<longleftrightarrow> (q, m) \<in> objects R st"
          using nl(2) sp vm by (cases "q = p") (auto simp: objects_def s_def)
      qed
      have "slab_class s q = slab_class st q" if "q \<in> slab_pages R (kh_buddy st)" for q
        using that sp(2) by (cases "q = p") (auto simp: slab_class_def s_def)
      then have "took_object R k roots (i + 5) st p j st'"
        using t(2) ob sp(1) vm unfolding took_object_def by simp
      moreover have "kmalloc_small (i + 5) (2 ^ (i + 5)) st = Inr (object_addr p (i + 5) j, st')"
        unfolding km ns using t(1) by simp
      ultimately show ?thesis unfolding ho if_P [OF True] by blast
    qed
  qed
qed


section \<open>Release\<close>

text \<open>The header update of \<open>slab_free\<close>.\<close>

definition drop_object :: "nat \<Rightarrow> slab \<Rightarrow> slab" where
  "drop_object j s = (put_bit j False s)\<lparr>slab_inuse := slab_inuse s - 1\<rparr>"

lemma used_drop_object:
  assumes "j \<in> used s" and "unat (slab_inuse s) = card (used s)"
  shows "used (drop_object j s) = used s - {j}" "slab_total (drop_object j s) = slab_total s"
    "slab_order (drop_object j s) = slab_order s"
    "unat (slab_inuse (drop_object j s)) = card (used (drop_object j s))"
proof -
  have j: "j < unat (slab_total s)" using assms(1) by (simp add: used_def)
  show u: "used (drop_object j s) = used s - {j}"
    using used_put_bit [OF j, of False] by (simp add: used_def drop_object_def)
  show "slab_total (drop_object j s) = slab_total s" "slab_order (drop_object j s) = slab_order s"
    by (simp_all add: drop_object_def)
  have "0 < card (used s)" using assms(1) by (auto simp: card_gt_0_iff)
  then have "1 \<le> slab_inuse s" using assms(2) by (simp add: word_le_nat_alt)
  then have "unat (slab_inuse s - 1) = card (used s) - 1" using assms(2) by (simp add: unat_sub)
  then show "unat (slab_inuse (drop_object j s)) = card (used (drop_object j s))"
    unfolding u using assms(1) by (simp add: drop_object_def)
qed

text \<open>The lists after the header update, before an empty slab is given back.\<close>

definition after_drop :: "nat \<Rightarrow> nat \<Rightarrow> kheap \<Rightarrow> kheap" where
  "after_drop p j st =
     (let s = kh_slabs st p
      in set_kh_links (\<lambda>L. if slab_inuse s = slab_total s
             then list_add (SlabNode p) (CacheList (unat (slab_order s) - 5) False) (list_remove (SlabNode p) L) else L)
           (set_slab p (drop_object j) st))"

lemma after_drop_sel [simp]:
  "kh_vm (after_drop p j st) = kh_vm st" "kh_slabs (after_drop p j st) p = drop_object j (kh_slabs st p)"
  "q \<noteq> p \<Longrightarrow> kh_slabs (after_drop p j st) q = kh_slabs st q"
  by (simp_all add: after_drop_def Let_def)

lemma after_drop_lists:
  assumes hl: "heap_lists R st {} F" and i: "i < CACHES" and p: "p \<in> set (F (i, f))" and j: "j \<in> used (kh_slabs st p)"
  shows "\<exists>F'. heap_lists R (after_drop p j st) {p} F' \<and> p \<in> set (F' (i, False))"
proof -
  note hd = heap_listsD [OF hl]
  have ok: "slab_ok R st i f p" by (rule hd(2) [OF i p])
  note so = slab_okD [OF ok] and u = used_drop_object [OF j slab_okD(5) [OF ok]]
  have full: "slab_inuse (kh_slabs st p) = slab_total (kh_slabs st p) \<longleftrightarrow> f"
    using so(4-6) by (simp add: word_unat_eq_iff)
  have "card (used (kh_slabs st p) - {j}) < card (used (kh_slabs st p))"
    using j by (intro psubset_card_mono) auto
  then have "card (used (drop_object j (kh_slabs st p))) \<noteq> class_total (i + 5)"
    using inuse_less(1) [OF ok i] unfolding u(1) by simp
  then have okp: "slab_ok R (after_drop p j st) i False p"
    using so u(2-4) by (simp add: slab_ok_def)
  have ch: "slab_changed p st (after_drop p j st)" by (simp add: slab_changed_def)
  show ?thesis
  proof (cases f)
    case True
    have lk: "kh_links (after_drop p j st) = list_add (SlabNode p) (CacheList i (\<not> f)) (list_remove (SlabNode p) (kh_links st))"
      using full True so(3) by (simp add: after_drop_def Let_def)
    have "heap_lists R (after_drop p j st) {p} (F((i, f) := remove1 p (F (i, f)), (i, \<not> f) := p # F (i, \<not> f)))"
      by (rule heap_lists_move [OF hl i p ch _ lk]) (use okp True in auto)
    then show ?thesis using True by (intro exI conjI) auto
  next
    case False
    have "kh_links (after_drop p j st) = kh_links st" using full False by (simp add: after_drop_def Let_def)
    then have "heap_lists R (after_drop p j st) {p} F"
      by (rule heap_lists_stay [OF hl i p ch]) (use okp False in auto)
    then show ?thesis using p False by auto
  qed
qed

text \<open>\<open>slab_free\<close> on the address of an object in use.\<close>

definition give_back :: "nat \<Rightarrow> kheap \<Rightarrow> kheap result" where
  "give_back p st =
     bindR (buddy_free (page_addr p) (vm_buddy (kh_vm st))) (\<lambda>b.
       Inr ((set_kh_links (list_remove (SlabNode p)) st)\<lparr>kh_vm := (kh_vm st)\<lparr>vm_buddy := b\<rparr>\<rparr>))"

lemma slab_free_object:
  assumes inv: "heap_inv R k roots st" and o: "(p, j) \<in> objects R st"
  shows "kfree (object_addr p (slab_class st p) j) st =
    (let s = after_drop p j st in if used (kh_slabs s p) = {} then give_back p s else Inr s)"
proof -
  obtain F where F: "heap_lists R st {} F" using heap_invD(2) [OF inv] by blast
  have p: "p \<in> slab_pages R (kh_buddy st)" and j: "j \<in> used (kh_slabs st p)" using o by (simp_all add: objects_def)
  obtain i f where i: "i < CACHES" "p \<in> set (F (i, f))" "slab_ok R st i f p" "slab_class st p = i + 5"
    by (rule slab_listed [OF F p])
  note fa = object_facts [OF inv o] and so = slab_okD [OF i(3)]
  let ?l = "slab_class st p" and ?s = "kh_slabs st p" and ?b = "kh_buddy st"
  let ?a = "object_addr p ?l j"
  have ok: "buddy_ok R ?b" using pt_invD(1) [OF heap_invD(1) [OF inv]] .
  have np: "p + 2 ^ class_order ?l \<le> NPAGES"
    using live_blocks_bounds(2) [OF _ fa(4)] ok by (simp add: buddy_ok_def)
  obtain q where q: "ALIGN_DOWN ?a 0x1000 = page_addr q" "p \<le> q" "q < p + 2 ^ class_order ?l" "q < NPAGES"
    using object_page [OF fa(1-3) np] by blast
  have pq: "pfn_of (page_addr q) = q" using q(4) by simp
  have ow: "owner_pfn (page_addr q) ?b = Inr p" "head_from_page (page_addr q) ?b = Inr (page_addr p)"
    using owner_pfn_live [OF ok fa(4)] q pq by simp_all
  have pN: "p < NPAGES" using q by simp
  have sl: "unat (slab_order ?s) = ?l" by (simp add: slab_class_def)
  have jn: "j < 128" using fa(3) class_facts(2) [OF fa(1,2)] by simp
  have bt: "bit (slab_bitmap ?s (j div 8)) (j mod 8)" using j by (simp add: used_def in_use_def)
  have un: "slab_inuse (drop_object j ?s) = 0 \<longleftrightarrow> used (drop_object j ?s) = {}"
    using used_drop_object(4) [OF j so(5)] by (simp add: word_unat_eq_iff)
  have "?a \<noteq> 0"
  proof
    assume "?a = 0"
    then have "page_addr q = 0" using q(1) by (simp add: ALIGN_DOWN_def)
    then show False using page_addr_not_0 [OF q(4)] by simp
  qed
  have off: "unat ((?a - page_addr p) div 2 ^ ?l - ALIGN_UP sizeof_slab (2 ^ ?l) div 2 ^ ?l) = j"
    by (rule object_offset [OF fa(1-3)])
  have tp: "to_partial p ?l (slab_inuse ?s = slab_total ?s) (set_slab p (put_bit j False) st) =
    Inr (set_kh_links (\<lambda>L. if slab_inuse ?s = slab_total ?s
             then list_add (SlabNode p) (CacheList (?l - 5) False) (list_remove (SlabNode p) L) else L)
          (set_slab p (put_bit j False) st))"
    using fa(1,2) by (auto simp: to_partial_def CACHES_def set_kh_links_def)
  have ad: "set_slab p (\<lambda>s. s\<lparr>slab_inuse := slab_inuse s - 1\<rparr>)
      (set_kh_links (\<lambda>L. if slab_inuse ?s = slab_total ?s
             then list_add (SlabNode p) (CacheList (?l - 5) False) (list_remove (SlabNode p) L) else L)
          (set_slab p (put_bit j False) st)) = after_drop p j st"
    by (simp add: after_drop_def Let_def set_slab_def set_kh_links_def drop_object_def sl)
  have pf: "pfn_of (page_addr p) = p" using pN by simp
  have "slab_free ?a st = (let s = after_drop p j st in if used (kh_slabs s p) = {} then give_back p s else Inr s)"
    unfolding slab_free_def q(1) ow(2) bindR_simps Let_def pf sl off tp ad
    using page_addr_not_0 [OF pN] fa(2) jn bt un
    by (simp add: give_back_def)
  moreover have "get_page_owner (page_addr q) ?b = Inr PAGE_SLAB"
    using ow(1) so(2) by (simp add: get_page_owner_def)
  ultimately show ?thesis using \<open>?a \<noteq> 0\<close> q(1) by (simp add: kfree_def Let_def)
qed


text \<open>Giving an empty slab back.\<close>

lemma heap_lists_give_back:
  assumes hl: "heap_lists R st {p} F" and i: "i < CACHES" and p: "p \<in> set (F (i, f))"
    and lv: "live_blocks R b = {x \<in> live_blocks R (kh_buddy st). fst x \<noteq> p}"
    and fr0: "\<forall>q l. (q, l) \<in> live_blocks R b \<longrightarrow> frame_metadata b q = frame_metadata (kh_buddy st) q"
    and s: "s = (set_kh_links (list_remove (SlabNode p)) st)\<lparr>kh_vm := (kh_vm st)\<lparr>vm_buddy := b\<rparr>\<rparr>"
  shows "heap_lists R s {} (F((i, f) := remove1 p (F (i, f))))" "slab_pages R b = slab_pages R (kh_buddy st) - {p}"
proof -
  note hd = heap_listsD [OF hl]
  have fr: "\<And>q l. (q, l) \<in> live_blocks R b \<Longrightarrow> frame_metadata b q = frame_metadata (kh_buddy st) q"
    using fr0 by blast
  have kb: "kh_buddy s = b" "kh_slabs s = kh_slabs st" using s by simp_all
  have lq: "(q, l) \<in> live_blocks R b \<longleftrightarrow> (q, l) \<in> live_blocks R (kh_buddy st) \<and> q \<noteq> p" for q l using lv by simp
  show sp: "slab_pages R b = slab_pages R (kh_buddy st) - {p}"
    using lq fr unfolding slab_pages_def set_eq_iff by (auto; metis)
  let ?F = "F((i, f) := remove1 p (F (i, f)))"
  have dis: "distinct (F (i, f))" using kl.family_distinct [OF hd(1), of "(i, f)"] i by simp
  have mem: "q \<in> set (?F (l, g)) \<longleftrightarrow> q \<in> set (F (l, g)) \<and> q \<noteq> p" if l: "l < CACHES" for q l g
  proof (cases "(l, g) = (i, f)")
    case True
    then show ?thesis using dis by simp
  next
    case False
    then have "p \<notin> set (F (l, g))" using listed_once [OF hl l i _ p, of g] by auto
    then show ?thesis using False by auto
  qed
  show "heap_lists R s {} ?F"
    unfolding heap_lists_def
  proof (intro conjI allI impI ballI)
    show "lists_of (case_prod CacheList) SlabNode (kh_links s) ({..<CACHES} \<times> UNIV) ?F"
      using kl.family_remove(1) [OF hd(1), of "(i, f)" p] i p s by simp
    have "q \<in> slab_pages R b \<longleftrightarrow> (\<exists>l<CACHES. \<exists>g. q \<in> set (?F (l, g)))" for q
      unfolding sp hd(4) using mem by (simp del: fun_upd_apply add: Bex_def) blast
    then show "slab_pages R (kh_buddy s) = (\<Union>l<CACHES. \<Union>g. set (?F (l, g)))"
      unfolding kb(1) set_eq_iff UN_iff Bex_def lessThan_iff by simp
    fix l g q assume l: "l < CACHES" and "q \<in> set (?F (l, g))"
    then have q: "q \<in> set (F (l, g))" "q \<noteq> p" unfolding mem [OF l] by blast+
    have ok: "slab_ok R st l g q" by (rule hd(2) [OF l q(1)])
    have lvq: "(q, class_order (l + 5)) \<in> live_blocks R b" using slab_okD(1) [OF ok] lq q(2) by blast
    show "slab_ok R s l g q"
      by (rule slab_ok_transfer [OF ok]) (use lvq fr [OF lvq] kb in simp_all)
    show "q \<in> {} \<or> used (kh_slabs s q) \<noteq> {}" using hd(3) [OF l q(1)] q(2) kb by simp
  qed
qed

definition dropped_object :: "nat \<Rightarrow> u64 \<Rightarrow> u64 set \<Rightarrow> kheap \<Rightarrow> nat \<Rightarrow> nat \<Rightarrow> kheap \<Rightarrow> bool" where
  "dropped_object R k roots st p j st' \<longleftrightarrow> heap_inv R k roots st' \<and> objects R st' = objects R st - {(p, j)} \<and>
     slab_pages R (kh_buddy st') = {q \<in> slab_pages R (kh_buddy st). q \<noteq> p \<or> used (kh_slabs st p) \<noteq> {j}} \<and>
     (\<forall>q. slab_class st' q = slab_class st q)"

lemma kfree_object:
  assumes inv: "heap_inv R k roots st" and o: "(p, j) \<in> objects R st"
  shows "\<exists>st'. kfree (object_addr p (slab_class st p) j) st = Inr st' \<and> dropped_object R k roots st p j st'"
proof -
  obtain F where F: "heap_lists R st {} F" using heap_invD(2) [OF inv] by blast
  have p: "p \<in> slab_pages R (kh_buddy st)" and j: "j \<in> used (kh_slabs st p)" using o by (simp_all add: objects_def)
  obtain i f where i: "i < CACHES" "p \<in> set (F (i, f))" "slab_ok R st i f p"
    by (rule slab_listed [OF F p])
  let ?s = "after_drop p j st"
  note u = used_drop_object [OF j slab_okD(5) [OF i(3)]] and pt = heap_invD(1) [OF inv]
  have ok: "buddy_ok R (kh_buddy st)" by (rule pt_invD(1) [OF pt])
  have us: "used (kh_slabs ?s p) = used (kh_slabs st p) - {j}" using u(1) by simp
  obtain F' where F': "heap_lists R ?s {p} F'" "p \<in> set (F' (i, False))"
    using after_drop_lists [OF F i(1,2) j] by blast
  have ob: "objects R ?s = objects R st - {(p, j)}"
  proof (rule pair_set_eqI)
    fix q m show "(q, m) \<in> objects R ?s \<longleftrightarrow> (q, m) \<in> objects R st - {(p, j)}"
      using us by (cases "q = p") (auto simp: objects_def)
  qed
  have cl: "slab_class ?s q = slab_class st q" for q using u(3) by (cases "q = p") (simp_all add: slab_class_def)
  have one: "used (kh_slabs st p) = {j} \<longleftrightarrow> used (kh_slabs ?s p) = {}" using us j by auto
  show ?thesis
  proof (cases "used (kh_slabs ?s p) = {}")
    case False
    then have "heap_lists R ?s {} F'" using F'(1) unfolding heap_lists_def by (metis singletonD)
    then have "heap_inv R k roots ?s" using inv unfolding heap_inv_def by auto
    then have "dropped_object R k roots st p j ?s" using ob cl one False unfolding dropped_object_def by simp
    then show ?thesis using slab_free_object [OF inv o] False by (simp add: Let_def)
  next
    case True
    have pN: "p < NPAGES"
      using live_blocks_bounds(2) [OF _ object_facts(4) [OF inv o]] ok by (simp add: buddy_ok_def)
        (metis add_gr_0 less_le_trans less_add_same_cancel1 zero_less_numeral zero_less_power)
    have pfn: "pfn_of (page_addr p) = p" using pN by simp
    obtain b where b: "buddy_free (page_addr p) (kh_buddy st) = Inr b" "buddy_ok R b"
      "live_blocks R b = {x \<in> live_blocks R (kh_buddy st). fst x \<noteq> p}"
      "\<And>q l. (q, l) \<in> live_blocks R b \<Longrightarrow> frame_metadata b q = frame_metadata (kh_buddy st) q"
      using buddy_free_cases [OF ok, of "page_addr p"] pN unfolding pfn by blast
    define s' where "s' = (set_kh_links (list_remove (SlabNode p)) ?s)\<lparr>kh_vm := (kh_vm ?s)\<lparr>vm_buddy := b\<rparr>\<rparr>"
    have fre: "kfree (object_addr p (slab_class st p) j) st = Inr s'"
      unfolding slab_free_object [OF inv o] Let_def if_P [OF True] using b(1) by (simp add: give_back_def s'_def)
    have lvb: "live_blocks R b = {x \<in> live_blocks R (kh_buddy ?s). fst x \<noteq> p}" using b(3) by simp
    have frb: "\<forall>q l. (q, l) \<in> live_blocks R b \<longrightarrow> frame_metadata b q = frame_metadata (kh_buddy ?s) q"
      unfolding after_drop_sel using b(4) by blast
    note gb = heap_lists_give_back [OF F'(1) i(1) F'(2) lvb frb s'_def]
    have vm: "kh_vm s' = (kh_vm st)\<lparr>vm_buddy := b\<rparr>" "kh_slabs s' = kh_slabs ?s" by (simp_all add: s'_def)
    have tb: "owned R b n" if n: "n \<in> table_pages (kh_vm st) roots" for n
    proof (cases "n < R")
      case False
      then obtain q l where q: "(q, l) \<in> live_blocks R (kh_buddy st)" "q \<le> n" "n < q + 2 ^ l"
        using table_pages_owned [OF pt n] by (auto simp: owned_def)
      have "q \<noteq> p" using heap_invD(3) [OF inv, of p l] slab_okD(2) [OF i(3)] q n by (auto simp: disjoint_iff)
      then have "(q, l) \<in> live_blocks R b" using b(3) q(1) by simp
      then show ?thesis using q unfolding owned_def by blast
    qed (simp add: owned_def)
    have "pt_inv R k roots (kh_vm s')" unfolding vm by (rule pt_inv_buddy [OF pt b(2) tb])
    moreover have "table_pages (kh_vm s') roots \<inter> {q ..< q + 2 ^ l} = {}"
      if "(q, l) \<in> live_blocks R (kh_buddy s')" "pf_state (frame_metadata (kh_buddy s') q) = PAGE_SLAB" for q l
    proof -
      have q: "(q, l) \<in> live_blocks R b" "pf_state (frame_metadata b q) = PAGE_SLAB" using that vm by simp_all
      have "(q, l) \<in> live_blocks R (kh_buddy st)" using q(1) b(3) by simp
      then show ?thesis using heap_invD(3) [OF inv] b(4) [OF q(1)] q(2) vm by simp
    qed
    ultimately have "heap_inv R k roots s'" using gb(1) unfolding heap_inv_def by blast
    moreover have "objects R s' = objects R ?s"
    proof (rule pair_set_eqI)
      fix q m show "(q, m) \<in> objects R s' \<longleftrightarrow> (q, m) \<in> objects R ?s"
        using gb(2) True vm by (cases "q = p") (auto simp: objects_def)
    qed
    moreover have "slab_class s' q = slab_class st q" for q using cl vm(2) by (simp add: slab_class_def)
    ultimately have "dropped_object R k roots st p j s'"
      unfolding dropped_object_def using ob one True gb(2) vm by auto
    then show ?thesis using fre by blast
  qed
qed


section \<open>Initialisation and large requests\<close>

lemma kheap_init_lists:
  "lists_of (case_prod CacheList) SlabNode (kh_links (kheap_init st)) ({..<CACHES} \<times> UNIV) (\<lambda>_. [])"
proof -
  let ?ks = "[(0, True), (0, False), (1, True), (1, False), (2, True), (2, False), (3, True), (3, False),
    (4, True), (4, False), (5, True), (5, False), (6, True), (6, False)] :: (nat \<times> bool) list"
  have u: "[0..<CACHES] = [0, 1, 2, 3, 4, 5, 6]" by (simp add: CACHES_def upt_rec)
  have "kh_links (kheap_init st) = fold (\<lambda>k. INIT_LIST_HEAD (case_prod CacheList k)) ?ks (kh_links st)"
    unfolding kheap_init_def u by simp
  moreover have "set ?ks = {..<CACHES} \<times> UNIV"
    unfolding CACHES_def by (auto simp: lessThan_nat_numeral UNIV_bool)
  ultimately show ?thesis using kl.family_init [of ?ks "kh_links st"] by simp
qed

lemma kheap_init_inv:
  assumes "pt_inv R k roots (kh_vm st)" and "slab_pages R (kh_buddy st) = {}"
  shows "heap_inv R k roots (kheap_init st)" "objects R (kheap_init st) = {}"
proof -
  have vm: "kh_vm (kheap_init st) = kh_vm st" by (simp add: kheap_init_def)
  have "heap_lists R (kheap_init st) {} (\<lambda>_. [])"
    unfolding heap_lists_def vm using kheap_init_lists [of st] assms(2) by simp
  moreover have "pf_state (frame_metadata (kh_buddy st) p) \<noteq> PAGE_SLAB" if "(p, l) \<in> live_blocks R (kh_buddy st)" for p l
    using assms(2) that by (auto simp: slab_pages_def)
  ultimately show "heap_inv R k roots (kheap_init st)" unfolding heap_inv_def vm using assms(1) by blast
  show "objects R (kheap_init st) = {}" using assms(2) vm by (simp add: objects_def)
qed

text \<open>A block mapping of managed memory meets a table and changes nothing either.\<close>

lemma map_block_mapped:
  assumes fo: "forest (vm_mem st) roots" and r: "r \<in> roots" and mapped: "aspace (vm_mem st) r va \<noteq> None"
  shows "map_block alloc va pa flags (table_va r) st = Inr st"
proof -
  let ?m = "vm_mem st"
  let ?i0 = "pt_index 0 va" and ?i1 = "pt_index 1 va" and ?i2 = "pt_index 2 va"
  obtain t3 where t3: "node ?m r [?i0, ?i1, ?i2] = Some t3"
    using mapped by (auto simp: aspace_def leaf_def pt_path_def split: option.splits if_splits)
  then obtain t1 t2 where t1: "node ?m r [?i0] = Some t1" and t2: "node ?m r [?i0, ?i1] = Some t2"
    by (auto split: if_splits)
  have l0: "r < 2 ^ 18" "pte_valid (?m (slot r ?i0))" "t1 = pte_address (?m (slot r ?i0))"
    using node_step [OF fo r, of "[]" r ?i0] t1 by (auto split: if_splits)
  have l1: "t1 < 2 ^ 18" "pte_valid (?m (slot t1 ?i1))" "t2 = pte_address (?m (slot t1 ?i1))"
    using node_step [OF fo r _ _ t1, of ?i1] t2 by (auto split: if_splits)
  have l2: "t2 < 2 ^ 18" "pte_valid (?m (slot t2 ?i2))"
    using node_step [OF fo r _ _ t2, of ?i2] t3 by (auto split: if_splits)
  show ?thesis
    using l0 l1 l2 by (simp add: map_block_def Let_def next_table_valid put_leaf_def rd64_slot)
qed

lemma page_addr_block: "page_addr p + 0x200000 = page_addr (p + 512)"
  by (simp add: page_addr_def pa_to_va_def push_bit_eq_mult algebra_simps)

lemma map_blocks_managed:
  assumes pt: "pt_inv R k roots v"
  shows "R \<le> p \<Longrightarrow> p + n * 512 \<le> NPAGES \<Longrightarrow> map_blocks alloc (page_addr p) pa n flags (table_va k) v = Inr v"
proof (induction n arbitrary: p pa)
  case (Suc n)
  have "aspace (vm_mem v) k (page_addr p) \<noteq> None" using pt_invD(6) [OF pt] Suc.prems by simp
  then have "map_block alloc (page_addr p) pa flags (table_va k) v = Inr v"
    by (rule map_block_mapped [OF pt_invD(2,3) [OF pt]])
  then show ?case using Suc by (simp add: page_addr_block)
qed simp

lemma vm_map_managed_large:
  assumes pt: "pt_inv R k roots v" and p: "R \<le> p" "p + 2 ^ l \<le> NPAGES" and l: "l < 19"
  shows "vm_map (page_addr p) pa l flags (table_va k) v = Inr v"
proof (cases "9 \<le> l \<and> pt_index 3 (page_addr p) = 0")
  case True
  then have "(2::nat) ^ l = 2 ^ (l - 9) * 512" using power_add [of "2::nat" "l - 9" 9] by simp
  then have "map_blocks alloc (page_addr p) pa (2 ^ (l - 9)) flags (table_va k) v = Inr v" for alloc
    using map_blocks_managed [OF pt p(1), of "2 ^ (l - 9)"] p(2) by simp
  then show ?thesis using True l by (simp add: vm_map_def map_with_def)
next
  case False
  show ?thesis unfolding vm_map_def map_with_def if_not_P [OF False] using map_pages_managed [OF pt p] l by simp
qed

text \<open>The lists do not notice a change of blocks that are no slabs.\<close>

lemma heap_inv_buddy:
  assumes inv: "heap_inv R k roots st" and pt: "pt_inv R k roots ((kh_vm st)\<lparr>vm_buddy := b\<rparr>)"
    and lv: "\<And>q l. pf_state (frame_metadata (kh_buddy st) q) = PAGE_SLAB \<Longrightarrow> (q, l) \<in> live_blocks R (kh_buddy st) \<Longrightarrow>
       (q, l) \<in> live_blocks R b \<and> frame_metadata b q = frame_metadata (kh_buddy st) q"
    and nw: "\<And>q l. pf_state (frame_metadata b q) = PAGE_SLAB \<Longrightarrow> (q, l) \<in> live_blocks R b \<Longrightarrow>
       pf_state (frame_metadata (kh_buddy st) q) = PAGE_SLAB \<and> (q, l) \<in> live_blocks R (kh_buddy st)"
  defines "st' \<equiv> st\<lparr>kh_vm := (kh_vm st)\<lparr>vm_buddy := b\<rparr>\<rparr>"
  shows "heap_inv R k roots st'" "objects R st' = objects R st"
proof -
  have sp: "slab_pages R b = slab_pages R (kh_buddy st)"
  proof (rule set_eqI)
    fix p show "p \<in> slab_pages R b \<longleftrightarrow> p \<in> slab_pages R (kh_buddy st)"
      unfolding slab_pages_def mem_Collect_eq using lv [of p] nw [of p] by metis
  qed
  obtain F where F: "heap_lists R st {} F" using heap_invD(2) [OF inv] by blast
  have "heap_lists R st' {} F"
    unfolding heap_lists_def
  proof (intro conjI allI impI ballI)
    show "lists_of (case_prod CacheList) SlabNode (kh_links st') ({..<CACHES} \<times> UNIV) F"
      using heap_listsD(1) [OF F] by (simp add: st'_def)
    show "slab_pages R (kh_buddy st') = (\<Union>i<CACHES. \<Union>f. set (F (i, f)))"
      using heap_listsD(4) [OF F] sp by (simp add: st'_def)
    fix i f p assume p: "i < CACHES" "p \<in> set (F (i, f))"
    note ok = heap_listsD(2) [OF F p] and l = lv [OF slab_okD(2,1) [OF heap_listsD(2) [OF F p]]]
    show "slab_ok R st' i f p" by (rule slab_ok_transfer [OF ok]) (use l in \<open>simp_all add: st'_def\<close>)
    show "p \<in> {} \<or> used (kh_slabs st' p) \<noteq> {}" using heap_listsD(3) [OF F p] by (simp add: st'_def)
  qed
  moreover have "table_pages (kh_vm st') roots \<inter> {q ..< q + 2 ^ l} = {}"
    if "(q, l) \<in> live_blocks R (kh_buddy st')" "pf_state (frame_metadata (kh_buddy st') q) = PAGE_SLAB" for q l
    using that heap_invD(3) [OF inv] nw by (simp add: st'_def)
  moreover have "pt_inv R k roots (kh_vm st')" using pt by (simp add: st'_def)
  ultimately show "heap_inv R k roots st'" unfolding heap_inv_def by blast
  show "objects R st' = objects R st" using sp by (simp add: objects_def st'_def)
qed

lemma order_for_exp: "order_for (2 ^ (n + 12)) n"
proof -
  have "(2::nat) ^ m * 4096 < 2 ^ (n + 12)" if "m < n" for m
  proof -
    have "(2::nat) ^ (m + 12) < 2 ^ (n + 12)" by (rule power_strict_increasing) (use that in auto)
    then show ?thesis by (simp add: power_add)
  qed
  then show ?thesis unfolding order_for_def by (auto simp: power_add)
qed


lemma fits_class_small: "fits_class n l \<Longrightarrow> n \<le> 2048 \<Longrightarrow> l \<le> 11"
proof (rule ccontr)
  assume s: "fits_class n l" "n \<le> 2048" and "\<not> l \<le> 11"
  then have "(2::nat) ^ 11 \<le> 2 ^ (l - 1)" by (intro power_increasing) auto
  with s \<open>\<not> l \<le> 11\<close> show False by (auto simp: fits_class_def)
qed

lemma fits_class_large: "fits_class n l \<Longrightarrow> 2048 < n \<Longrightarrow> 12 \<le> l"
proof (rule ccontr)
  assume s: "fits_class n l" "2048 < n" and "\<not> 12 \<le> l"
  then have "(2::nat) ^ l \<le> 2 ^ 11" by (intro power_increasing) auto
  with s show False by (auto simp: fits_class_def)
qed

lemma fits_class_least: "fits_class n l \<Longrightarrow> 32 < n \<Longrightarrow> 5 < l"
  by (rule ccontr) (auto simp: fits_class_def)

section \<open>A small heap\<close>

text \<open>An empty heap over the memory of the earlier examples.\<close>

definition blank_slab :: slab where
  "blank_slab = \<lparr>slab_bitmap = (\<lambda>_. 0), slab_inuse = 0, slab_total = 0, slab_order = 0\<rparr>"

definition demo_heap :: "slab \<Rightarrow> kheap" where
  "demo_heap s = kheap_init \<lparr>kh_vm = demo_vm, kh_slabs = (\<lambda>_. s), kh_links = \<lparr>lnext = id, lprev = id\<rparr>\<rparr>"

lemma demo_heap_vm [simp]: "kh_vm (demo_heap s) = demo_vm" "kh_slabs (demo_heap s) = (\<lambda>_. s)"
  by (simp_all add: demo_heap_def kheap_init_def)

lemma demo_heap_inv: "heap_inv demo_R 100 {100, 200} (demo_heap s)" "objects demo_R (demo_heap s) = {}"
proof -
  have "slab_pages demo_R demo_buddy = {}" by (simp add: slab_pages_def demo_buddy_ok)
  then show "heap_inv demo_R 100 {100, 200} (demo_heap s)" "objects demo_R (demo_heap s) = {}"
    unfolding demo_heap_def using kheap_init_inv demo_inv by (simp_all add: demo_vm_def)
qed

lemma demo_has_block: "has_block demo_R 0 demo_buddy"
proof -
  have "free_pages demo_R demo_buddy \<noteq> {}" using demo_free by (metis card.empty zero_neq_numeral)
  then show ?thesis using free_page_head [OF demo_buddy_ok(1)] by (auto simp: has_block_def)
qed

lemma demo_has_object: "l \<le> 9 \<Longrightarrow> has_object demo_R l (demo_heap s)"
  using demo_has_block by (simp add: has_object_def class_order_def demo_vm_def)

lemma demo_clean: "clean_pages R (demo_heap blank_slab)"
  by (simp add: clean_pages_def clean_tail_def blank_slab_def)

section \<open>Properties\<close>




lemma demo_kmalloc:
  obtains p j st' where "kmalloc 100 (demo_heap blank_slab) = Inr (object_addr p 7 j, st')"
    "took_object demo_R 100 {100, 200} 7 (demo_heap blank_slab) p j st'"
proof -
  have ho: "has_object demo_R (2 + 5) (demo_heap blank_slab)" by (rule demo_has_object) simp
  have "\<exists>p j st'. kmalloc_small (2 + 5) (2 ^ (2 + 5)) (demo_heap blank_slab) = Inr (object_addr p (2 + 5) j, st') \<and>
      took_object demo_R 100 {100, 200} (2 + 5) (demo_heap blank_slab) p j st'"
    using kmalloc_small_spec [OF demo_heap_inv(1), of 2 blank_slab] ho demo_clean by (simp add: CACHES_def)
  moreover have "kmalloc 100 (demo_heap blank_slab) = kmalloc_small 7 128 (demo_heap blank_slab)"
  proof -
    have ab: "aligned_bytes 100 = 128" by (simp add: aligned_bytes_def max_def bit_length.simps)
    have "log2_loop (2 ^ 7) 0 = Inr 7" by (rule log2_loop_exp) simp_all
    then show ?thesis by (simp add: kmalloc_def ab log2_pow2_def)
  qed
  ultimately show thesis using that by auto
qed



lemma demo_two_objects:
  obtains x y st where "heap_inv demo_R 100 {100, 200} st" "x \<in> objects demo_R st" "y \<in> objects demo_R st" "x \<noteq> y"
proof -
  obtain p j s where s: "took_object demo_R 100 {100, 200} 7 (demo_heap blank_slab) p j s" by (rule demo_kmalloc)
  then have inv: "heap_inv demo_R 100 {100, 200} s" and ob: "objects demo_R s = {(p, j)}" and cl: "slab_class s p = 7"
    using demo_heap_inv(2) by (simp_all add: took_object_def)
  have "p \<in> slab_pages demo_R (kh_buddy s) \<and> used (kh_slabs s p) = {j}" using ob by (auto simp: objects_def)
  moreover have "class_total 7 = 31" by (simp add: class_total_def class_values class_order_def)
  ultimately have "has_object demo_R (2 + 5) s" using cl unfolding has_object_def by auto
  then obtain q m t where "took_object demo_R 100 {100, 200} 7 s q m t"
    using kmalloc_small_spec [OF inv, of 2] by (auto simp: CACHES_def)
  then have "heap_inv demo_R 100 {100, 200} t" "(q, m) \<in> objects demo_R t" "(p, j) \<in> objects demo_R t" "(q, m) \<noteq> (p, j)"
    using ob by (auto simp: took_object_def)
  then show thesis by (rule that)
qed


text \<open>
  Large requests. For 2049 bytes to 1 GiB, \<open>kmalloc\<close> takes the least power-of-two block of
  pages that holds the request whenever the page allocator has one, returns its address, and
  leaves the invariant and all objects of the slabs as they were. A request of more than 1 GiB
  returns NULL and changes nothing.
\<close>

theorem kmalloc_large_correct:
  assumes inv: "heap_inv R k roots st" and lo: "2048 < bytes"
  shows "if 2 ^ 30 < bytes then kmalloc bytes st = Inr (0, st)
    else \<exists>l. fits_class (unat bytes) l \<and> 12 \<le> l \<and> (has_block R (l - 12) (kh_buddy st) \<longrightarrow>
      (\<exists>p st'. kmalloc bytes st = Inr (page_addr p, st') \<and> heap_inv R k roots st' \<and> objects R st' = objects R st \<and>
         live_blocks R (kh_buddy st') = insert (p, l - 12) (live_blocks R (kh_buddy st)) \<and>
         (\<forall>m. (p, m) \<notin> live_blocks R (kh_buddy st))))"
proof (cases "2 ^ 30 < bytes")
  case True
  then show ?thesis by (simp add: kmalloc_def)
next
  case False
  then have "bytes \<le> 2 ^ 30" by (simp only: not_less)
  then obtain l where l: "l \<le> 30" "aligned_bytes bytes = 2 ^ l" "log2_pow2 (aligned_bytes bytes) = Inr l"
    "fits_class (unat bytes) l" using aligned_size_class [of bytes] by blast
  have "2048 < unat bytes" using lo by (simp add: word_less_nat_alt)
  then have l12: "12 \<le> l" by (rule fits_class_large [OF l(4)])
  have km: "kmalloc bytes st = kmalloc_large l (2 ^ l) st"
    using False l(2,3) l12 by (simp add: kmalloc_def)
  have u: "unat (2 ^ l :: u64) = 2 ^ (l - 12 + 12)" using l(1) l12 by (simp add: unat_exp_word)
  have small: "unat (2 ^ l :: u64) \<le> 2 ^ 43" unfolding u by (rule power_increasing) (use l(1) in auto)
  note pt = heap_invD(1) [OF inv]
  have "\<exists>p st'. kmalloc bytes st = Inr (page_addr p, st') \<and> heap_inv R k roots st' \<and> objects R st' = objects R st \<and>
         live_blocks R (kh_buddy st') = insert (p, l - 12) (live_blocks R (kh_buddy st)) \<and>
         (\<forall>m. (p, m) \<notin> live_blocks R (kh_buddy st))" if hb: "has_block R (l - 12) (kh_buddy st)"
  proof (cases rule: buddy_alloc_cases [OF pt_invD(1) [OF pt] small])
    case (1 o' p b)
    have o: "o' = l - 12" by (rule order_for_unique [OF 1(1)]) (unfold u, rule order_for_exp)
    note g = got_blockD [OF 1(4)]
    have ow: "owned R b n" if "owned R (kh_buddy st) n" for n using that g(3) by (auto simp: owned_def)
    have pt': "pt_inv R k roots ((kh_vm st)\<lparr>vm_buddy := b\<rparr>)"
      by (rule pt_inv_buddy [OF pt g(2)]) (rule ow [OF table_pages_owned [OF pt]])
    have lb: "R \<le> p" "p + 2 ^ (l - 12) \<le> NPAGES"
      using live_blocks_bounds [of R b p "l - 12"] g(2,3) o by (simp_all add: buddy_ok_def)
    have "l - 12 < 19" using l(1) by simp
    from vm_map_managed_large [OF pt' lb this]
    have "kmalloc bytes st = Inr (page_addr p, st\<lparr>kh_vm := (kh_vm st)\<lparr>vm_buddy := b\<rparr>\<rparr>)"
      unfolding km kmalloc_large_def using 1(3) pt_invD(4) [OF pt] by simp
    moreover have fr: "frame_metadata b q = frame_metadata (kh_buddy st) q" if "(q, m) \<in> live_blocks R (kh_buddy st)" for q m
      using g(7) that unfolding keeps_live_def by blast
    have "heap_inv R k roots (st\<lparr>kh_vm := (kh_vm st)\<lparr>vm_buddy := b\<rparr>\<rparr>)"
      "objects R (st\<lparr>kh_vm := (kh_vm st)\<lparr>vm_buddy := b\<rparr>\<rparr>) = objects R st"
      by (rule heap_inv_buddy [OF inv pt']; use g(3,5) fr in fastforce)+
    ultimately show ?thesis using g(3,4) o
      by (intro exI [of _ p] exI [of _ "st\<lparr>kh_vm := (kh_vm st)\<lparr>vm_buddy := b\<rparr>\<rparr>"]) simp
  next
    case (2 o')
    have "o' = l - 12" by (rule order_for_unique [OF 2(1)]) (unfold u, rule order_for_exp)
    then show ?thesis using 2(2) hb by simp
  qed
  then show ?thesis using False l(4) l12 by auto
qed

theorem kmalloc_large_correct_witness:
  "\<exists>l. fits_class 4096 l \<and> 12 \<le> l \<and> (has_block demo_R (l - 12) demo_buddy \<longrightarrow>
      (\<exists>p st'. kmalloc 4096 (demo_heap blank_slab) = Inr (page_addr p, st') \<and> heap_inv demo_R 100 {100, 200} st' \<and>
         objects demo_R st' = {} \<and> live_blocks demo_R (kh_buddy st') = {(p, l - 12)}))"
  using kmalloc_large_correct [OF demo_heap_inv(1), of 4096 blank_slab]
  by (simp add: demo_heap_inv(2) demo_buddy_ok(2) demo_vm_def)

text \<open>
  The bitmap of a new slab is cleared for 64 objects only, and a slab of 32-byte objects holds
  126. If the page held a set bit at object 64, the new slab has no object in use by its count and
  yet one by its bitmap: the object is never handed out, and the slab never counts as full.
\<close>

theorem kmalloc32_stale_bitmap:
  assumes "pt_inv R k roots (kh_vm st)" and "has_block R 0 (kh_buddy st)"
    and "\<And>p. bit (slab_bitmap (kh_slabs st p) 8) 0"
  shows "\<exists>p st'. new_slab 5 32 st = Inr st' \<and> slab_inuse (kh_slabs st' p) = 0 \<and>
    unat (slab_total (kh_slabs st' p)) = 126 \<and> 64 \<in> used (kh_slabs st' p) \<and>
    lnext (kh_links st') (CacheList 0 False) = SlabNode p"
proof -
  have "class_order 5 = 0" by (simp add: class_order_def)
  then obtain p b where p: "slab_alloc (class_order 5) st = Inr (page_addr p, st\<lparr>kh_vm := (kh_vm st)\<lparr>vm_buddy := b\<rparr>\<rparr>)"
    "p < NPAGES" using slab_alloc_spec [OF assms(1), of 5] assms(2) new_blockD(1) by fastforce
  have ct: "class_total 5 = 126" by (simp add: class_total_def class_values class_order_def)
  let ?s = "set_kh_links (list_add (SlabNode p) (CacheList 0 False))
       (set_slab p (init_slab 5) (st\<lparr>kh_vm := (kh_vm st)\<lparr>vm_buddy := b\<rparr>\<rparr>))"
  have ns: "new_slab 5 (2 ^ 5) st = Inr ?s" unfolding new_slab_eq p(1) using p(2) by simp
  have tot: "unat (slab_total (init_slab 5 (kh_slabs st p))) = 126"
    using class_facts(8) [of 5] ct by (simp add: init_slab_def)
  then have "64 \<in> used (init_slab 5 (kh_slabs st p))"
    using assms(3) [of p] unfolding used_def in_use_def by (simp add: init_slab_def)
  moreover have "slab_inuse (init_slab 5 (kh_slabs st p)) = 0" by (simp add: init_slab_def)
  ultimately show ?thesis using ns tot by (intro exI [of _ p] exI [of _ ?s]) simp
qed

theorem kmalloc32_stale_bitmap_witness:
  "\<exists>p st'. new_slab 5 32 (demo_heap (blank_slab\<lparr>slab_bitmap := (\<lambda>_. 1)\<rparr>)) = Inr st' \<and> 64 \<in> used (kh_slabs st' p)"
proof -
  let ?h = "demo_heap (blank_slab\<lparr>slab_bitmap := (\<lambda>_. 1)\<rparr>)"
  have "pt_inv demo_R 100 {100, 200} (kh_vm ?h)" "has_block demo_R 0 (kh_buddy ?h)"
    using demo_inv demo_has_block by (simp_all add: demo_vm_def)
  from kmalloc32_stale_bitmap [OF this] show ?thesis by auto
qed


end
