(* ===== verification/Address_Space.thy ===== *)
theory Address_Space
  imports Kernel_Heap
begin

text \<open>
  Address spaces of processes: \<open>clone_virtual_memory\<close> and \<open>reap_virtual_memory\<close> of \<open>memory/paging.c\<close>,
  the faults of user code in \<open>system/userfault.c\<close>, the memory areas of
  \<open>types/virtual_memory_types.h\<close> and \<open>finish_virtual_mapping\<close> of \<open>memory/mmu.c\<close>. Tables are words of
  memory that the kernel reaches through its linear map; the page-frame array is reached through its
  start address, a symbol of the linker script, which is an argument.
\<close>

section \<open>Memory areas\<close>

record vma =
  vma_start :: u64
  vma_end :: u64
  permissions :: u8

abbreviation VMA_READ :: u8 where "VMA_READ \<equiv> 1"
abbreviation VMA_WRITE :: u8 where "VMA_WRITE \<equiv> 2"
abbreviation VMA_EXEC :: u8 where "VMA_EXEC \<equiv> 4"
abbreviation VMA_USER :: u8 where "VMA_USER \<equiv> 8"

section \<open>Copying and releasing tables\<close>

definition pte_cow :: "u64 \<Rightarrow> bool" where "pte_cow e \<longleftrightarrow> bit e 55"

definition set_cow :: "u64 \<Rightarrow> u64 \<Rightarrow> u64" where "set_cow v e = put_field 55 1 v e"

definition set_ap :: "u64 \<Rightarrow> u64 \<Rightarrow> u64" where "set_ap v e = put_field 6 2 v e"

text \<open>The frame whose record lies at an address, given the address of the page-frame array.\<close>

definition frame_at :: "u64 \<Rightarrow> u64 \<Rightarrow> nat result" where
  "frame_at array_start addr =
     (let off = unat (addr - array_start) in if off < 32 * NPAGES then Inr (off div 32) else Inl WildAccess)"

definition ensure_table :: "u64 \<Rightarrow> vm \<Rightarrow> (u64 \<times> vm) result" where
  "ensure_table child st = (if child = 0 then buddy_alloc_pt pt_fuel st else Inr (child, st))"

text \<open>
  One entry of \<open>clone_page_table\<close>; \<open>sub\<close> is the recursive call for a table one level down, and absent
  at level 3.
\<close>

definition clone_entry ::
  "u64 \<Rightarrow> (u64 \<Rightarrow> vm \<Rightarrow> (u64 \<times> vm) result) option \<Rightarrow> u64 \<Rightarrow> u64 \<Rightarrow> u64 \<Rightarrow> vm \<Rightarrow> (u64 \<times> vm) result" where
  "clone_entry pfa sub parent_table i child st =
     bindR (rd64 (parent_table + 8 * i) st) (\<lambda>e.
       if \<not> pte_valid e then Inr (child, st)
       else if sub \<noteq> None \<and> pte_type e
       then bindR (the sub (pa_to_va (push_bit 12 (pte_address e))) st) (\<lambda>(new_table, st1).
            bindR (ensure_table child st1) (\<lambda>(child1, st2).
            bindR (rd64 (parent_table + 8 * i) st2) (\<lambda>e2.
            bindR (wr64 (child1 + 8 * i) (set_address e2 (drop_bit 12 (va_to_pa new_table))) st2) (\<lambda>st3.
              Inr (child1, st3)))))
       else bindR (wr64 (parent_table + 8 * i) (set_ap EL0_RO_EL1_RO (set_cow 1 e)) st) (\<lambda>st1.
            bindR (ensure_table child st1) (\<lambda>(child1, st2).
            bindR (rd64 (parent_table + 8 * i) st2) (\<lambda>e2.
            bindR (wr64 (child1 + 8 * i) e2 st2) (\<lambda>st3.
            bindR (frame_at pfa (pfa + 32 * pte_address e2)) (\<lambda>n.
              Inr (child1, st3\<lparr>vm_buddy := set_frame n (\<lambda>f. f\<lparr>pf_refcount := pf_refcount f + 1\<rparr>) (vm_buddy st3)\<rparr>)))))))"

fun clone_entries ::
  "(u64 \<Rightarrow> u64 \<Rightarrow> vm \<Rightarrow> (u64 \<times> vm) result) \<Rightarrow> u64 list \<Rightarrow> u64 \<Rightarrow> vm \<Rightarrow> (u64 \<times> vm) result" where
  "clone_entries f [] child st = Inr (child, st)"
| "clone_entries f (i # js) child st = bindR (f i child st) (\<lambda>(child1, st1). clone_entries f js child1 st1)"

definition entry_indices :: "u64 list" where "entry_indices = map of_nat [0..<512]"

text \<open>The first argument counts the levels below the table, so the call for level \<open>l\<close> has \<open>3 - l\<close>.\<close>

primrec clone_page_table :: "nat \<Rightarrow> u64 \<Rightarrow> u64 \<Rightarrow> vm \<Rightarrow> (u64 \<times> vm) result" where
  "clone_page_table 0 pfa parent_table st = clone_entries (clone_entry pfa None parent_table) entry_indices 0 st"
| "clone_page_table (Suc d) pfa parent_table st =
     clone_entries (clone_entry pfa (Some (clone_page_table d pfa)) parent_table) entry_indices 0 st"

definition clone_root_entry :: "u64 \<Rightarrow> u64 \<Rightarrow> u64 \<Rightarrow> u64 \<Rightarrow> vm \<Rightarrow> (u64 \<times> vm) result" where
  "clone_root_entry pfa parent_table i new_l0_table st =
     bindR (rd64 (parent_table + 8 * i) st) (\<lambda>e.
       if \<not> pte_valid e then Inr (new_l0_table, st)
       else bindR (wr64 (new_l0_table + 8 * i) e st) (\<lambda>st1.
            bindR (clone_page_table 2 pfa (pa_to_va (push_bit 12 (pte_address e))) st1) (\<lambda>(new_table, st2).
              if new_table = 0 then Inr (new_l0_table, st2)
              else bindR (rd64 (new_l0_table + 8 * i) st2) (\<lambda>c.
                   bindR (wr64 (new_l0_table + 8 * i) (set_address c (drop_bit 12 (va_to_pa new_table))) st2) (\<lambda>st3.
                     Inr (new_l0_table, st3))))))"

definition clone_virtual_memory :: "u64 \<Rightarrow> u64 \<Rightarrow> vm \<Rightarrow> (u64 \<times> vm) result" where
  "clone_virtual_memory pfa parent_table st =
     bindR (buddy_alloc_pt pt_fuel st) (\<lambda>(new_l0_table, st1).
       clone_entries (clone_root_entry pfa parent_table) entry_indices new_l0_table st1)"

definition vm_decrement_ref :: "u64 \<Rightarrow> vm \<Rightarrow> vm result" where
  "vm_decrement_ref addr st = bindR (decrement_ref addr (vm_buddy st)) (\<lambda>(_, b). Inr (st\<lparr>vm_buddy := b\<rparr>))"

fun reap_entries :: "(u64 \<Rightarrow> vm \<Rightarrow> vm result) option \<Rightarrow> u64 \<Rightarrow> u64 list \<Rightarrow> vm \<Rightarrow> vm result" where
  "reap_entries sub parent_table [] st = Inr st"
| "reap_entries sub parent_table (i # js) st =
     bindR (rd64 (parent_table + 8 * i) st) (\<lambda>e.
     bindR (if \<not> pte_valid e then Inr st
            else if sub \<noteq> None \<and> pte_type e then the sub (pa_to_va (push_bit 12 (pte_address e))) st
            else vm_decrement_ref (pa_to_va (push_bit 12 (pte_address e))) st)
       (reap_entries sub parent_table js))"

primrec reap_virtual_memory :: "nat \<Rightarrow> u64 \<Rightarrow> vm \<Rightarrow> vm result" where
  "reap_virtual_memory 0 parent_table st =
     bindR (reap_entries None parent_table entry_indices st) (vm_decrement_ref parent_table)"
| "reap_virtual_memory (Suc d) parent_table st =
     bindR (reap_entries (Some (reap_virtual_memory d)) parent_table entry_indices st) (vm_decrement_ref parent_table)"

text \<open>
  \<open>finish_virtual_mapping\<close>: the allocator is initialised, the root table of the kernel recorded and the
  device registers are mapped. The argument \<open>ttbr1\<close> is the value of the register.
\<close>

definition PBASE :: u64 where "PBASE = VIRT_BASE + 0xFE000000"
definition GIC_BASE :: u64 where "GIC_BASE = 0xFFFF8000FF840000"

definition finish_virtual_mapping :: "nat \<Rightarrow> u64 \<Rightarrow> vm \<Rightarrow> (u64 \<times> vm) result" where
  "finish_virtual_mapping heap_start ttbr1 st =
     bindR (initialize_page_frame_array heap_start (vm_buddy st)) (\<lambda>(_, b).
       let st1 = st\<lparr>vm_buddy := b, vm_l0 := pa_to_va ttbr1\<rparr>;
           flags = MAP_KERNEL OR MAP_DEVICE OR MAP_WRITE OR MAP_READ;
           gic_virtual = ALIGN_DOWN GIC_BASE 0x200000
       in bindR (vm_map PBASE (va_to_pa PBASE) 12 flags (vm_l0 st1) st1) (\<lambda>st2.
          bindR (vm_map gic_virtual (va_to_pa gic_virtual) 9 flags (vm_l0 st2) st2) (\<lambda>st3.
            Inr (vm_l0 st3, st3))))"

section \<open>Faults of user code\<close>

definition check_vma :: "u64 \<Rightarrow> vma list \<Rightarrow> u64 \<Rightarrow> vm \<Rightarrow> (bool \<times> vm) result" where
  "check_vma faulting_address vmas ttbr0 st =
     (case find (\<lambda>v. faulting_address < vma_end v \<and> vma_start v \<le> faulting_address) vmas of
        None \<Rightarrow> Inr (False, st)
      | Some v \<Rightarrow>
          bindR (buddy_alloc 0x1000 (vm_buddy st)) (\<lambda>(page, b).
          bindR (vm_map (ALIGN_DOWN faulting_address 0x1000) (va_to_pa page) 0 (MAP_USER OR ucast (permissions v)) ttbr0
                   (st\<lparr>vm_buddy := b\<rparr>)) (\<lambda>st1.
            Inr (True, st1))))"

text \<open>The address of the level-3 entry, if it is marked copy-on-write.\<close>

definition check_cow :: "u64 \<Rightarrow> u64 \<Rightarrow> vm \<Rightarrow> u64 option result" where
  "check_cow addr ttbr0 st =
     bindR (rd64 (ttbr0 + 8 * pt_index 0 addr) st) (\<lambda>e0.
       if \<not> pte_valid e0 then Inr None else
     bindR (rd64 (pa_to_va (push_bit 12 (pte_address e0)) + 8 * pt_index 1 addr) st) (\<lambda>e1.
       if \<not> pte_valid e1 then Inr None else
     bindR (rd64 (pa_to_va (push_bit 12 (pte_address e1)) + 8 * pt_index 2 addr) st) (\<lambda>e2.
       if \<not> pte_valid e2 then Inr None else
     let slot3 = pa_to_va (push_bit 12 (pte_address e2)) + 8 * pt_index 3 addr
     in bindR (rd64 slot3 st) (\<lambda>e3. Inr (if pte_cow e3 then Some slot3 else None)))))"

text \<open>\<open>memcpy\<close> of a page from the user's address to the kernel's; the processor translates the former.\<close>

definition copy_user_page :: "u64 \<Rightarrow> u64 \<Rightarrow> u64 \<Rightarrow> vm \<Rightarrow> vm result" where
  "copy_user_page dst src ttbr0 st =
     bindR (translate_va src (va_to_pa ttbr0) st) (\<lambda>pa.
       if in_ram pa \<and> in_ram (va_to_pa dst)
       then Inr (st\<lparr>vm_mem := (\<lambda>a. if page_of a = page_of (va_to_pa dst) then vm_mem st (pa + (a AND 0xFFF)) else vm_mem st a)\<rparr>)
       else Inl WildAccess)"

definition split_page :: "u64 \<Rightarrow> u64 \<Rightarrow> u64 \<Rightarrow> u64 \<Rightarrow> vm \<Rightarrow> vm result" where
  "split_page pfa l3_pte faulting_address ttbr0 st =
     bindR (buddy_alloc 0x1000 (vm_buddy st)) (\<lambda>(new_page, b).
     bindR (vm_map new_page (va_to_pa new_page) 0 (MAP_KERNEL OR MAP_READ OR MAP_WRITE) (vm_l0 st) (st\<lparr>vm_buddy := b\<rparr>)) (\<lambda>st1.
     bindR (copy_user_page new_page (ALIGN_DOWN faulting_address 0x1000) ttbr0 st1) (\<lambda>st2.
     bindR (rd64 l3_pte st2) (\<lambda>e.
       let pfn = pte_address e
       in bindR (frame_at pfa (pa_to_va pfa + 32 * pfn)) (\<lambda>n.
          bindR (if pf_refcount (frame_metadata (vm_buddy st2) n) = 1
                 then wr64 l3_pte (set_ap EL0_RW_EL1_RW (set_cow 0 e)) st2 else Inr st2) (\<lambda>st3.
          bindR (vm_decrement_ref (pa_to_va (push_bit 12 pfn)) st3) (\<lambda>st4.
          bindR (rd64 l3_pte st4) (\<lambda>e2. wr64 l3_pte (set_address e2 (drop_bit 12 (va_to_pa new_page))) st4))))))))"

definition handle_el0_fault :: "u64 \<Rightarrow> u64 \<Rightarrow> vma list \<Rightarrow> u64 \<Rightarrow> vm \<Rightarrow> vm result" where
  "handle_el0_fault pfa faulting_address vmas ttbr0 st =
     bindR (check_cow faulting_address ttbr0 st) (\<lambda>l3_pte.
       case l3_pte of
         Some p \<Rightarrow> split_page pfa p faulting_address ttbr0 st
       | None \<Rightarrow> bindR (check_vma faulting_address vmas ttbr0 st) (\<lambda>(ok, st1). if ok then Inr st1 else Inl Halted))"

section \<open>What a fault does\<close>

text \<open>The walk of \<open>check_cow\<close> in a forest of tables.\<close>

definition cow_entry :: "(u64 \<Rightarrow> u64) \<Rightarrow> u64 \<Rightarrow> u64 \<Rightarrow> u64 option" where
  "cow_entry m r va = (case node m r (pt_path va) of None \<Rightarrow> None
     | Some t \<Rightarrow> if pte_cow (m (slot t (pt_index 3 va))) then Some t else None)"

lemma check_cow_entry:
  assumes fo: "forest (vm_mem st) roots" and r: "r \<in> roots"
  shows "check_cow va (table_va r) st = Inr (map_option (\<lambda>t. table_va t + 8 * pt_index 3 va) (cow_entry (vm_mem st) r va))"
proof -
  define d0 where "d0 = vm_mem st (slot r (pt_index 0 va))"
  define t1 where "t1 = pte_address d0"
  define d1 where "d1 = vm_mem st (slot t1 (pt_index 1 va))"
  define t2 where "t2 = pte_address d1"
  define d2 where "d2 = vm_mem st (slot t2 (pt_index 2 va))"
  define t3 where "t3 = pte_address d2"
  note w = walk_descriptors(1) [OF fo r] walk_descriptors(2-5) [OF fo r, of va, folded d0_def, folded t1_def, folded d1_def,
      folded t2_def, folded d2_def, folded t3_def]
  have nd: "node (vm_mem st) r (pt_path va) = (if pte_valid d0 \<and> pte_valid d1 \<and> pte_valid d2 then Some t3 else None)"
    using w(2-4) by (auto simp: pt_path_def d0_def [symmetric] t1_def [symmetric] d1_def [symmetric]
        t2_def [symmetric] d2_def [symmetric] t3_def [symmetric] simp del: One_nat_def)
  have r0: "rd64 (table_va r + 8 * pt_index 0 va) st = Inr d0" using rd64_slot [OF w(1)] by (simp add: d0_def)
  have r1: "rd64 (table_va t1 + 8 * pt_index 1 va) st = Inr d1" if "pte_valid d0"
    using rd64_slot [of t1 "pt_index 1 va" st] w(2) [OF that] by (simp add: d1_def)
  have r2: "rd64 (table_va t2 + 8 * pt_index 2 va) st = Inr d2" if "pte_valid d0" "pte_valid d1"
    using rd64_slot [of t2 "pt_index 2 va" st] w(3) [OF that] by (simp add: d2_def)
  have r3: "rd64 (table_va t3 + 8 * pt_index 3 va) st = Inr (vm_mem st (slot t3 (pt_index 3 va)))"
    if "pte_valid d0" "pte_valid d1" "pte_valid d2"
    using rd64_slot [of t3 "pt_index 3 va" st] w(4) [OF that] by simp
  show ?thesis
    unfolding check_cow_def Let_def r0 bindR_simps t1_def [symmetric] cow_entry_def nd pa_to_va_def
    using r1 r2 r3
    by (cases "pte_valid d0"; cases "pte_valid d1"; cases "pte_valid d2")
      (simp_all add: t2_def [symmetric] t3_def [symmetric] del: One_nat_def)
qed

text \<open>The record of a frame is never found where the start of the array was converted twice.\<close>

lemma frame_at_pa_to_va: "frame_at pfa (pa_to_va pfa + 32 * pte_address e) = Inl WildAccess"
proof -
  have "unat (pte_address e) < 2 ^ 36"
  proof -
    have "pte_address e = take_bit 36 (pte_address e)" by (simp add: pte_address_def get_field_def)
    then have "unat (pte_address e) = take_bit 36 (unat (pte_address e))" by (metis unsigned_take_bit_eq)
    then show ?thesis by (metis take_bit_nat_less_exp)
  qed
  then have s: "unat (32 * pte_address e) = 32 * unat (pte_address e)" by (simp add: unat_word_ariths)
  have "unat (VIRT_BASE + 32 * pte_address e) = unat VIRT_BASE + 32 * unat (pte_address e)"
    using s \<open>unat (pte_address e) < 2 ^ 36\<close> by (subst unat_add_lem [THEN iffD1]) (simp_all add: VIRT_BASE_def)
  then have "\<not> unat (VIRT_BASE + 32 * pte_address e) < 32 * NPAGES" by (simp add: VIRT_BASE_def NPAGES_def)
  moreover have "pa_to_va pfa + 32 * pte_address e - pfa = VIRT_BASE + 32 * pte_address e"
    by (simp add: pa_to_va_def algebra_simps)
  ultimately show ?thesis unfolding frame_at_def Let_def by (simp only: if_False)
qed

lemma split_page_faults: "\<exists>f. split_page pfa p va ttbr0 st = Inl f"
proof (cases "split_page pfa p va ttbr0 st")
  case (Inr st')
  then show ?thesis by (auto simp: split_page_def Let_def frame_at_pa_to_va bindR_eq_Inr split: prod.splits)
qed blast

text \<open>An address in no area.\<close>

lemma check_vma_none:
  "\<forall>v\<in>set vmas. \<not> (va < vma_end v \<and> vma_start v \<le> va) \<Longrightarrow> check_vma va vmas ttbr0 st = Inr (False, st)"
proof -
  assume "\<forall>v\<in>set vmas. \<not> (va < vma_end v \<and> vma_start v \<le> va)"
  then have "find (\<lambda>v. va < vma_end v \<and> vma_start v \<le> va) vmas = None" by (auto simp: find_None_iff)
  then show ?thesis by (simp add: check_vma_def)
qed

lemma same_page_ALIGN_DOWN: "same_page a (ALIGN_DOWN va 0x1000) \<longleftrightarrow> same_page a va"
proof -
  have "drop_bit (39 - 9 * l) (ALIGN_DOWN va 0x1000) = drop_bit (39 - 9 * l) va" if "l \<le> 3" for l
  proof -
    have m: "(0x1000 - 1 :: u64) = mask 12" by (simp add: mask_eq_exp_minus_1)
    show ?thesis unfolding ALIGN_DOWN_def m
      by (rule bit_word_eqI) (use that in \<open>auto simp: bit_simps dest: bit_imp_le_length\<close>)
  qed
  then have "pt_index l (ALIGN_DOWN va 0x1000) = pt_index l va" if "l \<le> 3" for l
    using that by (simp add: pt_index_def)
  then show ?thesis by (simp add: same_page_def pt_path_def)
qed

text \<open>Taking one page for user memory.\<close>

lemma take_page:
  assumes inv: "pt_inv R k roots st" and free: "free_pages R (vm_buddy st) \<noteq> {}"
  shows "\<exists>p b. buddy_alloc 0x1000 (vm_buddy st) = Inr (page_addr p, b) \<and> p \<in> free_pages R (vm_buddy st) \<and>
    pt_inv R k roots (st\<lparr>vm_buddy := b\<rparr>) \<and> Suc (card (free_pages R b)) = card (free_pages R (vm_buddy st))"
proof -
  note iv = pt_invD [OF inv]
  obtain p b where p: "buddy_alloc 0x1000 (vm_buddy st) = Inr (page_addr p, b)" "buddy_ok R b"
    "p \<in> free_pages R (vm_buddy st)" "\<And>n. owned R b n \<longleftrightarrow> owned R (vm_buddy st) n \<or> n = p"
    using buddy_alloc_page [OF iv(1)] free by (simp only: if_False) blast
  have "pt_inv R k roots (st\<lparr>vm_buddy := b\<rparr>)"
  proof (rule pt_inv_buddy [OF inv p(2)])
    fix n assume "n \<in> table_pages st roots"
    then show "owned R b n" using table_pages_owned [OF inv] p(4) by simp
  qed
  moreover have "Suc (card (free_pages R b)) = card (free_pages R (vm_buddy st))" by (rule card_free_pages [OF p(3,4)])
  ultimately show ?thesis using p(1,3) by blast
qed

lemma area_found:
  assumes "\<exists>v\<in>set vmas. va < vma_end v \<and> vma_start v \<le> va"
  obtains v where "find (\<lambda>v. va < vma_end v \<and> vma_start v \<le> va) vmas = Some v" "v \<in> set vmas"
    "va < vma_end v" "vma_start v \<le> va"
proof (cases "find (\<lambda>v. va < vma_end v \<and> vma_start v \<le> va) vmas")
  case None
  then show thesis using assms by (auto simp: find_None_iff)
next
  case (Some v)
  then have "va < vma_end v" "vma_start v \<le> va" "v \<in> set vmas" by (auto simp: find_Some_iff)
  then show thesis using Some by (intro that)
qed

text \<open>A page of an area that is not mapped yet.\<close>

lemma demand_page:
  assumes inv: "pt_inv R k roots st" and r: "r \<in> roots" and free: "4 \<le> card (free_pages R (vm_buddy st))"
    and area: "\<exists>v\<in>set vmas. va < vma_end v \<and> vma_start v \<le> va" and ncow: "cow_entry (vm_mem st) r va = None"
  shows "\<exists>v p st'. v \<in> set vmas \<and> vma_start v \<le> va \<and> va < vma_end v \<and> p \<in> free_pages R (vm_buddy st) \<and>
    handle_el0_fault pfa va vmas (table_va r) st = Inr st' \<and> pt_inv R k roots st' \<and>
    (\<forall>s\<in>roots. aspace (vm_mem st') s =
       spec_map r va (va_to_pa (page_addr p)) (MAP_USER OR ucast (permissions v)) (aspace (vm_mem st)) s)"
proof -
  obtain v where v: "find (\<lambda>v. va < vma_end v \<and> vma_start v \<le> va) vmas = Some v" "v \<in> set vmas"
    "va < vma_end v" "vma_start v \<le> va" by (rule area_found [OF area])
  have "free_pages R (vm_buddy st) \<noteq> {}" using free by auto
  from take_page [OF inv this] obtain p b where p: "buddy_alloc 0x1000 (vm_buddy st) = Inr (page_addr p, b)"
    "p \<in> free_pages R (vm_buddy st)" "pt_inv R k roots (st\<lparr>vm_buddy := b\<rparr>)"
    "Suc (card (free_pages R b)) = card (free_pages R (vm_buddy st))" by blast
  have sup: "3 \<le> card (free_pages R (vm_buddy (st\<lparr>vm_buddy := b\<rparr>)))" using free p(4) by simp
  let ?pa = "va_to_pa (page_addr p)" and ?fl = "MAP_USER OR ucast (permissions v)" and ?va = "ALIGN_DOWN va 0x1000"
  obtain st' where st': "map_page (buddy_alloc_pt (Suc NPAGES)) ?va ?pa ?fl (table_va r) (st\<lparr>vm_buddy := b\<rparr>) = Inr st'"
    "pt_inv R k roots st'"
    "\<forall>s\<in>roots. aspace (vm_mem st') s = spec_map r ?va ?pa ?fl (aspace (vm_mem (st\<lparr>vm_buddy := b\<rparr>))) s"
    using vmem.map_page_refines [OF p(3) sup r] by blast
  have "vm_map ?va ?pa 0 ?fl (table_va r) (st\<lparr>vm_buddy := b\<rparr>) = Inr st'"
    using st'(1) by (simp add: vm_map_def map_with_def pt_fuel_def del: buddy_alloc_pt.simps)
  then have "check_vma va vmas (table_va r) st = Inr (True, st')" by (simp add: check_vma_def v(1) p(1))
  moreover have "check_cow va (table_va r) st = Inr None"
    using check_cow_entry [OF pt_invD(2) [OF inv] r] ncow by simp
  ultimately have "handle_el0_fault pfa va vmas (table_va r) st = Inr st'" by (simp add: handle_el0_fault_def)
  moreover have "aspace (vm_mem st') s = spec_map r va ?pa ?fl (aspace (vm_mem st)) s" if "s \<in> roots" for s
    using st'(3) that by (auto simp: spec_map_def fun_eq_iff same_page_ALIGN_DOWN)
  ultimately show ?thesis using v(2-4) p(2) st'(2) by blast
qed

text \<open>A page of an area that is mapped, but not for this access.\<close>

lemma mapped_fault:
  assumes inv: "pt_inv R k roots st" and r: "r \<in> roots" and free: "free_pages R (vm_buddy st) \<noteq> {}"
    and area: "\<exists>v\<in>set vmas. va < vma_end v \<and> vma_start v \<le> va"
    and m: "aspace (vm_mem st) r va = Some e" "\<not> pte_cow e"
  shows "\<exists>b. handle_el0_fault pfa va vmas (table_va r) st = Inr (st\<lparr>vm_buddy := b\<rparr>) \<and>
    pt_inv R k roots (st\<lparr>vm_buddy := b\<rparr>) \<and> Suc (card (free_pages R b)) = card (free_pages R (vm_buddy st))"
proof -
  obtain v where v: "find (\<lambda>v. va < vma_end v \<and> vma_start v \<le> va) vmas = Some v" by (rule area_found [OF area])
  from take_page [OF inv free] obtain p b where p: "buddy_alloc 0x1000 (vm_buddy st) = Inr (page_addr p, b)"
    "pt_inv R k roots (st\<lparr>vm_buddy := b\<rparr>)"
    "Suc (card (free_pages R b)) = card (free_pages R (vm_buddy st))" by blast
  let ?va = "ALIGN_DOWN va 0x1000"
  have "aspace (vm_mem st) r ?va = Some e"
    using m(1) aspace_same_page [of ?va va] same_page_ALIGN_DOWN [of va va] by (simp add: same_page_def same_page_ALIGN_DOWN)
  then have "map_page alloc ?va pa fl (table_va r) (st\<lparr>vm_buddy := b\<rparr>) = Inr (st\<lparr>vm_buddy := b\<rparr>)" for alloc pa fl
    by (intro map_page_mapped [OF _ r]) (use pt_invD(2) [OF inv] in simp_all)
  then have "vm_map ?va pa 0 fl (table_va r) (st\<lparr>vm_buddy := b\<rparr>) = Inr (st\<lparr>vm_buddy := b\<rparr>)" for pa fl
    by (simp add: vm_map_def map_with_def pt_fuel_def del: buddy_alloc_pt.simps)
  then have "check_vma va vmas (table_va r) st = Inr (True, st\<lparr>vm_buddy := b\<rparr>)" by (simp add: check_vma_def v p(1))
  moreover have "cow_entry (vm_mem st) r va = None"
    using m by (auto simp: aspace_def leaf_def cow_entry_def split: option.splits if_splits)
  then have "check_cow va (table_va r) st = Inr None"
    using check_cow_entry [OF pt_invD(2) [OF inv] r] by simp
  ultimately have "handle_el0_fault pfa va vmas (table_va r) st = Inr (st\<lparr>vm_buddy := b\<rparr>)"
    by (simp add: handle_el0_fault_def)
  then show ?thesis using p(2,3) by blast
qed

text \<open>The faults of a program that repeats an access until it succeeds.\<close>

primrec repeated_fault :: "nat \<Rightarrow> u64 \<Rightarrow> u64 \<Rightarrow> vma list \<Rightarrow> u64 \<Rightarrow> vm \<Rightarrow> vm result" where
  "repeated_fault 0 pfa va vmas ttbr0 st = Inr st"
| "repeated_fault (Suc n) pfa va vmas ttbr0 st =
     bindR (handle_el0_fault pfa va vmas ttbr0 st) (repeated_fault n pfa va vmas ttbr0)"

lemma repeated_mapped_fault:
  assumes area: "\<exists>v\<in>set vmas. va < vma_end v \<and> vma_start v \<le> va" and r: "r \<in> roots"
  shows "pt_inv R k roots st \<Longrightarrow> n \<le> card (free_pages R (vm_buddy st)) \<Longrightarrow> aspace (vm_mem st) r va = Some e \<Longrightarrow>
    \<not> pte_cow e \<Longrightarrow> \<exists>b. repeated_fault n pfa va vmas (table_va r) st = Inr (st\<lparr>vm_buddy := b\<rparr>) \<and>
      card (free_pages R b) + n = card (free_pages R (vm_buddy st))"
proof (induction n arbitrary: st)
  case 0
  then show ?case by (intro exI [of _ "vm_buddy st"]) simp
next
  case (Suc n)
  then have "free_pages R (vm_buddy st) \<noteq> {}" by auto
  from mapped_fault [OF Suc.prems(1) r this area Suc.prems(3,4)] obtain b where
    b: "handle_el0_fault pfa va vmas (table_va r) st = Inr (st\<lparr>vm_buddy := b\<rparr>)" "pt_inv R k roots (st\<lparr>vm_buddy := b\<rparr>)"
      "Suc (card (free_pages R b)) = card (free_pages R (vm_buddy st))" by blast
  then show ?case using Suc.IH [OF b(2)] Suc.prems(2-4) by auto
qed

text \<open>Writing a valid leaf entry keeps the invariant of the tables.\<close>

lemma pt_inv_put_leaf:
  assumes inv: "pt_inv R k roots st" and r: "r \<in> roots" and p: "indices p" "length p = 3" "node (vm_mem st) r p = Some t"
    and i: "i < 512" and e: "pte_valid e"
  shows "pt_inv R k roots (st\<lparr>vm_mem := (vm_mem st)(slot t i := e)\<rparr>)"
proof -
  note iv = pt_invD [OF inv] and ef = put_leaf_effect [OF pt_invD(2) [OF inv] r p i e]
  have kp: "aspace ((vm_mem st)(slot t i := e)) k a \<noteq> None" if "aspace (vm_mem st) k a \<noteq> None" for a
    using that ef(3) [OF iv(3), of "pt_path a" "pt_index 3 a"] by (simp add: aspace_def)
  have own: "owned R (vm_buddy st) (unat u)"
    if "s \<in> roots" "indices q \<and> length q \<le> 3 \<and> node ((vm_mem st)(slot t i := e)) s q = Some u" for s q u
    using iv(5) [OF that(1), of q u] ef(2) [OF that(1), of q] that(2) by simp
  have "(\<forall>s\<in>roots. \<forall>q u. indices q \<and> length q \<le> 3 \<and> node ((vm_mem st)(slot t i := e)) s q = Some u \<longrightarrow>
      owned R (vm_buddy st) (unat u)) \<and>
    (\<forall>p. R \<le> p \<and> p < NPAGES \<longrightarrow> aspace ((vm_mem st)(slot t i := e)) k (page_addr p) \<noteq> None)"
    using own kp iv(6) by blast
  then show ?thesis unfolding pt_inv_def using iv(1,3,4) ef(1) by simp
qed

lemma cow_fault_wild:
  assumes inv: "pt_inv R k roots st" and r: "r \<in> roots" and free: "free_pages R (vm_buddy st) \<noteq> {}"
    and c: "cow_entry (vm_mem st) r va \<noteq> None"
  shows "handle_el0_fault pfa va vmas (table_va r) st = Inl WildAccess"
proof -
  obtain t where t: "cow_entry (vm_mem st) r va = Some t" using c by blast
  let ?p = "table_va t + 8 * pt_index 3 va"
  from take_page [OF inv free] obtain p b where p: "buddy_alloc 0x1000 (vm_buddy st) = Inr (page_addr p, b)"
    "p \<in> free_pages R (vm_buddy st)" "pt_inv R k roots (st\<lparr>vm_buddy := b\<rparr>)" by blast
  have pN: "p < NPAGES" "R \<le> p" using p(2) by (auto simp: free_pages_def owned_def)
  have m: "vm_map (page_addr p) pa 0 fl (vm_l0 st) (st\<lparr>vm_buddy := b\<rparr>) = Inr (st\<lparr>vm_buddy := b\<rparr>)" for pa fl
    using vm_map_managed [OF p(3) pN(2), of 0] pN(1) pt_invD(4) [OF inv] by simp
  have w': "(\<exists>s'. copy_user_page d a tt s = Inr s') \<or> copy_user_page d a tt s = Inl WildAccess" if "\<exists>x. translate_va a (va_to_pa tt) s = Inr x"
    for d a tt s using that by (auto simp: copy_user_page_def split: if_splits)
  have tr: "\<exists>x. translate_va a (va_to_pa (table_va r)) (st\<lparr>vm_buddy := b\<rparr>) = Inr x" for a
    using translate_aspace [OF pt_invD(2) [OF p(3)] r] by (simp add: va_to_pa_def)
  have "split_page pfa ?p va (table_va r) st = Inl WildAccess"
    using w' [OF tr, of "page_addr p" "ALIGN_DOWN va 0x1000"]
    by (auto simp: split_page_def p(1) m rd64_def Let_def frame_at_pa_to_va)
  moreover have "check_cow va (table_va r) st = Inr (Some ?p)"
    using check_cow_entry [OF pt_invD(2) [OF inv] r] t by simp
  ultimately show ?thesis by (simp add: handle_el0_fault_def)
qed

section \<open>Properties\<close>

definition demo_area :: vma where "demo_area = \<lparr>vma_start = 0x400000, vma_end = 0x500000, permissions = 3\<rparr>"


lemma demo_unmapped: "aspace (vm_mem demo_vm) 200 0x400000 = None" "cow_entry (vm_mem demo_vm) 200 0x400000 = None"
proof -
  have "node demo_mem 200 (pt_path 0x400000) = None" by (simp add: pt_path_def demo_slot)
  then show "aspace (vm_mem demo_vm) 200 0x400000 = None" "cow_entry (vm_mem demo_vm) 200 0x400000 = None"
    by (simp_all add: demo_vm_def aspace_def leaf_def cow_entry_def)
qed



definition demo_cow_vm :: vm where
  "demo_cow_vm = demo_vm\<lparr>vm_mem := demo_mem(slot 103 0 := set_cow 1 (page_desc MAP_USER 0))\<rparr>"

lemma demo_page: "node demo_mem 100 (pt_path 0xFFFF80003FE00000) = Some 103" "pt_index 3 0xFFFF80003FE00000 = 0"
proof -
  have p: "pt_path 0xFFFF80003FE00000 = [256, 0, 511]" by (simp add: pt_path_def pt_index_def)
  show "node demo_mem 100 (pt_path 0xFFFF80003FE00000) = Some 103" unfolding p by (simp add: demo_slot)
  show "pt_index 3 0xFFFF80003FE00000 = 0" by (simp add: pt_index_def)
qed

lemma demo_cow: "pte_valid (set_cow 1 e) = pte_valid e" "pte_cow (set_cow 1 e)"
  by (simp_all add: set_cow_def pte_valid_def pte_cow_def bit_put_field)




end
