(* ===== verification/Scheduler.thy ===== *)
theory Scheduler
  imports Buddy
begin

text \<open>
  Processes and the scheduler: \<open>types/process_types.h\<close>, \<open>system/scheduler.c\<close> and \<open>generate_pid\<close> and
  \<open>fd_alloc\<close> of \<open>system/process.c\<close>. Control blocks live in a store indexed by their address; the
  run queue and the process list are intrusive lists through them. The switch of stacks and
  registers is assembly code; of a context switch the model keeps the current process, its state
  and the user translation table.
\<close>

section \<open>Control blocks\<close>

datatype PROC_STATE = PROCESS_BLOCKED | PROCESS_READY | PROCESS_RUNNING | PROCESS_TERMINATED

definition WAITING_ALL :: u32 where "WAITING_ALL = - 1"
definition WAITING_NONE :: u32 where "WAITING_NONE = 0"

datatype EXIT_STATUS = EX_OK | EX_USAGE | EX_DATAERR | EX_NOINPUT | EX_NOUSER | EX_NOHOST | EX_UNAVAILABLE
  | EX_SOFTWARE | EX_OSERR | EX_OSFILE | EX_CANTCREAT | EX_IOERR | EX_TEMPFAIL | EX_PROTOCOL | EX_NOPERM | EX_CONFIG

text \<open>Pointers to control blocks, files and memory areas are addresses; 0 is NULL.\<close>

type_synonym ptr = nat

record pcb_t =
  kernel_stack :: u64
  ttbr :: u64
  pstate :: PROC_STATE
  exit_status :: EXIT_STATUS
  pid :: u32
  waiting_on :: u32
  parent :: ptr
  cwd :: ptr
  brk :: u64
  start_brk :: u64
  heap_vma :: ptr
  fds :: "ptr list"

definition MAX_OPEN_FILES :: nat where "MAX_OPEN_FILES = 32"

text \<open>The links of one kind of list: its head and one node in every control block.\<close>

datatype lnode = Head | Node ptr

record sched =
  sc_pcbs :: "ptr \<Rightarrow> pcb_t"
  sc_proclist :: "lnode list_head_t"
  sc_runqueue :: "lnode list_head_t"
  sc_current :: ptr
  sc_idle :: ptr
  sc_n_processes :: u64
  sc_ttbr0 :: u64
  sc_pidcounter :: u32

definition set_pcb :: "ptr \<Rightarrow> (pcb_t \<Rightarrow> pcb_t) \<Rightarrow> sched \<Rightarrow> sched" where
  "set_pcb p f st = st\<lparr>sc_pcbs := (sc_pcbs st)(p := f (sc_pcbs st p))\<rparr>"

definition set_state :: "ptr \<Rightarrow> PROC_STATE \<Rightarrow> sched \<Rightarrow> sched" where
  "set_state p s = set_pcb p (\<lambda>c. c\<lparr>pstate := s\<rparr>)"

definition set_runqueue :: "(lnode list_head_t \<Rightarrow> lnode list_head_t) \<Rightarrow> sched \<Rightarrow> sched" where
  "set_runqueue f st = st\<lparr>sc_runqueue := f (sc_runqueue st)\<rparr>"

abbreviation state_of :: "sched \<Rightarrow> ptr \<Rightarrow> PROC_STATE" where "state_of st p \<equiv> pstate (sc_pcbs st p)"

abbreviation pid_of :: "sched \<Rightarrow> ptr \<Rightarrow> u32" where "pid_of st p \<equiv> pid (sc_pcbs st p)"

section \<open>Operations\<close>

definition generate_pid :: "sched \<Rightarrow> u32 \<times> sched" where
  "generate_pid st = (let n = sc_pidcounter st + 1 in (n, st\<lparr>sc_pidcounter := n\<rparr>))"

text \<open>The lowest free descriptor, or \<open>None\<close> for the source's \<open>-1\<close>.\<close>

fun fd_scan :: "ptr list \<Rightarrow> nat \<Rightarrow> nat option" where
  "fd_scan [] i = None"
| "fd_scan (f # fs) i = (if f = 0 then Some i else fd_scan fs (Suc i))"

definition fd_alloc :: "pcb_t \<Rightarrow> ptr \<Rightarrow> nat option \<times> pcb_t" where
  "fd_alloc proc file =
     (case fd_scan (take MAX_OPEN_FILES (fds proc)) 0 of
        None \<Rightarrow> (None, proc)
      | Some i \<Rightarrow> (Some i, proc\<lparr>fds := (fds proc)[i := file]\<rparr>))"

definition pre_context_switch :: "ptr \<Rightarrow> sched \<Rightarrow> sched" where
  "pre_context_switch newproc st =
     (set_state newproc PROCESS_RUNNING (st\<lparr>sc_current := newproc\<rparr>))
       \<lparr>sc_ttbr0 := va_to_pa (ttbr (sc_pcbs st newproc))\<rparr>"

definition scheduler :: "sched \<Rightarrow> sched result" where
  "scheduler st =
     (let active_process = sc_current st
      in if list_empty Head (sc_runqueue st)
         then (if state_of st active_process = PROCESS_RUNNING then Inr st
               else Inr (pre_context_switch (sc_idle st) st))
         else case lnext (sc_runqueue st) Head of
             Head \<Rightarrow> Inl WildAccess
           | Node newproc \<Rightarrow>
               if newproc = active_process then Inr st
               else
                 let st1 = (if pid_of st newproc \<noteq> 0 then set_runqueue (list_remove (Node newproc)) st else st);
                     st2 = (if state_of st1 active_process = PROCESS_RUNNING
                            then let st' = set_state active_process PROCESS_READY st1
                                 in if pid_of st' active_process \<noteq> 0
                                    then set_runqueue (list_add (Node active_process) Head) st' else st'
                            else st1)
                 in Inr (pre_context_switch newproc st2))"

definition start_scheduler :: "sched \<Rightarrow> sched" where
  "start_scheduler st =
     (set_runqueue (list_remove (Node (sc_current st))) (set_state (sc_current st) PROCESS_RUNNING st))
       \<lparr>sc_ttbr0 := va_to_pa (ttbr (sc_pcbs st (sc_current st)))\<rparr>"

definition deschedule :: "sched \<Rightarrow> sched result" where
  "deschedule st =
     (let p = sc_current st
      in scheduler (if state_of st p = PROCESS_RUNNING
                    then set_runqueue (list_remove (Node p)) (set_state p PROCESS_BLOCKED st) else st))"

definition reschedule :: "ptr \<Rightarrow> sched \<Rightarrow> sched result" where
  "reschedule proc st =
     (if proc = 0 then Inl WildAccess
      else Inr (set_runqueue (list_add (Node proc) Head) (set_state proc PROCESS_READY st)))"

definition add_to_schedule :: "ptr \<Rightarrow> sched \<Rightarrow> sched" where
  "add_to_schedule proc st =
     (let s1 = set_state proc PROCESS_READY st;
          s2 = s1\<lparr>sc_proclist := list_add (Node proc) Head (sc_proclist s1)\<rparr>;
          s3 = set_runqueue (list_add (Node proc) Head) s2
      in s3\<lparr>sc_n_processes := sc_n_processes s3 + 1\<rparr>)"

text \<open>
  \<open>reap\<close> without the release of the address space, which is \<open>reap_virtual_memory\<close> of the memory
  component.
\<close>

definition reap :: "sched \<Rightarrow> sched result" where
  "reap st =
     (let p = sc_current st;
          s1 = set_state p PROCESS_TERMINATED st;
          par = parent (sc_pcbs s1 p);
          wo = waiting_on (sc_pcbs s1 par)
      in if par = 0 then Inl WildAccess
         else scheduler (if wo = pid_of s1 p \<or> wo = WAITING_ALL
                         then set_runqueue (list_add (Node par) Head) (set_state par PROCESS_READY s1) else s1))"

text \<open>\<open>scheduler_init\<close>, given the addresses of the two control blocks that \<open>kmalloc\<close> returned.\<close>

definition scheduler_init :: "ptr \<Rightarrow> ptr \<Rightarrow> u64 \<Rightarrow> sched \<Rightarrow> sched" where
  "scheduler_init idle_proc progenitor_proc kstack st =
     (let s1 = st\<lparr>sc_proclist := INIT_LIST_HEAD Head (sc_proclist st), sc_runqueue := INIT_LIST_HEAD Head (sc_runqueue st),
                  sc_idle := idle_proc\<rparr>;
          s2 = set_pcb idle_proc (\<lambda>c. c\<lparr>kernel_stack := kstack, ttbr := 0, pstate := PROCESS_READY\<rparr>) s1;
          s3 = s2\<lparr>sc_proclist := INIT_LIST_HEAD (Node idle_proc) (sc_proclist s2),
                  sc_runqueue := INIT_LIST_HEAD (Node idle_proc) (sc_runqueue s2)\<rparr>;
          s4 = set_pcb progenitor_proc (\<lambda>c. c\<lparr>pid := 1\<rparr>) (s3\<lparr>sc_current := idle_proc\<rparr>)
      in s4\<lparr>sc_proclist := INIT_LIST_HEAD (Node progenitor_proc) (sc_proclist s4),
            sc_runqueue := INIT_LIST_HEAD (Node progenitor_proc) (sc_runqueue s4)\<rparr>)"

end
