(* ===== verification/Memprofiler.thy ===== *)
theory Memprofiler
  imports Address_Space Scheduler
begin

text \<open>
  The memory profiler \<open>memory/memprofiler.c\<close>, which fork, execve and the end of a process call. It only
  reads: the tables of a process found in the process list, and the page-frame array. What it prints is
  the result of the definitions. Its last theorems say that the figures are right in every state of the
  page allocator, and that the search for a process never ends where the process is not on the list.
\<close>

section \<open>Operations\<close>

text \<open>\<open>1 << order\<close> is an \<open>int\<close>. Past the end of the array the loop would go on in other memory.\<close>

function count_blocks :: "(nat \<Rightarrow> page_frame_t) \<Rightarrow> nat \<Rightarrow> u64 \<Rightarrow> u64 \<Rightarrow> (u64 \<times> u64) result" where
  "count_blocks fr cur blocks_free total_blocks =
     (if cur = NPAGES then Inr (blocks_free, total_blocks)
      else if NPAGES < cur \<or> 31 \<le> pf_order (fr cur) then Inl WildAccess
      else let n = 2 ^ pf_order (fr cur)
           in count_blocks fr (cur + n) (if pf_state (fr cur) = PAGE_FREE then blocks_free + of_nat n else blocks_free)
                (total_blocks + of_nat n))"
  by pat_completeness auto
termination
  by (relation "measure (\<lambda>(fr, cur, f, t). NPAGES - cur)") (auto intro: diff_less_mono2)

declare count_blocks.simps [simp del]

text \<open>The numbers that are printed: free pages, pages, and the percentage in millionths.\<close>

definition get_percent_free :: "buddy \<Rightarrow> (u64 \<times> u64 \<times> u64) result" where
  "get_percent_free st =
     bindR (count_blocks (frame_metadata st) 0 0 0) (\<lambda>(blocks_free, total_blocks).
       Inr (blocks_free, total_blocks, blocks_free * 100000000 div total_blocks))"

text \<open>
  The leaves of a table of a level, with the level and the address that are printed; a leaf is printed with
  its frame, so one outside the array is a wild read. The first argument of \<open>walk_virtual_memory\<close> counts the
  levels below the table.
\<close>

fun walk_entries ::
  "nat \<Rightarrow> (u64 \<Rightarrow> vm \<Rightarrow> (nat \<times> u64) list result) option \<Rightarrow> u64 \<Rightarrow> u64 list \<Rightarrow> vm \<Rightarrow> (nat \<times> u64) list result" where
  "walk_entries level sub parent_table [] st = Inr []"
| "walk_entries level sub parent_table (i # js) st =
     bindR (rd64 (parent_table + 8 * i) st) (\<lambda>e.
     bindR (if \<not> pte_valid e then Inr []
            else if sub \<noteq> None \<and> pte_type e then the sub (pa_to_va (push_bit 12 (pte_address e))) st
            else if NPAGES \<le> unat (pte_address e) then Inl WildAccess
            else Inr [(level, push_bit 12 (pte_address e))]) (\<lambda>ls.
     bindR (walk_entries level sub parent_table js st) (\<lambda>rest. Inr (ls @ rest))))"

primrec walk_virtual_memory :: "nat \<Rightarrow> u64 \<Rightarrow> vm \<Rightarrow> (nat \<times> u64) list result" where
  "walk_virtual_memory 0 parent_table st = walk_entries 3 None parent_table entry_indices st"
| "walk_virtual_memory (Suc d) parent_table st =
     walk_entries (2 - d) (Some (walk_virtual_memory d)) parent_table entry_indices st"

text \<open>
  The search. \<open>list_entry\<close> goes from the member at offset 32 back to the control block, and the condition
  of the loop compares a control block with a member; \<open>h\<close> is the address of the head of the list. What
  lies before the head is no control block.
\<close>

primrec node_addr :: "nat \<Rightarrow> lnode \<Rightarrow> nat" where
  "node_addr h Head = h"
| "node_addr h (Node p) = p + 32"

definition list_entry :: "nat \<Rightarrow> lnode \<Rightarrow> nat" where "list_entry h n = node_addr h n - 32"

primrec find_pid :: "nat \<Rightarrow> nat \<Rightarrow> u32 \<Rightarrow> sched \<Rightarrow> lnode \<Rightarrow> ptr option result" where
  "find_pid 0 h pd st entry = Inl OutOfFuel"
| "find_pid (Suc n) h pd st entry =
     (case entry of Head \<Rightarrow> Inl WildAccess
      | Node p \<Rightarrow>
          if pid_of st p = pd then Inr (Some p)
          else let entry2 = lnext (sc_proclist st) (Node p)
               in if list_entry h entry2 \<noteq> node_addr h (lprev (sc_proclist st) Head) then find_pid n h pd st entry2
                  else Inr None)"

text \<open>An empty list is reported, and searched all the same.\<close>

definition profile_pid :: "nat \<Rightarrow> nat \<Rightarrow> u32 \<Rightarrow> sched \<Rightarrow> vm \<Rightarrow> (nat \<times> u64) list option result" where
  "profile_pid n h pd st v =
     bindR (find_pid n h pd st (lnext (sc_proclist st) Head)) (\<lambda>r.
       case r of None \<Rightarrow> Inr None
       | Some p \<Rightarrow> bindR (walk_virtual_memory 3 (ttbr (sc_pcbs st p)) v) (\<lambda>ls. Inr (Some ls)))"

definition profile :: "nat \<Rightarrow> nat \<Rightarrow> u32 \<Rightarrow> sched \<Rightarrow> vm \<Rightarrow> ((nat \<times> u64) list option \<times> u64 \<times> u64 \<times> u64) result" where
  "profile n h pd st v =
     bindR (if pd \<noteq> 0 then profile_pid n h pd st v else Inr None) (\<lambda>r.
     bindR (get_percent_free (vm_buddy v)) (\<lambda>p. Inr (r, p)))"

section \<open>The figures are right\<close>

definition free_from :: "nat \<Rightarrow> buddy \<Rightarrow> nat \<Rightarrow> nat set" where
  "free_from R b p = {n \<in> free_pages R b. p \<le> n}"

lemma finite_free_from [simp]: "finite (free_from R b p)"
  by (simp add: free_from_def)

lemma free_from_ends: "free_from R b 0 = free_pages R b" "free_from R b NPAGES = {}"
  by (auto simp: free_from_def free_pages_def)

lemma count_blocks_step:
  assumes "p < NPAGES" and "pf_order (fr p) < 31"
  shows "count_blocks fr p f t = count_blocks fr (p + 2 ^ pf_order (fr p))
     (if pf_state (fr p) = PAGE_FREE then f + of_nat (2 ^ pf_order (fr p)) else f) (t + of_nat (2 ^ pf_order (fr p)))"
  using assms by (subst count_blocks.simps) (auto simp: Let_def)

text \<open>A block is owned as a whole or free as a whole.\<close>

lemma block_owned:
  assumes wf: "buddy_wf R b" and p: "p \<in> heads R b" and n: "p \<le> n" "n < p + 2 ^ pf_order (frame_metadata b p)"
  shows "owned R b n \<longleftrightarrow> pf_state (frame_metadata b p) \<noteq> PAGE_FREE"
proof
  assume "owned R b n"
  moreover have "R \<le> n" using headsD(1) [OF p] n(1) by simp
  ultimately obtain q k where q: "(q, k) \<in> live_blocks R b" "q \<le> n" "n < q + 2 ^ k" by (auto simp: owned_def)
  then have qh: "q \<in> heads R b" "k = pf_order (frame_metadata b q)" "pf_state (frame_metadata b q) \<noteq> PAGE_FREE"
    by (simp_all add: live_blocks_iff)
  have "q = p"
    using block_heads [OF wf p qh(1)] block_heads [OF wf qh(1) p] q(2,3) n qh(2) by (cases "p \<le> q") auto
  with qh show "pf_state (frame_metadata b p) \<noteq> PAGE_FREE" by simp
next
  assume "pf_state (frame_metadata b p) \<noteq> PAGE_FREE"
  with p n show "owned R b n" by (auto simp: owned_def live_blocks_iff)
qed

lemma free_from_block:
  assumes wf: "buddy_wf R b" and p: "p \<in> heads R b"
  shows "card (free_from R b p) = (if pf_state (frame_metadata b p) = PAGE_FREE then 2 ^ pf_order (frame_metadata b p) else 0)
    + card (free_from R b (p + 2 ^ pf_order (frame_metadata b p)))"
proof -
  let ?e = "p + 2 ^ pf_order (frame_metadata b p)"
  have le: "?e \<le> NPAGES" using head_order(1) [OF wf p] .
  have own: "owned R b n \<longleftrightarrow> pf_state (frame_metadata b p) \<noteq> PAGE_FREE" if "p \<le> n" "n < ?e" for n
    using block_owned [OF wf p that] .
  have "free_from R b p = (if pf_state (frame_metadata b p) = PAGE_FREE then {p ..< ?e} else {}) \<union> free_from R b ?e"
  proof (rule set_eqI)
    fix n
    show "n \<in> free_from R b p \<longleftrightarrow>
        n \<in> (if pf_state (frame_metadata b p) = PAGE_FREE then {p ..< ?e} else {}) \<union> free_from R b ?e"
      using own [of n] le by (cases "n < ?e") (auto simp: free_from_def free_pages_def)
  qed
  moreover have "{p ..< ?e} \<inter> free_from R b ?e = {}" by (auto simp: free_from_def)
  ultimately show ?thesis by (simp add: card_Un_disjoint)
qed

lemma count_blocks_managed:
  assumes wf: "buddy_wf R b" and "p = NPAGES \<or> p \<in> heads R b"
  shows "count_blocks (frame_metadata b) p f t = Inr (f + of_nat (card (free_from R b p)), t + of_nat (NPAGES - p))"
  using assms(2)
proof (induction "NPAGES - p" arbitrary: p f t rule: less_induct)
  case less
  show ?case
  proof (cases "p = NPAGES")
    case True
    then show ?thesis by (subst count_blocks.simps) (simp add: free_from_ends)
  next
    case False
    then have p: "p \<in> heads R b" using less.prems by simp
    let ?k = "pf_order (frame_metadata b p)" and ?e = "p + 2 ^ pf_order (frame_metadata b p)"
    note h = headsD [OF p] and o = head_order [OF wf p]
    have "?e = NPAGES \<or> is_head (frame_metadata b ?e)" using tiles_next [OF buddy_wfD(3) [OF wf] h] .
    then have e: "?e = NPAGES \<or> ?e \<in> heads R b" using o(1) h(1) by (auto simp: heads_def)
    have lt: "NPAGES - ?e < NPAGES - p" using h(2) by (intro diff_less_mono2) simp_all
    have "count_blocks (frame_metadata b) p f t = count_blocks (frame_metadata b) ?e
        (if pf_state (frame_metadata b p) = PAGE_FREE then f + of_nat (2 ^ ?k) else f) (t + of_nat (2 ^ ?k))"
      using o(2) by (intro count_blocks_step h(2)) (simp add: MAX_ORDER_def)
    also have "\<dots> = Inr (f + of_nat (card (free_from R b p)), t + of_nat (NPAGES - p))"
    proof -
      have n: "NPAGES - p = 2 ^ ?k + (NPAGES - ?e)" using o(1) by arith
      have c: "(if pf_state (frame_metadata b p) = PAGE_FREE then f + of_nat (2 ^ ?k) else f) + of_nat (card (free_from R b ?e))
          = f + of_nat (card (free_from R b p))"
        unfolding free_from_block [OF wf p] of_nat_add 
          by (cases "pf_state (frame_metadata b p) = PAGE_FREE")
            (simp_all add: add.assoc)
      show ?thesis unfolding less.hyps [OF lt e] c n of_nat_add by (simp only: add.assoc)
    qed
    finally show ?thesis .
  qed
qed

lemma count_blocks_reserved:
  assumes wf: "buddy_wf R b" and o: "\<forall>q < R. pf_order (frame_metadata b q) = 0" and "p \<le> R"
  shows "count_blocks (frame_metadata b) p f t = count_blocks (frame_metadata b) R f (t + of_nat (R - p))"
  using assms(3)
proof (induction "R - p" arbitrary: p t)
  case (Suc n)
  then have p: "p < R" by simp
  have "count_blocks (frame_metadata b) p f t = count_blocks (frame_metadata b) (Suc p) f (t + 1)"
    using count_blocks_step [of p "frame_metadata b" f t] p o buddy_wfD(2,5) [OF wf] by (simp add: reserved_ok_def)
  also have "\<dots> = count_blocks (frame_metadata b) R f (t + 1 + of_nat (R - Suc p))"
    using Suc.hyps(1) [of "Suc p"] Suc.hyps(2) p by simp
  also have "t + 1 + of_nat (R - Suc p) = t + of_nat (R - p)"
    using p by (simp add: add.assoc flip: Suc_diff_Suc)
  finally show ?case .
qed simp


text \<open>The initialisation leaves the orders of the reserved pages at zero.\<close>

lemma init_fold_below:
  "fold (init_block avail) is (Inr (cur, st)) = Inr (e, s) \<Longrightarrow> p < cur \<Longrightarrow> frame_metadata s p = frame_metadata st p"
proof (induction "is" arbitrary: cur st)
  case (Cons i js)
  show ?case
  proof (cases "bit avail i")
    case True
    show ?thesis
    proof (cases "cur + 2 ^ i \<le> NPAGES")
      case le: True
      obtain s1 where s1: "init_block avail i (Inr (cur, st)) = Inr (cur + 2 ^ i, s1)"
          "\<forall>x. x < cur \<or> cur + 2 ^ i \<le> x \<longrightarrow> frame_metadata s1 x = frame_metadata st x"
        using init_block_eq [OF True le, of st] by blast
      then show ?thesis using Cons.IH [of "cur + 2 ^ i" s1] Cons.prems by simp
    next
      case False
      then have "init_block avail i (Inr (cur, st)) = Inl WildAccess" using True by (simp add: init_block_def)
      then show ?thesis using Cons.prems by (simp add: init_block_Inl)
    qed
  next
    case False
    then show ?thesis using Cons by (simp add: init_block_def)
  qed
qed simp

lemma initialize_orders:
  assumes "initialize_page_frame_array mem st = Inr (R, s)" and "q < R"
  shows "pf_order (frame_metadata s q) = 0"
proof -
  define s0 where "s0 = set_links (\<lambda>L. fold (\<lambda>k. INIT_LIST_HEAD (BuddyList k)) [0..<Suc MAX_ORDER] L) st"
  define s1 where "s1 = set_links zero_links
    (s0\<lparr>frame_metadata := (\<lambda>p. if p < NPAGES then zero_frame else frame_metadata s0 p)\<rparr>)"
  define s2 where "s2 = for_range 0 R (\<lambda>i. set_frame (0 + i) (\<lambda>f. f\<lparr>pf_state := PAGE_RESERVED\<rparr>)) s1"
  have R: "R = (mem + 0xFFF) div 2 ^ 12" "R \<le> NPAGES"
    and i: "initialize_buddy_allocator R (2 ^ 18 - R) s2 = Inr s"
    using assms(1) unfolding s2_def s1_def s0_def
    by (auto simp: initialize_page_frame_array_def Let_def bindR_eq_Inr split: if_splits simp del: upt_Suc)
  then obtain e where "fold (init_block (2 ^ 18 - R)) (rev [0..<Suc MAX_ORDER]) (Inr (R, s2)) = Inr (e, s)"
    by (cases "fold (init_block (2 ^ 18 - R)) (rev [0..<Suc MAX_ORDER]) (Inr (R, s2))")
      (auto simp: initialize_buddy_allocator_def simp del: upt_Suc)
  from init_fold_below [OF this assms(2)] have "frame_metadata s q = frame_metadata s2 q" .
  also have "pf_order \<dots> = 0"
    using assms(2) R(2) unfolding s2_def frames_for_range(1) [OF refl] by (simp add: s1_def zero_frame_def)
  finally show ?thesis .
qed


section \<open>The search\<close>

text \<open>
  Whatever the list holds, the search finds the first process with the number, and where there is none it
  runs past the head of the list, since the condition of its loop holds for every member: a control block
  is compared with the address of a member. The control blocks and the head do not overlap.
\<close>

lemma find_pid_segment:
  assumes ap: "\<forall>p \<in> set ps. \<forall>q \<in> set ps. p \<noteq> q + 32" "\<forall>q \<in> set ps. h - 32 \<noteq> q + 32"
    and prev: "lprev (sc_proclist st) Head \<in> Node ` set ps"
  shows "seg (sc_proclist st) a (map Node xs) Head \<Longrightarrow> set xs \<subseteq> set ps \<Longrightarrow> length xs < n \<Longrightarrow>
    find_pid n h pd st (hd (map Node xs @ [Head])) =
      (case find (\<lambda>p. pid_of st p = pd) xs of Some p \<Rightarrow> Inr (Some p) | None \<Rightarrow> Inl WildAccess)"
proof (induction xs arbitrary: a n)
  case Nil
  then show ?case by (cases n) simp_all
next
  case (Cons x xs)
  obtain m where n: "n = Suc m" "length xs < m" using Cons.prems(3) by (cases n) auto
  let ?next = "hd (map Node xs @ [Head])"
  have sg: "seg (sc_proclist st) (Node x) (map Node xs) Head" using Cons.prems(1) by simp
  have nx: "lnext (sc_proclist st) (Node x) = ?next" using seg_nextD [OF sg] .
  obtain q where q: "q \<in> set ps" "lprev (sc_proclist st) Head = Node q" using prev by blast
  have "list_entry h ?next \<noteq> q + 32"
    using ap q(1) Cons.prems(2) by (cases xs) (auto simp: list_entry_def)
  then show ?case
    using Cons.IH [OF sg _ n(2)] Cons.prems(2) n(1) nx q(2) by (simp add: Let_def)
qed

theorem profile_search:
  assumes "dlist (sc_proclist st) Head (map Node ps)" and "length ps < n"
    and "\<forall>p \<in> set ps. \<forall>q \<in> set ps. p \<noteq> q + 32" and "\<forall>q \<in> set ps. h - 32 \<noteq> q + 32"
  shows "find_pid n h pd st (lnext (sc_proclist st) Head) =
    (case find (\<lambda>p. pid_of st p = pd) ps of Some p \<Rightarrow> Inr (Some p) | None \<Rightarrow> Inl WildAccess)"
proof (cases ps)
  case Nil
  then show ?thesis using assms(1,2) by (cases n) (auto simp: dlist_def)
next
  case (Cons x xs)
  have "lprev (sc_proclist st) Head \<in> Node ` set ps"
    using dlist_prev [OF assms(1)] Cons by (simp add: last_map)
  then show ?thesis
    using find_pid_segment [OF assms(3,4), of st Head ps n pd] assms(1,2) dlist_next [OF assms(1)]
    by (simp add: dlist_def)
qed

end
