(* ===== verification/Utils.thy ===== *)
theory Utils
  imports Prelude
begin

text \<open>
  The byte and string routines: \<open>memory/mem.c\<close> with the vector loops of \<open>mem.S\<close>, and \<open>strcmp\<close>,
  \<open>strlen\<close> and \<open>strtok\<close> of \<open>utils/utils.c\<close>. Memory is a function from addresses to bytes; regions do
  not wrap around the address space. A string is the list of its bytes before the terminating zero,
  and a pointer into a string the list from there on.
\<close>

section \<open>Memory\<close>

type_synonym bytes = "nat \<Rightarrow> u8"

text \<open>One vector of 16 bytes. The loops test their counter after the first round.\<close>

definition copy16 :: "nat \<Rightarrow> nat \<Rightarrow> bytes \<Rightarrow> bytes" where
  "copy16 dest src m = (\<lambda>a. if dest \<le> a \<and> a < dest + 16 then m (src + (a - dest)) else m a)"

definition set16 :: "nat \<Rightarrow> u8 \<Rightarrow> bytes \<Rightarrow> bytes" where
  "set16 p v m = (\<lambda>a. if p \<le> a \<and> a < p + 16 then v else m a)"

fun neon_16_memcpy :: "nat \<Rightarrow> nat \<Rightarrow> nat \<Rightarrow> bytes \<Rightarrow> bytes" where
  "neon_16_memcpy dest src n m =
     (let m' = copy16 dest src m
      in if 1 < n then neon_16_memcpy (dest + 16) (src + 16) (n - 1) m' else m')"

fun neon_64_memcpy :: "nat \<Rightarrow> nat \<Rightarrow> nat \<Rightarrow> bytes \<Rightarrow> bytes" where
  "neon_64_memcpy dest src n m =
     (let m' = copy16 (dest + 48) (src + 48) (copy16 (dest + 32) (src + 32)
                 (copy16 (dest + 16) (src + 16) (copy16 dest src m)))
      in if 1 < n then neon_64_memcpy (dest + 64) (src + 64) (n - 1) m' else m')"

fun neon_8_memset :: "nat \<Rightarrow> u8 \<Rightarrow> nat \<Rightarrow> bytes \<Rightarrow> bytes" where
  "neon_8_memset p v n m =
     (let m' = set16 p v m in if 1 < n then neon_8_memset (p + 16) v (n - 1) m' else m')"

declare neon_16_memcpy.simps [simp del] neon_64_memcpy.simps [simp del] neon_8_memset.simps [simp del]

text \<open>The byte loops at the end.\<close>

definition copy_tail :: "nat \<Rightarrow> nat \<Rightarrow> nat \<Rightarrow> bytes \<Rightarrow> bytes" where
  "copy_tail dest src n m = for_range 0 n (\<lambda>i m. m(dest + i := m (src + i))) m"

definition set_tail :: "nat \<Rightarrow> u8 \<Rightarrow> nat \<Rightarrow> bytes \<Rightarrow> bytes" where
  "set_tail p v n m = for_range 0 n (\<lambda>i m. m(p + i := v)) m"

definition memcpy :: "nat \<Rightarrow> nat \<Rightarrow> u32 \<Rightarrow> bytes \<Rightarrow> bytes" where
  "memcpy dest src bytes m =
     (let n = unat bytes;
          iters = n div 64;
          m1 = (if iters \<noteq> 0 then neon_64_memcpy dest src iters m else m);
          dest1 = dest + iters * 64; src1 = src + iters * 64;
          remaining = n mod 64;
          iters2 = remaining div 16;
          m2 = (if iters2 \<noteq> 0 then neon_16_memcpy dest1 src1 iters2 m1 else m1)
      in copy_tail (dest1 + iters2 * 16) (src1 + iters2 * 16) (remaining mod 16) m2)"

definition memset :: "nat \<Rightarrow> u8 \<Rightarrow> nat \<Rightarrow> bytes \<Rightarrow> bytes" where
  "memset p value len m =
     (let vectors = len div 16
      in set_tail (p + vectors * 16) value (len mod 16) (neon_8_memset p value vectors m))"

subsection \<open>What they do\<close>

text \<open>The effect of a copy and of a fill of a region.\<close>

definition copied :: "nat \<Rightarrow> nat \<Rightarrow> nat \<Rightarrow> bytes \<Rightarrow> bytes" where
  "copied dest src n m = (\<lambda>a. if dest \<le> a \<and> a < dest + n then m (src + (a - dest)) else m a)"

definition filled :: "nat \<Rightarrow> u8 \<Rightarrow> nat \<Rightarrow> bytes \<Rightarrow> bytes" where
  "filled p v n m = (\<lambda>a. if p \<le> a \<and> a < p + n then v else m a)"

definition apart :: "nat \<Rightarrow> nat \<Rightarrow> nat \<Rightarrow> bool" where
  "apart dest src n \<longleftrightarrow> dest + n \<le> src \<or> src + n \<le> dest"

lemma copied_0 [simp]: "copied dest src 0 m = m"
  by (auto simp: copied_def fun_eq_iff)

lemma copied_append:
  assumes "apart dest src (a + b)"
  shows "copied (dest + a) (src + a) b (copied dest src a m) = copied dest src (a + b) m"
  using assms by (auto simp: copied_def apart_def fun_eq_iff)

lemma copy16_copied: "copy16 = (\<lambda>d s. copied d s 16)"
  by (simp add: copy16_def copied_def fun_eq_iff)

lemma filled_append: "filled (p + a) v b (filled p v a m) = filled p v (a + b) m"
  by (auto simp: filled_def fun_eq_iff)

lemma apart_less: "apart d s n \<Longrightarrow> k \<le> n \<Longrightarrow> apart d s k"
  by (auto simp: apart_def)

lemma apart_shift: "apart d s (k + n) \<Longrightarrow> apart (d + k) (s + k) n"
  by (auto simp: apart_def)

lemma neon_16_copied:
  "0 < n \<Longrightarrow> apart dest src (16 * n) \<Longrightarrow> neon_16_memcpy dest src n m = copied dest src (16 * n) m"
proof (induction n arbitrary: dest src m)
  case (Suc n)
  show ?case
  proof (cases "n = 0")
    case True
    then show ?thesis by (subst neon_16_memcpy.simps) (simp add: copy16_copied)
  next
    case False
    have "apart (dest + 16) (src + 16) (16 * n)" using Suc.prems(2) apart_shift [of dest src 16 "16 * n"] by simp
    then have "neon_16_memcpy dest src (Suc n) m = copied (dest + 16) (src + 16) (16 * n) (copied dest src 16 m)"
      using Suc.IH False by (subst neon_16_memcpy.simps) (simp add: copy16_copied)
    then show ?thesis using copied_append [of dest src 16 "16 * n"] Suc.prems(2) by simp
  qed
qed simp

lemma copy64:
  assumes "apart dest src 64"
  shows "copy16 (dest + 48) (src + 48) (copy16 (dest + 32) (src + 32) (copy16 (dest + 16) (src + 16) (copy16 dest src m)))
    = copied dest src 64 m"
  using copied_append [of dest src 16 16 m] copied_append [of dest src 32 16 m] copied_append [of dest src 48 16 m]
    apart_less [OF assms, of 32] apart_less [OF assms, of 48] assms
  by (simp add: copy16_copied)

lemma neon_64_copied:
  "0 < n \<Longrightarrow> apart dest src (64 * n) \<Longrightarrow> neon_64_memcpy dest src n m = copied dest src (64 * n) m"
proof (induction n arbitrary: dest src m)
  case (Suc n)
  have a: "apart dest src 64" using Suc.prems(2) by (rule apart_less) simp
  show ?case
  proof (cases "n = 0")
    case True
    then show ?thesis using a by (subst neon_64_memcpy.simps) (simp add: copy64)
  next
    case False
    have "apart (dest + 64) (src + 64) (64 * n)" using Suc.prems(2) apart_shift [of dest src 64 "64 * n"] by simp
    then have "neon_64_memcpy dest src (Suc n) m = copied (dest + 64) (src + 64) (64 * n) (copied dest src 64 m)"
      using Suc.IH False a by (subst neon_64_memcpy.simps) (simp add: copy64)
    then show ?thesis using copied_append [of dest src 64 "64 * n"] Suc.prems(2) by simp
  qed
qed simp

lemma neon_8_filled: "neon_8_memset p v n m = filled p v (16 * max 1 n) m"
proof (induction n arbitrary: p m)
  case 0
  then show ?case by (subst neon_8_memset.simps) (simp add: set16_def filled_def fun_eq_iff)
next
  case (Suc n)
  show ?case
  proof (cases "n = 0")
    case True
    then show ?thesis by (subst neon_8_memset.simps) (simp add: set16_def filled_def fun_eq_iff)
  next
    case False
    have "set16 p v m = filled p v 16 m" by (simp add: set16_def filled_def)
    then have "neon_8_memset p v (Suc n) m = filled (p + 16) v (16 * n) (filled p v 16 m)"
      using Suc False by (subst neon_8_memset.simps) simp
    then show ?thesis using filled_append [of p 16 v "16 * n" m] by simp
  qed
qed

lemma copy_tail_copied: "apart dest src n \<Longrightarrow> copy_tail dest src n m = copied dest src n m"
proof (induction n)
  case 0
  then show ?case by (simp add: copy_tail_def)
next
  case (Suc n)
  have e: "copy_tail dest src (Suc n) m = (copy_tail dest src n m)(dest + n := copy_tail dest src n m (src + n))"
    by (simp add: copy_tail_def for_range_Suc)
  have "apart dest src n" by (rule apart_less [OF Suc.prems]) simp
  then show ?case unfolding e Suc.IH [OF \<open>apart dest src n\<close>]
    using Suc.prems by (auto simp: copied_def apart_def fun_eq_iff)
qed

lemma set_tail_filled: "set_tail p v n m = filled p v n m"
proof (induction n)
  case 0
  then show ?case by (auto simp: set_tail_def filled_def fun_eq_iff)
next
  case (Suc n)
  have "set_tail p v (Suc n) m = (set_tail p v n m)(p + n := v)" by (simp add: set_tail_def for_range_Suc)
  then show ?case unfolding Suc by (auto simp: filled_def fun_eq_iff)
qed

section \<open>Strings\<close>

fun strcmp :: "u8 list \<Rightarrow> u8 list \<Rightarrow> bool" where
  "strcmp (a # as) (b # bs) = (if a \<noteq> b then True else strcmp as bs)"
| "strcmp as bs = (\<not> (as = [] \<and> bs = []))"

fun strlen :: "u8 list \<Rightarrow> nat" where
  "strlen [] = 0"
| "strlen (c # cs) = Suc (strlen cs)"

text \<open>
  \<open>strtok\<close> returns the token and the new save pointer. Skipping the delimiters and finding the end
  of the token are its two loops; the delimiter found is overwritten with a zero, which ends the
  token. A save pointer at the end of the string is the empty list.
\<close>

fun skip_delims :: "u8 \<Rightarrow> u8 list \<Rightarrow> u8 list" where
  "skip_delims d (c # cs) = (if c = d then skip_delims d cs else c # cs)"
| "skip_delims d [] = []"

fun scan_token :: "u8 \<Rightarrow> u8 list \<Rightarrow> u8 list \<times> u8 list" where
  "scan_token d (c # cs) = (if c = d then ([], cs) else let (t, r) = scan_token d cs in (c # t, r))"
| "scan_token d [] = ([], [])"

definition strtok :: "u8 \<Rightarrow> u8 list \<Rightarrow> u8 list option \<times> u8 list" where
  "strtok delim s =
     (case skip_delims delim s of [] \<Rightarrow> (None, [])
      | s' \<Rightarrow> let (token, save) = scan_token delim s' in (Some token, save))"

lemma skip_delims_eq: "skip_delims d s = dropWhile (\<lambda>c. c = d) s"
  by (induction d s rule: skip_delims.induct) simp_all

lemma scan_token_eq: "scan_token d s = (takeWhile (\<lambda>c. c \<noteq> d) s, tl (dropWhile (\<lambda>c. c \<noteq> d) s))"
  by (induction d s rule: scan_token.induct) (simp_all add: Let_def split: prod.split)

lemma scan_token_shorter: "s \<noteq> [] \<Longrightarrow> length (snd (scan_token d s)) < length s"
  using length_dropWhile_le [of "\<lambda>c. c \<noteq> d" s] unfolding scan_token_eq
  by (cases s) (auto simp: less_Suc_eq_le intro: le_trans [OF diff_le_self])

lemma strtok_shorter: "strtok d s = (Some t, r) \<Longrightarrow> length r < length s"
proof -
  assume a: "strtok d s = (Some t, r)"
  then obtain c cs where k: "skip_delims d s = c # cs" "r = snd (scan_token d (c # cs))"
    by (auto simp: strtok_def Let_def split: list.splits prod.splits)
  have "length r < length (c # cs)" unfolding k(2) by (rule scan_token_shorter) simp
  also have "\<dots> \<le> length s" using k(1) length_dropWhile_le [of "\<lambda>x. x = d" s] by (simp add: skip_delims_eq)
  finally show ?thesis .
qed

text \<open>The loop of \<open>open\<close> over the components of a path.\<close>

function tokens :: "u8 \<Rightarrow> u8 list \<Rightarrow> u8 list list" where
  "tokens d s = (case strtok d s of (None, _) \<Rightarrow> [] | (Some t, save) \<Rightarrow> t # tokens d save)"
  by pat_completeness auto
termination
  by (relation "measure (\<lambda>(d, s). length s)") (auto dest: strtok_shorter [OF sym] strtok_shorter)

declare tokens.simps [simp del]

text \<open>The pieces between the delimiters.\<close>

fun split_at :: "u8 \<Rightarrow> u8 list \<Rightarrow> u8 list list" where
  "split_at d [] = [[]]"
| "split_at d (c # cs) = (if c = d then [] # split_at d cs else (c # hd (split_at d cs)) # tl (split_at d cs))"

definition fields :: "u8 \<Rightarrow> u8 list \<Rightarrow> u8 list list" where
  "fields d s = filter (\<lambda>f. f \<noteq> []) (split_at d s)"

lemma split_at_not_Nil [simp]: "split_at d s \<noteq> []"
  by (cases s) auto

lemma fields_skip: "fields d (dropWhile (\<lambda>c. c = d) s) = fields d s"
  by (induction s) (simp_all add: fields_def)

lemma split_at_scan:
  "split_at d s = takeWhile (\<lambda>c. c \<noteq> d) s #
     (if dropWhile (\<lambda>c. c \<noteq> d) s = [] then [] else split_at d (tl (dropWhile (\<lambda>c. c \<noteq> d) s)))"
  by (induction s) auto

subsection \<open>Copying and filling\<close>

lemma memcpy_copied:
  assumes "apart dest src (unat n)"
  shows "memcpy dest src n m = copied dest src (unat n) m"
proof -
  define N where "N = unat n"
  let ?a = "64 * (N div 64)" and ?r = "N mod 64"
  let ?b = "16 * (?r div 16)" and ?c = "?r mod 16"
  have N: "N = ?a + ?r" "?r = ?b + ?c" by simp_all
  have ap: "apart dest src N" using assms by (simp add: N_def)
  have apa: "apart dest src ?a" "apart dest src (?a + ?b)" "apart dest src (?a + ?b + ?c)"
    using apart_less [OF ap, of ?a] apart_less [OF ap, of "?a + ?b"] ap N by simp_all
  have m1: "(if N div 64 \<noteq> 0 then neon_64_memcpy dest src (N div 64) m else m) = copied dest src ?a m"
    using neon_64_copied [of "N div 64" dest src m] apa(1) by simp
  have m2: "(if ?r div 16 \<noteq> 0 then neon_16_memcpy (dest + ?a) (src + ?a) (?r div 16) (copied dest src ?a m)
      else copied dest src ?a m) = copied dest src (?a + ?b) m"
    using neon_16_copied [of "?r div 16" "dest + ?a" "src + ?a"] apart_shift [OF apa(2)] copied_append [OF apa(2)] by simp
  have "memcpy dest src n m = copy_tail (dest + (?a + ?b)) (src + (?a + ?b)) ?c (copied dest src (?a + ?b) m)"
    unfolding memcpy_def Let_def N_def [symmetric] mult.commute [of _ 64] mult.commute [of _ 16] m1 m2 add.assoc ..
  also have "\<dots> = copied (dest + (?a + ?b)) (src + (?a + ?b)) ?c (copied dest src (?a + ?b) m)"
    by (rule copy_tail_copied) (rule apart_shift [OF apa(3)])
  also have "\<dots> = copied dest src (?a + ?b + ?c) m" by (rule copied_append [OF apa(3)])
  also have "?a + ?b + ?c = N" using N by linarith
  finally show ?thesis by (simp add: N_def)
qed

lemma memset_eq:
  "memset p v len m = (\<lambda>a. if p \<le> a \<and> a < p + max 16 len then v else m a)"
proof -
  have e: "memset p v len m = filled (p + 16 * (len div 16)) v (len mod 16) (filled p v (16 * max 1 (len div 16)) m)"
    by (simp add: memset_def Let_def neon_8_filled set_tail_filled mult.commute)
  show ?thesis
  proof (cases "16 \<le> len")
    case True
    then have mx: "max 1 (len div 16) = len div 16" by (simp add: Suc_leI div_greater_zero_iff)
    have "memset p v len m = filled p v (16 * (len div 16) + len mod 16) m" unfolding e mx by (rule filled_append)
    then show ?thesis using True by (simp add: filled_def max_def)
  next
    case False
    then show ?thesis unfolding e by (auto simp: filled_def fun_eq_iff max_def)
  qed
qed

section \<open>Properties\<close>

text \<open>
  C35. \<open>memcpy\<close> copies exactly the given number of bytes between regions that do not overlap, for
  every size, and changes nothing else.
\<close>

theorem memcpy_correct:
  assumes "apart dest src (unat n)"
  shows "memcpy dest src n m = copied dest src (unat n) m"
  by (rule memcpy_copied [OF assms])

theorem memcpy_correct_witness:
  "memcpy 1000 0 100 (\<lambda>a. of_nat a) 1099 = 99 \<and> memcpy 1000 0 100 (\<lambda>a. of_nat a) 1100 = of_nat 1100"
  using memcpy_correct [of 1000 0 100 "\<lambda>a. of_nat a"] by (simp add: apart_def copied_def)

text \<open>
  \<open>memset\<close> fills exactly the given region from 16 bytes on. For a shorter region, the vector loop
  runs once before it looks at its counter, so 16 bytes are written, past the end of the region.
\<close>

theorem memset_effect:
  "memset p v len m = (\<lambda>a. if p \<le> a \<and> a < p + max 16 len then v else m a)"
  by (rule memset_eq)

lemma tokens_fields: "tokens d s = fields d s"
proof (induction d s rule: tokens.induct)
  case (1 d s)
  show ?case
  proof (cases "skip_delims d s")
    case Nil
    then have "fields d s = fields d []" using fields_skip [of d s] unfolding skip_delims_eq by (simp only:)
    then have "fields d s = []" by (simp add: fields_def)
    then show ?thesis using Nil by (subst tokens.simps) (simp add: strtok_def)
  next
    case (Cons c cs)
    obtain t r where tr: "scan_token d (c # cs) = (t, r)" by (cases "scan_token d (c # cs)")
    have st: "strtok d s = (Some t, r)" using Cons tr by (simp add: strtok_def)
    have IH: "tokens d r = fields d r" by (rule "1.IH" [OF st [symmetric] refl])
    have cd: "c \<noteq> d" using dropWhile_eq_Cons_conv [of "\<lambda>c. c = d" s c cs] Cons by (simp add: skip_delims_eq)
    have t: "t = takeWhile (\<lambda>x. x \<noteq> d) (c # cs)" "r = tl (dropWhile (\<lambda>x. x \<noteq> d) (c # cs))"
      using tr by (simp_all add: scan_token_eq)
    have "fields d (c # cs) = t # fields d r"
    proof (cases "dropWhile (\<lambda>x. x \<noteq> d) (c # cs) = []")
      case True
      then have "split_at d (c # cs) = [t]" "r = []" using split_at_scan [of d "c # cs"] t by (simp_all only: if_True list.sel simp_thms)
      then show ?thesis using cd t(1) unfolding fields_def by simp
    next
      case False
      then have "split_at d (c # cs) = t # split_at d r" using split_at_scan [of d "c # cs"] t by (simp only: if_False simp_thms)
      then show ?thesis using cd t(1) unfolding fields_def by (simp del: split_at.simps)
    qed
    then have "fields d s = t # fields d r" using fields_skip [of d s] Cons by (simp add: skip_delims_eq)
    then show ?thesis using st IH by (subst tokens.simps) simp
  qed
qed

lemma strcmp_eq: "strcmp a b \<longleftrightarrow> a \<noteq> b"
  by (induction a b rule: strcmp.induct) auto

text \<open>
  Path splitting. The loop that calls \<open>strtok\<close> until it returns NULL ends, and yields the
  non-empty pieces of the string between the delimiters, in order; and \<open>strcmp\<close> is zero exactly on
  equal strings.
\<close>

theorem path_tokens_correct:
  "tokens d s = fields d s \<and> (strcmp a b \<longleftrightarrow> a \<noteq> b) \<and> strlen a = length a"
proof -
  have "strlen a = length a" by (induction a) simp_all
  then show ?thesis using tokens_fields strcmp_eq by simp
qed

end
