(* ===== verification/Filesystem.thy ===== *)
theory Filesystem
  imports Utils
begin

text \<open>
  The read-only file system: \<open>filesystem/disk.c\<close> and \<open>filesystem/filesystem.c\<close> with the structures of
  \<open>types/disk_types.h\<close>. The card is a function from byte positions to bytes; \<open>disk_read\<close> is the pair
  \<open>emmc_seek_sector\<close>, \<open>emmc_read\<close> of the driver, which the theory of the driver shows to deliver the
  sectors of the card (the callers ignore its result, so a failed read is not seen here). Memory
  holds the scratch block \<open>rootfs.block_buf\<close> and the buffers of the callers; inodes are objects of
  their own. Allocation succeeds; objects are numbered, and the numbers of freed objects recorded.
\<close>

section \<open>Structures\<close>

text \<open>A packed little-endian structure is the list of its members with their sizes.\<close>

type_synonym layout = "(string \<times> nat) list"

primrec le :: "u8 list \<Rightarrow> nat" where
  "le [] = 0"
| "le (b # bs) = unat b + 256 * le bs"

primrec offset_of :: "layout \<Rightarrow> string \<Rightarrow> nat" where
  "offset_of [] f = 0"
| "offset_of (m # l) f = (if fst m = f then 0 else snd m + offset_of l f)"

definition size_of :: "layout \<Rightarrow> nat" where "size_of l = sum_list (map snd l)"

definition width_of :: "layout \<Rightarrow> string \<Rightarrow> nat" where
  "width_of l f = (case map_of l f of None \<Rightarrow> 0 | Some n \<Rightarrow> n)"

definition get_member :: "layout \<Rightarrow> string \<Rightarrow> u8 list \<Rightarrow> nat" where
  "get_member l f bs = le (take (width_of l f) (drop (offset_of l f) bs))"

definition ext_superblock :: layout where
  "ext_superblock =
     [(''s_inodes_count'', 4), (''s_blocks_count'', 4), (''s_r_blocks_count'', 4), (''s_free_blocks_count'', 4),
      (''s_free_inodes_count'', 4), (''s_first_data_block'', 4), (''s_log_block_size'', 4), (''s_log_frag_size'', 4),
      (''s_blocks_per_group'', 4), (''s_frags_per_group'', 4), (''s_inodes_per_group'', 4), (''s_mtime'', 4),
      (''s_wtime'', 4), (''s_mnt_count'', 2), (''s_max_mnt_count'', 2), (''s_magic'', 2), (''s_state'', 2),
      (''s_errors'', 2), (''s_minor_rev_level'', 2), (''s_lastcheck'', 4), (''s_checkinterval'', 4),
      (''s_creator_os'', 4), (''s_rev_level'', 4), (''s_def_resuid'', 2), (''s_def_resgid'', 2),
      (''s_first_ino'', 4), (''s_inode_size'', 2), (''s_block_group_nr'', 2), (''s_feature_compat'', 4),
      (''s_feature_incompat'', 4), (''s_feature_ro_compat'', 4), (''s_uuid'', 16), (''s_volume_name'', 16),
      (''s_last_mounted'', 64), (''s_algo_bitmap'', 4), (''s_prealloc_blocks'', 1), (''s_prealloc_dir_blocks'', 1),
      (''s_reserved_gdt_blocks'', 2), (''s_journal_uuid'', 16), (''s_journal_inum'', 4), (''s_journal_dev'', 4),
      (''s_last_orphan'', 4), (''s_hash_seed'', 16), (''s_def_hash_version'', 1), (''s_jnl_backup_type'', 1),
      (''s_desc_size'', 1)]"

definition ext4_inode :: layout where
  "ext4_inode =
     [(''i_mode'', 2), (''i_uid'', 2), (''i_size_lo'', 4), (''i_atime'', 4), (''i_ctime'', 4), (''i_mtime'', 4),
      (''i_dtime'', 4), (''i_gid'', 2), (''i_links_count'', 2), (''i_blocks_lo'', 4), (''i_flags'', 4),
      (''i_osd1'', 4), (''i_block'', 60), (''i_generation'', 4), (''i_file_acl_lo'', 4), (''i_size_high'', 4),
      (''i_obso_faddr'', 4), (''i_osd2'', 12)]"

definition ext4_dir_entry :: layout where
  "ext4_dir_entry = [(''inode'', 4), (''rec_len'', 2), (''name_len'', 1), (''file_type'', 1)]"

definition ext4_group_desc_t :: layout where
  "ext4_group_desc_t =
     [(''bg_block_bitmap_lo'', 4), (''bg_inode_bitmap_lo'', 4), (''bg_inode_table_lo'', 4),
      (''bg_free_blocks_count_lo'', 2), (''bg_free_inodes_count_lo'', 2), (''bg_used_dirs_count_lo'', 2),
      (''bg_flags'', 2), (''bg_exclude_bitmap_lo'', 4), (''bg_block_bitmap_csum_lol'', 2),
      (''bg_inode_bitmap_csum_lo'', 2), (''bg_itable_unused_lo'', 2), (''bg_checksum'', 2)]"

text \<open>\<open>i_block[i]\<close> of an inode and entry \<open>i\<close> of a block of block numbers.\<close>

definition word32 :: "u8 list \<Rightarrow> nat \<Rightarrow> u32" where
  "word32 bs off = of_nat (le (take 4 (drop off bs)))"

definition i_block :: "u8 list \<Rightarrow> nat \<Rightarrow> u32" where
  "i_block node i = word32 node (offset_of ext4_inode ''i_block'' + 4 * i)"

section \<open>State\<close>

record fsys =
  fs_mem :: bytes
  block_buf :: nat
  fs_block_size :: u64
  fs_inode_size :: u64
  fs_inodes_per_group :: u64
  gc_descriptor_size :: u64
  group_descriptor_table :: "u8 list"
  root_inode :: "u8 list"
  next_obj :: nat
  freed :: "nat list"

text \<open>The inode of an open file is an object and its contents.\<close>

record file_t =
  file_inode :: "u8 list"
  file_inode_obj :: nat
  file_obj :: nat
  file_pos :: u64
  file_flags :: u32

type_synonym card = "nat \<Rightarrow> u8"

definition new_obj :: "fsys \<Rightarrow> nat \<times> fsys" where
  "new_obj st = (next_obj st, st\<lparr>next_obj := Suc (next_obj st)\<rparr>)"

definition free_obj :: "nat \<Rightarrow> fsys \<Rightarrow> fsys" where "free_obj x st = st\<lparr>freed := x # freed st\<rparr>"

definition region :: "bytes \<Rightarrow> nat \<Rightarrow> nat \<Rightarrow> u8 list" where "region m a n = map m [a ..< a + n]"

definition disk_read :: "card \<Rightarrow> u64 \<Rightarrow> nat \<Rightarrow> nat \<Rightarrow> fsys \<Rightarrow> fsys" where
  "disk_read d sec dst n st =
     st\<lparr>fs_mem := (\<lambda>a. if dst \<le> a \<and> a < dst + n then d (512 * unat sec + (a - dst)) else fs_mem st a)\<rparr>"

section \<open>Blocks and inodes\<close>

abbreviation (input) FS_START_SECTOR :: nat where "FS_START_SECTOR \<equiv> 0x104000"

text \<open>The sector of a block is computed at 32 bits.\<close>

definition block_sector :: "u32 \<Rightarrow> u64" where "block_sector block_num = ucast (0x104000 + block_num * 8 :: u32)"

definition read_block :: "card \<Rightarrow> nat \<Rightarrow> u32 \<Rightarrow> fsys \<Rightarrow> fsys" where
  "read_block d buf block_num st = disk_read d (block_sector block_num) buf 4096 st"

definition inode_to_sector :: "u64 \<Rightarrow> fsys \<Rightarrow> (u64 \<times> u64) result" where
  "inode_to_sector inode_num st =
     (let grp = ucast ((inode_num - 1) div fs_inodes_per_group st) :: u32;
          index = ucast ((inode_num - 1) mod fs_inodes_per_group st) :: u32;
          inode_offset = ucast index * fs_inode_size st;
          inode_block_offset = inode_offset div fs_block_size st;
          inode_offset_in_block = inode_offset mod fs_block_size st;
          at = size_of ext4_group_desc_t * unat grp
      in if length (group_descriptor_table st) < at + size_of ext4_group_desc_t then Inl WildAccess
         else let inode_table_block =
                of_nat (get_member ext4_group_desc_t ''bg_inode_table_lo'' (drop at (group_descriptor_table st))) :: u64
              in Inr (0x104000 + (inode_table_block + inode_block_offset) * 8, inode_offset_in_block))"

text \<open>The inode is copied into an object of \<open>room\<close> bytes.\<close>

definition read_inode :: "card \<Rightarrow> nat \<Rightarrow> u32 \<Rightarrow> fsys \<Rightarrow> (u8 list \<times> fsys) result" where
  "read_inode d room inode_num st =
     bindR (inode_to_sector (ucast inode_num) st) (\<lambda>(sec, off).
       let st1 = disk_read d sec (block_buf st) 4096 st
       in if room < unat (fs_inode_size st) \<or> 4096 < unat off + unat (fs_inode_size st) then Inl WildAccess
          else Inr (region (fs_mem st1) (block_buf st + unat off) (unat (fs_inode_size st)), st1))"

text \<open>The name in an entry, a C string: the copy ends with a zero.\<close>

definition c_string :: "u8 list \<Rightarrow> u8 list" where "c_string bs = takeWhile (\<lambda>c. c \<noteq> 0) bs"

function dir_search :: "u8 list \<Rightarrow> u8 list \<Rightarrow> nat \<Rightarrow> u32 result" where
  "dir_search block name off =
     (if 4096 \<le> off then Inr 0
      else if length block < off + 6 then Inl WildAccess
      else let entry = drop off block;
               ino = get_member ext4_dir_entry ''inode'' entry;
               rec_len = get_member ext4_dir_entry ''rec_len'' entry;
               name_len = get_member ext4_dir_entry ''name_len'' entry
           in if rec_len = 0 then Inr 0
              else if ino = 0 then dir_search block name (off + rec_len)
              else if length entry < 8 + name_len then Inl WildAccess
              else if \<not> strcmp (c_string (take name_len (drop 8 entry))) name then Inr (of_nat ino)
              else dir_search block name (off + rec_len))"
  by pat_completeness auto
termination by (relation "measure (\<lambda>(block, name, off). 4096 - off)") auto

declare dir_search.simps [simp del]

definition inode_from_directory :: "u8 list \<Rightarrow> u8 list \<Rightarrow> u32 result" where
  "inode_from_directory block name = dir_search block name 0"

text \<open>The loop of \<open>lookup\<close> over the block numbers that are left.\<close>

fun lookup_blocks :: "card \<Rightarrow> u8 list \<Rightarrow> u32 list \<Rightarrow> fsys \<Rightarrow> (u8 list option \<times> fsys) result" where
  "lookup_blocks d name [] st = Inr (None, st)"
| "lookup_blocks d name (b # bs) st =
     (if b = 0 then lookup_blocks d name bs st
      else let st1 = read_block d (block_buf st) b st
           in bindR (inode_from_directory (region (fs_mem st1) (block_buf st) 4096) name) (\<lambda>ino.
                if ino \<noteq> 0
                then bindR (read_inode d (size_of ext4_inode) ino st1) (\<lambda>(node, st2). Inr (Some node, st2))
                else lookup_blocks d name bs st1))"

definition lookup :: "card \<Rightarrow> u8 list \<Rightarrow> u8 list \<Rightarrow> fsys \<Rightarrow> (u8 list option \<times> fsys) result" where
  "lookup d dirnode name st = lookup_blocks d name (map (i_block dirnode) [0..<15]) st"

section \<open>Opening and closing\<close>

fun walk :: "card \<Rightarrow> u8 list \<Rightarrow> u8 list list \<Rightarrow> fsys \<Rightarrow> (u8 list option \<times> fsys) result" where
  "walk d node [] st = Inr (Some node, st)"
| "walk d node (t # ts) st =
     bindR (lookup d node t st) (\<lambda>(r, st1). case r of None \<Rightarrow> Inr (None, st1) | Some n \<Rightarrow> walk d n ts st1)"

text \<open>The copy of the path and the inode are objects; \<open>47\<close> is the slash.\<close>

definition fs_open :: "card \<Rightarrow> u8 list \<Rightarrow> fsys \<Rightarrow> (file_t option \<times> fsys) result" where
  "fs_open d pathname st =
     (let (str, st1) = new_obj st; (nodeptr, st2) = new_obj st1
      in if pathname = [] \<or> hd pathname \<noteq> 47 then Inr (None, st2)
         else bindR (walk d (take (size_of ext4_inode) (root_inode st2)) (tokens 47 pathname) st2) (\<lambda>(r, st3).
           case r of None \<Rightarrow> Inr (None, st3)
           | Some node \<Rightarrow>
               let st4 = free_obj str st3; (f, st5) = new_obj st4
               in Inr (Some \<lparr>file_inode = node, file_inode_obj = nodeptr, file_obj = f, file_pos = 0, file_flags = 0\<rparr>,
                       free_obj nodeptr st5)))"

definition fs_close :: "file_t option \<Rightarrow> fsys \<Rightarrow> int \<times> fsys" where
  "fs_close file st =
     (case file of None \<Rightarrow> (- 1, st)
      | Some f \<Rightarrow> (0, free_obj (file_obj f) (free_obj (file_inode_obj f) st)))"

section \<open>Reading\<close>

definition read_file_block :: "card \<Rightarrow> file_t \<Rightarrow> nat \<Rightarrow> u64 \<Rightarrow> u32 \<Rightarrow> fsys \<Rightarrow> u32 \<times> file_t \<times> fsys" where
  "read_file_block d file buf n blockno st =
     (let block_offset = ucast (file_pos file mod 4096) :: u32;
          bytes_to_read = (if n < ucast (4096 - block_offset) then ucast n else 4096 - block_offset) :: u32;
          file1 = file\<lparr>file_pos := file_pos file + ucast bytes_to_read\<rparr>
      in if blockno = 0
         then (bytes_to_read, file1, st\<lparr>fs_mem := memset buf 0 (unat bytes_to_read) (fs_mem st)\<rparr>)
         else let st1 = read_block d (block_buf st) blockno st
              in (bytes_to_read, file1,
                  st1\<lparr>fs_mem := memcpy buf (block_buf st + unat block_offset) bytes_to_read (fs_mem st1)\<rparr>))"

text \<open>The loop of \<open>read_direct\<close> over the entries of \<open>i_block\<close> that are left.\<close>

fun direct_loop :: "card \<Rightarrow> nat \<Rightarrow> u64 \<Rightarrow> u32 list \<Rightarrow> u64 \<Rightarrow> file_t \<Rightarrow> fsys \<Rightarrow> u64 \<times> file_t \<times> fsys" where
  "direct_loop d buf n [] bytes_read file st = (bytes_read, file, st)"
| "direct_loop d buf n (b # bs) bytes_read file st =
     (let (k, file1, st1) = read_file_block d file (buf + unat bytes_read) (n - bytes_read) b st;
          bytes_read1 = bytes_read + ucast k
      in if n \<le> bytes_read1 then (bytes_read1, file1, st1)
         else direct_loop d buf n bs bytes_read1 file1 st1)"

definition read_direct :: "card \<Rightarrow> file_t \<Rightarrow> nat \<Rightarrow> u64 \<Rightarrow> fsys \<Rightarrow> u64 \<times> file_t \<times> fsys" where
  "read_direct d file buf n st =
     direct_loop d buf n (drop (unat (file_pos file div 4096)) (map (i_block (file_inode file)) [0..<15])) 0 file st"

text \<open>
  The loop of \<open>read_single_indirect\<close>; the list holds the block numbers from \<open>blocks[offset]\<close> on. The
  next number is read before the loop looks at it, past the end of the block after the last one.
\<close>

fun indirect_loop ::
  "card \<Rightarrow> nat \<Rightarrow> u64 \<Rightarrow> u32 list \<Rightarrow> u64 \<Rightarrow> file_t \<Rightarrow> fsys \<Rightarrow> (u64 \<times> file_t \<times> fsys) result" where
  "indirect_loop d buf n [] bytes_read file st = Inl WildAccess"
| "indirect_loop d buf n (b # bs) bytes_read file st =
     (if n \<le> bytes_read then Inr (bytes_read, file, st)
      else let (k, file1, st1) = read_file_block d file (buf + unat bytes_read) (n - bytes_read) b st;
               bytes_read1 = bytes_read + ucast k
           in (case bs of [] \<Rightarrow> Inl WildAccess
               | b1 # _ \<Rightarrow> if 128 \<le> b1 then Inr (bytes_read1, file1, st1)
                            else indirect_loop d buf n bs bytes_read1 file1 st1))"

definition read_single_indirect ::
  "card \<Rightarrow> file_t \<Rightarrow> nat \<Rightarrow> u64 \<Rightarrow> u64 \<Rightarrow> fsys \<Rightarrow> (u64 \<times> file_t \<times> fsys) result" where
  "read_single_indirect d file buf n off st =
     (let (blocks, st1) = new_obj st;
          table = map (\<lambda>a. d (512 * unat (block_sector (i_block (file_inode file) 12)) + a)) [0..<4096];
          numbers = map (\<lambda>i. word32 table (4 * i)) [0..<1024]
      in bindR (indirect_loop d buf n (drop (unat off) numbers) 0 file st1) (\<lambda>(k, file1, st2).
           Inr (k, file1, free_obj blocks st2)))"

text \<open>Double and triple indirect blocks are not supported: nothing is read.\<close>

definition read_double_indirect :: "card \<Rightarrow> file_t \<Rightarrow> fsys \<Rightarrow> (u64 \<times> file_t \<times> fsys) result" where
  "read_double_indirect d file st = Inr (0, file, read_block d (block_buf st) (i_block (file_inode file) 13) st)"

definition read_triple_indirect :: "file_t \<Rightarrow> fsys \<Rightarrow> (u64 \<times> file_t \<times> fsys) result" where
  "read_triple_indirect file st = Inr (0, file, st)"

definition fs_read :: "card \<Rightarrow> file_t option \<Rightarrow> nat \<Rightarrow> u64 \<Rightarrow> fsys \<Rightarrow> (u64 \<times> file_t option \<times> fsys) result" where
  "fs_read d file buf n st =
     (case file of None \<Rightarrow> Inr (- 1, None, st)
      | Some f \<Rightarrow>
        if buf = 0 then Inr (- 1, file, st)
        else
          let blockno = ucast (file_pos f div 4096) :: u32; entries = 1024 :: u64; double = entries * entries;
              triple = double * entries; b = ucast blockno :: u64
          in if blockno < 12 then (case read_direct d f buf n st of (k, f1, st1) \<Rightarrow> Inr (k, Some f1, st1))
             else if b < 12 + entries
             then bindR (read_single_indirect d f buf n (b - 12) st) (\<lambda>(k, f1, st1). Inr (k, Some f1, st1))
             else if b < 12 + entries + double
             then bindR (read_double_indirect d f st) (\<lambda>(k, f1, st1). Inr (k, Some f1, st1))
             else if b < 12 + entries + double + triple
             then bindR (read_triple_indirect f st) (\<lambda>(k, f1, st1). Inr (k, Some f1, st1))
             else Inr (- 1, file, st))"

datatype seek_whence = SEEK_SET | SEEK_CUR | SEEK_END

definition fs_seek :: "file_t \<Rightarrow> u64 \<Rightarrow> seek_whence \<Rightarrow> int \<times> file_t" where
  "fs_seek file off whence =
     (case whence of SEEK_SET \<Rightarrow> (0, file\<lparr>file_pos := off\<rparr>)
      | SEEK_CUR \<Rightarrow> (0, file\<lparr>file_pos := file_pos file + off\<rparr>)
      | SEEK_END \<Rightarrow> (- 1, file))"

section \<open>Mounting\<close>

text \<open>\<open>filesystem_init\<close>, with the address of the scratch block it allocates.\<close>

definition filesystem_init :: "card \<Rightarrow> nat \<Rightarrow> fsys \<Rightarrow> fsys result" where
  "filesystem_init d buf st =
     (let sb = map (\<lambda>a. d (512 * 0x104002 + a)) [0..<1024];
          log_size = get_member ext_superblock ''s_log_block_size'' sb;
          isize = get_member ext_superblock ''s_inode_size'' sb;
          desc = get_member ext_superblock ''s_desc_size'' sb;
          gdt = map (\<lambda>a. d (512 * 0x104008 + a)) [0..<32768];
          st1 = st\<lparr>block_buf := buf, fs_block_size := push_bit log_size 1024, fs_inode_size := of_nat isize,
            fs_inodes_per_group := of_nat (get_member ext_superblock ''s_inodes_per_group'' sb),
            gc_descriptor_size := (if desc \<noteq> 0 then of_nat desc else 32), group_descriptor_table := gdt\<rparr>;
          inode_table = of_nat (get_member ext4_group_desc_t ''bg_inode_table_lo'' gdt) :: u32;
          st2 = disk_read d (block_sector inode_table) buf 4096 st1
      in if 21 \<le> log_size \<or> 4096 < 2 * isize then Inl WildAccess
         else Inr (st2\<lparr>root_inode := region (fs_mem st2) (buf + isize) isize\<rparr>))"

end
