(* ===== verification/Filesystem_Correct.thy ===== *)
theory Filesystem_Correct
  imports Filesystem
begin

text \<open>
  What the file system does: reading returns the bytes of the file as long as the read stays in the
  direct blocks, and a lookup finds the first matching entry of a well-formed directory block.
\<close>

section \<open>Reading\<close>

text \<open>Byte \<open>p\<close> of a file whose blocks are the direct blocks of its inode; a missing block is zero.\<close>

definition file_byte :: "card \<Rightarrow> u8 list \<Rightarrow> nat \<Rightarrow> u8" where
  "file_byte d node p =
     (let b = i_block node (p div 4096) in if b = 0 then 0 else d (512 * unat (block_sector b) + p mod 4096))"

text \<open>A buffer of \<open>n\<close> bytes that the scratch block does not overlap, with a margin of 16 bytes.\<close>

definition clear_of :: "nat \<Rightarrow> nat \<Rightarrow> fsys \<Rightarrow> bool" where
  "clear_of buf n st \<longleftrightarrow> buf + n + 16 \<le> block_buf st \<or> block_buf st + 4096 \<le> buf"

text \<open>Memory changed only in the scratch block and from \<open>lo\<close> up to, excluding, \<open>hi\<close>.\<close>

definition wrote :: "nat \<Rightarrow> nat \<Rightarrow> fsys \<Rightarrow> fsys \<Rightarrow> bool" where
  "wrote lo hi st st' \<longleftrightarrow> st' = st\<lparr>fs_mem := fs_mem st'\<rparr> \<and>
     (\<forall>a. (a < lo \<or> hi \<le> a) \<and> (a < block_buf st \<or> block_buf st + 4096 \<le> a) \<longrightarrow> fs_mem st' a = fs_mem st a)"

lemma wrote_block_buf: "wrote lo hi st st' \<Longrightarrow> block_buf st' = block_buf st"
  unfolding wrote_def by (cases st; cases st') simp

lemma block_rest:
  assumes "(n :: u64) \<noteq> 0"
  shows "unat (if n < ucast (4096 - ucast (pos mod 4096 :: u64) :: u32) then ucast n else 4096 - ucast (pos mod 4096) :: u32)
    = min (unat n) (4096 - unat pos mod 4096)"
proof -
  have p: "unat (ucast (pos mod 4096) :: u32) = unat pos mod 4096"
    by (simp add: unat_ucast_word unat_mod take_bit_eq_mod)
  have "ucast (pos mod 4096) \<le> (4096 :: u32)" using p by (simp add: word_le_nat_alt)
  then have r: "unat (4096 - ucast (pos mod 4096) :: u32) = 4096 - unat pos mod 4096"
    using p by (simp add: unat_sub)
  then have r64: "unat (ucast (4096 - ucast (pos mod 4096) :: u32) :: u64) = 4096 - unat pos mod 4096"
    by (simp add: unat_ucast_word take_bit_eq_mod)
  show ?thesis
  proof (cases "n < ucast (4096 - ucast (pos mod 4096) :: u32)")
    case True
    then have "unat n < 4096 - unat pos mod 4096" using r64 by (simp add: word_less_nat_alt)
    then show ?thesis using True by (simp add: unat_ucast_word take_bit_eq_mod)
  next
    case False
    then have "4096 - unat pos mod 4096 \<le> unat n" using r64 by (simp add: word_less_nat_alt)
    then show ?thesis using False r by simp
  qed
qed

lemma read_file_block_spec:
  fixes n :: u64 and fl :: file_t
  defines "k \<equiv> min (unat n) (4096 - unat (file_pos fl) mod 4096)"
  assumes n: "n \<noteq> 0" and r: "read_file_block d fl buf n b st = (r, fl', st')" and cl: "clear_of buf (unat n) st"
  shows "unat r = k" "fl' = fl\<lparr>file_pos := file_pos fl + of_nat k\<rparr>" "wrote buf (buf + max 16 k) st st'"
    "i < k \<Longrightarrow> fs_mem st' (buf + i) =
       (if b = 0 then 0 else d (512 * unat (block_sector b) + (unat (file_pos fl) mod 4096 + i)))"
proof -
  let ?off = "ucast (file_pos fl mod 4096) :: u32" and ?o = "unat (file_pos fl) mod 4096"
  have r': "r = (if n < ucast (4096 - ?off) then ucast n else 4096 - ?off)"
    using r by (simp add: read_file_block_def Let_def split: if_splits)
  have k: "unat r = k" unfolding r' k_def by (rule block_rest [OF n])
  then show "unat r = k" .
  have "ucast r = (of_nat k :: u64)" unfolding k [symmetric] by (simp add: word_unat_eq_iff unat_ucast_word unsigned_of_nat)
  then show "fl' = fl\<lparr>file_pos := file_pos fl + of_nat k\<rparr>"
    using r r' by (auto simp: read_file_block_def Let_def split: if_splits)
  have o: "unat ?off = ?o" by (simp add: unat_ucast_word unat_mod take_bit_eq_mod)
  have ap: "apart buf (block_buf st + ?o) k"
    using cl unfolding clear_of_def apart_def k_def by linarith
  have st: "st' = (if b = 0 then st\<lparr>fs_mem := (\<lambda>a. if buf \<le> a \<and> a < buf + max 16 k then 0 else fs_mem st a)\<rparr>
      else st\<lparr>fs_mem := copied buf (block_buf st + ?o) k (fs_mem (read_block d (block_buf st) b st))\<rparr>)"
    using r r' [symmetric] k o memcpy_copied [of buf "block_buf st + ?o" r] ap
    by (simp add: read_file_block_def Let_def memset_eq read_block_def disk_read_def split: if_splits)
  show "wrote buf (buf + max 16 k) st st'"
    unfolding st by (auto simp: wrote_def copied_def read_block_def disk_read_def)
  show "fs_mem st' (buf + i) = (if b = 0 then 0 else d (512 * unat (block_sector b) + (?o + i)))" if "i < k"
  proof -
    have "?o + i < 4096" using that unfolding k_def by linarith
    then show ?thesis using that unfolding st by (auto simp: copied_def read_block_def disk_read_def)
  qed
qed

lemma wrote_trans:
  assumes "wrote lo hi st st1" and "wrote lo' hi' st1 st2" and "lo \<le> lo'" and "hi \<le> hi'"
  shows "wrote lo hi' st st2"
proof -
  have "st2 = st1\<lparr>fs_mem := fs_mem st2\<rparr>" and "st1 = st\<lparr>fs_mem := fs_mem st1\<rparr>"
    using assms(1,2) by (simp_all add: wrote_def)
  then have "st2 = st\<lparr>fs_mem := fs_mem st1\<rparr>\<lparr>fs_mem := fs_mem st2\<rparr>" by metis
  then have "st2 = st\<lparr>fs_mem := fs_mem st2\<rparr>" by simp
  then show ?thesis using assms wrote_block_buf [OF assms(1)] unfolding wrote_def by auto
qed

lemma wrote_mono: "wrote lo hi st st' \<Longrightarrow> lo' \<le> lo \<Longrightarrow> hi \<le> hi' \<Longrightarrow> wrote lo' hi' st st'"
  by (auto simp: wrote_def)

lemma direct_loop_spec:
  assumes "unat done + rem = unat n" and "0 < rem" and "unat (file_pos fl) + rem \<le> 4096 * 15"
    and "clear_of (buf + unat done) rem st"
    and "direct_loop d buf n (drop (unat (file_pos fl) div 4096) (map (i_block node) [0..<15])) done fl st = (r, fl', st')"
  shows "r = n \<and> fl' = fl\<lparr>file_pos := file_pos fl + of_nat rem\<rparr> \<and> wrote (buf + unat done) (buf + unat n + 15) st st' \<and>
    (\<forall>i<rem. fs_mem st' (buf + unat done + i) = file_byte d node (unat (file_pos fl) + i))"
  using assms
proof (induction "15 - unat (file_pos fl) div 4096" arbitrary: "done" rem fl st rule: less_induct)
  case less
  define j where "j = unat (file_pos fl) div 4096"
  define o1 where "o1 = unat (file_pos fl) mod 4096"
  define k where "k = min rem (4096 - o1)"
  have o1: "o1 < 4096" by (simp add: o1_def)
  have pos: "unat (file_pos fl) = 4096 * j + o1" by (simp add: j_def o1_def)
  have j: "j < 15" using less.prems(2,3) pos by linarith
  have drop: "drop j (map (i_block node) [0..<15]) = i_block node j # drop (Suc j) (map (i_block node) [0..<15])"
    using j by (subst Cons_nth_drop_Suc [symmetric]) simp_all
  have rem: "unat (n - done) = rem" using less.prems(1) by (simp add: unat_sub word_le_nat_alt)
  then have nd: "n - done \<noteq> 0" using less.prems(2) by auto
  obtain c fl1 st1 where b1: "read_file_block d fl (buf + unat done) (n - done) (i_block node j) st = (c, fl1, st1)"
    by (cases "read_file_block d fl (buf + unat done) (n - done) (i_block node j) st") auto
  note spec = read_file_block_spec [OF nd b1, unfolded rem o1_def [symmetric], OF less.prems(4), folded k_def]
  have k: "0 < k" "k \<le> rem" "o1 + k \<le> 4096" using less.prems(2) o1 by (auto simp: k_def)
  have d1: "unat (done + ucast c) = unat done + k"
  proof -
    have "unat (ucast c :: u64) = k" using spec(1) k(3) by (simp add: unat_ucast_word take_bit_eq_mod)
    moreover have "unat n < 2 ^ LENGTH(64)" by (rule unsigned_less)
    then have "unat done + k < 2 ^ 64" using less.prems(1) k(2) by simp
    ultimately show ?thesis by (simp add: unat_word_ariths)
  qed
  have w1: "wrote (buf + unat done) (buf + unat n + 15) st st1"
    using spec(3) by (rule wrote_mono) (use k less.prems(1) in linarith)+
  have c1: "fs_mem st1 (buf + unat done + i) = file_byte d node (unat (file_pos fl) + i)" if "i < k" for i
  proof -
    have "o1 + i < 4096" using that k(3) by simp
    then have "(unat (file_pos fl) + i) div 4096 = j" "(unat (file_pos fl) + i) mod 4096 = o1 + i"
      unfolding pos add.assoc by simp_all
    then show ?thesis using spec(4) [OF that] by (simp add: file_byte_def Let_def)
  qed
  show ?case
  proof (cases "k = rem")
    case True
    have "done + ucast c = n" using d1 True less.prems(1) by (simp add: word_unat_eq_iff)
    then have "r = n \<and> fl' = fl1 \<and> st' = st1"
      using less.prems(5) b1 drop by (simp add: j_def [symmetric])
    then show ?thesis using spec(2) w1 c1 True by simp
  next
    case False
    then have k1: "k = 4096 - o1" "k < rem" using k(2) by (auto simp: k_def)
    have lt: "\<not> n \<le> done + ucast c" using d1 k1(2) less.prems(1) by (simp add: word_le_nat_alt)
    have p1: "unat (file_pos fl1) = unat (file_pos fl) + k"
      using spec(2) less.prems(3) k(2) by (simp add: unat_word_ariths unsigned_of_nat take_bit_eq_mod)
    then have p2: "unat (file_pos fl1) = 4096 * Suc j" using pos k1(1) o1 by simp
    have step: "direct_loop d buf n (drop (unat (file_pos fl1) div 4096) (map (i_block node) [0..<15])) (done + ucast c) fl1 st1
        = (r, fl', st')"
      using less.prems(5) b1 lt drop unfolding p2 by (simp add: j_def [symmetric] del: drop_Suc)
    have bb: "block_buf st1 = block_buf st" by (rule wrote_block_buf [OF w1])
    have "r = n \<and> fl' = fl1\<lparr>file_pos := file_pos fl1 + of_nat (rem - k)\<rparr> \<and>
        wrote (buf + unat (done + ucast c)) (buf + unat n + 15) st1 st' \<and>
        (\<forall>i<rem - k. fs_mem st' (buf + unat (done + ucast c) + i) = file_byte d node (unat (file_pos fl1) + i))"
    proof (rule less.hyps [OF _ _ _ _ _ step])
      show "15 - unat (file_pos fl1) div 4096 < 15 - unat (file_pos fl) div 4096" using p2 j by (simp add: j_def [symmetric])
      show "unat (done + ucast c) + (rem - k) = unat n" "0 < rem - k" "unat (file_pos fl1) + (rem - k) \<le> 4096 * 15"
        using d1 p1 k1(2) less.prems(1,3) by simp_all
      show "clear_of (buf + unat (done + ucast c)) (rem - k) st1"
        using less.prems(4) d1 bb k(2) by (auto simp: clear_of_def)
    qed
    note rest = this
    have keep: "fs_mem st' (buf + unat done + i) = fs_mem st1 (buf + unat done + i)" if "i < k" for i
      using rest less.prems(4) d1 bb that k(2) unfolding wrote_def clear_of_def by auto
    have "fs_mem st' (buf + unat done + i) = file_byte d node (unat (file_pos fl) + i)" if "i < rem" for i
    proof (cases "i < k")
      case True
      then show ?thesis using keep c1 by simp
    next
      case False
      then have "i - k < rem - k" using that by linarith
      with rest have "fs_mem st' (buf + unat (done + ucast c) + (i - k)) = file_byte d node (unat (file_pos fl1) + (i - k))"
        by blast
      moreover have "buf + unat (done + ucast c) + (i - k) = buf + unat done + i"
        "unat (file_pos fl1) + (i - k) = unat (file_pos fl) + i" using d1 p1 False by linarith+
      ultimately show ?thesis by (simp only:)
    qed
    moreover have "wrote (buf + unat done) (buf + unat n + 15) st st'"
      by (rule wrote_trans [OF w1]) (use rest d1 in auto)
    moreover have "fl' = fl\<lparr>file_pos := file_pos fl + of_nat rem\<rparr>"
      using rest spec(2) k(2) by (simp add: of_nat_diff)
    ultimately show ?thesis using rest by blast
  qed
qed

section \<open>Directories\<close>

text \<open>The bytes of a number, and of a directory entry with its padding.\<close>

primrec le_bytes :: "nat \<Rightarrow> nat \<Rightarrow> u8 list" where
  "le_bytes 0 n = []"
| "le_bytes (Suc k) n = of_nat n # le_bytes k (n div 256)"

lemma length_le_bytes [simp]: "length (le_bytes k n) = k"
  by (induction k arbitrary: n) simp_all

lemma le_le_bytes: "n < 256 ^ k \<Longrightarrow> le (le_bytes k n) = n"
proof (induction k arbitrary: n)
  case (Suc k)
  have "n div 256 < 256 ^ k" using Suc.prems by (simp add: less_mult_imp_div_less mult.commute)
  then show ?case using Suc.IH [of "n div 256"] by (simp add: unsigned_of_nat take_bit_eq_mod)
qed simp

record dir_entry =
  de_inode :: nat
  de_type :: u8
  de_name :: "u8 list"
  de_pad :: "u8 list"

definition de_len :: "dir_entry \<Rightarrow> nat" where "de_len e = 8 + length (de_name e) + length (de_pad e)"

definition encode_entry :: "dir_entry \<Rightarrow> u8 list" where
  "encode_entry e = le_bytes 4 (de_inode e) @ le_bytes 2 (de_len e) @ [of_nat (length (de_name e)), de_type e]
     @ de_name e @ de_pad e"

definition entry_ok :: "dir_entry \<Rightarrow> bool" where
  "entry_ok e \<longleftrightarrow> de_inode e < 2 ^ 32 \<and> de_len e < 2 ^ 16 \<and> length (de_name e) < 256 \<and> 0 \<notin> set (de_name e)"

definition encode_dir :: "dir_entry list \<Rightarrow> u8 list" where "encode_dir es = concat (map encode_entry es)"

text \<open>The first entry in use that has the name.\<close>

fun dir_find :: "dir_entry list \<Rightarrow> u8 list \<Rightarrow> nat" where
  "dir_find [] name = 0"
| "dir_find (e # es) name = (if de_inode e \<noteq> 0 \<and> de_name e = name then de_inode e else dir_find es name)"

lemma length_encode [simp]: "length (encode_entry e) = de_len e"
  by (simp add: encode_entry_def de_len_def)

lemma member_offsets:
  "offset_of ext4_dir_entry ''inode'' = 0" "width_of ext4_dir_entry ''inode'' = 4"
  "offset_of ext4_dir_entry ''rec_len'' = 4" "width_of ext4_dir_entry ''rec_len'' = 2"
  "offset_of ext4_dir_entry ''name_len'' = 6" "width_of ext4_dir_entry ''name_len'' = 1"
  by (simp_all add: ext4_dir_entry_def width_of_def)

lemma entry_members:
  assumes "entry_ok e"
  shows "get_member ext4_dir_entry ''inode'' (encode_entry e @ xs) = de_inode e"
    "get_member ext4_dir_entry ''rec_len'' (encode_entry e @ xs) = de_len e"
    "get_member ext4_dir_entry ''name_len'' (encode_entry e @ xs) = length (de_name e)"
    "c_string (take (length (de_name e)) (drop 8 (encode_entry e @ xs))) = de_name e"
proof -
  have b: "le (le_bytes 4 (de_inode e)) = de_inode e" "le (le_bytes 2 (de_len e)) = de_len e"
    using assms by (simp_all add: le_le_bytes entry_ok_def)
  show "get_member ext4_dir_entry ''inode'' (encode_entry e @ xs) = de_inode e"
    "get_member ext4_dir_entry ''rec_len'' (encode_entry e @ xs) = de_len e"
    using b by (simp_all add: get_member_def member_offsets encode_entry_def)
  show "get_member ext4_dir_entry ''name_len'' (encode_entry e @ xs) = length (de_name e)"
    using assms by (simp add: get_member_def member_offsets encode_entry_def entry_ok_def unsigned_of_nat take_bit_eq_mod)
  have "takeWhile (\<lambda>c. c \<noteq> 0) (de_name e) = de_name e"
    using assms by (auto simp: takeWhile_eq_all_conv entry_ok_def)
  then show "c_string (take (length (de_name e)) (drop 8 (encode_entry e @ xs))) = de_name e"
    by (simp add: c_string_def encode_entry_def)
qed

lemma dir_search_encode:
  assumes "\<forall>e\<in>set es. entry_ok e" and "length pre + length (encode_dir es) = 4096"
  shows "dir_search (pre @ encode_dir es) name (length pre) = Inr (of_nat (dir_find es name))"
  using assms
proof (induction es arbitrary: pre)
  case Nil
  then show ?case by (subst dir_search.simps) (simp add: encode_dir_def)
next
  case (Cons e es)
  let ?rest = "encode_dir es"
  have e: "entry_ok e" using Cons.prems(1) by simp
  have blk: "pre @ encode_dir (e # es) = (pre @ encode_entry e) @ ?rest" by (simp add: encode_dir_def)
  have len: "length pre + de_len e + length ?rest = 4096" using Cons.prems(2) by (simp add: encode_dir_def)
  have "dir_search ((pre @ encode_entry e) @ ?rest) name (length (pre @ encode_entry e)) = Inr (of_nat (dir_find es name))"
    by (rule Cons.IH) (use Cons.prems(1) len in auto)
  then have next_one: "dir_search (pre @ encode_entry e @ ?rest) name (length pre + de_len e) = Inr (of_nat (dir_find es name))"
    by simp
  have l8: "8 + length (de_name e) \<le> de_len e" by (simp add: de_len_def)
  show ?case unfolding blk
    by (subst dir_search.simps)
      (use entry_members [OF e, of ?rest] next_one len l8 in \<open>auto simp: Let_def strcmp_eq\<close>)
qed

lemma dir_find_append: "dir_find (es @ fs) name = (if dir_find es name \<noteq> 0 then dir_find es name else dir_find fs name)"
  by (induction es) auto

lemma dir_find_bound: "\<forall>e\<in>set es. entry_ok e \<Longrightarrow> dir_find es name < 2 ^ 32"
  by (induction es) (auto simp: entry_ok_def)

text \<open>The block \<open>b\<close> of the card holds the directory entries \<open>es\<close>.\<close>

definition holds_dir :: "card \<Rightarrow> u32 \<Rightarrow> dir_entry list \<Rightarrow> bool" where
  "holds_dir d b es \<longleftrightarrow> (\<forall>e\<in>set es. entry_ok e) \<and>
     map (\<lambda>a. d (512 * unat (block_sector b) + a)) [0..<4096] = encode_dir es"

lemma region_disk_read: "region (fs_mem (disk_read d sec a n st)) a n = map (\<lambda>i. d (512 * unat sec + i)) [0..<n]"
  by (rule nth_equalityI) (simp_all add: region_def disk_read_def)

lemma search_block:
  assumes "holds_dir d b es"
  shows "inode_from_directory (region (fs_mem (read_block d (block_buf st) b st)) (block_buf st) 4096) name
    = Inr (of_nat (dir_find es name))"
proof -
  have len: "length (encode_dir es) = 4096" using assms unfolding holds_dir_def by (metis length_map length_upt minus_nat.diff_0)
  have "region (fs_mem (read_block d (block_buf st) b st)) (block_buf st) 4096 = encode_dir es"
    using assms by (simp add: read_block_def region_disk_read holds_dir_def)
  then show ?thesis
    using dir_search_encode [of es "[]" name] assms len by (simp add: inode_from_directory_def holds_dir_def)
qed

text \<open>The bytes of an inode on the card.\<close>

definition inode_bytes :: "card \<Rightarrow> u64 \<Rightarrow> u64 \<Rightarrow> nat \<Rightarrow> u8 list" where
  "inode_bytes d sec off n = map (\<lambda>a. d (512 * unat sec + unat off + a)) [0..<n]"

lemma read_inode_eq:
  assumes "inode_to_sector (ucast ino) st = Inr (sec, off)" and "unat (fs_inode_size st) \<le> room"
    and "unat off + unat (fs_inode_size st) \<le> 4096"
  shows "read_inode d room ino st =
    Inr (inode_bytes d sec off (unat (fs_inode_size st)), disk_read d sec (block_buf st) 4096 st)"
proof -
  have "region (fs_mem (disk_read d sec (block_buf st) 4096 st)) (block_buf st + unat off) (unat (fs_inode_size st))
      = inode_bytes d sec off (unat (fs_inode_size st))"
    using assms(3) by (intro nth_equalityI) (simp_all add: region_def disk_read_def inode_bytes_def add.assoc)
  then show ?thesis using assms by (simp add: read_inode_def Let_def)
qed

lemma mem_update_twice: "st1 = st\<lparr>fs_mem := m\<rparr> \<Longrightarrow> st1\<lparr>fs_mem := m'\<rparr> = st\<lparr>fs_mem := m'\<rparr>"
  by simp

text \<open>What \<open>lookup\<close> does with the inode number it found, zero if none.\<close>

definition found :: "card \<Rightarrow> nat \<Rightarrow> fsys \<Rightarrow> (u8 list option \<times> fsys) result" where
  "found d ino st =
     (if ino = 0 then Inr (None, st)
      else bindR (read_inode d (size_of ext4_inode) (of_nat ino) st) (\<lambda>(node, st2). Inr (Some node, st2)))"

definition dir_entries :: "(u32 \<Rightarrow> dir_entry list) \<Rightarrow> u32 list \<Rightarrow> dir_entry list" where
  "dir_entries es bs = concat (map es (filter (\<lambda>b. b \<noteq> 0) bs))"

lemma dir_entries_simps [simp]:
  "dir_entries es [] = []"
  "dir_entries es (b # bs) = (if b = 0 then dir_entries es bs else es b @ dir_entries es bs)"
  by (simp_all add: dir_entries_def)

lemma lookup_blocks_spec:
  assumes "\<forall>b\<in>set bs. b \<noteq> 0 \<longrightarrow> holds_dir d b (es b)"
  shows "\<exists>m. lookup_blocks d name bs st = found d (dir_find (dir_entries es bs) name) (st\<lparr>fs_mem := m\<rparr>)"
  using assms
proof (induction bs arbitrary: st)
  case Nil
  have "lookup_blocks d name [] st = found d (dir_find (dir_entries es []) name) (st\<lparr>fs_mem := fs_mem st\<rparr>)"
    by (simp add: found_def)
  then show ?case by blast
next
  case (Cons b bs)
  have tail: "\<forall>b\<in>set bs. b \<noteq> 0 \<longrightarrow> holds_dir d b (es b)" using Cons.prems by simp
  show ?case
  proof (cases "b = 0")
    case True
    then show ?thesis using Cons.IH [OF tail, of st] by simp
  next
    case False
    define st1 where "st1 = read_block d (block_buf st) b st"
    have st1: "st1 = st\<lparr>fs_mem := fs_mem st1\<rparr>" by (simp add: st1_def read_block_def disk_read_def)
    have h: "holds_dir d b (es b)" using Cons.prems False by simp
    have s: "inode_from_directory (region (fs_mem st1) (block_buf st) 4096) name = Inr (of_nat (dir_find (es b) name))"
      unfolding st1_def by (rule search_block [OF h])
    have "dir_find (es b) name < 2 ^ 32" using h dir_find_bound unfolding holds_dir_def by blast
    then have z: "(of_nat (dir_find (es b) name) :: u32) = 0 \<longleftrightarrow> dir_find (es b) name = 0"
      by (auto simp: word_of_nat_eq_0_iff dest: dvd_imp_le)
    have run: "lookup_blocks d name (b # bs) st =
        (if dir_find (es b) name \<noteq> 0 then found d (dir_find (es b) name) st1 else lookup_blocks d name bs st1)"
      using False s z by (simp add: st1_def [symmetric] found_def)
    show ?thesis
    proof (cases "dir_find (es b) name = 0")
      case True
      obtain m where "lookup_blocks d name bs st1 = found d (dir_find (dir_entries es bs) name) (st1\<lparr>fs_mem := m\<rparr>)"
        using Cons.IH [OF tail, of st1] by blast
      then have "lookup_blocks d name (b # bs) st = found d (dir_find (dir_entries es (b # bs)) name) (st\<lparr>fs_mem := m\<rparr>)"
        using run True False unfolding mem_update_twice [OF st1] by (simp add: dir_find_append)
      then show ?thesis by blast
    next
      case nz: False
      then have "lookup_blocks d name (b # bs) st = found d (dir_find (dir_entries es (b # bs)) name) (st\<lparr>fs_mem := fs_mem st1\<rparr>)"
        using run False st1 by (simp add: dir_find_append)
      then show ?thesis by blast
    qed
  qed
qed

section \<open>Properties\<close>

text \<open>
  C19. A read that stays in the twelve direct blocks of a file returns the number of bytes asked for,
  moves the position by it, and leaves the bytes of the file in the buffer, holes as zeros. Memory
  changes only in the buffer, the scratch block and at most 15 bytes behind the buffer.
\<close>

theorem fs_read_direct:
  assumes "n \<noteq> 0" and "buf \<noteq> 0" and "unat (file_pos f) + unat n \<le> 4096 * 12" and "clear_of buf (unat n) st"
  shows "\<exists>st'. fs_read d (Some f) buf n st = Inr (n, Some (f\<lparr>file_pos := file_pos f + n\<rparr>), st') \<and>
    (\<forall>i < unat n. fs_mem st' (buf + i) = file_byte d (file_inode f) (unat (file_pos f) + i)) \<and>
    wrote buf (buf + unat n + 15) st st'"
proof -
  have n0: "0 < unat n" using assms(1) by (simp add: unat_gt_0)
  have blk: "unat (ucast (file_pos f div 4096) :: u32) = unat (file_pos f) div 4096"
    using assms(3) n0 by (simp add: unat_ucast_word unat_div take_bit_eq_mod)
  then have lt: "(ucast (file_pos f div 4096) :: u32) < 12"
    using assms(3) n0 by (simp add: word_less_nat_alt)
  obtain r f' st' where run: "direct_loop d buf n (drop (unat (file_pos f) div 4096) (map (i_block (file_inode f)) [0..<15])) 0 f st
      = (r, f', st')" by (cases "direct_loop d buf n (drop (unat (file_pos f) div 4096) (map (i_block (file_inode f)) [0..<15])) 0 f st") auto
  have "r = n \<and> f' = f\<lparr>file_pos := file_pos f + of_nat (unat n)\<rparr> \<and> wrote (buf + unat (0 :: u64)) (buf + unat n + 15) st st' \<and>
      (\<forall>i<unat n. fs_mem st' (buf + unat (0 :: u64) + i) = file_byte d (file_inode f) (unat (file_pos f) + i))"
    by (rule direct_loop_spec [OF _ n0 _ _ run]) (use assms in simp_all)
  then show ?thesis
    using run lt assms(2) by (simp add: fs_read_def Let_def read_direct_def unat_div)
qed

lemma le_replicate_0 [simp]: "le (replicate n 0) = 0"
  by (induction n) simp_all

text \<open>The card of the witnesses: block 1 is filled with sevens.\<close>

definition demo_card :: card where
  "demo_card p = (if 512 * 0x104008 \<le> p \<and> p < 512 * 0x104010 then 7 else 0)"

definition demo_fsys :: fsys where
  "demo_fsys = \<lparr>fs_mem = (\<lambda>_. 1), block_buf = 0x10000, fs_block_size = 4096, fs_inode_size = 128,
     fs_inodes_per_group = 8192, gc_descriptor_size = 32, group_descriptor_table = replicate 32768 0,
     root_inode = replicate 128 0, next_obj = 0, freed = []\<rparr>"

text \<open>A file whose first block is block 1 and whose second block is missing.\<close>

definition demo_file :: file_t where
  "demo_file = \<lparr>file_inode = replicate 40 0 @ [1] @ replicate 87 0, file_inode_obj = 0, file_obj = 1,
     file_pos = 4090, file_flags = 0\<rparr>"

theorem fs_read_direct_witness:
  "\<exists>f' st'. fs_read demo_card (Some demo_file) 0x20000 10 demo_fsys = Inr (10, f', st') \<and>
     fs_mem st' 0x20000 = 7 \<and> fs_mem st' 0x20009 = 0"
proof -
  obtain f' st' where r: "fs_read demo_card (Some demo_file) 0x20000 10 demo_fsys = Inr (10, f', st')"
      "\<forall>i < unat (10 :: u64). fs_mem st' (0x20000 + i) = file_byte demo_card (file_inode demo_file) (unat (file_pos demo_file) + i)"
    using fs_read_direct [where n = 10 and buf = "0x20000" and f = demo_file and st = demo_fsys and d = demo_card]
    by (auto simp: demo_file_def clear_of_def demo_fsys_def)
  have "file_byte demo_card (file_inode demo_file) 4090 = 7" "file_byte demo_card (file_inode demo_file) 4099 = 0"
    by (simp_all add: file_byte_def i_block_def word32_def ext4_inode_def demo_file_def demo_card_def block_sector_def
        unat_ucast_word take_bit_eq_mod Let_def)
  then show ?thesis using r(2) [rule_format, of 0] r(2) [rule_format, of 9] r(1)
    by (auto simp: demo_file_def)
qed

lemma inode_to_sector_mem: "inode_to_sector n (st\<lparr>fs_mem := m\<rparr>) = inode_to_sector n st"
  by (simp add: inode_to_sector_def Let_def cong: if_cong)

text \<open>
  C22. When the blocks of a directory hold well-formed entries, \<open>lookup\<close> returns the inode of the first
  entry in use with the name, read from the inode table, or fails when there is none.
\<close>

theorem lookup_correct:
  assumes "\<forall>i<15. i_block node i \<noteq> 0 \<longrightarrow> holds_dir d (i_block node i) (es (i_block node i))"
    and "ino = dir_find (dir_entries es (map (i_block node) [0..<15])) name"
    and "ino \<noteq> 0 \<longrightarrow> inode_to_sector (of_nat ino) st = Inr (sec, off)"
    and "unat (fs_inode_size st) \<le> 128" and "unat off + unat (fs_inode_size st) \<le> 4096"
  shows "\<exists>m. lookup d node name st =
    Inr (if ino = 0 then None else Some (inode_bytes d sec off (unat (fs_inode_size st))), st\<lparr>fs_mem := m\<rparr>)"
proof -
  let ?bs = "map (i_block node) [0..<15]"
  obtain m where m: "lookup_blocks d name ?bs st = found d ino (st\<lparr>fs_mem := m\<rparr>)"
    using lookup_blocks_spec [of ?bs d es name st] assms(1,2) by auto
  have "\<forall>e\<in>set (dir_entries es ?bs). entry_ok e"
    using assms(1) by (auto simp: dir_entries_def holds_dir_def)
  then have "ino < 2 ^ 32" unfolding assms(2) by (rule dir_find_bound)
  then have uc: "(ucast (of_nat ino :: u32) :: u64) = of_nat ino"
    by (simp add: word_unat_eq_iff unat_ucast_word unsigned_of_nat take_bit_eq_mod)
  have room: "size_of ext4_inode = 128" by (simp add: size_of_def ext4_inode_def)
  show ?thesis
  proof (cases "ino = 0")
    case True
    then show ?thesis using m by (auto simp: lookup_def found_def)
  next
    case False
    then have sec: "inode_to_sector (ucast (of_nat ino :: u32)) (st\<lparr>fs_mem := m\<rparr>) = Inr (sec, off)"
      using assms(3) unfolding uc inode_to_sector_mem by simp
    have "lookup d node name st = Inr (Some (inode_bytes d sec off (unat (fs_inode_size st))),
        disk_read d sec (block_buf st) 4096 (st\<lparr>fs_mem := m\<rparr>))"
      using m False read_inode_eq [OF sec, of "size_of ext4_inode" d] assms(4,5) room
      by (simp add: lookup_def found_def)
    then show ?thesis using False by (auto simp: disk_read_def)
  qed
qed

text \<open>A directory with the names \<open>a\<close> and \<open>bin\<close> in block 1.\<close>

definition demo_dir :: "dir_entry list" where
  "demo_dir = [\<lparr>de_inode = 2, de_type = 2, de_name = [97], de_pad = [0, 0, 0]\<rparr>,
     \<lparr>de_inode = 11, de_type = 2, de_name = [98, 105, 110], de_pad = replicate 4073 0\<rparr>]"

definition dir_card :: card where
  "dir_card p = (if 512 * 0x104008 \<le> p \<and> p < 512 * 0x104010 then encode_dir demo_dir ! (p - 512 * 0x104008) else 0)"

theorem lookup_correct_witness:
  "\<exists>m. lookup dir_card (file_inode demo_file) [98, 105, 110] demo_fsys =
    Inr (Some (inode_bytes dir_card 0x104000 1280 128), demo_fsys\<lparr>fs_mem := m\<rparr>)"
proof -
  let ?node = "file_inode demo_file"
  have b: "i_block ?node i = (if i = 0 then 1 else 0)" if "i < 15" for i
    using that unfolding less_eq_nat.simps(2) numeral_eq_Suc
    by (auto simp: i_block_def word32_def ext4_inode_def demo_file_def less_Suc_eq numeral_eq_Suc)
  have bs: "map (i_block ?node) [0..<15] = 1 # replicate 14 0"
    by (rule nth_equalityI) (auto simp: b nth_Cons split: nat.splits)
  have "length (encode_dir demo_dir) = 4096" by (simp add: encode_dir_def demo_dir_def de_len_def)
  then have "map (\<lambda>a. dir_card (512 * unat (block_sector 1) + a)) [0..<4096] = encode_dir demo_dir"
    by (intro nth_equalityI) (simp_all add: dir_card_def block_sector_def unat_ucast_word take_bit_eq_mod)
  then have h: "holds_dir dir_card 1 demo_dir"
    by (simp add: holds_dir_def demo_dir_def entry_ok_def de_len_def)
  have find: "11 = dir_find (dir_entries (\<lambda>_. demo_dir) (map (i_block ?node) [0..<15])) [98, 105, 110]"
    by (simp add: bs dir_entries_def demo_dir_def)
  have sec: "inode_to_sector (of_nat 11) demo_fsys = Inr (0x104000, 1280)"
    by (simp add: inode_to_sector_def demo_fsys_def ext4_group_desc_t_def size_of_def get_member_def width_of_def Let_def)
  show ?thesis
    using lookup_correct [where node = ?node and d = dir_card and es = "\<lambda>_. demo_dir" and ino = 11
        and name = "[98, 105, 110]" and st = demo_fsys and sec = "0x104000" and off = 1280]
      b h find sec by (simp add: demo_fsys_def)
qed

end
