(* ===== verification/Registers.thy ===== *)
theory Registers
  imports Address_Space Filesystem_Correct
begin

text \<open>
  The layouts of the hardware's registers: the bit fields of \<open>types/mmu_types.h\<close>,
  \<open>types/debug_types.h\<close>, \<open>types/bsc_types.h\<close> and \<open>types/sysregs_types.h\<close>, least significant member
  first, with widths in bits, and the register blocks of \<open>types/gic_types.h\<close>, \<open>types/aux_types.h\<close>,
  \<open>types/gpio_regs_types.h\<close> and \<open>types/mailbox_types.h\<close>, with sizes in bytes. A union of bit fields with
  a value is a word of which the members are read and written by position.
\<close>

section \<open>Members of a register\<close>

definition get_bits :: "layout \<Rightarrow> string \<Rightarrow> 'a::len word \<Rightarrow> 'a word" where
  "get_bits l f e = take_bit (width_of l f) (drop_bit (offset_of l f) e)"

definition put_bits :: "layout \<Rightarrow> string \<Rightarrow> 'a::len word \<Rightarrow> 'a word \<Rightarrow> 'a word" where
  "put_bits l f v e =
     (e AND NOT (push_bit (offset_of l f) (mask (width_of l f)))) OR push_bit (offset_of l f) (take_bit (width_of l f) v)"

text \<open>The members are distinct and fill a word of the given width.\<close>

definition fills :: "layout \<Rightarrow> nat \<Rightarrow> bool" where
  "fills l n \<longleftrightarrow> distinct (map fst l) \<and> size_of l = n"

lemma width_of_Cons: "width_of (m # l) f = (if fst m = f then snd m else width_of l f)"
  by (cases m) (simp add: width_of_def)

lemma size_of_Cons: "size_of (m # l) = snd m + size_of l"
  by (simp add: size_of_def)

lemma member_inside: "f \<in> fst ` set l \<Longrightarrow> offset_of l f + width_of l f \<le> size_of l"
  by (induction l) (auto simp: width_of_Cons size_of_Cons)

lemma members_disjoint:
  assumes "f \<in> fst ` set l" "g \<in> fst ` set l" "f \<noteq> g"
  shows "offset_of l f + width_of l f \<le> offset_of l g \<or> offset_of l g + width_of l g \<le> offset_of l f"
  using assms by (induction l) (auto simp: width_of_Cons)

lemma bit_in_member:
  assumes "n < size_of l" and "distinct (map fst l)"
  obtains f where "f \<in> fst ` set l" "offset_of l f \<le> n" "n < offset_of l f + width_of l f"
proof -
  have "\<exists>f \<in> fst ` set l. offset_of l f \<le> n \<and> n < offset_of l f + width_of l f"
    using assms
  proof (induction l arbitrary: n)
    case Nil
    then show ?case by (simp add: size_of_def)
  next
    case (Cons m l)
    show ?case
    proof (cases "n < snd m")
      case True
      then show ?thesis by (simp add: width_of_Cons)
    next
      case False
      then have "n - snd m < size_of l" using Cons.prems(1) by (simp add: size_of_Cons)
      moreover have "distinct (map fst l)" using Cons.prems(2) by simp
      ultimately have "\<exists>f \<in> fst ` set l. offset_of l f \<le> n - snd m \<and> n - snd m < offset_of l f + width_of l f"
        by (rule Cons.IH)
      then obtain f where f: "f \<in> fst ` set l" "offset_of l f \<le> n - snd m" "n - snd m < offset_of l f + width_of l f"
        by blast
      have "f \<noteq> fst m"
      proof
        assume "f = fst m"
        with f(1) Cons.prems(2) show False by simp
      qed
      with f False have "offset_of (m # l) f \<le> n \<and> n < offset_of (m # l) f + width_of (m # l) f"
        by (auto simp: width_of_Cons)
      moreover have "f \<in> fst ` set (m # l)" using f(1) by simp
      ultimately show ?thesis by blast
    qed
  qed
  then show thesis using that by blast
qed

lemma bit_put_bits:
  fixes e v :: "'a::len word"
  shows "bit (put_bits l f v e) n \<longleftrightarrow>
     n < LENGTH('a) \<and>
     (if offset_of l f \<le> n \<and> n < offset_of l f + width_of l f then bit v (n - offset_of l f) else bit e n)"
  by (auto simp: put_bits_def bit_simps)

lemma get_put_bits_same:
  fixes e v :: "'a::len word"
  assumes "offset_of l f + width_of l f \<le> LENGTH('a)"
  shows "get_bits l f (put_bits l f v e) = take_bit (width_of l f) v"
  using assms by (intro bit_word_eqI) (auto simp: get_bits_def bit_simps bit_put_bits)

lemma get_put_bits_other:
  fixes e v :: "'a::len word"
  assumes "offset_of l f + width_of l f \<le> offset_of l g \<or> offset_of l g + width_of l g \<le> offset_of l f"
  shows "get_bits l f (put_bits l g v e) = get_bits l f e"
  using assms by (intro bit_word_eqI) (auto simp: get_bits_def bit_simps bit_put_bits dest: bit_imp_le_length)

text \<open>A register that its members fill is nothing but its members.\<close>

lemma bits_extensional:
  fixes e e' :: "'a::len word"
  assumes "fills l LENGTH('a)" and "\<And>f. f \<in> fst ` set l \<Longrightarrow> get_bits l f e = get_bits l f e'"
  shows "e = e'"
proof (rule bit_word_eqI)
  fix n assume "n < LENGTH('a)"
  then have "n < size_of l" "distinct (map fst l)" using assms(1) by (simp_all add: fills_def)
  then obtain f where f: "f \<in> fst ` set l" "offset_of l f \<le> n" "n < offset_of l f + width_of l f"
    by (rule bit_in_member)
  have "bit (get_bits l f e) (n - offset_of l f) = bit (get_bits l f e') (n - offset_of l f)"
    using assms(2) f(1) by simp
  moreover have "n - offset_of l f < width_of l f" using f(2,3) by arith
  ultimately show "bit e n = bit e' n" using f(2) by (simp add: get_bits_def bit_simps)
qed

lemma bits_independent:
  fixes e v :: "'a::len word"
  assumes "fills l LENGTH('a)" "f \<in> fst ` set l" "g \<in> fst ` set l"
  shows "get_bits l f (put_bits l g v e) = (if f = g then take_bit (width_of l f) v else get_bits l f e)"
proof (cases "f = g")
  case True
  then show ?thesis using member_inside [OF assms(2)] assms(1) by (simp add: fills_def get_put_bits_same)
next
  case False
  then show ?thesis using members_disjoint [OF assms(2,3)] by (simp add: get_put_bits_other)
qed

section \<open>The descriptors of the page tables\<close>

definition mem_descriptor_t :: layout where
  "mem_descriptor_t =
     [(''valid'', 1), (''type'', 1), (''attr_index'', 3), (''ns'', 1), (''ap'', 2), (''sh'', 2), (''af'', 1),
      (''ng'', 1), (''address'', 36), (''reserved'', 3), (''dbm'', 1), (''contiguous'', 1), (''pxn'', 1),
      (''uxn'', 1), (''ignored'', 4), (''software'', 5)]"

definition table_descriptor_t :: layout where
  "table_descriptor_t =
     [(''valid'', 1), (''type'', 1), (''reserved1'', 10), (''address'', 36), (''reserved2'', 4), (''pxn'', 1),
      (''uxn'', 1), (''ignored'', 9), (''reserved3'', 1)]"

definition pte_md :: layout where
  "pte_md =
     [(''valid'', 1), (''type'', 1), (''attr_index'', 3), (''ns'', 1), (''ap'', 2), (''sh'', 2), (''af'', 1),
      (''ng'', 1), (''address'', 36), (''reserved'', 3), (''dbm'', 1), (''contiguous'', 1), (''pxn'', 1),
      (''uxn'', 1), (''cow'', 1), (''ignored'', 3), (''software'', 5)]"

definition pte_td :: layout where
  "pte_td =
     [(''valid'', 1), (''type'', 1), (''reserved1'', 10), (''address'', 36), (''reserved2'', 4), (''pxn'', 1),
      (''uxn'', 1), (''ignored'', 9), (''reserved3'', 1)]"

section \<open>Other registers with bit fields\<close>

text \<open>The low word of \<open>esr_el1\<close>; the structure has no members for the upper one.\<close>

definition esr_el1_t :: layout where
  "esr_el1_t =
     [(''ti'', 2), (''rv'', 1), (''res0'', 2), (''rn'', 5), (''res1'', 10), (''cond'', 4), (''cv'', 1), (''il'', 1),
      (''ec'', 6)]"

text \<open>The serial controller of the I2C bus, in the order of \<open>struct BSCRegs\<close>.\<close>

definition bsc_c :: layout where
  "bsc_c =
     [(''read'', 1), (''res0'', 3), (''clear'', 2), (''res1'', 1), (''st'', 1), (''intd'', 1), (''intt'', 1),
      (''intr'', 1), (''res2'', 4), (''i2cen'', 1), (''res3'', 16)]"

definition bsc_s :: layout where
  "bsc_s =
     [(''ta'', 1), (''done'', 1), (''txw'', 1), (''rxr'', 1), (''txd'', 1), (''rxd'', 1), (''txe'', 1), (''rxf'', 1),
      (''err'', 1), (''clkt'', 1), (''res0'', 22)]"

definition bsc_dlen :: layout where
  "bsc_dlen =
     [(''dlen'', 16), (''res0'', 16)]"

definition bsc_a :: layout where
  "bsc_a =
     [(''addr'', 7), (''res0'', 25)]"

definition bsc_fifo :: layout where
  "bsc_fifo =
     [(''data'', 8), (''res0'', 24)]"

definition bsc_div :: layout where
  "bsc_div =
     [(''cdiv'', 16), (''res0'', 16)]"

definition bsc_del :: layout where
  "bsc_del =
     [(''redl'', 16), (''fedl'', 16)]"

definition bsc_clkt :: layout where
  "bsc_clkt =
     [(''tout'', 16), (''res0'', 16)]"

definition BSCRegs :: layout where
  "BSCRegs =
     [(''c'', 4), (''s'', 4), (''dlen'', 4), (''a'', 4), (''fifo'', 4), (''div'', 4), (''del'', 4), (''clkt'', 4)]"

text \<open>
  The system registers of \<open>types/sysregs_types.h\<close>, a file that nothing includes. Members with equal
  names are listed as the file has them.
\<close>

definition sctlr_el3_t :: layout where
  "sctlr_el3_t =
     [(''m'', 1), (''a'', 1), (''c'', 1), (''sa'', 1), (''res1'', 2), (''naa'', 1), (''res2'', 4), (''eos'', 1),
      (''i'', 1), (''endb'', 1), (''res3'', 5), (''wxn'', 1), (''res4'', 1), (''iesb'', 1), (''eis'', 1),
      (''res4'', 2), (''ee'', 1), (''res5'', 1), (''enda'', 1), (''res5'', 2), (''enib'', 1), (''enia'', 1),
      (''res6'', 4), (''bt'', 1), (''itfsb'', 1), (''res0_38_39'', 2), (''tcf'', 2), (''res0_42'', 1), (''ata'', 1),
      (''dssbs'', 1), (''res0_45'', 6), (''tmt'', 1), (''res0_52'', 6), (''tme'', 1), (''res0_54_60'', 7),
      (''nmi'', 1), (''spintmask'', 1), (''res0_63'', 1)]"

definition scr_el3_t :: layout where
  "scr_el3_t =
     [(''ns'', 1), (''irq'', 1), (''irq'', 1), (''ea'', 1), (''res1_5_4'', 2), (''res0_6'', 1), (''smd'', 1),
      (''hce'', 1), (''sif'', 1), (''rw'', 1), (''st'', 1), (''twi'', 1), (''twi'', 1), (''tlor'', 1), (''terr'', 1),
      (''apk'', 1), (''api'', 1), (''eel2'', 1), (''ease'', 1), (''nmea'', 1), (''fien'', 1), (''res1_22_24'', 3),
      (''enscxt'', 1), (''ata'', 1), (''fgte'', 1), (''ecven'', 1), (''tweden'', 1), (''twedel'', 4),
      (''res0_34'', 1), (''amvoffen'', 1), (''enaso'', 1), (''aden'', 1), (''hxen'', 1), (''res0_39'', 1),
      (''trndr'', 1), (''res0_41_63'', 23)]"

definition spsr_el3_t :: layout where
  "spsr_el3_t =
     [(''m'', 5), (''res0_5'', 1), (''f'', 1), (''i'', 1), (''a'', 1), (''d'', 1), (''btype'', 2), (''ssbs'', 1),
      (''res0_13_19'', 7), (''il'', 1), (''ss'', 1), (''pan'', 1), (''uao'', 1), (''dit'', 1), (''tco'', 1),
      (''res0_26_27'', 2), (''v'', 1), (''c'', 1), (''z'', 1), (''n'', 1), (''res0_32_63'', 32)]"

definition sctlr_el2_t :: layout where
  "sctlr_el2_t =
     [(''m'', 1), (''a'', 1), (''c'', 1), (''sa0'', 1), (''sa'', 1), (''cp15ben'', 1), (''naa'', 1), (''itd'', 1),
      (''sed'', 1), (''uma'', 1), (''enrctx'', 1), (''eos'', 1), (''i'', 1), (''endb'', 1), (''dze'', 1),
      (''uct'', 1), (''ntwi'', 1), (''res0_17'', 1), (''ntwe'', 1), (''wxn'', 1), (''tscxt'', 1), (''iesb'', 1),
      (''eis'', 1), (''span'', 1), (''e0e'', 1), (''ee'', 1), (''uci'', 1), (''enda'', 1), (''ntlsmd'', 1),
      (''lsmaoe'', 1), (''enib'', 1), (''enia'', 1), (''cmow'', 1), (''mscen'', 1), (''enfpn'', 1), (''bt0'', 1),
      (''bt'', 1), (''itfsb'', 1), (''tcf0'', 2), (''tcf'', 2), (''ata0'', 1), (''ata'', 1), (''dssbs'', 1),
      (''tweden'', 1), (''twedelc'', 4), (''res0_50_53'', 1), (''enasr'', 1), (''enas0'', 1), (''enals'', 1),
      (''epan'', 1), (''tcso0'', 1), (''tcso'', 1), (''entp2'', 1), (''nmi'', 1), (''spintmask'', 1), (''tidcp'', 1)]"

section \<open>Register blocks\<close>

definition gicd_regs :: layout where
  "gicd_regs =
     [(''gicd_ctlr'', 4), (''gicd_typer'', 4), (''gicd_iidr'', 4), (''reserved0'', 116), (''gicd_igroupr'', 64),
      (''reserved1'', 64), (''gicd_isenabler'', 64), (''reserved2'', 64), (''gicd_icenabler'', 64),
      (''reserved3'', 64), (''gicd_ispendr'', 64), (''reserved4'', 64), (''gicd_icpendr'', 64), (''reserved5'', 64),
      (''gicd_isactiver'', 64), (''reserved6'', 64), (''gicd_icactiver'', 64), (''reserved7'', 64),
      (''gicd_ipriorityr'', 512), (''reserved8'', 512), (''gicd_itargetsr'', 512), (''reserved9'', 512),
      (''gicd_icfgr'', 128), (''reserved10'', 128), (''gicd_ppisr'', 4), (''gicd_spisr'', 60), (''reserved12'', 448),
      (''gicd_sgir'', 4), (''reserved13'', 12), (''gicd_cpendsgir'', 16), (''gicd_spendsgir'', 16),
      (''reserved14'', 160), (''gicd_pidr4'', 4), (''gicd_pidr5'', 4), (''gicd_pidr6'', 4), (''gicd_pidr7'', 4),
      (''gicd_pidr0'', 4), (''gicd_pidr1'', 4), (''gicd_pidr2'', 4), (''gicd_pidr3'', 4), (''gicd_cidr0'', 4),
      (''gicd_cidr1'', 4), (''gicd_cidr2'', 4), (''gicd_cidr3'', 4)]"

definition gicc_regs :: layout where
  "gicc_regs =
     [(''gicc_ctlr'', 4), (''gicc_pmr'', 4), (''gicc_bpr'', 4), (''gicc_iar'', 4), (''gicc_eoir'', 4),
      (''gicc_rpr'', 4), (''gicc_hppir'', 4), (''gicc_abpr'', 4), (''gicc_aiar'', 4), (''gicc_aeoir'', 4),
      (''gicc_ahppir'', 4), (''reserved1'', 164), (''gicc_apr0'', 4), (''reserved2'', 12), (''gicc_nsapr0'', 4),
      (''reserved3'', 24), (''gicc_iidr'', 4), (''reserved4'', 3840)]"

definition AuxRegs :: layout where
  "AuxRegs =
     [(''irq_status'', 4), (''enables'', 4), (''reserved'', 56), (''mu_io'', 4), (''mu_ier'', 4), (''mu_iir'', 4),
      (''mu_lcr'', 4), (''mu_mcr'', 4), (''mu_lsr'', 4), (''mu_msr'', 4), (''mu_scratch'', 4), (''mu_control'', 4),
      (''mu_status'', 4), (''mu_baud_rate'', 4)]"

definition GpioPinData :: layout where
  "GpioPinData =
     [(''reserved'', 4), (''data'', 8)]"

definition GpioRegs :: layout where
  "GpioRegs =
     [(''func_select'', 24), (''output_set'', size_of GpioPinData), (''output_clear'', size_of GpioPinData),
      (''level'', size_of GpioPinData), (''ev_detect_status'', size_of GpioPinData),
      (''re_detect_enable'', size_of GpioPinData), (''fe_detect_enable'', size_of GpioPinData),
      (''hi_detect_enable'', size_of GpioPinData), (''lo_detect_enable'', size_of GpioPinData),
      (''async_re_detect'', size_of GpioPinData), (''async_fe_detect'', size_of GpioPinData), (''reserved'', 4),
      (''pupd_enable'', 4), (''pupd_clocks_enable'', 8)]"

definition mailbox_regs_t :: layout where
  "mailbox_regs_t = [(''read'', 4), (''res'', 20), (''status'', 4), (''config'', 4), (''write'', 4)]"

section \<open>What the layouts give\<close>

definition descriptors :: "layout list" where
  "descriptors = [mem_descriptor_t, table_descriptor_t, pte_md, pte_td]"

definition registers32 :: "layout list" where
  "registers32 = [esr_el1_t, bsc_c, bsc_s, bsc_dlen, bsc_a, bsc_fifo, bsc_div, bsc_del, bsc_clkt]"

lemmas descriptor_defs = mem_descriptor_t_def table_descriptor_t_def pte_md_def pte_td_def

lemmas register32_defs =
  esr_el1_t_def bsc_c_def bsc_s_def bsc_dlen_def bsc_a_def bsc_fifo_def bsc_div_def bsc_del_def bsc_clkt_def

lemma descriptors_fill: "l \<in> set descriptors \<Longrightarrow> fills l 64"
  by (auto simp: descriptors_def fills_def size_of_def descriptor_defs)

lemma registers32_fill: "l \<in> set registers32 \<Longrightarrow> fills l 32"
  by (auto simp: registers32_def fills_def size_of_def register32_defs)



text \<open>The functions of the page tables are the members of the source's unions, in both views.\<close>

lemma descriptor_members:
  "get_bits pte_md ''address'' e = pte_address e" "get_bits pte_td ''address'' e = pte_address e"
  "put_bits pte_md ''address'' a e = set_address e a" "put_bits pte_td ''address'' a e = set_address e a"
  "put_bits pte_md ''cow'' v e = set_cow v e" "put_bits pte_md ''ap'' v e = set_ap v e"
  "(get_bits pte_md ''valid'' e = 1) = pte_valid e" "(get_bits pte_td ''type'' e = 1) = pte_type e"
  "(get_bits pte_md ''cow'' e = 1) = pte_cow e"
  by (simp_all add: get_bits_def put_bits_def pte_address_def get_field_def set_address_def put_field_def set_cow_def
      set_ap_def pte_valid_def pte_type_def pte_cow_def descriptor_defs width_of_def bit_iff_odd_drop_bit
      take_bit_Suc odd_iff_mod_2_eq_one)

text \<open>The positions that the comments of the interrupt controller's structures state, and the one they miss.\<close>

lemma gic_offsets:
  "map (offset_of gicd_regs)
     [''gicd_ctlr'', ''gicd_igroupr'', ''gicd_isenabler'', ''gicd_icenabler'', ''gicd_ispendr'', ''gicd_icpendr'',
      ''gicd_isactiver'', ''gicd_icactiver'', ''gicd_ipriorityr'', ''gicd_itargetsr'', ''gicd_icfgr'', ''gicd_ppisr'',
      ''gicd_spisr'', ''gicd_sgir'', ''gicd_cpendsgir'', ''gicd_spendsgir'', ''gicd_pidr4'', ''gicd_cidr3'']
   = [0, 0x80, 0x100, 0x180, 0x200, 0x280, 0x300, 0x380, 0x400, 0x800, 0xC00, 0xD00, 0xD04, 0xF00, 0xF10, 0xF20, 0xFD0,
      0xFFC]"
  "size_of gicd_regs = 0x1000" "size_of gicc_regs = 0x1000"
  "offset_of gicc_regs ''gicc_iar'' = 0xC" "offset_of gicc_regs ''gicc_eoir'' = 0x10"
  "offset_of gicc_regs ''gicc_iidr'' = 0xFC"
  "offset_of gicd_regs ''reserved12'' + width_of gicd_regs ''reserved12'' = 0xEFC + 4"
  by (simp_all add: gicd_regs_def gicc_regs_def size_of_def width_of_def)

lemma block_offsets:
  "offset_of mailbox_regs_t ''status'' = 0x18" "offset_of mailbox_regs_t ''write'' = 0x20"
  "offset_of AuxRegs ''mu_io'' = 0x40" "offset_of AuxRegs ''mu_baud_rate'' = 0x68"
  "offset_of GpioRegs ''output_set'' + offset_of GpioPinData ''data'' = 0x1C"
  "offset_of GpioRegs ''output_clear'' + offset_of GpioPinData ''data'' = 0x28"
  "offset_of GpioRegs ''pupd_enable'' = 0x94" "offset_of GpioRegs ''pupd_clocks_enable'' = 0x98"
  by (simp_all add: mailbox_regs_t_def AuxRegs_def GpioRegs_def GpioPinData_def size_of_def)

text \<open>The system registers: only \<open>spsr_el3_t\<close> is a 64-bit register with distinct members.\<close>

lemma system_register_sizes:
  "size_of sctlr_el3_t = 69" "\<not> distinct (map fst sctlr_el3_t)"
  "size_of scr_el3_t = 64" "\<not> distinct (map fst scr_el3_t)"
  "size_of sctlr_el2_t = 61" "distinct (map fst sctlr_el2_t)"
  "fills spsr_el3_t 64"
  by (simp_all add: sctlr_el3_t_def scr_el3_t_def sctlr_el2_t_def spsr_el3_t_def fills_def size_of_def)

lemma system_register_shifts:
  "offset_of sctlr_el3_t ''tme'' = 58" "offset_of sctlr_el3_t ''spintmask'' = 67"
  "offset_of sctlr_el2_t ''enasr'' = 51" "offset_of sctlr_el2_t ''tidcp'' = 60"
  by (simp_all add: sctlr_el3_t_def sctlr_el2_t_def)

end
