(* ===== verification/Devices.thy ===== *)
theory Devices
  imports Registers
begin

text \<open>
  Device registers and three drivers: the pins of \<open>io/gpio.c\<close>, their copy and the serial line in
  \<open>boot/uart_low.c\<close>, and the I2C bus of \<open>filedescriptors/filedescriptors.c\<close>. The hardware is a parameter, a record of functions on a state of
  any type, so the results hold for all the values a register can present. A register is named by its
  address, the base of \<open>peripherals\<close> plus its offset in the layout. The members of these structures are
  not volatile; an assignment to one is taken as a read and a write of its word, in program order.
\<close>

section \<open>Registers\<close>

record 'h io =
  io_read :: "u64 \<Rightarrow> 'h \<Rightarrow> u32 \<times> 'h"
  io_write :: "u64 \<Rightarrow> u32 \<Rightarrow> 'h \<Rightarrow> 'h"
  io_delay :: "u64 \<Rightarrow> 'h \<Rightarrow> 'h"

text \<open>The log of all writes is no part of the machine; it serves to state what a driver sends.\<close>

record 'h machine =
  hw :: 'h
  io_log :: "(u64 \<times> u32) list"

definition reg_read :: "'h io \<Rightarrow> u64 \<Rightarrow> 'h machine \<Rightarrow> u32 \<times> 'h machine" where
  "reg_read d a m = (let (v, h) = io_read d a (hw m) in (v, m\<lparr>hw := h\<rparr>))"

definition reg_write :: "'h io \<Rightarrow> u64 \<Rightarrow> u32 \<Rightarrow> 'h machine \<Rightarrow> 'h machine" where
  "reg_write d a v m = m\<lparr>hw := io_write d a v (hw m), io_log := io_log m @ [(a, v)]\<rparr>"

definition reg_assign :: "'h io \<Rightarrow> u64 \<Rightarrow> layout \<Rightarrow> string \<Rightarrow> u32 \<Rightarrow> 'h machine \<Rightarrow> 'h machine" where
  "reg_assign d a l f v m = (let (old, m1) = reg_read d a m in reg_write d a (put_bits l f v old) m1)"

definition pause :: "'h io \<Rightarrow> u64 \<Rightarrow> 'h machine \<Rightarrow> 'h machine" where
  "pause d ticks m = m\<lparr>hw := io_delay d ticks (hw m)\<rparr>"

text \<open>A loop that reads a register until a condition holds; the fuel is the number of reads.\<close>

primrec poll :: "nat \<Rightarrow> 'h io \<Rightarrow> u64 \<Rightarrow> (u32 \<Rightarrow> bool) \<Rightarrow> 'h machine \<Rightarrow> 'h machine result" where
  "poll 0 d a ok m = Inl OutOfFuel"
| "poll (Suc n) d a ok m = (let (v, m1) = reg_read d a m in if ok v then Inr m1 else poll n d a ok m1)"

section \<open>Pins\<close>

abbreviation (input) GFInput :: u32 where "GFInput \<equiv> 0"
abbreviation (input) GFOutput :: u32 where "GFOutput \<equiv> 1"
abbreviation (input) GFAlt0 :: u32 where "GFAlt0 \<equiv> 4"
abbreviation (input) GFAlt1 :: u32 where "GFAlt1 \<equiv> 5"
abbreviation (input) GFAlt2 :: u32 where "GFAlt2 \<equiv> 6"
abbreviation (input) GFAlt3 :: u32 where "GFAlt3 \<equiv> 7"
abbreviation (input) GFAlt4 :: u32 where "GFAlt4 \<equiv> 3"
abbreviation (input) GFAlt5 :: u32 where "GFAlt5 \<equiv> 2"

definition REGS_GPIO :: "string \<Rightarrow> u64" where
  "REGS_GPIO r = PBASE + 0x00200000 + of_nat (offset_of GpioRegs r)"

definition gpio_pin_set_func :: "'h io \<Rightarrow> u8 \<Rightarrow> u32 \<Rightarrow> 'h machine \<Rightarrow> 'h machine result" where
  "gpio_pin_set_func d pinNumber func m =
     (let bit_start = (unat pinNumber * 3) mod 30; reg = unat pinNumber div 10;
          a = REGS_GPIO ''func_select'' + of_nat (4 * reg)
      in if 6 \<le> reg then Inl WildAccess
         else let (selector, m1) = reg_read d a m
              in Inr (reg_write d a ((selector AND NOT (push_bit bit_start 7)) OR push_bit bit_start func) m1))"

definition gpio_set_pin_high :: "'h io \<Rightarrow> u8 \<Rightarrow> 'h machine \<Rightarrow> 'h machine result" where
  "gpio_set_pin_high d pinNumber m =
     (let idx = unat pinNumber div 32; offset = unat pinNumber mod 32
      in if 2 \<le> idx then Inl WildAccess
         else Inr (reg_write d (REGS_GPIO ''output_set'' + of_nat (offset_of GpioPinData ''data'' + 4 * idx))
                     (push_bit offset 1) m))"

definition gpio_set_pin_low :: "'h io \<Rightarrow> u8 \<Rightarrow> 'h machine \<Rightarrow> 'h machine result" where
  "gpio_set_pin_low d pinNumber m =
     (let idx = unat pinNumber div 32; offset = unat pinNumber mod 32
      in if 2 \<le> idx then Inl WildAccess
         else Inr (reg_write d (REGS_GPIO ''output_clear'' + of_nat (offset_of GpioPinData ''data'' + 4 * idx))
                     (push_bit offset 1) m))"

definition gpio_pin_enable :: "'h io \<Rightarrow> u8 \<Rightarrow> 'h machine \<Rightarrow> 'h machine result" where
  "gpio_pin_enable d pinNumber m =
     (let idx = unat pinNumber div 32; clk = REGS_GPIO ''pupd_clocks_enable'' + of_nat (4 * idx)
      in if 2 \<le> idx then Inl WildAccess
         else let m1 = pause d 150 (reg_write d (REGS_GPIO ''pupd_enable'') 0 m);
                  m2 = pause d 150 (reg_write d clk (push_bit (unat pinNumber mod 32) 1) m1)
              in Inr (reg_write d clk 0 (reg_write d (REGS_GPIO ''pupd_enable'') 0 m2)))"

definition pulse :: "'h io \<Rightarrow> u32 \<Rightarrow> bool \<Rightarrow> 'h machine \<Rightarrow> 'h machine result" where
  "pulse d pin on m = (if on then gpio_set_pin_low d (ucast pin) m else gpio_set_pin_high d (ucast pin) m)"

section \<open>Pins and the serial line before the MMU is on\<close>

text \<open>\<open>boot/uart_low.c\<close> reaches the same registers by their physical addresses.\<close>

definition PBASE_PHYS :: u64 where "PBASE_PHYS = 0xFE000000"

definition REGS_GPIO_LO :: "string \<Rightarrow> u64" where
  "REGS_GPIO_LO r = PBASE_PHYS + 0x00200000 + of_nat (offset_of GpioRegs r)"

definition REGS_AUX_LO :: "string \<Rightarrow> u64" where
  "REGS_AUX_LO r = PBASE_PHYS + 0x00215000 + of_nat (offset_of AuxRegs r)"

definition gpio_pin_set_func_lo :: "'h io \<Rightarrow> u8 \<Rightarrow> u32 \<Rightarrow> 'h machine \<Rightarrow> 'h machine result" where
  "gpio_pin_set_func_lo d pinNumber func m =
     (let bit_start = (unat pinNumber * 3) mod 30; reg = unat pinNumber div 10;
          a = REGS_GPIO_LO ''func_select'' + of_nat (4 * reg)
      in if 6 \<le> reg then Inl WildAccess
         else let (selector, m1) = reg_read d a m
              in Inr (reg_write d a ((selector AND NOT (push_bit bit_start 7)) OR push_bit bit_start func) m1))"

definition gpio_pin_enable_lo :: "'h io \<Rightarrow> u8 \<Rightarrow> 'h machine \<Rightarrow> 'h machine result" where
  "gpio_pin_enable_lo d pinNumber m =
     (let idx = unat pinNumber div 32; clk = REGS_GPIO_LO ''pupd_clocks_enable'' + of_nat (4 * idx)
      in if 2 \<le> idx then Inl WildAccess
         else let m1 = pause d 150 (reg_write d (REGS_GPIO_LO ''pupd_enable'') 0 m);
                  m2 = pause d 150 (reg_write d clk (push_bit (unat pinNumber mod 32) 1) m1)
              in Inr (reg_write d clk 0 (reg_write d (REGS_GPIO_LO ''pupd_enable'') 0 m2)))"

fun each_pin :: "(u8 \<Rightarrow> 'h machine \<Rightarrow> 'h machine result) \<Rightarrow> u8 list \<Rightarrow> 'h machine \<Rightarrow> 'h machine result" where
  "each_pin f [] m = Inr m"
| "each_pin f (p # ps) m = bindR (f p m) (each_pin f ps)"

text \<open>The pins of the debugger are set up, and the processor waits for one for ever.\<close>

definition debug_init_lo :: "'h io \<Rightarrow> 'h machine \<Rightarrow> 'h machine result" where
  "debug_init_lo d m =
     bindR (each_pin (\<lambda>p. gpio_pin_set_func_lo d p GFAlt4) [22, 27, 4, 5, 25] m) (\<lambda>m1.
     bindR (each_pin (gpio_pin_enable_lo d) [22, 27, 4, 5, 25] m1) (\<lambda>m2. Inl Halted))"

definition uart_init_lo :: "'h io \<Rightarrow> 'h machine \<Rightarrow> 'h machine result" where
  "uart_init_lo d m =
     bindR (each_pin (\<lambda>p. gpio_pin_set_func_lo d p GFAlt5) [14, 15] m) (\<lambda>m1.
     bindR (each_pin (gpio_pin_enable_lo d) [14, 15] m1) (\<lambda>m2.
       let m3 = reg_write d (REGS_AUX_LO ''enables'') 1 m2;
           m4 = reg_write d (REGS_AUX_LO ''mu_control'') 0 m3;
           m5 = reg_write d (REGS_AUX_LO ''mu_ier'') 1 m4;
           m6 = reg_write d (REGS_AUX_LO ''mu_lcr'') 3 m5;
           m7 = reg_write d (REGS_AUX_LO ''mu_mcr'') 0 m6;
           m8 = reg_write d (REGS_AUX_LO ''mu_baud_rate'') 541 m7
       in Inr (reg_write d (REGS_AUX_LO ''mu_control'') 3 m8)))"

section \<open>The I2C bus\<close>

definition REGS_BSC1 :: "string \<Rightarrow> u64" where
  "REGS_BSC1 r = PBASE + 0x00804000 + of_nat (offset_of BSCRegs r)"

abbreviation (input) SDA_GPIO :: u8 where "SDA_GPIO \<equiv> 2"
abbreviation (input) SCL_GPIO :: u8 where "SCL_GPIO \<equiv> 3"
abbreviation (input) I2C_SLAVE :: u64 where "I2C_SLAVE \<equiv> 0x0703"

text \<open>
  The value of a call is an option: \<open>None\<close> stands for the indeterminate value of a function of type \<open>int\<close>
  that ends without a return statement.
\<close>

definition i2c_open :: "'h io \<Rightarrow> 'h machine \<Rightarrow> (u32 option \<times> 'h machine) result" where
  "i2c_open d m =
     bindR (gpio_pin_enable d SDA_GPIO m) (\<lambda>m1.
     bindR (gpio_pin_enable d SCL_GPIO m1) (\<lambda>m2.
     bindR (gpio_pin_set_func d SDA_GPIO GFAlt0 m2) (\<lambda>m3.
     bindR (gpio_pin_set_func d SCL_GPIO GFAlt0 m3) (\<lambda>m4.
       let m5 = reg_assign d (REGS_BSC1 ''c'') bsc_c ''i2cen'' 1 m4
       in Inr (None, reg_assign d (REGS_BSC1 ''div'') bsc_div ''cdiv'' 1500 m5)))))"

definition i2c_read :: "'h io \<Rightarrow> u64 \<Rightarrow> bool \<Rightarrow> u64 \<Rightarrow> 'h machine \<Rightarrow> u32 option \<times> 'h machine" where
  "i2c_read d private_data null_buf count m =
     (if null_buf then (Some 0, m)
      else (None, reg_assign d (REGS_BSC1 ''a'') bsc_a ''addr'' (ucast (ucast private_data :: u8)) m))"

text \<open>The bytes go one by one to the queue once it has room.\<close>

fun push_bytes :: "nat \<Rightarrow> 'h io \<Rightarrow> u8 list \<Rightarrow> 'h machine \<Rightarrow> 'h machine result" where
  "push_bytes n d [] m = Inr m"
| "push_bytes n d (b # bs) m =
     bindR (poll n d (REGS_BSC1 ''s'') (\<lambda>s. get_bits bsc_s ''txd'' s \<noteq> 0) m) (\<lambda>m1.
       push_bytes n d bs (reg_assign d (REGS_BSC1 ''fifo'') bsc_fifo ''data'' (ucast b) m1))"

definition transfer_block :: "nat \<Rightarrow> 'h io \<Rightarrow> u8 list \<Rightarrow> 'h machine \<Rightarrow> (u32 \<times> 'h machine) result" where
  "transfer_block n d bytes m =
     bindR (push_bytes n d bytes (reg_assign d (REGS_BSC1 ''c'') bsc_c ''st'' 1 m)) (\<lambda>m1.
     bindR (poll n d (REGS_BSC1 ''s'') (\<lambda>s. get_bits bsc_s ''done'' s \<noteq> 0) m1) (\<lambda>m2.
       let (_, m3) = reg_read d (REGS_BSC1 ''s'') m2; (s, m4) = reg_read d (REGS_BSC1 ''s'') m3
       in Inr (get_bits bsc_s ''err'' s, m4)))"

definition dlen_max :: u64 where "dlen_max = 0xFFFF"

text \<open>The loop of \<open>i2c_write\<close>; the first argument counts its rounds.\<close>

fun i2c_blocks :: "nat \<Rightarrow> nat \<Rightarrow> 'h io \<Rightarrow> u8 list \<Rightarrow> u64 \<Rightarrow> u64 \<Rightarrow> 'h machine \<Rightarrow> 'h machine result" where
  "i2c_blocks 0 n d buf count to_transfer m = Inl OutOfFuel"
| "i2c_blocks (Suc k) n d buf count to_transfer m =
     (if to_transfer = 0 then Inr m
      else bindR (transfer_block n d (take (unat to_transfer) buf)
                    (reg_assign d (REGS_BSC1 ''dlen'') bsc_dlen ''dlen'' (ucast to_transfer) m)) (\<lambda>(status, m1).
           i2c_blocks k n d buf count (min (count - to_transfer) dlen_max) m1))"

text \<open>The slave's address, an empty queue, the direction and the clock.\<close>

definition i2c_setup :: "'h io \<Rightarrow> u64 \<Rightarrow> 'h machine \<Rightarrow> 'h machine" where
  "i2c_setup d private_data m =
     (let m1 = reg_assign d (REGS_BSC1 ''a'') bsc_a ''addr'' (ucast (ucast private_data :: u8)) m;
          m2 = reg_assign d (REGS_BSC1 ''c'') bsc_c ''clear'' 1 m1;
          m3 = reg_assign d (REGS_BSC1 ''c'') bsc_c ''read'' 0 m2
      in reg_assign d (REGS_BSC1 ''div'') bsc_div ''cdiv'' 2500 m3)"

text \<open>Two rounds are enough, as the theorem below shows; the buffer is \<open>None\<close> for a null pointer.\<close>

definition i2c_write ::
  "nat \<Rightarrow> 'h io \<Rightarrow> u64 \<Rightarrow> u8 list option \<Rightarrow> u64 \<Rightarrow> 'h machine \<Rightarrow> (u32 option \<times> 'h machine) result" where
  "i2c_write n d private_data buf count m =
     (case buf of None \<Rightarrow> Inr (Some 0, m)
      | Some bytes \<Rightarrow>
          if dlen_max < count then Inr (Some 0, m)
          else if length bytes < unat count then Inl WildAccess
          else bindR (i2c_blocks 2 n d bytes count (min count dlen_max) (i2c_setup d private_data m))
                 (\<lambda>m1. Inr (None, m1)))"

text \<open>The slave's address is kept in the file's private pointer.\<close>

definition i2c_ioctl :: "u64 \<Rightarrow> u64 \<Rightarrow> u64 \<Rightarrow> u32 \<times> u64" where
  "i2c_ioctl cmd arg private_data = (if cmd = I2C_SLAVE then (0, arg) else (- 1, private_data))"

section \<open>What the drivers write\<close>

lemma reg_read_log [simp]: "io_log (snd (reg_read d a m)) = io_log m"
  by (simp add: reg_read_def split: prod.split)

lemma reg_write_log [simp]: "io_log (reg_write d a v m) = io_log m @ [(a, v)]"
  by (simp add: reg_write_def)

lemma reg_assign_log:
  obtains old where "io_log (reg_assign d a l f v m) = io_log m @ [(a, put_bits l f v old)]"
proof
  show "io_log (reg_assign d a l f v m) = io_log m @ [(a, put_bits l f v (fst (reg_read d a m)))]"
    by (simp add: reg_assign_def split_beta)
qed

lemma poll_log: "poll n d a ok m = Inr m' \<Longrightarrow> io_log m' = io_log m"
proof (induction n arbitrary: m)
  case (Suc n)
  obtain v m1 where r: "reg_read d a m = (v, m1)" by (cases "reg_read d a m")
  then have "io_log m1 = io_log m" using reg_read_log [of d a m] by simp
  with r Suc show ?case by (simp split: if_splits)
qed simp

lemma poll_error: "poll n d a ok m = Inl e \<Longrightarrow> e = OutOfFuel"
  by (induction n arbitrary: m) (auto split: if_splits prod.splits)

text \<open>One function of a pin takes the three bits of that pin in the selector and no other bit.\<close>

lemma gpio_pin_set_func_writes:
  assumes "unat pin < 60" and "reg_read d (REGS_GPIO ''func_select'' + of_nat (4 * (unat pin div 10))) m = (old, m1)"
    and "func < 8"
  shows "\<exists>v. gpio_pin_set_func d pin func m
             = Inr (reg_write d (REGS_GPIO ''func_select'' + of_nat (4 * (unat pin div 10))) v m1)
    \<and> (\<forall>n < 32. bit v n = (if n div 3 = unat pin mod 10 then bit func (n mod 3) else bit old n))"
proof -
  define s where "s = (unat pin * 3) mod 30"
  define v where "v = (old AND NOT (push_bit s 7)) OR push_bit s func"
  have s: "s = 3 * (unat pin mod 10)" using mult_mod_right [of 3 "unat pin" 10] by (simp add: s_def mult.commute)
  have f: "\<not> bit func k" if "3 \<le> k" for k
    using bit_word_exp_le [of func k] that assms(3) power_increasing [of 3 k "2 :: nat"]
    by (auto simp: word_less_nat_alt)
  have seven: "(7 :: u32) = mask 3" by (simp add: mask_eq_exp_minus_1)
  have "bit v n = (if n div 3 = unat pin mod 10 then bit func (n mod 3) else bit old n)" if "n < 32" for n
  proof -
    have "n div 3 = k \<longleftrightarrow> 3 * k \<le> n \<and> n < 3 * k + 3" for k by arith
    then have "n div 3 = unat pin mod 10 \<longleftrightarrow> s \<le> n \<and> n < s + 3" unfolding s .
    moreover have "n mod 3 = n - 3 * k" if "3 * k \<le> n" "n < 3 * k + 3" for k using that by arith
    then have "n mod 3 = n - s" if "s \<le> n" "n < s + 3" using that unfolding s .
    moreover have "n - s < 3" if "bit func (n - s)" using f that not_less by blast
    ultimately show ?thesis using that
      by (auto simp: v_def seven bit_simps)
  qed
  moreover have "gpio_pin_set_func d pin func m
                 = Inr (reg_write d (REGS_GPIO ''func_select'' + of_nat (4 * (unat pin div 10))) v m1)"
    using assms(1,2) by (simp add: gpio_pin_set_func_def Let_def v_def s_def)
  ultimately show ?thesis by blast
qed

text \<open>The linear map of the kernel takes the physical registers to the ones it uses later.\<close>

lemma gpio_low_high: "REGS_GPIO r = pa_to_va (REGS_GPIO_LO r)"
  by (simp add: REGS_GPIO_def REGS_GPIO_LO_def PBASE_def PBASE_PHYS_def pa_to_va_def VIRT_BASE_def)

lemma debug_init_lo_halts: "debug_init_lo d m = Inl Halted"
  by (simp add: debug_init_lo_def gpio_pin_set_func_lo_def gpio_pin_enable_lo_def Let_def split_beta)

text \<open>While the line is configured its receiver and transmitter are off.\<close>

lemma uart_init_lo_writes:
  "\<exists>m' ws. uart_init_lo d m = Inr m' \<and> io_log m' = io_log m @ ws @
     [(REGS_AUX_LO ''enables'', 1), (REGS_AUX_LO ''mu_control'', 0), (REGS_AUX_LO ''mu_ier'', 1), (REGS_AUX_LO ''mu_lcr'', 3),
      (REGS_AUX_LO ''mu_mcr'', 0), (REGS_AUX_LO ''mu_baud_rate'', 541), (REGS_AUX_LO ''mu_control'', 3)]"
  by (simp add: uart_init_lo_def gpio_pin_set_func_lo_def gpio_pin_enable_lo_def pause_def Let_def split_beta)

lemmas bsc_defs = bsc_c_def bsc_s_def bsc_dlen_def bsc_a_def bsc_fifo_def bsc_div_def

text \<open>A member of a register has the value last assigned to it.\<close>

lemma bsc_get_put [simp]:
  "get_bits bsc_a ''addr'' (put_bits bsc_a ''addr'' v e) = take_bit 7 (v :: u32)"
  "get_bits bsc_c ''clear'' (put_bits bsc_c ''clear'' v e) = take_bit 2 v"
  "get_bits bsc_c ''read'' (put_bits bsc_c ''read'' v e) = take_bit 1 v"
  "get_bits bsc_c ''st'' (put_bits bsc_c ''st'' v e) = take_bit 1 v"
  "get_bits bsc_dlen ''dlen'' (put_bits bsc_dlen ''dlen'' v e) = take_bit 16 v"
  "get_bits bsc_div ''cdiv'' (put_bits bsc_div ''cdiv'' v e) = take_bit 16 v"
  "get_bits bsc_fifo ''data'' (put_bits bsc_fifo ''data'' v e) = take_bit 8 v"
  by (simp_all add: get_put_bits_same bsc_defs width_of_def)

lemma push_bytes_log:
  "push_bytes n d bs m = Inr m' \<Longrightarrow>
   \<exists>ws. io_log m' = io_log m @ map (Pair (REGS_BSC1 ''fifo'')) ws \<and> map (get_bits bsc_fifo ''data'') ws = map ucast bs"
proof (induction bs arbitrary: m)
  case Nil
  then show ?case by simp
next
  case (Cons b bs)
  obtain m1 where p: "poll n d (REGS_BSC1 ''s'') (\<lambda>s. get_bits bsc_s ''txd'' s \<noteq> 0) m = Inr m1"
      "push_bytes n d bs (reg_assign d (REGS_BSC1 ''fifo'') bsc_fifo ''data'' (ucast b) m1) = Inr m'"
    using Cons.prems by (auto simp: bindR_eq_Inr)
  obtain old where a: "io_log (reg_assign d (REGS_BSC1 ''fifo'') bsc_fifo ''data'' (ucast b) m1)
      = io_log m1 @ [(REGS_BSC1 ''fifo'', put_bits bsc_fifo ''data'' (ucast b) old)]"
    by (rule reg_assign_log)
  obtain ws where w: "io_log m' = io_log (reg_assign d (REGS_BSC1 ''fifo'') bsc_fifo ''data'' (ucast b) m1)
        @ map (Pair (REGS_BSC1 ''fifo'')) ws" "map (get_bits bsc_fifo ''data'') ws = map ucast bs"
    using Cons.IH [OF p(2)] by blast
  have "take_bit 8 (ucast b :: u32) = ucast b"
    by (rule bit_word_eqI) (auto simp: bit_simps dest: bit_imp_le_length)
  then show ?case
    using w a poll_log [OF p(1)]
    by (intro exI [of _ "put_bits bsc_fifo ''data'' (ucast b) old # ws"]) simp
qed

lemma push_bytes_error: "push_bytes n d bs m = Inl e \<Longrightarrow> e = OutOfFuel"
  by (induction bs arbitrary: m) (auto simp: bindR_eq_Inl dest: poll_error)

text \<open>
  The controller serves transfers: after finitely many reads of the status it has room in its queue, or is
  done, from whatever state it is in.
\<close>

definition bsc_serves :: "nat \<Rightarrow> 'h io \<Rightarrow> bool" where
  "bsc_serves n d \<longleftrightarrow>
     (\<forall>m f. f \<in> {''txd'', ''done''} \<longrightarrow> poll n d (REGS_BSC1 ''s'') (\<lambda>s. get_bits bsc_s f s \<noteq> 0) m \<noteq> Inl OutOfFuel)"

lemma poll_serves:
  assumes "bsc_serves n d" "f \<in> {''txd'', ''done''}"
  obtains m' where "poll n d (REGS_BSC1 ''s'') (\<lambda>s. get_bits bsc_s f s \<noteq> 0) m = Inr m'"
proof (cases "poll n d (REGS_BSC1 ''s'') (\<lambda>s. get_bits bsc_s f s \<noteq> 0) m")
  case (Inl e)
  then show thesis using poll_error [OF Inl] assms unfolding bsc_serves_def by blast
next
  case (Inr m')
  then show thesis using that by blast
qed

lemma push_bytes_serves: "bsc_serves n d \<Longrightarrow> \<exists>m'. push_bytes n d bs m = Inr m'"
proof (induction bs arbitrary: m)
  case (Cons b bs)
  obtain m1 where "poll n d (REGS_BSC1 ''s'') (\<lambda>s. get_bits bsc_s ''txd'' s \<noteq> 0) m = Inr m1"
    using poll_serves [OF Cons.prems, of "''txd''" m] by auto
  then show ?case using Cons by simp
qed simp

lemma transfer_block_serves:
  assumes "bsc_serves n d" shows "\<exists>s m'. transfer_block n d bs m = Inr (s, m')"
proof -
  obtain m1 where p: "push_bytes n d bs (reg_assign d (REGS_BSC1 ''c'') bsc_c ''st'' 1 m) = Inr m1"
    using push_bytes_serves [OF assms] by blast
  obtain m2 where "poll n d (REGS_BSC1 ''s'') (\<lambda>s. get_bits bsc_s ''done'' s \<noteq> 0) m1 = Inr m2"
    using poll_serves [OF assms, of "''done''" m1] by auto
  with p show ?thesis by (simp add: transfer_block_def split_beta Let_def)
qed

lemma transfer_block_error: "transfer_block n d bs m = Inl e \<Longrightarrow> e = OutOfFuel"
  by (auto simp: transfer_block_def bindR_eq_Inl split_beta Let_def dest: push_bytes_error poll_error)

lemma transfer_block_log:
  assumes "transfer_block n d bs m = Inr (s, m')"
  shows "\<exists>vs ws. io_log m' = io_log m @ (REGS_BSC1 ''c'', vs) # map (Pair (REGS_BSC1 ''fifo'')) ws
    \<and> get_bits bsc_c ''st'' vs = 1 \<and> map (get_bits bsc_fifo ''data'') ws = map ucast bs"
proof -
  obtain m1 m2 where p: "push_bytes n d bs (reg_assign d (REGS_BSC1 ''c'') bsc_c ''st'' 1 m) = Inr m1"
      "poll n d (REGS_BSC1 ''s'') (\<lambda>s. get_bits bsc_s ''done'' s \<noteq> 0) m1 = Inr m2" "io_log m' = io_log m2"
    using assms by (auto simp: transfer_block_def bindR_eq_Inr split_beta Let_def)
  obtain old where a: "io_log (reg_assign d (REGS_BSC1 ''c'') bsc_c ''st'' 1 m)
      = io_log m @ [(REGS_BSC1 ''c'', put_bits bsc_c ''st'' 1 old)]"
    by (rule reg_assign_log)
  obtain ws where w: "io_log m1 = io_log (reg_assign d (REGS_BSC1 ''c'') bsc_c ''st'' 1 m)
      @ map (Pair (REGS_BSC1 ''fifo'')) ws" "map (get_bits bsc_fifo ''data'') ws = map ucast bs"
    using push_bytes_log [OF p(1)] by blast
  show ?thesis
    using a w poll_log [OF p(2)] p(3)
    by (intro exI [of _ "put_bits bsc_c ''st'' 1 old"] exI [of _ ws]) simp
qed

text \<open>One round sends everything, since no length that is accepted exceeds a block.\<close>

lemma i2c_blocks_two:
  assumes "count \<le> dlen_max"
  shows "i2c_blocks 2 n d bytes count (min count dlen_max) m =
    (if count = 0 then Inr m
     else bindR (transfer_block n d (take (unat count) bytes)
                   (reg_assign d (REGS_BSC1 ''dlen'') bsc_dlen ''dlen'' (ucast count) m)) (\<lambda>(s, m1). Inr m1))"
  using assms by (simp add: numeral_2_eq_2 min_absorb1 bindR_def split: sum.split prod.split)

lemma i2c_setup_log:
  "\<exists>va vc vr vd. io_log (i2c_setup d slave m) = io_log m @ [(REGS_BSC1 ''a'', va), (REGS_BSC1 ''c'', vc),
       (REGS_BSC1 ''c'', vr), (REGS_BSC1 ''div'', vd)]
     \<and> get_bits bsc_a ''addr'' va = take_bit 7 (ucast slave) \<and> get_bits bsc_c ''clear'' vc = 1
     \<and> get_bits bsc_c ''read'' vr = 0 \<and> get_bits bsc_div ''cdiv'' vd = 2500"
proof -
  define m1 where "m1 = reg_assign d (REGS_BSC1 ''a'') bsc_a ''addr'' (ucast (ucast slave :: u8)) m"
  define m2 where "m2 = reg_assign d (REGS_BSC1 ''c'') bsc_c ''clear'' 1 m1"
  define m3 where "m3 = reg_assign d (REGS_BSC1 ''c'') bsc_c ''read'' 0 m2"
  obtain o1 where o1: "io_log m1 = io_log m @ [(REGS_BSC1 ''a'', put_bits bsc_a ''addr'' (ucast (ucast slave :: u8)) o1)]"
    unfolding m1_def by (rule reg_assign_log)
  obtain o2 where o2: "io_log m2 = io_log m1 @ [(REGS_BSC1 ''c'', put_bits bsc_c ''clear'' 1 o2)]"
    unfolding m2_def by (rule reg_assign_log)
  obtain o3 where o3: "io_log m3 = io_log m2 @ [(REGS_BSC1 ''c'', put_bits bsc_c ''read'' 0 o3)]"
    unfolding m3_def by (rule reg_assign_log)
  obtain o4 where o4: "io_log (reg_assign d (REGS_BSC1 ''div'') bsc_div ''cdiv'' 2500 m3)
      = io_log m3 @ [(REGS_BSC1 ''div'', put_bits bsc_div ''cdiv'' 2500 o4)]"
    by (rule reg_assign_log)
  have addr: "take_bit 7 (ucast (ucast slave :: u8) :: u32) = take_bit 7 (ucast slave)"
    by (rule bit_word_eqI) (auto simp: bit_simps)
  show ?thesis
    using o1 o2 o3 o4 addr by (simp add: i2c_setup_def m1_def [symmetric] m2_def [symmetric] m3_def [symmetric])
qed

lemma i2c_write_eq:
  assumes "length buf \<le> 65535"
  shows "i2c_write n d slave (Some buf) (of_nat (length buf)) m =
    (if buf = [] then Inr (None, i2c_setup d slave m)
     else bindR (transfer_block n d buf
                   (reg_assign d (REGS_BSC1 ''dlen'') bsc_dlen ''dlen'' (of_nat (length buf)) (i2c_setup d slave m)))
            (\<lambda>sm. Inr (None, snd sm)))"
proof -
  define count :: u64 where "count = of_nat (length buf)"
  have u: "unat count = length buf" using assms by (simp add: count_def unat_of_nat)
  then have small: "count \<le> dlen_max" using assms by (simp add: word_le_nat_alt dlen_max_def)
  have "unat (ucast count :: u32) = length buf" using u assms by (simp add: unat_ucast_word take_bit_eq_mod)
  then have "ucast count = (of_nat (length buf) :: u32)"
    using assms by (intro unsigned_word_eqI [where 'a = nat]) (simp add: unat_of_nat)
  then show ?thesis
    using small u i2c_blocks_two [OF small, of n d buf "i2c_setup d slave m"]
    by (auto simp: i2c_write_def count_def [symmetric] unat_eq_zero bindR_def split: sum.split)
qed

text \<open>
  C36. For every hardware, \<open>i2c_write\<close> of at most 65535 bytes sends exactly the bytes of the buffer, in
  order: it selects the slave, clears the queue, chooses the direction and the clock, and, unless the
  buffer is empty, announces the length, starts the transfer and then writes nothing but the bytes.
  It never faults, and it returns where the controller serves transfers.
\<close>

theorem i2c_write_sends:
  assumes "length buf \<le> 65535"
  shows "case i2c_write n d slave (Some buf) (of_nat (length buf)) m of
      Inl e \<Rightarrow> e = OutOfFuel \<and> \<not> bsc_serves n d
    | Inr (r, m') \<Rightarrow>
        \<exists>va vc vr vd rest. io_log m' = io_log m @ [(REGS_BSC1 ''a'', va), (REGS_BSC1 ''c'', vc), (REGS_BSC1 ''c'', vr),
            (REGS_BSC1 ''div'', vd)] @ rest
        \<and> get_bits bsc_a ''addr'' va = take_bit 7 (ucast slave) \<and> get_bits bsc_c ''clear'' vc = 1
        \<and> get_bits bsc_c ''read'' vr = 0 \<and> get_bits bsc_div ''cdiv'' vd = 2500
        \<and> (if buf = [] then rest = []
           else \<exists>vl vs ws. rest = (REGS_BSC1 ''dlen'', vl) # (REGS_BSC1 ''c'', vs) # map (Pair (REGS_BSC1 ''fifo'')) ws
             \<and> get_bits bsc_dlen ''dlen'' vl = of_nat (length buf) \<and> get_bits bsc_c ''st'' vs = 1
             \<and> map (get_bits bsc_fifo ''data'') ws = map ucast buf)"
    (is "case ?r of Inl e \<Rightarrow> _ | Inr (r, m') \<Rightarrow> ?spec m'")
proof (cases "buf = []")
  case True
  then show ?thesis using i2c_write_eq [OF assms, of n d slave m] i2c_setup_log [of d slave m] by simp
next
  case False
  define m5 where "m5 = reg_assign d (REGS_BSC1 ''dlen'') bsc_dlen ''dlen'' (of_nat (length buf)) (i2c_setup d slave m)"
  obtain o5 where o5: "io_log m5 = io_log (i2c_setup d slave m)
      @ [(REGS_BSC1 ''dlen'', put_bits bsc_dlen ''dlen'' (of_nat (length buf)) o5)]"
    unfolding m5_def by (rule reg_assign_log)
  have len: "take_bit 16 (of_nat (length buf) :: u32) = of_nat (length buf)"
    using assms
    by (intro unsigned_word_eqI [where 'a = nat]) (simp add: unsigned_take_bit_eq unat_of_nat take_bit_nat_eq_self)
  have r: "?r = bindR (transfer_block n d buf m5) (\<lambda>sm. Inr (None, snd sm))"
    using i2c_write_eq [OF assms, of n d slave m] False by (simp add: m5_def)
  show ?thesis
  proof (cases "transfer_block n d buf m5")
    case (Inl e)
    then have "e = OutOfFuel" by (rule transfer_block_error)
    moreover have "\<not> bsc_serves n d" using transfer_block_serves [of n d buf m5] Inl by auto
    ultimately show ?thesis using r Inl by simp
  next
    case (Inr sm)
    obtain s m6 where sm: "sm = (s, m6)" by fastforce
    have "?spec m6"
      using False i2c_setup_log [of d slave m] o5 transfer_block_log [OF Inr [unfolded sm]] len by auto
    then show ?thesis using r Inr sm by simp
  qed
qed

text \<open>A controller that is always ready.\<close>

definition ready_io :: "unit io" where
  "ready_io = \<lparr>io_read = (\<lambda>a h. (0xFFFFFFFF, h)), io_write = (\<lambda>a v h. h), io_delay = (\<lambda>t h. h)\<rparr>"

lemma ready_serves: "bsc_serves 1 ready_io"
  by (auto simp: bsc_serves_def ready_io_def reg_read_def get_bits_def bsc_s_def width_of_def take_bit_eq_mod
      drop_bit_eq_div)

lemma i2c_write_sends_witness:
  "\<exists>m' va vc vr vd vl vs v1 v2. i2c_write 1 ready_io 0x50 (Some [65, 66]) 2 \<lparr>hw = (), io_log = []\<rparr> = Inr (None, m')
     \<and> io_log m' = [(REGS_BSC1 ''a'', va), (REGS_BSC1 ''c'', vc), (REGS_BSC1 ''c'', vr), (REGS_BSC1 ''div'', vd),
          (REGS_BSC1 ''dlen'', vl), (REGS_BSC1 ''c'', vs), (REGS_BSC1 ''fifo'', v1), (REGS_BSC1 ''fifo'', v2)]
     \<and> get_bits bsc_a ''addr'' va = 0x50 \<and> get_bits bsc_dlen ''dlen'' vl = 2
     \<and> get_bits bsc_fifo ''data'' v1 = 65 \<and> get_bits bsc_fifo ''data'' v2 = 66"
proof (cases "i2c_write 1 ready_io 0x50 (Some [65, 66]) 2 \<lparr>hw = (), io_log = []\<rparr>")
  case (Inl e)
  then show ?thesis
    using i2c_write_sends [where buf = "[65, 66]" and n = 1 and d = ready_io and slave = "0x50"
        and m = "\<lparr>hw = (), io_log = []\<rparr>"] ready_serves by simp
next
  case (Inr rm)
  obtain r m' where rm: "rm = (r, m')" by fastforce
  have "r = None" using Inr rm i2c_write_eq [where buf = "[65, 66]" and n = 1 and d = ready_io and slave = "0x50"
        and m = "\<lparr>hw = (), io_log = []\<rparr>"]
    by (simp add: bindR_def split: sum.splits)
  moreover have "take_bit 7 (0x50 :: u32) = 0x50" by (simp add: take_bit_eq_mod)
  ultimately show ?thesis
    using i2c_write_sends [where buf = "[65, 66]" and n = 1 and d = ready_io and slave = "0x50"
        and m = "\<lparr>hw = (), io_log = []\<rparr>"] Inr rm
    by (auto simp: map_eq_Cons_conv)
qed

end
