(* ===== verification/Console.thy ===== *)
theory Console
  imports Prelude "HOL-Library.Signed_Division"
begin

text \<open>
  The console: the text panel of \<open>io/cli.c\<close>, the serial line of \<open>io/mini_uart.c\<close>, the decoder of escape
  sequences and the formatted output of \<open>io/kprintf.c\<close>, and the buffered copy of the latter in
  \<open>usrtmp/printf.c\<close>. The two copies of the decoder differ in where a character goes and in what a
  colour parameter does, which are arguments here. A C string is the list of its bytes without the
  terminator; strings that are passed by address come from a function of the address. The bytes of
  the font are an argument. Waiting for the transmitter has no effect.
\<close>

section \<open>The panel\<close>

record panel =
  pn_fb :: "u64 \<Rightarrow> u32"
  pn_line :: u64
  pn_cursor :: u64
  pn_text :: u32
  pn_background :: u32

definition COLOR_WHITE :: u32 where "COLOR_WHITE = 0xFFFFFFFF"
definition COLOR_BLACK :: u32 where "COLOR_BLACK = 0xFF000000"

text \<open>The frame buffer has 800 times 480 pixels.\<close>

definition FB_PIXELS :: u64 where "FB_PIXELS = 384000"

definition write_pixel :: "u64 \<Rightarrow> u32 \<Rightarrow> panel \<Rightarrow> panel result" where
  "write_pixel idx argb p = (if idx < FB_PIXELS then Inr (p\<lparr>pn_fb := (pn_fb p)(idx := argb)\<rparr>) else Inl WildAccess)"

text \<open>\<open>scroll\<close> copies 23 of the 24 lines one line up and clears the last with the low byte of the colour.\<close>

definition scroll :: "panel \<Rightarrow> panel" where
  "scroll p = p\<lparr>pn_fb := (\<lambda>i. if i < 800 * 20 * 23 then pn_fb p (i + 800 * 20)
     else if i < FB_PIXELS then 0 else pn_fb p i)\<rparr>"

definition newline :: "panel \<Rightarrow> panel" where
  "newline p =
     (let p1 = p\<lparr>pn_line := pn_line p + 1, pn_cursor := 0\<rparr>
      in if pn_line p1 = 24 then (scroll p1)\<lparr>pn_line := pn_line p1 - 1\<rparr> else p1)"

text \<open>The index is computed in 64 bits and stored in an \<open>int\<close>.\<close>

definition fb_index :: "panel \<Rightarrow> u64" where
  "fb_index p = scast (ucast (pn_line p * 800 * 20 + pn_cursor p) :: u32)"

definition glyph_row :: "(nat \<Rightarrow> u8) \<Rightarrow> nat \<Rightarrow> u16" where
  "glyph_row glyph row = push_bit 8 (ucast (glyph (row * 2))) OR ucast (glyph (row * 2 + 1))"

definition draw_pixel :: "(nat \<Rightarrow> u8) \<Rightarrow> u64 \<Rightarrow> nat \<times> nat \<Rightarrow> panel \<Rightarrow> panel result" where
  "draw_pixel glyph fb_idx rc p =
     (case rc of (row, col) \<Rightarrow>
       write_pixel (fb_idx + of_nat (row * 800) + of_nat col)
         (if glyph_row glyph row AND drop_bit col 0x8000 \<noteq> 0 then pn_text p else pn_background p) p)"

fun draw_pixels :: "(nat \<Rightarrow> u8) \<Rightarrow> u64 \<Rightarrow> (nat \<times> nat) list \<Rightarrow> panel \<Rightarrow> panel result" where
  "draw_pixels glyph fb_idx [] p = Inr p"
| "draw_pixels glyph fb_idx (rc # rcs) p = bindR (draw_pixel glyph fb_idx rc p) (draw_pixels glyph fb_idx rcs)"

definition glyph_pixels :: "(nat \<times> nat) list" where "glyph_pixels = List.product [0..<20] [0..<10]"

definition print_glyph_at :: "(nat \<Rightarrow> u8) \<Rightarrow> panel \<Rightarrow> panel result" where
  "print_glyph_at glyph p =
     bindR (draw_pixels glyph (fb_index p) glyph_pixels p) (\<lambda>p1.
       let p2 = p1\<lparr>pn_cursor := pn_cursor p1 + 10\<rparr>
       in Inr (if pn_cursor p2 = 800 then newline p2 else p2))"

definition glyph_of :: "(nat \<Rightarrow> u8) \<Rightarrow> u8 \<Rightarrow> nat \<Rightarrow> u8" where
  "glyph_of font c = (\<lambda>i. font (40 * unat c + i))"

definition print_glyph :: "(nat \<Rightarrow> u8) \<Rightarrow> u8 \<Rightarrow> panel \<Rightarrow> panel result" where
  "print_glyph font c p =
     (if c = 10 \<or> c = 13 then Inr (newline p)
      else if c = 9 then Inr (p\<lparr>pn_cursor := pn_cursor p + 40\<rparr>)
      else if c = 127 then
        (if 0 < pn_cursor p
         then bindR (print_glyph_at (glyph_of font 32) (p\<lparr>pn_cursor := pn_cursor p - 10\<rparr>)) (\<lambda>p1.
                Inr (p1\<lparr>pn_cursor := pn_cursor p1 - 10\<rparr>))
         else Inr p)
      else print_glyph_at (glyph_of font c) p)"

definition set_text_background_color :: "u32 \<Rightarrow> panel \<Rightarrow> panel" where
  "set_text_background_color new_color p = p\<lparr>pn_background := 0xFF000000 OR new_color\<rparr>"

definition unset_text_background_color :: "panel \<Rightarrow> panel" where
  "unset_text_background_color p = p\<lparr>pn_background := COLOR_BLACK\<rparr>"

definition set_text_color :: "u32 \<Rightarrow> panel \<Rightarrow> panel" where
  "set_text_color new_color p = p\<lparr>pn_text := 0xFF000000 OR new_color\<rparr>"

definition unset_text_color :: "panel \<Rightarrow> panel" where
  "unset_text_color p = p\<lparr>pn_text := COLOR_WHITE\<rparr>"

section \<open>The serial line\<close>

record console =
  co_uart :: "u8 list"
  co_ready :: bool
  co_use :: bool
  co_panel :: panel

definition uart_putc :: "(nat \<Rightarrow> u8) \<Rightarrow> u8 \<Rightarrow> console \<Rightarrow> console result" where
  "uart_putc font c s =
     (let s1 = s\<lparr>co_uart := co_uart s @ (if c = 10 then [13] else []) @ [c]\<rparr>
      in if co_ready s \<and> co_use s
         then bindR (print_glyph font c (co_panel s1)) (\<lambda>p. Inr (s1\<lparr>co_panel := p\<rparr>))
         else Inr s1)"

fun uart_puts :: "(nat \<Rightarrow> u8) \<Rightarrow> u8 list \<Rightarrow> console \<Rightarrow> console result" where
  "uart_puts font [] s = Inr s"
| "uart_puts font (c # cs) s = bindR (uart_putc font c s) (uart_puts font cs)"

definition disable_panel :: "console \<Rightarrow> console" where "disable_panel s = s\<lparr>co_use := False\<rparr>"

section \<open>The decoder\<close>

datatype ANSI_STATE = ANSI_ESCAPE | ANSI_NORMAL | ANSI_PARSING | ANSI_END_PARSING

record 'o ansi_state =
  a_state :: ANSI_STATE
  a_params :: "u8 list"
  a_len :: nat
  a_cmd :: u8
  a_out :: 'o

text \<open>Reads up to a semicolon or the terminator, which the source keeps and this function too.\<close>

fun atoi_until_semicolon :: "u8 list \<Rightarrow> u32 \<Rightarrow> (u32 \<times> u8 list) result" where
  "atoi_until_semicolon [] num = Inl WildAccess"
| "atoi_until_semicolon (c # p) num =
     (if c = 0 then Inr (num, c # p)
      else if c = 59 then Inr (num, p)
      else atoi_until_semicolon p (num * 10 + (ucast c - 48)))"

fun read_params :: "nat \<Rightarrow> u8 list \<Rightarrow> u32 list result" where
  "read_params 0 p = Inr []"
| "read_params (Suc n) p =
     (case p of [] \<Rightarrow> Inl WildAccess
      | c # _ \<Rightarrow> if c = 0 then Inr []
                else bindR (atoi_until_semicolon p 0) (\<lambda>(v, q). bindR (read_params n q) (\<lambda>vs. Inr (v # vs))))"

definition ansi_normal :: "(u8 \<Rightarrow> 'o \<Rightarrow> 'o result) \<Rightarrow> u8 \<Rightarrow> 'o ansi_state \<Rightarrow> (ANSI_STATE \<times> 'o ansi_state) result" where
  "ansi_normal putc c st =
     (if c = 27 then Inr (ANSI_ESCAPE, st)
      else bindR (putc c (a_out st)) (\<lambda>o1. Inr (ANSI_NORMAL, st\<lparr>a_out := o1\<rparr>)))"

definition ansi_escape :: "u8 \<Rightarrow> 'o ansi_state \<Rightarrow> ANSI_STATE \<times> 'o ansi_state" where
  "ansi_escape c st = (if c = 91 then (ANSI_PARSING, st\<lparr>a_len := 0\<rparr>) else (ANSI_NORMAL, st))"

definition put_param :: "u8 \<Rightarrow> 'o ansi_state \<Rightarrow> 'o ansi_state result" where
  "put_param c st =
     (if a_len st < length (a_params st) then Inr (st\<lparr>a_params := (a_params st)[a_len st := c]\<rparr>) else Inl WildAccess)"

definition ansi_parsing :: "u8 \<Rightarrow> 'o ansi_state \<Rightarrow> (ANSI_STATE \<times> 'o ansi_state) result" where
  "ansi_parsing c st =
     (if c = 109 then bindR (put_param 0 (st\<lparr>a_cmd := 109\<rparr>)) (\<lambda>s. Inr (ANSI_END_PARSING, s))
      else if (48 \<le> c \<and> c \<le> 57 \<or> c = 59) \<and> a_len st < length (a_params st) - 1
           then bindR (put_param c st) (\<lambda>s. Inr (ANSI_PARSING, s\<lparr>a_len := a_len s + 1\<rparr>))
      else Inr (ANSI_NORMAL, st\<lparr>a_len := 0\<rparr>))"

definition ansi_end_escape :: "(u32 \<Rightarrow> 'o \<Rightarrow> 'o) \<Rightarrow> u8 \<Rightarrow> 'o ansi_state \<Rightarrow> (ANSI_STATE \<times> 'o ansi_state) result" where
  "ansi_end_escape colour c st =
     bindR (read_params 5 (a_params st)) (\<lambda>params.
       Inr (ANSI_NORMAL, if a_cmd st = 109 then st\<lparr>a_out := fold colour params (a_out st)\<rparr> else st))"

definition enter_state :: "(ANSI_STATE \<times> 'o ansi_state) result \<Rightarrow> 'o ansi_state result" where
  "enter_state r = bindR r (\<lambda>(s, st). Inr (st\<lparr>a_state := s\<rparr>))"

text \<open>There is no \<open>break\<close> after the case of \<open>ANSI_END_PARSING\<close>.\<close>

definition ansi_decoder ::
  "(u8 \<Rightarrow> 'o \<Rightarrow> 'o result) \<Rightarrow> (u32 \<Rightarrow> 'o \<Rightarrow> 'o) \<Rightarrow> u8 \<Rightarrow> 'o ansi_state \<Rightarrow> 'o ansi_state result" where
  "ansi_decoder putc colour c st =
     (case a_state st of
        ANSI_ESCAPE \<Rightarrow> enter_state (Inr (ansi_escape c st))
      | ANSI_PARSING \<Rightarrow> enter_state (ansi_parsing c st)
      | ANSI_END_PARSING \<Rightarrow> bindR (enter_state (ansi_end_escape colour c st)) (\<lambda>s. enter_state (ansi_normal putc c s))
      | ANSI_NORMAL \<Rightarrow> enter_state (ansi_normal putc c st))"

text \<open>The colours of the kernel's decoder.\<close>

definition ansi_color :: "u32 \<Rightarrow> u32" where
  "ansi_color n =
     (if n = 0 then 0xFF000000 else if n = 1 then 0xFFFF0000 else if n = 2 then 0xFF00FF00
      else if n = 3 then 0xFFFFFF00 else if n = 4 then 0xFF0000FF else if n = 5 then 0xFFFF00FF
      else if n = 6 then 0xFF00FFFF else 0xFFFFFFFF)"

definition apply_color :: "u32 \<Rightarrow> panel \<Rightarrow> panel" where
  "apply_color v p =
     (if v = 0 then unset_text_color (unset_text_background_color p)
      else if 30 \<le> v \<and> v \<le> 37 then set_text_color (ansi_color (v - 30)) p
      else if 40 \<le> v \<and> v \<le> 47 then set_text_background_color (ansi_color (v - 40)) p
      else p)"

definition console_color :: "u32 \<Rightarrow> console \<Rightarrow> console" where
  "console_color v s = s\<lparr>co_panel := apply_color v (co_panel s)\<rparr>"

section \<open>Formatted output\<close>

text \<open>The characters of an output operation, one after the other.\<close>

fun emit_string :: "(u8 \<Rightarrow> 's \<Rightarrow> 's result) \<Rightarrow> u8 list \<Rightarrow> 's \<Rightarrow> 's result" where
  "emit_string dec [] st = Inr st"
| "emit_string dec (c # s) st = bindR (dec c st) (emit_string dec s)"

definition nibble_to_char :: "u8 \<Rightarrow> u8" where
  "nibble_to_char nibble = (if nibble \<le> 9 then 48 + nibble else if nibble \<le> 15 then 65 + (nibble - 10) else 0)"

text \<open>
  The loop over the digits of an \<open>int\<close>, least significant first. C's division truncates and its
  remainder has the sign of the dividend; the sum is stored in a character.
\<close>

function int_digits :: "int \<Rightarrow> u8 list" where
  "int_digits num = (if num = 0 then [] else word_of_int (48 + num smod 10) # int_digits (num sdiv 10))"
  by auto
termination
proof (relation "measure (\<lambda>num. nat \<bar>num\<bar>)")
  fix num :: int assume "num \<noteq> 0"
  then show "(num sdiv 10, num) \<in> measure (\<lambda>num. nat \<bar>num\<bar>)"
    by (auto simp: signed_divide_int_def abs_mult sgn_if)
qed simp

declare int_digits.simps [simp del]

definition neg_int :: "int \<Rightarrow> int" where "neg_int num = sint (- word_of_int num :: u32)"

text \<open>The digits go through an array of 20 characters.\<close>

definition parse_and_emit_int :: "(u8 \<Rightarrow> 's \<Rightarrow> 's result) \<Rightarrow> u32 \<Rightarrow> 's \<Rightarrow> 's result" where
  "parse_and_emit_int dec n st =
     (let num = sint n
      in if num = 0 then dec 48 st
         else bindR (if num < 0 then dec 45 st else Inr st) (\<lambda>st1.
                let buf = int_digits (if num < 0 then neg_int num else num)
                in if 20 < length buf then Inl WildAccess else emit_string dec (rev buf) st1))"

function hex_digits :: "u64 \<Rightarrow> u8 list" where
  "hex_digits num =
     nibble_to_char (ucast (num AND 0xF)) # (if drop_bit 4 num = 0 then [] else hex_digits (drop_bit 4 num))"
  by auto
termination
proof (relation "measure unat")
  fix num :: u64 assume "drop_bit 4 num \<noteq> 0"
  then have nz: "unat (drop_bit 4 num) \<noteq> 0" by (simp only: unat_eq_0) simp
  have e: "unat (drop_bit 4 num) = unat num div 2 ^ 4" by (simp add: unat_drop_bit_eq drop_bit_eq_div [where 'a = nat])
  have "0 < unat num" using nz unfolding e by (cases "unat num") auto
  then have "unat num div 2 ^ 4 < unat num" by (rule div_less_dividend [rotated]) simp
  then show "(drop_bit 4 num, num) \<in> measure unat" by (simp only: in_measure e)
qed simp

declare hex_digits.simps [simp del]

definition parse_and_emit_hex :: "(u8 \<Rightarrow> 's \<Rightarrow> 's result) \<Rightarrow> u64 \<Rightarrow> 's \<Rightarrow> 's result" where
  "parse_and_emit_hex dec num st =
     (let buf = hex_digits num in if 16 < length buf then Inl WildAccess else emit_string dec (rev buf) st)"

function dec_digits :: "u64 \<Rightarrow> u8 list" where
  "dec_digits num = (if num = 0 then [] else ucast (48 + num mod 10) # dec_digits (num div 10))"
  by auto
termination
proof (relation "measure unat")
  fix num :: u64 assume "num \<noteq> 0"
  then have "0 < unat num" by (simp add: unat_gt_0)
  then show "(num div 10, num) \<in> measure unat" by (simp add: unat_div_distrib)
qed simp

declare dec_digits.simps [simp del]

definition parse_and_emit_padded :: "(u8 \<Rightarrow> 's \<Rightarrow> 's result) \<Rightarrow> u64 \<Rightarrow> u32 \<Rightarrow> 's \<Rightarrow> 's result" where
  "parse_and_emit_padded dec num width st =
     (let buf = (if num = 0 then [48] else dec_digits num);
          buf = buf @ replicate (nat (sint width) - length buf) 48
      in if 24 < length buf then Inl WildAccess else emit_string dec (rev buf) st)"

text \<open>
  \<open>va_arg\<close> takes the next 64-bit slot; where there is none the source reads what lies there. The
  string at an address is \<open>str\<close> of it.
\<close>

fun va_arg :: "u64 list \<Rightarrow> (u64 \<times> u64 list) result" where
  "va_arg [] = Inl WildAccess"
| "va_arg (x # xs) = Inr (x, xs)"

definition is_digit :: "u8 \<Rightarrow> bool" where "is_digit c \<longleftrightarrow> 48 \<le> c \<and> c \<le> 57"

text \<open>The width of \<open>%0\<close>: its value, the number of its digits and the rest of the format.\<close>

fun scan_width :: "u8 list \<Rightarrow> u32 \<Rightarrow> u32 \<times> nat \<times> u8 list" where
  "scan_width [] width = (width, 0, [])"
| "scan_width (c # p) width =
     (if is_digit c then (let (w, n, q) = scan_width p (width * 10 + (ucast c - 48)) in (w, Suc n, q))
      else (width, 0, c # p))"

text \<open>The conversions of one character; what is not a conversion prints nothing.\<close>

definition expand_char ::
  "(u64 \<Rightarrow> u8 list) \<Rightarrow> (u8 \<Rightarrow> 's \<Rightarrow> 's result) \<Rightarrow> u8 \<Rightarrow> u64 list \<Rightarrow> 's \<Rightarrow> (u64 list \<times> 's) result" where
  "expand_char str dec c args st =
     (if c = 100 \<or> c = 108 then bindR (va_arg args) (\<lambda>(x, as). bindR (parse_and_emit_int dec (ucast x) st) (\<lambda>s. Inr (as, s)))
      else if c = 115 then bindR (va_arg args) (\<lambda>(x, as). bindR (emit_string dec (str x) st) (\<lambda>s. Inr (as, s)))
      else if c = 99 then bindR (va_arg args) (\<lambda>(x, as). bindR (dec (ucast x) st) (\<lambda>s. Inr (as, s)))
      else if c = 120 then bindR (va_arg args) (\<lambda>(x, as). bindR (parse_and_emit_hex dec x st) (\<lambda>s. Inr (as, s)))
      else if c = 37 then bindR (dec c st) (\<lambda>s. Inr (args, s))
      else Inr (args, st))"

text \<open>
  \<open>expand\<close> returns how many characters it used. At the end of the string it uses the terminator, and
  the caller goes on behind it.
\<close>

definition expand ::
  "(u64 \<Rightarrow> u8 list) \<Rightarrow> (u8 \<Rightarrow> 's \<Rightarrow> 's result) \<Rightarrow> u8 list \<Rightarrow> u64 list \<Rightarrow> 's \<Rightarrow> (nat \<times> u64 list \<times> 's) result" where
  "expand str dec s args st =
     (case s of
        [] \<Rightarrow> Inr (1, args, st)
      | c # p \<Rightarrow>
          (let (width, n, q) = scan_width p 0
           in if c = 48 \<and> q \<noteq> [] \<and> hd q = 100
              then bindR (va_arg args) (\<lambda>(x, as).
                     bindR (parse_and_emit_padded dec x width st) (\<lambda>st1. Inr (n + 2, as, st1)))
              else bindR (expand_char str dec c args st) (\<lambda>(as, st1). Inr (1, as, st1))))"

text \<open>The loop of \<open>kprintf\<close> over the rest of the format; the other copies differ in \<open>ex\<close>.\<close>

function format_loop ::
  "(u8 list \<Rightarrow> u64 list \<Rightarrow> 's \<Rightarrow> (nat \<times> u64 list \<times> 's) result) \<Rightarrow> (u8 \<Rightarrow> 's \<Rightarrow> 's result) \<Rightarrow>
   u8 list \<Rightarrow> u64 list \<Rightarrow> 's \<Rightarrow> 's result" where
  "format_loop ex dec [] args st = Inr st"
| "format_loop ex dec (c # p) args st =
     (if c = 37
      then bindR (ex p args st) (\<lambda>(n, as, st1).
             if length p < n then Inl WildAccess else format_loop ex dec (drop n p) as st1)
      else bindR (dec c st) (format_loop ex dec p args))"
  by pat_completeness auto
termination
  by (relation "measure (\<lambda>(ex, dec, s, args, st). length s)") auto

type_synonym tty = "console ansi_state"

definition kernel_decoder :: "(nat \<Rightarrow> u8) \<Rightarrow> u8 \<Rightarrow> tty \<Rightarrow> tty result" where
  "kernel_decoder font = ansi_decoder (uart_putc font) console_color"

definition kprintf :: "(nat \<Rightarrow> u8) \<Rightarrow> (u64 \<Rightarrow> u8 list) \<Rightarrow> u8 list \<Rightarrow> u64 list \<Rightarrow> tty \<Rightarrow> tty result" where
  "kprintf font str format_str args =
     format_loop (expand str (kernel_decoder font)) (kernel_decoder font) format_str args"

text \<open>The write operation of the console's file object prints the user's buffer as a format.\<close>

definition uart_write :: "(nat \<Rightarrow> u8) \<Rightarrow> (u64 \<Rightarrow> u8 list) \<Rightarrow> u8 list \<Rightarrow> u64 \<Rightarrow> u64 list \<Rightarrow> tty \<Rightarrow> (u64 \<times> tty) result" where
  "uart_write font str buf n args st = bindR (kprintf font str buf args st) (\<lambda>st1. Inr (0, st1))"

section \<open>The copy for user programs\<close>

text \<open>The buffer holds the characters up to \<open>pos\<close>; each \<open>SYS_WRITE\<close> passes the string in the buffer.\<close>

record printbuf =
  pb_chars :: "u8 list"
  pb_writes :: "u8 list list"

definition flush_buf :: "printbuf \<Rightarrow> printbuf" where
  "flush_buf b = b\<lparr>pb_writes := pb_writes b @ [takeWhile (\<lambda>c. c \<noteq> 0) (pb_chars b)], pb_chars := []\<rparr>"

definition buf_put :: "u8 \<Rightarrow> printbuf \<Rightarrow> printbuf result" where
  "buf_put c b = (if length (pb_chars b) < 2048 then Inr (b\<lparr>pb_chars := pb_chars b @ [c]\<rparr>) else Inl WildAccess)"

definition buf_putc :: "u8 \<Rightarrow> printbuf \<Rightarrow> printbuf result" where
  "buf_putc c b =
     (let b1 = (if length (pb_chars b) = 2048 - 1 then flush_buf b else b)
      in bindR (buf_put c b1) (\<lambda>b2.
           if c = 10 then bindR (buf_put 0 b2) (\<lambda>_. Inr (flush_buf b2)) else Inr b2))"

definition user_decoder :: "u8 \<Rightarrow> printbuf ansi_state \<Rightarrow> printbuf ansi_state result" where
  "user_decoder = ansi_decoder buf_putc (\<lambda>_ b. b)"

definition user_expand ::
  "(u64 \<Rightarrow> u8 list) \<Rightarrow> u8 list \<Rightarrow> u64 list \<Rightarrow> printbuf ansi_state \<Rightarrow> (nat \<times> u64 list \<times> printbuf ansi_state) result" where
  "user_expand str s args st =
     (case s of [] \<Rightarrow> Inr (1, args, st)
      | c # _ \<Rightarrow> bindR (expand_char str user_decoder c args st) (\<lambda>(as, st1). Inr (1, as, st1)))"

definition printf :: "(u64 \<Rightarrow> u8 list) \<Rightarrow> u8 list \<Rightarrow> u64 list \<Rightarrow> printbuf ansi_state \<Rightarrow> printbuf ansi_state result" where
  "printf str format_str args = format_loop (user_expand str) user_decoder format_str args"

end
