(* ===== verification/Mailbox.thy ===== *)
theory Mailbox
  imports Devices Virtual_Memory Console
begin

text \<open>
  The mailbox of the firmware, \<open>mailbox/mailbox.c\<close>, and the set-up of the panel's frame buffer,
  \<open>io/lcd.c\<close>. The firmware is hardware: beside its registers it rewrites the buffer of a request,
  which is a function of its state and of the words it finds. A request is a list of words.
\<close>

section \<open>Messages\<close>

text \<open>\<open>io_answer\<close> gives the words of a buffer once its answer has been read from the mailbox.\<close>

record 'h firmware =
  fw_io :: "'h io"
  fw_answer :: "'h \<Rightarrow> u32 list \<Rightarrow> u32 list"

definition MBX :: "string \<Rightarrow> u64" where
  "MBX r = PBASE + 0xB880 + of_nat (offset_of mailbox_regs_t r)"

definition MAILBOX_FULL :: u32 where "MAILBOX_FULL = 0x80000000"
definition MAILBOX_EMPTY :: u32 where "MAILBOX_EMPTY = 0x40000000"

abbreviation (input) MAIL_TAGS :: u8 where "MAIL_TAGS \<equiv> 8"

definition mailbox_write :: "nat \<Rightarrow> 'h firmware \<Rightarrow> u8 \<Rightarrow> u64 \<Rightarrow> 'h machine \<Rightarrow> 'h machine result" where
  "mailbox_write n d channel data m =
     bindR (poll n (fw_io d) (MBX ''status'') (\<lambda>s. s AND MAILBOX_FULL = 0) m) (\<lambda>m1.
       Inr (reg_write (fw_io d) (MBX ''write'') (ucast ((data AND 0xFFFFFFF0) OR (ucast channel AND 0xF))) m1))"

text \<open>Messages to other channels are dropped; the first argument bounds their number.\<close>

primrec mailbox_read :: "nat \<Rightarrow> nat \<Rightarrow> 'h firmware \<Rightarrow> u8 \<Rightarrow> 'h machine \<Rightarrow> (u32 \<times> 'h machine) result" where
  "mailbox_read 0 n d channel m = Inl OutOfFuel"
| "mailbox_read (Suc k) n d channel m =
     bindR (poll n (fw_io d) (MBX ''status'') (\<lambda>s. s AND MAILBOX_EMPTY = 0) m) (\<lambda>m1.
       let (data, m2) = reg_read (fw_io d) (MBX ''read'') m1; read_channel = (ucast (data AND 0xF) :: u8)
       in if read_channel = channel then Inr (data AND 0xFFFFFFF0, m2) else mailbox_read k n d channel m2)"

section \<open>Property requests\<close>

record 'h mailbox =
  mb_machine :: "'h machine"
  property_data :: "u32 list"

definition overwrite :: "nat \<Rightarrow> 'a list \<Rightarrow> 'a list \<Rightarrow> 'a list" where
  "overwrite i xs ys = take i ys @ xs @ drop (i + length xs) ys"

text \<open>
  \<open>tag\<close> holds the \<open>tag_size / 4\<close> words of the tag, all sizes being multiples of four; \<open>pd\<close> is the address of
  \<open>property_data\<close>, which has 8192 words.
\<close>

definition property_request :: "u32 list \<Rightarrow> u32 list \<Rightarrow> u32 list" where
  "property_request tag data =
     (let data1 = overwrite 2 tag data;
          data2 = data1[0 := of_nat (4 * length tag + 12)];
          data3 = data2[1 := 0]
      in data3[(4 * length tag + 12) div 4 - 1 := 0])"

definition mailbox_process ::
  "nat \<Rightarrow> nat \<Rightarrow> 'h firmware \<Rightarrow> u64 \<Rightarrow> u32 list \<Rightarrow> 'h mailbox \<Rightarrow> (bool \<times> u32 list \<times> 'h mailbox) result" where
  "mailbox_process k n d pd tag s =
     (if 8192 < length tag + 3 then Inl WildAccess
      else let req = property_request tag (property_data s)
           in bindR (mailbox_write n d MAIL_TAGS pd (mb_machine s)) (\<lambda>m1.
              bindR (mailbox_read k n d MAIL_TAGS m1) (\<lambda>(_, m2).
                let answer = fw_answer d (hw m2) req
                in Inr (True, take (length tag) (drop 2 answer), \<lparr>mb_machine = m2, property_data = answer\<rparr>))))"

text \<open>A tag of five words: three of \<open>mailbox_tag\<close>, the identity and the value.\<close>

definition mailbox_generic_command ::
  "nat \<Rightarrow> nat \<Rightarrow> 'h firmware \<Rightarrow> u64 \<Rightarrow> u32 \<Rightarrow> u32 \<Rightarrow> u32 \<Rightarrow> 'h mailbox \<Rightarrow> (bool \<times> u32 \<times> 'h mailbox) result" where
  "mailbox_generic_command k n d pd tag_id i val s =
     bindR (mailbox_process k n d pd [tag_id, 8, 0, i, val] s) (\<lambda>(ok, mbx, s1).
       if \<not> ok then Inr (False, val, s1) else Inr (True, mbx ! 4, s1))"

text \<open>\<open>junk\<close> is the value of the member that the source does not initialise.\<close>

definition mailbox_clock_rate ::
  "nat \<Rightarrow> nat \<Rightarrow> 'h firmware \<Rightarrow> u64 \<Rightarrow> u32 \<Rightarrow> u32 \<Rightarrow> 'h mailbox \<Rightarrow> (u32 \<times> 'h mailbox) result" where
  "mailbox_clock_rate k n d pd ct junk s =
     bindR (mailbox_process k n d pd [0x00030002, 8, 0, ct, junk] s) (\<lambda>(ok, c, s1). Inr (c ! 4, s1))"

definition mailbox_power_check ::
  "nat \<Rightarrow> nat \<Rightarrow> 'h firmware \<Rightarrow> u64 \<Rightarrow> u32 \<Rightarrow> 'h mailbox \<Rightarrow> (bool \<times> 'h mailbox) result" where
  "mailbox_power_check k n d pd type s =
     bindR (mailbox_process k n d pd [0x00030030, 8, 0, type, NOT 0] s) (\<lambda>(ok, p, s1).
       Inr (p ! 4 \<noteq> 0 \<and> p ! 4 \<noteq> NOT 0, s1))"

definition pcie_clock_on :: "nat \<Rightarrow> nat \<Rightarrow> 'h firmware \<Rightarrow> u64 \<Rightarrow> 'h mailbox \<Rightarrow> (bool \<times> 'h mailbox) result" where
  "pcie_clock_on k n d pd s =
     bindR (mailbox_process k n d pd [0x00038001, 8, 8, 9, 1] s) (\<lambda>(ok, mbx, s1). Inr (ok, s1))"

text \<open>The three requests for power share one tag, of which the answer to each is the start of the next.\<close>

definition mailbox_pcie_usb_power_on ::
  "nat \<Rightarrow> nat \<Rightarrow> 'h firmware \<Rightarrow> u64 \<Rightarrow> 'h mailbox \<Rightarrow> (bool \<times> 'h mailbox) result" where
  "mailbox_pcie_usb_power_on k n d pd s =
     bindR (pcie_clock_on k n d pd s) (\<lambda>(ret, s1).
       if \<not> ret then Inr (False, s1)
       else bindR (mailbox_process k n d pd [0x00028001, 8, 8, 3, 3] s1) (\<lambda>(_, mbx1, s2).
            bindR (mailbox_process k n d pd (mbx1[3 := 6, 4 := 3]) s2) (\<lambda>(_, mbx2, s3).
            bindR (mailbox_process k n d pd mbx2 s3) (\<lambda>(ok, mbx3, s4).
              if \<not> ok then Inr (False, s4)
              else if mbx3 ! 4 AND 1 = 0 then Inr (False, s4) else Inr (True, s4)))))"

section \<open>The frame buffer\<close>

record frame_t =
  fb :: u64
  width :: u32
  height :: u32
  pitch :: u32

definition framebuffer_request :: "u32 \<Rightarrow> u32 \<Rightarrow> u32 \<Rightarrow> u32 list" where
  "framebuffer_request w h depth =
     [104, 0,
      0x48003, 8, 0, w, h,
      0x48004, 8, 0, w, h,
      0x48005, 4, 0, depth,
      0x40001, 8, 0, 16, 0,
      0x40008, 4, 0, 0,
      0]"

definition init_frame ::
  "nat \<Rightarrow> nat \<Rightarrow> 'h firmware \<Rightarrow> u64 \<Rightarrow> u32 list \<Rightarrow> u32 \<Rightarrow> u32 \<Rightarrow> u32 \<Rightarrow> 'h machine
   \<Rightarrow> (frame_t \<times> u32 list \<times> 'h machine) result" where
  "init_frame k n d mb buf w h depth m =
     bindR (mailbox_write n d MAIL_TAGS (mb AND NOT 0xF) m) (\<lambda>m1.
     bindR (mailbox_read k n d MAIL_TAGS m1) (\<lambda>(_, m2).
       let answer = fw_answer d (hw m2) (overwrite 0 (framebuffer_request w h depth) buf);
           fb_addr = (ucast (answer ! 19 AND 0x3FFFFFFF) :: u64);
           fb_bytes = fb_addr AND 0x3FFFFFFF
       in Inr (\<lparr>fb = (if fb_bytes \<noteq> 0 then pa_to_va fb_bytes else 0), width = w, height = h,
                pitch = answer ! 23 AND 0x7FFFFFFF\<rparr>, answer, m2)))"

text \<open>\<open>memset\<close> fills with the low byte of the colour.\<close>

definition fill_screen :: "frame_t \<Rightarrow> u32 \<Rightarrow> (u64 \<Rightarrow> u32) \<Rightarrow> u64 \<Rightarrow> u32" where
  "fill_screen f argb pixels =
     (\<lambda>i. if i < ucast (width f * height f) then (argb AND 0xFF) * 0x01010101 else pixels i)"

record 'h lcd =
  lcd_machine :: "'h machine"
  lcd_buf :: "u32 list"
  lcd_frame :: frame_t
  LCD_READY :: bool
  lcd_vm :: vm
  lcd_pixels :: "u64 \<Rightarrow> u32"

definition init_framebuffer :: "nat \<Rightarrow> nat \<Rightarrow> 'h firmware \<Rightarrow> u64 \<Rightarrow> 'h lcd \<Rightarrow> (bool \<times> 'h lcd) result" where
  "init_framebuffer k n d mb s =
     bindR (init_frame k n d mb (lcd_buf s) 800 480 32 (lcd_machine s)) (\<lambda>(f, answer, m).
       let ready = (fb f \<noteq> 0);
           s1 = s\<lparr>lcd_machine := m, lcd_buf := answer, lcd_frame := f, LCD_READY := ready\<rparr>
       in if \<not> ready then Inr (False, s1)
          else bindR (map_pages (buddy_alloc_pt pt_fuel) (fb f) (va_to_pa (fb f)) 376
                        (MAP_KERNEL OR MAP_READ OR MAP_WRITE) (vm_l0 (lcd_vm s1)) (lcd_vm s1)) (\<lambda>v.
               Inr (True, s1\<lparr>lcd_vm := v, lcd_pixels := fill_screen f 0xFF000000 (lcd_pixels s1)\<rparr>)))"

section \<open>What an exchange does\<close>

lemma mailbox_write_log:
  "mailbox_write n d c data m = Inr m' \<Longrightarrow>
   io_log m' = io_log m @ [(MBX ''write'', ucast ((data AND 0xFFFFFFF0) OR (ucast c AND 0xF)))]"
  by (auto simp: mailbox_write_def bindR_eq_Inr dest: poll_log)

lemma mailbox_write_error: "mailbox_write n d c data m = Inl e \<Longrightarrow> e = OutOfFuel"
  by (auto simp: mailbox_write_def bindR_eq_Inl dest: poll_error)

lemma mailbox_read_log: "mailbox_read k n d c m = Inr (v, m') \<Longrightarrow> io_log m' = io_log m \<and> v AND 0xF = 0"
proof (induction k arbitrary: m)
  case (Suc k)
  obtain m1 where p: "poll n (fw_io d) (MBX ''status'') (\<lambda>s. s AND MAILBOX_EMPTY = 0) m = Inr m1"
    using Suc.prems by (auto simp: bindR_eq_Inr)
  obtain data m2 where r: "reg_read (fw_io d) (MBX ''read'') m1 = (data, m2)" by fastforce
  then have l: "io_log m2 = io_log m" using reg_read_log [of "fw_io d" "MBX ''read''" m1] poll_log [OF p] by simp
  have "(data AND 0xFFFFFFF0) AND 0xF = 0" by (simp add: and.assoc)
  then show ?case using Suc.prems Suc.IH p r l by (auto split: if_splits)
qed simp

lemma mailbox_read_error: "mailbox_read k n d c m = Inl e \<Longrightarrow> e = OutOfFuel"
proof (induction k arbitrary: m)
  case (Suc k)
  show ?case
  proof (cases "poll n (fw_io d) (MBX ''status'') (\<lambda>s. s AND MAILBOX_EMPTY = 0) m")
    case (Inl e')
    then show ?thesis using Suc.prems poll_error [OF Inl] by simp
  next
    case (Inr m1)
    then show ?thesis using Suc by (simp add: Let_def split: if_splits prod.splits)
  qed
qed simp

text \<open>The firmware serves requests: it takes a message and answers it after finitely many reads.\<close>

definition mailbox_serves :: "nat \<Rightarrow> nat \<Rightarrow> 'h firmware \<Rightarrow> bool" where
  "mailbox_serves k n d \<longleftrightarrow>
     (\<forall>m. poll n (fw_io d) (MBX ''status'') (\<lambda>s. s AND MAILBOX_FULL = 0) m \<noteq> Inl OutOfFuel
          \<and> mailbox_read k n d MAIL_TAGS m \<noteq> Inl OutOfFuel)"

lemma mailbox_write_serves: "mailbox_serves k n d \<Longrightarrow> mailbox_write n d c data m \<noteq> Inl OutOfFuel"
  by (auto simp: mailbox_serves_def mailbox_write_def bindR_eq_Inl)

lemma property_request_words:
  assumes "length tag + 3 \<le> length data"
  shows "property_request tag data = [of_nat (4 * length tag + 12), 0] @ tag @ [0] @ drop (length tag + 3) data"
proof -
  obtain a b ys where data: "data = a # b # ys" "length tag < length ys"
    using assms by (cases data; cases "tl data") (auto simp: Suc_le_eq)
  have "drop (length tag) ys = ys ! length tag # drop (Suc (length tag)) ys"
    using data(2) by (simp add: Cons_nth_drop_Suc)
  then show ?thesis using data
    by (simp add: property_request_def overwrite_def Let_def numeral_2_eq_2 numeral_3_eq_3 list_update_append)
qed

text \<open>The message carries the address of the buffer, in its upper 28 bits, and the channel.\<close>

lemma message_parts:
  assumes "pd AND 0xF = (0 :: u64)"
  defines "w \<equiv> (ucast ((pd AND 0xFFFFFFF0) OR (ucast (8 :: u8) AND 0xF)) :: u32)"
  shows "w AND 0xF = 8" "w AND NOT 0xF = ucast pd"
proof -
  have f: "(0xF :: u64) = mask 4" "(0xF :: u32) = mask 4" by (simp_all add: mask_eq_exp_minus_1)
  have g: "(0xFFFFFFF0 :: u64) = mask 32 AND NOT (mask 4)"
    by (simp add: mask_eq_exp_minus_1)
  have "(8 :: int) = push_bit 3 1" by (simp add: push_bit_eq_mult)
  then have eight: "bit (8 :: int) n \<longleftrightarrow> n = 3" for n
    by (simp only: bit_push_bit_iff bit_1_iff) auto
  have low: "\<not> bit pd n" if "n < 4" for n
    using that arg_cong [OF assms(1), of "\<lambda>x. bit x n"] by (simp add: f bit_simps)
  have w: "bit w n \<longleftrightarrow> n < 32 \<and> (n = 3 \<or> 4 \<le> n \<and> bit pd n)" for n
    unfolding w_def g f by (auto simp: bit_simps eight)
  show "w AND 0xF = 8" by (rule bit_word_eqI) (auto simp: f w bit_simps eight)
  have high: "4 \<le> n" if "bit pd n" for n using low that not_le by blast
  show "w AND NOT 0xF = ucast pd" by (rule bit_word_eqI) (auto simp: f w bit_simps dest: high)
qed

text \<open>
  C37. For every firmware, a property request is delivered as the protocol asks, by one message that names
  the buffer and the channel: its size, the request code, the words of the tag and the end tag. The result
  is the answer in the place of the tag, whatever its status, and the call faults for no behaviour of the
  firmware and returns where the firmware serves requests.
\<close>

theorem mailbox_process_exchange:
  assumes "length (property_data s) = 8192" and "length tag \<le> 8189" and "pd AND 0xF = 0"
  shows "case mailbox_process k n d pd tag s of
      Inl e \<Rightarrow> e = OutOfFuel \<and> \<not> mailbox_serves k n d
    | Inr (ok, tag', s') \<Rightarrow> ok \<and>
        (\<exists>w. io_log (mb_machine s') = io_log (mb_machine s) @ [(MBX ''write'', w)] \<and> w AND 0xF = 8 \<and> w AND NOT 0xF = ucast pd)
        \<and> property_data s' = fw_answer d (hw (mb_machine s'))
            ([of_nat (4 * length tag + 12), 0] @ tag @ [0] @ drop (length tag + 3) (property_data s))
        \<and> tag' = take (length tag) (drop 2 (property_data s'))"
proof (cases "mailbox_write n d MAIL_TAGS pd (mb_machine s)")
  case (Inl e)
  then show ?thesis
    using assms mailbox_write_error [OF Inl] mailbox_write_serves [of k n d MAIL_TAGS pd "mb_machine s"]
    by (auto simp: mailbox_process_def Let_def)
next
  case w: (Inr m1)
  show ?thesis
  proof (cases "mailbox_read k n d MAIL_TAGS m1")
    case (Inl e)
    then have "e = OutOfFuel" by (rule mailbox_read_error)
    moreover have "\<not> mailbox_serves k n d" using Inl \<open>e = OutOfFuel\<close> unfolding mailbox_serves_def by blast
    ultimately show ?thesis using assms w Inl by (simp add: mailbox_process_def Let_def)
  next
    case (Inr vm)
    obtain v m2 where vm: "vm = (v, m2)" by fastforce
    have "io_log m2 = io_log (mb_machine s)
        @ [(MBX ''write'', ucast ((pd AND 0xFFFFFFF0) OR (ucast (8 :: u8) AND 0xF)))]"
      using mailbox_write_log [OF w] mailbox_read_log [OF Inr [unfolded vm]] by simp
    then show ?thesis
      using assms w Inr vm message_parts [OF assms(3)] property_request_words [of tag "property_data s"]
      by (auto simp: mailbox_process_def Let_def)
  qed
qed

definition echo_firmware :: "unit firmware" where
  "echo_firmware = \<lparr>fw_io = \<lparr>io_read = (\<lambda>a h. (8, h)), io_write = (\<lambda>a v h. h), io_delay = (\<lambda>t h. h)\<rparr>,
     fw_answer = (\<lambda>h ws. ws[1 := 0x80000000, 4 := 0x80000008, 6 := 250000000])\<rparr>"

lemma echo_serves: "mailbox_serves 1 1 echo_firmware"
  by (simp add: mailbox_serves_def echo_firmware_def reg_read_def MAILBOX_FULL_def MAILBOX_EMPTY_def)

lemma mailbox_process_exchange_witness:
  "\<exists>s'. mailbox_process 1 1 echo_firmware 0x90000 [0x30002, 8, 0, 1, 0]
          \<lparr>mb_machine = \<lparr>hw = (), io_log = []\<rparr>, property_data = replicate 8192 7\<rparr>
        = Inr (True, [0x30002, 8, 0x80000008, 1, 250000000], s')
     \<and> io_log (mb_machine s') = [(MBX ''write'', 0x90008)]"
proof -
  let ?s = "\<lparr>mb_machine = \<lparr>hw = (), io_log = []\<rparr>, property_data = replicate 8192 7\<rparr> :: unit mailbox"
  have e: "mailbox_process 1 1 echo_firmware 0x90000 [0x30002, 8, 0, 1, 0] ?s \<noteq> Inl e" for e
    using mailbox_process_exchange [of ?s "[0x30002, 8, 0, 1, 0]" "0x90000" 1 1 echo_firmware] echo_serves by auto
  then obtain ok tag' s' where r: "mailbox_process 1 1 echo_firmware 0x90000 [0x30002, 8, 0, 1, 0] ?s = Inr (ok, tag', s')"
    by (cases "mailbox_process 1 1 echo_firmware 0x90000 [0x30002, 8, 0, 1, 0] ?s") auto
  have w: "w = 0x90008" if "w AND 0xF = 8" "w AND NOT 0xF = (0x90000 :: u32)" for w
  proof -
    have "w = (w AND 0xF) OR (w AND NOT 0xF)" by (rule bit_word_eqI) (auto simp: bit_simps)
    with that show ?thesis by simp
  qed
  show ?thesis
    using r w mailbox_process_exchange [of ?s "[0x30002, 8, 0, 1, 0]" "0x90000" 1 1 echo_firmware]
    by (auto simp: echo_firmware_def)
qed

section \<open>The frame buffer request\<close>

text \<open>
  The tags of a request from a position on, up to the end tag: the identity, the position and the words of
  each value, read as the firmware reads them.
\<close>

fun tags_at :: "nat \<Rightarrow> u32 list \<Rightarrow> (u32 \<times> nat \<times> u32 list) list" where
  "tags_at i (t # n # c # ws) =
     (if t = 0 then []
      else let len = unat n div 4 in (t, i + 3, take len ws) # tags_at (i + 3 + len) (drop len ws))"
| "tags_at i ws = []"

lemma framebuffer_request_tags:
  "ws ! 0 = of_nat (4 * length ws) \<and>
   tags_at 2 (drop 2 ws) = [(0x48003, 5, [w, h]), (0x48004, 10, [w, h]), (0x48005, 15, [depth]), (0x40001, 19, [16, 0]),
     (0x40008, 24, [0])]" if "ws = framebuffer_request w h depth"
  unfolding that by (simp add: framebuffer_request_def)

text \<open>
  The address is taken from the value of its tag, at word 19. The pitch is not: word 23 is the length of
  the answer, which a firmware that answers four bytes sets to \<open>0x80000004\<close>, and the value is word 24.
\<close>

lemma init_frame_result:
  assumes "init_frame k n d mb buf w h depth m = Inr (f, answer, m')"
  shows "fb f = (if answer ! 19 AND 0x3FFFFFFF = 0 then 0 else VIRT_BASE + ucast (answer ! 19 AND 0x3FFFFFFF))"
    and "width f = w" "height f = h" and "answer ! 23 = 0x80000004 \<Longrightarrow> pitch f = 4"
proof -
  obtain m1 v m2 where "mailbox_write n d MAIL_TAGS (mb AND NOT 0xF) m = Inr m1"
      "mailbox_read k n d MAIL_TAGS m1 = Inr (v, m2)"
    using assms by (auto simp: init_frame_def bindR_eq_Inr)
  moreover have "(ucast x AND 0x3FFFFFFF :: u64) = ucast (x AND 0x3FFFFFFF)" for x :: u32
    by (rule bit_word_eqI) (auto simp: bit_simps dest: bit_imp_le_length)
  moreover have "ucast x = (0 :: u64) \<longleftrightarrow> x = 0" for x :: u32
  proof -
    have "n < 32" if "bit x n" for n using bit_imp_le_length [OF that] by simp
    then have "(\<forall>n < 64. \<not> bit x n) = (\<forall>n < 32. \<not> bit x n)" by force
    then show ?thesis by (simp add: bit_eq_iff bit_simps)
  qed
  ultimately show "fb f = (if answer ! 19 AND 0x3FFFFFFF = 0 then 0 else VIRT_BASE + ucast (answer ! 19 AND 0x3FFFFFFF))"
    and "width f = w" "height f = h" and "answer ! 23 = 0x80000004 \<Longrightarrow> pitch f = 4"
    using assms by (auto simp: init_frame_def Let_def pa_to_va_def and.assoc add.commute)
qed

text \<open>The screen is filled with the low byte of the colour, so opaque black becomes zero.\<close>

lemma fill_screen_black: "fill_screen f 0xFF000000 px i = (if i < ucast (width f * height f) then 0 else px i)"
  by (simp add: fill_screen_def)

end
