(* ===== verification/Shell.thy ===== *)
theory Shell
  imports Prelude
begin

text \<open>
  The shell \<open>user/jsh/main.c\<close>: the line editor of \<open>commandline\<close> and the path that a command runs. Keys are
  the bytes that the read calls deliver. For each command the shell forks; the child, whose copy of \<open>path\<close>
  is the initial one, asks the kernel for the program, and the parent waits for it. The result of the model
  is the list of the paths asked for. The memory tests at the start of \<open>main\<close> print constants.
\<close>

section \<open>Operations\<close>

definition BUF_SIZE :: nat where "BUF_SIZE = 1024"

text \<open>A C string in an array; without a terminator the reader leaves the array.\<close>

definition c_string :: "u8 list \<Rightarrow> u8 list result" where
  "c_string bs = (if 0 \<in> set bs then Inr (takeWhile (\<lambda>b. b \<noteq> 0) bs) else Inl WildAccess)"

text \<open>\<open>static char path[1024] = "/bin/"\<close>.\<close>

definition path :: "u8 list" where
  "path = [47, 98, 105, 110, 47] @ replicate (BUF_SIZE - 5) 0"

text \<open>The child copies the command behind the five characters and reads the path as a string.\<close>

definition process_command :: "u8 list \<Rightarrow> u8 list result" where
  "process_command cmd =
     (if BUF_SIZE < 5 + length cmd then Inl WildAccess
      else c_string (take 5 path @ cmd @ drop (5 + length cmd) path))"

record shell =
  sh_buf :: "u8 list"
  cmdptr :: nat

text \<open>One round of the loop. The read stores the key where the pointer is, whatever the key.\<close>

definition key :: "u8 \<Rightarrow> shell \<Rightarrow> (u8 list option \<times> shell) result" where
  "key c s =
     (if BUF_SIZE \<le> cmdptr s then Inl WildAccess
      else let buf = (sh_buf s)[cmdptr s := c]
           in if c = 13 \<or> c = 10
              then bindR (c_string (buf[cmdptr s := 0])) (\<lambda>cmd.
                   bindR (process_command cmd) (\<lambda>p.
                     Inr (Some p, \<lparr>sh_buf = buf[cmdptr s := 0], cmdptr = 0\<rparr>)))
              else if c = 0x7F then Inr (None, \<lparr>sh_buf = buf, cmdptr = max (cmdptr s - 1) 0\<rparr>)
              else Inr (None, \<lparr>sh_buf = buf, cmdptr = cmdptr s + 1\<rparr>))"

fun commandline :: "u8 list \<Rightarrow> shell \<Rightarrow> (u8 list list \<times> shell) result" where
  "commandline [] s = Inr ([], s)"
| "commandline (c # cs) s =
     bindR (key c s) (\<lambda>(r, s1).
     bindR (commandline cs s1) (\<lambda>(ps, s2).
       Inr (case r of None \<Rightarrow> (ps, s2) | Some p \<Rightarrow> (p # ps, s2))))"

section \<open>The line editor\<close>

text \<open>What the user means: a line, from which the delete key removes the last character.\<close>

fun edit :: "u8 list \<Rightarrow> u8 list \<Rightarrow> u8 list list" where
  "edit line [] = []"
| "edit line (c # cs) =
     (if c = 13 \<or> c = 10 then line # edit [] cs
      else if c = 0x7F then edit (butlast line) cs
      else edit (line @ [c]) cs)"

text \<open>No line, and no part of one, grows beyond what fits behind \<open>/bin/\<close>.\<close>

fun fits :: "u8 list \<Rightarrow> u8 list \<Rightarrow> bool" where
  "fits line [] \<longleftrightarrow> length line < BUF_SIZE - 5"
| "fits line (c # cs) \<longleftrightarrow> length line < BUF_SIZE - 5 \<and>
     (if c = 13 \<or> c = 10 then fits [] cs else if c = 0x7F then fits (butlast line) cs else fits (line @ [c]) cs)"

definition holds_line :: "u8 list \<Rightarrow> shell \<Rightarrow> bool" where
  "holds_line line s \<longleftrightarrow> length (sh_buf s) = BUF_SIZE \<and> cmdptr s = length line \<and> take (length line) (sh_buf s) = line
     \<and> 0 \<notin> set line"

lemma c_string_terminated: "0 \<notin> set line \<Longrightarrow> c_string (line @ 0 # rest) = Inr line"
  by (auto simp: c_string_def takeWhile_append)

lemma process_command_path:
  assumes "length line < BUF_SIZE - 5" and "0 \<notin> set line"
  shows "process_command line = Inr ([47, 98, 105, 110, 47] @ line)"
proof -
  have "drop (length line) (replicate (BUF_SIZE - 5) 0) = (0 :: u8) # replicate (BUF_SIZE - 6 - length line) 0"
    using assms(1) by (simp add: BUF_SIZE_def drop_replicate flip: replicate_Suc)
  moreover have "drop (5 + length line) path = drop (length line) (drop 5 path)" by (simp add: add.commute)
  moreover have "drop 5 path = replicate (BUF_SIZE - 5) 0" "take 5 path = [47, 98, 105, 110, 47]"
    by (simp_all add: path_def)
  ultimately have e: "take 5 path @ line @ drop (5 + length line) path
      = ([47, 98, 105, 110, 47] @ line) @ 0 # replicate (BUF_SIZE - 6 - length line) 0"
    by simp
  show ?thesis
    using assms c_string_terminated [of "[47, 98, 105, 110, 47] @ line"] unfolding process_command_def e
    by (simp add: BUF_SIZE_def)
qed

lemma key_line:
  assumes "holds_line line s" and "length line < BUF_SIZE - 5" and "c \<noteq> 0"
  shows "if c = 13 \<or> c = 10 then \<exists>s'. key c s = Inr (Some ([47, 98, 105, 110, 47] @ line), s') \<and> holds_line [] s'
    else \<exists>s'. key c s = Inr (None, s') \<and> holds_line (if c = 0x7F then butlast line else line @ [c]) s'"
proof -
  have h: "length (sh_buf s) = BUF_SIZE" "cmdptr s = length line" "take (length line) (sh_buf s) = line" "0 \<notin> set line"
    using assms(1) by (simp_all add: holds_line_def)
  have lt: "length line < BUF_SIZE" using assms(2) by simp
  have upd: "(sh_buf s)[length line := x] = line @ x # drop (Suc (length line)) (sh_buf s)" for x
    using h(1,3) lt by (simp add: upd_conv_take_nth_drop)
  have "length line + Suc (length (sh_buf s) - Suc (length line)) = BUF_SIZE" using h(1) lt by simp
  then show ?thesis
    using assms(2,3) h(2,4) lt c_string_terminated [OF h(4)] process_command_path [OF assms(2) h(4)]
    by (auto simp: key_def upd holds_line_def butlast_conv_take list_update_append Let_def dest: in_set_takeD)
qed

text \<open>
  C39. The shell runs what the user typed: for every sequence of keys without zero bytes in which no line grows
  beyond 1018 characters, the programs it asks for are \<open>/bin/\<close> followed by the edited lines, in order, and no
  access leaves its buffers.
\<close>

theorem shell_runs_lines:
  assumes "fits [] keys" and "0 \<notin> set keys" and "length (sh_buf s) = BUF_SIZE" and "cmdptr s = 0"
  shows "\<exists>s'. commandline keys s = Inr (map (\<lambda>line. [47, 98, 105, 110, 47] @ line) (edit [] keys), s')"
proof -
  have "\<exists>s'. commandline keys s = Inr (map (\<lambda>line. [47, 98, 105, 110, 47] @ line) (edit line keys), s')"
    if "fits line keys" "holds_line line s" "0 \<notin> set keys" for line keys s
    using that
  proof (induction keys arbitrary: line s)
    case (Cons c cs)
    have c: "c \<noteq> 0" "0 \<notin> set cs" "length line < BUF_SIZE - 5" using Cons.prems(1,3) by auto
    from key_line [OF Cons.prems(2) c(3,1)] Cons.IH Cons.prems(1) c(2)
    show ?case by (fastforce split: if_splits)
  qed simp
  moreover have "holds_line [] s" using assms(3,4) by (simp add: holds_line_def)
  ultimately show ?thesis using assms(1,2) by blast
qed

lemma shell_runs_lines_witness:
  "\<exists>s'. commandline [108, 120, 127, 115, 13, 112, 119, 100, 10] \<lparr>sh_buf = replicate BUF_SIZE 0, cmdptr = 0\<rparr>
     = Inr ([[47, 98, 105, 110, 47, 108, 115], [47, 98, 105, 110, 47, 112, 119, 100]], s')"
  using shell_runs_lines [of "[108, 120, 127, 115, 13, 112, 119, 100, 10]" "\<lparr>sh_buf = replicate BUF_SIZE 0, cmdptr = 0\<rparr>"]
  by (simp add: BUF_SIZE_def)

text \<open>A line of 1024 characters is written past the end of the buffer.\<close>

lemma long_line_overflows:
  assumes "length keys = BUF_SIZE" and "\<forall>c \<in> set keys. c \<notin> {13, 10, 0x7F}" and "cmdptr s = 0"
  shows "commandline (keys @ [c]) s = Inl WildAccess"
proof -
  have "commandline (ks @ [c]) s = Inl WildAccess"
    if "cmdptr s + length ks = BUF_SIZE" "\<forall>c \<in> set ks. c \<notin> {13, 10, 0x7F}" for ks and s :: shell
    using that
  proof (induction ks arbitrary: s)
    case Nil
    then show ?case by (simp add: key_def)
  next
    case (Cons k ks)
    then show ?case by (simp add: key_def Let_def)
  qed
  with assms show ?thesis by simp
qed

end
