(* ===== verification/Boot_Map.thy ===== *)
theory Boot_Map
  imports Page_Tables_Correct
begin

text \<open>
  The tables that \<open>boot/highhalf.c\<close> builds before the MMU is enabled. Addresses are physical, so the
  code reaches memory directly; tables are taken one after the other from the static page region.
  The addresses that the linker fixes are the fields of a record.
\<close>

section \<open>State\<close>

record symbols =
  kernel_high_start :: u64
  text_start :: u64
  text_end :: u64
  rodata_start :: u64
  rodata_end :: u64
  bss_start :: u64
  bss_end :: u64
  static_page_region_start :: u64
  static_page_region_start_phys :: u64
  static_page_region_pages :: u64
  kstack_bottom_hi :: u64
  kstack_top_hi :: u64
  page_frame_array_start :: u64
  page_frame_array_end :: u64
  test_phys_loc :: u64
  test_size :: u64
  enable_mmu_loc :: u64

record boot =
  bt_mem :: "u64 \<Rightarrow> u64"
  lo_allocated_pages :: nat

datatype permissions = RO | RW | RX

definition rd_lo :: "u64 \<Rightarrow> boot \<Rightarrow> u64 result" where
  "rd_lo pa st = (if in_ram pa then Inr (bt_mem st pa) else Inl WildAccess)"

definition wr_lo :: "u64 \<Rightarrow> u64 \<Rightarrow> boot \<Rightarrow> boot result" where
  "wr_lo pa v st = (if in_ram pa then Inr (st\<lparr>bt_mem := (bt_mem st)(pa := v)\<rparr>) else Inl WildAccess)"

definition alloc_page_table_lo :: "symbols \<Rightarrow> boot \<Rightarrow> (u64 \<times> boot) result" where
  "alloc_page_table_lo y st =
     (let page_addr = static_page_region_start_phys y + 0x1000 * of_nat (lo_allocated_pages st)
      in if in_ram page_addr
         then Inr (page_addr, st\<lparr>lo_allocated_pages := lo_allocated_pages st + 1,
                bt_mem := (\<lambda>a. if a - page_addr < 0x1000 then 0 else bt_mem st a)\<rparr>)
         else Inl WildAccess)"

section \<open>Mapping helpers\<close>

text \<open>The descriptors that \<open>map_high\<close> prepares, and the permissions of a range.\<close>

definition k_code_table_mapping :: u64 where
  "k_code_table_mapping = put_field 0 1 1 (put_field 53 1 1 (put_field 52 1 1 (put_field 1 1 1 0)))"

definition k_code_mem_mapping :: u64 where
  "k_code_mem_mapping =
     (let m1 = put_field 0 1 1 0;
          m2 = put_field 10 1 1 m1;
          m3 = put_field 5 1 0 m2;
          m4 = put_field 8 2 3 m3;
          m5 = put_field 6 2 0 m4;
          m6 = put_field 53 1 1 m5;
          m7 = put_field 54 1 1 m6;
          m8 = put_field 2 3 0 m7
      in put_field 1 1 1 m8)"

definition mark_permissions :: "permissions \<Rightarrow> u64 \<Rightarrow> u64" where
  "mark_permissions perms ptme =
     (case perms of RO \<Rightarrow> put_field 53 1 1 (put_field 6 2 2 ptme)
      | RW \<Rightarrow> put_field 53 1 1 (put_field 6 2 0 ptme)
      | RX \<Rightarrow> put_field 53 1 0 (put_field 6 2 2 ptme))"

definition next_table_lo :: "symbols \<Rightarrow> u64 \<Rightarrow> u64 \<Rightarrow> u64 \<Rightarrow> boot \<Rightarrow> (u64 \<times> boot) result" where
  "next_table_lo y ptte table idx st =
     bindR (rd_lo (table + 8 * idx) st) (\<lambda>e.
     bindR (if pte_valid e then Inr st
            else bindR (alloc_page_table_lo y st) (\<lambda>(pg, st1).
                   wr_lo (table + 8 * idx) (set_address ptte (drop_bit 12 pg)) st1)) (\<lambda>st2.
     bindR (rd_lo (table + 8 * idx) st2) (\<lambda>e2.
       Inr (push_bit 12 (pte_address e2), st2))))"

definition put_leaf_lo :: "u64 \<Rightarrow> u64 \<Rightarrow> u64 \<Rightarrow> u64 \<Rightarrow> boot \<Rightarrow> boot result" where
  "put_leaf_lo ptme table idx pa st =
     bindR (rd_lo (table + 8 * idx) st) (\<lambda>e.
       if pte_valid e then Inr st
       else wr_lo (table + 8 * idx) (set_address ptme (drop_bit 12 pa)) st)"

definition map_l3_page :: "symbols \<Rightarrow> u64 \<Rightarrow> u64 \<Rightarrow> u64 \<Rightarrow> u64 \<Rightarrow> boot \<Rightarrow> boot result" where
  "map_l3_page y ptme va pa pt st =
     bindR (next_table_lo y k_code_table_mapping pt (pt_index 0 va) st) (\<lambda>(l1_table, st1).
     bindR (next_table_lo y k_code_table_mapping l1_table (pt_index 1 va) st1) (\<lambda>(l2_table, st2).
     bindR (next_table_lo y k_code_table_mapping l2_table (pt_index 2 va) st2) (\<lambda>(l3_table, st3).
       put_leaf_lo ptme l3_table (pt_index 3 va) pa st3)))"

fun l3_loop :: "symbols \<Rightarrow> u64 \<Rightarrow> u64 \<Rightarrow> u64 \<Rightarrow> nat \<Rightarrow> u64 \<Rightarrow> boot \<Rightarrow> boot result" where
  "l3_loop y ptme va pa 0 pt st = Inr st"
| "l3_loop y ptme va pa (Suc n) pt st =
     bindR (map_l3_page y ptme va pa pt st) (l3_loop y ptme (va + 0x1000) (pa + 0x1000) n pt)"

text \<open>The counts are \<open>int\<close>; a loop up to a negative count does nothing.\<close>

definition map_l3_range :: "symbols \<Rightarrow> u64 \<Rightarrow> u64 \<Rightarrow> u32 \<Rightarrow> u64 \<Rightarrow> permissions \<Rightarrow> boot \<Rightarrow> boot result" where
  "map_l3_range y va pa l3_blocks pt perms st =
     l3_loop y (mark_permissions perms k_code_mem_mapping) va pa (nat (sint l3_blocks)) pt st"

definition map_l2_block :: "symbols \<Rightarrow> u64 \<Rightarrow> u64 \<Rightarrow> u64 \<Rightarrow> u64 \<Rightarrow> boot \<Rightarrow> boot result" where
  "map_l2_block y ptme va pa pt st =
     bindR (next_table_lo y k_code_table_mapping pt (pt_index 0 va) st) (\<lambda>(l1_table, st1).
     bindR (next_table_lo y k_code_table_mapping l1_table (pt_index 1 va) st1) (\<lambda>(l2_table, st2).
       put_leaf_lo ptme l2_table (pt_index 2 va) pa st2))"

fun l2_loop :: "symbols \<Rightarrow> u64 \<Rightarrow> u64 \<Rightarrow> u64 \<Rightarrow> nat \<Rightarrow> u64 \<Rightarrow> boot \<Rightarrow> boot result" where
  "l2_loop y ptme va pa 0 pt st = Inr st"
| "l2_loop y ptme va pa (Suc n) pt st =
     bindR (map_l2_block y ptme va pa pt st) (l2_loop y ptme (va + 0x200000) (pa + 0x200000) n pt)"

definition map_l2_range :: "symbols \<Rightarrow> u64 \<Rightarrow> u64 \<Rightarrow> u32 \<Rightarrow> u64 \<Rightarrow> permissions \<Rightarrow> boot \<Rightarrow> boot result" where
  "map_l2_range y va pa l2_blocks pt perms st =
     l2_loop y (mark_permissions perms (put_field 1 1 0 k_code_mem_mapping)) va pa (nat (sint l2_blocks)) pt st"

definition map_lo :: "symbols \<Rightarrow> u64 \<Rightarrow> u64 \<Rightarrow> u32 \<Rightarrow> u64 \<Rightarrow> permissions \<Rightarrow> boot \<Rightarrow> boot result" where
  "map_lo y va pa pages pt perms st =
     (let l2_boundary = ALIGN_UP va 0x200000 - va;
          n_front_pages = l2_boundary div 0x1000
      in bindR (if n_front_pages \<noteq> 0
                then let n = min n_front_pages (scast pages)
                     in bindR (map_l3_range y va pa (ucast n) pt perms st) (\<lambda>st1.
                          Inr (va + n * 0x1000, pa + n * 0x1000, ucast (scast pages - n), st1))
                else Inr (va, pa, pages, st)) (\<lambda>(va1, pa1, pages1, st1).
         let l2_blocks = scast (signed_drop_bit 9 pages1) :: u64;
             l3_blocks = scast (pages1 AND 0x1FF) :: u64
         in bindR (if l2_blocks \<noteq> 0 then map_l2_range y va1 pa1 (ucast l2_blocks) pt perms st1 else Inr st1) (\<lambda>st2.
            let va2 = va1 + l2_blocks * 0x200000;
                pa2 = pa1 + l2_blocks * 0x200000
            in if l3_blocks \<noteq> 0 then map_l3_range y va2 pa2 (ucast l3_blocks) pt perms st2 else Inr st2)))"

section \<open>Mapping functions\<close>

definition map_pre_code :: "symbols \<Rightarrow> u64 \<Rightarrow> boot \<Rightarrow> boot result" where
  "map_pre_code y pt st =
     (let code_base = ALIGN_DOWN (kernel_high_start y) 0x1000; vb = VIRT_BASE;
          pages_to_map = (code_base - vb) div 0x1000
      in map_lo y vb (vb - vb) (ucast pages_to_map) pt RW st)"

definition map_code :: "symbols \<Rightarrow> u64 \<Rightarrow> boot \<Rightarrow> boot result" where
  "map_code y pt st =
     (let code_base = ALIGN_DOWN (text_start y) 0x1000; code_end = ALIGN_UP (text_end y) 0x1000;
          pages_to_map = (code_end - code_base) div 0x1000
      in map_lo y code_base (code_base - VIRT_BASE) (ucast pages_to_map) pt RX st)"

definition map_rodata :: "symbols \<Rightarrow> u64 \<Rightarrow> boot \<Rightarrow> boot result" where
  "map_rodata y pt st =
     (let start = ALIGN_DOWN (rodata_start y) 0x1000; fin = ALIGN_UP (rodata_end y) 0x1000;
          pages_to_map = (fin - start) div 0x1000
      in map_lo y start (start - VIRT_BASE) (ucast pages_to_map) pt RO st)"

definition map_bss :: "symbols \<Rightarrow> u64 \<Rightarrow> boot \<Rightarrow> boot result" where
  "map_bss y pt st =
     (let start = ALIGN_DOWN (bss_start y) 0x1000; fin = ALIGN_UP (bss_end y) 0x1000;
          pages_to_map = (fin - start) div 0x1000
      in map_lo y start (start - VIRT_BASE) (ucast pages_to_map) pt RW st)"

definition map_static_page_region :: "symbols \<Rightarrow> u64 \<Rightarrow> boot \<Rightarrow> boot result" where
  "map_static_page_region y pt st =
     (let spr = static_page_region_start y
      in map_lo y spr (spr - VIRT_BASE) (ucast (static_page_region_pages y)) pt RW st)"

definition map_kernel_stack :: "symbols \<Rightarrow> u64 \<Rightarrow> boot \<Rightarrow> boot result" where
  "map_kernel_stack y pt st =
     (let bottom = ALIGN_DOWN (kstack_bottom_hi y) 0x1000; top = ALIGN_UP (kstack_top_hi y) 0x1000;
          pages_to_map = (top - bottom) div 0x1000
      in map_lo y bottom (bottom - VIRT_BASE) (ucast pages_to_map) pt RW st)"

definition map_mmu_stub :: "symbols \<Rightarrow> u64 \<Rightarrow> boot \<Rightarrow> boot result" where
  "map_mmu_stub y pt st =
     (let mmu_stub_loc = ALIGN_DOWN (enable_mmu_loc y) 0x1000
      in map_lo y mmu_stub_loc mmu_stub_loc 1 pt RX st)"

definition map_page_frame_array :: "symbols \<Rightarrow> u64 \<Rightarrow> boot \<Rightarrow> boot result" where
  "map_page_frame_array y pt st =
     (let start_addr = ALIGN_DOWN (page_frame_array_start y) 0x1000;
          end_addr = ALIGN_UP (page_frame_array_end y) 0x1000;
          pages_to_map = drop_bit 12 (end_addr - start_addr)
      in map_lo y start_addr (start_addr - VIRT_BASE) (ucast pages_to_map) pt RW st)"

definition map_ram :: "symbols \<Rightarrow> u64 \<Rightarrow> boot \<Rightarrow> boot result" where
  "map_ram y pt st =
     (let test_end = ALIGN_UP (test_phys_loc y + test_size y) 0x1000;
          pages_to_map = (push_bit 30 1 - test_end) div 0x1000
      in map_lo y (VIRT_BASE + test_end) test_end (ucast pages_to_map) pt RW st)"

text \<open>The two tables are the arguments of \<open>enable_mmu\<close>, which loads them into \<open>TTBR1\<close> and \<open>TTBR0\<close>.\<close>

definition map_high :: "symbols \<Rightarrow> boot \<Rightarrow> (u64 \<times> u64 \<times> boot) result" where
  "map_high y st =
     bindR (alloc_page_table_lo y st) (\<lambda>(pt_hi, s1).
     bindR (alloc_page_table_lo y s1) (\<lambda>(pt_lo, s2).
     bindR (map_pre_code y pt_hi s2) (\<lambda>s3.
     bindR (map_code y pt_hi s3) (\<lambda>s4.
     bindR (map_rodata y pt_hi s4) (\<lambda>s5.
     bindR (map_bss y pt_hi s5) (\<lambda>s6.
     bindR (map_static_page_region y pt_hi s6) (\<lambda>s7.
     bindR (map_kernel_stack y pt_hi s7) (\<lambda>s8.
     bindR (map_mmu_stub y pt_lo s8) (\<lambda>s9.
     bindR (map_page_frame_array y pt_hi s9) (\<lambda>s10.
     bindR (map_ram y pt_hi s10) (\<lambda>s11. Inr (pt_hi, pt_lo, s11))))))))))))"

end
