(* ===== verification/Page_Index.thy ===== *)
theory Page_Index
  imports Page_Tables_Correct
begin

text \<open>
  The pages of a run of addresses: when two of them have the same translation, and how their table
  indices follow from the address as a number.
\<close>

abbreviation page_at :: "u64 \<Rightarrow> nat \<Rightarrow> u64" where "page_at va i \<equiv> va + of_nat i * 0x1000"

lemma same_page_bits: "same_page a b \<Longrightarrow> 12 \<le> n \<Longrightarrow> n < 48 \<Longrightarrow> bit a n = bit b n"
proof -
  assume s: "same_page a b" and n: "12 \<le> n" "n < 48"
  have i: "bit (pt_index l x) k \<longleftrightarrow> k < 9 \<and> bit x (39 - 9 * l + k)" if "l \<le> 3" for l k and x :: u64
  proof -
    have m: "(0x1FF :: u64) = mask 9" by (simp add: mask_eq_exp_minus_1)
    show ?thesis unfolding pt_index_def m using that by (auto simp: bit_simps dest: bit_imp_le_length)
  qed
  have e: "pt_index l a = pt_index l b" if "l \<le> 3" for l
  proof -
    have "l \<in> {0, 1, 2, 3}" using that by auto
    then show ?thesis using s by (auto simp: same_page_def pt_path_def)
  qed
  obtain l k where "l \<le> 3" "k < 9" "39 - 9 * l + k = n"
  proof (rule that)
    show "3 - (n - 12) div 9 \<le> 3" "(n - 12) mod 9 < 9" by simp_all
    have "(n - 12) div 9 \<le> 3" using n by simp
    then have "39 - 9 * (3 - (n - 12) div 9) = 12 + 9 * ((n - 12) div 9)" by (simp add: algebra_simps)
    moreover have "9 * ((n - 12) div 9) + (n - 12) mod 9 = n - 12" by simp
    ultimately show "39 - 9 * (3 - (n - 12) div 9) + (n - 12) mod 9 = n" using n by linarith
  qed
  then show "bit a n = bit b n" using i [of l a k] i [of l b k] e [of l] by simp
qed

lemma page_at_nat: "page_at va i = of_nat (unat va + i * 4096)"
  by simp

lemma mod_cancel: "((a :: nat) + x) mod m = (a + y) mod m \<Longrightarrow> x mod m = y mod m"
proof -
  assume "(a + x) mod m = (a + y) mod m"
  then have "(int a + int x) mod int m = (int a + int y) mod int m" by (metis of_nat_add zmod_int)
  from mod_diff_cong [OF this refl, of "int a"] have "int x mod int m = int y mod int m" by simp
  then show "x mod m = y mod m" by (simp only: zmod_int [symmetric] of_nat_eq_iff)
qed

lemma same_page_at:
  assumes s: "same_page (page_at va i) (page_at va j)" and v: "va AND 0xFFF = 0" and ij: "i < 2 ^ 36" "j < 2 ^ 36"
  shows "i = j"
proof -
  have m: "(0xFFF :: u64) = mask 12" by (simp add: mask_eq_exp_minus_1)
  have z: "take_bit 12 (page_at va k) = 0" for k
  proof -
    have "take_bit 12 va = 0" using v unfolding m by (simp only: take_bit_eq_mask)
    then have "unat (take_bit 12 va) = 0" by simp
    then have a: "unat va mod 2 ^ 12 = 0" by (simp only: unsigned_take_bit_eq take_bit_eq_mod [where 'a = nat])
    have "unat (page_at va k) mod 2 ^ 12 = (unat va + k * 4096) mod 2 ^ 12"
      unfolding page_at_nat unat_of_nat by (rule mod_mod_cancel) simp
    also have "\<dots> = unat va mod 2 ^ 12"
    proof -
      have "k * 4096 = k * 2 ^ 12" by simp
      then show ?thesis by (simp only: mod_mult_self1)
    qed
    finally have "unat (take_bit 12 (page_at va k)) = 0" by (simp only: unsigned_take_bit_eq take_bit_eq_mod [where 'a = nat] a)
    then show ?thesis by (simp only: unat_eq_0)
  qed
  have lo: "\<not> bit (page_at va k) n" if "n < 12" for k n
  proof -
    have "\<not> bit (take_bit 12 (page_at va k)) n" unfolding z by simp
    then show ?thesis using that by (simp only: bit_take_bit_iff) simp
  qed
  have "take_bit 48 (page_at va i) = take_bit 48 (page_at va j)"
  proof (rule bit_word_eqI)
    fix n
    show "bit (take_bit 48 (page_at va i)) n = bit (take_bit 48 (page_at va j)) n"
      unfolding bit_take_bit_iff using same_page_bits [OF s, of n] lo [of n] by (cases "n < 12") auto
  qed
  then have "unat (take_bit 48 (page_at va i)) = unat (take_bit 48 (page_at va j))" by (rule arg_cong)
  then have "unat (page_at va i) mod 2 ^ 48 = unat (page_at va j) mod 2 ^ 48"
    by (simp only: unsigned_take_bit_eq take_bit_eq_mod [where 'a = nat])
  moreover have "unat (page_at va k) mod 2 ^ 48 = (unat va + k * 4096) mod 2 ^ 48" for k
    unfolding page_at_nat unat_of_nat by (rule mod_mod_cancel) simp
  ultimately have "(unat va + i * 4096) mod 2 ^ 48 = (unat va + j * 4096) mod 2 ^ 48" by (simp only:)
  then have "(i * 4096) mod 2 ^ 48 = (j * 4096) mod 2 ^ 48" by (rule mod_cancel)
  moreover have "i * 4096 < 2 ^ 48" "j * 4096 < 2 ^ 48" using ij by simp_all
  ultimately have "i * 4096 = j * 4096" by (simp only: mod_less)
  then show ?thesis by simp
qed

lemma low_bits: "va AND 0xFFF = 0 \<longleftrightarrow> unat va mod 4096 = 0" for va :: u64
proof -
  have m: "(0xFFF :: u64) = mask 12" by (simp add: mask_eq_exp_minus_1)
  have "unat (va AND 0xFFF) = unat va mod 2 ^ 12"
    unfolding m take_bit_eq_mask [symmetric] by (simp only: unsigned_take_bit_eq take_bit_eq_mod [where 'a = nat])
  moreover have "va AND 0xFFF = 0 \<longleftrightarrow> unat (va AND 0xFFF) = 0" by (simp only: unat_eq_0)
  ultimately show ?thesis by simp
qed

lemma unat_pt_index: "l \<le> 3 \<Longrightarrow> unat (pt_index l va) = unat va div 2 ^ (39 - 9 * l) mod 512"
proof -
  have m: "(0x1FF :: u64) = mask 9" by (simp add: mask_eq_exp_minus_1)
  have "unat (pt_index l va) = unat (drop_bit (39 - 9 * l) va) mod 2 ^ 9"
    unfolding pt_index_def m take_bit_eq_mask [symmetric] by (simp only: unsigned_take_bit_eq take_bit_eq_mod [where 'a = nat])
  then show ?thesis by (simp only: unat_drop_bit_eq drop_bit_eq_div [where 'a = nat]) simp
qed

section \<open>Runs of pages\<close>

lemma div_add_small: "(x :: nat) mod m + y < m \<Longrightarrow> (x + y) div m = x div m"
proof -
  assume a: "x mod m + y < m"
  have c: "(c * m + r) div m = c" if "r < m" for c r using that by simp
  have "(x div m * m + (x mod m + y)) div m = x div m" by (rule c [OF a])
  moreover have "x div m * m + (x mod m + y) = x + y" by simp
  ultimately show ?thesis by (simp only:)
qed

text \<open>A run of pages that lies in one GiB.\<close>

definition in_gib :: "u64 \<Rightarrow> nat \<Rightarrow> bool" where
  "in_gib va n \<longleftrightarrow> unat va mod 4096 = 0 \<and> unat va mod 2 ^ 30 + n * 4096 \<le> 2 ^ 30"

lemma unat_page_at:
  assumes "unat va mod 2 ^ 30 + i * 4096 < 2 ^ 30"
  shows "unat (page_at va i) = unat va + i * 4096"
proof -
  have v: "unat va < 2 ^ 30 * 2 ^ 34" using unsigned_less [of va] by simp
  then have "unat va div 2 ^ 30 < 2 ^ 34" by (rule less_mult_imp_div_less [of _ "2 ^ 34", unfolded mult.commute [of "2 ^ 34"]])
  then have "2 ^ 30 * (unat va div 2 ^ 30) + 2 ^ 30 \<le> 2 ^ 64" by simp
  moreover have "unat va = 2 ^ 30 * (unat va div 2 ^ 30) + unat va mod 2 ^ 30" by simp
  ultimately have "unat va + i * 4096 < 2 ^ 64" using assms by linarith
  then have "unat (of_nat (unat va + i * 4096) :: u64) = unat va + i * 4096"
    unfolding unat_of_nat by (intro mod_less) simp
  then show ?thesis unfolding page_at_nat .
qed

lemma gib_index:
  assumes "unat va mod 2 ^ 30 + i * 4096 < 2 ^ 30"
  shows "pt_index 0 (page_at va i) = pt_index 0 va" "pt_index 1 (page_at va i) = pt_index 1 va"
proof -
  have d: "(unat va + i * 4096) div 2 ^ 30 = unat va div 2 ^ 30" using assms by (rule div_add_small)
  have e: "x div 2 ^ 39 = x div 2 ^ 30 div 2 ^ 9" for x :: nat by (simp add: div_mult2_eq [symmetric])
  have "unat (pt_index 0 (page_at va i)) = unat (pt_index 0 va)"
    unfolding unat_pt_index [of 0, simplified] unat_page_at [OF assms] using d e by simp
  then show "pt_index 0 (page_at va i) = pt_index 0 va" by (simp only: word_unat_eq_iff)
  have "unat (pt_index 1 (page_at va i)) = unat (pt_index 1 va)"
    using d by (simp add: unat_pt_index unat_page_at [OF assms] del: One_nat_def)
  then show "pt_index 1 (page_at va i) = pt_index 1 va" by (simp only: word_unat_eq_iff)
qed

lemma region_gib: "(x :: nat) mod 2 ^ 21 + k < 2 ^ 21 \<Longrightarrow> x mod 2 ^ 30 + k < 2 ^ 30"
proof -
  assume a: "x mod 2 ^ 21 + k < 2 ^ 21"
  have "x mod (2 ^ 21 * 2 ^ 9) = 2 ^ 21 * (x div 2 ^ 21 mod 2 ^ 9) + x mod 2 ^ 21" by (rule mod_mult2_eq)
  moreover have "x div 2 ^ 21 mod 2 ^ 9 < 2 ^ 9" by simp
  ultimately show ?thesis using a by simp
qed

lemma region_index:
  assumes "unat va mod 2 ^ 21 + i * 4096 < 2 ^ 21"
  shows "pt_path (page_at va i) = pt_path va"
proof -
  have d: "(unat va + i * 4096) div 2 ^ 21 = unat va div 2 ^ 21" using assms by (rule div_add_small)
  note g = region_gib [OF assms]
  have "unat (pt_index 2 (page_at va i)) = unat (pt_index 2 va)"
    using d by (simp add: unat_pt_index unat_page_at [OF g])
  then have "pt_index 2 (page_at va i) = pt_index 2 va" by (simp only: word_unat_eq_iff)
  then show ?thesis using gib_index [OF g] by (simp add: pt_path_def)
qed

lemma int_args:
  assumes "m < 2 ^ 31"
  shows "sint (of_nat m :: u32) = int m" "(ucast (of_nat m :: u64) :: u32) = of_nat m" "(scast (of_nat m :: u32) :: u64) = of_nat m"
    "signed_drop_bit 9 (of_nat m :: u32) = of_nat (m div 512)" "(of_nat m :: u32) AND 0x1FF = of_nat (m mod 512)"
proof -
  have s: "sint (of_nat k :: u32) = int k" if "k < 2 ^ 31" for k
    using that by (simp add: signed_of_nat signed_take_bit_int_eq_self)
  show "sint (of_nat m :: u32) = int m" by (rule s [OF assms])
  have u: "unat (of_nat k :: u32) = k" "unat (of_nat k :: u64) = k" if "k < 2 ^ 31" for k
    using that by (simp_all add: unsigned_of_nat take_bit_nat_eq_self)
  show "(ucast (of_nat m :: u64) :: u32) = of_nat m"
    using u [OF assms] assms unfolding word_unat_eq_iff unat_ucast_word by (simp add: take_bit_nat_eq_self)
  show "(scast (of_nat m :: u32) :: u64) = of_nat m"
    using s [OF assms] by (simp add: scast_eq)
  have "m div 512 < 2 ^ 31" using assms by simp
  then have "sint (signed_drop_bit 9 (of_nat m :: u32)) = sint (of_nat (m div 512) :: u32)"
    using s [OF assms] s [of "m div 512"] by (simp add: sint_signed_drop_bit_eq drop_bit_eq_div zdiv_int)
  then show "signed_drop_bit 9 (of_nat m :: u32) = of_nat (m div 512)" by (rule signed_word_eqI)
  have "unat ((of_nat m :: u32) AND mask 9) = m mod 512"
    unfolding take_bit_eq_mask [symmetric] unsigned_take_bit_eq u(1) [OF assms] by (simp add: take_bit_eq_mod [where 'a = nat])
  moreover have "unat (of_nat (m mod 512) :: u32) = m mod 512" using u(1) [of "m mod 512"] by simp
  ultimately show "(of_nat m :: u32) AND 0x1FF = of_nat (m mod 512)"
    by (simp add: word_unat_eq_iff mask_eq_exp_minus_1)
qed

lemma front_pages:
  assumes a: "unat va mod 4096 = 0" and l: "unat va + 2 ^ 30 < 2 ^ 64"
  shows "(ALIGN_UP va 0x200000 - va) div 0x1000 = of_nat ((512 - unat va div 4096 mod 512) mod 512)"
proof -
  obtain q where q: "unat va = 4096 * q" using mod_0_imp_dvd [OF a] by (auto elim: dvdE)
  define h w where "h = q div 512" and "w = q mod 512"
  have qw: "q = 512 * h + w" "w < 512" by (simp_all add: h_def w_def)
  have e: "(0x200000 :: u64) = 2 ^ 21" by simp
  have u: "unat (ALIGN_UP va 0x200000) = (unat va + 2 ^ 21 - 1) div 2 ^ 21 * 2 ^ 21"
    unfolding e using unat_ALIGN_UP [of 21 va] l by simp
  have d: "(unat va + 2 ^ 21 - 1) div 2 ^ 21 = (if w = 0 then h else Suc h)"
  proof (cases "w = 0")
    case True
    have "unat va + 2 ^ 21 - 1 = 2 ^ 21 * h + (2 ^ 21 - 1)" using q qw(1) True by simp
    then show ?thesis using True by simp
  next
    case False
    have "unat va + 2 ^ 21 - 1 = 2 ^ 21 * Suc h + (4096 * w - 1)" using q qw(1) False by simp
    moreover have "4096 * w - 1 < 2 ^ 21" using qw(2) by simp
    ultimately have "(unat va + 2 ^ 21 - 1) div 2 ^ 21 = Suc h" by (simp only: div_mult_self4 [of "2 ^ 21 :: nat"] div_less)
    then show ?thesis using False by simp
  qed
  have m: "unat va div 4096 mod 512 = w" using q by (simp add: w_def)
  have "unat (ALIGN_UP va 0x200000 - va) = ((512 - w) mod 512) * 4096"
  proof -
    have le: "va \<le> ALIGN_UP va 0x200000" unfolding word_le_nat_alt u d q qw(1) using qw(2) by simp
    show ?thesis using le u d q qw by (auto simp: unat_sub)
  qed
  then have "unat ((ALIGN_UP va 0x200000 - va) div 0x1000) = (512 - w) mod 512" by (simp add: unat_div_distrib)
  moreover have "unat (of_nat ((512 - w) mod 512) :: u64) = (512 - w) mod 512"
    by (simp add: unsigned_of_nat take_bit_nat_eq_self less_imp_le)
  ultimately show ?thesis unfolding m word_unat_eq_iff by simp
qed

end
