(* ===== verification/Boot_Tables.thy ===== *)
theory Boot_Tables
  imports Boot_Map Page_Index
begin

text \<open>
  The invariant of the tables of the boot code and what one step of it does. A tree may hold blocks
  of 2 MiB beside tables of pages; without its blocks it is a forest in the sense of the page tables
  of the running kernel, so the lemmas on linking a table and writing a leaf apply to it.
\<close>

section \<open>Trees with blocks\<close>

definition tables :: "(u64 \<Rightarrow> u64) \<Rightarrow> (u64 \<Rightarrow> u64)" where
  "tables m = (\<lambda>a. if pte_valid (m a) \<and> pte_type (m a) then m a else 0)"

lemma pte_zero [simp]: "\<not> pte_valid 0" "\<not> pte_type 0"
  by (simp_all add: pte_valid_def pte_type_def)

lemma tables_entry [simp]:
  "pte_valid (tables m a) \<longleftrightarrow> pte_valid (m a) \<and> pte_type (m a)" "pte_type (tables m a) \<longleftrightarrow> pte_valid (m a) \<and> pte_type (m a)"
  by (simp_all add: tables_def)

lemma tables_eq: "pte_valid (m a) \<Longrightarrow> pte_type (m a) \<Longrightarrow> tables m a = m a"
  by (simp add: tables_def)

lemma node_tables [simp]: "node (tables m) r p = node m r p"
  by (induction p arbitrary: r) (auto simp: tables_eq)

lemma tables_table: "pte_valid e \<Longrightarrow> pte_type e \<Longrightarrow> tables (m(a := e)) = (tables m)(a := e)"
  by (auto simp: tables_def fun_eq_iff)

lemma tables_block: "\<not> pte_type e \<Longrightarrow> \<not> pte_valid (m a) \<Longrightarrow> tables (m(a := e)) = tables m"
  by (auto simp: tables_def fun_eq_iff)

lemma tables_link: "pte_valid e \<Longrightarrow> pte_type e \<Longrightarrow> tables (link_table t i e m) = link_table t i e (tables m)"
  by (auto simp: tables_def link_table_def zero_page_def fun_eq_iff)

definition block_at :: "(u64 \<Rightarrow> u64) \<Rightarrow> u64 \<Rightarrow> u64 list \<Rightarrow> u64 \<Rightarrow> u64 option" where
  "block_at m r q j =
     (case node m r q of None \<Rightarrow> None
      | Some t \<Rightarrow> if pte_valid (m (slot t j)) \<and> \<not> pte_type (m (slot t j)) then Some (m (slot t j)) else None)"

text \<open>Blocks occur in the tables of the third level only, and every table of pages holds a page.\<close>

definition blocks_ok :: "(u64 \<Rightarrow> u64) \<Rightarrow> u64 set \<Rightarrow> bool" where
  "blocks_ok m roots \<longleftrightarrow> (\<forall>r\<in>roots. \<forall>p t i. indices p \<and> length p \<le> 3 \<and> length p \<noteq> 2 \<and> node m r p = Some t \<and> i < 512 \<and>
     pte_valid (m (slot t i)) \<longrightarrow> pte_type (m (slot t i)))"

definition no_empty_table :: "(u64 \<Rightarrow> u64) \<Rightarrow> u64 set \<Rightarrow> bool" where
  "no_empty_table m roots \<longleftrightarrow> (\<forall>r\<in>roots. \<forall>p t. indices p \<and> length p = 3 \<and> node m r p = Some t \<longrightarrow>
     (\<exists>i<512. leaf (tables m) r p i \<noteq> None))"

definition boot_region :: "symbols \<Rightarrow> bool" where
  "boot_region y \<longleftrightarrow> static_page_region_start_phys y AND 0xFFF = 0 \<and> unat (static_page_region_start_phys y) + 100 * 4096 \<le> 2 ^ 30"

definition boot_page :: "symbols \<Rightarrow> nat \<Rightarrow> u64" where
  "boot_page y k = drop_bit 12 (static_page_region_start_phys y) + of_nat k"

definition boot_tables :: "symbols \<Rightarrow> u64 set \<Rightarrow> boot \<Rightarrow> bool" where
  "boot_tables y roots st \<longleftrightarrow> boot_region y \<and> forest (tables (bt_mem st)) roots \<and> blocks_ok (bt_mem st) roots \<and>
     (\<forall>r\<in>roots. \<forall>p t. indices p \<and> length p \<le> 3 \<and> node (bt_mem st) r p = Some t \<longrightarrow>
        (\<exists>k<lo_allocated_pages st. t = boot_page y k))"

lemma boot_tablesD:
  assumes "boot_tables y roots st"
  shows "boot_region y" "forest (tables (bt_mem st)) roots" "blocks_ok (bt_mem st) roots"
    "\<And>r p t. r \<in> roots \<Longrightarrow> indices p \<Longrightarrow> length p \<le> 3 \<Longrightarrow> node (bt_mem st) r p = Some t \<Longrightarrow>
       \<exists>k<lo_allocated_pages st. t = boot_page y k"
  using assms unfolding boot_tables_def by blast+

lemma boot_tablesI:
  "boot_region y \<Longrightarrow> forest (tables (bt_mem st)) roots \<Longrightarrow> blocks_ok (bt_mem st) roots \<Longrightarrow>
   (\<And>r p t. r \<in> roots \<Longrightarrow> indices p \<Longrightarrow> length p \<le> 3 \<Longrightarrow> node (bt_mem st) r p = Some t \<Longrightarrow>
      \<exists>k<lo_allocated_pages st. t = boot_page y k) \<Longrightarrow> boot_tables y roots st"
  unfolding boot_tables_def by blast

lemma blocks_okD:
  "blocks_ok m roots \<Longrightarrow> r \<in> roots \<Longrightarrow> indices p \<Longrightarrow> length p \<le> 3 \<Longrightarrow> length p \<noteq> 2 \<Longrightarrow> node m r p = Some t \<Longrightarrow> i < 512 \<Longrightarrow>
   pte_valid (m (slot t i)) \<Longrightarrow> pte_type (m (slot t i))"
  unfolding blocks_ok_def by blast

section \<open>Taking a table\<close>

lemma unat_boot_page:
  assumes "boot_region y" and "k < 100"
  shows "unat (boot_page y k) = unat (static_page_region_start_phys y) div 4096 + k" "boot_page y k < 2 ^ 18"
proof -
  let ?s = "unat (static_page_region_start_phys y)"
  have "?s div 4096 \<le> 1073332224 div 4096" using assms(1) by (intro div_le_mono) (simp add: boot_region_def)
  then have s: "?s div 4096 + k < 2 ^ 18" using assms(2) by simp
  have d: "unat (drop_bit 12 (static_page_region_start_phys y)) = ?s div 4096"
    by (simp add: unat_drop_bit_eq drop_bit_eq_div [where 'a = nat])
  show u: "unat (boot_page y k) = ?s div 4096 + k"
    using s d by (simp add: boot_page_def unat_word_ariths unsigned_of_nat take_bit_nat_eq_self)
  show "boot_page y k < 2 ^ 18" using s by (simp add: word_less_nat_alt u)
qed

lemma boot_page_inj:
  "boot_region y \<Longrightarrow> j < 100 \<Longrightarrow> k < 100 \<Longrightarrow> boot_page y j = boot_page y k \<longleftrightarrow> j = k"
  using unat_boot_page(1) [of y j] unat_boot_page(1) [of y k] by (metis add_left_cancel)

lemma unat_push_12: "f < 2 ^ 18 \<Longrightarrow> unat (push_bit 12 f :: u64) = unat f * 4096"
  by (simp add: push_bit_eq_mult unat_word_ariths word_less_nat_alt mult.commute)

lemma push_boot_page:
  assumes "boot_region y" and "k < 100"
  shows "push_bit 12 (boot_page y k) = static_page_region_start_phys y + 0x1000 * of_nat k"
proof -
  have a: "unat (static_page_region_start_phys y) mod 4096 = 0"
    using assms(1) unfolding boot_region_def low_bits by blast
  have u: "unat (push_bit 12 (boot_page y k)) = (unat (static_page_region_start_phys y) div 4096 + k) * 4096"
    using unat_push_12 [OF unat_boot_page(2) [OF assms]] unat_boot_page(1) [OF assms] by simp
  have "(unat (static_page_region_start_phys y) div 4096 + k) * 4096 = unat (static_page_region_start_phys y) + 4096 * k"
    using a by (simp add: algebra_simps minus_mod_eq_mult_div [symmetric])
  moreover have "unat (static_page_region_start_phys y + 0x1000 * of_nat k) = unat (static_page_region_start_phys y) + 4096 * k"
    using assms by (simp add: unat_word_ariths unsigned_of_nat take_bit_nat_eq_self boot_region_def)
  ultimately show ?thesis using u by (simp only: word_unat_eq_iff)
qed

lemma in_page_iff:
  assumes "f < 2 ^ 18"
  shows "a - push_bit 12 f < 0x1000 \<longleftrightarrow> page_of a = f"
proof -
  have f: "unat f < 2 ^ 18" using assms by (simp add: word_less_nat_alt)
  note p = unat_push_12 [OF assms]
  have a: "unat (page_of a) = unat a div 4096"
    unfolding page_of_def unat_drop_bit_eq by (simp only: drop_bit_eq_div [where 'a = nat]) simp
  have "unat (a - push_bit 12 f) < 4096 \<longleftrightarrow> unat a div 4096 = unat f"
  proof (cases "unat f * 4096 \<le> unat a")
    case True
    then have "unat (a - push_bit 12 f) = unat a - unat f * 4096" using p by (simp add: unat_sub word_le_nat_alt)
    then show ?thesis using True by (auto simp: div_nat_eqI)
  next
    case False
    have "unat (a - push_bit 12 f) = 2 ^ 64 + unat a - unat f * 4096"
      using False p f by (subst unat_sub_if') (simp add: word_le_nat_alt)
    moreover have "unat a div 4096 \<noteq> unat f" using False by (metis div_times_less_eq_dividend)
    ultimately show ?thesis using f by simp
  qed
  then show ?thesis unfolding word_less_nat_alt word_unat_eq_iff [of "page_of a"] a by simp
qed

lemma alloc_lo_ok:
  assumes y: "boot_region y" and k: "lo_allocated_pages st < 100"
  defines "f \<equiv> boot_page y (lo_allocated_pages st)"
  shows "alloc_page_table_lo y st =
    Inr (push_bit 12 f, st\<lparr>lo_allocated_pages := lo_allocated_pages st + 1, bt_mem := zero_page f (bt_mem st)\<rparr>)"
proof -
  note p = push_boot_page [OF y k, folded f_def] and f = unat_boot_page [OF y k, folded f_def]
  have "push_bit 12 f < 2 ^ 30"
    using f(1) k y p by (simp add: word_less_nat_alt unat_word_ariths unsigned_of_nat take_bit_nat_eq_self boot_region_def)
  then show ?thesis unfolding alloc_page_table_lo_def Let_def p [symmetric]
    by (simp add: in_ram_def zero_page_def in_page_iff [OF f(2)])
qed

lemma rd_lo_slot: "t < 2 ^ 18 \<Longrightarrow> i < 512 \<Longrightarrow> rd_lo (push_bit 12 t + 8 * i) st = Inr (bt_mem st (slot t i))"
  by (simp add: rd_lo_def slot_in_ram slot_def [symmetric])

lemma wr_lo_slot: "t < 2 ^ 18 \<Longrightarrow> i < 512 \<Longrightarrow>
    wr_lo (push_bit 12 t + 8 * i) v st = Inr (st\<lparr>bt_mem := (bt_mem st)(slot t i := v)\<rparr>)"
  by (simp add: wr_lo_def slot_in_ram slot_def [symmetric])

lemma table_mapping: "pte_valid (set_address k_code_table_mapping f)" "pte_type (set_address k_code_table_mapping f)"
  by (simp_all add: k_code_table_mapping_def set_address_def pte_valid_def pte_type_def bit_put_field)

lemma pte_address_set: "f < 2 ^ 18 \<Longrightarrow> pte_address (set_address e f) = f"
  using drop_push_12(2) by (simp add: pte_address_def set_address_def get_put_same)

text \<open>What a step of the code may change: not the pages, and not the blocks.\<close>

definition same_maps :: "u64 set \<Rightarrow> (u64 \<Rightarrow> u64) \<Rightarrow> (u64 \<Rightarrow> u64) \<Rightarrow> bool" where
  "same_maps roots m m' \<longleftrightarrow> (\<forall>s\<in>roots. \<forall>q j. indices q \<and> j < 512 \<longrightarrow>
     (length q = 3 \<longrightarrow> leaf (tables m') s q j = leaf (tables m) s q j) \<and>
     (length q = 2 \<longrightarrow> block_at m' s q j = block_at m s q j))"

lemma same_maps_trans: "same_maps R a b \<Longrightarrow> same_maps R b c \<Longrightarrow> same_maps R a c"
  by (simp add: same_maps_def)

lemma boot_can_link:
  assumes bt: "boot_tables y roots st" and k: "lo_allocated_pages st < 100" and r: "r \<in> roots" and p: "indices p" "length p < 3"
    and t: "node (bt_mem st) r p = Some t" and i: "i < 512" and nv: "\<not> pte_valid (bt_mem st (slot t i))"
  shows "can_link (tables (bt_mem st)) roots r p t i (boot_page y (lo_allocated_pages st))"
proof -
  note b = boot_tablesD [OF bt]
  have "unused_table (tables (bt_mem st)) roots (boot_page y (lo_allocated_pages st))"
    unfolding unused_table_def node_tables
  proof (intro ballI allI impI notI)
    fix s q assume s: "s \<in> roots" "indices q \<and> length q \<le> 3"
      "node (bt_mem st) s q = Some (boot_page y (lo_allocated_pages st))"
    then obtain j where j: "j < lo_allocated_pages st" "boot_page y (lo_allocated_pages st) = boot_page y j" using b(4) by blast
    then show False using boot_page_inj [OF b(1) k, of j] k by simp
  qed
  then show ?thesis
    using b(2) r p t i nv unat_boot_page(2) [OF b(1) k] by (simp add: can_link_def)
qed

lemma link_block:
  assumes c: "can_link (tables m) roots r p t i f" and nv: "\<not> pte_valid (m (slot t i))"
    and e: "pte_valid e" "pte_type e" "pte_address e = f" and s: "s \<in> roots" and q: "indices q" "length q \<le> 3" and j: "j < 512"
    and u: "node (link_table t i e m) s q = Some u"
  shows "(q = p @ [i] \<and> s = r \<and> u = f \<and> link_table t i e m (slot u j) = 0) \<or>
    (node m s q = Some u \<and> link_table t i e m (slot u j) = (if u = t \<and> j = i then e else m (slot u j)))"
proof -
  note cl = can_linkD [OF c]
  have n: "node (link_table t i e m) s q = node (link_table t i e (tables m)) s q"
    using node_tables [of "link_table t i e m" s q] tables_link [OF e(1,2)] by simp
  note ln = link_node [OF c e s q, folded n]
  show ?thesis
  proof (cases "s = r \<and> q = p @ [i]")
    case True
    then have "u = f" using ln u by simp
    moreover have "link_table t i e m (slot f j) = 0"
      using e(3) cl(8-10) j cl(6) slot_inj [of f j t i] by (auto simp: link_table_def zero_page_slot)
    ultimately show ?thesis using True by blast
  next
    case False
    then have o: "node m s q = Some u" using ln u by (auto split: if_splits)
    have "u < 2 ^ 18" using forest_range [OF cl(1) s q, of u] o by simp
    moreover have "u \<noteq> f" using cl(11) [OF s q] o by auto
    ultimately have "link_table t i e m (slot u j) = (if u = t \<and> j = i then e else m (slot u j))"
      using slot_inj [of u j t i] cl(6,9) j e(3) by (auto simp: link_table_def zero_page_slot)
    then show ?thesis using o by blast
  qed
qed

lemma link_same_maps:
  assumes c: "can_link (tables m) roots r p t i f" and nv: "\<not> pte_valid (m (slot t i))"
    and e: "pte_valid e" "pte_type e" "pte_address e = f"
  shows "same_maps roots m (link_table t i e m)"
  unfolding same_maps_def
proof (intro ballI allI impI conjI)
  fix s q and j :: u64 assume s: "s \<in> roots" and q: "indices q \<and> j < 512" and l: "length q = 3"
  then show "leaf (tables (link_table t i e m)) s q j = leaf (tables m) s q j"
    unfolding tables_link [OF e(1,2)] using link_leaf [OF c e s, of q j] by simp
next
  fix s q and j :: u64 assume s: "s \<in> roots" and q: "indices q \<and> j < 512" and l: "length q = 2"
  note cl = can_linkD [OF c]
  have gone: "node m r (p @ [i]) = None" using nv cl(5) by (simp add: node_append)
  have n: "node (link_table t i e m) s q = node (link_table t i e (tables m)) s q"
    using node_tables [of "link_table t i e m" s q] tables_link [OF e(1,2)] by simp
  show "block_at (link_table t i e m) s q j = block_at m s q j"
  proof (cases "node (link_table t i e m) s q")
    case None
    have "q = p @ i # a # z \<Longrightarrow> node m r q = None" for a z
      using node_prefix_None [OF gone, of "a # z"] by simp
    then have "node m s q = None" using None link_node [OF c e s, of q] q l unfolding n by (auto split: if_splits)
    then show ?thesis using None by (simp add: block_at_def)
  next
    case (Some u)
    from link_block [OF c nv e s _ _ _ Some, of j] q l
    consider "q = p @ [i]" "s = r" "link_table t i e m (slot u j) = 0"
      | "node m s q = Some u" "link_table t i e m (slot u j) = (if u = t \<and> j = i then e else m (slot u j))" by auto
    then show ?thesis
      by cases (use Some gone nv e in \<open>auto simp: block_at_def\<close>)
  qed
qed

lemma boot_link:
  assumes bt: "boot_tables y roots st" and k: "lo_allocated_pages st < 100" and r: "r \<in> roots" and p: "indices p" "length p < 3"
    and t: "node (bt_mem st) r p = Some t" and i: "i < 512" and nv: "\<not> pte_valid (bt_mem st (slot t i))"
  defines "f \<equiv> boot_page y (lo_allocated_pages st)"
  defines "m' \<equiv> link_table t i (set_address k_code_table_mapping f) (bt_mem st)"
  shows "boot_tables y roots (st\<lparr>lo_allocated_pages := lo_allocated_pages st + 1, bt_mem := m'\<rparr>)"
    "node m' r (p @ [i]) = Some f" "same_maps roots (bt_mem st) m'"
    "\<And>s q u. s \<in> roots \<Longrightarrow> indices q \<Longrightarrow> length q \<le> 3 \<Longrightarrow> node m' s q = Some u \<Longrightarrow>
       node (bt_mem st) s q = Some u \<or> s = r \<and> q = p @ [i]"
proof -
  note b = boot_tablesD [OF bt]
  let ?e = "set_address k_code_table_mapping f"
  note c = boot_can_link [OF bt k r p t i nv, folded f_def]
  have f: "f < 2 ^ 18" unfolding f_def by (rule unat_boot_page(2) [OF b(1) k])
  have e: "pte_valid ?e" "pte_type ?e" "pte_address ?e = f" using pte_address_set [OF f] table_mapping by auto
  have tm: "tables m' = link_table t i ?e (tables (bt_mem st))" unfolding m'_def by (rule tables_link [OF e(1,2)])
  note lb = link_block [OF c nv e, folded m'_def]
  have "blocks_ok m' roots"
    unfolding blocks_ok_def
  proof (intro ballI allI impI)
    fix s q u j
    assume s: "s \<in> roots" and a: "indices q \<and> length q \<le> 3 \<and> length q \<noteq> 2 \<and> node m' s q = Some u \<and> j < 512 \<and> pte_valid (m' (slot u j))"
    from lb [OF s, of q j u] a consider "m' (slot u j) = 0"
      | "node (bt_mem st) s q = Some u" "m' (slot u j) = (if u = t \<and> j = i then ?e else bt_mem st (slot u j))" by auto
    then show "pte_type (m' (slot u j))"
    proof cases
      case 2
      then show ?thesis using a e blocks_okD [OF b(3) s, of q u j] by auto
    qed (use a in simp)
  qed
  moreover have "\<exists>k<lo_allocated_pages st + 1. u = boot_page y k"
    if s: "s \<in> roots" "indices q" "length q \<le> 3" "node m' s q = Some u" for s q u
    using lb [OF s(1,2,3) _ s(4), of 0] b(4) [OF s(1,2,3), of u] by (auto simp: f_def intro: less_SucI)
  ultimately show "boot_tables y roots (st\<lparr>lo_allocated_pages := lo_allocated_pages st + 1, bt_mem := m'\<rparr>)"
    using b(1) link_forest [OF c e] unfolding boot_tables_def by (auto simp: tm)
  show "same_maps roots (bt_mem st) m'" unfolding m'_def by (rule link_same_maps [OF c nv e])
  show "node (bt_mem st) s q = Some u \<or> s = r \<and> q = p @ [i]"
    if "s \<in> roots" "indices q" "length q \<le> 3" "node m' s q = Some u" for s q u
    using lb [OF that(1-3) _ that(4), of 0] by auto
  have "node (tables m') r (p @ [i]) = Some f" unfolding tm using link_node [OF c e r, of "p @ [i]"] p i by simp
  then show "node m' r (p @ [i]) = Some f" by simp
qed

lemma boot_next:
  assumes bt: "boot_tables y roots st" and k: "lo_allocated_pages st < 100" and r: "r \<in> roots" and p: "indices p" "length p < 3"
    and t: "node (bt_mem st) r p = Some t" and i: "i < 512"
    and nb: "pte_valid (bt_mem st (slot t i)) \<Longrightarrow> pte_type (bt_mem st (slot t i))"
  shows "\<exists>t' st'. next_table_lo y k_code_table_mapping (push_bit 12 t) i st = Inr (push_bit 12 t', st') \<and>
    boot_tables y roots st' \<and> node (bt_mem st') r (p @ [i]) = Some t' \<and> same_maps roots (bt_mem st) (bt_mem st') \<and>
    (\<forall>s\<in>roots. \<forall>q u. indices q \<and> length q \<le> 3 \<and> node (bt_mem st') s q = Some u \<longrightarrow>
       node (bt_mem st) s q = Some u \<or> s = r \<and> q = p @ [i]) \<and>
    (if node (bt_mem st) r (p @ [i]) = None
     then lo_allocated_pages st' = lo_allocated_pages st + 1 \<and> (\<forall>j<512. \<not> pte_valid (bt_mem st' (slot t' j)))
     else st' = st)"
proof -
  note b = boot_tablesD [OF bt]
  have t18: "t < 2 ^ 18" using forest_range [OF b(2) r p(1), of t] p(2) t by simp
  show ?thesis
  proof (cases "pte_valid (bt_mem st (slot t i))")
    case True
    then have "node (bt_mem st) r (p @ [i]) = Some (pte_address (bt_mem st (slot t i)))"
      using nb t by (simp add: node_append)
    moreover have "same_maps roots (bt_mem st) (bt_mem st)" by (simp add: same_maps_def)
    ultimately show ?thesis
      using True bt by (simp add: next_table_lo_def rd_lo_slot [OF t18 i])
  next
    case False
    define f where "f = boot_page y (lo_allocated_pages st)"
    define st' where "st' = st\<lparr>lo_allocated_pages := lo_allocated_pages st + 1,
      bt_mem := link_table t i (set_address k_code_table_mapping f) (bt_mem st)\<rparr>"
    note bl = boot_link [OF bt k r p t i False, folded f_def]
    have f: "f < 2 ^ 18" unfolding f_def by (rule unat_boot_page(2) [OF b(1) k])
    note c = can_linkD [OF boot_can_link [OF bt k r p t i False, folded f_def]]
    have e: "pte_address (set_address k_code_table_mapping f) = f" by (rule pte_address_set [OF f])
    have gone: "node (bt_mem st) r (p @ [i]) = None" using False t by (simp add: node_append)
    have z: "link_table t i (set_address k_code_table_mapping f) (bt_mem st) (slot f j) = 0" if "j < 512" for j
      using e c(8-10) that i slot_inj [of f j t i] by (auto simp: link_table_def zero_page_slot)
    have "next_table_lo y k_code_table_mapping (push_bit 12 t) i st = Inr (push_bit 12 f, st')"
      unfolding next_table_lo_def rd_lo_slot [OF t18 i] alloc_lo_ok [OF b(1) k] f_def [symmetric]
      using False drop_push_12(1) [OF f] e
      by (simp add: wr_lo_slot [OF t18 i] rd_lo_slot [OF t18 i] st'_def link_table_def)
    then show ?thesis
      using bl(1-3) bl(4) gone z by (intro exI [of _ f] exI [of _ st']) (simp add: st'_def)
  qed
qed

section \<open>Writing a page or a block\<close>

lemma boot_put_page:
  assumes bt: "boot_tables y roots st" and r: "r \<in> roots" and p: "indices p" "length p = 3" and t: "node (bt_mem st) r p = Some t"
    and i: "i < 512" and e: "pte_valid e" "pte_type e"
  defines "m' \<equiv> (bt_mem st)(slot t i := e)"
  shows "boot_tables y roots (st\<lparr>bt_mem := m'\<rparr>)"
    "\<And>s q. s \<in> roots \<Longrightarrow> indices q \<Longrightarrow> length q \<le> 3 \<Longrightarrow> node m' s q = node (bt_mem st) s q"
    "\<And>s q j. s \<in> roots \<Longrightarrow> indices q \<Longrightarrow> length q = 3 \<Longrightarrow> j < 512 \<Longrightarrow>
       leaf (tables m') s q j = (if s = r \<and> q = p \<and> j = i then Some e else leaf (tables (bt_mem st)) s q j)"
    "\<And>s q j. s \<in> roots \<Longrightarrow> indices q \<Longrightarrow> length q = 2 \<Longrightarrow> j < 512 \<Longrightarrow> block_at m' s q j = block_at (bt_mem st) s q j"
proof -
  let ?m = "bt_mem st"
  note b = boot_tablesD [OF bt]
  have tm: "tables m' = (tables ?m)(slot t i := e)" unfolding m'_def by (rule tables_table [OF e])
  have t': "node (tables ?m) r p = Some t" using t by simp
  note pe = put_leaf_effect [OF b(2) r p t' i e(1), folded tm]
  show n: "\<And>s q. s \<in> roots \<Longrightarrow> indices q \<Longrightarrow> length q \<le> 3 \<Longrightarrow> node m' s q = node ?m s q"
    using pe(2) by simp
  show "\<And>s q j. s \<in> roots \<Longrightarrow> indices q \<Longrightarrow> length q = 3 \<Longrightarrow> j < 512 \<Longrightarrow>
       leaf (tables m') s q j = (if s = r \<and> q = p \<and> j = i then Some e else leaf (tables ?m) s q j)"
    by (rule pe(3))
  have t18: "t < 2 ^ 18" using forest_range [OF b(2) r p(1), of t] p(2) t by simp
  have at: "m' (slot u j) = (if u = t \<and> j = i then e else ?m (slot u j))"
    if "s \<in> roots" "indices q" "length q \<le> 3" "node ?m s q = Some u" "j < 512" for s q u j
    using slot_inj [of u j t i] forest_range [OF b(2) that(1-3), of u] that(4,5) i t18 by (auto simp: m'_def)
  have "blocks_ok m' roots"
    unfolding blocks_ok_def
  proof (intro ballI allI impI)
    fix s q u j assume s: "s \<in> roots"
      and a: "indices q \<and> length q \<le> 3 \<and> length q \<noteq> 2 \<and> node m' s q = Some u \<and> j < 512 \<and> pte_valid (m' (slot u j))"
    then show "pte_type (m' (slot u j))"
      using at [OF s, of q u j] n [OF s, of q] e blocks_okD [OF b(3) s, of q u j] by auto
  qed
  moreover have "\<exists>k<lo_allocated_pages st. u = boot_page y k"
    if "s \<in> roots" "indices q" "length q \<le> 3" "node m' s q = Some u" for s q u
    using b(4) [OF that(1-3)] n [OF that(1-3)] that(4) by simp
  ultimately show "boot_tables y roots (st\<lparr>bt_mem := m'\<rparr>)"
    using b(1) pe(1) by (intro boot_tablesI) simp_all
  show "block_at m' s q j = block_at ?m s q j" if s: "s \<in> roots" "indices q" "length q = 2" "j < 512" for s q j
  proof -
    have "u \<noteq> t" if "node ?m s q = Some u" for u
      using forest_unique [OF b(2) s(1) r s(2) _ p(1), of u] p(2) s(3) t that by auto
    then show ?thesis using n [OF s(1,2)] at [OF s(1,2)] s(3,4) by (cases "node ?m s q") (simp_all add: block_at_def)
  qed
qed

lemma boot_put_block:
  assumes bt: "boot_tables y roots st" and r: "r \<in> roots" and p: "indices p" "length p = 2" and t: "node (bt_mem st) r p = Some t"
    and i: "i < 512" and e: "pte_valid e" "\<not> pte_type e" and nv: "\<not> pte_valid (bt_mem st (slot t i))"
  defines "m' \<equiv> (bt_mem st)(slot t i := e)"
  shows "boot_tables y roots (st\<lparr>bt_mem := m'\<rparr>)" "tables m' = tables (bt_mem st)"
    "\<And>s q j. s \<in> roots \<Longrightarrow> indices q \<Longrightarrow> length q = 2 \<Longrightarrow> j < 512 \<Longrightarrow>
       block_at m' s q j = (if s = r \<and> q = p \<and> j = i then Some e else block_at (bt_mem st) s q j)"
proof -
  let ?m = "bt_mem st"
  note b = boot_tablesD [OF bt]
  show tm: "tables m' = tables ?m" unfolding m'_def by (rule tables_block) (use e nv in auto)
  have n: "node m' s q = node ?m s q" for s q using node_tables [of m' s q] tm by simp
  have t18: "t < 2 ^ 18" using forest_range [OF b(2) r p(1), of t] p(2) t by simp
  have at: "m' (slot u j) = (if u = t \<and> j = i then e else ?m (slot u j))"
    if "s \<in> roots" "indices q" "length q \<le> 3" "node ?m s q = Some u" "j < 512" for s q u j
    using slot_inj [of u j t i] forest_range [OF b(2) that(1-3), of u] that(4,5) i t18 by (auto simp: m'_def)
  have path: "s = r \<and> q = p" if "s \<in> roots" "indices q" "length q \<le> 3" "node ?m s q = Some t" for s q
    using forest_unique [OF b(2) that(1) r that(2,3) p(1), of t] p(2) t that(4) by auto
  have "blocks_ok m' roots"
    unfolding blocks_ok_def n
  proof (intro ballI allI impI)
    fix s q u j assume s: "s \<in> roots"
      and a: "indices q \<and> length q \<le> 3 \<and> length q \<noteq> 2 \<and> node ?m s q = Some u \<and> j < 512 \<and> pte_valid (m' (slot u j))"
    then show "pte_type (m' (slot u j))"
      using at [OF s, of q u j] path [OF s, of q] p(2) blocks_okD [OF b(3) s, of q u j] by auto
  qed
  then show "boot_tables y roots (st\<lparr>bt_mem := m'\<rparr>)"
    using b(1,2,4) by (intro boot_tablesI) (simp_all add: tm n)
  show "block_at m' s q j = (if s = r \<and> q = p \<and> j = i then Some e else block_at ?m s q j)"
    if s: "s \<in> roots" "indices q" "length q = 2" "j < 512" for s q j
  proof (cases "node ?m s q")
    case None
    then show ?thesis using t by (auto simp: block_at_def n)
  next
    case (Some u)
    have "u = t \<Longrightarrow> s = r \<and> q = p" using path [OF s(1,2)] s(3) Some by simp
    then show ?thesis using at [OF s(1,2) _ Some s(4)] Some t e s(3) by (auto simp: block_at_def n)
  qed
qed

section \<open>What a table maps\<close>

definition access :: "u64 \<Rightarrow> u64 \<times> bool" where "access e = (get_field 6 2 e, bit e 53)"

text \<open>The physical page and the permissions at an address, through a page or through a block.\<close>

definition boot_view :: "(u64 \<Rightarrow> u64) \<Rightarrow> u64 \<Rightarrow> u64 \<Rightarrow> (u64 \<times> u64 \<times> bool) option" where
  "boot_view m r va =
     (case aspace (tables m) r va of
        Some e \<Rightarrow> Some (pte_address e, access e)
      | None \<Rightarrow> map_option (\<lambda>e. ((pte_address e AND NOT (mask 9)) OR pt_index 3 va, access e))
                  (block_at m r [pt_index 0 va, pt_index 1 va] (pt_index 2 va)))"

definition boot_inv :: "symbols \<Rightarrow> u64 set \<Rightarrow> boot \<Rightarrow> bool" where
  "boot_inv y roots st \<longleftrightarrow> boot_tables y roots st \<and> no_empty_table (bt_mem st) roots"

lemma view_same_page: "same_page a b \<Longrightarrow> boot_view m r a = boot_view m r b"
proof -
  assume s: "same_page a b"
  then have e: "pt_index 0 a = pt_index 0 b" "pt_index 1 a = pt_index 1 b" "pt_index 2 a = pt_index 2 b" "pt_index 3 a = pt_index 3 b"
    by (simp_all add: same_page_def pt_path_def del: One_nat_def)
  show ?thesis unfolding boot_view_def aspace_same_page [OF s] e ..
qed

lemma same_mapsD:
  assumes "same_maps roots m m'" and "s \<in> roots"
  shows "aspace (tables m') s a = aspace (tables m) s a"
    "block_at m' s [pt_index 0 a, pt_index 1 a] (pt_index 2 a) = block_at m s [pt_index 0 a, pt_index 1 a] (pt_index 2 a)"
proof -
  have "indices (pt_path a) \<and> pt_index 3 a < 512" "length (pt_path a) = 3" by simp_all
  then show "aspace (tables m') s a = aspace (tables m) s a" using assms unfolding same_maps_def aspace_def by blast
  have "indices [pt_index 0 a, pt_index 1 a] \<and> pt_index 2 a < 512" "length [pt_index 0 a, pt_index 1 a] = 2" by simp_all
  then show "block_at m' s [pt_index 0 a, pt_index 1 a] (pt_index 2 a) = block_at m s [pt_index 0 a, pt_index 1 a] (pt_index 2 a)"
    using assms unfolding same_maps_def by blast
qed

lemma view_same_maps: "same_maps roots m m' \<Longrightarrow> s \<in> roots \<Longrightarrow> boot_view m' s a = boot_view m s a"
  unfolding boot_view_def by (simp only: same_mapsD)

lemma view_None:
  assumes "boot_view m r va = None"
  shows "aspace (tables m) r va = None" "block_at m r [pt_index 0 va, pt_index 1 va] (pt_index 2 va) = None"
  using assms by (auto simp: boot_view_def split: option.splits)

lemma node_prefixD: "node m r (p @ q) \<noteq> None \<Longrightarrow> node m r p \<noteq> None"
  by (erule contrapos_nn) (rule node_prefix_None)

lemma boot_descend:
  assumes bt: "boot_tables y roots st" and k: "lo_allocated_pages st + 2 \<le> 100" and r: "r \<in> roots"
  shows "\<exists>t1 s1 t2 s2. next_table_lo y k_code_table_mapping (push_bit 12 r) (pt_index 0 va) st = Inr (push_bit 12 t1, s1) \<and>
    next_table_lo y k_code_table_mapping (push_bit 12 t1) (pt_index 1 va) s1 = Inr (push_bit 12 t2, s2) \<and>
    boot_tables y roots s2 \<and> node (bt_mem s2) r [pt_index 0 va, pt_index 1 va] = Some t2 \<and>
    same_maps roots (bt_mem st) (bt_mem s2) \<and> lo_allocated_pages s2 \<le> lo_allocated_pages st + 2 \<and>
    (\<forall>s\<in>roots. \<forall>q u. indices q \<and> length q = 3 \<and> node (bt_mem s2) s q = Some u \<longrightarrow> node (bt_mem st) s q = Some u) \<and>
    (if node (bt_mem st) r [pt_index 0 va, pt_index 1 va] = None then \<forall>j<512. \<not> pte_valid (bt_mem s2 (slot t2 j)) else s2 = st)"
proof -
  let ?i0 = "pt_index 0 va" and ?i1 = "pt_index 1 va"
  have k0: "lo_allocated_pages st < 100" using k by simp
  have nb0: "pte_valid (bt_mem st (slot r ?i0)) \<Longrightarrow> pte_type (bt_mem st (slot r ?i0))"
    by (rule blocks_okD [OF boot_tablesD(3) [OF bt] r, of "[]"]) simp_all
  from boot_next [OF bt k0 r _ _ _ _ nb0, of "[]"] obtain t1 s1 where
    s1: "next_table_lo y k_code_table_mapping (push_bit 12 r) ?i0 st = Inr (push_bit 12 t1, s1)" "boot_tables y roots s1"
      "node (bt_mem s1) r [?i0] = Some t1" "same_maps roots (bt_mem st) (bt_mem s1)"
      "\<forall>s\<in>roots. \<forall>q u. indices q \<and> length q \<le> 3 \<and> node (bt_mem s1) s q = Some u \<longrightarrow> node (bt_mem st) s q = Some u \<or> s = r \<and> q = [?i0]"
      "if node (bt_mem st) r [?i0] = None
       then lo_allocated_pages s1 = lo_allocated_pages st + 1 \<and> (\<forall>j<512. \<not> pte_valid (bt_mem s1 (slot t1 j))) else s1 = st"
    by auto
  have k1: "lo_allocated_pages s1 < 100" using k s1(6) by (auto split: if_splits)
  have nb1: "pte_valid (bt_mem s1 (slot t1 ?i1)) \<Longrightarrow> pte_type (bt_mem s1 (slot t1 ?i1))"
    by (rule blocks_okD [OF boot_tablesD(3) [OF s1(2)] r _ _ _ s1(3)]) simp_all
  from boot_next [OF s1(2) k1 r _ _ s1(3) _ nb1] obtain t2 s2 where
    s2: "next_table_lo y k_code_table_mapping (push_bit 12 t1) ?i1 s1 = Inr (push_bit 12 t2, s2)" "boot_tables y roots s2"
      "node (bt_mem s2) r [?i0, ?i1] = Some t2" "same_maps roots (bt_mem s1) (bt_mem s2)"
      "\<forall>s\<in>roots. \<forall>q u. indices q \<and> length q \<le> 3 \<and> node (bt_mem s2) s q = Some u \<longrightarrow> node (bt_mem s1) s q = Some u \<or> s = r \<and> q = [?i0, ?i1]"
      "if node (bt_mem s1) r [?i0, ?i1] = None
       then lo_allocated_pages s2 = lo_allocated_pages s1 + 1 \<and> (\<forall>j<512. \<not> pte_valid (bt_mem s2 (slot t2 j))) else s2 = s1"
    by auto
  have ex: "if node (bt_mem st) r [?i0, ?i1] = None then \<forall>j<512. \<not> pte_valid (bt_mem s2 (slot t2 j)) else s2 = st"
  proof (cases "node (bt_mem st) r [?i0, ?i1]")
    case None
    have "node (bt_mem s1) r [?i0, ?i1] = None"
    proof (cases "node (bt_mem s1) r [?i0, ?i1]")
      case (Some u)
      have "indices [?i0, ?i1] \<and> length [?i0, ?i1] \<le> 3" "[?i0, ?i1] \<noteq> [?i0]" by simp_all
      then have "node (bt_mem st) r [?i0, ?i1] = Some u" using s1(5) r Some by blast
      then show ?thesis using None by simp
    qed
    then show ?thesis using None s2(6) by simp
  next
    case (Some u)
    then have "node (bt_mem st) r [?i0] \<noteq> None"
      using node_prefixD [of "bt_mem st" r "[?i0]" "[?i1]"] unfolding append_Cons append_Nil by (metis option.distinct(1))
    then have "s1 = st" using s1(6) by (simp split: if_splits)
    then show ?thesis using s2(6) Some by simp
  qed
  have gr: "\<forall>s\<in>roots. \<forall>q u. indices q \<and> length q = 3 \<and> node (bt_mem s2) s q = Some u \<longrightarrow> node (bt_mem st) s q = Some u"
  proof (intro ballI allI impI)
    fix s q u assume s: "s \<in> roots" and a: "indices q \<and> length q = 3 \<and> node (bt_mem s2) s q = Some u"
    then have "node (bt_mem s1) s q = Some u" using s2(5) by fastforce
    then show "node (bt_mem st) s q = Some u" using s1(5) s a by fastforce
  qed
  have lo: "lo_allocated_pages s2 \<le> lo_allocated_pages st + 2" using s1(6) s2(6) by (auto split: if_splits)
  have sm: "same_maps roots (bt_mem st) (bt_mem s2)" by (rule same_maps_trans [OF s1(4) s2(4)])
  show ?thesis using s1(1) s2(1-3) sm lo gr ex by blast
qed

lemma pte_path: "pt_path va = [pt_index 0 va, pt_index 1 va] @ [pt_index 2 va]"
  by (simp add: pt_path_def)

lemma map_l3_page_ok:
  assumes inv: "boot_inv y roots st" and k: "lo_allocated_pages st + 3 \<le> 100" and r: "r \<in> roots"
    and e: "pte_valid ptme" "pte_type ptme" and none: "boot_view (bt_mem st) r va = None"
  shows "\<exists>st'. map_l3_page y ptme va pa (push_bit 12 r) st = Inr st' \<and> boot_inv y roots st' \<and>
    node (bt_mem st') r (pt_path va) \<noteq> None \<and> lo_allocated_pages st' \<le> lo_allocated_pages st + 3 \<and>
    (node (bt_mem st) r (pt_path va) \<noteq> None \<longrightarrow> lo_allocated_pages st' = lo_allocated_pages st) \<and>
    (\<forall>s\<in>roots. \<forall>a. boot_view (bt_mem st') s a =
       (if s = r \<and> same_page a va then Some (pte_address (set_address ptme (drop_bit 12 pa)), access (set_address ptme (drop_bit 12 pa)))
        else boot_view (bt_mem st) s a))"
proof -
  let ?p = "[pt_index 0 va, pt_index 1 va]" and ?i2 = "pt_index 2 va" and ?i3 = "pt_index 3 va"
  let ?e = "set_address ptme (drop_bit 12 pa)"
  have bt: "boot_tables y roots st" and ne: "no_empty_table (bt_mem st) roots" using inv by (simp_all add: boot_inv_def)
  have k2: "lo_allocated_pages st + 2 \<le> 100" using k by simp
  from boot_descend [OF bt k2 r, of va] obtain t1 s1 t2 s2 where
    d: "next_table_lo y k_code_table_mapping (push_bit 12 r) (pt_index 0 va) st = Inr (push_bit 12 t1, s1)"
      "next_table_lo y k_code_table_mapping (push_bit 12 t1) (pt_index 1 va) s1 = Inr (push_bit 12 t2, s2)"
      "boot_tables y roots s2" "node (bt_mem s2) r ?p = Some t2" "same_maps roots (bt_mem st) (bt_mem s2)"
      "lo_allocated_pages s2 \<le> lo_allocated_pages st + 2"
    and gr2: "\<forall>s\<in>roots. \<forall>q u. indices q \<and> length q = 3 \<and> node (bt_mem s2) s q = Some u \<longrightarrow> node (bt_mem st) s q = Some u"
    and ex2: "if node (bt_mem st) r ?p = None then \<forall>j<512. \<not> pte_valid (bt_mem s2 (slot t2 j)) else s2 = st" by blast
  have k3: "lo_allocated_pages s2 < 100" using k d(6) by simp
  have "block_at (bt_mem s2) r ?p ?i2 = None" using same_mapsD(2) [OF d(5) r] view_None(2) [OF none] by simp
  then have nb: "pte_valid (bt_mem s2 (slot t2 ?i2)) \<Longrightarrow> pte_type (bt_mem s2 (slot t2 ?i2))"
    using d(4) by (auto simp: block_at_def split: if_splits)
  have p: "indices ?p" "length ?p < 3" by simp_all
  from boot_next [OF d(3) k3 r p d(4) pt_index_less nb] obtain t3 s3 where
    s3: "next_table_lo y k_code_table_mapping (push_bit 12 t2) ?i2 s2 = Inr (push_bit 12 t3, s3)" "boot_tables y roots s3"
      "node (bt_mem s3) r (pt_path va) = Some t3" "same_maps roots (bt_mem s2) (bt_mem s3)"
    and gr3: "\<forall>s\<in>roots. \<forall>q u. indices q \<and> length q \<le> 3 \<and> node (bt_mem s3) s q = Some u \<longrightarrow>
       node (bt_mem s2) s q = Some u \<or> s = r \<and> q = pt_path va"
    and ex3: "if node (bt_mem s2) r (pt_path va) = None
       then lo_allocated_pages s3 = lo_allocated_pages s2 + 1 \<and> (\<forall>j<512. \<not> pte_valid (bt_mem s3 (slot t3 j))) else s3 = s2"
    unfolding pte_path [symmetric] by blast
  note sm = same_maps_trans [OF d(5) s3(4)]
  have t3: "t3 < 2 ^ 18" using forest_range [OF boot_tablesD(2) [OF s3(2)] r _ _, of "pt_path va" t3] s3(3) by simp
  have "aspace (tables (bt_mem s3)) r va = None" using same_mapsD(1) [OF sm r] view_None(1) [OF none] by simp
  then have "\<not> (pte_valid (bt_mem s3 (slot t3 ?i3)) \<and> pte_type (bt_mem s3 (slot t3 ?i3)))"
    using s3(3) by (auto simp: aspace_def leaf_def split: if_splits)
  then have nv: "\<not> pte_valid (bt_mem s3 (slot t3 ?i3))"
    using blocks_okD [OF boot_tablesD(3) [OF s3(2)] r _ _ _ s3(3)] by auto
  have ev: "pte_valid ?e" "pte_type ?e" using e by simp_all
  define st' where "st' = s3\<lparr>bt_mem := (bt_mem s3)(slot t3 ?i3 := ?e)\<rparr>"
  note pp = boot_put_page [OF s3(2) r indices_path s3(3) pt_index_less [of 3 va] ev]
  have run: "map_l3_page y ptme va pa (push_bit 12 r) st = Inr st'"
    unfolding map_l3_page_def d(1) bindR_simps prod.case d(2) s3(1) put_leaf_lo_def rd_lo_slot [OF t3 pt_index_less]
    using nv by (simp add: wr_lo_slot [OF t3] st'_def)
  have m': "bt_mem st' = (bt_mem s3)(slot t3 ?i3 := ?e)" by (simp add: st'_def)
  note pp = pp [folded m']
  have as: "aspace (tables (bt_mem st')) s a = (if s = r \<and> same_page a va then Some ?e else aspace (tables (bt_mem st)) s a)"
    if "s \<in> roots" for s a
  proof -
    have "leaf (tables (bt_mem st')) s (pt_path a) (pt_index 3 a) =
        (if s = r \<and> pt_path a = pt_path va \<and> pt_index 3 a = ?i3 then Some ?e
         else leaf (tables (bt_mem s3)) s (pt_path a) (pt_index 3 a))"
      by (rule pp(3)) (simp_all add: that)
    then show ?thesis using same_mapsD(1) [OF sm that, of a] by (auto simp: aspace_def same_page_def)
  qed
  have bl: "block_at (bt_mem st') s [pt_index 0 a, pt_index 1 a] (pt_index 2 a) = block_at (bt_mem st) s [pt_index 0 a, pt_index 1 a] (pt_index 2 a)"
    if "s \<in> roots" for s a
  proof -
    have "indices [pt_index 0 a, pt_index 1 a]" "length [pt_index 0 a, pt_index 1 a] = 2" by simp_all
    from pp(4) [OF that this pt_index_less [of 2 a]] show ?thesis unfolding same_mapsD(2) [OF sm that] .
  qed
  have view: "boot_view (bt_mem st') s a =
      (if s = r \<and> same_page a va then Some (pte_address ?e, access ?e) else boot_view (bt_mem st) s a)" if "s \<in> roots" for s a
    unfolding boot_view_def as [OF that] bl [OF that] by simp
  have "no_empty_table (bt_mem st') roots"
    unfolding no_empty_table_def
  proof (intro ballI allI impI)
    fix s q u assume s: "s \<in> roots" and a: "indices q \<and> length q = 3 \<and> node (bt_mem st') s q = Some u"
    then have n3: "node (bt_mem s3) s q = Some u" using pp(2) [OF s, of q] by simp
    have lf: "leaf (tables (bt_mem st')) s q j = (if s = r \<and> q = pt_path va \<and> j = ?i3 then Some ?e else leaf (tables (bt_mem st)) s q j)"
      if "j < 512" for j
      using pp(3) [OF s, of q j] sm s a that unfolding same_maps_def by simp
    show "\<exists>i<512. leaf (tables (bt_mem st')) s q i \<noteq> None"
    proof (cases "s = r \<and> q = pt_path va")
      case True
      then show ?thesis using lf [OF pt_index_less, of 3 va] by (intro exI [of _ ?i3]) simp
    next
      case False
      have "length q \<le> 3" using a by simp
      then have "node (bt_mem s2) s q = Some u" using gr3 n3 s a False by blast
      then have "node (bt_mem st) s q = Some u" using gr2 s a by blast
      then obtain i where "i < 512" "leaf (tables (bt_mem st)) s q i \<noteq> None" using ne s a unfolding no_empty_table_def by blast
      then show ?thesis using lf False by auto
    qed
  qed
  moreover have "boot_tables y roots st'" using pp(1) by (simp add: st'_def)
  moreover have "node (bt_mem st') r (pt_path va) \<noteq> None" using pp(2) [OF r indices_path(1), of va] s3(3) by simp
  moreover have "lo_allocated_pages st' \<le> lo_allocated_pages st + 3" using d(6) ex3 by (auto simp: st'_def split: if_splits)
  moreover have "lo_allocated_pages st' = lo_allocated_pages st" if "node (bt_mem st) r (pt_path va) \<noteq> None"
  proof -
    have "node (bt_mem st) r ?p \<noteq> None" using that unfolding pte_path by (rule node_prefixD)
    then have "s2 = st" using ex2 by simp
    then show ?thesis using ex3 that by (simp add: st'_def)
  qed
  ultimately show ?thesis using run view by (auto simp: boot_inv_def)
qed

lemma map_l2_block_ok:
  assumes inv: "boot_inv y roots st" and k: "lo_allocated_pages st + 2 \<le> 100" and r: "r \<in> roots"
    and e: "pte_valid ptme" "\<not> pte_type ptme"
    and nb: "block_at (bt_mem st) r [pt_index 0 va, pt_index 1 va] (pt_index 2 va) = None"
    and nl: "\<And>i. i < 512 \<Longrightarrow> leaf (tables (bt_mem st)) r (pt_path va) i = None"
  shows "\<exists>st'. map_l2_block y ptme va pa (push_bit 12 r) st = Inr st' \<and> boot_inv y roots st' \<and>
    node (bt_mem st') r [pt_index 0 va, pt_index 1 va] \<noteq> None \<and> lo_allocated_pages st' \<le> lo_allocated_pages st + 2 \<and>
    (node (bt_mem st) r [pt_index 0 va, pt_index 1 va] \<noteq> None \<longrightarrow> lo_allocated_pages st' = lo_allocated_pages st) \<and>
    (\<forall>s\<in>roots. \<forall>a. boot_view (bt_mem st') s a =
       (if s = r \<and> pt_path a = pt_path va
        then Some ((pte_address (set_address ptme (drop_bit 12 pa)) AND NOT (mask 9)) OR pt_index 3 a,
               access (set_address ptme (drop_bit 12 pa)))
        else boot_view (bt_mem st) s a))"
proof -
  let ?p = "[pt_index 0 va, pt_index 1 va]" and ?i2 = "pt_index 2 va" and ?e = "set_address ptme (drop_bit 12 pa)"
  have bt: "boot_tables y roots st" and ne: "no_empty_table (bt_mem st) roots" using inv by (simp_all add: boot_inv_def)
  from boot_descend [OF bt k r, of va] obtain t1 s1 t2 s2 where
    d: "next_table_lo y k_code_table_mapping (push_bit 12 r) (pt_index 0 va) st = Inr (push_bit 12 t1, s1)"
      "next_table_lo y k_code_table_mapping (push_bit 12 t1) (pt_index 1 va) s1 = Inr (push_bit 12 t2, s2)"
      "boot_tables y roots s2" "node (bt_mem s2) r ?p = Some t2" "same_maps roots (bt_mem st) (bt_mem s2)"
      "lo_allocated_pages s2 \<le> lo_allocated_pages st + 2"
    and gr2: "\<forall>s\<in>roots. \<forall>q u. indices q \<and> length q = 3 \<and> node (bt_mem s2) s q = Some u \<longrightarrow> node (bt_mem st) s q = Some u"
    and ex2: "if node (bt_mem st) r ?p = None then \<forall>j<512. \<not> pte_valid (bt_mem s2 (slot t2 j)) else s2 = st" by blast
  have p: "indices ?p" "length ?p = 2" by simp_all
  have "node (tables (bt_mem s2)) r ?p = Some t2" unfolding node_tables by (rule d(4))
  from forest_range [OF boot_tablesD(2) [OF d(3)] r p(1) _ this] have t2: "t2 < 2 ^ 18" by simp
  have nv: "\<not> pte_valid (bt_mem s2 (slot t2 ?i2))"
  proof
    assume v: "pte_valid (bt_mem s2 (slot t2 ?i2))"
    have "block_at (bt_mem s2) r ?p ?i2 = None" using same_mapsD(2) [OF d(5) r] nb by simp
    then have ty: "pte_type (bt_mem s2 (slot t2 ?i2))" using d(4) v by (auto simp: block_at_def split: if_splits)
    then have "node (bt_mem s2) r (pt_path va) = Some (pte_address (bt_mem s2 (slot t2 ?i2)))"
      using v d(4) unfolding pte_path by (simp only: node_append) simp
    then obtain u where "node (bt_mem st) r (pt_path va) = Some u" using gr2 r indices_path by blast
    then obtain i where "i < 512" "leaf (tables (bt_mem st)) r (pt_path va) i \<noteq> None"
      using ne r indices_path unfolding no_empty_table_def by blast
    then show False using nl by simp
  qed
  have ev: "pte_valid ?e" "\<not> pte_type ?e" using e by simp_all
  define st' where "st' = s2\<lparr>bt_mem := (bt_mem s2)(slot t2 ?i2 := ?e)\<rparr>"
  have m': "bt_mem st' = (bt_mem s2)(slot t2 ?i2 := ?e)" by (simp add: st'_def)
  note pb = boot_put_block [OF d(3) r p d(4) pt_index_less [of 2 va] ev nv, folded m']
  have run: "map_l2_block y ptme va pa (push_bit 12 r) st = Inr st'"
    unfolding map_l2_block_def d(1) bindR_simps prod.case d(2) put_leaf_lo_def rd_lo_slot [OF t2 pt_index_less]
    using nv by (simp add: wr_lo_slot [OF t2] st'_def)
  have as: "aspace (tables (bt_mem st')) s a = aspace (tables (bt_mem st)) s a" if "s \<in> roots" for s a
    using same_mapsD(1) [OF d(5) that] pb(2) by simp
  have bl: "block_at (bt_mem st') s [pt_index 0 a, pt_index 1 a] (pt_index 2 a) =
      (if s = r \<and> pt_path a = pt_path va then Some ?e else block_at (bt_mem st) s [pt_index 0 a, pt_index 1 a] (pt_index 2 a))"
    if "s \<in> roots" for s a
  proof -
    have q: "indices [pt_index 0 a, pt_index 1 a]" "length [pt_index 0 a, pt_index 1 a] = 2" by simp_all
    have "pt_path a = pt_path va \<longleftrightarrow> [pt_index 0 a, pt_index 1 a] = ?p \<and> pt_index 2 a = ?i2" by (simp add: pt_path_def)
    then show ?thesis
      using pb(3) [OF that q pt_index_less [of 2 a]] unfolding same_mapsD(2) [OF d(5) that] by presburger
  qed
  have view: "boot_view (bt_mem st') s a =
      (if s = r \<and> pt_path a = pt_path va then Some ((pte_address ?e AND NOT (mask 9)) OR pt_index 3 a, access ?e)
       else boot_view (bt_mem st) s a)" if "s \<in> roots" for s a
  proof -
    have "aspace (tables (bt_mem st)) s a = None" if "s = r" "pt_path a = pt_path va"
      using nl [of "pt_index 3 a"] that by (simp add: aspace_def)
    then show ?thesis unfolding boot_view_def as [OF that] bl [OF that] by (auto split: option.splits)
  qed
  have n: "node (bt_mem st') s q = node (bt_mem s2) s q" for s q using node_tables [of "bt_mem st'" s q] pb(2) by simp
  have "no_empty_table (bt_mem st') roots"
    unfolding no_empty_table_def n pb(2)
  proof (intro ballI allI impI)
    fix s q u assume s: "s \<in> roots" and a: "indices q \<and> length q = 3 \<and> node (bt_mem s2) s q = Some u"
    then have "node (bt_mem st) s q = Some u" using gr2 by blast
    then obtain i where "i < 512" "leaf (tables (bt_mem st)) s q i \<noteq> None" using ne s a unfolding no_empty_table_def by blast
    then show "\<exists>i<512. leaf (tables (bt_mem s2)) s q i \<noteq> None" using d(5) s a unfolding same_maps_def by auto
  qed
  moreover have "boot_tables y roots st'" using pb(1) by (simp add: st'_def)
  moreover have "lo_allocated_pages st' = lo_allocated_pages st" if "node (bt_mem st) r ?p \<noteq> None"
    using ex2 that by (simp add: st'_def)
  moreover have "node (bt_mem st') r ?p \<noteq> None" "lo_allocated_pages st' \<le> lo_allocated_pages st + 2"
    unfolding n using d(4,6) by (simp_all add: st'_def)
  ultimately show ?thesis using run view by (auto simp: boot_inv_def)
qed

end
