(* ===== verification/Boot_Map_Correct.thy ===== *)
theory Boot_Map_Correct
  imports Boot_Tables
begin

text \<open>
  The boot code maps exactly the ranges it is meant to, page by page and with their permissions.
\<close>

section \<open>Runs of mappings\<close>

text \<open>Frames \<open>f\<close>, \<open>f + 1\<close>, \<dots> at the pages from \<open>va\<close> on, and nothing else.\<close>

definition maps :: "u64 set \<Rightarrow> u64 \<Rightarrow> u64 \<Rightarrow> nat \<Rightarrow> nat \<Rightarrow> u64 \<times> bool \<Rightarrow> (u64 \<Rightarrow> u64) \<Rightarrow> (u64 \<Rightarrow> u64) \<Rightarrow> bool" where
  "maps roots r va f n acc m m' \<longleftrightarrow>
     (\<forall>i<n. boot_view m' r (page_at va i) = Some (of_nat (f + i), acc)) \<and>
     (\<forall>s\<in>roots. \<forall>a. s \<noteq> r \<or> (\<forall>i<n. \<not> same_page a (page_at va i)) \<longrightarrow> boot_view m' s a = boot_view m s a)"

lemma mapsD:
  assumes "maps roots r va f n acc m m'"
  shows "i < n \<Longrightarrow> boot_view m' r (page_at va i) = Some (of_nat (f + i), acc)"
    "s \<in> roots \<Longrightarrow> s \<noteq> r \<or> (\<forall>i<n. \<not> same_page a (page_at va i)) \<Longrightarrow> boot_view m' s a = boot_view m s a"
  using assms unfolding maps_def by blast+

lemma maps_refl: "maps roots r va f 0 acc m m"
  by (simp add: maps_def)

lemma page_at_add: "page_at (page_at va i) j = page_at va (i + j)"
  by (simp add: algebra_simps)

lemma maps_append:
  assumes v: "va AND 0xFFF = 0" and r: "r \<in> roots" and n: "n1 + n2 < 2 ^ 36"
    and a: "maps roots r va f n1 acc m0 m1" and b: "maps roots r (page_at va n1) (f + n1) n2 acc m1 m2"
  shows "maps roots r va f (n1 + n2) acc m0 m2"
  unfolding maps_def
proof (intro conjI allI impI ballI)
  fix i assume i: "i < n1 + n2"
  show "boot_view m2 r (page_at va i) = Some (of_nat (f + i), acc)"
  proof (cases "i < n1")
    case True
    have "\<not> same_page (page_at va i) (page_at (page_at va n1) j)" if "j < n2" for j
    proof
      assume "same_page (page_at va i) (page_at (page_at va n1) j)"
      then have "i = n1 + j" unfolding page_at_add using same_page_at [OF _ v, of i "n1 + j"] i that n by simp
      then show False using True by simp
    qed
    then have "boot_view m2 r (page_at va i) = boot_view m1 r (page_at va i)" using mapsD(2) [OF b r] by blast
    then show ?thesis using mapsD(1) [OF a True] by simp
  next
    case False
    then have "boot_view m2 r (page_at (page_at va n1) (i - n1)) = Some (of_nat (f + n1 + (i - n1)), acc)"
      using i by (intro mapsD(1) [OF b]) simp
    then show ?thesis using False unfolding page_at_add by simp
  qed
next
  fix s a assume s: "s \<in> roots" and o: "s \<noteq> r \<or> (\<forall>i<n1 + n2. \<not> same_page a (page_at va i))"
  have "boot_view m2 s a = boot_view m1 s a"
    using mapsD(2) [OF b s] o unfolding page_at_add by (metis nat_add_left_cancel_less)
  also have "\<dots> = boot_view m0 s a" using mapsD(2) [OF a s] o by (metis trans_less_add1)
  finally show "boot_view m2 s a = boot_view m0 s a" .
qed

text \<open>A page that a run has not reached is still free.\<close>

lemma maps_free:
  assumes v: "va AND 0xFFF = 0" and r: "r \<in> roots" and n: "n1 + n2 < 2 ^ 36" and a: "maps roots r va f n1 acc m m'"
    and free: "\<And>i. i < n1 + n2 \<Longrightarrow> boot_view m r (page_at va i) = None" and j: "j < n2"
  shows "boot_view m' r (page_at (page_at va n1) j) = None"
proof -
  have "\<not> same_page (page_at va (n1 + j)) (page_at va i)" if "i < n1" for i
  proof
    assume "same_page (page_at va (n1 + j)) (page_at va i)"
    then have "n1 + j = i" using same_page_at [OF _ v, of "n1 + j" i] n j that by simp
    then show False using that by simp
  qed
  then have "boot_view m' r (page_at va (n1 + j)) = boot_view m r (page_at va (n1 + j))" using mapsD(2) [OF a r] by blast
  then show ?thesis using free [of "n1 + j"] j unfolding page_at_add by simp
qed

section \<open>Permissions\<close>

fun perm_access :: "permissions \<Rightarrow> u64 \<times> bool" where
  "perm_access RO = (2, True)"
| "perm_access RW = (0, True)"
| "perm_access RX = (2, False)"

lemma access_set_address: "access (set_address e a) = access e"
  by (auto simp: access_def get_field_def set_address_def bit_put_field bit_simps intro!: bit_word_eqI dest: bit_imp_le_length)

lemma access_permissions: "access (mark_permissions perms e) = perm_access perms"
  by (cases perms) (auto simp: access_def mark_permissions_def get_put_same get_put_other bit_put_field)

lemma page_mapping: "pte_valid (mark_permissions perms k_code_mem_mapping)" "pte_type (mark_permissions perms k_code_mem_mapping)"
  by (cases perms; simp add: mark_permissions_def k_code_mem_mapping_def pte_valid_def pte_type_def bit_put_field Let_def)+

lemma block_mapping:
  "pte_valid (mark_permissions perms (put_field 1 1 0 k_code_mem_mapping))"
  "\<not> pte_type (mark_permissions perms (put_field 1 1 0 k_code_mem_mapping))"
  by (cases perms; simp add: mark_permissions_def k_code_mem_mapping_def pte_valid_def pte_type_def bit_put_field Let_def)+

lemma frame_address:
  assumes "f < 2 ^ 18"
  shows "pte_address (set_address e (drop_bit 12 (of_nat (f * 4096)))) = of_nat f"
proof -
  have f: "(of_nat f :: u64) < 2 ^ 18" using assms by (simp add: word_less_nat_alt unsigned_of_nat take_bit_nat_eq_self)
  have "(of_nat (f * 4096) :: u64) = push_bit 12 (of_nat f)" by (simp add: push_bit_eq_mult)
  then show ?thesis using drop_push_12(1) [OF f] pte_address_set [OF f] by simp
qed

section \<open>Loops\<close>

text \<open>The pages of one run whose last-level table is the same: at most three tables are taken.\<close>

lemma l3_page_maps:
  assumes inv: "boot_inv y roots st" and k: "lo_allocated_pages st + 3 \<le> 100" and r: "r \<in> roots"
    and none: "boot_view (bt_mem st) r va = None" and f: "f < 2 ^ 18"
  shows "\<exists>st'. map_l3_page y (mark_permissions perms k_code_mem_mapping) va (of_nat (f * 4096)) (push_bit 12 r) st = Inr st' \<and>
    boot_inv y roots st' \<and> node (bt_mem st') r (pt_path va) \<noteq> None \<and> lo_allocated_pages st' \<le> lo_allocated_pages st + 3 \<and>
    (node (bt_mem st) r (pt_path va) \<noteq> None \<longrightarrow> lo_allocated_pages st' = lo_allocated_pages st) \<and>
    maps roots r va f 1 (perm_access perms) (bt_mem st) (bt_mem st')"
proof -
  from map_l3_page_ok [OF inv k r page_mapping none, of perms "of_nat (f * 4096)"] obtain st' where
    s: "map_l3_page y (mark_permissions perms k_code_mem_mapping) va (of_nat (f * 4096)) (push_bit 12 r) st = Inr st'"
      "boot_inv y roots st'" "node (bt_mem st') r (pt_path va) \<noteq> None" "lo_allocated_pages st' \<le> lo_allocated_pages st + 3"
      "node (bt_mem st) r (pt_path va) \<noteq> None \<longrightarrow> lo_allocated_pages st' = lo_allocated_pages st"
    and w: "\<And>s a. s \<in> roots \<Longrightarrow> boot_view (bt_mem st') s a =
       (if s = r \<and> same_page a va then Some (of_nat f, perm_access perms) else boot_view (bt_mem st) s a)"
    unfolding frame_address [OF f] access_set_address access_permissions by blast
  have "maps roots r va f 1 (perm_access perms) (bt_mem st) (bt_mem st')"
    using w r by (auto simp: maps_def same_page_def)
  then show ?thesis using s by blast
qed

lemma l3_loop_ok:
  assumes r: "r \<in> roots"
  shows "boot_inv y roots st \<Longrightarrow> unat va mod 4096 = 0 \<Longrightarrow> unat va mod 2 ^ 21 + n * 4096 \<le> 2 ^ 21 \<Longrightarrow> f + n \<le> 2 ^ 18 \<Longrightarrow>
    (\<And>i. i < n \<Longrightarrow> boot_view (bt_mem st) r (page_at va i) = None) \<Longrightarrow>
    lo_allocated_pages st + (if node (bt_mem st) r (pt_path va) = None then 6 else 3) \<le> 100 \<Longrightarrow>
    \<exists>st'. l3_loop y (mark_permissions perms k_code_mem_mapping) va (of_nat (f * 4096)) n (push_bit 12 r) st = Inr st' \<and>
      boot_inv y roots st' \<and> lo_allocated_pages st' \<le> lo_allocated_pages st + (if node (bt_mem st) r (pt_path va) = None then 3 else 0) \<and>
      maps roots r va f n (perm_access perms) (bt_mem st) (bt_mem st')"
proof (induction n arbitrary: va f st)
  case 0
  then show ?case by (auto simp: maps_refl)
next
  case (Suc n)
  have v: "va AND 0xFFF = 0" using Suc.prems(2) unfolding low_bits .
  have n: "n < 512" using Suc.prems(3) by simp
  have k: "lo_allocated_pages st + 3 \<le> 100" using Suc.prems(6) by (simp split: if_splits)
  have f: "f < 2 ^ 18" using Suc.prems(4) by simp
  have "boot_view (bt_mem st) r va = None" using Suc.prems(5) [of 0] by simp
  from l3_page_maps [OF Suc.prems(1) k r this f, of perms] obtain s1 where
    s1: "map_l3_page y (mark_permissions perms k_code_mem_mapping) va (of_nat (f * 4096)) (push_bit 12 r) st = Inr s1"
      "boot_inv y roots s1" "node (bt_mem s1) r (pt_path va) \<noteq> None" "lo_allocated_pages s1 \<le> lo_allocated_pages st + 3"
      "node (bt_mem st) r (pt_path va) \<noteq> None \<longrightarrow> lo_allocated_pages s1 = lo_allocated_pages st"
      "maps roots r va f 1 (perm_access perms) (bt_mem st) (bt_mem s1)" by blast
  have pa: "(of_nat (f * 4096) :: u64) + 0x1000 = of_nat ((f + 1) * 4096)" by simp
  have v1: "va + 0x1000 = page_at va 1" by simp
  have free: "boot_view (bt_mem s1) r (page_at (page_at va 1) j) = None" if "j < n" for j
    by (rule maps_free [OF v r _ s1(6), of n]) (use n that Suc.prems(5) in auto)
  have run: "l3_loop y ptme va (of_nat (f * 4096)) (Suc n) pt st =
      bindR (map_l3_page y ptme va (of_nat (f * 4096)) pt st) (l3_loop y ptme (page_at va 1) (of_nat ((f + 1) * 4096)) n pt)"
    for ptme pt unfolding l3_loop.simps(2) pa v1 ..
  show ?case
  proof (cases "n = 0")
    case True
    have "lo_allocated_pages s1 \<le> lo_allocated_pages st + (if node (bt_mem st) r (pt_path va) = None then 3 else 0)"
      using s1(4,5) by auto
    then show ?thesis using s1 True unfolding run s1(1) by auto
  next
    case False
    then have u: "unat va mod 2 ^ 21 + 1 * 4096 < 2 ^ 21" using Suc.prems(3) by simp
    note g = region_gib [OF u]
    have path: "pt_path (page_at va 1) = pt_path va" by (rule region_index [OF u])
    have a1: "unat (page_at va 1) mod 4096 = 0" using Suc.prems(2) unfolding unat_page_at [OF g] by simp
    have a2: "unat (page_at va 1) mod 2 ^ 21 = unat va mod 2 ^ 21 + 4096"
    proof -
      have "(unat va + 4096) mod 2 ^ 21 = (unat va mod 2 ^ 21 + 4096) mod 2 ^ 21" by (simp only: mod_add_left_eq)
      then show ?thesis using u unfolding unat_page_at [OF g] by simp
    qed
    have "lo_allocated_pages s1 + 3 \<le> 100" using Suc.prems(6) s1(4,5) by (auto split: if_splits)
    then obtain s2 where
      s2: "l3_loop y (mark_permissions perms k_code_mem_mapping) (page_at va 1) (of_nat ((f + 1) * 4096)) n (push_bit 12 r) s1 = Inr s2"
        "boot_inv y roots s2" "lo_allocated_pages s2 \<le> lo_allocated_pages s1"
        "maps roots r (page_at va 1) (f + 1) n (perm_access perms) (bt_mem s1) (bt_mem s2)"
      using Suc.IH [OF s1(2) a1, of "f + 1"] Suc.prems(3,4) a2 free s1(3) unfolding path by auto
    have "maps roots r va f (1 + n) (perm_access perms) (bt_mem st) (bt_mem s2)"
      by (rule maps_append [OF v r _ s1(6) s2(4)]) (use n in simp)
    moreover have "lo_allocated_pages s2 \<le> lo_allocated_pages st + (if node (bt_mem st) r (pt_path va) = None then 3 else 0)"
      using s2(3) s1(4,5) by auto
    ultimately show ?thesis using s2(1,2) unfolding run s1(1) bindR_simps by auto
  qed
qed

text \<open>A block maps the 512 pages of its region.\<close>

lemma block_page:
  assumes v: "unat va mod 2 ^ 21 = 0" and i: "i < 512"
  shows "pt_path (page_at va i) = pt_path va" "unat (pt_index 3 (page_at va i)) = i"
proof -
  have s: "unat va mod 2 ^ 21 + i * 4096 < 2 ^ 21" using v i by simp
  show "pt_path (page_at va i) = pt_path va" by (rule region_index [OF s])
  obtain q where q: "unat va = 2 ^ 21 * q" using mod_0_imp_dvd [OF v] by (auto elim: dvdE)
  have "unat (page_at va i) = unat va + i * 4096" by (rule unat_page_at [OF region_gib [OF s]])
  then have "unat (page_at va i) = 4096 * (512 * q + i)" using q by simp
  then show "unat (pt_index 3 (page_at va i)) = i" using i unfolding unat_pt_index [of 3, simplified] by simp
qed

lemma block_address:
  assumes f: "f mod 512 = 0" "f < 2 ^ 18" and i: "i < 512"
  shows "((of_nat f :: u64) AND NOT (mask 9)) OR of_nat i = of_nat (f + i)"
proof -
  have u: "unat (of_nat f :: u64) = f" "unat (of_nat i :: u64) = i" using f i by (simp_all add: unsigned_of_nat take_bit_nat_eq_self)
  have lo: "\<not> bit (of_nat f :: u64) n" if "n < 9" for n
  proof -
    have "unat (take_bit 9 (of_nat f :: u64)) = 0"
      using f(1) unfolding unsigned_take_bit_eq u by (simp add: take_bit_eq_mod [where 'a = nat])
    then have "take_bit 9 (of_nat f :: u64) = 0" by (simp only: unat_eq_0)
    then have "\<not> bit (take_bit 9 (of_nat f :: u64)) n" by simp
    then show ?thesis using that by (simp only: bit_take_bit_iff) simp
  qed
  have hi: "\<not> bit (of_nat i :: u64) n" if "9 \<le> n" for n
  proof
    assume "bit (of_nat i :: u64) n"
    then have "2 ^ n \<le> i" using bit_word_exp_le u(2) by metis
    moreover have "(2 :: nat) ^ 9 \<le> 2 ^ n" using that by (intro power_increasing) simp_all
    ultimately show False using i by simp
  qed
  have "(of_nat f :: u64) AND NOT (mask 9) = of_nat f"
    by (rule bit_word_eqI) (use lo in \<open>auto simp: bit_and_iff bit_not_iff bit_mask_iff\<close>)
  moreover have "(of_nat f :: u64) OR of_nat i = of_nat f + of_nat i"
    by (rule disjunctive_add [symmetric]) (metis lo hi not_le)
  ultimately show ?thesis by simp
qed

lemma l2_block_maps:
  assumes inv: "boot_inv y roots st" and k: "lo_allocated_pages st + 2 \<le> 100" and r: "r \<in> roots" and v: "unat va mod 2 ^ 21 = 0"
    and none: "\<And>i. i < 512 \<Longrightarrow> boot_view (bt_mem st) r (page_at va i) = None" and f: "f < 2 ^ 18" "f mod 512 = 0"
  shows "\<exists>st'. map_l2_block y (mark_permissions perms (put_field 1 1 0 k_code_mem_mapping)) va (of_nat (f * 4096)) (push_bit 12 r) st
        = Inr st' \<and>
    boot_inv y roots st' \<and> node (bt_mem st') r [pt_index 0 va, pt_index 1 va] \<noteq> None \<and>
    lo_allocated_pages st' \<le> lo_allocated_pages st + 2 \<and>
    (node (bt_mem st) r [pt_index 0 va, pt_index 1 va] \<noteq> None \<longrightarrow> lo_allocated_pages st' = lo_allocated_pages st) \<and>
    maps roots r va f 512 (perm_access perms) (bt_mem st) (bt_mem st')"
proof -
  have nb: "block_at (bt_mem st) r [pt_index 0 va, pt_index 1 va] (pt_index 2 va) = None"
    using view_None(2) [OF none [of 0]] by simp
  have nl: "leaf (tables (bt_mem st)) r (pt_path va) i = None" if "i < 512" for i
  proof -
    have u: "unat i < 512" using that by (simp add: word_less_nat_alt)
    have "pt_index 3 (page_at va (unat i)) = i" using block_page(2) [OF v u] by (simp only: word_unat_eq_iff)
    then show ?thesis using view_None(1) [OF none [OF u]] unfolding aspace_def block_page(1) [OF v u] by simp
  qed
  from map_l2_block_ok [OF inv k r block_mapping nb nl, of perms "of_nat (f * 4096)"] obtain st' where
    s: "map_l2_block y (mark_permissions perms (put_field 1 1 0 k_code_mem_mapping)) va (of_nat (f * 4096)) (push_bit 12 r) st = Inr st'"
      "boot_inv y roots st'" "node (bt_mem st') r [pt_index 0 va, pt_index 1 va] \<noteq> None"
      "lo_allocated_pages st' \<le> lo_allocated_pages st + 2"
      "node (bt_mem st) r [pt_index 0 va, pt_index 1 va] \<noteq> None \<longrightarrow> lo_allocated_pages st' = lo_allocated_pages st"
    and w: "\<And>s a. s \<in> roots \<Longrightarrow> boot_view (bt_mem st') s a =
       (if s = r \<and> pt_path a = pt_path va then Some ((of_nat f AND NOT (mask 9)) OR pt_index 3 a, perm_access perms)
        else boot_view (bt_mem st) s a)"
    unfolding frame_address [OF f(1)] access_set_address access_permissions by blast
  have "maps roots r va f 512 (perm_access perms) (bt_mem st) (bt_mem st')"
    unfolding maps_def
  proof (intro conjI allI impI ballI)
    fix i :: nat assume i: "i < 512"
    have "unat (of_nat i :: u64) = i" using i by (simp add: unsigned_of_nat take_bit_nat_eq_self)
    then have "pt_index 3 (page_at va i) = of_nat i" using block_page(2) [OF v i] by (simp only: word_unat_eq_iff)
    then show "boot_view (bt_mem st') r (page_at va i) = Some (of_nat (f + i), perm_access perms)"
      unfolding w [OF r] block_page(1) [OF v i] using block_address [OF f(2,1) i] by simp
  next
    fix s a assume a: "s \<in> roots" "s \<noteq> r \<or> (\<forall>i<512. \<not> same_page a (page_at va i))"
    have "\<not> (s = r \<and> pt_path a = pt_path va)"
    proof
      assume e: "s = r \<and> pt_path a = pt_path va"
      have u: "unat (pt_index 3 a) < 512" using pt_index_less [of 3 a] by (simp add: word_less_nat_alt)
      have "pt_index 3 (page_at va (unat (pt_index 3 a))) = pt_index 3 a"
        using block_page(2) [OF v u] by (simp only: word_unat_eq_iff)
      then have "same_page a (page_at va (unat (pt_index 3 a)))"
        unfolding same_page_def block_page(1) [OF v u] using e by simp
      then show False using a(2) e u by blast
    qed
    then show "boot_view (bt_mem st') s a = boot_view (bt_mem st) s a" unfolding w [OF a(1)] by (rule if_not_P)
  qed
  then show ?thesis using s by blast
qed

lemma l2_loop_ok:
  assumes r: "r \<in> roots"
  shows "boot_inv y roots st \<Longrightarrow> unat va mod 2 ^ 21 = 0 \<Longrightarrow> unat va mod 2 ^ 30 + n * 2 ^ 21 \<le> 2 ^ 30 \<Longrightarrow>
    f mod 512 = 0 \<Longrightarrow> f + n * 512 \<le> 2 ^ 18 \<Longrightarrow>
    (\<And>i. i < n * 512 \<Longrightarrow> boot_view (bt_mem st) r (page_at va i) = None) \<Longrightarrow>
    lo_allocated_pages st + (if node (bt_mem st) r [pt_index 0 va, pt_index 1 va] = None then 4 else 2) \<le> 100 \<Longrightarrow>
    \<exists>st'. l2_loop y (mark_permissions perms (put_field 1 1 0 k_code_mem_mapping)) va (of_nat (f * 4096)) n (push_bit 12 r) st = Inr st' \<and>
      boot_inv y roots st' \<and>
      lo_allocated_pages st' \<le> lo_allocated_pages st + (if node (bt_mem st) r [pt_index 0 va, pt_index 1 va] = None then 2 else 0) \<and>
      maps roots r va f (n * 512) (perm_access perms) (bt_mem st) (bt_mem st')"
proof (induction n arbitrary: va f st)
  case 0
  then show ?case by (auto simp: maps_refl)
next
  case (Suc n)
  let ?p = "[pt_index 0 va, pt_index 1 va]"
  have d: "4096 dvd unat va" using dvd_trans [OF _ mod_0_imp_dvd [OF Suc.prems(2)], of 4096] by simp
  then have v: "va AND 0xFFF = 0" unfolding low_bits by simp
  have n: "n < 512" using Suc.prems(3) by simp
  have k: "lo_allocated_pages st + 2 \<le> 100" using Suc.prems(7) by (simp split: if_splits)
  have f: "f < 2 ^ 18" using Suc.prems(5) by simp
  have "boot_view (bt_mem st) r (page_at va i) = None" if "i < 512" for i using Suc.prems(6) [of i] that by simp
  from l2_block_maps [OF Suc.prems(1) k r Suc.prems(2) this f Suc.prems(4), of perms] obtain s1 where
    s1: "map_l2_block y (mark_permissions perms (put_field 1 1 0 k_code_mem_mapping)) va (of_nat (f * 4096)) (push_bit 12 r) st = Inr s1"
      "boot_inv y roots s1" "node (bt_mem s1) r ?p \<noteq> None" "lo_allocated_pages s1 \<le> lo_allocated_pages st + 2"
      "node (bt_mem st) r ?p \<noteq> None \<longrightarrow> lo_allocated_pages s1 = lo_allocated_pages st"
      "maps roots r va f 512 (perm_access perms) (bt_mem st) (bt_mem s1)" by blast
  have pa: "(of_nat (f * 4096) :: u64) + 0x200000 = of_nat ((f + 512) * 4096)" by simp
  have v1: "va + 0x200000 = page_at va 512" by simp
  have free: "boot_view (bt_mem s1) r (page_at (page_at va 512) j) = None" if "j < n * 512" for j
    by (rule maps_free [OF v r _ s1(6), of "n * 512"]) (use n that Suc.prems(6) in auto)
  have run: "l2_loop y ptme va (of_nat (f * 4096)) (Suc n) pt st =
      bindR (map_l2_block y ptme va (of_nat (f * 4096)) pt st) (l2_loop y ptme (page_at va 512) (of_nat ((f + 512) * 4096)) n pt)"
    for ptme pt unfolding l2_loop.simps(2) pa v1 ..
  have lo: "lo_allocated_pages s1 \<le> lo_allocated_pages st + (if node (bt_mem st) r ?p = None then 2 else 0)"
    using s1(4,5) by auto
  show ?case
  proof (cases "n = 0")
    case True
    then show ?thesis using s1(2,6) lo unfolding run s1(1) by auto
  next
    case False
    then have g: "unat va mod 2 ^ 30 + 512 * 4096 < 2 ^ 30" using Suc.prems(3) by simp
    note gi = gib_index [OF g]
    have u: "unat (page_at va 512) = unat va + 2 ^ 21" unfolding unat_page_at [OF g] by simp
    have a1: "unat (page_at va 512) mod 2 ^ 21 = 0" using Suc.prems(2) unfolding u by simp
    have "(unat va + 2 ^ 21) mod 2 ^ 30 = (unat va mod 2 ^ 30 + 2 ^ 21) mod 2 ^ 30" by (simp only: mod_add_left_eq)
    then have a2: "unat (page_at va 512) mod 2 ^ 30 + n * 2 ^ 21 \<le> 2 ^ 30" using g Suc.prems(3) unfolding u by simp
    have a3: "(f + 512) mod 512 = 0" "f + 512 + n * 512 \<le> 2 ^ 18" using Suc.prems(4,5) by simp_all
    have "lo_allocated_pages s1 + 2 \<le> 100" using Suc.prems(7) lo by (auto split: if_splits)
    then obtain s2 where
      s2: "l2_loop y (mark_permissions perms (put_field 1 1 0 k_code_mem_mapping)) (page_at va 512) (of_nat ((f + 512) * 4096)) n (push_bit 12 r) s1 = Inr s2"
        "boot_inv y roots s2" "lo_allocated_pages s2 \<le> lo_allocated_pages s1"
        "maps roots r (page_at va 512) (f + 512) (n * 512) (perm_access perms) (bt_mem s1) (bt_mem s2)"
      using Suc.IH [OF s1(2) a1 a2 a3 free] s1(3) unfolding gi by auto
    have "maps roots r va f (512 + n * 512) (perm_access perms) (bt_mem st) (bt_mem s2)"
      by (rule maps_append [OF v r _ s1(6) s2(4)]) (use n in simp)
    then have m: "maps roots r va f (Suc n * 512) (perm_access perms) (bt_mem st) (bt_mem s2)" unfolding mult_Suc .
    have "lo_allocated_pages s2 \<le> lo_allocated_pages st + (if node (bt_mem st) r ?p = None then 2 else 0)"
      using s2(3) lo by simp
    then show ?thesis using s2(1,2) m unfolding run s1(1) bindR_simps by blast
  qed
qed

section \<open>A range\<close>

lemma l3_range_eq:
  "m < 2 ^ 31 \<Longrightarrow> map_l3_range y va pa (ucast (of_nat m :: u64)) pt perms st =
    l3_loop y (mark_permissions perms k_code_mem_mapping) va pa m pt st"
  by (simp add: map_l3_range_def int_args)

lemma l2_range_eq:
  "m < 2 ^ 31 \<Longrightarrow> map_l2_range y va pa (ucast (of_nat m :: u64)) pt perms st =
    l2_loop y (mark_permissions perms (put_field 1 1 0 k_code_mem_mapping)) va pa m pt st"
  by (simp add: map_l2_range_def int_args)

text \<open>
  \<open>map_lo\<close> with its conversions evaluated: \<open>k\<close> pages up to the next 2 MiB boundary, whole blocks, and
  the rest.
\<close>

definition map_rest :: "symbols \<Rightarrow> u64 \<Rightarrow> permissions \<Rightarrow> u64 \<Rightarrow> u64 \<Rightarrow> u32 \<Rightarrow> boot \<Rightarrow> boot result" where
  "map_rest y pt perms va1 pa1 pages1 st1 =
     (let l2_blocks = scast (signed_drop_bit 9 pages1) :: u64;
          l3_blocks = scast (pages1 AND 0x1FF) :: u64
      in bindR (if l2_blocks \<noteq> 0 then map_l2_range y va1 pa1 (ucast l2_blocks) pt perms st1 else Inr st1) (\<lambda>st2.
         let va2 = va1 + l2_blocks * 0x200000;
             pa2 = pa1 + l2_blocks * 0x200000
         in if l3_blocks \<noteq> 0 then map_l3_range y va2 pa2 (ucast l3_blocks) pt perms st2 else Inr st2))"

lemma word_eq_0: "m < 2 ^ 31 \<Longrightarrow> (of_nat m :: u64) = 0 \<longleftrightarrow> m = 0"
proof -
  assume "m < 2 ^ 31"
  then have "unat (of_nat m :: u64) = m" by (simp add: unsigned_of_nat take_bit_nat_eq_self)
  then show ?thesis by (metis unat_eq_0)
qed

lemma map_rest_eq:
  assumes m: "m < 2 ^ 31"
  defines "q \<equiv> m div 512" and "w \<equiv> m mod 512"
  shows "map_rest y pt perms va (of_nat (f * 4096)) (of_nat m) st =
    bindR (if q = 0 then Inr st
           else l2_loop y (mark_permissions perms (put_field 1 1 0 k_code_mem_mapping)) va (of_nat (f * 4096)) q pt st) (\<lambda>s2.
      if w = 0 then Inr s2
      else l3_loop y (mark_permissions perms k_code_mem_mapping) (page_at va (q * 512)) (of_nat ((f + q * 512) * 4096)) w pt s2)"
proof -
  have small: "q < 2 ^ 31" "w < 2 ^ 31" using m by (auto simp: q_def w_def less_mult_imp_div_less)
  have va: "va + of_nat q * 0x200000 = page_at va (q * 512)" by (simp add: algebra_simps)
  have pa: "(of_nat (f * 4096) :: u64) + of_nat q * 0x200000 = of_nat ((f + q * 512) * 4096)" by (simp add: algebra_simps)
  show ?thesis
    unfolding map_rest_def Let_def int_args(3-5) [OF m] q_def [symmetric] w_def [symmetric] int_args(3) [OF small(1)]
      int_args(3) [OF small(2)] word_eq_0 [OF small(1)] word_eq_0 [OF small(2)] l2_range_eq [OF small(1)] l3_range_eq [OF small(2)] va pa
    by (cases "q = 0"; cases "w = 0") simp_all
qed

lemma map_lo_eq:
  assumes n: "n \<le> 2 ^ 18" and a: "unat va mod 4096 = 0" and l: "unat va + 2 ^ 30 < 2 ^ 64"
  defines "k \<equiv> min ((512 - unat va div 4096 mod 512) mod 512) n"
  shows "map_lo y va (of_nat (f * 4096)) (of_nat n) pt perms st =
    bindR (if k = 0 then Inr st else l3_loop y (mark_permissions perms k_code_mem_mapping) va (of_nat (f * 4096)) k pt st) (\<lambda>s1.
      map_rest y pt perms (page_at va k) (of_nat ((f + k) * 4096)) (of_nat (n - k)) s1)"
proof -
  define b where "b = (512 - unat va div 4096 mod 512) mod 512"
  have b: "b < 512" by (simp add: b_def)
  have k: "k = min b n" "k \<le> n" "k < 512" using b by (auto simp: k_def b_def)
  have small: "n < 2 ^ 31" "k < 2 ^ 31" "n - k < 2 ^ 31" "b < 2 ^ 31" using n b k by auto
  have u: "unat (of_nat m :: u64) = m" if "m < 2 ^ 31" for m using that by (simp add: unsigned_of_nat take_bit_nat_eq_self)
  have mn: "min (of_nat b :: u64) (of_nat n) = of_nat k"
    using u [OF small(4)] u [OF small(1)] by (auto simp: k(1) min_def word_le_nat_alt)
  have sub: "ucast ((of_nat n :: u64) - of_nat k) = (of_nat (n - k) :: u32)"
  proof -
    have "(of_nat n :: u64) - of_nat k = of_nat (n - k)" using k(2) by (simp add: of_nat_diff)
    then show ?thesis using int_args(2) [OF small(3)] by simp
  qed
  have pa: "(of_nat (f * 4096) :: u64) + of_nat k * 0x1000 = of_nat ((f + k) * 4096)" by (simp add: algebra_simps)
  have e: "map_lo y va (of_nat (f * 4096)) (of_nat n) pt perms st =
      bindR (if b \<noteq> 0
             then bindR (l3_loop y (mark_permissions perms k_code_mem_mapping) va (of_nat (f * 4096)) k pt st) (\<lambda>st1.
                    Inr (page_at va k, of_nat ((f + k) * 4096), of_nat (n - k), st1))
             else Inr (va, of_nat (f * 4096), of_nat n, st)) (\<lambda>(va1, pa1, pages1, st1). map_rest y pt perms va1 pa1 pages1 st1)"
    unfolding map_lo_def map_rest_def front_pages [OF a l] b_def [symmetric] word_eq_0 [OF small(4)] int_args(3) [OF small(1)]
      Let_def mn sub l3_range_eq [OF small(2)] pa ..
  show ?thesis
  proof (cases "k = 0")
    case True
    then show ?thesis unfolding e by simp
  next
    case False
    then have "b \<noteq> 0" using k(1) by auto
    then show ?thesis using False unfolding e by (simp add: bindR_assoc)
  qed
qed

lemma front_region:
  assumes a: "unat va mod 4096 = 0" and k: "k = min ((512 - unat va div 4096 mod 512) mod 512) n"
  shows "k \<noteq> 0 \<Longrightarrow> unat va mod 2 ^ 21 + k * 4096 \<le> 2 ^ 21"
    "k < n \<Longrightarrow> (unat va + k * 4096) mod 2 ^ 21 = 0" "k < n \<Longrightarrow> (unat va div 4096 + k) mod 512 = 0"
proof -
  define q where "q = unat va div 4096"
  have q: "unat va = 4096 * q" using a mult_div_mod_eq [of 4096 "unat va"] unfolding q_def by linarith
  have m: "unat va mod 2 ^ 21 = 4096 * (q mod 512)" unfolding q using mult_mod_right [of 4096 q 512] by simp
  show "unat va mod 2 ^ 21 + k * 4096 \<le> 2 ^ 21" if "k \<noteq> 0"
    using that k unfolding m q_def [symmetric] by (cases "q mod 512 = 0") (auto simp: min_def split: if_splits)
  have z: "(q + k) mod 512 = 0" if "k < n"
  proof -
    have "k = (512 - q mod 512) mod 512" using k that unfolding q_def [symmetric] by simp
    then have "(q + k) mod 512 = (q mod 512 + (512 - q mod 512)) mod 512" by (simp only: mod_add_left_eq mod_add_right_eq)
    then show ?thesis by simp
  qed
  then show "k < n \<Longrightarrow> (unat va div 4096 + k) mod 512 = 0" by (simp add: q_def)
  show "(unat va + k * 4096) mod 2 ^ 21 = 0" if "k < n"
  proof -
    have "unat va + k * 4096 = 4096 * (q + k)" using q by simp
    moreover have "(4096 * (q + k)) mod (4096 * 512) = 4096 * ((q + k) mod 512)" by (rule mult_mod_right [symmetric])
    ultimately show ?thesis using z [OF that] by (simp add: mult.commute)
  qed
qed

text \<open>The part of a range from a 2 MiB boundary on.\<close>

lemma map_rest_ok:
  assumes r: "r \<in> roots" and inv: "boot_inv y roots st" and v: "unat va mod 2 ^ 21 = 0"
    and gib: "unat va mod 2 ^ 30 + m * 4096 \<le> 2 ^ 30" and f: "f mod 512 = 0" "f + m \<le> 2 ^ 18"
    and free: "\<And>i. i < m \<Longrightarrow> boot_view (bt_mem st) r (page_at va i) = None" and k: "lo_allocated_pages st + 8 \<le> 100"
  shows "\<exists>st'. map_rest y (push_bit 12 r) perms va (of_nat (f * 4096)) (of_nat m) st = Inr st' \<and> boot_inv y roots st' \<and>
    lo_allocated_pages st' \<le> lo_allocated_pages st + 5 \<and> maps roots r va f m (perm_access perms) (bt_mem st) (bt_mem st')"
proof -
  define q w where "q = m div 512" and "w = m mod 512"
  have m: "m = q * 512 + w" "w < 512" by (simp_all add: q_def w_def)
  have mb: "m < 2 ^ 31" using f(2) by simp
  have d: "4096 dvd unat va" using dvd_trans [OF _ mod_0_imp_dvd [OF v], of 4096] by simp
  then have va: "va AND 0xFFF = 0" unfolding low_bits by simp
  let ?blocks = "if q = 0 then Inr st
    else l2_loop y (mark_permissions perms (put_field 1 1 0 k_code_mem_mapping)) va (of_nat (f * 4096)) q (push_bit 12 r) st"
  have "\<exists>s2. ?blocks = Inr s2 \<and> boot_inv y roots s2 \<and> lo_allocated_pages s2 \<le> lo_allocated_pages st + 2 \<and>
      maps roots r va f (q * 512) (perm_access perms) (bt_mem st) (bt_mem s2)"
  proof (cases "q = 0")
    case True
    then show ?thesis using inv by (auto simp: maps_refl)
  next
    case False
    have g: "unat va mod 2 ^ 30 + q * 2 ^ 21 \<le> 2 ^ 30" using gib m by simp
    have b: "f + q * 512 \<le> 2 ^ 18" using f(2) m by simp
    have fr: "boot_view (bt_mem st) r (page_at va i) = None" if "i < q * 512" for i using free [of i] that m by simp
    have kk: "lo_allocated_pages st + (if node (bt_mem st) r [pt_index 0 va, pt_index 1 va] = None then 4 else 2) \<le> 100"
      using k by simp
    from l2_loop_ok [OF r inv v g f(1) b fr kk, of perms] False show ?thesis by (fastforce split: if_splits)
  qed
  then obtain s2 where s2: "?blocks = Inr s2" "boot_inv y roots s2" "lo_allocated_pages s2 \<le> lo_allocated_pages st + 2"
    "maps roots r va f (q * 512) (perm_access perms) (bt_mem st) (bt_mem s2)" by blast
  let ?rest = "if w = 0 then Inr s2
    else l3_loop y (mark_permissions perms k_code_mem_mapping) (page_at va (q * 512)) (of_nat ((f + q * 512) * 4096)) w (push_bit 12 r) s2"
  have "\<exists>s3. ?rest = Inr s3 \<and> boot_inv y roots s3 \<and> lo_allocated_pages s3 \<le> lo_allocated_pages s2 + 3 \<and>
      maps roots r (page_at va (q * 512)) (f + q * 512) w (perm_access perms) (bt_mem s2) (bt_mem s3)"
  proof (cases "w = 0")
    case True
    then show ?thesis using s2(2) by (auto simp: maps_refl)
  next
    case False
    then have g: "unat va mod 2 ^ 30 + (q * 512) * 4096 < 2 ^ 30" using gib m by simp
    have u: "unat (page_at va (q * 512)) = unat va + 2 ^ 21 * q" unfolding unat_page_at [OF g] by simp
    have a2: "unat (page_at va (q * 512)) mod 2 ^ 21 = 0" using v unfolding u by simp
    have a1: "unat (page_at va (q * 512)) mod 4096 = 0"
      using d unfolding u by (simp add: mod_eq_0_iff_dvd dvd_add)
    have a3: "unat (page_at va (q * 512)) mod 2 ^ 21 + w * 4096 \<le> 2 ^ 21" "f + q * 512 + w \<le> 2 ^ 18" using a2 m f(2) by simp_all
    have fr: "boot_view (bt_mem s2) r (page_at (page_at va (q * 512)) j) = None" if "j < w" for j
      by (rule maps_free [OF va r _ s2(4), of w]) (use mb m free that in auto)
    have kk: "lo_allocated_pages s2 + (if node (bt_mem s2) r (pt_path (page_at va (q * 512))) = None then 6 else 3) \<le> 100"
      using k s2(3) by simp
    from l3_loop_ok [OF r s2(2) a1 a3 fr kk, of perms] False show ?thesis by (fastforce split: if_splits)
  qed
  then obtain s3 where s3: "?rest = Inr s3" "boot_inv y roots s3" "lo_allocated_pages s3 \<le> lo_allocated_pages s2 + 3"
    "maps roots r (page_at va (q * 512)) (f + q * 512) w (perm_access perms) (bt_mem s2) (bt_mem s3)" by blast
  have run: "map_rest y (push_bit 12 r) perms va (of_nat (f * 4096)) (of_nat m) st = Inr s3"
    unfolding map_rest_eq [OF mb] q_def [symmetric] w_def [symmetric] s2(1) bindR_simps by (rule s3(1))
  have "maps roots r va f m (perm_access perms) (bt_mem st) (bt_mem s3)"
    unfolding m(1) by (rule maps_append [OF va r _ s2(4) s3(4)]) (use mb m in simp)
  then show ?thesis using run s3(2,3) s2(3) by (intro exI [of _ s3]) simp
qed

text \<open>What one call of \<open>map_lo\<close> does: at most eight tables for a run of pages in one GiB.\<close>

lemma map_lo_ok:
  assumes r: "r \<in> roots" and inv: "boot_inv y roots st" and gib: "in_gib va n" and l: "unat va + 2 ^ 30 < 2 ^ 64"
    and f: "f mod 512 = unat va div 4096 mod 512" "f + n \<le> 2 ^ 18"
    and free: "\<And>i. i < n \<Longrightarrow> boot_view (bt_mem st) r (page_at va i) = None" and k: "lo_allocated_pages st + 11 \<le> 100"
  shows "\<exists>st'. map_lo y va (of_nat (f * 4096)) (of_nat n) (push_bit 12 r) perms st = Inr st' \<and> boot_inv y roots st' \<and>
    lo_allocated_pages st' \<le> lo_allocated_pages st + 8 \<and> maps roots r va f n (perm_access perms) (bt_mem st) (bt_mem st')"
proof -
  define j where "j = min ((512 - unat va div 4096 mod 512) mod 512) n"
  have a: "unat va mod 4096 = 0" and gb: "unat va mod 2 ^ 30 + n * 4096 \<le> 2 ^ 30" using gib by (simp_all add: in_gib_def)
  have va: "va AND 0xFFF = 0" using a unfolding low_bits .
  have n: "n \<le> 2 ^ 18" using f(2) by simp
  have jn: "j \<le> n" by (simp add: j_def)
  note fr = front_region [OF a j_def]
  let ?front = "if j = 0 then Inr st else l3_loop y (mark_permissions perms k_code_mem_mapping) va (of_nat (f * 4096)) j (push_bit 12 r) st"
  have "\<exists>s1. ?front = Inr s1 \<and> boot_inv y roots s1 \<and> lo_allocated_pages s1 \<le> lo_allocated_pages st + 3 \<and>
      maps roots r va f j (perm_access perms) (bt_mem st) (bt_mem s1)"
  proof (cases "j = 0")
    case True
    then show ?thesis using inv by (auto simp: maps_refl)
  next
    case False
    have fj: "f + j \<le> 2 ^ 18" using f(2) jn by simp
    have fv: "boot_view (bt_mem st) r (page_at va i) = None" if "i < j" for i using free [of i] that jn by simp
    have kk: "lo_allocated_pages st + (if node (bt_mem st) r (pt_path va) = None then 6 else 3) \<le> 100" using k by simp
    from l3_loop_ok [OF r inv a fr(1) [OF False] fj fv kk, of perms] False show ?thesis by (fastforce split: if_splits)
  qed
  then obtain s1 where s1: "?front = Inr s1" "boot_inv y roots s1" "lo_allocated_pages s1 \<le> lo_allocated_pages st + 3"
    "maps roots r va f j (perm_access perms) (bt_mem st) (bt_mem s1)" by blast
  have run: "map_lo y va (of_nat (f * 4096)) (of_nat n) (push_bit 12 r) perms st =
      map_rest y (push_bit 12 r) perms (page_at va j) (of_nat ((f + j) * 4096)) (of_nat (n - j)) s1"
    unfolding map_lo_eq [OF n a l] j_def [symmetric] s1(1) by simp
  show ?thesis
  proof (cases "j = n")
    case True
    have "map_rest y (push_bit 12 r) perms (page_at va j) (of_nat ((f + j) * 4096)) (of_nat 0) s1 = Inr s1"
      by (subst map_rest_eq) simp_all
    then show ?thesis using run True s1(2-4) by auto
  next
    case False
    then have jl: "j < n" using jn by simp
    have g: "unat va mod 2 ^ 30 + j * 4096 < 2 ^ 30" using gb jl by simp
    have u: "unat (page_at va j) = unat va + j * 4096" by (rule unat_page_at [OF g])
    have "(unat va + j * 4096) mod 2 ^ 30 = (unat va mod 2 ^ 30 + j * 4096) mod 2 ^ 30" by (simp only: mod_add_left_eq)
    then have e: "(unat va + j * 4096) mod 2 ^ 30 = unat va mod 2 ^ 30 + j * 4096" using g by (simp only: mod_less)
    have "j * 4096 + (n - j) * 4096 = n * 4096" using jl by (simp add: add_mult_distrib [symmetric])
    then have g1: "unat (page_at va j) mod 2 ^ 30 + (n - j) * 4096 \<le> 2 ^ 30" using gb unfolding u e by linarith
    have v1: "unat (page_at va j) mod 2 ^ 21 = 0" unfolding u by (rule fr(2) [OF jl])
    have "(f + j) mod 512 = (f mod 512 + j) mod 512" by (simp only: mod_add_left_eq)
    also have "\<dots> = (unat va div 4096 + j) mod 512" unfolding f(1) by (simp only: mod_add_left_eq)
    finally have f1: "(f + j) mod 512 = 0" "f + j + (n - j) \<le> 2 ^ 18" using fr(3) [OF jl] f(2) jl by simp_all
    have fv: "boot_view (bt_mem s1) r (page_at (page_at va j) i) = None" if "i < n - j" for i
      by (rule maps_free [OF va r _ s1(4), of "n - j"]) (use n jl that free in auto)
    have k1: "lo_allocated_pages s1 + 8 \<le> 100" using k s1(3) by simp
    from map_rest_ok [OF r s1(2) v1 g1 f1 fv k1, of perms] obtain s2 where
      s2: "map_rest y (push_bit 12 r) perms (page_at va j) (of_nat ((f + j) * 4096)) (of_nat (n - j)) s1 = Inr s2"
        "boot_inv y roots s2" "lo_allocated_pages s2 \<le> lo_allocated_pages s1 + 5"
        "maps roots r (page_at va j) (f + j) (n - j) (perm_access perms) (bt_mem s1) (bt_mem s2)" by blast
    have "maps roots r va f (j + (n - j)) (perm_access perms) (bt_mem st) (bt_mem s2)"
      by (rule maps_append [OF va r _ s1(4) s2(4)]) (use n jl in simp)
    then have "maps roots r va f n (perm_access perms) (bt_mem st) (bt_mem s2)" using jl by simp
    then show ?thesis using run s2(1-3) s1(3) by auto
  qed
qed

section \<open>The whole map\<close>

text \<open>Pages of the high half, counted from \<open>VIRT_BASE\<close>.\<close>

definition high_page :: "u64 \<Rightarrow> nat" where "high_page s = (unat s - unat VIRT_BASE) div 4096"

definition high_page_up :: "u64 \<Rightarrow> nat" where "high_page_up s = (unat s - unat VIRT_BASE + 4095) div 4096"

definition test_page :: "symbols \<Rightarrow> nat" where
  "test_page y = (unat (test_phys_loc y) + unat (test_size y) + 4095) div 4096"

text \<open>What the linker script guarantees: the order of the sections, and that they fit in one GiB.\<close>

definition linked :: "symbols \<Rightarrow> bool" where
  "linked y \<longleftrightarrow> VIRT_BASE \<le> kernel_high_start y \<and> VIRT_BASE \<le> text_start y \<and> text_start y \<le> text_end y \<and>
     VIRT_BASE \<le> rodata_start y \<and> rodata_start y \<le> rodata_end y \<and> VIRT_BASE \<le> bss_start y \<and> bss_start y \<le> bss_end y \<and>
     VIRT_BASE \<le> kstack_bottom_hi y \<and> kstack_bottom_hi y \<le> kstack_top_hi y \<and>
     VIRT_BASE \<le> page_frame_array_start y \<and> page_frame_array_start y \<le> page_frame_array_end y \<and>
     VIRT_BASE \<le> static_page_region_start y \<and> static_page_region_start y AND 0xFFF = 0 \<and>
     high_page (kernel_high_start y) \<le> high_page (text_start y) \<and>
     high_page_up (text_end y) \<le> high_page (rodata_start y) \<and>
     high_page_up (rodata_end y) \<le> high_page (bss_start y) \<and>
     high_page_up (bss_end y) \<le> high_page (kstack_bottom_hi y) \<and>
     high_page_up (kstack_top_hi y) \<le> high_page (page_frame_array_start y) \<and>
     high_page_up (page_frame_array_end y) \<le> high_page (static_page_region_start y) \<and>
     high_page (static_page_region_start y) + 100 \<le> test_page y \<and>
     unat (test_phys_loc y) + unat (test_size y) \<le> 2 ^ 30 \<and>
     static_page_region_start_phys y = static_page_region_start y - VIRT_BASE \<and> static_page_region_pages y = 100 \<and>
     enable_mmu_loc y < 2 ^ 30"

definition between :: "nat \<Rightarrow> nat \<Rightarrow> permissions \<Rightarrow> (nat \<Rightarrow> permissions option) \<Rightarrow> nat \<Rightarrow> permissions option" where
  "between a b perms S p = (if a \<le> p \<and> p < b then Some perms else S p)"

definition boot_spec :: "symbols \<Rightarrow> nat \<Rightarrow> permissions option" where
  "boot_spec y =
     between (test_page y) (2 ^ 18) RW
    (between (high_page (page_frame_array_start y)) (high_page_up (page_frame_array_end y)) RW
    (between (high_page (kstack_bottom_hi y)) (high_page_up (kstack_top_hi y)) RW
    (between (high_page (static_page_region_start y)) (high_page (static_page_region_start y) + 100) RW
    (between (high_page (bss_start y)) (high_page_up (bss_end y)) RW
    (between (high_page (rodata_start y)) (high_page_up (rodata_end y)) RO
    (between (high_page (text_start y)) (high_page_up (text_end y)) RX
    (between 0 (high_page (kernel_high_start y)) RW (\<lambda>p. None))))))))"

definition high_view :: "u64 \<Rightarrow> (nat \<Rightarrow> permissions option) \<Rightarrow> boot \<Rightarrow> bool" where
  "high_view r S st \<longleftrightarrow> (\<forall>p<2 ^ 18. boot_view (bt_mem st) r (page_at VIRT_BASE p) =
     map_option (\<lambda>perms. (of_nat p, perm_access perms)) (S p))"

lemma high_address:
  assumes "p \<le> 2 ^ 18"
  shows "unat (page_at VIRT_BASE p) = unat VIRT_BASE + p * 4096"
  using assms unfolding page_at_nat unat_of_nat by (simp add: VIRT_BASE_def)

lemma high_step:
  assumes inv: "boot_inv y roots st" and r: "r \<in> roots" and hv: "high_view r S st" and ab: "a \<le> b" "b \<le> 2 ^ 18"
    and free: "\<And>p. a \<le> p \<Longrightarrow> p < b \<Longrightarrow> S p = None" and k: "lo_allocated_pages st + 11 \<le> 100"
  shows "\<exists>st'. map_lo y (page_at VIRT_BASE a) (of_nat (a * 4096)) (of_nat (b - a)) (push_bit 12 r) perms st = Inr st' \<and>
    boot_inv y roots st' \<and> lo_allocated_pages st' \<le> lo_allocated_pages st + 8 \<and> high_view r (between a b perms S) st' \<and>
    (\<forall>s\<in>roots. s \<noteq> r \<longrightarrow> (\<forall>x. boot_view (bt_mem st') s x = boot_view (bt_mem st) s x))"
proof -
  have u: "unat (page_at VIRT_BASE a) = unat VIRT_BASE + a * 4096" by (rule high_address) (use ab in simp)
  have V: "unat VIRT_BASE = 2 ^ 30 * 0x3FFFE0000" by (simp add: VIRT_BASE_def)
  have gib: "in_gib (page_at VIRT_BASE a) (b - a)"
  proof -
    have "(unat VIRT_BASE + a * 4096) mod 2 ^ 30 = a * 4096 mod 2 ^ 30" unfolding V by (rule mod_mult_self4)
    moreover have "a * 4096 mod 2 ^ 30 \<le> a * 4096" by simp
    moreover have "a * 4096 + (b - a) * 4096 = b * 4096" using ab by (simp add: add_mult_distrib [symmetric])
    moreover have "(unat VIRT_BASE + a * 4096) mod 4096 = 0" unfolding V by simp
    ultimately show ?thesis using ab(2) unfolding in_gib_def u by simp
  qed
  have l: "unat (page_at VIRT_BASE a) + 2 ^ 30 < 2 ^ 64" using ab unfolding u V by simp
  have "(unat VIRT_BASE + a * 4096) div 4096 = 512 * 8796025913344 + a" by (simp add: VIRT_BASE_def)
  then have f1: "a mod 512 = unat (page_at VIRT_BASE a) div 4096 mod 512" unfolding u by (simp only: mod_mult_self4)
  have fb: "a + (b - a) \<le> 2 ^ 18" using ab by simp
  have fr: "boot_view (bt_mem st) r (page_at (page_at VIRT_BASE a) i) = None" if "i < b - a" for i
  proof -
    have "a + i < 2 ^ 18" using that ab by simp
    then show ?thesis using hv [unfolded high_view_def, rule_format, of "a + i"] free [of "a + i"] that unfolding page_at_add by simp
  qed
  from map_lo_ok [OF r inv gib l f1 fb fr k, of perms] obtain st' where
    s: "map_lo y (page_at VIRT_BASE a) (of_nat (a * 4096)) (of_nat (b - a)) (push_bit 12 r) perms st = Inr st'"
      "boot_inv y roots st'" "lo_allocated_pages st' \<le> lo_allocated_pages st + 8"
      "maps roots r (page_at VIRT_BASE a) a (b - a) (perm_access perms) (bt_mem st) (bt_mem st')" by blast
  have vb: "VIRT_BASE AND 0xFFF = 0" by (simp add: VIRT_BASE_def)
  have "boot_view (bt_mem st') r (page_at VIRT_BASE p) = map_option (\<lambda>perms. (of_nat p, perm_access perms)) (between a b perms S p)"
    if p: "p < 2 ^ 18" for p
  proof (cases "a \<le> p \<and> p < b")
    case True
    then have "boot_view (bt_mem st') r (page_at (page_at VIRT_BASE a) (p - a)) = Some (of_nat (a + (p - a)), perm_access perms)"
      by (intro mapsD(1) [OF s(4)]) (simp add: diff_less_mono)
    then show ?thesis using True unfolding page_at_add by (simp add: between_def)
  next
    case False
    have "\<not> same_page (page_at VIRT_BASE p) (page_at (page_at VIRT_BASE a) i)" if "i < b - a" for i
    proof
      assume "same_page (page_at VIRT_BASE p) (page_at (page_at VIRT_BASE a) i)"
      then have "p = a + i" unfolding page_at_add using same_page_at [OF _ vb, of p "a + i"] p that ab by simp
      then show False using False that ab by simp
    qed
    then have "boot_view (bt_mem st') r (page_at VIRT_BASE p) = boot_view (bt_mem st) r (page_at VIRT_BASE p)"
      using mapsD(2) [OF s(4) r] by blast
    moreover have "between a b perms S p = S p" unfolding between_def by (rule if_not_P [OF False])
    ultimately show ?thesis using hv p unfolding high_view_def by simp
  qed
  then have "high_view r (between a b perms S) st'" unfolding high_view_def by blast
  moreover have "boot_view (bt_mem st') q x = boot_view (bt_mem st) q x" if "q \<in> roots" "q \<noteq> r" for q x
    using mapsD(2) [OF s(4) that(1)] that(2) by blast
  ultimately show ?thesis using s(1-3) by blast
qed

text \<open>The two roots.\<close>

lemma empty_node:
  assumes "\<And>i. i < 512 \<Longrightarrow> \<not> pte_valid (m (slot r i))" and "indices q" and "node m r q = Some t"
  shows "q = [] \<and> t = r"
  using assms by (cases q) auto

lemma boot_roots:
  assumes y: "boot_region y" and st: "lo_allocated_pages st = 0"
  shows "\<exists>s2. bindR (alloc_page_table_lo y st) (\<lambda>(pt_hi, s1). bindR (alloc_page_table_lo y s1) (\<lambda>(pt_lo, s2). F pt_hi pt_lo s2)) =
      F (push_bit 12 (boot_page y 0)) (push_bit 12 (boot_page y 1)) s2 \<and>
    boot_inv y {boot_page y 0, boot_page y 1} s2 \<and> lo_allocated_pages s2 = 2 \<and>
    (\<forall>r\<in>{boot_page y 0, boot_page y 1}. \<forall>x. boot_view (bt_mem s2) r x = None)"
proof -
  let ?a = "boot_page y 0" and ?b = "boot_page y 1"
  define s1 where "s1 = st\<lparr>lo_allocated_pages := 1, bt_mem := zero_page ?a (bt_mem st)\<rparr>"
  define s2 where "s2 = s1\<lparr>lo_allocated_pages := 2, bt_mem := zero_page ?b (bt_mem s1)\<rparr>"
  have a18: "?a < 2 ^ 18" "?b < 2 ^ 18" using unat_boot_page(2) [OF y] by simp_all
  have ne: "?a \<noteq> ?b" using boot_page_inj [OF y, of 0 1] by simp
  have run: "alloc_page_table_lo y st = Inr (push_bit 12 ?a, s1)" "alloc_page_table_lo y s1 = Inr (push_bit 12 ?b, s2)"
    using alloc_lo_ok [OF y, of st] alloc_lo_ok [OF y, of s1] st by (simp_all add: s1_def s2_def numeral_2_eq_2)
  have z: "bt_mem s2 (slot r i) = 0" if "r \<in> {?a, ?b}" "i < 512" for r i
    using that a18 ne by (auto simp: s2_def s1_def zero_page_slot)
  have n: "q = [] \<and> t = r" if "r \<in> {?a, ?b}" "indices q" "node (bt_mem s2) r q = Some t" for r q t
    using empty_node [OF _ that(2,3)] z [OF that(1)] by simp
  have "forest (tables (bt_mem s2)) {?a, ?b}"
    unfolding forest_def node_tables
  proof (intro conjI ballI allI impI)
    fix r q t assume "r \<in> {?a, ?b}" "indices q \<and> length q \<le> 3 \<and> node (bt_mem s2) r q = Some t"
    then show "t < 2 ^ 18" using n [of r q t] a18 by auto
  next
    fix r q t and i :: u64
    assume r: "r \<in> {?a, ?b}" and "indices q \<and> length q < 3 \<and> node (bt_mem s2) r q = Some t \<and> i < 512 \<and>
      pte_valid (tables (bt_mem s2) (slot t i))"
    then show "pte_type (tables (bt_mem s2) (slot t i))" using n [OF r, of q t] z [OF r, of i] by auto
  next
    fix r s q q' t assume rs: "r \<in> {?a, ?b}" "s \<in> {?a, ?b}"
      and a: "indices q \<and> length q \<le> 3 \<and> indices q' \<and> length q' \<le> 3 \<and> node (bt_mem s2) r q = Some t \<and> node (bt_mem s2) s q' = Some t"
    from n [OF rs(1), of q t] n [OF rs(2), of q' t] a show "r = s" "q = q'" by auto
  qed
  moreover have "blocks_ok (bt_mem s2) {?a, ?b}"
    unfolding blocks_ok_def using n z by fastforce
  moreover have "\<exists>k<lo_allocated_pages s2. t = boot_page y k" if "r \<in> {?a, ?b}" "indices q" "node (bt_mem s2) r q = Some t" for r q t
  proof -
    have "\<exists>k<2. ?a = boot_page y k" by (rule exI [of _ 0]) simp
    moreover have "\<exists>k<2. ?b = boot_page y k" by (rule exI [of _ 1]) simp
    ultimately show ?thesis using n [OF that] that(1) unfolding s2_def by auto
  qed
  ultimately have "boot_tables y {?a, ?b} s2" using y by (intro boot_tablesI) blast+
  moreover have "no_empty_table (bt_mem s2) {?a, ?b}" unfolding no_empty_table_def using n by fastforce
  moreover have "boot_view (bt_mem s2) r x = None" if "r \<in> {?a, ?b}" for r x
  proof -
    have e: "node (bt_mem s2) r q = None" if "q \<noteq> []" "indices q" for q
      using n [OF \<open>r \<in> {?a, ?b}\<close> that(2)] that(1) by (cases "node (bt_mem s2) r q") auto
    have "pt_path x \<noteq> []" by (simp add: pt_path_def)
    then have "node (bt_mem s2) r (pt_path x) = None" by (rule e) simp
    moreover have "node (bt_mem s2) r [pt_index 0 x, pt_index 1 x] = None" by (rule e) simp_all
    ultimately show ?thesis unfolding boot_view_def aspace_def leaf_def block_at_def node_tables option.case by simp
  qed
  ultimately show ?thesis using run by (intro exI [of _ s2]) (simp add: boot_inv_def s2_def)
qed

text \<open>The arguments that the mapping functions compute.\<close>

lemma high_bounds:
  assumes "VIRT_BASE \<le> s" and "s \<le> e" and "high_page_up e \<le> 2 ^ 18"
  shows "ALIGN_DOWN s 0x1000 = page_at VIRT_BASE (high_page s)" "ALIGN_UP e 0x1000 = page_at VIRT_BASE (high_page_up e)"
    "high_page s \<le> high_page_up e"
proof -
  have e: "(0x1000 :: u64) = 2 ^ 12" by simp
  have V: "unat VIRT_BASE = 4096 * 4503565267632128" by (simp add: VIRT_BASE_def)
  have gen: "(4096 * c + x) div 4096 * 4096 = 4096 * c + x div 4096 * 4096" for c x :: nat by simp
  define d where "d = unat s - unat VIRT_BASE"
  define d' where "d' = unat e - unat VIRT_BASE"
  have s: "unat s = unat VIRT_BASE + d" and e': "unat e = unat VIRT_BASE + d'" and dd: "d \<le> d'"
    using assms(1,2) by (simp_all add: d_def d'_def word_le_nat_alt)
  have p: "high_page s = d div 4096" "high_page_up e = (d' + 4095) div 4096" by (simp_all add: high_page_def high_page_up_def d_def d'_def)
  show le: "high_page s \<le> high_page_up e" unfolding p by (rule div_le_mono) (use dd in simp)
  have p18: "high_page s \<le> 2 ^ 18" using le assms(3) by simp
  have "unat (ALIGN_DOWN s 0x1000) = unat s div 4096 * 4096" unfolding e using unat_ALIGN_DOWN [of s 12] by simp
  also have "\<dots> = unat VIRT_BASE + high_page s * 4096" unfolding s p V by (rule gen)
  finally show "ALIGN_DOWN s 0x1000 = page_at VIRT_BASE (high_page s)"
    unfolding word_unat_eq_iff high_address [OF p18] .
  have d18: "d' + 4095 < 4096 * 2 ^ 18 + 4096" using assms(3) unfolding p by (simp add: less_mult_imp_div_less)
  have "unat (ALIGN_UP e 0x1000) = (unat e + 4095) div 4096 * 4096"
    unfolding e using unat_ALIGN_UP [of 12 e] d18 unfolding e' V by simp
  also have "\<dots> = unat VIRT_BASE + high_page_up e * 4096" unfolding e' p V add.assoc by (rule gen)
  finally show "ALIGN_UP e 0x1000 = page_at VIRT_BASE (high_page_up e)"
    unfolding word_unat_eq_iff high_address [OF assms(3)] .
qed

lemma high_count:
  assumes "a \<le> b" and "b \<le> 2 ^ 18"
  shows "ucast ((page_at VIRT_BASE b - page_at VIRT_BASE a) div 0x1000) = (of_nat (b - a) :: u32)"
    "page_at VIRT_BASE a - VIRT_BASE = of_nat (a * 4096)"
proof -
  have d: "page_at VIRT_BASE b - page_at VIRT_BASE a = of_nat ((b - a) * 4096)"
    using assms(1) by (simp add: of_nat_diff algebra_simps)
  have "unat (of_nat ((b - a) * 4096) div 0x1000 :: u64) = b - a"
  proof -
    have "unat (of_nat ((b - a) * 4096) :: u64) = (b - a) * 4096"
      unfolding unat_of_nat using assms(2) by (intro mod_less) simp
    then show ?thesis by (simp only: unat_div) simp
  qed
  moreover have "unat (of_nat (b - a) :: u64) = b - a" using assms(2) by (simp add: unsigned_of_nat take_bit_nat_eq_self)
  ultimately have "(of_nat ((b - a) * 4096) div 0x1000 :: u64) = of_nat (b - a)" by (simp only: word_unat_eq_iff)
  then show "ucast ((page_at VIRT_BASE b - page_at VIRT_BASE a) div 0x1000) = (of_nat (b - a) :: u32)"
    unfolding d using int_args(2) [of "b - a"] assms(2) by simp
  show "page_at VIRT_BASE a - VIRT_BASE = of_nat (a * 4096)" by simp
qed

text \<open>A range given by the addresses of its first byte and of the byte after its last one.\<close>

lemma high_range:
  assumes "VIRT_BASE \<le> s" and "s \<le> e" and "high_page_up e \<le> 2 ^ 18"
  shows "map_lo y (ALIGN_DOWN s 0x1000) (ALIGN_DOWN s 0x1000 - VIRT_BASE) (ucast ((ALIGN_UP e 0x1000 - ALIGN_DOWN s 0x1000) div 0x1000)) pt perms st =
    map_lo y (page_at VIRT_BASE (high_page s)) (of_nat (high_page s * 4096)) (of_nat (high_page_up e - high_page s)) pt perms st"
  using high_bounds [OF assms] high_count [of "high_page s" "high_page_up e"] assms(3) by simp

text \<open>Several ranges one after the other.\<close>

fun run_ranges :: "symbols \<Rightarrow> u64 \<Rightarrow> (nat \<times> nat \<times> permissions) list \<Rightarrow> boot \<Rightarrow> boot result" where
  "run_ranges y pt [] st = Inr st"
| "run_ranges y pt ((a, b, perms) # rs) st =
     bindR (map_lo y (page_at VIRT_BASE a) (of_nat (a * 4096)) (of_nat (b - a)) pt perms st) (run_ranges y pt rs)"

fun spec_ranges :: "(nat \<times> nat \<times> permissions) list \<Rightarrow> (nat \<Rightarrow> permissions option) \<Rightarrow> nat \<Rightarrow> permissions option" where
  "spec_ranges [] S = S"
| "spec_ranges ((a, b, perms) # rs) S = spec_ranges rs (between a b perms S)"

fun free_ranges :: "(nat \<times> nat \<times> permissions) list \<Rightarrow> (nat \<Rightarrow> permissions option) \<Rightarrow> bool" where
  "free_ranges [] S = True"
| "free_ranges ((a, b, perms) # rs) S \<longleftrightarrow>
     a \<le> b \<and> b \<le> 2 ^ 18 \<and> (\<forall>p. a \<le> p \<and> p < b \<longrightarrow> S p = None) \<and> free_ranges rs (between a b perms S)"

lemma high_steps:
  assumes r: "r \<in> roots"
  shows "boot_inv y roots st \<Longrightarrow> high_view r S st \<Longrightarrow> free_ranges rs S \<Longrightarrow> lo_allocated_pages st + 8 * length rs + 3 \<le> 100 \<Longrightarrow>
    \<exists>st'. run_ranges y (push_bit 12 r) rs st = Inr st' \<and> boot_inv y roots st' \<and>
      lo_allocated_pages st' \<le> lo_allocated_pages st + 8 * length rs \<and> high_view r (spec_ranges rs S) st' \<and>
      (\<forall>s\<in>roots. s \<noteq> r \<longrightarrow> (\<forall>x. boot_view (bt_mem st') s x = boot_view (bt_mem st) s x))"
proof (induction rs arbitrary: st S)
  case (Cons c rs)
  obtain a b perms where c: "c = (a, b, perms)" by (cases c)
  have fr: "a \<le> b" "b \<le> 2 ^ 18" "\<And>p. a \<le> p \<Longrightarrow> p < b \<Longrightarrow> S p = None" "free_ranges rs (between a b perms S)"
    using Cons.prems(3) by (simp_all add: c)
  have k: "lo_allocated_pages st + 11 \<le> 100" using Cons.prems(4) by simp
  from high_step [OF Cons.prems(1) r Cons.prems(2) fr(1-3) k, of perms] obtain s1 where
    s1: "map_lo y (page_at VIRT_BASE a) (of_nat (a * 4096)) (of_nat (b - a)) (push_bit 12 r) perms st = Inr s1"
      "boot_inv y roots s1" "lo_allocated_pages s1 \<le> lo_allocated_pages st + 8" "high_view r (between a b perms S) s1"
      "\<forall>s\<in>roots. s \<noteq> r \<longrightarrow> (\<forall>x. boot_view (bt_mem s1) s x = boot_view (bt_mem st) s x)" by blast
  have "lo_allocated_pages s1 + 8 * length rs + 3 \<le> 100" using Cons.prems(4) s1(3) by simp
  from Cons.IH [OF s1(2,4) fr(4) this] obtain s2 where
    s2: "run_ranges y (push_bit 12 r) rs s1 = Inr s2" "boot_inv y roots s2"
      "lo_allocated_pages s2 \<le> lo_allocated_pages s1 + 8 * length rs" "high_view r (spec_ranges rs (between a b perms S)) s2"
      "\<forall>s\<in>roots. s \<noteq> r \<longrightarrow> (\<forall>x. boot_view (bt_mem s2) s x = boot_view (bt_mem s1) s x)" by blast
  have "run_ranges y (push_bit 12 r) (c # rs) st = Inr s2" unfolding c run_ranges.simps s1(1) bindR_simps by (rule s2(1))
  moreover have "\<forall>s\<in>roots. s \<noteq> r \<longrightarrow> (\<forall>x. boot_view (bt_mem s2) s x = boot_view (bt_mem st) s x)" using s1(5) s2(5) by simp
  moreover have "lo_allocated_pages s2 \<le> lo_allocated_pages st + 8 * length (c # rs)" using s1(3) s2(3) by simp
  ultimately show ?case using s2(2,4) by (intro exI [of _ s2]) (simp add: c)
qed auto

lemma linkedD:
  assumes "linked y"
  shows "boot_region y" "high_page (kernel_high_start y) \<le> 2 ^ 18" "high_page_up (text_end y) \<le> 2 ^ 18"
    "high_page_up (rodata_end y) \<le> 2 ^ 18" "high_page_up (bss_end y) \<le> 2 ^ 18" "high_page_up (kstack_top_hi y) \<le> 2 ^ 18"
    "high_page_up (page_frame_array_end y) \<le> 2 ^ 18" "test_page y \<le> 2 ^ 18"
    "high_page (text_start y) \<le> high_page_up (text_end y)" "high_page (rodata_start y) \<le> high_page_up (rodata_end y)"
    "high_page (bss_start y) \<le> high_page_up (bss_end y)" "high_page (kstack_bottom_hi y) \<le> high_page_up (kstack_top_hi y)"
    "high_page (page_frame_array_start y) \<le> high_page_up (page_frame_array_end y)"
    "static_page_region_start y = page_at VIRT_BASE (high_page (static_page_region_start y))"
proof -
  have le: "high_page s \<le> high_page_up e" if "s \<le> e" for s e
    unfolding high_page_def high_page_up_def by (rule div_le_mono) (use that in \<open>simp add: word_le_nat_alt\<close>)
  show m: "high_page (text_start y) \<le> high_page_up (text_end y)" "high_page (rodata_start y) \<le> high_page_up (rodata_end y)"
    "high_page (bss_start y) \<le> high_page_up (bss_end y)" "high_page (kstack_bottom_hi y) \<le> high_page_up (kstack_top_hi y)"
    "high_page (page_frame_array_start y) \<le> high_page_up (page_frame_array_end y)"
    using assms le unfolding linked_def by blast+
  have t: "test_page y \<le> (2 ^ 30 + 4095) div 4096"
    using assms unfolding linked_def test_page_def by (intro div_le_mono) simp
  then show t18: "test_page y \<le> 2 ^ 18" by simp
  have o: "high_page (kernel_high_start y) \<le> high_page (text_start y)" "high_page_up (text_end y) \<le> high_page (rodata_start y)"
    "high_page_up (rodata_end y) \<le> high_page (bss_start y)" "high_page_up (bss_end y) \<le> high_page (kstack_bottom_hi y)"
    "high_page_up (kstack_top_hi y) \<le> high_page (page_frame_array_start y)"
    "high_page_up (page_frame_array_end y) \<le> high_page (static_page_region_start y)"
    "high_page (static_page_region_start y) + 100 \<le> test_page y"
    using assms unfolding linked_def by blast+
  show "high_page (kernel_high_start y) \<le> 2 ^ 18" "high_page_up (text_end y) \<le> 2 ^ 18"
    "high_page_up (rodata_end y) \<le> 2 ^ 18" "high_page_up (bss_end y) \<le> 2 ^ 18" "high_page_up (kstack_top_hi y) \<le> 2 ^ 18"
    "high_page_up (page_frame_array_end y) \<le> 2 ^ 18"
    using m o t18 by linarith+
  let ?s = "static_page_region_start y"
  have s: "VIRT_BASE \<le> ?s" "unat ?s mod 4096 = 0" "static_page_region_start_phys y = ?s - VIRT_BASE"
    using assms unfolding linked_def low_bits by blast+
  have V: "unat VIRT_BASE = 4096 * 4503565267632128" by (simp add: VIRT_BASE_def)
  have u: "unat (?s - VIRT_BASE) = unat ?s - unat VIRT_BASE" using s(1) by (simp add: unat_sub word_le_nat_alt)
  have sV: "unat VIRT_BASE \<le> unat ?s" using s(1) by (simp add: word_le_nat_alt)
  obtain q where q: "unat ?s = 4096 * q" using mod_0_imp_dvd [OF s(2)] by (auto elim: dvdE)
  have hp: "high_page ?s = q - 4503565267632128" unfolding high_page_def q V diff_mult_distrib2 [symmetric] by simp
  have e: "unat ?s - unat VIRT_BASE = high_page ?s * 4096" unfolding hp q V diff_mult_distrib2 [symmetric] by simp
  have h18: "high_page ?s + 100 \<le> 2 ^ 18" using o(7) t18 by linarith
  have "(high_page ?s * 4096) mod 4096 = 0" by simp
  then show "boot_region y"
    unfolding boot_region_def s(3) low_bits u e using h18 by simp
  have "unat ?s = unat VIRT_BASE + high_page ?s * 4096" using e sV by linarith
  moreover have "high_page ?s \<le> 2 ^ 18" using h18 by linarith
  ultimately show "?s = page_at VIRT_BASE (high_page ?s)" using high_address word_unat_eq_iff by metis
qed

text \<open>The nine mapping functions are \<open>map_lo\<close> on these ranges.\<close>

definition first_ranges :: "symbols \<Rightarrow> (nat \<times> nat \<times> permissions) list" where
  "first_ranges y =
     [(0, high_page (kernel_high_start y), RW), (high_page (text_start y), high_page_up (text_end y), RX),
      (high_page (rodata_start y), high_page_up (rodata_end y), RO), (high_page (bss_start y), high_page_up (bss_end y), RW),
      (high_page (static_page_region_start y), high_page (static_page_region_start y) + 100, RW),
      (high_page (kstack_bottom_hi y), high_page_up (kstack_top_hi y), RW)]"

definition last_ranges :: "symbols \<Rightarrow> (nat \<times> nat \<times> permissions) list" where
  "last_ranges y =
     [(high_page (page_frame_array_start y), high_page_up (page_frame_array_end y), RW), (test_page y, 2 ^ 18, RW)]"

lemma map_ram_eq:
  assumes "linked y"
  shows "map_ram y pt st = map_lo y (page_at VIRT_BASE (test_page y)) (of_nat (test_page y * 4096)) (of_nat (2 ^ 18 - test_page y)) pt RW st"
proof -
  have e: "(0x1000 :: u64) = 2 ^ 12" by simp
  have b: "unat (test_phys_loc y) + unat (test_size y) \<le> 2 ^ 30" using assms unfolding linked_def by blast
  have s: "unat (test_phys_loc y + test_size y) = unat (test_phys_loc y) + unat (test_size y)"
    using b by (subst unat_add_lem [THEN iffD1]) simp_all
  have t18: "test_page y \<le> 2 ^ 18" by (rule linkedD(8) [OF assms])
  have "unat (ALIGN_UP (test_phys_loc y + test_size y) 0x1000) = test_page y * 4096"
    unfolding e using unat_ALIGN_UP [of 12 "test_phys_loc y + test_size y"] b s by (simp add: test_page_def)
  moreover have "unat (of_nat (test_page y * 4096) :: u64) = test_page y * 4096"
    unfolding unat_of_nat using t18 by (intro mod_less) simp
  ultimately have te: "ALIGN_UP (test_phys_loc y + test_size y) 0x1000 = of_nat (test_page y * 4096)" by (simp only: word_unat_eq_iff)
  have "(push_bit 30 1 :: u64) = of_nat (2 ^ 18 * 4096)" by (simp add: push_bit_eq_mult)
  then have "(push_bit 30 1 :: u64) - of_nat (test_page y * 4096) = page_at VIRT_BASE (2 ^ 18) - page_at VIRT_BASE (test_page y)"
    by simp
  then have "ucast ((push_bit 30 1 - of_nat (test_page y * 4096) :: u64) div 0x1000) = (of_nat (2 ^ 18 - test_page y) :: u32)"
    using high_count(1) [OF t18 order.refl] by (simp only:)
  then show ?thesis unfolding map_ram_def te Let_def by simp
qed

lemma map_functions:
  assumes "linked y"
  shows "run_ranges y pt (first_ranges y) st =
      bindR (map_pre_code y pt st) (\<lambda>s3. bindR (map_code y pt s3) (\<lambda>s4. bindR (map_rodata y pt s4) (\<lambda>s5.
      bindR (map_bss y pt s5) (\<lambda>s6. bindR (map_static_page_region y pt s6) (map_kernel_stack y pt)))))"
    "run_ranges y pt (last_ranges y) st = bindR (map_page_frame_array y pt st) (map_ram y pt)"
proof -
  note d = linkedD [OF assms]
  have l: "VIRT_BASE \<le> kernel_high_start y" "VIRT_BASE \<le> text_start y" "text_start y \<le> text_end y" "VIRT_BASE \<le> rodata_start y"
    "rodata_start y \<le> rodata_end y" "VIRT_BASE \<le> bss_start y" "bss_start y \<le> bss_end y" "VIRT_BASE \<le> kstack_bottom_hi y"
    "kstack_bottom_hi y \<le> kstack_top_hi y" "VIRT_BASE \<le> page_frame_array_start y" "page_frame_array_start y \<le> page_frame_array_end y"
    "static_page_region_pages y = 100"
    using assms unfolding linked_def by blast+
  have right: "bindR x Inr = x" for x :: "boot result" by (cases x) simp_all
  have pre: "map_pre_code y pt s = map_lo y (page_at VIRT_BASE 0) (of_nat (0 * 4096)) (of_nat (high_page (kernel_high_start y) - 0)) pt RW s" for s
  proof -
    have V: "unat VIRT_BASE = 4096 * 4503565267632128" by (simp add: VIRT_BASE_def)
    have "unat (ALIGN_DOWN (kernel_high_start y) 0x1000) = unat VIRT_BASE + high_page (kernel_high_start y) * 4096"
    proof -
      obtain x where x: "unat (kernel_high_start y) = 4096 * 4503565267632128 + x"
        using l(1) le_Suc_ex unfolding word_le_nat_alt V by blast
      have e: "(0x1000 :: u64) = 2 ^ 12" by simp
      have "(4096 * c + x) div 2 ^ 12 * 2 ^ 12 = 4096 * c + (4096 * c + x - 4096 * c) div 4096 * 4096" for c by simp
      then show ?thesis unfolding e unat_ALIGN_DOWN high_page_def V x .
    qed
    then have "ALIGN_DOWN (kernel_high_start y) 0x1000 = page_at VIRT_BASE (high_page (kernel_high_start y))"
      unfolding word_unat_eq_iff high_address [OF d(2)] .
    then show ?thesis using high_count(1) [of 0, OF _ d(2)] unfolding map_pre_code_def Let_def by simp
  qed
  have code: "map_code y pt s = map_lo y (page_at VIRT_BASE (high_page (text_start y))) (of_nat (high_page (text_start y) * 4096))
      (of_nat (high_page_up (text_end y) - high_page (text_start y))) pt RX s" for s
    unfolding map_code_def Let_def by (rule high_range [OF l(2,3) d(3)])
  have rod: "map_rodata y pt s = map_lo y (page_at VIRT_BASE (high_page (rodata_start y))) (of_nat (high_page (rodata_start y) * 4096))
      (of_nat (high_page_up (rodata_end y) - high_page (rodata_start y))) pt RO s" for s
    unfolding map_rodata_def Let_def by (rule high_range [OF l(4,5) d(4)])
  have bss: "map_bss y pt s = map_lo y (page_at VIRT_BASE (high_page (bss_start y))) (of_nat (high_page (bss_start y) * 4096))
      (of_nat (high_page_up (bss_end y) - high_page (bss_start y))) pt RW s" for s
    unfolding map_bss_def Let_def by (rule high_range [OF l(6,7) d(5)])
  have stk: "map_kernel_stack y pt s = map_lo y (page_at VIRT_BASE (high_page (kstack_bottom_hi y))) (of_nat (high_page (kstack_bottom_hi y) * 4096))
      (of_nat (high_page_up (kstack_top_hi y) - high_page (kstack_bottom_hi y))) pt RW s" for s
    unfolding map_kernel_stack_def Let_def by (rule high_range [OF l(8,9) d(6)])
  have pfa: "map_page_frame_array y pt s = map_lo y (page_at VIRT_BASE (high_page (page_frame_array_start y)))
      (of_nat (high_page (page_frame_array_start y) * 4096))
      (of_nat (high_page_up (page_frame_array_end y) - high_page (page_frame_array_start y))) pt RW s" for s
  proof -
    have "drop_bit 12 x = x div 0x1000" for x :: u64 by (simp add: drop_bit_eq_div)
    then show ?thesis unfolding map_page_frame_array_def Let_def using high_range [OF l(10,11) d(7)] by (simp only:)
  qed
  define n where "n = high_page (static_page_region_start y)"
  have sn: "static_page_region_start y = page_at VIRT_BASE n" unfolding n_def by (rule d(14))
  have "(ucast (100 :: u64) :: u32) = of_nat (n + 100 - n)" using int_args(2) [of 100] by simp
  then have spr: "map_static_page_region y pt s = map_lo y (page_at VIRT_BASE n) (of_nat (n * 4096)) (of_nat (n + 100 - n)) pt RW s" for s
    unfolding map_static_page_region_def Let_def l(12) sn by simp
  show "run_ranges y pt (first_ranges y) st =
      bindR (map_pre_code y pt st) (\<lambda>s3. bindR (map_code y pt s3) (\<lambda>s4. bindR (map_rodata y pt s4) (\<lambda>s5.
      bindR (map_bss y pt s5) (\<lambda>s6. bindR (map_static_page_region y pt s6) (map_kernel_stack y pt)))))"
    unfolding first_ranges_def run_ranges.simps pre code rod bss spr stk right n_def ..
  show "run_ranges y pt (last_ranges y) st = bindR (map_page_frame_array y pt st) (map_ram y pt)"
    unfolding last_ranges_def run_ranges.simps pfa map_ram_eq [OF assms] right ..
qed

lemma between_above: "b \<le> p \<Longrightarrow> S p = None \<Longrightarrow> between a b perms S p = None"
  by (simp add: between_def)

lemma between_below: "p < a \<Longrightarrow> S p = None \<Longrightarrow> between a b perms S p = None"
  by (simp add: between_def)

lemma free_all: "linked y \<Longrightarrow> free_ranges (first_ranges y @ last_ranges y) (\<lambda>p. None)"
proof -
  assume y: "linked y"
  have o: "high_page (kernel_high_start y) \<le> high_page (text_start y)" "high_page_up (text_end y) \<le> high_page (rodata_start y)"
    "high_page_up (rodata_end y) \<le> high_page (bss_start y)" "high_page_up (bss_end y) \<le> high_page (kstack_bottom_hi y)"
    "high_page_up (kstack_top_hi y) \<le> high_page (page_frame_array_start y)"
    "high_page_up (page_frame_array_end y) \<le> high_page (static_page_region_start y)"
    "high_page (static_page_region_start y) + 100 \<le> test_page y"
    using y unfolding linked_def by blast+
  note d = linkedD(2-13) [OF y]
  show ?thesis
    unfolding first_ranges_def last_ranges_def append_Cons append_Nil free_ranges.simps
    by (insert o d, intro conjI allI impI TrueI,
      (linarith | (elim conjE, (rule between_above, linarith | rule between_below, linarith)+, rule refl) | (elim conjE, rule refl))+)
qed

lemma free_append: "free_ranges (rs @ ss) S \<longleftrightarrow> free_ranges rs S \<and> free_ranges ss (spec_ranges rs S)"
  by (induction rs arbitrary: S) auto

lemma map_mmu_stub_ok:
  assumes y: "linked y" and r: "r \<in> roots" and inv: "boot_inv y roots st" and none: "\<And>x. boot_view (bt_mem st) r x = None"
    and k: "lo_allocated_pages st + 11 \<le> 100"
  shows "\<exists>st'. map_mmu_stub y (push_bit 12 r) st = Inr st' \<and> boot_inv y roots st' \<and>
    lo_allocated_pages st' \<le> lo_allocated_pages st + 8 \<and>
    (\<forall>x. boot_view (bt_mem st') r x =
       (if same_page x (ALIGN_DOWN (enable_mmu_loc y) 0x1000) then Some (drop_bit 12 (enable_mmu_loc y), perm_access RX) else None)) \<and>
    (\<forall>s\<in>roots. s \<noteq> r \<longrightarrow> (\<forall>x. boot_view (bt_mem st') s x = boot_view (bt_mem st) s x))"
proof -
  define e where "e = unat (enable_mmu_loc y) div 4096"
  have "unat (enable_mmu_loc y) < 2 ^ 30" using y unfolding linked_def by (simp add: word_less_nat_alt)
  then have e18: "e < 2 ^ 18" by (simp add: e_def)
  have ue: "unat (of_nat (e * 4096) :: u64) = e * 4096" unfolding unat_of_nat using e18 by (intro mod_less) simp
  have "unat (ALIGN_DOWN (enable_mmu_loc y) 0x1000) = e * 4096"
    using unat_ALIGN_DOWN [of "enable_mmu_loc y" 12] by (simp add: e_def)
  then have ad: "ALIGN_DOWN (enable_mmu_loc y) 0x1000 = of_nat (e * 4096)" unfolding word_unat_eq_iff ue .
  have "unat (drop_bit 12 (enable_mmu_loc y)) = e" by (simp add: unat_drop_bit_eq drop_bit_eq_div [where 'a = nat] e_def)
  moreover have "unat (of_nat e :: u64) = e" using e18 by (simp add: unsigned_of_nat take_bit_nat_eq_self)
  ultimately have de: "drop_bit 12 (enable_mmu_loc y) = of_nat e" by (simp only: word_unat_eq_iff)
  have gib: "in_gib (of_nat (e * 4096)) 1" and l: "unat (of_nat (e * 4096) :: u64) + 2 ^ 30 < 2 ^ 64"
    and f: "e mod 512 = unat (of_nat (e * 4096) :: u64) div 4096 mod 512" "e + 1 \<le> 2 ^ 18"
    using e18 unfolding in_gib_def ue by simp_all
  from map_lo_ok [OF r inv gib l f none k, of RX] obtain st' where
    s: "map_lo y (of_nat (e * 4096)) (of_nat (e * 4096)) (of_nat 1) (push_bit 12 r) RX st = Inr st'" "boot_inv y roots st'"
      "lo_allocated_pages st' \<le> lo_allocated_pages st + 8"
      "maps roots r (of_nat (e * 4096)) e 1 (perm_access RX) (bt_mem st) (bt_mem st')" by blast
  have "boot_view (bt_mem st') r x = (if same_page x (of_nat (e * 4096)) then Some (of_nat e, perm_access RX) else None)" for x
  proof (cases "same_page x (of_nat (e * 4096))")
    case True
    then show ?thesis using mapsD(1) [OF s(4), of 0] view_same_page [OF True] by simp
  next
    case False
    then show ?thesis using mapsD(2) [OF s(4) r, of x] none by simp
  qed
  moreover have "map_mmu_stub y (push_bit 12 r) st = Inr st'" unfolding map_mmu_stub_def Let_def ad using s(1) by simp
  moreover have "boot_view (bt_mem st') q x = boot_view (bt_mem st) q x" if "q \<in> roots" "q \<noteq> r" for q x
    using mapsD(2) [OF s(4) that(1)] that(2) by blast
  ultimately show ?thesis using s(2,3) unfolding ad de by blast
qed

text \<open>
  C7. The boot map. For every image that the linker script allows, \<open>map_high\<close> builds its tables with at
  most 74 of the 100 pages of the static region. In the high half each of the first 2^18 pages is
  then mapped as the sections demand, to the frame of the same number: the code executable and
  read-only, the constants read-only, the early memory, zeroed data, stack, page-frame array, static
  region and the rest of the first GiB writable, and nothing else is mapped. The low half maps the
  page of \<open>enable_mmu\<close> to itself and nothing else. Tables never overlap.
\<close>

theorem boot_map_correct:
  assumes y: "linked y" and st: "lo_allocated_pages st = 0"
  shows "\<exists>hi lo st'. map_high y st = Inr (push_bit 12 hi, push_bit 12 lo, st') \<and>
    lo_allocated_pages st' \<le> 74 \<and> boot_inv y {hi, lo} st' \<and>
    (\<forall>p<2 ^ 18. boot_view (bt_mem st') hi (page_at VIRT_BASE p) = map_option (\<lambda>perms. (of_nat p, perm_access perms)) (boot_spec y p)) \<and>
    (\<forall>x. boot_view (bt_mem st') lo x =
       (if same_page x (ALIGN_DOWN (enable_mmu_loc y) 0x1000) then Some (drop_bit 12 (enable_mmu_loc y), perm_access RX) else None))"
proof -
  let ?hi = "boot_page y 0" and ?lo = "boot_page y 1"
  let ?R = "{?hi, ?lo}"
  note br = linkedD(1) [OF y]
  have ne: "?hi \<noteq> ?lo" using boot_page_inj [OF br, of 0 1] by simp
  define rest where "rest = (\<lambda>pt_hi pt_lo s2. bindR (run_ranges y pt_hi (first_ranges y) s2) (\<lambda>s8. bindR (map_mmu_stub y pt_lo s8) (\<lambda>s9.
    bindR (run_ranges y pt_hi (last_ranges y) s9) (\<lambda>s11. Inr (pt_hi, pt_lo, s11)))))"
  have mh: "map_high y st = bindR (alloc_page_table_lo y st) (\<lambda>(pt_hi, s1). bindR (alloc_page_table_lo y s1) (\<lambda>(pt_lo, s2). rest pt_hi pt_lo s2))"
    unfolding map_high_def rest_def map_functions [OF y] bindR_assoc ..
  from boot_roots [OF br st, of rest, folded mh] obtain s2 where
    s2: "map_high y st = rest (push_bit 12 ?hi) (push_bit 12 ?lo) s2" "boot_inv y ?R s2" "lo_allocated_pages s2 = 2"
      "\<forall>r\<in>?R. \<forall>x. boot_view (bt_mem s2) r x = None"
    by blast
  have hv: "high_view ?hi (\<lambda>p. None) s2" using s2(4) by (simp add: high_view_def)
  have fr: "free_ranges (first_ranges y) (\<lambda>p. None)" "free_ranges (last_ranges y) (spec_ranges (first_ranges y) (\<lambda>p. None))"
    using free_all [OF y] unfolding free_append by blast+
  have k: "lo_allocated_pages s2 + 8 * length (first_ranges y) + 3 \<le> 100" using s2(3) by (simp add: first_ranges_def)
  have in_R: "?hi \<in> ?R" "?lo \<in> ?R" by simp_all
  from high_steps [OF in_R(1) s2(2) hv fr(1) k] obtain s8 where
    s8: "run_ranges y (push_bit 12 ?hi) (first_ranges y) s2 = Inr s8" "boot_inv y ?R s8" "lo_allocated_pages s8 \<le> 50"
      "high_view ?hi (spec_ranges (first_ranges y) (\<lambda>p. None)) s8"
      "\<And>x. boot_view (bt_mem s8) ?lo x = None"
    using s2(3,4) ne by (auto simp: first_ranges_def)
  have k8: "lo_allocated_pages s8 + 11 \<le> 100" using s8(3) by simp
  from map_mmu_stub_ok [OF y in_R(2) s8(2,5) k8] obtain s9 where
    s9: "map_mmu_stub y (push_bit 12 ?lo) s8 = Inr s9" "boot_inv y ?R s9" "lo_allocated_pages s9 \<le> lo_allocated_pages s8 + 8"
      "\<And>x. boot_view (bt_mem s9) ?lo x =
         (if same_page x (ALIGN_DOWN (enable_mmu_loc y) 0x1000) then Some (drop_bit 12 (enable_mmu_loc y), perm_access RX) else None)"
      "\<And>r x. r \<in> ?R \<Longrightarrow> r \<noteq> ?lo \<Longrightarrow> boot_view (bt_mem s9) r x = boot_view (bt_mem s8) r x" by blast
  have hv9: "high_view ?hi (spec_ranges (first_ranges y) (\<lambda>p. None)) s9"
    using s8(4) s9(5) [OF in_R(1) ne] unfolding high_view_def by simp
  have k9: "lo_allocated_pages s9 + 8 * length (last_ranges y) + 3 \<le> 100" using s8(3) s9(3) by (simp add: last_ranges_def)
  from high_steps [OF in_R(1) s9(2) hv9 fr(2) k9] obtain s11 where
    s11: "run_ranges y (push_bit 12 ?hi) (last_ranges y) s9 = Inr s11" "boot_inv y ?R s11"
      "lo_allocated_pages s11 \<le> lo_allocated_pages s9 + 16"
      "high_view ?hi (spec_ranges (last_ranges y) (spec_ranges (first_ranges y) (\<lambda>p. None))) s11"
      "\<And>x. boot_view (bt_mem s11) ?lo x = boot_view (bt_mem s9) ?lo x"
    using ne by (auto simp: last_ranges_def)
  have spec: "spec_ranges (last_ranges y) (spec_ranges (first_ranges y) (\<lambda>p. None)) = boot_spec y" 
    by (simp add: last_ranges_def first_ranges_def boot_spec_def)
  have "map_high y st = Inr (push_bit 12 ?hi, push_bit 12 ?lo, s11)"
    unfolding s2(1) rest_def s8(1) bindR_simps s9(1) s11(1) ..
  moreover have "lo_allocated_pages s11 \<le> 74" using s8(3) s9(3) s11(3) by simp
  ultimately show ?thesis
    using s11(2,4,5) s9(4) unfolding spec high_view_def by (intro exI [of _ ?hi] exI [of _ ?lo] exI [of _ s11]) simp
qed

text \<open>An image laid out by the linker script, with two pages of initialised data behind the constants.\<close>

definition demo_image :: symbols where
  "demo_image = \<lparr>kernel_high_start = VIRT_BASE + 0x80000, text_start = VIRT_BASE + 0x85010, text_end = VIRT_BASE + 0xA0000,
     rodata_start = VIRT_BASE + 0xA0000, rodata_end = VIRT_BASE + 0xE0000, bss_start = VIRT_BASE + 0xE2100,
     bss_end = VIRT_BASE + 0xF0010, static_page_region_start = VIRT_BASE + 0x8F3000, static_page_region_start_phys = 0x8F3000,
     static_page_region_pages = 100, kstack_bottom_hi = VIRT_BASE + 0xF1000, kstack_top_hi = VIRT_BASE + 0xF3000,
     page_frame_array_start = VIRT_BASE + 0xF3000, page_frame_array_end = VIRT_BASE + 0x8F3000,
     test_phys_loc = 0x957000, test_size = 0x3000, enable_mmu_loc = 0x80400\<rparr>"

lemma demo_image_pages:
  "high_page (kernel_high_start demo_image) = 0x80" "high_page (text_start demo_image) = 0x85" "high_page_up (text_end demo_image) = 0xA0"
  "high_page (rodata_start demo_image) = 0xA0" "high_page_up (rodata_end demo_image) = 0xE0" "high_page (bss_start demo_image) = 0xE2"
  "high_page_up (bss_end demo_image) = 0xF1" "high_page (kstack_bottom_hi demo_image) = 0xF1" "high_page_up (kstack_top_hi demo_image) = 0xF3"
  "high_page (page_frame_array_start demo_image) = 0xF3" "high_page_up (page_frame_array_end demo_image) = 0x8F3"
  "high_page (static_page_region_start demo_image) = 0x8F3" "test_page demo_image = 0x95A"
  by (simp_all add: demo_image_def high_page_def high_page_up_def test_page_def VIRT_BASE_def)

lemma demo_linked: "linked demo_image"
  unfolding linked_def demo_image_pages by (simp add: demo_image_def VIRT_BASE_def)

theorem boot_map_correct_witness:
  "\<exists>hi lo st'. map_high demo_image \<lparr>bt_mem = (\<lambda>_. 7), lo_allocated_pages = 0\<rparr> = Inr (push_bit 12 hi, push_bit 12 lo, st') \<and>
     boot_view (bt_mem st') hi (page_at VIRT_BASE 0x90) = Some (0x90, 2, False) \<and>
     boot_view (bt_mem st') hi (page_at VIRT_BASE 0x300) = Some (0x300, 0, True) \<and>
     boot_view (bt_mem st') hi (page_at VIRT_BASE 0xE1) = None"
proof -
  obtain hi lo st' where
    s: "map_high demo_image \<lparr>bt_mem = (\<lambda>_. 7), lo_allocated_pages = 0\<rparr> = Inr (push_bit 12 hi, push_bit 12 lo, st')"
    and v: "\<forall>p<2 ^ 18. boot_view (bt_mem st') hi (page_at VIRT_BASE p) =
       map_option (\<lambda>perms. (of_nat p, perm_access perms)) (boot_spec demo_image p)"
    using boot_map_correct [OF demo_linked, where st = "\<lparr>bt_mem = (\<lambda>_. 7), lo_allocated_pages = 0\<rparr>"] by auto
  have "boot_spec demo_image 0x90 = Some RX" "boot_spec demo_image 0x300 = Some RW" "boot_spec demo_image 0xE1 = None"
    by (simp_all add: boot_spec_def between_def demo_image_pages)
  moreover have "boot_view (bt_mem st') hi (page_at VIRT_BASE p) = map_option (\<lambda>perms. (of_nat p, perm_access perms)) (boot_spec demo_image p)"
    if "p < 2 ^ 18" for p using v that by blast
  from this [of "0x90"] this [of "0x300"] this [of "0xE1"] calculation
  have "boot_view (bt_mem st') hi (page_at VIRT_BASE 0x90) = Some (0x90, 2, False)"
    "boot_view (bt_mem st') hi (page_at VIRT_BASE 0x300) = Some (0x300, 0, True)"
    "boot_view (bt_mem st') hi (page_at VIRT_BASE 0xE1) = None" by simp_all
  then show ?thesis using s by blast
qed

end
