(* ===== verification/Scheduler_Correct.thy ===== *)
theory Scheduler_Correct
  imports Scheduler
begin

text \<open>
  The scheduler's invariant: the run queue holds exactly the ready processes, one process runs, and
  a process on no queue points to itself. It survives timer ticks, blocking, waking, process
  creation and exit in any order. The queue is served last-in first-out, so with three runnable
  processes one of them never runs.
\<close>

section \<open>Queues\<close>

definition queue_of :: "lnode list_head_t \<Rightarrow> ptr list \<Rightarrow> bool" where
  "queue_of L Q \<longleftrightarrow> dlist L Head (map Node Q) \<and> (\<forall>p. p \<notin> set Q \<longrightarrow> unlinked L (Node p))"

lemma queue_ofD:
  assumes "queue_of L Q"
  shows "dlist L Head (map Node Q)" "\<And>p. p \<notin> set Q \<Longrightarrow> unlinked L (Node p)" "distinct Q"
    "list_empty Head L \<longleftrightarrow> Q = []" "Q = p # Q' \<Longrightarrow> lnext L Head = Node p"
proof -
  show d: "dlist L Head (map Node Q)" and "\<And>p. p \<notin> set Q \<Longrightarrow> unlinked L (Node p)"
    using assms by (simp_all add: queue_of_def)
  show "distinct Q" using dlist_distinct [OF d] by (simp add: distinct_map)
  show "list_empty Head L \<longleftrightarrow> Q = []" using dlist_empty [OF d] by simp
  show "Q = p # Q' \<Longrightarrow> lnext L Head = Node p" using dlist_next [OF d] by simp
qed

lemma queue_add:
  assumes q: "queue_of L Q" and p: "p \<notin> set Q"
  shows "queue_of (list_add (Node p) Head L) (p # Q)"
proof -
  have d: "dlist L Head (map Node Q)" by (rule queue_ofD(1) [OF q])
  have "dlist (list_add (Node p) Head L) Head (Node p # map Node Q)"
    by (rule dlist_add [OF d]) (use p in auto)
  moreover have "unlinked (list_add (Node p) Head L) (Node r)" if r: "r \<notin> set (p # Q)" for r
  proof -
    have "lnext L Head \<noteq> Node r" using dlist_next [OF d] r by (cases Q) auto
    then show ?thesis using queue_ofD(2) [OF q, of r] r by (auto simp: unlinked_def lprev_list_add)
  qed
  ultimately show ?thesis by (simp add: queue_of_def)
qed

lemma queue_pop:
  assumes q: "queue_of L (p # Q)"
  shows "queue_of (list_remove (Node p) L) Q"
proof -
  have d: "dlist L Head (Node p # map Node Q)" using queue_ofD(1) [OF q] by simp
  have dq: "distinct (p # Q)" by (rule queue_ofD(3) [OF q])
  have "dlist (list_remove (Node p) L) Head ([] @ map Node Q) \<and> unlinked (list_remove (Node p) L) (Node p)"
    using dlist_remove [of L Head "[]" "Node p" "map Node Q"] d by simp
  moreover have "unlinked (list_remove (Node p) L) (Node r)" if r: "r \<notin> set Q" "r \<noteq> p" for r
  proof -
    have h: "lprev L (Node p) = Head" "lnext L (Node p) = hd (map Node Q @ [Head])"
      using d seg_nextD [of L "Node p" "map Node Q" Head] by (auto simp: dlist_def)
    then have "lprev L (Node p) \<noteq> Node r" "lnext L (Node p) \<noteq> Node r" using r by (cases Q; auto)+
    moreover have "unlinked L (Node r)" using queue_ofD(2) [OF q, of r] r by simp
    ultimately show ?thesis using r h(1) by (auto simp: unlinked_def lnext_list_remove lprev_list_remove)
  qed
  ultimately show ?thesis unfolding queue_of_def by (metis append_Nil)
qed

lemma queue_skip: "queue_of L Q \<Longrightarrow> p \<notin> set Q \<Longrightarrow> list_remove (Node p) L = L"
  by (rule list_remove_unlinked) (rule queue_ofD(2))

section \<open>The invariant\<close>

text \<open>\<open>P\<close> is the set of processes other than the idle process; \<open>Q\<close> the run queue.\<close>

definition queue_ready :: "ptr set \<Rightarrow> sched \<Rightarrow> ptr list \<Rightarrow> bool" where
  "queue_ready P st Q \<longleftrightarrow> queue_of (sc_runqueue st) Q \<and> set Q = {p \<in> P. state_of st p = PROCESS_READY} \<and>
     sc_idle st \<notin> P \<and> pid_of st (sc_idle st) = 0 \<and> (\<forall>p\<in>P. pid_of st p \<noteq> 0 \<and> p \<noteq> 0)"

definition sched_inv :: "ptr set \<Rightarrow> sched \<Rightarrow> ptr list \<Rightarrow> bool" where
  "sched_inv P st Q \<longleftrightarrow> queue_ready P st Q \<and> sc_current st \<in> insert (sc_idle st) P \<and>
     state_of st (sc_current st) = PROCESS_RUNNING \<and>
     (\<forall>p\<in>P. state_of st p = PROCESS_RUNNING \<longrightarrow> p = sc_current st)"

lemma queue_readyD:
  assumes "queue_ready P st Q"
  shows "queue_of (sc_runqueue st) Q" "set Q = {p \<in> P. state_of st p = PROCESS_READY}" "sc_idle st \<notin> P"
    "pid_of st (sc_idle st) = 0" "\<And>p. p \<in> P \<Longrightarrow> pid_of st p \<noteq> 0" "\<And>p. p \<in> P \<Longrightarrow> p \<noteq> 0"
  using assms by (simp_all add: queue_ready_def)

lemma sched_invD:
  assumes "sched_inv P st Q"
  shows "queue_ready P st Q" "sc_current st \<in> insert (sc_idle st) P" "state_of st (sc_current st) = PROCESS_RUNNING"
    "\<And>p. p \<in> P \<Longrightarrow> state_of st p = PROCESS_RUNNING \<Longrightarrow> p = sc_current st"
  using assms by (simp_all add: sched_inv_def)

lemma sched_invI:
  assumes "queue_ready P st Q" "sc_current st = n" "n \<in> insert (sc_idle st) P" "state_of st n = PROCESS_RUNNING"
    and "\<And>p. p \<in> P \<Longrightarrow> state_of st p = PROCESS_RUNNING \<Longrightarrow> p = n"
  shows "sched_inv P st Q"
  using assms unfolding sched_inv_def by blast

lemma set_state_sel [simp]:
  "sc_pcbs (set_state p s st) = (sc_pcbs st)(p := (sc_pcbs st p)\<lparr>pstate := s\<rparr>)"
  "sc_runqueue (set_state p s st) = sc_runqueue st" "sc_current (set_state p s st) = sc_current st"
  "sc_idle (set_state p s st) = sc_idle st" "sc_proclist (set_state p s st) = sc_proclist st"
  by (simp_all add: set_state_def set_pcb_def)

lemma set_runqueue_sel [simp]:
  "sc_runqueue (set_runqueue f st) = f (sc_runqueue st)" "sc_pcbs (set_runqueue f st) = sc_pcbs st"
  "sc_current (set_runqueue f st) = sc_current st" "sc_idle (set_runqueue f st) = sc_idle st"
  by (simp_all add: set_runqueue_def)

lemma pre_context_switch_sel [simp]:
  "sc_pcbs (pre_context_switch p st) = (sc_pcbs st)(p := (sc_pcbs st p)\<lparr>pstate := PROCESS_RUNNING\<rparr>)"
  "sc_runqueue (pre_context_switch p st) = sc_runqueue st" "sc_current (pre_context_switch p st) = p"
  "sc_idle (pre_context_switch p st) = sc_idle st"
  by (simp_all add: pre_context_switch_def)

text \<open>
  The state in which the scheduler is called: as the invariant, except that the current process
  may have stopped running, and nobody else runs.
\<close>

definition sched_pre :: "ptr set \<Rightarrow> sched \<Rightarrow> ptr list \<Rightarrow> bool" where
  "sched_pre P st Q \<longleftrightarrow> queue_ready P st Q \<and> sc_current st \<in> insert (sc_idle st) P \<and> sc_current st \<notin> set Q \<and>
     (\<forall>p\<in>P. state_of st p = PROCESS_RUNNING \<longrightarrow> p = sc_current st)"

lemma sched_preI:
  assumes "queue_ready P st Q" "sc_current st = n" "n \<in> insert (sc_idle st) P" "n \<notin> set Q"
    and "\<And>p. p \<in> P \<Longrightarrow> state_of st p = PROCESS_RUNNING \<Longrightarrow> p = n"
  shows "sched_pre P st Q"
  using assms unfolding sched_pre_def by blast

lemma inv_pre: "sched_inv P st Q \<Longrightarrow> sched_pre P st Q"
  by (auto simp: sched_inv_def sched_pre_def queue_ready_def)

text \<open>What the scheduler does: the process at the head runs, a process that was running goes there.\<close>

definition next_queue :: "sched \<Rightarrow> ptr list \<Rightarrow> ptr list" where
  "next_queue st Q =
     (if Q = [] then []
      else (if state_of st (sc_current st) = PROCESS_RUNNING \<and> sc_current st \<noteq> sc_idle st
            then sc_current st # tl Q else tl Q))"

definition next_process :: "sched \<Rightarrow> ptr list \<Rightarrow> ptr" where
  "next_process st Q =
     (if Q = [] then (if state_of st (sc_current st) = PROCESS_RUNNING then sc_current st else sc_idle st) else hd Q)"

lemma scheduler_step:
  assumes pre: "sched_pre P st Q"
  shows "\<exists>st'. scheduler st = Inr st' \<and> sched_inv P st' (next_queue st Q) \<and> sc_current st' = next_process st Q \<and>
    sc_idle st' = sc_idle st"
proof -
  have qr: "queue_ready P st Q" and cur: "sc_current st \<in> insert (sc_idle st) P" "sc_current st \<notin> set Q"
    and run: "\<And>p. p \<in> P \<Longrightarrow> state_of st p = PROCESS_RUNNING \<Longrightarrow> p = sc_current st"
    using pre by (auto simp: sched_pre_def)
  note q = queue_readyD [OF qr]
  note em = queue_ofD(4) [OF q(1)]
  show ?thesis
  proof (cases Q)
    case Nil
    show ?thesis
    proof (cases "state_of st (sc_current st) = PROCESS_RUNNING")
      case True
      then have "sched_inv P st []" using qr cur run Nil by (simp add: sched_inv_def)
      then show ?thesis using True Nil em by (simp add: scheduler_def next_queue_def next_process_def)
    next
      case False
      let ?s = "pre_context_switch (sc_idle st) st"
      have "sched_inv P ?s []"
        using q run False cur Nil unfolding sched_inv_def queue_ready_def by auto
      then show ?thesis using False Nil em by (simp add: scheduler_def next_queue_def next_process_def Let_def)
    qed
  next
    case (Cons n Q')
    have nx: "lnext (sc_runqueue st) Head = Node n" by (rule queue_ofD(5) [OF q(1) Cons])
    have n: "n \<in> P" "state_of st n = PROCESS_READY" using q(2) Cons by auto
    have nc: "n \<noteq> sc_current st" using cur(2) Cons by auto
    have nd: "n \<notin> set Q'" "distinct Q'" using queue_ofD(3) [OF q(1)] Cons by auto
    let ?a = "sc_current st"
    let ?s1 = "set_runqueue (list_remove (Node n)) st"
    have q1: "queue_of (sc_runqueue ?s1) Q'" using queue_pop q(1) Cons by simp
    have setQ: "set Q' = {p \<in> P. state_of st p = PROCESS_READY} - {n}" using q(2) Cons nd by auto
    show ?thesis
    proof (cases "state_of st ?a = PROCESS_RUNNING \<and> ?a \<noteq> sc_idle st")
      case True
      then have aP: "?a \<in> P" using cur by auto
      let ?s2 = "set_runqueue (list_add (Node ?a) Head) (set_state ?a PROCESS_READY ?s1)"
      have q2: "queue_of (sc_runqueue ?s2) (?a # Q')" using queue_add [OF q1, of ?a] cur(2) Cons by simp
      have "scheduler st = Inr (pre_context_switch n ?s2)"
        using em nx nc q(5) n(1) aP True Cons by (simp add: scheduler_def Let_def)
      let ?t = "pre_context_switch n ?s2"
      have tsel: "state_of ?t p = (if p = n then PROCESS_RUNNING else if p = ?a then PROCESS_READY else state_of st p)"
        "pid_of ?t p = pid_of st p" for p by simp_all
      have qrt: "queue_ready P ?t (?a # Q')"
        unfolding queue_ready_def
      proof (intro conjI ballI)
        show "queue_of (sc_runqueue ?t) (?a # Q')" using q2 by simp
        show "set (?a # Q') = {p \<in> P. state_of ?t p = PROCESS_READY}"
        proof (rule set_eqI)
          fix p show "p \<in> set (?a # Q') \<longleftrightarrow> p \<in> {p \<in> P. state_of ?t p = PROCESS_READY}"
            unfolding list.set insert_iff setQ tsel(1) mem_Collect_eq using aP nc by (cases "p = n"; cases "p = ?a") simp_all
        qed
        show "sc_idle ?t \<notin> P" "pid_of ?t (sc_idle ?t) = 0" unfolding tsel(2) using q(3,4) by simp_all
        fix p assume "p \<in> P"
        then show "pid_of ?t p \<noteq> 0" "p \<noteq> 0" unfolding tsel(2) using q(5,6) by simp_all
      qed
      have uniq: "p = n" if p: "p \<in> P" "state_of ?t p = PROCESS_RUNNING" for p
      proof (rule ccontr)
        assume "p \<noteq> n"
        then have "p \<noteq> ?a \<and> state_of st p = PROCESS_RUNNING" using p(2) unfolding tsel(1) by (cases "p = ?a") simp_all
        then show False using run [OF p(1)] by blast
      qed
      have "sched_inv P ?t (?a # Q')" by (rule sched_invI [OF qrt _ _ _ uniq]) (use n(1) in simp_all)
      moreover have "next_queue st Q = ?a # Q'" "next_process st Q = n"
        using True Cons by (simp_all add: next_queue_def next_process_def)
      ultimately show ?thesis using \<open>scheduler st = Inr ?t\<close> by simp
    next
      case False
      define s2 where "s2 = (if state_of st ?a = PROCESS_RUNNING then set_state ?a PROCESS_READY ?s1 else ?s1)"
      have ai: "state_of st ?a = PROCESS_RUNNING \<Longrightarrow> ?a = sc_idle st" using False by blast
      have s: "scheduler st = Inr (pre_context_switch n s2)"
      proof (cases "state_of st ?a = PROCESS_RUNNING")
        case True
        then show ?thesis using em nx nc q(4,5) n(1) ai Cons by (simp add: scheduler_def Let_def s2_def)
      next
        case False
        then show ?thesis using em nx nc q(4,5) n(1) Cons by (simp add: scheduler_def Let_def s2_def)
      qed
      have sel: "sc_runqueue s2 = sc_runqueue ?s1" "sc_idle s2 = sc_idle st" "\<And>p. pid_of s2 p = pid_of st p"
        "\<And>p. p \<noteq> ?a \<Longrightarrow> state_of s2 p = state_of st p" "state_of s2 ?a \<noteq> PROCESS_RUNNING"
        using ai by (simp_all add: s2_def)
      have selP: "state_of s2 p = state_of st p" if "p \<in> P" for p
      proof (cases "p = ?a")
        case True
        then have "state_of st ?a \<noteq> PROCESS_RUNNING" using ai q(3) that by auto
        then show ?thesis by (simp add: s2_def)
      qed (rule sel(4))
      let ?t = "pre_context_switch n s2"
      have tsel: "state_of ?t p = (if p = n then PROCESS_RUNNING else state_of s2 p)" "pid_of ?t p = pid_of st p" for p
        using sel(3) by simp_all
      have qrt: "queue_ready P ?t Q'"
        unfolding queue_ready_def
      proof (intro conjI ballI)
        show "queue_of (sc_runqueue ?t) Q'" using q1 sel(1) by simp
        show "set Q' = {p \<in> P. state_of ?t p = PROCESS_READY}"
        proof (rule set_eqI)
          fix p show "p \<in> set Q' \<longleftrightarrow> p \<in> {p \<in> P. state_of ?t p = PROCESS_READY}"
            unfolding setQ tsel(1) mem_Collect_eq using selP [of p] by (cases "p = n"; cases "p \<in> P") simp_all
        qed
        show "sc_idle ?t \<notin> P" "pid_of ?t (sc_idle ?t) = 0" unfolding tsel(2) using q(3,4) sel(2) by simp_all
        fix p assume "p \<in> P"
        then show "pid_of ?t p \<noteq> 0" "p \<noteq> 0" unfolding tsel(2) using q(5,6) by simp_all
      qed
      have uniq: "p = n" if p: "p \<in> P" "state_of ?t p = PROCESS_RUNNING" for p
      proof (rule ccontr)
        assume "p \<noteq> n"
        then have "state_of s2 p = PROCESS_RUNNING" using p(2) tsel(1) by simp
        then show False using run [OF p(1)] selP [OF p(1)] sel(5) by simp
      qed
      have "sched_inv P ?t Q'" by (rule sched_invI [OF qrt _ _ _ uniq]) (use n(1) in simp_all)
      moreover have "next_queue st Q = Q'" "next_process st Q = n"
        using False Cons by (auto simp: next_queue_def next_process_def)
      ultimately show ?thesis using s sel(2) by simp
    qed
  qed
qed

section \<open>The other operations\<close>

text \<open>Processes change state without entering or leaving the queue, apart from the one named.\<close>

lemma queue_ready_cong:
  assumes qr: "queue_ready P st Q" and r: "queue_of (sc_runqueue s) Q'" and id: "sc_idle s = sc_idle st"
    and pd: "\<And>p. pid_of s p = pid_of st p" and Q': "set Q' = {p \<in> P'. state_of s p = PROCESS_READY}"
    and P': "\<And>p. p \<in> P' \<Longrightarrow> p \<in> P \<or> (p \<noteq> 0 \<and> p \<noteq> sc_idle st \<and> pid_of st p \<noteq> 0)"
  shows "queue_ready P' s Q'"
  unfolding queue_ready_def pd id using queue_readyD [OF qr] r Q' P' by blast

lemma reschedule_inv:
  assumes inv: "sched_inv P st Q" and p: "p \<in> P" "state_of st p = PROCESS_BLOCKED"
  shows "\<exists>st'. reschedule p st = Inr st' \<and> sched_inv P st' (p # Q) \<and> sc_current st' = sc_current st"
proof -
  note i = sched_invD [OF inv] and q = queue_readyD [OF sched_invD(1) [OF inv]]
  let ?s = "set_runqueue (list_add (Node p) Head) (set_state p PROCESS_READY st)"
  have pq: "p \<notin> set Q" using q(2) p by simp
  have pc: "p \<noteq> sc_current st" using i(3) p by auto
  have st: "state_of ?s r = (if r = p then PROCESS_READY else state_of st r)" for r by simp
  have qr: "queue_ready P ?s (p # Q)"
  proof (rule queue_ready_cong [OF i(1)])
    show "queue_of (sc_runqueue ?s) (p # Q)" using queue_add [OF q(1) pq] by simp
    show "set (p # Q) = {r \<in> P. state_of ?s r = PROCESS_READY}"
    proof (rule set_eqI)
      fix r show "r \<in> set (p # Q) \<longleftrightarrow> r \<in> {r \<in> P. state_of ?s r = PROCESS_READY}"
        unfolding list.set insert_iff q(2) mem_Collect_eq st using p(1) by (cases "r = p") simp_all
    qed
  qed simp_all
  have run: "r = sc_current st" if r: "r \<in> P" "state_of ?s r = PROCESS_RUNNING" for r
  proof -
    have "state_of st r = PROCESS_RUNNING" using r(2) unfolding st by (cases "r = p") simp_all
    then show ?thesis by (rule i(4) [OF r(1)])
  qed
  have "sched_inv P ?s (p # Q)"
    by (rule sched_invI [OF qr _ _ _ run]) (use i(2,3) pc in simp_all)
  then show ?thesis using q(6) [OF p(1)] by (simp add: reschedule_def)
qed

lemma add_to_schedule_inv:
  assumes inv: "sched_inv P st Q" and p: "p \<notin> P" "p \<noteq> sc_idle st" "p \<noteq> 0" "pid_of st p \<noteq> 0"
  shows "sched_inv (insert p P) (add_to_schedule p st) (p # Q)"
proof -
  note i = sched_invD [OF inv] and q = queue_readyD [OF sched_invD(1) [OF inv]]
  let ?s = "add_to_schedule p st"
  have pq: "p \<notin> set Q" using q(2) p by simp
  have pc: "p \<noteq> sc_current st" using i(2) p by auto
  have sel: "sc_runqueue ?s = list_add (Node p) Head (sc_runqueue st)" "sc_idle ?s = sc_idle st" "sc_current ?s = sc_current st"
    "\<And>r. pid_of ?s r = pid_of st r" "\<And>r. state_of ?s r = (if r = p then PROCESS_READY else state_of st r)"
    by (simp_all add: add_to_schedule_def Let_def)
  have qr: "queue_ready (insert p P) ?s (p # Q)"
  proof (rule queue_ready_cong [OF i(1) _ sel(2,4)])
    show "queue_of (sc_runqueue ?s) (p # Q)" using queue_add [OF q(1) pq] sel(1) by simp
    show "set (p # Q) = {r \<in> insert p P. state_of ?s r = PROCESS_READY}"
    proof (rule set_eqI)
      fix r show "r \<in> set (p # Q) \<longleftrightarrow> r \<in> {r \<in> insert p P. state_of ?s r = PROCESS_READY}"
        unfolding list.set insert_iff q(2) mem_Collect_eq sel(5) by (cases "r = p") simp_all
    qed
    show "r \<in> P \<or> (r \<noteq> 0 \<and> r \<noteq> sc_idle st \<and> pid_of st r \<noteq> 0)" if "r \<in> insert p P" for r using that p by blast
  qed
  have run: "r = sc_current st" if r: "r \<in> insert p P" "state_of ?s r = PROCESS_RUNNING" for r
  proof -
    have "r \<noteq> p \<and> state_of st r = PROCESS_RUNNING" using r(2) unfolding sel(5) by (cases "r = p") simp_all
    then show ?thesis using i(4) [of r] r(1) by blast
  qed
  show ?thesis
    by (rule sched_invI [OF qr sel(3) _ _ run]) (use i(2,3) pc sel(2,5) in auto)
qed

lemma current_unqueued: "sched_inv P st Q \<Longrightarrow> sc_current st \<notin> set Q"
  using sched_invD(1,3) queue_readyD(2) by fastforce

text \<open>The current process stops running.\<close>

lemma stop_current:
  assumes inv: "sched_inv P st Q" and c: "sc_current st \<in> P" and s: "s \<noteq> PROCESS_RUNNING" "s \<noteq> PROCESS_READY"
  shows "sched_pre P (set_state (sc_current st) s st) Q"
proof -
  note i = sched_invD [OF inv] and q = queue_readyD [OF sched_invD(1) [OF inv]]
  let ?s = "set_state (sc_current st) s st"
  have st: "state_of ?s r = (if r = sc_current st then s else state_of st r)" for r by simp
  have qr: "queue_ready P ?s Q"
  proof (rule queue_ready_cong [OF i(1)])
    show "set Q = {r \<in> P. state_of ?s r = PROCESS_READY}"
    proof (rule set_eqI)
      fix r show "r \<in> set Q \<longleftrightarrow> r \<in> {r \<in> P. state_of ?s r = PROCESS_READY}"
        unfolding q(2) mem_Collect_eq st using i(3) s by (cases "r = sc_current st") simp_all
    qed
  qed (use q(1) in simp_all)
  have run: "r = sc_current st" if "r \<in> P" "state_of ?s r = PROCESS_RUNNING" for r
  proof (rule ccontr)
    assume n: "r \<noteq> sc_current st"
    then have "state_of st r = PROCESS_RUNNING" using that(2) by simp
    then show False using i(4) [OF that(1)] n by blast
  qed
  show "sched_pre P ?s Q"
    by (rule sched_preI [OF qr _ _ current_unqueued [OF inv] run]) (use c in simp_all)
qed

lemma deschedule_step:
  assumes inv: "sched_inv P st Q" and c: "sc_current st \<in> P"
  shows "\<exists>st'. deschedule st = Inr st' \<and> sched_inv P st' (tl Q) \<and>
    sc_current st' = (if Q = [] then sc_idle st else hd Q)"
proof -
  note i = sched_invD [OF inv]
  let ?s = "set_state (sc_current st) PROCESS_BLOCKED st"
  have pre: "sched_pre P ?s Q" by (rule stop_current [OF inv c]) simp_all
  have cq: "sc_current st \<notin> set Q" by (rule current_unqueued [OF inv])
  have "list_remove (Node (sc_current st)) (sc_runqueue st) = sc_runqueue st"
    by (rule queue_skip [OF queue_readyD(1) [OF i(1)] cq])
  then have "set_runqueue (list_remove (Node (sc_current st))) ?s = ?s"
    by (simp add: set_runqueue_def set_state_def set_pcb_def)
  then have d: "deschedule st = scheduler ?s" using i(3) by (simp add: deschedule_def)
  have nq: "next_queue ?s Q = tl Q" "next_process ?s Q = (if Q = [] then sc_idle st else hd Q)"
    by (simp_all add: next_queue_def next_process_def)
  from scheduler_step [OF pre] obtain st' where "scheduler ?s = Inr st'" "sched_inv P st' (next_queue ?s Q)"
    "sc_current st' = next_process ?s Q" by blast
  then show ?thesis unfolding d nq by blast
qed

text \<open>A process ends. Its parent is woken where it waits for it.\<close>

definition wakes_parent :: "sched \<Rightarrow> bool" where
  "wakes_parent st \<longleftrightarrow> (let c = sc_pcbs st (sc_current st); w = waiting_on (sc_pcbs st (parent c))
     in w = pid c \<or> w = WAITING_ALL)"

lemma reap_eq:
  "reap st = (let c = sc_current st; s = set_state c PROCESS_TERMINATED st; par = parent (sc_pcbs st c)
     in if par = 0 then Inl WildAccess
        else scheduler (if wakes_parent st then set_runqueue (list_add (Node par) Head) (set_state par PROCESS_READY s) else s))"
proof -
  have "waiting_on (sc_pcbs (set_state c s st) x) = waiting_on (sc_pcbs st x)"
    "parent (sc_pcbs (set_state c s st) x) = parent (sc_pcbs st x)" "pid_of (set_state c s st) x = pid_of st x" for c s x
    by simp_all
  then show ?thesis unfolding reap_def wakes_parent_def Let_def by (simp only:)
qed

lemma reap_step:
  assumes inv: "sched_inv P st Q" and c: "sc_current st \<in> P" and par: "parent (sc_pcbs st (sc_current st)) \<noteq> 0"
    and w: "wakes_parent st \<Longrightarrow> parent (sc_pcbs st (sc_current st)) \<in> P \<and>
      state_of st (parent (sc_pcbs st (sc_current st))) = PROCESS_BLOCKED"
  shows "\<exists>st' Q'. reap st = Inr st' \<and> sched_inv P st' Q'"
proof -
  let ?c = "sc_current st" and ?p = "parent (sc_pcbs st (sc_current st))"
  let ?s = "set_state ?c PROCESS_TERMINATED st"
  have pre: "sched_pre P ?s Q" by (rule stop_current [OF inv c]) simp_all
  have cq: "?c \<notin> set Q" by (rule current_unqueued [OF inv])
  show ?thesis
  proof (cases "wakes_parent st")
    case False
    then have "reap st = scheduler ?s" using par by (simp add: reap_eq Let_def)
    then show ?thesis using scheduler_step [OF pre] by metis
  next
    case True
    note wp = w [OF True]
    have ne: "?p \<noteq> ?c" using wp sched_invD(3) [OF inv] by auto
    let ?t = "set_runqueue (list_add (Node ?p) Head) (set_state ?p PROCESS_READY ?s)"
    have r: "reap st = scheduler ?t"
      using par True by (simp add: reap_eq Let_def)
    have qr: "queue_ready P ?s Q" using pre unfolding sched_pre_def by blast
    have run: "p = ?c" if "p \<in> P" "state_of ?s p = PROCESS_RUNNING" for p
      using pre that unfolding sched_pre_def set_state_sel(3) by blast
    note q = queue_readyD [OF qr]
    have pq: "?p \<notin> set Q" using q(2) wp ne by simp
    have st: "state_of ?t x = (if x = ?p then PROCESS_READY else state_of ?s x)" for x by simp
    have cq': "sc_current ?t \<notin> set (?p # Q)" "sc_current ?t = ?c" using cq ne by simp_all
    have qrt: "queue_ready P ?t (?p # Q)"
    proof (rule queue_ready_cong [OF qr])
      show "queue_of (sc_runqueue ?t) (?p # Q)" using queue_add [OF q(1) pq] by simp
      show "set (?p # Q) = {x \<in> P. state_of ?t x = PROCESS_READY}"
      proof (rule set_eqI)
        fix x show "x \<in> set (?p # Q) \<longleftrightarrow> x \<in> {x \<in> P. state_of ?t x = PROCESS_READY}"
          unfolding list.set insert_iff q(2) mem_Collect_eq st using wp by (cases "x = ?p") simp_all
      qed
    qed simp_all
    have run': "x = ?c" if x: "x \<in> P" "state_of ?t x = PROCESS_RUNNING" for x
    proof -
      have "state_of ?s x = PROCESS_RUNNING" using x(2) unfolding st by (cases "x = ?p") simp_all
      then show ?thesis by (rule run [OF x(1)])
    qed
    have "sched_pre P ?t (?p # Q)"
      by (rule sched_preI [OF qrt cq'(2) _ _ run']) (use c cq ne in simp_all)
    from scheduler_step [OF this] show ?thesis unfolding r by metis
  qed
qed

section \<open>Runs of the scheduler\<close>

text \<open>
  The events that change the scheduler's state: a timer interrupt, a process that blocks, is woken,
  is created or exits. The set holds the processes other than the idle process.
\<close>

inductive sched_step :: "ptr set \<times> sched \<Rightarrow> ptr set \<times> sched \<Rightarrow> bool" where
  tick: "scheduler st = Inr st' \<Longrightarrow> sched_step (P, st) (P, st')"
| block: "sc_current st \<in> P \<Longrightarrow> deschedule st = Inr st' \<Longrightarrow> sched_step (P, st) (P, st')"
| wake: "p \<in> P \<Longrightarrow> state_of st p = PROCESS_BLOCKED \<Longrightarrow> reschedule p st = Inr st' \<Longrightarrow> sched_step (P, st) (P, st')"
| spawn: "p \<notin> P \<Longrightarrow> p \<noteq> sc_idle st \<Longrightarrow> p \<noteq> 0 \<Longrightarrow> pid_of st p \<noteq> 0 \<Longrightarrow>
    sched_step (P, st) (insert p P, add_to_schedule p st)"
| exit: "sc_current st \<in> P \<Longrightarrow> parent (sc_pcbs st (sc_current st)) \<noteq> 0 \<Longrightarrow>
    (wakes_parent st \<longrightarrow> parent (sc_pcbs st (sc_current st)) \<in> P \<and>
       state_of st (parent (sc_pcbs st (sc_current st))) = PROCESS_BLOCKED) \<Longrightarrow>
    reap st = Inr st' \<Longrightarrow> sched_step (P, st) (P, st')"

inductive_cases sched_stepE: "sched_step (P, st) (P', st')"

lemma sched_step_inv:
  assumes "sched_step (P, st) (P', st')" and inv: "sched_inv P st Q"
  shows "\<exists>Q'. sched_inv P' st' Q'"
  using assms(1)
proof (rule sched_stepE)
  assume "P' = P" "scheduler st = Inr st'"
  then show ?thesis using scheduler_step [OF inv_pre [OF inv]] by auto
next
  assume "P' = P" "sc_current st \<in> P" "deschedule st = Inr st'"
  then show ?thesis using deschedule_step [OF inv] by auto
next
  fix p assume "P' = P" "p \<in> P" "state_of st p = PROCESS_BLOCKED" "reschedule p st = Inr st'"
  then show ?thesis using reschedule_inv [OF inv, of p] by auto
next
  fix p assume "P' = insert p P" "st' = add_to_schedule p st" "p \<notin> P" "p \<noteq> sc_idle st" "0 < p" "pid_of st p \<noteq> 0"
  then show ?thesis using add_to_schedule_inv [OF inv, of p] by blast
next
  assume "P' = P" "sc_current st \<in> P" "0 < parent (sc_pcbs st (sc_current st))" "reap st = Inr st'"
    "wakes_parent st \<longrightarrow> parent (sc_pcbs st (sc_current st)) \<in> P \<and>
       state_of st (parent (sc_pcbs st (sc_current st))) = PROCESS_BLOCKED"
  then show ?thesis using reap_step [OF inv] by auto
qed

lemma sched_run_inv:
  assumes "sched_step\<^sup>*\<^sup>* x y" and "sched_inv (fst x) (snd x) Q"
  shows "\<exists>Q'. sched_inv (fst y) (snd y) Q'"
  using assms
proof (induction rule: rtranclp_induct)
  case base
  then show ?case by blast
next
  case (step y z)
  then obtain Q' where "sched_inv (fst y) (snd y) Q'" by blast
  then show ?case using sched_step_inv [of "fst y" "snd y" "fst z" "snd z" Q'] step.hyps(2) by simp
qed

primrec ticks :: "nat \<Rightarrow> sched \<Rightarrow> sched result" where
  "ticks 0 st = Inr st"
| "ticks (Suc n) st = bindR (ticks n st) scheduler"


lemma ticks_alternate:
  assumes inv: "sched_inv P st (b # Q)" and a: "sc_current st = a" "a \<noteq> sc_idle st"
  shows "\<exists>s. ticks n st = Inr s \<and> sched_inv P s ((if even n then b else a) # Q) \<and>
    sc_current s = (if even n then a else b) \<and> sc_idle s = sc_idle st"
proof (induction n)
  case 0
  then show ?case using assms by simp
next
  case (Suc n)
  then obtain s where s: "ticks n st = Inr s" "sched_inv P s ((if even n then b else a) # Q)"
    "sc_current s = (if even n then a else b)" "sc_idle s = sc_idle st" by blast
  have bP: "b \<in> P" and bi: "b \<noteq> sc_idle st"
    using queue_readyD(2,3) [OF sched_invD(1) [OF inv]] by auto
  note st = scheduler_step [OF inv_pre [OF s(2)]]
  have "state_of s (sc_current s) = PROCESS_RUNNING" by (rule sched_invD(3) [OF s(2)])
  then have "next_queue s ((if even n then b else a) # Q) = sc_current s # Q"
    "next_process s ((if even n then b else a) # Q) = (if even n then b else a)"
    using s(3,4) a bi by (simp_all add: next_queue_def next_process_def)
  then show ?case using st s by auto
qed

section \<open>An example\<close>

definition blank_pcb :: pcb_t where
  "blank_pcb = \<lparr>kernel_stack = 0, ttbr = 0, pstate = PROCESS_BLOCKED, exit_status = EX_OK, pid = 0, waiting_on = 0,
     parent = 0, cwd = 0, brk = 0, start_brk = 0, heap_vma = 0, fds = replicate 32 0\<rparr>"

text \<open>The idle process at address 1 runs; the control blocks at 2, 3, \<dots> are ready to be added.\<close>

definition demo_sched :: sched where
  "demo_sched = \<lparr>sc_pcbs = (\<lambda>p. if p = 1 then blank_pcb\<lparr>pstate := PROCESS_RUNNING\<rparr> else blank_pcb\<lparr>pid := 7\<rparr>),
     sc_proclist = \<lparr>lnext = id, lprev = id\<rparr>, sc_runqueue = \<lparr>lnext = id, lprev = id\<rparr>,
     sc_current = 1, sc_idle = 1, sc_n_processes = 0, sc_ttbr0 = 0, sc_pidcounter = 1\<rparr>"

lemma demo_sched_inv: "sched_inv {} demo_sched []"
  by (simp add: sched_inv_def queue_ready_def queue_of_def dlist_def unlinked_def demo_sched_def blank_pcb_def)

lemma demo_three:
  "sched_inv {2, 3, 4} (add_to_schedule 2 (add_to_schedule 3 (add_to_schedule 4 demo_sched))) [2, 3, 4]"
proof -
  have sel: "pid_of (add_to_schedule p st) q = pid_of st q" "sc_idle (add_to_schedule p st) = sc_idle st" for p q st
    by (simp_all add: add_to_schedule_def Let_def)
  have d: "pid_of demo_sched q = (if q = 1 then 0 else 7)" "sc_idle demo_sched = 1" for q
    by (simp_all add: demo_sched_def blank_pcb_def)
  have "sched_inv {4} (add_to_schedule 4 demo_sched) [4]"
    by (rule add_to_schedule_inv [OF demo_sched_inv]) (simp_all add: d)
  then have "sched_inv {3, 4} (add_to_schedule 3 (add_to_schedule 4 demo_sched)) [3, 4]"
    by (rule add_to_schedule_inv) (simp_all add: d sel)
  then show ?thesis by (rule add_to_schedule_inv) (simp_all add: d sel)
qed

section \<open>Properties\<close>

text \<open>
  C25. The invariant of the scheduler. From a state in the invariant, any sequence of timer ticks,
  blocking, waking, creation and exit of processes leads to a state in which the run queue is a
  well-formed list of exactly the ready processes, exactly one process runs, and a further call of
  the scheduler succeeds.
\<close>

theorem scheduler_invariant:
  assumes "sched_step\<^sup>*\<^sup>* (P0, st0) (P, st)" and "sched_inv P0 st0 Q0"
  shows "\<exists>Q st'. sched_inv P st Q \<and> queue_of (sc_runqueue st) Q \<and> set Q = {p \<in> P. state_of st p = PROCESS_READY} \<and>
    scheduler st = Inr st'"
proof -
  obtain Q where Q: "sched_inv P st Q" using sched_run_inv [OF assms(1)] assms(2) by auto
  then show ?thesis
    using queue_readyD(1,2) [OF sched_invD(1) [OF Q]] scheduler_step [OF inv_pre [OF Q]] by blast
qed

theorem scheduler_invariant_witness:
  "\<exists>Q st'. sched_inv {4} (add_to_schedule 4 demo_sched) Q \<and> scheduler (add_to_schedule 4 demo_sched) = Inr st'"
proof -
  have "sched_step ({}, demo_sched) (insert 4 {}, add_to_schedule 4 demo_sched)"
    by (rule sched_step.spawn) (simp_all add: demo_sched_def blank_pcb_def)
  then have "sched_step\<^sup>*\<^sup>* ({}, demo_sched) ({4}, add_to_schedule 4 demo_sched)" by simp
  from scheduler_invariant [OF this demo_sched_inv] show ?thesis by blast
qed

text \<open>
  C26. The scheduler is not fair. While no process blocks, the process at the head of the run queue
  and the current process take turns for ever: after any number of ticks one of the two runs, and
  the rest of the queue is where it was. A third runnable process never runs, although the comment
  in the code says that the tail of the queue gets the next quantum.
\<close>

theorem scheduler_alternates:
  assumes "sched_inv P st (b # Q)" and "sc_current st = a" and "a \<noteq> sc_idle st"
  shows "\<exists>s. ticks n st = Inr s \<and> sc_current s = (if even n then a else b) \<and>
    queue_of (sc_runqueue s) ((if even n then b else a) # Q)"
  using ticks_alternate [OF assms] queue_readyD(1) [OF sched_invD(1)] by blast

theorem scheduler_alternates_witness:
  "\<exists>st. \<forall>n. \<exists>s. ticks n st = Inr s \<and> sc_current s = (if even n then 2 else 3) \<and>
     queue_of (sc_runqueue s) ((if even n then 3 else 2) # [4])"
proof -
  let ?d = "add_to_schedule 2 (add_to_schedule 3 (add_to_schedule 4 demo_sched))"
  have c: "sc_current ?d = 1" "sc_idle ?d = 1" by (simp_all add: add_to_schedule_def demo_sched_def Let_def)
  have "next_queue ?d [2, 3, 4] = [3, 4]" "next_process ?d [2, 3, 4] = 2"
    using c by (simp_all add: next_queue_def next_process_def)
  then obtain st where st: "sched_inv {2, 3, 4} st [3, 4]" "sc_current st = 2" "sc_idle st = 1"
    using scheduler_step [OF inv_pre [OF demo_three]] c by auto
  from scheduler_alternates [OF st(1,2)] st(3) show ?thesis by (metis numeral_eq_one_iff semiring_norm(85))
qed


end
