(* ===== verification/Priority_Queue.thy ===== *)
theory Priority_Queue
  imports Prelude "HOL-Library.Multiset"
begin

text \<open>
  The binary heap of \<open>utils/datastructures/pq.c\<close>, which keeps the sleeping processes by deadline.
  The array is a list of fixed length; \<open>items\<close> counts the entries in use. Indices of the source are
  C integers; the array of the kernel has 64 entries, so none of them overflows. The locale
  \<open>priority_queue\<close> is the contract the timer code relies on.
\<close>

section \<open>Types and operations\<close>

record pqnode_t =
  priority :: u64
  element :: u64

record pq_t =
  heap :: "pqnode_t list"
  items :: nat

abbreviation pq_size :: "pq_t \<Rightarrow> nat" where "pq_size pq \<equiv> length (heap pq)"

abbreviation PARENT :: "nat \<Rightarrow> nat" where "PARENT i \<equiv> (i - 1) div 2"
abbreviation LCHILD :: "nat \<Rightarrow> nat" where "LCHILD i \<equiv> 2 * i + 1"
abbreviation RCHILD :: "nat \<Rightarrow> nat" where "RCHILD i \<equiv> 2 * i + 2"

definition prio :: "pqnode_t list \<Rightarrow> nat \<Rightarrow> u64" where "prio h i = priority (h ! i)"

definition pq_swap :: "nat \<Rightarrow> nat \<Rightarrow> pqnode_t list \<Rightarrow> pqnode_t list" where
  "pq_swap idx1 idx2 h = h[idx1 := h ! idx2, idx2 := h ! idx1]"

fun pq_swim :: "nat \<Rightarrow> pqnode_t list \<Rightarrow> pqnode_t list" where
  "pq_swim idx h =
     (if 0 < idx then
        if prio h (PARENT idx) \<le> prio h idx then h
        else pq_swim (PARENT idx) (pq_swap (PARENT idx) idx h)
      else h)"

declare pq_swim.simps [simp del]

text \<open>The child that \<open>_pq_sink\<close> exchanges an entry with; the entry itself where both are no less.\<close>

definition sink_child :: "nat \<Rightarrow> nat \<Rightarrow> pqnode_t list \<Rightarrow> nat" where
  "sink_child n idx h =
     (let largest = (if LCHILD idx < n \<and> prio h (LCHILD idx) < prio h idx then LCHILD idx else idx)
      in if RCHILD idx < n \<and> prio h (RCHILD idx) < prio h largest then RCHILD idx else largest)"

lemma sink_child_range: "sink_child n idx h = idx \<or> (idx < sink_child n idx h \<and> sink_child n idx h < n)"
  by (auto simp: sink_child_def Let_def)

function pq_sink :: "nat \<Rightarrow> nat \<Rightarrow> pqnode_t list \<Rightarrow> pqnode_t list" where
  "pq_sink n idx h =
     (let largest = sink_child n idx h
      in if largest = idx then h else pq_sink n largest (pq_swap idx largest h))"
  by pat_completeness auto
termination
proof (relation "measure (\<lambda>(n, idx, h). n - idx)")
  fix n idx h x assume "x = sink_child n idx h" "x \<noteq> idx"
  then show "((n, x, pq_swap idx x h), (n, idx, h)) \<in> measure (\<lambda>(n, idx, h). n - idx)"
    using sink_child_range [of n idx h] by auto
qed simp

declare pq_sink.simps [simp del]

definition pq_add :: "u64 \<Rightarrow> u64 \<Rightarrow> pq_t \<Rightarrow> pq_t" where
  "pq_add p e pq =
     (if pq_size pq \<le> items pq then pq
      else pq\<lparr>heap := pq_swim (items pq) ((heap pq)[items pq := \<lparr>priority = p, element = e\<rparr>]),
              items := Suc (items pq)\<rparr>)"

definition pq_pop :: "pq_t \<Rightarrow> pqnode_t \<times> pq_t" where
  "pq_pop pq =
     (if items pq = 0 then (\<lparr>priority = 0, element = 0\<rparr>, pq)
      else (heap pq ! 0,
            pq\<lparr>items := items pq - 1,
               heap := pq_sink (items pq - 1) 0 (pq_swap 0 (items pq - 1) (heap pq))\<rparr>))"

definition pq_peek :: "pq_t \<Rightarrow> pqnode_t" where "pq_peek pq = heap pq ! 0"

section \<open>The heap invariant\<close>

definition ordered :: "nat \<Rightarrow> (nat \<Rightarrow> bool) \<Rightarrow> pqnode_t list \<Rightarrow> bool" where
  "ordered n P h \<longleftrightarrow> (\<forall>i. 0 < i \<and> i < n \<and> P i \<longrightarrow> prio h (PARENT i) \<le> prio h i)"

definition pq_inv :: "pq_t \<Rightarrow> bool" where
  "pq_inv pq \<longleftrightarrow> items pq \<le> pq_size pq \<and> ordered (items pq) (\<lambda>_. True) (heap pq)"

definition pq_content :: "pq_t \<Rightarrow> pqnode_t multiset" where
  "pq_content pq = mset (take (items pq) (heap pq))"

lemma length_swap [simp]: "length (pq_swap i j h) = length h"
  by (simp add: pq_swap_def)

lemma length_swim [simp]: "length (pq_swim j h) = length h"
proof (induction j h rule: pq_swim.induct)
  case (1 j h)
  then show ?case by (subst pq_swim.simps) auto
qed

lemma prio_swap:
  "i < length h \<Longrightarrow> j < length h \<Longrightarrow> prio (pq_swap i j h) k = (if k = j then prio h i else if k = i then prio h j else prio h k)"
  by (auto simp: pq_swap_def prio_def nth_list_update)

lemma take_swap: "i < n \<Longrightarrow> j < n \<Longrightarrow> take n (pq_swap i j h) = pq_swap i j (take n h)"
  by (simp add: pq_swap_def take_update_swap)

lemma mset_pq_swap: "i < length h \<Longrightarrow> j < length h \<Longrightarrow> mset (pq_swap i j h) = mset h"
  unfolding pq_swap_def by (rule mset_swap)

lemma mset_take_swap:
  assumes "i < n" "j < n" "n \<le> length h"
  shows "mset (take n (pq_swap i j h)) = mset (take n h)"
  unfolding take_swap [OF assms(1,2)] by (rule mset_pq_swap) (use assms in simp_all)

lemma child_parent: "0 < c \<Longrightarrow> PARENT c = i \<longleftrightarrow> c = LCHILD i \<or> c = RCHILD i"
  by presburger

subsection \<open>Upwards\<close>

text \<open>All pairs are ordered but the one below \<open>j\<close>'s parent, and \<open>j\<close>'s children are above its parent.\<close>

definition loose_at :: "nat \<Rightarrow> nat \<Rightarrow> pqnode_t list \<Rightarrow> bool" where
  "loose_at n j h \<longleftrightarrow> (\<forall>c. 0 < c \<and> c < n \<and> PARENT c = j \<and> 0 < j \<longrightarrow> prio h (PARENT j) \<le> prio h c)"

lemma swim_step:
  assumes j: "0 < j" "j < n" "n \<le> length h" and o: "ordered n (\<lambda>i. i \<noteq> j) h" and l: "loose_at n j h"
    and lt: "prio h j < prio h (PARENT j)"
  defines "h' \<equiv> pq_swap (PARENT j) j h"
  shows "ordered n (\<lambda>i. i \<noteq> PARENT j) h'" "loose_at n (PARENT j) h'"
proof -
  let ?p = "PARENT j"
  have pj: "?p < j" using j(1) by simp
  have P: "prio h' k = (if k = j then prio h ?p else if k = ?p then prio h j else prio h k)" for k
    unfolding h'_def by (rule prio_swap) (use j pj in simp_all)
  show "ordered n (\<lambda>i. i \<noteq> ?p) h'"
    unfolding ordered_def
  proof (intro allI impI; elim conjE)
    fix i assume i: "0 < i" "i < n" "i \<noteq> ?p"
    consider "i = j" | "i \<noteq> j" "PARENT i = j" | "i \<noteq> j" "PARENT i = ?p" | "i \<noteq> j" "PARENT i \<noteq> j" "PARENT i \<noteq> ?p" by blast
    then show "prio h' (PARENT i) \<le> prio h' i"
    proof cases
      case 1
      then show ?thesis using P lt pj by simp
    next
      case 2
      then have "prio h ?p \<le> prio h i" using l i j(1) unfolding loose_at_def by blast
      then show ?thesis using P 2 i by simp
    next
      case 3
      then have "prio h ?p \<le> prio h i" using o i unfolding ordered_def by metis
      then show ?thesis using P 3 i lt pj by (metis (no_types) less_imp_le order_trans order_less_irrefl)
    next
      case 4
      then have "prio h (PARENT i) \<le> prio h i" using o i unfolding ordered_def by blast
      then show ?thesis using P 4 i by simp
    qed
  qed
  show "loose_at n ?p h'"
    unfolding loose_at_def
  proof (intro allI impI; elim conjE)
    fix c assume c: "0 < c" "c < n" "PARENT c = ?p" "0 < ?p"
    have q: "PARENT ?p < ?p" using c(4) by simp
    have "prio h (PARENT ?p) \<le> prio h ?p" using o j c(4) pj unfolding ordered_def by (metis less_trans nat_neq_iff)
    moreover have "prio h ?p \<le> prio h c" if "c \<noteq> j" using o c that unfolding ordered_def by metis
    moreover have "c \<noteq> ?p" using c by presburger
    ultimately show "prio h' (PARENT ?p) \<le> prio h' c"
      using P q pj by (cases "c = j") auto
  qed
qed

lemma swim_heap:
  "j < n \<Longrightarrow> n \<le> length h \<Longrightarrow> ordered n (\<lambda>i. i \<noteq> j) h \<Longrightarrow> loose_at n j h \<Longrightarrow>
   ordered n (\<lambda>_. True) (pq_swim j h) \<and> length (pq_swim j h) = length h \<and>
   mset (take n (pq_swim j h)) = mset (take n h)"
proof (induction j h rule: pq_swim.induct)
  case (1 j h)
  show ?case
  proof (cases "0 < j \<and> prio h j < prio h (PARENT j)")
    case True
    note st = swim_step [OF _ 1(2,3,4,5)]
    have "pq_swim j h = pq_swim (PARENT j) (pq_swap (PARENT j) j h)"
      using True by (subst pq_swim.simps) (auto dest: leD)
    moreover have "ordered n (\<lambda>_. True) (pq_swim (PARENT j) (pq_swap (PARENT j) j h)) \<and>
      length (pq_swim (PARENT j) (pq_swap (PARENT j) j h)) = length (pq_swap (PARENT j) j h) \<and>
      mset (take n (pq_swim (PARENT j) (pq_swap (PARENT j) j h))) = mset (take n (pq_swap (PARENT j) j h))"
      by (rule 1(1)) (use True st 1(2,3) in \<open>auto simp: not_le\<close>)
    moreover have "mset (take n (pq_swap (PARENT j) j h)) = mset (take n h)"
      by (rule mset_take_swap) (use True 1(2,3) in auto)
    ultimately show ?thesis by simp
  next
    case False
    then have "pq_swim j h = h" by (subst pq_swim.simps) (auto simp: not_le)
    moreover have "ordered n (\<lambda>_. True) h"
      unfolding ordered_def
    proof (intro allI impI)
      fix i assume i: "0 < i \<and> i < n \<and> True"
      show "prio h (PARENT i) \<le> prio h i"
        using False i 1(4) by (cases "i = j") (auto simp: ordered_def not_less)
    qed
    ultimately show ?thesis by simp
  qed
qed

subsection \<open>Downwards\<close>

lemma sink_childD:
  assumes "sink_child n j h \<noteq> j"
  shows "PARENT (sink_child n j h) = j" "sink_child n j h < n" "j < sink_child n j h"
    "prio h (sink_child n j h) < prio h j"
    "0 < c \<Longrightarrow> c < n \<Longrightarrow> PARENT c = j \<Longrightarrow> prio h (sink_child n j h) \<le> prio h c"
proof -
  show "PARENT (sink_child n j h) = j" "sink_child n j h < n" "j < sink_child n j h" "prio h (sink_child n j h) < prio h j"
    using assms by (auto simp: sink_child_def Let_def split: if_splits)
  assume c: "0 < c" "c < n" "PARENT c = j"
  then have "c = LCHILD j \<or> c = RCHILD j" using child_parent by blast
  then show "prio h (sink_child n j h) \<le> prio h c"
    using assms c(2) by (auto simp: sink_child_def Let_def not_less split: if_splits)
qed

lemma sink_child_stop:
  assumes "sink_child n j h = j" "0 < c" "c < n" "PARENT c = j"
  shows "prio h j \<le> prio h c"
proof -
  have "c = LCHILD j \<or> c = RCHILD j" using assms(2,4) child_parent by blast
  then show ?thesis using assms(1,3) by (auto simp: sink_child_def Let_def not_less split: if_splits)
qed

lemma sink_step:
  assumes n: "n \<le> length h" "j < n" and o: "ordered n (\<lambda>i. PARENT i \<noteq> j) h" and l: "loose_at n j h"
    and ne: "sink_child n j h \<noteq> j"
  defines "m \<equiv> sink_child n j h"
  defines "h' \<equiv> pq_swap j m h"
  shows "ordered n (\<lambda>i. PARENT i \<noteq> m) h'" "loose_at n m h'"
proof -
  note d = sink_childD [OF ne, folded m_def]
  have P: "prio h' k = (if k = m then prio h j else if k = j then prio h m else prio h k)" for k
    unfolding h'_def by (rule prio_swap) (use n d(2) in simp_all)
  show "ordered n (\<lambda>i. PARENT i \<noteq> m) h'"
    unfolding ordered_def
  proof (intro allI impI; elim conjE)
    fix i assume i: "0 < i" "i < n" "PARENT i \<noteq> m"
    consider "i = m" | "i \<noteq> m" "PARENT i = j" | "i = j" | "i \<noteq> m" "i \<noteq> j" "PARENT i \<noteq> j" by blast
    then show "prio h' (PARENT i) \<le> prio h' i"
    proof cases
      case 1
      then show ?thesis using P d(1,3,4) by simp
    next
      case 2
      moreover have "i \<noteq> j" using 2 i(1) by auto
      ultimately show ?thesis using P d(3) d(5) [OF i(1,2)] by simp
    next
      case 3
      have "PARENT j < j" using 3 i(1) by auto
      moreover have "prio h (PARENT j) \<le> prio h m" using l d(1,2,3) i(1) 3 unfolding loose_at_def by auto
      ultimately show ?thesis using P 3 d(3) by simp
    next
      case 4
      then have "prio h (PARENT i) \<le> prio h i" using o i unfolding ordered_def by blast
      then show ?thesis using P 4 i by simp
    qed
  qed
  show "loose_at n m h'"
    unfolding loose_at_def
  proof (intro allI impI; elim conjE)
    fix c assume c: "0 < c" "c < n" "PARENT c = m" "0 < m"
    have "m < c" using c(1,3) by auto
    moreover have "prio h m \<le> prio h c" using o c d(3) unfolding ordered_def by auto
    ultimately show "prio h' (PARENT m) \<le> prio h' c" using P d(1,3) by simp
  qed
qed

lemma sink_heap:
  "j < n \<Longrightarrow> n \<le> length h \<Longrightarrow> ordered n (\<lambda>i. PARENT i \<noteq> j) h \<Longrightarrow> loose_at n j h \<Longrightarrow>
   ordered n (\<lambda>_. True) (pq_sink n j h) \<and> length (pq_sink n j h) = length h \<and>
   mset (take n (pq_sink n j h)) = mset (take n h)"
proof (induction n j h rule: pq_sink.induct)
  case (1 n j h)
  let ?m = "sink_child n j h"
  show ?case
  proof (cases "?m = j")
    case True
    then have "pq_sink n j h = h" by (subst pq_sink.simps) (simp add: Let_def)
    moreover have "ordered n (\<lambda>_. True) h"
      unfolding ordered_def
    proof (intro allI impI; elim conjE)
      fix i assume i: "0 < i" "i < n"
      show "prio h (PARENT i) \<le> prio h i"
        using sink_child_stop [OF True i] 1(4) i by (cases "PARENT i = j") (auto simp: ordered_def)
    qed
    ultimately show ?thesis by simp
  next
    case False
    note d = sink_childD [OF False] and st = sink_step [OF 1(3,2,4,5) False]
    have e: "pq_sink n j h = pq_sink n ?m (pq_swap j ?m h)" using False by (subst pq_sink.simps) (simp add: Let_def)
    have "ordered n (\<lambda>_. True) (pq_sink n ?m (pq_swap j ?m h)) \<and>
      length (pq_sink n ?m (pq_swap j ?m h)) = length (pq_swap j ?m h) \<and>
      mset (take n (pq_sink n ?m (pq_swap j ?m h))) = mset (take n (pq_swap j ?m h))"
      by (rule 1(1) [OF refl False d(2) _ st]) (use 1(3) in simp)
    moreover have "mset (take n (pq_swap j ?m h)) = mset (take n h)"
      by (rule mset_take_swap) (use d 1(2,3) in auto)
    ultimately show ?thesis unfolding e by simp
  qed
qed

section \<open>The operations as a priority queue\<close>

lemma root_least:
  "ordered n (\<lambda>_. True) h \<Longrightarrow> i < n \<Longrightarrow> prio h 0 \<le> prio h i"
proof (induction i rule: less_induct)
  case (less i)
  show ?case
  proof (cases "i = 0")
    case False
    then have "PARENT i < i" by auto
    then have "prio h 0 \<le> prio h (PARENT i)" using less by auto
    also have "\<dots> \<le> prio h i" using less.prems False unfolding ordered_def by auto
    finally show ?thesis .
  qed simp
qed

text \<open>Taking a number of entries from a queue.\<close>

primrec drain :: "('q \<Rightarrow> 'n \<times> 'q) \<Rightarrow> nat \<Rightarrow> 'q \<Rightarrow> 'n list" where
  "drain pop 0 q = []"
| "drain pop (Suc n) q = fst (pop q) # drain pop n (snd (pop q))"

text \<open>
  The contract of a bounded priority queue: \<open>add\<close> inserts while there is room, \<open>pop\<close> removes an
  entry with the least key, and the contents are a multiset.
\<close>

locale priority_queue =
  fixes inv :: "'q \<Rightarrow> bool" and content :: "'q \<Rightarrow> 'n multiset" and room :: "'q \<Rightarrow> nat" and key :: "'n \<Rightarrow> 'k :: linorder"
    and add :: "'n \<Rightarrow> 'q \<Rightarrow> 'q" and pop :: "'q \<Rightarrow> 'n \<times> 'q"
  assumes inv_add: "inv q \<Longrightarrow> inv (add x q)"
    and content_add: "inv q \<Longrightarrow> content (add x q) = (if size (content q) < room q then add_mset x (content q) else content q)"
    and room_add: "room (add x q) = room q"
    and inv_pop: "inv q \<Longrightarrow> inv (snd (pop q))"
    and content_pop: "inv q \<Longrightarrow> content q \<noteq> {#} \<Longrightarrow> content q = add_mset (fst (pop q)) (content (snd (pop q)))"
    and key_pop: "inv q \<Longrightarrow> x \<in># content q \<Longrightarrow> key (fst (pop q)) \<le> key x"
begin

text \<open>Draining a queue sorts it.\<close>

lemma drain_sorted:
  "inv q \<Longrightarrow> size (content q) = n \<Longrightarrow> mset (drain pop n q) = content q \<and> sorted (map key (drain pop n q))"
proof (induction n arbitrary: q)
  case (Suc n)
  then have ne: "content q \<noteq> {#}" by auto
  note cp = content_pop [OF Suc.prems(1) ne]
  have "size (content (snd (pop q))) = n" using Suc.prems(2) cp by (metis size_add_mset nat.inject)
  then have IH: "mset (drain pop n (snd (pop q))) = content (snd (pop q))" "sorted (map key (drain pop n (snd (pop q))))"
    using Suc.IH [OF inv_pop [OF Suc.prems(1)]] by auto
  have "key (fst (pop q)) \<le> key x" if "x \<in> set (drain pop n (snd (pop q)))" for x
  proof -
    have "x \<in># content (snd (pop q))" using that IH(1) by (metis set_mset_mset)
    then have "x \<in># content q" using cp by (metis union_iff add_mset_add_single)
    then show ?thesis by (rule key_pop [OF Suc.prems(1)])
  qed
  then show ?case using IH cp by simp
qed simp

lemma add_all:
  "inv q \<Longrightarrow> size (content q) + length xs \<le> room q \<Longrightarrow>
   inv (fold add xs q) \<and> content (fold add xs q) = mset xs + content q"
proof (induction xs arbitrary: q)
  case (Cons x xs)
  then have "content (add x q) = add_mset x (content q)" using content_add by simp
  then show ?case using Cons.IH [of "add x q"] Cons.prems inv_add room_add by simp
qed simp

end

lemma size_content: "pq_inv pq \<Longrightarrow> size (pq_content pq) = items pq"
  by (simp add: pq_inv_def pq_content_def)

lemma pq_add_effect:
  assumes inv: "pq_inv pq" and room: "items pq < pq_size pq"
  shows "pq_inv (pq_add p e pq)" "pq_content (pq_add p e pq) = add_mset \<lparr>priority = p, element = e\<rparr> (pq_content pq)"
    "pq_size (pq_add p e pq) = pq_size pq" "items (pq_add p e pq) = Suc (items pq)"
proof -
  let ?n = "items pq" and ?x = "\<lparr>priority = p, element = e\<rparr>"
  let ?h = "(heap pq)[?n := ?x]"
  have "prio ?h i = prio (heap pq) i" if "i < ?n" for i using that by (simp add: prio_def)
  then have o: "ordered (Suc ?n) (\<lambda>i. i \<noteq> ?n) ?h"
    using inv unfolding pq_inv_def ordered_def by (auto simp: less_Suc_eq)
  have l: "loose_at (Suc ?n) ?n ?h" unfolding loose_at_def by auto
  have sw: "ordered (Suc ?n) (\<lambda>_. True) (pq_swim ?n ?h)" "length (pq_swim ?n ?h) = length ?h"
    "mset (take (Suc ?n) (pq_swim ?n ?h)) = mset (take (Suc ?n) ?h)"
    using swim_heap [OF _ _ o l] room by auto
  have a: "pq_add p e pq = pq\<lparr>heap := pq_swim ?n ?h, items := Suc ?n\<rparr>" using room by (simp add: pq_add_def)
  show "pq_size (pq_add p e pq) = pq_size pq" "items (pq_add p e pq) = Suc (items pq)" unfolding a using sw(2) by simp_all
  show "pq_inv (pq_add p e pq)" unfolding a using sw(1,2) room by (simp add: pq_inv_def)
  have "take (Suc ?n) ?h = take ?n (heap pq) @ [?x]" using room by (simp add: take_Suc_conv_app_nth)
  then show "pq_content (pq_add p e pq) = add_mset ?x (pq_content pq)" unfolding a using sw(3) by (simp add: pq_content_def)
qed

lemma pq_pop_effect:
  assumes inv: "pq_inv pq" and ne: "0 < items pq"
  shows "pq_inv (snd (pq_pop pq))" "pq_content pq = add_mset (fst (pq_pop pq)) (pq_content (snd (pq_pop pq)))"
    "x \<in># pq_content pq \<Longrightarrow> priority (fst (pq_pop pq)) \<le> priority x"
    "pq_size (snd (pq_pop pq)) = pq_size pq"
proof -
  let ?n = "items pq - 1" and ?h = "heap pq"
  let ?s = "pq_swap 0 ?n ?h"
  have n: "?n < pq_size pq" "0 < pq_size pq" and o: "ordered (items pq) (\<lambda>_. True) ?h"
    using inv ne by (auto simp: pq_inv_def)
  have f: "fst (pq_pop pq) = ?h ! 0" and r: "snd (pq_pop pq) = pq\<lparr>items := ?n, heap := pq_sink ?n 0 ?s\<rparr>"
    using ne by (simp_all add: pq_pop_def)
  show "priority (fst (pq_pop pq)) \<le> priority x" if "x \<in># pq_content pq"
  proof -
    from that obtain i where "i < items pq" "x = ?h ! i"
      by (auto simp: pq_content_def in_set_conv_nth)
    then show ?thesis using root_least [OF o] f by (simp add: prio_def)
  qed
  have tk: "take (Suc ?n) ?s = take ?n ?s @ [?h ! 0]"
  proof -
    have "?s ! ?n = ?h ! 0" using n by (simp add: pq_swap_def nth_list_update)
    then show ?thesis using n by (simp add: take_Suc_conv_app_nth)
  qed
  have "mset (take (Suc ?n) ?s) = mset (take (Suc ?n) ?h)" by (rule mset_take_swap) (use n in auto)
  then have c: "mset (take (items pq) ?h) = add_mset (?h ! 0) (mset (take ?n ?s))"
    using tk ne by simp
  have sk: "ordered ?n (\<lambda>_. True) (pq_sink ?n 0 ?s) \<and> length (pq_sink ?n 0 ?s) = length ?s \<and>
    mset (take ?n (pq_sink ?n 0 ?s)) = mset (take ?n ?s)"
  proof (cases "?n = 0")
    case True
    have "pq_sink 0 0 ?s = ?s" by (subst pq_sink.simps) (simp add: sink_child_def)
    then show ?thesis using True by (simp add: ordered_def)
  next
    case False
    have "ordered ?n (\<lambda>i. PARENT i \<noteq> 0) ?s"
      unfolding ordered_def
    proof (intro allI impI; elim conjE)
      fix i assume i: "0 < i" "i < ?n" "PARENT i \<noteq> 0"
      have "PARENT i < i" using i(1) by auto
      then have "prio ?s (PARENT i) = prio ?h (PARENT i)" "prio ?s i = prio ?h i"
        using i n by (simp_all add: prio_swap)
      then show "prio ?s (PARENT i) \<le> prio ?s i" using o i unfolding ordered_def by auto
    qed
    moreover have "loose_at ?n 0 ?s" by (simp add: loose_at_def)
    ultimately show ?thesis using sink_heap [of 0 ?n ?s] False n by simp
  qed
  show "pq_inv (snd (pq_pop pq))" "pq_size (snd (pq_pop pq)) = pq_size pq"
    unfolding r using sk n by (simp_all add: pq_inv_def)
  show "pq_content pq = add_mset (fst (pq_pop pq)) (pq_content (snd (pq_pop pq)))"
    unfolding r f using sk c by (simp add: pq_content_def)
qed

interpretation pq: priority_queue pq_inv pq_content pq_size priority "\<lambda>x. pq_add (priority x) (element x)" pq_pop
proof
  fix q :: pq_t and x :: pqnode_t
  show "pq_size (pq_add (priority x) (element x) q) = pq_size q"
    by (simp add: pq_add_def)
  show "pq_inv q \<Longrightarrow> pq_inv (pq_add (priority x) (element x) q)"
    using pq_add_effect(1) [of q] by (cases "items q < pq_size q") (auto simp: pq_add_def)
  show "pq_inv q \<Longrightarrow> pq_content (pq_add (priority x) (element x) q) =
      (if size (pq_content q) < pq_size q then add_mset x (pq_content q) else pq_content q)"
    using pq_add_effect(2) [of q "priority x" "element x"] size_content [of q]
    by (cases "items q < pq_size q") (auto simp: pq_add_def)
  show "pq_inv q \<Longrightarrow> pq_inv (snd (pq_pop q))"
    using pq_pop_effect(1) [of q] by (cases "items q = 0") (auto simp: pq_pop_def)
  show "pq_inv q \<Longrightarrow> pq_content q \<noteq> {#} \<Longrightarrow> pq_content q = add_mset (fst (pq_pop q)) (pq_content (snd (pq_pop q)))"
    using pq_pop_effect(2) [of q] size_content [of q] by (cases "items q = 0") auto
  show "pq_inv q \<Longrightarrow> x \<in># pq_content q \<Longrightarrow> priority (fst (pq_pop q)) \<le> priority x"
    using pq_pop_effect(3) [of q x] size_content [of q] by (cases "items q = 0") auto
qed


section \<open>Properties\<close>

definition add_node :: "pqnode_t \<Rightarrow> pq_t \<Rightarrow> pq_t" where "add_node x = pq_add (priority x) (element x)"

text \<open>An empty queue of \<open>n\<close> entries, as \<open>sleep_timer_queue\<close> is declared.\<close>

definition empty_pq :: "nat \<Rightarrow> pq_t" where
  "empty_pq n = \<lparr>heap = replicate n \<lparr>priority = 0, element = 0\<rparr>, items = 0\<rparr>"

lemma empty_pq_inv: "pq_inv (empty_pq n)" "pq_content (empty_pq n) = {#}" "pq_size (empty_pq n) = n"
  by (simp_all add: empty_pq_def pq_inv_def pq_content_def ordered_def)

text \<open>
  C27. The heap is a priority queue. On a heap in its invariant, \<open>pq_add\<close> inserts exactly one
  entry while there is room and changes nothing when the array is full; \<open>pq_pop\<close> of a queue that is
  not empty removes exactly the entry it returns, which is also what \<open>pq_peek\<close> shows and has the
  least priority of all; on an empty queue it returns a zero entry and changes nothing. Both keep
  the invariant.
\<close>

theorem pq_refines_multiset:
  assumes "pq_inv pq"
  shows "pq_inv (pq_add p e pq) \<and> pq_inv (snd (pq_pop pq)) \<and>
    pq_content (pq_add p e pq) =
      (if items pq < pq_size pq then add_mset \<lparr>priority = p, element = e\<rparr> (pq_content pq) else pq_content pq) \<and>
    (if items pq = 0 then pq_pop pq = (\<lparr>priority = 0, element = 0\<rparr>, pq)
     else pq_content pq = add_mset (pq_peek pq) (pq_content (snd (pq_pop pq))) \<and> fst (pq_pop pq) = pq_peek pq \<and>
       (\<forall>x. x \<in># pq_content pq \<longrightarrow> priority (pq_peek pq) \<le> priority x))"
proof -
  have a: "pq_inv (pq_add p e pq)" using pq.inv_add [OF assms, of "\<lparr>priority = p, element = e\<rparr>"] by simp
  have c: "pq_content (pq_add p e pq) =
      (if items pq < pq_size pq then add_mset \<lparr>priority = p, element = e\<rparr> (pq_content pq) else pq_content pq)"
    using pq.content_add [OF assms, of "\<lparr>priority = p, element = e\<rparr>"] size_content [OF assms] by simp
  show ?thesis
  proof (cases "items pq = 0")
    case True
    then show ?thesis using a c assms by (simp add: pq_pop_def)
  next
    case False
    then have pk: "fst (pq_pop pq) = pq_peek pq" by (simp add: pq_pop_def pq_peek_def)
    show ?thesis using a c False pq_pop_effect [OF assms] pk by simp
  qed
qed

theorem pq_refines_multiset_witness:
  "pq_content (snd (pq_pop (pq_add 5 1 (pq_add 9 2 (empty_pq 4))))) = {#\<lparr>priority = 9, element = 2\<rparr>#}"
proof -
  let ?q = "pq_add 9 2 (empty_pq 4)"
  let ?r = "pq_add 5 1 ?q"
  have r: "pq_inv ?q" "pq_inv ?r" using pq_refines_multiset [OF empty_pq_inv(1)] pq_refines_multiset by blast+
  have rep: "replicate 4 x = [x, x, x, x]" for x :: pqnode_t by (simp add: numeral_eq_Suc)
  have "?r = \<lparr>heap = [\<lparr>priority = 5, element = 1\<rparr>, \<lparr>priority = 9, element = 2\<rparr>, \<lparr>priority = 0, element = 0\<rparr>,
      \<lparr>priority = 0, element = 0\<rparr>], items = 2\<rparr>"
    by (simp add: empty_pq_def pq_add_def pq_swim.simps pq_swap_def prio_def rep)
  then show ?thesis using pq_refines_multiset [OF r(2)] by (simp add: pq_content_def pq_peek_def)
qed

text \<open>
  Sleepers wake in the order of their deadlines: entering any list of requests that fits into
  an empty queue and taking them out one by one returns all of them, sorted by deadline.
\<close>

theorem pq_wakes_in_order:
  assumes "length xs \<le> n"
  shows "mset (drain pq_pop (length xs) (fold add_node xs (empty_pq n))) = mset xs \<and>
    sorted (map priority (drain pq_pop (length xs) (fold add_node xs (empty_pq n))))"
proof -
  have "pq_inv (fold add_node xs (empty_pq n)) \<and> pq_content (fold add_node xs (empty_pq n)) = mset xs"
    using pq.add_all [OF empty_pq_inv(1) [of n], of xs] assms empty_pq_inv by (simp add: add_node_def [abs_def])
  then show ?thesis using pq.drain_sorted [of "fold add_node xs (empty_pq n)" "length xs"] by simp
qed

theorem pq_wakes_in_order_witness:
  "sorted (map priority (drain pq_pop 2 (fold add_node [\<lparr>priority = 9, element = 1\<rparr>, \<lparr>priority = 4, element = 2\<rparr>] (empty_pq 64))))"
  using pq_wakes_in_order [of "[\<lparr>priority = 9, element = 1\<rparr>, \<lparr>priority = 4, element = 2\<rparr>]" 64] by (simp add: numeral_2_eq_2)

end
