(* ===== verification/Timers.thy ===== *)
theory Timers
  imports Scheduler_Correct Priority_Queue
begin

text \<open>
  Timers and sleeping processes: \<open>utils/timer.c\<close> and \<open>sys_nanosleep\<close> of \<open>system/syscalls.c\<close>. The
  sleep queue is the priority queue over the 64 entries of \<open>heap_storage\<close>; the compare register of
  the virtual timer is \<open>None\<close> where the timer is disabled. The value of the virtual counter, which
  assembly code reads, is an argument.
\<close>

section \<open>The system timer\<close>

definition CLOCKHZ :: u64 where "CLOCKHZ = 1000000"
definition interval_1 :: u32 where "interval_1 = ucast CLOCKHZ"
definition interval_3 :: u32 where "interval_3 = ucast (CLOCKHZ div 4)"

definition SYS_TIMER_IRQ_1 :: u32 where "SYS_TIMER_IRQ_1 = push_bit 1 1"
definition SYS_TIMER_IRQ_3 :: u32 where "SYS_TIMER_IRQ_3 = push_bit 3 1"

record timer_regs =
  control_status :: u32
  compare_regs :: "u32 list"

record timer_t = timer_regs +
  curr_val_1 :: u32
  curr_val_3 :: u32

text \<open>The two arguments of \<open>timer_init\<close> are the values its two reads of the counter return.\<close>

definition timer_init :: "u32 \<Rightarrow> u32 \<Rightarrow> timer_t \<Rightarrow> timer_t" where
  "timer_init lo1 lo3 t =
     (let t1 = t\<lparr>curr_val_1 := lo1 + interval_1\<rparr>;
          t2 = t1\<lparr>compare_regs := (compare_regs t1)[1 := curr_val_1 t1]\<rparr>;
          t3 = t2\<lparr>curr_val_3 := lo3 + interval_3\<rparr>
      in t3\<lparr>compare_regs := (compare_regs t3)[3 := curr_val_3 t3]\<rparr>)"

definition handle_timer_1 :: "timer_t \<Rightarrow> timer_t" where
  "handle_timer_1 t =
     (let t1 = t\<lparr>curr_val_1 := curr_val_1 t + interval_1\<rparr>
      in t1\<lparr>compare_regs := (compare_regs t1)[1 := curr_val_1 t1], control_status := control_status t1 OR SYS_TIMER_IRQ_1\<rparr>)"

definition handle_timer_3 :: "timer_t \<Rightarrow> timer_t" where
  "handle_timer_3 t =
     (let t1 = t\<lparr>curr_val_3 := curr_val_3 t + interval_3\<rparr>
      in t1\<lparr>compare_regs := (compare_regs t1)[3 := curr_val_3 t1], control_status := control_status t1 OR SYS_TIMER_IRQ_3\<rparr>)"

text \<open>
  \<open>cnt k\<close> is the value of the 64-bit counter at the \<open>k\<close>-th access; each access reads one half of it.
\<close>

definition counter_hi :: "u64 \<Rightarrow> u32" where "counter_hi c = ucast (drop_bit 32 c)"
definition counter_lo :: "u64 \<Rightarrow> u32" where "counter_lo c = ucast c"

definition timer_get_ticks :: "(nat \<Rightarrow> u64) \<Rightarrow> u64" where
  "timer_get_ticks cnt =
     (let hi = counter_hi (cnt 0);
          lo = counter_lo (cnt 1);
          (hi, lo) = (if hi \<noteq> counter_hi (cnt 2) then (counter_hi (cnt 3), counter_lo (cnt 4)) else (hi, lo))
      in push_bit 32 (ucast hi) OR ucast lo)"

text \<open>\<open>clk n\<close> is what the \<open>n\<close>-th call of \<open>timer_get_ticks\<close> returns; the result is the call that ends the wait.\<close>

partial_function (option) sleep_until :: "u64 \<Rightarrow> (nat \<Rightarrow> u64) \<Rightarrow> nat \<Rightarrow> nat option" where
  "sleep_until limit clk n = (if clk n < limit then sleep_until limit clk (Suc n) else Some n)"

definition timer_sleep :: "u32 \<Rightarrow> (nat \<Rightarrow> u64) \<Rightarrow> nat option" where
  "timer_sleep milliseconds clk = (let start = clk 0 in sleep_until (start + ucast (milliseconds * 1000)) clk 1)"

section \<open>Sleeping processes\<close>

record tsys =
  t_sched :: sched
  t_queue :: pq_t
  t_cval :: "u64 option"

definition prime_virtual_timer :: "u64 \<Rightarrow> tsys \<Rightarrow> tsys" where
  "prime_virtual_timer cycles s = s\<lparr>t_cval := Some cycles\<rparr>"

definition clear_virtual_timer :: "tsys \<Rightarrow> tsys" where
  "clear_virtual_timer s = s\<lparr>t_cval := None\<rparr>"

definition timer_nanosleep :: "u64 \<Rightarrow> u64 \<Rightarrow> tsys \<Rightarrow> tsys" where
  "timer_nanosleep counter nanoseconds s =
     (let timer_request = nanoseconds * CLOCKHZ div 1000000000 + counter;
          s1 = s\<lparr>t_queue := pq_add timer_request (of_nat (sc_current (t_sched s))) (t_queue s)\<rparr>
      in prime_virtual_timer (priority (pq_peek (t_queue s1))) s1)"

definition handle_virtual_timer :: "tsys \<Rightarrow> tsys result" where
  "handle_virtual_timer s =
     (let (node, q) = pq_pop (t_queue s);
          s1 = s\<lparr>t_queue := q\<rparr>
      in bindR (reschedule (unat (element node)) (t_sched s1)) (\<lambda>sc.
           let s2 = s1\<lparr>t_sched := sc\<rparr>
           in Inr (if items (t_queue s2) \<noteq> 0 then prime_virtual_timer (priority (pq_peek (t_queue s2))) s2
                   else clear_virtual_timer s2)))"

definition lift_sched :: "(sched \<Rightarrow> sched result) \<Rightarrow> tsys \<Rightarrow> tsys result" where
  "lift_sched f s = bindR (f (t_sched s)) (\<lambda>sc. Inr (s\<lparr>t_sched := sc\<rparr>))"

text \<open>The value \<open>0\<close> that \<open>sys_nanosleep\<close> returns is delivered when the process runs again.\<close>

definition sys_nanosleep :: "u64 \<Rightarrow> u64 \<Rightarrow> tsys \<Rightarrow> tsys result" where
  "sys_nanosleep counter ns s = lift_sched deschedule (timer_nanosleep counter ns s)"

section \<open>The counter\<close>

lemma counter_join: "push_bit 32 (ucast (counter_hi c)) OR ucast (counter_lo c) = c"
  unfolding counter_hi_def counter_lo_def by (rule bit_word_eqI) (auto simp: bit_simps)

lemma counter_hi_nat: "unat (counter_hi c) = unat c div 2 ^ 32"
proof -
  have "unat c < 2 ^ 64" using unsigned_less [of c] by simp
  then have "unat c div 2 ^ 32 < 2 ^ 32" by simp
  then show ?thesis unfolding counter_hi_def
    by (simp add: unat_ucast_word drop_bit_eq_div unat_div_distrib take_bit_nat_eq_self)
qed

lemma counter_hi_mono: "a \<le> b \<Longrightarrow> counter_hi a \<le> counter_hi b"
  by (simp add: word_le_nat_alt counter_hi_nat div_le_mono)

lemma sleep_until_first:
  assumes "\<And>k. n \<le> k \<Longrightarrow> k < m \<Longrightarrow> clk k < limit" and "n \<le> m" and "\<not> clk m < limit"
  shows "sleep_until limit clk n = Some m"
  using assms(2,1)
proof (induction n rule: inc_induct)
  case base
  then show ?case using assms(3) by (subst sleep_until.simps) simp
next
  case (step n)
  then show ?case by (subst sleep_until.simps) simp
qed

lemma timer_sleep_returns:
  assumes "clk 0 + ucast (ms * 1000) \<le> clk m" and "0 < m"
  shows "\<exists>k\<le>m. timer_sleep ms clk = Some k \<and> clk 0 + ucast (ms * 1000) \<le> clk k"
proof -
  define k where "k = (LEAST k. 0 < k \<and> \<not> clk k < clk 0 + ucast (ms * 1000))"
  have m: "0 < m \<and> \<not> clk m < clk 0 + ucast (ms * 1000)" using assms by simp
  have k: "0 < k \<and> \<not> clk k < clk 0 + ucast (ms * 1000)" unfolding k_def by (rule LeastI [of _ m]) (rule m)
  have "k \<le> m" unfolding k_def by (rule Least_le) (rule m)
  moreover have "sleep_until (clk 0 + ucast (ms * 1000)) clk 1 = Some k"
    by (rule sleep_until_first) (use k not_less_Least in \<open>force simp: k_def\<close>)+
  ultimately show ?thesis using k by (auto simp: timer_sleep_def Let_def)
qed

section \<open>The invariant of the sleepers\<close>

text \<open>
  \<open>P\<close> is the set of processes, \<open>S\<close> the set of those that sleep: they are blocked, each has one entry in
  the sleep queue, and the timer is armed for the least deadline, or disabled where nobody sleeps.
\<close>

definition sleepers :: "tsys \<Rightarrow> ptr multiset" where
  "sleepers s = image_mset (\<lambda>x. unat (element x)) (pq_content (t_queue s))"

definition least_deadline :: "tsys \<Rightarrow> u64 \<Rightarrow> bool" where
  "least_deadline s d \<longleftrightarrow> (\<exists>x\<in>#pq_content (t_queue s). priority x = d) \<and> (\<forall>x\<in>#pq_content (t_queue s). d \<le> priority x)"

definition sleep_inv :: "ptr set \<Rightarrow> ptr set \<Rightarrow> tsys \<Rightarrow> ptr list \<Rightarrow> bool" where
  "sleep_inv P S s Q \<longleftrightarrow> sched_inv P (t_sched s) Q \<and> pq_inv (t_queue s) \<and> pq_size (t_queue s) = 64 \<and>
     finite P \<and> card P \<le> 64 \<and> (\<forall>p\<in>P. p < 2 ^ 64) \<and>
     sleepers s = mset_set S \<and> S \<subseteq> {p \<in> P. state_of (t_sched s) p = PROCESS_BLOCKED} \<and>
     (case t_cval s of None \<Rightarrow> S = {} | Some c \<Rightarrow> least_deadline s c)"

lemma sleep_invD:
  assumes "sleep_inv P S s Q"
  shows "sched_inv P (t_sched s) Q" "pq_inv (t_queue s)" "pq_size (t_queue s) = 64" "finite P" "card P \<le> 64"
    "\<And>p. p \<in> P \<Longrightarrow> p < 2 ^ 64" "sleepers s = mset_set S" "S \<subseteq> P" "\<And>p. p \<in> S \<Longrightarrow> state_of (t_sched s) p = PROCESS_BLOCKED"
    "finite S" "t_cval s = None \<Longrightarrow> S = {}" "\<And>c. t_cval s = Some c \<Longrightarrow> least_deadline s c"
  using assms by (auto simp: sleep_inv_def intro: finite_subset)

lemma sleep_items: "sleep_inv P S s Q \<Longrightarrow> items (t_queue s) = card S"
proof -
  assume i: "sleep_inv P S s Q"
  have "size (sleepers s) = card S" using sleep_invD(7) [OF i] by simp
  then show ?thesis using size_content [OF sleep_invD(2) [OF i]] by (simp add: sleepers_def)
qed

lemma pq_peek_least:
  assumes inv: "pq_inv q" and ne: "items q \<noteq> 0"
  shows "pq_peek q \<in># pq_content q" "\<And>x. x \<in># pq_content q \<Longrightarrow> priority (pq_peek q) \<le> priority x"
proof -
  have p: "pq_peek q = fst (pq_pop q)" using ne by (simp add: pq_peek_def pq_pop_def)
  have n: "0 < items q" using ne by simp
  show "pq_peek q \<in># pq_content q" unfolding p pq_pop_effect(2) [OF inv n] by simp
  show "priority (pq_peek q) \<le> priority x" if "x \<in># pq_content q" for x
    unfolding p by (rule pq_pop_effect(3) [OF inv n that])
qed

lemma primed_least:
  "pq_inv (t_queue s) \<Longrightarrow> items (t_queue s) \<noteq> 0 \<Longrightarrow> least_deadline s (priority (pq_peek (t_queue s)))"
  unfolding least_deadline_def using pq_peek_least by blast

text \<open>The scheduler leaves blocked processes blocked.\<close>

lemma scheduler_keeps_blocked:
  assumes "scheduler st = Inr st'" and pre: "sched_pre P st Q" and p: "p \<in> P" "state_of st p = PROCESS_BLOCKED"
  shows "state_of st' p = PROCESS_BLOCKED"
proof -
  have qr: "queue_ready P st Q" using pre by (simp add: sched_pre_def)
  note q = queue_readyD [OF qr]
  have ni: "p \<noteq> sc_idle st" using q(3) p(1) by blast
  have nh: "lnext (sc_runqueue st) Head \<noteq> Node p"
  proof
    assume h: "lnext (sc_runqueue st) Head = Node p"
    have "p \<in> set Q" using queue_ofD(1) [OF q(1)] h by (cases Q) (auto simp: dlist_def)
    then show False using q(2) p(2) by simp
  qed
  show ?thesis
    using assms(1) ni nh p(2)
    by (auto simp: scheduler_def Let_def split: if_splits lnode.splits)
qed

lemma deschedule_eq:
  assumes inv: "sched_inv P st Q"
  shows "deschedule st = scheduler (set_state (sc_current st) PROCESS_BLOCKED st)"
proof -
  let ?s = "set_state (sc_current st) PROCESS_BLOCKED st"
  have "list_remove (Node (sc_current st)) (sc_runqueue st) = sc_runqueue st"
    by (rule queue_skip [OF queue_readyD(1) [OF sched_invD(1) [OF inv]] current_unqueued [OF inv]])
  then have "set_runqueue (list_remove (Node (sc_current st))) ?s = ?s"
    by (simp add: set_runqueue_def set_state_def set_pcb_def)
  then show ?thesis using sched_invD(3) [OF inv] by (simp add: deschedule_def)
qed

lemma deschedule_keeps_blocked:
  assumes d: "deschedule st = Inr st'" and inv: "sched_inv P st Q" and c: "sc_current st \<in> P"
    and p: "p \<in> P" "state_of st p = PROCESS_BLOCKED"
  shows "state_of st' p = PROCESS_BLOCKED"
proof -
  have s: "scheduler (set_state (sc_current st) PROCESS_BLOCKED st) = Inr st'" using d deschedule_eq [OF inv] by simp
  show ?thesis
    by (rule scheduler_keeps_blocked [OF s stop_current [OF inv c] p(1)]) (use p(2) in simp_all)
qed

lemma deschedule_blocks_current:
  assumes d: "deschedule st = Inr st'" and inv: "sched_inv P st Q" and c: "sc_current st \<in> P"
  shows "state_of st' (sc_current st) = PROCESS_BLOCKED"
proof -
  have s: "scheduler (set_state (sc_current st) PROCESS_BLOCKED st) = Inr st'" using d deschedule_eq [OF inv] by simp
  show ?thesis
    by (rule scheduler_keeps_blocked [OF s stop_current [OF inv c] c]) simp_all
qed

lemma least_deadline_cong: "t_queue s' = t_queue s \<Longrightarrow> least_deadline s' d = least_deadline s d"
  by (simp add: least_deadline_def)

lemma sleep_inv_sched:
  assumes i: "sleep_inv P S s Q" and s: "sched_inv P st' Q'"
    and b: "\<And>p. p \<in> S \<Longrightarrow> state_of st' p = PROCESS_BLOCKED"
  shows "sleep_inv P S (s\<lparr>t_sched := st'\<rparr>) Q'"
  using sleep_invD(2-8) [OF i] sleep_invD(11,12) [OF i] s b
  by (auto simp: sleep_inv_def sleepers_def least_deadline_def split: option.splits)

lemma tick_sleepers:
  assumes i: "sleep_inv P S s Q" and t: "lift_sched scheduler s = Inr s'"
  shows "\<exists>Q'. sleep_inv P S s' Q'"
proof -
  note d = sleep_invD [OF i]
  from t obtain st' where st: "scheduler (t_sched s) = Inr st'" "s' = s\<lparr>t_sched := st'\<rparr>"
    by (auto simp: lift_sched_def bindR_eq_Inr)
  have "\<exists>Q'. sched_inv P st' Q'" using scheduler_step [OF inv_pre [OF d(1)]] st(1) by auto
  moreover have "state_of st' p = PROCESS_BLOCKED" if "p \<in> S" for p
    by (rule scheduler_keeps_blocked [OF st(1) inv_pre [OF d(1)]]) (use that d(8,9) in auto)
  ultimately show ?thesis unfolding st(2) using sleep_inv_sched [OF i] by blast
qed

lemma block_sleepers:
  assumes i: "sleep_inv P S s Q" and c: "sc_current (t_sched s) \<in> P" and t: "lift_sched deschedule s = Inr s'"
  shows "\<exists>Q'. sleep_inv P S s' Q'"
proof -
  note d = sleep_invD [OF i]
  from t obtain st' where st: "deschedule (t_sched s) = Inr st'" "s' = s\<lparr>t_sched := st'\<rparr>"
    by (auto simp: lift_sched_def bindR_eq_Inr)
  have "\<exists>Q'. sched_inv P st' Q'" using deschedule_step [OF d(1) c] st(1) by auto
  moreover have "state_of st' p = PROCESS_BLOCKED" if "p \<in> S" for p
    by (rule deschedule_keeps_blocked [OF st(1) d(1) c]) (use that d(8,9) in auto)
  ultimately show ?thesis unfolding st(2) using sleep_inv_sched [OF i] by blast
qed

lemma wake_sleepers:
  assumes i: "sleep_inv P S s Q" and p: "p \<in> P" "p \<notin> S" "state_of (t_sched s) p = PROCESS_BLOCKED"
    and t: "lift_sched (reschedule p) s = Inr s'"
  shows "\<exists>Q'. sleep_inv P S s' Q'"
proof -
  note d = sleep_invD [OF i]
  from t obtain st' where st: "reschedule p (t_sched s) = Inr st'" "s' = s\<lparr>t_sched := st'\<rparr>"
    by (auto simp: lift_sched_def bindR_eq_Inr)
  have "\<exists>Q'. sched_inv P st' Q'" using reschedule_inv [OF d(1) p(1,3)] st(1) by auto
  moreover have "state_of st' q = PROCESS_BLOCKED" if "q \<in> S" for q
  proof -
    have "q \<noteq> p" using that p(2) by blast
    then show ?thesis using d(9) [OF that] st(1) by (auto simp: reschedule_def split: if_splits)
  qed
  ultimately show ?thesis unfolding st(2) using sleep_inv_sched [OF i] by blast
qed

text \<open>A process goes to sleep. There is always an entry for it: it is not among the sleepers itself.\<close>

lemma current_awake: "sleep_inv P S s Q \<Longrightarrow> sc_current (t_sched s) \<notin> S"
  using sleep_invD(9) sched_invD(3) [OF sleep_invD(1)] by fastforce

lemma nanosleep_step:
  assumes i: "sleep_inv P S s Q" and c: "sc_current (t_sched s) \<in> P"
  shows "\<exists>s'. sys_nanosleep now ns s = Inr s' \<and> sleep_inv P (insert (sc_current (t_sched s)) S) s' (tl Q)"
proof -
  note d = sleep_invD [OF i]
  let ?c = "sc_current (t_sched s)" and ?p = "ns * CLOCKHZ div 1000000000 + now"
  let ?q = "pq_add ?p (of_nat ?c) (t_queue s)" and ?t = "timer_nanosleep now ns s"
  have cS: "?c \<notin> S" by (rule current_awake [OF i])
  have "S \<subset> P" using cS c d(8) by blast
  then have "card S < card P" by (rule psubset_card_mono [OF d(4)])
  then have room: "items (t_queue s) < pq_size (t_queue s)" using d(3,5) sleep_items [OF i] by simp
  note a = pq_add_effect [OF d(2) room, of ?p "of_nat ?c"]
  have u: "unat (of_nat ?c :: u64) = ?c" using d(6) [OF c] by (simp add: unsigned_of_nat take_bit_nat_eq_self)
  obtain st' where st: "deschedule (t_sched s) = Inr st'" "sched_inv P st' (tl Q)"
    using deschedule_step [OF d(1) c] by blast
  have t: "t_sched ?t = t_sched s" "t_queue ?t = ?q" "t_cval ?t = Some (priority (pq_peek ?q))"
    by (simp_all add: timer_nanosleep_def prime_virtual_timer_def Let_def)
  have sl: "sleepers (?t\<lparr>t_sched := st'\<rparr>) = mset_set (insert ?c S)"
    using d(7,10) cS u by (simp add: sleepers_def t a(2))
  have bl: "state_of st' p = PROCESS_BLOCKED" if "p \<in> insert ?c S" for p
    using that deschedule_blocks_current [OF st(1) d(1) c] deschedule_keeps_blocked [OF st(1) d(1) c, of p] d(8,9) by blast
  have ld: "least_deadline (?t\<lparr>t_sched := st'\<rparr>) (priority (pq_peek ?q))"
    using primed_least [of "?t\<lparr>t_sched := st'\<rparr>"] a(1,4) t by simp
  have "sleep_inv P (insert ?c S) (?t\<lparr>t_sched := st'\<rparr>) (tl Q)"
    using d(3-8) a(1,3) st(2) sl bl c ld unfolding sleep_inv_def by (auto simp: t)
  then show ?thesis using st(1) t(1) by (simp add: sys_nanosleep_def lift_sched_def)
qed

text \<open>The interrupt of the virtual timer wakes one process whose deadline is the least.\<close>

lemma timer_step:
  assumes i: "sleep_inv P S s Q" and ne: "S \<noteq> {}"
  shows "\<exists>x s'. x \<in># pq_content (t_queue s) \<and> t_cval s = Some (priority x) \<and> unat (element x) \<in> S \<and>
    handle_virtual_timer s = Inr s' \<and> sleep_inv P (S - {unat (element x)}) s' (unat (element x) # Q)"
proof -
  note d = sleep_invD [OF i]
  obtain x q where pop: "pq_pop (t_queue s) = (x, q)" by (cases "pq_pop (t_queue s)")
  let ?p = "unat (element x)"
  have n: "0 < items (t_queue s)" using ne d(10) sleep_items [OF i] by (simp add: card_gt_0_iff)
  note e = pq_pop_effect [OF d(2) n, unfolded pop fst_conv snd_conv]
  have xin: "x \<in># pq_content (t_queue s)" using e(2) by simp
  have pS: "?p \<in> S"
  proof -
    have "?p \<in># sleepers s" using xin by (auto simp: sleepers_def)
    then show ?thesis unfolding d(7) using d(10) by simp
  qed
  obtain c where c: "t_cval s = Some c" using d(11) ne by (cases "t_cval s") auto
  have "c = priority x"
    using d(12) [OF c] e(3) xin unfolding least_deadline_def by (metis order_antisym)
  obtain st' where st: "reschedule ?p (t_sched s) = Inr st'" "sched_inv P st' (?p # Q)"
    using reschedule_inv [OF d(1), of ?p] pS d(8,9) by blast
  let ?s1 = "s\<lparr>t_queue := q, t_sched := st'\<rparr>"
  define s' where "s' = (if items q \<noteq> 0 then prime_virtual_timer (priority (pq_peek q)) ?s1 else clear_virtual_timer ?s1)"
  have h: "handle_virtual_timer s = Inr s'" using st(1) by (simp add: handle_virtual_timer_def pop s'_def)
  have sel: "t_sched s' = st'" "t_queue s' = q" "t_cval s' = (if items q \<noteq> 0 then Some (priority (pq_peek q)) else None)"
    by (simp_all add: s'_def prime_virtual_timer_def clear_virtual_timer_def)
  have sl: "sleepers s' = mset_set (S - {?p})"
  proof -
    have "mset_set S = add_mset ?p (image_mset (\<lambda>x. unat (element x)) (pq_content q))"
      using d(7) e(2) by (simp add: sleepers_def)
    then show ?thesis using d(10) pS by (simp add: sleepers_def sel mset_set_Diff)
  qed
  have em: "items q = 0 \<Longrightarrow> S - {?p} = {}"
  proof -
    assume z: "items q = 0"
    have "size (sleepers s') = items q" using size_content [OF e(1)] by (simp add: sleepers_def sel)
    then show ?thesis using z d(10) unfolding sl by simp
  qed
  have bl: "state_of st' r = PROCESS_BLOCKED" if "r \<in> S - {?p}" for r
    using that d(9) [of r] st(1) by (auto simp: reschedule_def split: if_splits)
  have ld: "items q \<noteq> 0 \<Longrightarrow> least_deadline s' (priority (pq_peek q))" using primed_least [of s'] e(1) sel by simp
  have "sleep_inv P (S - {?p}) s' (?p # Q)"
    using d(3-8) e(1,4) st(2) sl em bl ld unfolding sleep_inv_def by (auto simp: sel)
  then show ?thesis using xin pS h c \<open>c = priority x\<close> by blast
qed

section \<open>Runs\<close>

text \<open>
  What changes the sleepers or the schedule: a process sleeps, the timer fires at its deadline, the
  scheduler's tick, a process blocks for another reason, and one that does not sleep is woken.
\<close>

inductive sleep_step :: "ptr set \<Rightarrow> tsys \<Rightarrow> tsys \<Rightarrow> bool" for P where
  sleep: "sc_current (t_sched s) \<in> P \<Longrightarrow> sys_nanosleep now ns s = Inr s' \<Longrightarrow> sleep_step P s s'"
| fire: "t_cval s = Some c \<Longrightarrow> c \<le> now \<Longrightarrow> handle_virtual_timer s = Inr s' \<Longrightarrow> sleep_step P s s'"
| tick: "lift_sched scheduler s = Inr s' \<Longrightarrow> sleep_step P s s'"
| block: "sc_current (t_sched s) \<in> P \<Longrightarrow> lift_sched deschedule s = Inr s' \<Longrightarrow> sleep_step P s s'"
| wake: "p \<in> P \<Longrightarrow> p \<notin># sleepers s \<Longrightarrow> state_of (t_sched s) p = PROCESS_BLOCKED \<Longrightarrow>
    lift_sched (reschedule p) s = Inr s' \<Longrightarrow> sleep_step P s s'"

lemma sleep_step_inv:
  assumes "sleep_step P s s'" and i: "sleep_inv P S s Q"
  shows "\<exists>S' Q'. sleep_inv P S' s' Q'"
  using assms(1)
proof cases
  case (sleep now ns)
  then show ?thesis using nanosleep_step [OF i sleep(1), of now ns] by auto
next
  case (fire c now)
  then have "S \<noteq> {}" using sleep_invD(7,12) [OF i] by (auto simp: least_deadline_def sleepers_def)
  then show ?thesis using timer_step [OF i] fire(3) by fastforce
next
  case tick
  then show ?thesis using tick_sleepers [OF i] by blast
next
  case block
  then show ?thesis using block_sleepers [OF i] by blast
next
  case (wake p)
  then have "p \<notin> S" using sleep_invD(7,10) [OF i] by simp
  then show ?thesis using wake_sleepers [OF i] wake by blast
qed

lemma sleep_run_inv: "(sleep_step P)\<^sup>*\<^sup>* s s' \<Longrightarrow> sleep_inv P S s Q \<Longrightarrow> \<exists>S' Q'. sleep_inv P S' s' Q'"
proof (induction rule: rtranclp_induct)
  case base
  then show ?case by blast
next
  case (step y z)
  then show ?case using sleep_step_inv by blast
qed

primrec timer_irqs :: "nat \<Rightarrow> tsys \<Rightarrow> tsys result" where
  "timer_irqs 0 s = Inr s"
| "timer_irqs (Suc n) s = bindR (handle_virtual_timer s) (timer_irqs n)"

lemma timer_irqs_wake:
  "sleep_inv P S s Q \<Longrightarrow> card S = n \<Longrightarrow>
   \<exists>s' Q'. timer_irqs n s = Inr s' \<and> sleep_inv P {} s' Q' \<and> S \<union> set Q \<subseteq> set Q'"
proof (induction n arbitrary: S s Q)
  case 0
  then have "S = {}" using sleep_invD(10) by fastforce
  then show ?case using 0 by auto
next
  case (Suc n)
  then have "S \<noteq> {}" by auto
  from timer_step [OF Suc.prems(1) this] obtain x :: pqnode_t and s1 where x: "unat (element x) \<in> S" "handle_virtual_timer s = Inr s1"
    "sleep_inv P (S - {unat (element x)}) s1 (unat (element x) # Q)" by blast
  have "card (S - {unat (element x)}) = n" using Suc.prems(2) x(1) by simp
  from Suc.IH [OF x(3) this] show ?case using x(1,2) by auto
qed

section \<open>Properties\<close>

definition demo_tsys :: tsys where
  "demo_tsys = \<lparr>t_sched = add_to_schedule 2 (add_to_schedule 3 (add_to_schedule 4 demo_sched)), t_queue = empty_pq 64,
     t_cval = None\<rparr>"

lemma demo_tsys_inv: "sleep_inv {2, 3, 4} {} demo_tsys [2, 3, 4]"
  using demo_three empty_pq_inv [of 64] by (simp add: sleep_inv_def sleepers_def demo_tsys_def)

text \<open>One process of the example sleeps.\<close>

lemma demo_sleep:
  obtains s where "(sleep_step {2, 3, 4})\<^sup>*\<^sup>* demo_tsys s" "sleep_inv {2, 3, 4} {2} s [4]"
proof -
  have c: "sc_current (t_sched demo_tsys) = 1" "sc_idle (t_sched demo_tsys) = 1"
    by (simp_all add: demo_tsys_def add_to_schedule_def demo_sched_def Let_def)
  have n: "next_queue (t_sched demo_tsys) [2, 3, 4] = [3, 4]" "next_process (t_sched demo_tsys) [2, 3, 4] = 2"
    using c by (simp_all add: next_queue_def next_process_def)
  note i = sleep_invD(1) [OF demo_tsys_inv]
  from scheduler_step [OF inv_pre [OF i]] n obtain st where
    st: "scheduler (t_sched demo_tsys) = Inr st" "sched_inv {2, 3, 4} st [3, 4]" "sc_current st = 2" by auto
  let ?s = "demo_tsys\<lparr>t_sched := st\<rparr>"
  have t: "lift_sched scheduler demo_tsys = Inr ?s" using st(1) by (simp add: lift_sched_def)
  have i1: "sleep_inv {2, 3, 4} {} ?s [3, 4]" by (rule sleep_inv_sched [OF demo_tsys_inv st(2)]) simp
  have c1: "sc_current (t_sched ?s) \<in> {2, 3, 4}" using st(3) by simp
  from nanosleep_step [OF i1 c1, of 0 1000000] obtain s' where
    s': "sys_nanosleep 0 1000000 ?s = Inr s'" "sleep_inv {2, 3, 4} {2} s' [4]" using st(3) by auto
  have "(sleep_step {2, 3, 4})\<^sup>*\<^sup>* demo_tsys s'"
    using sleep_step.tick [OF t] sleep_step.sleep [OF c1 s'(1)] by (meson converse_rtranclp_into_rtranclp r_into_rtranclp)
  then show thesis using s'(2) by (rule that)
qed



text \<open>
  A timer interrupt wakes the right process. Where somebody sleeps, the interrupt of the virtual
  timer makes exactly one sleeper ready, at the head of the run queue; its deadline is the least and
  is the one the timer was armed for, so no process is woken early or out of order.
\<close>

theorem timer_wakes_earliest:
  assumes "sleep_inv P S s Q" and "S \<noteq> {}"
  shows "\<exists>x s'. x \<in># pq_content (t_queue s) \<and> (\<forall>y\<in>#pq_content (t_queue s). priority x \<le> priority y) \<and>
    t_cval s = Some (priority x) \<and> handle_virtual_timer s = Inr s' \<and>
    sleep_inv P (S - {unat (element x)}) s' (unat (element x) # Q)"
  using timer_step [OF assms] sleep_invD(12) [OF assms(1)] unfolding least_deadline_def by metis

theorem timer_wakes_earliest_witness:
  "\<exists>s s'. \<exists>x :: pqnode_t. sleep_inv {2, 3, 4} {2} s [4] \<and> t_cval s = Some (priority x) \<and> handle_virtual_timer s = Inr s'"
proof -
  obtain s where "sleep_inv {2, 3, 4} {2} s [4]" by (rule demo_sleep)
  from this timer_wakes_earliest [OF this insert_not_empty] show ?thesis by blast
qed

text \<open>
  The two halves of the counter are never mixed up. If the counter does not go backwards and
  advances by less than $2^{32}$ during the five reads, \<open>timer_get_ticks\<close> returns a value between the
  counter's first and last value, even where the low half overflows between two reads.
\<close>

theorem timer_get_ticks_correct:
  assumes m: "\<And>i j. i \<le> j \<Longrightarrow> cnt i \<le> cnt j" and r: "unat (cnt 4) < unat (cnt 0) + 2 ^ 32"
  shows "cnt 0 \<le> timer_get_ticks cnt \<and> timer_get_ticks cnt \<le> cnt 4"
proof (cases "counter_hi (cnt 0) = counter_hi (cnt 2)")
  case True
  then have "counter_hi (cnt 1) = counter_hi (cnt 0)"
    using counter_hi_mono [OF m [of 0 1]] counter_hi_mono [OF m [of 1 2]] by simp
  then have "timer_get_ticks cnt = cnt 1" using True counter_join [of "cnt 1"] by (simp add: timer_get_ticks_def)
  then show ?thesis using m [of 0 1] m [of 1 4] by simp
next
  case False
  have le: "unat (counter_hi (cnt i)) \<le> unat (counter_hi (cnt j))" if "i \<le> j" for i j
    using counter_hi_mono [OF m [OF that]] by (simp add: word_le_nat_alt)
  have "unat (counter_hi (cnt 0)) < unat (counter_hi (cnt 2))"
    using le [of 0 2] False by (simp add: order.strict_iff_order word_unat_eq_iff)
  moreover have "unat (counter_hi (cnt 4)) \<le> unat (counter_hi (cnt 0)) + 1"
    unfolding counter_hi_nat using div_le_mono [of "unat (cnt 4)" "unat (cnt 0) + 2 ^ 32" "2 ^ 32"] r by simp
  ultimately have "counter_hi (cnt 3) = counter_hi (cnt 4)"
    using le [of 2 3] le [of 3 4] by (intro word_unat_eq_iff [THEN iffD2]) linarith
  then have "timer_get_ticks cnt = cnt 4" using False counter_join [of "cnt 4"] by (simp add: timer_get_ticks_def)
  then show ?thesis using m [of 0 4] by simp
qed

theorem timer_get_ticks_correct_witness:
  "timer_get_ticks (\<lambda>k. 0x1FFFFFFFF + of_nat (min k 4)) \<le> 0x200000003"
proof -
  define cnt :: "nat \<Rightarrow> u64" where "cnt k = 0x1FFFFFFFF + of_nat (min k 4)" for k
  have u: "unat (cnt k) = 0x1FFFFFFFF + min k 4" for k
    unfolding cnt_def by (subst unat_add_lem [THEN iffD1]) (simp_all add: unsigned_of_nat take_bit_nat_eq_self)
  have "cnt i \<le> cnt j" if "i \<le> j" for i j using that by (simp add: word_le_nat_alt u)
  from timer_get_ticks_correct [of cnt, OF this] have "timer_get_ticks cnt \<le> cnt 4" by (simp add: u)
  then show ?thesis unfolding cnt_def by simp
qed

end
