(* ===== verification/Pipe.thy ===== *)
theory Pipe
  imports Scheduler
begin

text \<open>
  The ring buffer behind pipes and the keyboard: \<open>types/pipe_types.h\<close>, the pipe functions of
  \<open>filedescriptors/filedescriptors.c\<close> and \<open>drivers/kbd.c\<close>. The buffer is a function on indices; head
  and tail are 64-bit counters that only grow and wrap around, and start at the buffer's address.
  The locale \<open>byte_queue\<close> is the contract between the interrupt handler that fills the buffer and
  the readers that drain it.
\<close>

section \<open>Types and operations\<close>

record pipe_data_t =
  rd_wait :: "ptr list"
  head :: u64
  tail :: u64
  ring_size :: u32
  buf :: "nat \<Rightarrow> u8"

text \<open>
  \<open>keyboard_init\<close> and \<open>pipe_open\<close>, given the address of the page that \<open>kmalloc\<close> returned. Of the two
  only \<open>keyboard_init\<close> initialises the wait list; \<open>pipe_open\<close> leaves what the memory held, here
  \<open>wl\<close>.
\<close>

definition PAGE_SIZE :: u32 where "PAGE_SIZE = 4096"

definition keyboard_init :: "u64 \<Rightarrow> (nat \<Rightarrow> u8) \<Rightarrow> pipe_data_t" where
  "keyboard_init addr mem = \<lparr>rd_wait = [], head = addr, tail = addr, ring_size = PAGE_SIZE, buf = mem\<rparr>"

definition pipe_open :: "u64 \<Rightarrow> (nat \<Rightarrow> u8) \<Rightarrow> ptr list \<Rightarrow> pipe_data_t option" where
  "pipe_open addr mem wl =
     (if addr = 0 then None
      else Some \<lparr>rd_wait = wl, head = addr, tail = addr, ring_size = PAGE_SIZE, buf = mem\<rparr>)"

text \<open>\<open>wake_listeners\<close>: wake and remove the waiters from the front, until none is left.\<close>

fun wake_listeners :: "ptr list \<Rightarrow> sched \<Rightarrow> sched result" where
  "wake_listeners [] st = Inr st"
| "wake_listeners (p # ps) st = bindR (reschedule p st) (wake_listeners ps)"

text \<open>The buffer part of \<open>handle_keyboard_event\<close>; the event is dropped where the buffer is full.\<close>

definition pipe_full :: "pipe_data_t \<Rightarrow> bool" where
  "pipe_full p \<longleftrightarrow> ucast (ring_size p) \<le> head p - tail p"

definition pipe_put :: "u8 \<Rightarrow> pipe_data_t \<Rightarrow> pipe_data_t" where
  "pipe_put c p =
     (if pipe_full p then p
      else p\<lparr>buf := (buf p)(unat (ucast (head p mod ucast (ring_size p)) :: u32) := c), head := head p + 1\<rparr>)"

definition handle_keyboard_event :: "u8 \<Rightarrow> pipe_data_t \<Rightarrow> sched \<Rightarrow> (pipe_data_t \<times> sched) result" where
  "handle_keyboard_event c p st =
     (if pipe_full p then Inr (p, st)
      else let p' = pipe_put c p
           in bindR (wake_listeners (rd_wait p') st) (\<lambda>st'. Inr (p'\<lparr>rd_wait := []\<rparr>, st')))"

text \<open>
  \<open>pipe_read\<close>: on an empty buffer the caller enters the wait list, if nobody is on it, and blocks;
  otherwise up to \<open>count\<close> bytes are copied in two pieces.
\<close>

definition pipe_wait :: "ptr \<Rightarrow> pipe_data_t \<Rightarrow> pipe_data_t" where
  "pipe_wait reader p = (if rd_wait p = [] then p\<lparr>rd_wait := [reader]\<rparr> else p)"

definition pipe_take :: "u64 \<Rightarrow> pipe_data_t \<Rightarrow> u8 list \<times> pipe_data_t" where
  "pipe_take count p =
     (let avail = ucast (head p - tail p) :: u32;
          to_read = min avail (ucast count);
          tail_idx = ucast (tail p) AND (ring_size p - 1) :: u32;
          first_chunk = min to_read (ring_size p - tail_idx);
          start = unat (tail p mod ucast (ring_size p));
          second_chunk = to_read - first_chunk
      in (map (\<lambda>i. buf p (start + i)) [0..<unat first_chunk] @ map (buf p) [0..<unat second_chunk],
          p\<lparr>tail := tail p + ucast to_read\<rparr>))"

datatype read_result = Blocks pipe_data_t | Bytes "u8 list" pipe_data_t

definition pipe_read :: "ptr \<Rightarrow> u64 \<Rightarrow> pipe_data_t \<Rightarrow> read_result" where
  "pipe_read reader count p =
     (if head p = tail p then Blocks (pipe_wait reader p)
      else case pipe_take count p of (bs, p') \<Rightarrow> Bytes bs p')"

section \<open>The buffer as a queue\<close>

definition ring_at :: "pipe_data_t \<Rightarrow> nat \<Rightarrow> u8" where
  "ring_at p i = buf p ((unat (tail p) + i) mod unat (ring_size p))"

definition pipe_content :: "pipe_data_t \<Rightarrow> u8 list" where
  "pipe_content p = map (ring_at p) [0..<unat (head p - tail p)]"

definition pipe_inv :: "pipe_data_t \<Rightarrow> bool" where
  "pipe_inv p \<longleftrightarrow> (\<exists>k<32. ring_size p = 2 ^ k) \<and> unat (head p - tail p) \<le> unat (ring_size p)"

lemma length_pipe_content [simp]: "length (pipe_content p) = unat (head p - tail p)"
  by (simp add: pipe_content_def)

text \<open>Sizes that are powers of two divide the range of the counters, so wrap-around is harmless.\<close>

lemma ring_sizeD:
  assumes "pipe_inv p"
  obtains k where "k < 32" "ring_size p = 2 ^ k" "unat (ring_size p) = 2 ^ k" "unat (ucast (ring_size p) :: u64) = 2 ^ k"
proof -
  obtain k where k: "k < 32" "ring_size p = 2 ^ k" using assms by (auto simp: pipe_inv_def)
  have u: "unat (2 ^ k :: u32) = 2 ^ k" using k(1) by (intro unat_exp_word) simp
  have "unat (ucast (2 ^ k :: u32) :: u64) = 2 ^ k"
    unfolding unat_ucast_word u using k(1) by (simp add: power_strict_increasing)
  then show thesis using that k u by metis
qed

lemma unat_add_mod:
  assumes "k \<le> 64"
  shows "unat (a + b :: u64) mod 2 ^ k = (unat a + unat b) mod 2 ^ k"
proof -
  have "(2::nat) ^ k dvd 2 ^ 64" by (rule le_imp_power_dvd [OF assms])
  then show ?thesis by (simp add: unat_word_ariths mod_mod_cancel)
qed

lemma head_index:
  assumes "k \<le> 64"
  shows "unat h mod 2 ^ k = (unat t + unat (h - t :: u64)) mod 2 ^ k"
  using unat_add_mod [OF assms, of t "h - t"] by simp

lemma mod_inj_le:
  assumes "x \<le> y" "y < n" "(a + x) mod n = (a + y) mod (n :: nat)"
  shows "x = y"
proof (rule ccontr)
  assume "x \<noteq> y"
  have "n dvd (a + y) - (a + x)" using assms mod_eq_dvd_iff_nat [of "a + x" "a + y" n] by simp
  then have "n dvd y - x" by simp
  moreover have "0 < y - x" using assms(1) \<open>x \<noteq> y\<close> by simp
  ultimately have "n \<le> y - x" by (rule dvd_imp_le)
  then show False using assms(2) by simp
qed

lemma mod_inj_window:
  assumes "i < n" "j < n" "(a + i) mod n = (a + j) mod (n :: nat)"
  shows "i = j"
proof (cases "i \<le> j")
  case True
  then show ?thesis by (rule mod_inj_le [OF _ assms(2,3)])
next
  case False
  then have "j \<le> i" by simp
  then have "j = i" by (rule mod_inj_le [OF _ assms(1) assms(3) [symmetric]])
  then show ?thesis ..
qed

lemma unat_ucast_small: "unat x < 2 ^ LENGTH('b) \<Longrightarrow> unat (ucast x :: 'b::len word) = unat x"
  by (simp add: unat_ucast_word take_bit_nat_eq_self)

lemma pipe_put_content:
  assumes inv: "pipe_inv p"
  shows "pipe_inv (pipe_put c p)" "ring_size (pipe_put c p) = ring_size p"
    "pipe_content (pipe_put c p) =
       (if length (pipe_content p) < unat (ring_size p) then pipe_content p @ [c] else pipe_content p)"
proof -
  obtain k where k: "k < 32" "ring_size p = 2 ^ k" "unat (ring_size p) = 2 ^ k" "unat (ucast (ring_size p) :: u64) = 2 ^ k"
    by (rule ring_sizeD [OF inv])
  let ?n = "unat (head p - tail p)"
  have full: "pipe_full p \<longleftrightarrow> 2 ^ k \<le> ?n" by (simp add: pipe_full_def word_le_nat_alt k(4))
  show "ring_size (pipe_put c p) = ring_size p" by (simp add: pipe_put_def)
  show "pipe_inv (pipe_put c p)"
    "pipe_content (pipe_put c p) =
       (if length (pipe_content p) < unat (ring_size p) then pipe_content p @ [c] else pipe_content p)"
  proof (atomize (full), cases "pipe_full p")
    case True
    then show "pipe_inv (pipe_put c p) \<and> pipe_content (pipe_put c p) =
       (if length (pipe_content p) < unat (ring_size p) then pipe_content p @ [c] else pipe_content p)"
      using inv full k(3) by (simp add: pipe_put_def)
  next
    case False
    then have n: "?n < 2 ^ k" using full by simp
    have b: "(2::nat) ^ k \<le> 2 ^ 31" using k(1) by (intro power_increasing) auto
    have "head p + 1 - tail p = head p - tail p + 1" by simp
    moreover have "unat (head p - tail p + 1) = Suc ?n"
      using n b by (subst unat_word_ariths) (simp add: Suc_mod_eq_add3_mod_numeral)
    ultimately have sz: "unat (head p + 1 - tail p) = Suc ?n" by metis
    define i where "i = unat (ucast (head p mod ucast (ring_size p)) :: u32)"
    have "unat (head p mod ucast (ring_size p)) = unat (head p) mod 2 ^ k" by (simp add: unat_mod k(4))
    moreover have "unat (head p) mod 2 ^ k < 2 ^ 32"
      by (rule less_le_trans [of _ "2 ^ k"]) (use b in simp_all)
    ultimately have i: "i = unat (head p) mod 2 ^ k" unfolding i_def by (simp add: unat_ucast_small)
    then have i': "i = (unat (tail p) + ?n) mod 2 ^ k" using head_index [of k "head p" "tail p"] k(1) by simp
    have pp: "pipe_put c p = p\<lparr>buf := (buf p)(i := c), head := head p + 1\<rparr>" using False by (simp add: pipe_put_def i_def)
    have old: "ring_at (pipe_put c p) j = ring_at p j" if "j < ?n" for j
    proof -
      have "(unat (tail p) + j) mod 2 ^ k \<noteq> i" using mod_inj_window [of j "2 ^ k" ?n] that n i' by auto
      then show ?thesis unfolding pp ring_at_def using k(3) by simp
    qed
    have new: "ring_at (pipe_put c p) ?n = c" unfolding pp ring_at_def using k(3) i' by simp
    have "pipe_content (pipe_put c p) = map (ring_at (pipe_put c p)) [0..<Suc ?n]"
      unfolding pipe_content_def using sz pp by simp
    also have "\<dots> = pipe_content p @ [c]" unfolding pipe_content_def using old new by simp
    finally show "pipe_inv (pipe_put c p) \<and> pipe_content (pipe_put c p) =
       (if length (pipe_content p) < unat (ring_size p) then pipe_content p @ [c] else pipe_content p)"
      using n k sz pp by (auto simp: pipe_inv_def)
  qed
qed

lemma unat_mask_index:
  assumes "k < 32" shows "unat (ucast (t :: u64) AND (2 ^ k - 1) :: u32) = unat t mod 2 ^ k"
proof -
  have "ucast t AND (2 ^ k - 1) = take_bit k (ucast t :: u32)" by (simp add: take_bit_eq_mask mask_eq_exp_minus_1)
  then have "unat (ucast t AND (2 ^ k - 1) :: u32) = take_bit k (unat (ucast t :: u32))" by (simp add: unsigned_take_bit_eq)
  also have "\<dots> = take_bit k (unat t)" using assms by (simp add: unat_ucast_word)
  finally show ?thesis by (simp add: take_bit_eq_mod)
qed

lemma ring_two_pieces:
  assumes "m \<le> N" "f = min m (N - t mod N)" "0 < N"
  shows "map (\<lambda>i. b (t mod N + i)) [0..<f] @ map b [0..<m - f] = map (\<lambda>i. b ((t + i) mod N :: nat)) [0..<m]"
proof (rule nth_equalityI)
  show "length (map (\<lambda>i. b (t mod N + i)) [0..<f] @ map b [0..<m - f]) = length (map (\<lambda>i. b ((t + i) mod N)) [0..<m])"
    using assms by simp
  fix i assume "i < length (map (\<lambda>i. b (t mod N + i)) [0..<f] @ map b [0..<m - f])"
  then have i: "i < m" using assms by simp
  have e: "(t + i) mod N = (t mod N + i) mod N" by (simp add: mod_add_left_eq)
  show "(map (\<lambda>i. b (t mod N + i)) [0..<f] @ map b [0..<m - f]) ! i = map (\<lambda>i. b ((t + i) mod N)) [0..<m] ! i"
  proof (cases "i < f")
    case True
    then have "i < N - t mod N" using assms(2) by simp
    then have "t mod N + i < N" by linarith
    then show ?thesis using True i e by (simp add: nth_append)
  next
    case False
    then have f: "f = N - t mod N" using assms i by simp
    have "t mod N < N" using assms by simp
    then have "t mod N + i = (i - f) + N" using False f by simp
    then have "(t + i) mod N = (i - f) mod N" unfolding e by simp
    moreover have "i - f < N" using i assms(1) by simp
    ultimately show ?thesis using False i by (simp add: nth_append)
  qed
qed

lemma pipe_take_content:
  fixes count :: u64
  assumes inv: "pipe_inv p"
  defines "m \<equiv> min (length (pipe_content p)) (unat (ucast count :: u32))"
  shows "fst (pipe_take count p) = take m (pipe_content p)" "pipe_content (snd (pipe_take count p)) = drop m (pipe_content p)"
    "pipe_inv (snd (pipe_take count p))" "ring_size (snd (pipe_take count p)) = ring_size p"
proof -
  obtain k where k: "k < 32" "ring_size p = 2 ^ k" "unat (ring_size p) = 2 ^ k" "unat (ucast (ring_size p) :: u64) = 2 ^ k"
    by (rule ring_sizeD [OF inv])
  let ?n = "unat (head p - tail p)" and ?t = "unat (tail p)"
  have n: "?n \<le> 2 ^ k" using inv k(3) by (simp add: pipe_inv_def)
  have b: "(2::nat) ^ k \<le> 2 ^ 31" using k(1) by (intro power_increasing) auto
  define to_read :: u32 where "to_read = min (ucast (head p - tail p)) (ucast count)"
  define first where "first = min to_read (ring_size p - (ucast (tail p) AND (ring_size p - 1)))"
  have av: "unat (ucast (head p - tail p) :: u32) = ?n" using n b by (intro unat_ucast_small) simp
  have m: "unat to_read = m" unfolding to_read_def m_def by (simp add: min_def word_le_nat_alt av)
  have ti: "unat (ucast (tail p) AND (ring_size p - 1) :: u32) = ?t mod 2 ^ k"
    unfolding k(2) by (rule unat_mask_index [OF k(1)])
  have "ucast (tail p) AND (ring_size p - 1) \<le> ring_size p" unfolding word_le_nat_alt ti k(3) by (simp add: less_imp_le)
  then have fc: "unat first = min m (2 ^ k - ?t mod 2 ^ k)"
    unfolding first_def by (simp add: min_def word_le_nat_alt unat_sub m ti k(3))
  have st: "unat (tail p mod ucast (ring_size p)) = ?t mod 2 ^ k" by (simp add: unat_mod k(4))
  have "first \<le> to_read" by (simp add: first_def)
  then have sc: "unat (to_read - first) = m - unat first" using m by (simp add: unat_sub)
  have take: "pipe_take count p =
      (map (\<lambda>i. buf p (?t mod 2 ^ k + i)) [0..<unat first] @ map (buf p) [0..<m - unat first],
       p\<lparr>tail := tail p + ucast to_read\<rparr>)"
    unfolding pipe_take_def Let_def to_read_def [symmetric] first_def [symmetric] st sc ..
  have mn: "m \<le> ?n" "m \<le> 2 ^ k" using n by (auto simp: m_def)
  have "map (\<lambda>i. buf p (?t mod 2 ^ k + i)) [0..<unat first] @ map (buf p) [0..<m - unat first] =
      map (\<lambda>i. buf p ((?t + i) mod 2 ^ k)) [0..<m]"
    by (rule ring_two_pieces) (use mn fc in simp_all)
  also have "\<dots> = take m (pipe_content p)"
    unfolding pipe_content_def ring_at_def k(3) using mn by (simp add: take_map)
  finally show "fst (pipe_take count p) = take m (pipe_content p)" unfolding take by simp
  have ut: "unat (ucast to_read :: u64) = m" using m mn b by (subst unat_ucast_small) simp_all
  have "ucast to_read \<le> head p - tail p" unfolding word_le_nat_alt ut by (rule mn(1))
  then have "unat (head p - tail p - ucast to_read) = ?n - m" by (simp add: unat_sub ut)
  moreover have "head p - (tail p + ucast to_read) = head p - tail p - ucast to_read" by simp
  ultimately have sz: "unat (head p - (tail p + ucast to_read)) = ?n - m" by metis
  let ?q = "p\<lparr>tail := tail p + ucast to_read\<rparr>"
  have ra: "ring_at ?q i = ring_at p (m + i)" for i
  proof -
    have "(unat (tail p + ucast to_read) + i) mod 2 ^ k = (unat (tail p + ucast to_read) mod 2 ^ k + i) mod 2 ^ k"
      by (simp add: mod_add_left_eq)
    also have "\<dots> = ((?t + m) mod 2 ^ k + i) mod 2 ^ k"
      using unat_add_mod [of k "tail p" "ucast to_read"] k(1) ut by simp
    also have "\<dots> = (?t + (m + i)) mod 2 ^ k" by (simp add: mod_add_left_eq add.assoc)
    finally show ?thesis unfolding ring_at_def using k(3) by simp
  qed
  have "pipe_content ?q = map (\<lambda>i. ring_at p (m + i)) [0..<?n - m]"
    unfolding pipe_content_def using sz ra by simp
  also have "\<dots> = drop m (pipe_content p)"
    by (rule nth_equalityI) (simp_all add: pipe_content_def)
  finally show "pipe_content (snd (pipe_take count p)) = drop m (pipe_content p)" unfolding take by simp
  show "ring_size (snd (pipe_take count p)) = ring_size p" unfolding take by simp
  show "pipe_inv (snd (pipe_take count p))" unfolding take using inv sz k n by (auto simp: pipe_inv_def)
qed

section \<open>The contract of the buffer\<close>

locale byte_queue =
  fixes inv :: "'q \<Rightarrow> bool" and content :: "'q \<Rightarrow> 'b list" and room :: "'q \<Rightarrow> nat"
    and put :: "'b \<Rightarrow> 'q \<Rightarrow> 'q" and take_up_to :: "nat \<Rightarrow> 'q \<Rightarrow> 'b list \<times> 'q"
  assumes put_inv: "inv q \<Longrightarrow> inv (put c q)" and put_room: "inv q \<Longrightarrow> room (put c q) = room q"
    and put_content: "inv q \<Longrightarrow> content (put c q) = (if length (content q) < room q then content q @ [c] else content q)"
    and take_inv: "inv q \<Longrightarrow> inv (snd (take_up_to n q))"
    and take_fst: "inv q \<Longrightarrow> n < 2 ^ 32 \<Longrightarrow> fst (take_up_to n q) = take n (content q)"
    and take_content: "inv q \<Longrightarrow> n < 2 ^ 32 \<Longrightarrow> content (snd (take_up_to n q)) = drop n (content q)"
begin

lemma put_all:
  "inv q \<Longrightarrow> length (content q) + length cs \<le> room q \<Longrightarrow> inv (fold put cs q) \<and> content (fold put cs q) = content q @ cs"
proof (induction cs arbitrary: q)
  case (Cons c cs)
  then show ?case using Cons.IH [of "put c q"] put_inv put_room put_content by simp
qed simp

text \<open>What was put into an empty queue comes out in order, in any number of portions.\<close>

primrec take_portions :: "nat list \<Rightarrow> 'q \<Rightarrow> 'b list" where
  "take_portions [] q = []"
| "take_portions (n # ns) q = fst (take_up_to n q) @ take_portions ns (snd (take_up_to n q))"

lemma take_all:
  "inv q \<Longrightarrow> \<forall>n\<in>set ns. n < 2 ^ 32 \<Longrightarrow> take_portions ns q = take (sum_list ns) (content q)"
proof (induction ns arbitrary: q)
  case (Cons n ns)
  then show ?case using take_inv [of q n] take_fst [of q n] take_content [of q n] by (simp add: take_add)
qed simp

lemma portions_in_order:
  assumes "inv q" "content q = []" "length cs \<le> room q" "\<forall>n\<in>set ns. n < 2 ^ 32" "sum_list ns = length cs"
  shows "take_portions ns (fold put cs q) = cs"
  using put_all [of q cs] take_all [of "fold put cs q" ns] assms by simp

end

interpretation ring: byte_queue pipe_inv pipe_content "\<lambda>p. unat (ring_size p)" pipe_put "\<lambda>n. pipe_take (of_nat n)"
proof
  fix p c n assume inv: "pipe_inv p"
  show "pipe_inv (pipe_put c p)" "unat (ring_size (pipe_put c p)) = unat (ring_size p)"
    "pipe_content (pipe_put c p) = (if length (pipe_content p) < unat (ring_size p) then pipe_content p @ [c] else pipe_content p)"
    using pipe_put_content [OF inv] by simp_all
  show "pipe_inv (snd (pipe_take (of_nat n) p))" by (rule pipe_take_content [OF inv])
  assume n: "n < 2 ^ 32"
  then have "unat (ucast (of_nat n :: u64) :: u32) = n"
    by (simp add: unat_ucast_word unat_of_nat take_bit_nat_eq_self)
  then show "fst (pipe_take (of_nat n) p) = take n (pipe_content p)" "pipe_content (snd (pipe_take (of_nat n) p)) = drop n (pipe_content p)"
    using pipe_take_content(1,2) [OF inv, of "of_nat n"] by (simp_all add: min_def)
qed

section \<open>Properties\<close>

text \<open>Reading in portions of given sizes.\<close>

primrec read_portions :: "u64 list \<Rightarrow> pipe_data_t \<Rightarrow> u8 list" where
  "read_portions [] p = []"
| "read_portions (n # ns) p = fst (pipe_take n p) @ read_portions ns (snd (pipe_take n p))"

lemma read_portions_eq: "read_portions (map of_nat ns) p = ring.take_portions ns p"
  by (induction ns arbitrary: p) simp_all

text \<open>
  C31. The ring buffer is a bounded first-in first-out queue. In its invariant, a keyboard event
  appends its byte while there is room and is dropped otherwise, and a read of a buffer that is not
  empty returns the oldest bytes, at most the requested number modulo 2^32, and removes exactly
  them; on an empty buffer the reader blocks. Wrap-around of the counters has no effect.
\<close>

theorem pipe_refines_queue:
  assumes "pipe_inv p"
  shows "pipe_inv (pipe_put c p) \<and>
    pipe_content (pipe_put c p) = (if length (pipe_content p) < unat (ring_size p) then pipe_content p @ [c] else pipe_content p) \<and>
    (if pipe_content p = [] then pipe_read r count p = Blocks (pipe_wait r p)
     else \<exists>p'. pipe_read r count p = Bytes (take (unat (ucast count :: u32)) (pipe_content p)) p' \<and> pipe_inv p' \<and>
       pipe_content p' = drop (unat (ucast count :: u32)) (pipe_content p))"
proof -
  have e: "pipe_content p = [] \<longleftrightarrow> head p = tail p"
  proof -
    have "pipe_content p = [] \<longleftrightarrow> unat (head p - tail p) = 0" by (simp add: pipe_content_def)
    also have "\<dots> \<longleftrightarrow> head p - tail p = 0" by (rule unat_eq_0)
    finally show ?thesis by simp
  qed
  note t = pipe_take_content [OF assms, of count]
  have "pipe_read r count p = Bytes (fst (pipe_take count p)) (snd (pipe_take count p))" if "head p \<noteq> tail p"
    using that by (simp add: pipe_read_def split: prod.split)
  then show ?thesis using pipe_put_content [OF assms, of c] t e by (auto simp: pipe_read_def min_def)
qed

theorem pipe_refines_queue_witness:
  "pipe_content (pipe_put 7 (keyboard_init 4096 (\<lambda>_. 0))) = [7]"
proof -
  have "pipe_inv (keyboard_init 4096 (\<lambda>_. 0))" "pipe_content (keyboard_init 4096 (\<lambda>_. 0)) = []"
    by (auto simp: pipe_inv_def keyboard_init_def PAGE_SIZE_def pipe_content_def intro!: exI [of _ 12])
  then show ?thesis using pipe_refines_queue [of "keyboard_init 4096 (\<lambda>_. 0)" 7] by (simp add: keyboard_init_def PAGE_SIZE_def)
qed

text \<open>
  What is typed is what is read: up to 4096 keys entered into a fresh keyboard buffer, wherever
  it was allocated, are returned in order by reads of any sizes that add up to their number.
\<close>

theorem keyboard_roundtrip:
  assumes "length cs \<le> 4096" and "sum_list ns = length cs"
  shows "read_portions (map of_nat ns) (fold pipe_put cs (keyboard_init addr mem)) = cs"
proof -
  have k: "pipe_inv (keyboard_init addr mem)" "pipe_content (keyboard_init addr mem) = []"
    by (auto simp: pipe_inv_def keyboard_init_def PAGE_SIZE_def pipe_content_def intro!: exI [of _ 12])
  have "n < 2 ^ 32" if "n \<in> set ns" for n using member_le_sum_list [OF that] assms by simp
  then show ?thesis unfolding read_portions_eq
    using ring.portions_in_order [OF k, of cs ns] assms by (simp add: keyboard_init_def PAGE_SIZE_def)
qed

theorem keyboard_roundtrip_witness:
  "read_portions [1, 2] (fold pipe_put [10, 20, 30] (keyboard_init 0xFFFFFFFFFFFFF000 (\<lambda>_. 0))) = [10, 20, 30]"
  using keyboard_roundtrip [of "[10, 20, 30]" "[1, 2]" "0xFFFFFFFFFFFFF000" "\<lambda>_. 0"] by simp

text \<open>
  Only one reader is woken. When two processes block on an empty buffer, the second is not
  entered into the wait list, so the next key wakes the first one alone.
\<close>

theorem second_reader_not_woken:
  assumes inv: "pipe_inv p" and "pipe_content p = []" and "rd_wait p = []"
  shows "\<exists>p'. pipe_read r1 n p = Blocks p' \<and> pipe_read r2 n p' = Blocks p' \<and>
    handle_keyboard_event c p' st = bindR (reschedule r1 st) (\<lambda>st'. Inr ((pipe_put c p')\<lparr>rd_wait := []\<rparr>, st'))"
proof -
  have ht: "head p = tail p" using assms(2) by (simp add: pipe_content_def unat_eq_0)
  let ?q = "pipe_wait r1 p"
  have w: "rd_wait ?q = [r1]" "head ?q = tail ?q" "ring_size ?q = ring_size p" using assms(3) ht by (simp_all add: pipe_wait_def)
  obtain k where "unat (ucast (ring_size p) :: u64) = 2 ^ k" by (rule ring_sizeD [OF inv])
  then have nf: "\<not> pipe_full ?q" using w by (simp add: pipe_full_def word_le_nat_alt)
  then have "rd_wait (pipe_put c ?q) = [r1]" using w(1) by (simp add: pipe_put_def)
  then have "handle_keyboard_event c ?q st = bindR (reschedule r1 st) (\<lambda>st'. Inr ((pipe_put c ?q)\<lparr>rd_wait := []\<rparr>, st'))"
    using nf by (cases "reschedule r1 st") (simp_all add: handle_keyboard_event_def)
  moreover have "pipe_read r1 n p = Blocks ?q" "pipe_read r2 n ?q = Blocks ?q"
    using ht w by (simp_all add: pipe_read_def pipe_wait_def)
  ultimately show ?thesis by blast
qed

theorem second_reader_not_woken_witness:
  "\<exists>p'. pipe_read 1 5 (keyboard_init 4096 (\<lambda>_. 0)) = Blocks p' \<and> pipe_read 2 5 p' = Blocks p'"
proof -
  have "pipe_inv (keyboard_init 4096 (\<lambda>_. 0))" "pipe_content (keyboard_init 4096 (\<lambda>_. 0)) = []"
    "rd_wait (keyboard_init 4096 (\<lambda>_. 0)) = []"
    by (auto simp: keyboard_init_def pipe_content_def pipe_inv_def PAGE_SIZE_def intro!: exI [of _ 12])
  from second_reader_not_woken [OF this, of 1 5 2] show ?thesis by blast
qed

end
