(* ===== verification/Interrupts.thy ===== *)
theory Interrupts
  imports Timers Pipe
begin

text \<open>
  Interrupts: \<open>handle_irq\<close> of \<open>system/irq.c\<close> with everything it calls that changes state (the system
  timer, the sleep queue, the keyboard buffer, the scheduler), and the set-up of the interrupt
  controller in \<open>system/gic.c\<close>. What the hardware delivers is an argument: the pending bits, the
  acknowledged interrupt number and the received character. Debug output is not modelled.
\<close>

section \<open>The interrupt controller\<close>

abbreviation (input) IT_NR :: nat where "IT_NR \<equiv> 128"
abbreviation (input) VIRT_TIMER :: nat where "VIRT_TIMER \<equiv> 27"
abbreviation (input) PHYS_TIMER :: nat where "PHYS_TIMER \<equiv> 30"
abbreviation (input) MINI_UART_RECV :: nat where "MINI_UART_RECV \<equiv> 125"

record gic =
  gicd_ctlr :: u32
  gicd_igroupr :: "nat \<Rightarrow> u32"
  gicd_isenabler :: "nat \<Rightarrow> u32"
  gicd_ipriorityr :: "nat \<Rightarrow> u8"
  gicd_itargetsr :: "nat \<Rightarrow> u8"
  gicc_ctlr :: u32
  gicc_pmr :: u32

definition enable_id :: "nat \<Rightarrow> gic \<Rightarrow> gic" where
  "enable_id n g = g\<lparr>gicd_isenabler := (gicd_isenabler g)(n div 32 := gicd_isenabler g (n div 32) OR push_bit (n mod 32) 1)\<rparr>"

definition set_priority :: "nat \<Rightarrow> u8 \<Rightarrow> gic \<Rightarrow> gic" where
  "set_priority n v g = g\<lparr>gicd_ipriorityr := (gicd_ipriorityr g)(n := v)\<rparr>"

definition initialize_gic :: "gic \<Rightarrow> gic" where
  "initialize_gic g =
     (let g1 = g\<lparr>gicd_ctlr := 0, gicc_ctlr := 0\<rparr>;
          g2 = for_range 0 (IT_NR div 32) (\<lambda>i g. g\<lparr>gicd_igroupr := (gicd_igroupr g)(i := 0xFFFFFFFF)\<rparr>) g1;
          g3 = g2\<lparr>gicc_pmr := 0xFF\<rparr>;
          g4 = set_priority MINI_UART_RECV 0x80 (set_priority VIRT_TIMER 0x80 (set_priority PHYS_TIMER 0x80 g3));
          g5 = enable_id MINI_UART_RECV (enable_id VIRT_TIMER (enable_id PHYS_TIMER g4));
          g6 = g5\<lparr>gicd_itargetsr := (gicd_itargetsr g5)(MINI_UART_RECV := 1)\<rparr>
      in g6\<lparr>gicd_ctlr := 3, gicc_ctlr := 3\<rparr>)"

definition id_enabled :: "gic \<Rightarrow> nat \<Rightarrow> bool" where
  "id_enabled g n = bit (gicd_isenabler g (n div 32)) (n mod 32)"

section \<open>The handler\<close>

definition AUX_IRQ :: u32 where "AUX_IRQ = push_bit 29 1"

record irq_sys =
  k_tsys :: tsys
  k_timer :: timer_t
  k_kbd :: pipe_data_t
  k_kbd_flag :: u8
  k_eoi :: "u32 list"
  k_uart_out :: "u8 list"

text \<open>
  One pass of the loop over the pending bits. The loop ends where no bit is left; a bit that no
  branch clears keeps it going for ever, which is the result \<open>None\<close>.
\<close>

definition bcm_pass :: "u32 \<Rightarrow> timer_t \<Rightarrow> u32 \<times> timer_t" where
  "bcm_pass irq t =
     (let irq1 = (if irq AND AUX_IRQ \<noteq> 0 then irq AND NOT AUX_IRQ else irq);
          (irq2, t2) = (if irq1 AND SYS_TIMER_IRQ_1 \<noteq> 0 then (irq1 AND NOT SYS_TIMER_IRQ_1, handle_timer_1 t) else (irq1, t))
      in (if irq2 AND SYS_TIMER_IRQ_3 \<noteq> 0 then (irq2 AND NOT SYS_TIMER_IRQ_3, handle_timer_3 t2) else (irq2, t2)))"

partial_function (option) bcm_loop :: "u32 \<Rightarrow> timer_t \<Rightarrow> timer_t option" where
  "bcm_loop irq t = (if irq = 0 then Some t else bcm_loop (fst (bcm_pass irq t)) (snd (bcm_pass irq t)))"

definition invoke_scheduler :: "irq_sys \<Rightarrow> irq_sys result" where
  "invoke_scheduler k = bindR (lift_sched scheduler (k_tsys k)) (\<lambda>s. Inr (k\<lparr>k_tsys := s\<rparr>))"

text \<open>
  The branches over the acknowledged number; the flag says whether the scheduler is to be called. A
  key that enters the buffer is echoed to the serial port.
\<close>

definition gic_dispatch :: "u32 \<Rightarrow> u32 \<Rightarrow> u8 \<Rightarrow> irq_sys \<Rightarrow> (bool \<times> irq_sys) result" where
  "gic_dispatch gic_irq mu_io rx k =
     (if gic_irq = 30 then Inr (True, k)
      else if gic_irq = 27 then bindR (handle_virtual_timer (k_tsys k)) (\<lambda>s. Inr (False, k\<lparr>k_tsys := s\<rparr>))
      else if gic_irq = 125 then
        (let c = ucast (mu_io AND 0xFF) :: u8
         in if k_kbd_flag k \<noteq> 0
            then bindR (handle_keyboard_event c (k_kbd k) (t_sched (k_tsys k))) (\<lambda>(p, st).
                   Inr (True, k\<lparr>k_kbd := p, k_tsys := (k_tsys k)\<lparr>t_sched := st\<rparr>,
                     k_uart_out := (if pipe_full (k_kbd k) then k_uart_out k else k_uart_out k @ [c])\<rparr>))
            else Inr (False, k))
      else if gic_irq = 89 then Inr (False, k\<lparr>k_uart_out := k_uart_out k @ [rx]\<rparr>)
      else Inr (False, k))"

definition handle_gic :: "u32 \<Rightarrow> u32 \<Rightarrow> u8 \<Rightarrow> irq_sys \<Rightarrow> irq_sys result" where
  "handle_gic gic_irq mu_io rx k =
     (if gic_irq < 1020
      then bindR (gic_dispatch gic_irq mu_io rx k) (\<lambda>(invoke, k1).
             let k2 = k1\<lparr>k_eoi := k_eoi k1 @ [gic_irq]\<rparr> in if invoke then invoke_scheduler k2 else Inr k2)
      else Inr k)"

definition handle_irq :: "u32 \<Rightarrow> u32 \<Rightarrow> u32 \<Rightarrow> u8 \<Rightarrow> irq_sys \<Rightarrow> irq_sys result option" where
  "handle_irq pending gic_irq mu_io rx k =
     (case bcm_loop pending (k_timer k) of
        None \<Rightarrow> None
      | Some t \<Rightarrow> Some (handle_gic gic_irq mu_io rx (k\<lparr>k_timer := t\<rparr>)))"

text \<open>A process reads an empty keyboard buffer: it enters the wait list, if nobody is on it, and blocks.\<close>

definition keyboard_block :: "irq_sys \<Rightarrow> irq_sys result" where
  "keyboard_block k =
     bindR (lift_sched deschedule (k_tsys k)) (\<lambda>s.
       Inr (k\<lparr>k_tsys := s, k_kbd := pipe_wait (sc_current (t_sched (k_tsys k))) (k_kbd k)\<rparr>))"

definition nanosleep_call :: "u64 \<Rightarrow> u64 \<Rightarrow> irq_sys \<Rightarrow> irq_sys result" where
  "nanosleep_call now ns k = bindR (sys_nanosleep now ns (k_tsys k)) (\<lambda>s. Inr (k\<lparr>k_tsys := s\<rparr>))"

section \<open>The pending bits\<close>

definition bcm_known :: u32 where "bcm_known = AUX_IRQ OR SYS_TIMER_IRQ_1 OR SYS_TIMER_IRQ_3"

lemma bcm_pass_bits: "fst (bcm_pass irq t) = irq AND NOT bcm_known"
proof -
  have c: "x AND y \<noteq> 0 \<or> x AND NOT y = x" for x y :: u32
  proof (cases "x AND y = 0")
    case True
    have "x = (x AND y) OR (x AND NOT y)" by (rule bit_word_eqI) (auto simp: bit_simps)
    then show ?thesis using True by simp
  qed simp
  define clr where "clr m x = (if x AND m \<noteq> 0 then x AND NOT m else x)" for m x :: u32
  have cl: "clr m x = x AND NOT m" for m x using c [of x m] by (auto simp: clr_def)
  have "fst (bcm_pass irq t) = clr SYS_TIMER_IRQ_3 (clr SYS_TIMER_IRQ_1 (clr AUX_IRQ irq))"
    by (simp add: bcm_pass_def clr_def)
  then show ?thesis unfolding cl bcm_known_def by (simp add: and.assoc bit.de_Morgan_disj)
qed

lemma bcm_loop_ends: "irq AND NOT bcm_known = 0 \<Longrightarrow> \<exists>t'. bcm_loop irq t = Some t'"
  by (subst bcm_loop.simps) (simp add: bcm_pass_bits, subst bcm_loop.simps, simp)

lemma bcm_loop_known:
  assumes "bcm_loop irq t = Some t'"
  shows "irq AND NOT bcm_known = 0"
proof (rule bcm_loop.raw_induct [where P = "\<lambda>irq t t'. irq AND NOT bcm_known = 0", OF _ assms])
  fix bcm irq t t'
  assume hyp: "\<And>irq t t'. bcm irq t = Some t' \<Longrightarrow> irq AND NOT bcm_known = 0"
    and eq: "(if irq = 0 then Some t else bcm (fst (bcm_pass irq t)) (snd (bcm_pass irq t))) = Some t'"
  show "irq AND NOT bcm_known = 0"
  proof (cases "irq = 0")
    case False
    then have "bcm (fst (bcm_pass irq t)) (snd (bcm_pass irq t)) = Some t'" using eq by simp
    then have "fst (bcm_pass irq t) AND NOT bcm_known = 0" by (rule hyp)
    then show ?thesis by (simp add: bcm_pass_bits and.assoc)
  qed simp
qed

section \<open>The invariant of the whole\<close>

text \<open>
  The sleepers' invariant, a well-formed keyboard buffer, and readers that are blocked and do not sleep.
\<close>

definition irq_inv :: "ptr set \<Rightarrow> ptr set \<Rightarrow> irq_sys \<Rightarrow> ptr list \<Rightarrow> bool" where
  "irq_inv P S k Q \<longleftrightarrow> sleep_inv P S (k_tsys k) Q \<and> pipe_inv (k_kbd k) \<and> distinct (rd_wait (k_kbd k)) \<and>
     set (rd_wait (k_kbd k)) \<subseteq> {p \<in> P. state_of (t_sched (k_tsys k)) p = PROCESS_BLOCKED} - S"

lemma irq_invD:
  assumes "irq_inv P S k Q"
  shows "sleep_inv P S (k_tsys k) Q" "pipe_inv (k_kbd k)" "distinct (rd_wait (k_kbd k))"
    "\<And>p. p \<in> set (rd_wait (k_kbd k)) \<Longrightarrow> p \<in> P \<and> p \<notin> S \<and> state_of (t_sched (k_tsys k)) p = PROCESS_BLOCKED"
  using assms by (auto simp: irq_inv_def)

lemma wake_listeners_inv:
  "sched_inv P st Q \<Longrightarrow> distinct W \<Longrightarrow> (\<And>p. p \<in> set W \<Longrightarrow> p \<in> P \<and> state_of st p = PROCESS_BLOCKED) \<Longrightarrow>
   \<exists>st'. wake_listeners W st = Inr st' \<and> sched_inv P st' (rev W @ Q) \<and> (\<forall>p. p \<notin> set W \<longrightarrow> state_of st' p = state_of st p)"
proof (induction W arbitrary: st Q)
  case (Cons w W)
  from reschedule_inv [OF Cons.prems(1), of w] Cons.prems(3) obtain s1 where
    s1: "reschedule w st = Inr s1" "sched_inv P s1 (w # Q)" by auto
  have o: "state_of s1 p = state_of st p" if "p \<noteq> w" for p
    using s1(1) that by (auto simp: reschedule_def split: if_splits)
  have "p \<in> P \<and> state_of s1 p = PROCESS_BLOCKED" if "p \<in> set W" for p
    using that Cons.prems(2,3) o [of p] by auto
  from Cons.IH [OF s1(2) _ this] Cons.prems(2) obtain s2 where
    s2: "wake_listeners W s1 = Inr s2" "sched_inv P s2 (rev W @ w # Q)" "\<forall>p. p \<notin> set W \<longrightarrow> state_of s2 p = state_of s1 p" by auto
  then show ?case using s1(1) o by auto
qed simp

lemma pipe_put_keeps: "rd_wait (pipe_put c p) = rd_wait p" "pipe_inv p \<Longrightarrow> pipe_inv ((pipe_put c p)\<lparr>rd_wait := W\<rparr>)"
  using pipe_put_content(1) [of p c] by (auto simp: pipe_put_def pipe_inv_def)

lemma keyboard_event_step:
  assumes i: "irq_inv P S k Q"
  shows "\<exists>p' st' Q'. handle_keyboard_event c (k_kbd k) (t_sched (k_tsys k)) = Inr (p', st') \<and>
    irq_inv P S (k\<lparr>k_kbd := p', k_tsys := (k_tsys k)\<lparr>t_sched := st'\<rparr>, k_uart_out := out\<rparr>) Q'"
proof -
  note d = irq_invD [OF i]
  show ?thesis
  proof (cases "pipe_full (k_kbd k)")
    case True
    then show ?thesis using i by (auto simp: handle_keyboard_event_def irq_inv_def)
  next
    case False
    from wake_listeners_inv [OF sleep_invD(1) [OF d(1)] d(3)] d(4) obtain st' where
      st': "wake_listeners (rd_wait (k_kbd k)) (t_sched (k_tsys k)) = Inr st'"
        "sched_inv P st' (rev (rd_wait (k_kbd k)) @ Q)"
        "\<And>p. p \<notin> set (rd_wait (k_kbd k)) \<Longrightarrow> state_of st' p = state_of (t_sched (k_tsys k)) p" by blast
    have "sleep_inv P S ((k_tsys k)\<lparr>t_sched := st'\<rparr>) (rev (rd_wait (k_kbd k)) @ Q)"
      by (rule sleep_inv_sched [OF d(1) st'(2)]) (use st'(3) d(4) sleep_invD(9) [OF d(1)] in fastforce)
    then show ?thesis using False st'(1) pipe_put_keeps(2) [OF d(2)]
      by (auto simp: handle_keyboard_event_def pipe_put_keeps(1) irq_inv_def)
  qed
qed

lemma irq_inv_sched:
  assumes i: "irq_inv P S k Q" and s: "sleep_inv P S' s Q'" and n: "set (rd_wait (k_kbd k)) \<inter> S' = {}"
    and b: "\<And>p. p \<in> set (rd_wait (k_kbd k)) \<Longrightarrow> state_of (t_sched s) p = PROCESS_BLOCKED"
  shows "irq_inv P S' (k\<lparr>k_tsys := s\<rparr>) Q'"
  using irq_invD [OF i] s n b by (auto simp: irq_inv_def)

lemma irq_inv_io: "irq_inv P S (k\<lparr>k_eoi := e\<rparr>) Q = irq_inv P S k Q" "irq_inv P S (k\<lparr>k_uart_out := u\<rparr>) Q = irq_inv P S k Q"
  "irq_inv P S (k\<lparr>k_timer := t\<rparr>) Q = irq_inv P S k Q"
  by (simp_all add: irq_inv_def)

lemma invoke_scheduler_step:
  assumes i: "irq_inv P S k Q"
  shows "\<exists>k' Q'. invoke_scheduler k = Inr k' \<and> irq_inv P S k' Q'"
proof -
  note d = irq_invD [OF i]
  note s = sleep_invD [OF d(1)]
  obtain st' where st': "scheduler (t_sched (k_tsys k)) = Inr st'" "sched_inv P st' (next_queue (t_sched (k_tsys k)) Q)"
    using scheduler_step [OF inv_pre [OF s(1)]] by blast
  have b: "state_of st' p = PROCESS_BLOCKED" if "p \<in> P" "state_of (t_sched (k_tsys k)) p = PROCESS_BLOCKED" for p
    by (rule scheduler_keeps_blocked [OF st'(1) inv_pre [OF s(1)] that])
  have "sleep_inv P S ((k_tsys k)\<lparr>t_sched := st'\<rparr>) (next_queue (t_sched (k_tsys k)) Q)"
    by (rule sleep_inv_sched [OF d(1) st'(2)]) (use b s(8,9) in blast)
  then have "irq_inv P S (k\<lparr>k_tsys := (k_tsys k)\<lparr>t_sched := st'\<rparr>\<rparr>) (next_queue (t_sched (k_tsys k)) Q)"
    by (rule irq_inv_sched [OF i]) (use d(4) b in auto)
  then show ?thesis using st'(1) by (auto simp: invoke_scheduler_def lift_sched_def)
qed

lemma timer_ready_or_same:
  "handle_virtual_timer s = Inr s' \<Longrightarrow> state_of (t_sched s') p \<in> {PROCESS_READY, state_of (t_sched s) p}"
  by (auto simp: handle_virtual_timer_def reschedule_def prime_virtual_timer_def clear_virtual_timer_def bindR_eq_Inr Let_def
      split: prod.splits if_splits)

text \<open>The interrupt handler keeps the invariant, and does not fault where the timer fires only when armed.\<close>

lemma irq_timer_step:
  assumes i: "irq_inv P S k Q" and a: "t_cval (k_tsys k) \<noteq> None"
  shows "\<exists>s' S' Q'. handle_virtual_timer (k_tsys k) = Inr s' \<and> irq_inv P S' (k\<lparr>k_tsys := s'\<rparr>) Q'"
proof -
  note d = irq_invD [OF i]
  note s = sleep_invD [OF d(1)]
  have "S \<noteq> {}" using a s(7,12) by (auto simp: least_deadline_def sleepers_def)
  from timer_step [OF d(1) this] obtain x :: pqnode_t and s' where
    x: "unat (element x) \<in> S" "handle_virtual_timer (k_tsys k) = Inr s'"
      "sleep_inv P (S - {unat (element x)}) s' (unat (element x) # Q)" by blast
  have b: "state_of (t_sched s') p = PROCESS_BLOCKED" if p: "p \<in> set (rd_wait (k_kbd k))" for p
  proof (rule ccontr)
    assume "state_of (t_sched s') p \<noteq> PROCESS_BLOCKED"
    then have "state_of (t_sched s') p = PROCESS_READY" using timer_ready_or_same [OF x(2), of p] d(4) [OF p] by auto
    then have "p \<in> set (unat (element x) # Q)"
      using queue_readyD(2) [OF sched_invD(1) [OF sleep_invD(1) [OF x(3)]]] d(4) [OF p] by blast
    moreover have "p \<notin> set Q" using queue_readyD(2) [OF sched_invD(1) [OF s(1)]] d(4) [OF p] by simp
    ultimately show False using x(1) d(4) [OF p] by auto
  qed
  have "irq_inv P (S - {unat (element x)}) (k\<lparr>k_tsys := s'\<rparr>) (unat (element x) # Q)"
    by (rule irq_inv_sched [OF i x(3)]) (use d(4) b in auto)
  then show ?thesis using x(2) by blast
qed

lemma gic_dispatch_step:
  assumes i: "irq_inv P S k Q" and a: "n = 27 \<Longrightarrow> t_cval (k_tsys k) \<noteq> None"
  shows "\<exists>b k' S' Q'. gic_dispatch n m rx k = Inr (b, k') \<and> irq_inv P S' k' Q'"
proof -
  consider "n = 30" | "n = 27" | "n = 125" "k_kbd_flag k \<noteq> 0" | "n = 125" "k_kbd_flag k = 0" | "n = 89"
    | "n \<notin> {30, 27, 125, 89}" by blast
  then show ?thesis
  proof cases
    case 2
    obtain s' S' Q' where h: "handle_virtual_timer (k_tsys k) = Inr s'" "irq_inv P S' (k\<lparr>k_tsys := s'\<rparr>) Q'"
      using irq_timer_step [OF i a [OF 2]] by blast
    have "gic_dispatch n m rx k = Inr (False, k\<lparr>k_tsys := s'\<rparr>)" using 2 h(1) by (simp add: gic_dispatch_def)
    then show ?thesis using h(2) by blast
  next
    case 3
    let ?c = "ucast (m AND 0xFF) :: u8"
    from keyboard_event_step [OF i, of ?c "if pipe_full (k_kbd k) then k_uart_out k else k_uart_out k @ [?c]"]
    obtain p' st' Q' where
      e: "handle_keyboard_event ?c (k_kbd k) (t_sched (k_tsys k)) = Inr (p', st')"
        "irq_inv P S (k\<lparr>k_kbd := p', k_tsys := (k_tsys k)\<lparr>t_sched := st'\<rparr>,
           k_uart_out := if pipe_full (k_kbd k) then k_uart_out k else k_uart_out k @ [?c]\<rparr>) Q'" by blast
    have "gic_dispatch n m rx k = Inr (True, k\<lparr>k_kbd := p', k_tsys := (k_tsys k)\<lparr>t_sched := st'\<rparr>,
           k_uart_out := if pipe_full (k_kbd k) then k_uart_out k else k_uart_out k @ [?c]\<rparr>)"
      unfolding gic_dispatch_def Let_def using 3 e(1) by simp
    then show ?thesis using e(2) by blast
  next
    case 6
    then have "gic_dispatch n m rx k = Inr (False, k)" by (simp add: gic_dispatch_def)
    then show ?thesis using i by blast
  qed (use i in \<open>force simp: gic_dispatch_def irq_inv_io\<close>)+
qed

lemma handle_irq_step:
  assumes i: "irq_inv P S k Q" and p: "pending AND NOT bcm_known = 0" and a: "n = 27 \<Longrightarrow> t_cval (k_tsys k) \<noteq> None"
  shows "\<exists>k' S' Q'. handle_irq pending n m rx k = Some (Inr k') \<and> irq_inv P S' k' Q'"
proof -
  obtain t where t: "bcm_loop pending (k_timer k) = Some t" using bcm_loop_ends [OF p] by blast
  let ?k = "k\<lparr>k_timer := t\<rparr>"
  have i': "irq_inv P S ?k Q" using i by (simp add: irq_inv_io)
  have "\<exists>k' S' Q'. handle_gic n m rx ?k = Inr k' \<and> irq_inv P S' k' Q'"
  proof (cases "n < 1020")
    case True
    have a': "n = 27 \<Longrightarrow> t_cval (k_tsys ?k) \<noteq> None" using a by simp
    from gic_dispatch_step [OF i' a', where m = m and rx = rx] obtain b k1 S' Q' where
      g: "gic_dispatch n m rx ?k = Inr (b, k1)" "irq_inv P S' k1 Q'" by blast
    let ?k2 = "k1\<lparr>k_eoi := k_eoi k1 @ [n]\<rparr>"
    have i2: "irq_inv P S' ?k2 Q'" using g(2) by (simp add: irq_inv_io)
    show ?thesis using True g(1) i2 invoke_scheduler_step [OF i2] by (cases b) (auto simp: handle_gic_def Let_def)
  qed (use i' in \<open>auto simp: handle_gic_def\<close>)
  then show ?thesis using t by (simp add: handle_irq_def)
qed

section \<open>Runs\<close>

text \<open>Interrupts, arriving at any time, and processes that sleep, read the keyboard or block otherwise.\<close>

inductive irq_step :: "ptr set \<Rightarrow> irq_sys \<Rightarrow> irq_sys \<Rightarrow> bool" for P where
  irq: "(n = 27 \<longrightarrow> t_cval (k_tsys k) \<noteq> None) \<Longrightarrow> handle_irq pending n m rx k = Some (Inr k') \<Longrightarrow> irq_step P k k'"
| sleep: "sc_current (t_sched (k_tsys k)) \<in> P \<Longrightarrow> nanosleep_call now ns k = Inr k' \<Longrightarrow> irq_step P k k'"
| read: "sc_current (t_sched (k_tsys k)) \<in> P \<Longrightarrow> head (k_kbd k) = tail (k_kbd k) \<Longrightarrow> keyboard_block k = Inr k' \<Longrightarrow>
    irq_step P k k'"

lemma nanosleep_call_inv:
  assumes i: "irq_inv P S k Q" and c: "sc_current (t_sched (k_tsys k)) \<in> P" and r: "nanosleep_call now ns k = Inr k'"
  shows "\<exists>S' Q'. irq_inv P S' k' Q'"
proof -
  note d = irq_invD [OF i]
  let ?c = "sc_current (t_sched (k_tsys k))"
  from r obtain s' where s': "sys_nanosleep now ns (k_tsys k) = Inr s'" "k' = k\<lparr>k_tsys := s'\<rparr>"
    by (auto simp: nanosleep_call_def bindR_eq_Inr)
  then have "sleep_inv P (insert ?c S) s' (tl Q)" using nanosleep_step [OF d(1) c, of now ns] by auto
  moreover have "t_sched (timer_nanosleep now ns s) = t_sched s" for s
    by (simp add: timer_nanosleep_def prime_virtual_timer_def Let_def)
  then have "deschedule (t_sched (k_tsys k)) = Inr (t_sched s')"
    using s'(1) by (auto simp: sys_nanosleep_def lift_sched_def bindR_eq_Inr)
  note b = deschedule_keeps_blocked [OF this sleep_invD(1) [OF d(1)] c]
  have "?c \<notin> set (rd_wait (k_kbd k))"
    using d(4) [of ?c] sched_invD(3) [OF sleep_invD(1) [OF d(1)]] by auto
  ultimately have "irq_inv P (insert ?c S) (k\<lparr>k_tsys := s'\<rparr>) (tl Q)"
    by (intro irq_inv_sched [OF i]) (use d(4) b in auto)
  then show ?thesis unfolding s'(2) by blast
qed

lemma keyboard_block_inv:
  assumes i: "irq_inv P S k Q" and c: "sc_current (t_sched (k_tsys k)) \<in> P" and r: "keyboard_block k = Inr k'"
  shows "\<exists>S' Q'. irq_inv P S' k' Q'"
proof -
  note d = irq_invD [OF i]
  let ?c = "sc_current (t_sched (k_tsys k))"
  from r obtain st' where s': "deschedule (t_sched (k_tsys k)) = Inr st'"
    "k' = k\<lparr>k_tsys := (k_tsys k)\<lparr>t_sched := st'\<rparr>, k_kbd := pipe_wait ?c (k_kbd k)\<rparr>"
    by (auto simp: keyboard_block_def lift_sched_def bindR_eq_Inr)
  have "\<exists>Q'. sched_inv P st' Q'" using deschedule_step [OF sleep_invD(1) [OF d(1)] c] s'(1) by auto
  then obtain Q' where Q': "sched_inv P st' Q'" by blast
  note b = deschedule_keeps_blocked [OF s'(1) sleep_invD(1) [OF d(1)] c]
  have bc: "state_of st' ?c = PROCESS_BLOCKED" by (rule deschedule_blocks_current [OF s'(1) sleep_invD(1) [OF d(1)] c])
  have cS: "?c \<notin> S" by (rule current_awake [OF d(1)])
  have sl: "sleep_inv P S ((k_tsys k)\<lparr>t_sched := st'\<rparr>) Q'"
    by (rule sleep_inv_sched [OF d(1) Q']) (use b sleep_invD(8,9) [OF d(1)] in blast)
  have "pipe_inv (pipe_wait ?c (k_kbd k))" using d(2) by (simp add: pipe_wait_def pipe_inv_def)
  then have "irq_inv P S k' Q'" unfolding irq_inv_def s'(2) using sl d(3,4) b bc cS c by (auto simp: pipe_wait_def)
  then show ?thesis by blast
qed

lemma irq_step_inv:
  assumes "irq_step P k k'" and i: "irq_inv P S k Q"
  shows "\<exists>S' Q'. irq_inv P S' k' Q'"
  using assms(1)
proof cases
  case (irq n pending m rx)
  then have "pending AND NOT bcm_known = 0"
    by (auto simp: handle_irq_def intro: bcm_loop_known split: option.splits)
  then show ?thesis using handle_irq_step [OF i, of pending n m rx] irq by fastforce
next
  case sleep
  then show ?thesis using nanosleep_call_inv [OF i] by blast
next
  case read
  then show ?thesis using keyboard_block_inv [OF i] by blast
qed

lemma irq_run_inv: "(irq_step P)\<^sup>*\<^sup>* k k' \<Longrightarrow> irq_inv P S k Q \<Longrightarrow> \<exists>S' Q'. irq_inv P S' k' Q'"
proof (induction rule: rtranclp_induct)
  case base
  then show ?case by blast
next
  case (step y z)
  then show ?case using irq_step_inv by blast
qed

section \<open>Properties\<close>

definition demo_irq_sys :: irq_sys where
  "demo_irq_sys = \<lparr>k_tsys = demo_tsys, k_timer = \<lparr>control_status = 0, compare_regs = replicate 4 0, curr_val_1 = 0, curr_val_3 = 0\<rparr>,
     k_kbd = keyboard_init 4096 (\<lambda>_. 0), k_kbd_flag = 1, k_eoi = [], k_uart_out = []\<rparr>"

lemma demo_irq_inv: "irq_inv {2, 3, 4} {} demo_irq_sys [2, 3, 4]"
  using demo_tsys_inv by (auto simp: irq_inv_def demo_irq_sys_def keyboard_init_def pipe_inv_def PAGE_SIZE_def intro!: exI [of _ 12])



text \<open>
  An unknown pending bit hangs the kernel. The loop over the pending bits of the interrupt
  register returns exactly where no bit other than the three it clears is set; otherwise
  \<open>handle_irq\<close> never returns.
\<close>

theorem handle_irq_returns_iff:
  "handle_irq pending n m rx k \<noteq> None \<longleftrightarrow> pending AND NOT (AUX_IRQ OR SYS_TIMER_IRQ_1 OR SYS_TIMER_IRQ_3) = 0"
  using bcm_loop_known [of pending "k_timer k"] bcm_loop_ends [of pending "k_timer k"]
  unfolding bcm_known_def handle_irq_def by (auto split: option.splits)

text \<open>The interrupt controller: exactly the three sources are enabled in addition to what was enabled.\<close>

lemma id_enabled_enable:
  assumes "n < IT_NR"
  shows "id_enabled (enable_id n g) m \<longleftrightarrow> m = n \<or> id_enabled g m"
proof -
  have "m div 32 = n div 32 \<and> m mod 32 = n mod 32 \<longleftrightarrow> m = n" by (metis div_mult_mod_eq)
  then show ?thesis by (auto simp: id_enabled_def enable_id_def bit_simps)
qed

lemma initialize_gic_enables:
  "id_enabled (initialize_gic g) n \<longleftrightarrow> n \<in> {PHYS_TIMER, VIRT_TIMER, MINI_UART_RECV} \<or> id_enabled g n"
proof -
  have f: "gicd_isenabler (for_range 0 k (\<lambda>i g. g\<lparr>gicd_igroupr := (gicd_igroupr g)(i := v)\<rparr>) g) = gicd_isenabler g"
    for k v and g :: gic
    by (induction k) (simp_all add: for_range_Suc)
  define g4 where "g4 = set_priority MINI_UART_RECV 0x80 (set_priority VIRT_TIMER 0x80 (set_priority PHYS_TIMER 0x80
    ((for_range 0 (IT_NR div 32) (\<lambda>i g. g\<lparr>gicd_igroupr := (gicd_igroupr g)(i := 0xFFFFFFFF)\<rparr>)
      (g\<lparr>gicd_ctlr := 0, gicc_ctlr := 0\<rparr>))\<lparr>gicc_pmr := 0xFF\<rparr>)))"
  have s: "gicd_isenabler g4 = gicd_isenabler g" using f by (simp add: g4_def set_priority_def)
  have i: "gicd_isenabler (initialize_gic g) = gicd_isenabler (enable_id MINI_UART_RECV (enable_id VIRT_TIMER (enable_id PHYS_TIMER g4)))"
    by (simp add: initialize_gic_def g4_def Let_def)
  have "id_enabled (initialize_gic g) n = id_enabled (enable_id MINI_UART_RECV (enable_id VIRT_TIMER (enable_id PHYS_TIMER g4))) n"
    by (simp add: id_enabled_def i)
  also have "\<dots> \<longleftrightarrow> n \<in> {PHYS_TIMER, VIRT_TIMER, MINI_UART_RECV} \<or> id_enabled g4 n"
    by (auto simp: id_enabled_enable)
  finally show ?thesis using s by (simp add: id_enabled_def)
qed

end
