(* ===== verification/Process.thy ===== *)
theory Process
  imports Interrupts Address_Space
begin

text \<open>
  Creation and removal of processes: \<open>system/process.c\<close> and \<open>reap\<close> of \<open>system/scheduler.c\<close>, over a state
  that joins the scheduler, the page tables and the memory areas of all processes. Control blocks,
  areas and files are typed objects at the addresses that \<open>kmalloc\<close> returned, which are arguments;
  kernel stacks are words of memory. The lists of areas and children are lists of addresses in the
  order of the source's lists, front first. A file object is \<open>None\<close> where no file lies at the address.
\<close>

section \<open>The state\<close>

datatype file_op = Uart_write | Uart_read | Pipe_write | Pipe_read | Pipe_open | Keyboard_open | Keyboard_close
  | I2c_open | I2c_read | I2c_write | I2c_ioctl

record fileops_t =
  fo_open :: "file_op option"
  fo_read :: "file_op option"
  fo_write :: "file_op option"
  fo_ioctl :: "file_op option"
  fo_close :: "file_op option"

record kfile =
  kf_inode :: ptr
  kf_pos :: u64
  kf_flags :: u32
  kf_refcount :: u32
  kf_ops :: "fileops_t option"
  kf_private :: ptr

definition stdout_ops :: fileops_t where
  "stdout_ops = \<lparr>fo_open = None, fo_read = Some Uart_read, fo_write = Some Uart_write, fo_ioctl = None, fo_close = None\<rparr>"

definition pipe_ops :: fileops_t where
  "pipe_ops = \<lparr>fo_open = Some Pipe_open, fo_read = Some Pipe_read, fo_write = Some Pipe_write, fo_ioctl = None, fo_close = None\<rparr>"

definition keyboard_ops :: fileops_t where
  "keyboard_ops = \<lparr>fo_open = Some Keyboard_open, fo_read = Some Pipe_read, fo_write = None, fo_ioctl = None,
     fo_close = Some Keyboard_close\<rparr>"

definition i2c_ops :: fileops_t where
  "i2c_ops = \<lparr>fo_open = Some I2c_open, fo_read = Some I2c_read, fo_write = Some I2c_write, fo_ioctl = Some I2c_ioctl,
     fo_close = None\<rparr>"

definition device_file :: "fileops_t \<Rightarrow> kfile" where
  "device_file ops = \<lparr>kf_inode = 0, kf_pos = 0, kf_flags = 0, kf_refcount = 1, kf_ops = Some ops, kf_private = 0\<rparr>"

definition stdio_file :: kfile where "stdio_file = device_file stdout_ops"

definition pipe_file :: kfile where "pipe_file = device_file pipe_ops"

definition keyboard_file :: kfile where "keyboard_file = device_file keyboard_ops"

definition i2c_file :: kfile where "i2c_file = device_file i2c_ops"

record ksys =
  s_irq :: irq_sys
  s_vm :: vm
  s_vma :: "ptr \<Rightarrow> vma"
  s_vmas :: "ptr \<Rightarrow> ptr list"
  s_children :: "ptr \<Rightarrow> ptr list"
  s_files :: "ptr \<Rightarrow> kfile option"

abbreviation ksched :: "ksys \<Rightarrow> sched" where "ksched k \<equiv> t_sched (k_tsys (s_irq k))"

abbreviation get_current :: "ksys \<Rightarrow> ptr" where "get_current k \<equiv> sc_current (ksched k)"

abbreviation kpcb :: "ksys \<Rightarrow> ptr \<Rightarrow> pcb_t" where "kpcb k p \<equiv> sc_pcbs (ksched k) p"

definition put_sched :: "sched \<Rightarrow> ksys \<Rightarrow> ksys" where
  "put_sched sc k = k\<lparr>s_irq := (s_irq k)\<lparr>k_tsys := (k_tsys (s_irq k))\<lparr>t_sched := sc\<rparr>\<rparr>\<rparr>"

definition set_kpcb :: "ptr \<Rightarrow> (pcb_t \<Rightarrow> pcb_t) \<Rightarrow> ksys \<Rightarrow> ksys" where
  "set_kpcb p f k = put_sched (set_pcb p f (ksched k)) k"

definition run_sched :: "(sched \<Rightarrow> sched result) \<Rightarrow> ksys \<Rightarrow> ksys result" where
  "run_sched f k = bindR (f (ksched k)) (\<lambda>sc. Inr (put_sched sc k))"

definition run_vm :: "(vm \<Rightarrow> vm result) \<Rightarrow> ksys \<Rightarrow> ksys result" where
  "run_vm f k = bindR (f (s_vm k)) (\<lambda>v. Inr (k\<lparr>s_vm := v\<rparr>))"

section \<open>Kernel stacks\<close>

definition initialize_proc_kstack :: "vm \<Rightarrow> (u64 \<times> vm) result" where
  "initialize_proc_kstack st =
     bindR (buddy_alloc 0x2000 (vm_buddy st)) (\<lambda>(range, b).
     bindR (vm_map (range + 0x1000) (va_to_pa (range + 0x1000)) 0 (MAP_KERNEL OR MAP_READ OR MAP_WRITE) (vm_l0 st)
              (st\<lparr>vm_buddy := b\<rparr>)) (\<lambda>st1.
       Inr (range + 0x2000 - 0x10, st1)))"

definition USER_STACK_TOP :: u64 where "USER_STACK_TOP = 0x0000800000000"

abbreviation (input) S_FRAME_SIZE :: u64 where "S_FRAME_SIZE \<equiv> 272"

definition BASE_TRAPFRAME :: "u64 \<Rightarrow> u64" where
  "BASE_TRAPFRAME kstack = ALIGN_UP kstack 0x1000 - 0x10 - S_FRAME_SIZE"

fun zero_words :: "nat \<Rightarrow> u64 \<Rightarrow> vm \<Rightarrow> vm result" where
  "zero_words 0 a st = Inr st"
| "zero_words (Suc n) a st = bindR (wr64 a 0 st) (zero_words n (a + 8))"

text \<open>
  The frame that \<open>context_switch\<close> pops: twelve registers, of which \<open>x30\<close> is the address of
  \<open>ret_from_fork\<close>.
\<close>

definition push_context :: "u64 \<Rightarrow> u64 \<Rightarrow> vm \<Rightarrow> vm result" where
  "push_context ret_from_fork sp st = bindR (zero_words 12 sp st) (wr64 (sp + 8) ret_from_fork)"

section \<open>A new process\<close>

definition zero_pcb :: pcb_t where
  "zero_pcb = \<lparr>kernel_stack = 0, ttbr = 0, pstate = PROCESS_BLOCKED, exit_status = EX_OK, pid = 0, waiting_on = 0,
     parent = 0, cwd = 0, brk = 0, start_brk = 0, heap_vma = 0, fds = replicate MAX_OPEN_FILES 0\<rparr>"

definition alloc_pid :: "ptr \<Rightarrow> ksys \<Rightarrow> ksys" where
  "alloc_pid p k = (let (n, sc) = generate_pid (ksched k) in set_kpcb p (\<lambda>c. c\<lparr>pid := n\<rparr>) (put_sched sc k))"

definition put_vma :: "ptr \<Rightarrow> vma \<Rightarrow> ptr \<Rightarrow> ksys \<Rightarrow> ksys" where
  "put_vma a v p k = k\<lparr>s_vma := (s_vma k)(a := v), s_vmas := (s_vmas k)(p := a # s_vmas k p)\<rparr>"

definition procalloc :: "u64 \<Rightarrow> ptr \<Rightarrow> ptr \<Rightarrow> ptr list \<Rightarrow> u64 \<Rightarrow> ksys \<Rightarrow> ksys result" where
  "procalloc ret_from_fork process stack_vma std_files entrypoint k =
     (if process = 0 then Inl WildAccess else
      let k1 = set_kpcb process (\<lambda>_. zero_pcb) k;
          k2 = alloc_pid process k1;
          k3 = set_kpcb process (\<lambda>c. c\<lparr>parent := get_current k\<rparr>) k2;
          k4 = k3\<lparr>s_children := (s_children k3)(process := []), s_vmas := (s_vmas k3)(process := [])\<rparr>;
          k5 = set_kpcb process (\<lambda>c. c\<lparr>waiting_on := WAITING_NONE\<rparr>) k4
      in bindR (buddy_alloc_pt pt_fuel (s_vm k5)) (\<lambda>(l0, v1).
           let k6 = set_kpcb process (\<lambda>c. c\<lparr>ttbr := l0\<rparr>) (k5\<lparr>s_vm := v1\<rparr>)
           in if stack_vma = 0 then Inl WildAccess else
           let k7 = put_vma stack_vma \<lparr>vma_start = USER_STACK_TOP - 0x2000, vma_end = USER_STACK_TOP,
                      permissions = VMA_READ OR VMA_WRITE\<rparr> process k6
           in bindR (initialize_proc_kstack (s_vm k7)) (\<lambda>(kstack, v2).
              bindR (wr64 (BASE_TRAPFRAME kstack + 8 * 31) (USER_STACK_TOP - 16) v2) (\<lambda>v3.
              bindR (wr64 (BASE_TRAPFRAME kstack + 8 * 32) entrypoint v3) (\<lambda>v4.
              bindR (wr64 (BASE_TRAPFRAME kstack + 8 * 33) 0 v4) (\<lambda>v5.
              let sp = kstack - S_FRAME_SIZE - 96
              in bindR (push_context ret_from_fork sp v5) (\<lambda>v6.
                 let k8 = set_kpcb process (\<lambda>c. c\<lparr>kernel_stack := sp\<rparr>) (k7\<lparr>s_vm := v6\<rparr>)
                 in if 0 \<in> set std_files then Inl WildAccess
                    else Inr (set_kpcb process
                           (\<lambda>c. c\<lparr>fds := (fds c)[0 := std_files ! 0, 1 := std_files ! 1, 2 := std_files ! 2], pstate := PROCESS_READY\<rparr>)
                           (k8\<lparr>s_files := fold (\<lambda>f m. m(f := Some stdio_file)) std_files (s_files k8)\<rparr>)))))))))"

section \<open>Copying the current process\<close>

text \<open>The loop over the areas: it runs from the last area to the first and adds each copy in front.\<close>

fun clone_vmas :: "ptr \<Rightarrow> ptr list \<Rightarrow> ptr list \<Rightarrow> ksys \<Rightarrow> ksys result" where
  "clone_vmas process [] new k = Inr k"
| "clone_vmas process (v # vs) [] k = Inl Panicked"
| "clone_vmas process (v # vs) (n # new) k =
     (if n = 0 then Inl Panicked else clone_vmas process vs new (put_vma n (s_vma k v) process k))"

definition copy_page :: "u64 \<Rightarrow> u64 \<Rightarrow> vm \<Rightarrow> vm result" where
  "copy_page dst src st =
     (if in_ram (va_to_pa dst) \<and> in_ram (va_to_pa src)
      then Inr (st\<lparr>vm_mem := (\<lambda>a. if page_of a = page_of (va_to_pa dst) then vm_mem st (va_to_pa src + (a - va_to_pa dst))
             else vm_mem st a)\<rparr>)
      else Inl WildAccess)"

text \<open>The kernel stack of the child: a copy of the parent's upper stack page.\<close>

definition clone_kstack :: "u64 \<Rightarrow> vm \<Rightarrow> (u64 \<times> vm) result" where
  "clone_kstack current_sp st =
     bindR (initialize_proc_kstack st) (\<lambda>(ks, v1).
     bindR (head_from_page (ALIGN_DOWN current_sp 0x1000) (vm_buddy v1)) (\<lambda>stack_head.
     bindR (copy_page (ALIGN_DOWN ks 0x1000) (stack_head + 0x1000) v1) (\<lambda>v2. Inr (ks, v2))))"

definition clone_active_proc :: "u64 \<Rightarrow> u64 \<Rightarrow> u64 \<Rightarrow> ptr \<Rightarrow> ptr list \<Rightarrow> ksys \<Rightarrow> ksys result" where
  "clone_active_proc pfa ret_from_fork current_sp process new_vmas k =
     (if process = 0 then Inl WildAccess else
      let current = get_current k;
          k1 = set_kpcb process (\<lambda>_. kpcb k current) k;
          k2 = k1\<lparr>s_children := (s_children k1)(process := []), s_vmas := (s_vmas k1)(process := [])\<rparr>
      in bindR (clone_vmas process (rev (s_vmas k current)) new_vmas k2) (\<lambda>k3.
           let k4 = set_kpcb process (\<lambda>c. c\<lparr>parent := current\<rparr>) k3
           in bindR (clone_kstack current_sp (s_vm k4)) (\<lambda>(ks, v1).
              let k5 = alloc_pid process (k4\<lparr>s_vm := v1\<rparr>)
              in bindR (clone_virtual_memory pfa (ttbr (kpcb k5 current)) (s_vm k5)) (\<lambda>(l0, v2).
                 let sp = ks - S_FRAME_SIZE
                 in bindR (wr64 sp 0 v2) (\<lambda>v3.
                    bindR (push_context ret_from_fork (sp - 96) v3) (\<lambda>v4.
                      Inr (set_kpcb process (\<lambda>c. c\<lparr>ttbr := l0, kernel_stack := sp - 96\<rparr>) (k5\<lparr>s_vm := v4\<rparr>))))))))"

section \<open>The end of a process\<close>

text \<open>\<open>reap\<close> with the release of the address space; the rest is \<open>reap\<close> of the scheduler's theory.\<close>

definition reap_process :: "ksys \<Rightarrow> ksys result" where
  "reap_process k =
     (if parent (kpcb k (get_current k)) = 0 then Inl WildAccess
      else bindR (run_vm (reap_virtual_memory 3 (ttbr (kpcb k (get_current k)))) k) (run_sched reap))"

text \<open>\<open>check_and_reap\<close>, called on the next process's stack with the process that was switched out.\<close>

definition check_and_reap :: "ptr \<Rightarrow> ksys \<Rightarrow> ksys result" where
  "check_and_reap old k =
     (if pstate (kpcb k old) = PROCESS_TERMINATED
      then bindR (head_from_page (ALIGN_DOWN (kernel_stack (kpcb k old)) 0x1000) (vm_buddy (s_vm k))) (\<lambda>stack_head.
           bindR (buddy_free stack_head (vm_buddy (s_vm k))) (\<lambda>b.
             Inr (set_kpcb old (\<lambda>c. c\<lparr>kernel_stack := 0\<rparr>) (k\<lparr>s_vm := (s_vm k)\<lparr>vm_buddy := b\<rparr>\<rparr>))))
      else Inr k)"

section \<open>What the copy shares with its parent\<close>

lemma put_sched_sel [simp]:
  "ksched (put_sched sc k) = sc" "s_vm (put_sched sc k) = s_vm k" "s_vma (put_sched sc k) = s_vma k"
  "s_vmas (put_sched sc k) = s_vmas k" "s_children (put_sched sc k) = s_children k" "s_files (put_sched sc k) = s_files k"
  by (simp_all add: put_sched_def)

lemma set_kpcb_sel [simp]:
  "sc_pcbs (ksched (set_kpcb p f k)) = (sc_pcbs (ksched k))(p := f (kpcb k p))" "get_current (set_kpcb p f k) = get_current k"
  "s_vm (set_kpcb p f k) = s_vm k" "s_vma (set_kpcb p f k) = s_vma k" "s_vmas (set_kpcb p f k) = s_vmas k"
  "s_children (set_kpcb p f k) = s_children k" "s_files (set_kpcb p f k) = s_files k"
  "sc_runqueue (ksched (set_kpcb p f k)) = sc_runqueue (ksched k)" "sc_idle (ksched (set_kpcb p f k)) = sc_idle (ksched k)"
  "sc_proclist (ksched (set_kpcb p f k)) = sc_proclist (ksched k)"
  "sc_pidcounter (ksched (set_kpcb p f k)) = sc_pidcounter (ksched k)"
  by (simp_all add: set_kpcb_def set_pcb_def)

lemma put_vma_sel [simp]:
  "s_irq (put_vma a v p k) = s_irq k" "s_vm (put_vma a v p k) = s_vm k" "s_children (put_vma a v p k) = s_children k"
  "s_files (put_vma a v p k) = s_files k" "s_vma (put_vma a v p k) = (s_vma k)(a := v)"
  "s_vmas (put_vma a v p k) = (s_vmas k)(p := a # s_vmas k p)"
  by (simp_all add: put_vma_def)

lemma alloc_pid_sel [simp]:
  "sc_pcbs (ksched (alloc_pid p k)) = (sc_pcbs (ksched k))(p := (kpcb k p)\<lparr>pid := sc_pidcounter (ksched k) + 1\<rparr>)"
  "get_current (alloc_pid p k) = get_current k" "s_vm (alloc_pid p k) = s_vm k" "s_vma (alloc_pid p k) = s_vma k"
  "s_vmas (alloc_pid p k) = s_vmas k" "s_children (alloc_pid p k) = s_children k" "s_files (alloc_pid p k) = s_files k"
  "sc_runqueue (ksched (alloc_pid p k)) = sc_runqueue (ksched k)" "sc_idle (ksched (alloc_pid p k)) = sc_idle (ksched k)"
  "sc_proclist (ksched (alloc_pid p k)) = sc_proclist (ksched k)"
  by (simp_all add: alloc_pid_def generate_pid_def set_kpcb_def set_pcb_def Let_def)

text \<open>The copied areas have the contents and the order of the parent's.\<close>

lemma clone_vmas_spec:
  "clone_vmas p vs new k = Inr k' \<Longrightarrow> distinct new \<Longrightarrow> set new \<inter> set vs = {} \<Longrightarrow> \<exists>used. length used = length vs \<and>
     used = take (length vs) new \<and> s_vmas k' = (s_vmas k)(p := rev used @ s_vmas k p) \<and>
     map (s_vma k') used = map (s_vma k) vs \<and> (\<forall>a. a \<notin> set used \<longrightarrow> s_vma k' a = s_vma k a) \<and>
     s_irq k' = s_irq k \<and> s_vm k' = s_vm k \<and> s_children k' = s_children k \<and> s_files k' = s_files k"
proof (induction p vs new k rule: clone_vmas.induct)
  case (1 p new k)
  then show ?case by (intro exI [of _ "[]"]) auto
next
  case (2 p v vs k)
  then show ?case by simp
next
  case (3 p v vs n new k)
  let ?k = "put_vma n (s_vma k v) p k"
  have nz: "n \<noteq> 0" and r: "clone_vmas p vs new ?k = Inr k'" using "3.prems"(1) by (auto split: if_splits)
  have d: "distinct new" "set new \<inter> set vs = {}" "n \<notin> set new" "n \<notin> set vs" using "3.prems"(2,3) by auto
  from "3.IH" [OF nz r d(1,2)] obtain used where u: "length used = length vs" "used = take (length vs) new"
    "s_vmas k' = (s_vmas ?k)(p := rev used @ s_vmas ?k p)" "map (s_vma k') used = map (s_vma ?k) vs"
    "\<And>a. a \<notin> set used \<Longrightarrow> s_vma k' a = s_vma ?k a"
    "s_irq k' = s_irq ?k" "s_vm k' = s_vm ?k" "s_children k' = s_children ?k" "s_files k' = s_files ?k" by blast
  have nu: "n \<notin> set used" unfolding u(2) using d(3) by (meson in_set_takeD)
  have "map (s_vma ?k) vs = map (s_vma k) vs" using d(4) by (intro map_cong) auto
  then show ?case using u nu by (intro exI [of _ "n # used"]) auto
qed

text \<open>The frames on the child's stack.\<close>

lemma wr64_mem: "wr64 a v st = Inr st' \<Longrightarrow> vm_mem st' = (vm_mem st)(va_to_pa a := v) \<and> in_ram (va_to_pa a)"
  by (auto simp: wr64_def split: if_splits)

lemma zero_words_mem:
  "zero_words n a st = Inr st' \<Longrightarrow> vm_mem st' = (\<lambda>x. if \<exists>i<n. x = va_to_pa (a + 8 * of_nat i) then 0 else vm_mem st x)"
proof (induction n a st rule: zero_words.induct)
  case (1 a st)
  then show ?case by simp
next
  case (2 n a st)
  from "2.prems" obtain s1 where s1: "wr64 a 0 st = Inr s1" "zero_words n (a + 8) s1 = Inr st'" by (auto simp: bindR_eq_Inr)
  have a: "a + 8 + 8 * of_nat i = a + 8 * of_nat (Suc i)" for i by (simp add: algebra_simps)
  have ex: "(\<exists>i<Suc n. x = va_to_pa (a + 8 * of_nat i)) \<longleftrightarrow> x = va_to_pa a \<or> (\<exists>i<n. x = va_to_pa (a + 8 + 8 * of_nat i))" for x
    unfolding a by (auto simp: Ex_less_Suc2)
  show ?case unfolding "2.IH" [OF s1(2)] ex using wr64_mem [OF s1(1)] by (intro ext) (simp, blast)
qed

lemma va_to_pa_eq: "va_to_pa a = va_to_pa b \<longleftrightarrow> a = b" by (simp add: va_to_pa_def)

lemma push_context_mem:
  assumes "push_context rff sp st = Inr st'"
  shows "vm_mem st' (va_to_pa (sp + 8)) = rff" "vm_mem st' (va_to_pa (sp + 96)) = vm_mem st (va_to_pa (sp + 96))"
proof -
  from assms obtain s1 where s1: "zero_words 12 sp st = Inr s1" "wr64 (sp + 8) rff s1 = Inr st'"
    by (auto simp: push_context_def bindR_eq_Inr)
  show "vm_mem st' (va_to_pa (sp + 8)) = rff" using wr64_mem [OF s1(2)] by simp
  have "(96 :: u64) \<noteq> 8 * of_nat i" if "i < 12" for i
  proof
    assume "(96 :: u64) = 8 * of_nat i"
    then have "unat (96 :: u64) = unat (8 * of_nat i :: u64)" by simp
    also have "unat (8 * of_nat i :: u64) = 8 * i" using that by (simp add: unat_word_ariths unsigned_of_nat take_bit_nat_eq_self)
    finally show False using that by simp
  qed
  then have "\<not> (\<exists>i<12. va_to_pa (sp + 96) = va_to_pa (sp + 8 * of_nat i))" by (auto simp: va_to_pa_eq)
  then have "vm_mem s1 (va_to_pa (sp + 96)) = vm_mem st (va_to_pa (sp + 96))"
    by (simp only: zero_words_mem [OF s1(1)] if_False)
  then show "vm_mem st' (va_to_pa (sp + 96)) = vm_mem st (va_to_pa (sp + 96))"
    using wr64_mem [OF s1(2)] by (simp add: va_to_pa_eq)
qed

text \<open>What \<open>clone_active_proc\<close> makes of the parent.\<close>

lemma clone_active_proc_spec:
  assumes c: "clone_active_proc pfa rff sp0 p new k = Inr k'" and p: "p \<noteq> get_current k" and new: "distinct new"
    "set new \<inter> set (s_vmas k (get_current k)) = {}"
  shows "p \<noteq> 0 \<and> (\<exists>l0 ks. kpcb k' p = (kpcb k (get_current k))\<lparr>pid := sc_pidcounter (ksched k) + 1, parent := get_current k,
        ttbr := l0, kernel_stack := ks\<rparr> \<and>
      vm_mem (s_vm k') (va_to_pa (ks + 8)) = rff \<and> vm_mem (s_vm k') (va_to_pa (ks + 96)) = 0)"
    "\<And>q. q \<noteq> p \<Longrightarrow> kpcb k' q = kpcb k q \<and> s_vmas k' q = s_vmas k q \<and> s_children k' q = s_children k q"
    "map (s_vma k') (s_vmas k' p) = map (s_vma k) (s_vmas k (get_current k))" "s_children k' p = []"
    "\<And>a. a \<notin> set new \<Longrightarrow> s_vma k' a = s_vma k a" "s_files k' = s_files k" "get_current k' = get_current k"
    "sc_runqueue (ksched k') = sc_runqueue (ksched k)" "sc_idle (ksched k') = sc_idle (ksched k)"
    "set (s_vmas k' p) \<subseteq> set new"
proof -
  let ?cur = "get_current k"
  define k2 where "k2 = (set_kpcb p (\<lambda>_. kpcb k ?cur) k)\<lparr>s_children := (s_children k)(p := []), s_vmas := (s_vmas k)(p := [])\<rparr>"
  have k2: "sc_pcbs (ksched k2) = (sc_pcbs (ksched k))(p := kpcb k ?cur)" "get_current k2 = ?cur"
    "s_vmas k2 = (s_vmas k)(p := [])" "s_vma k2 = s_vma k" "s_children k2 = (s_children k)(p := [])" "s_files k2 = s_files k"
    "sc_runqueue (ksched k2) = sc_runqueue (ksched k)" "sc_idle (ksched k2) = sc_idle (ksched k)"
    "sc_pidcounter (ksched k2) = sc_pidcounter (ksched k)"
    by (simp_all add: k2_def set_kpcb_def set_pcb_def put_sched_def)
  from c obtain k3 ks v1 l0 v2 v3 v4 where
    nz: "p \<noteq> 0" and k3: "clone_vmas p (rev (s_vmas k ?cur)) new k2 = Inr k3" and
    w: "wr64 (ks - S_FRAME_SIZE) 0 v2 = Inr v3" "push_context rff (ks - S_FRAME_SIZE - 96) v3 = Inr v4" and
    k': "k' = set_kpcb p (\<lambda>c. c\<lparr>ttbr := l0, kernel_stack := ks - S_FRAME_SIZE - 96\<rparr>)
      ((alloc_pid p ((set_kpcb p (\<lambda>c. c\<lparr>parent := ?cur\<rparr>) k3)\<lparr>s_vm := v1\<rparr>))\<lparr>s_vm := v4\<rparr>)"
    by (auto simp: clone_active_proc_def Let_def bindR_eq_Inr k2_def [symmetric] split: if_splits)
  from clone_vmas_spec [OF k3 new(1)] new(2) obtain used where
    u: "used = take (length (s_vmas k ?cur)) new" "s_vmas k3 = (s_vmas k2)(p := rev used @ s_vmas k2 p)"
      "map (s_vma k3) used = map (s_vma k2) (rev (s_vmas k ?cur))" "\<And>a. a \<notin> set used \<Longrightarrow> s_vma k3 a = s_vma k2 a"
      "s_irq k3 = s_irq k2" "s_children k3 = s_children k2" "s_files k3 = s_files k2" by auto
  have un: "set used \<subseteq> set new" unfolding u(1) by (rule set_take_subset)
  have sel: "ksched (x\<lparr>s_vm := v\<rparr>) = ksched x" "s_vmas (x\<lparr>s_vm := v\<rparr>) = s_vmas x" "s_vma (x\<lparr>s_vm := v\<rparr>) = s_vma x"
    "s_children (x\<lparr>s_vm := v\<rparr>) = s_children x" "s_files (x\<lparr>s_vm := v\<rparr>) = s_files x" for x :: ksys and v by simp_all
  let ?ks = "ks - S_FRAME_SIZE - 96"
  have m: "vm_mem v4 (va_to_pa (?ks + 8)) = rff" "vm_mem v4 (va_to_pa (?ks + 96)) = 0"
    using push_context_mem [OF w(2)] wr64_mem [OF w(1)] by simp_all
  show "p \<noteq> 0 \<and> (\<exists>l0 ks. kpcb k' p = (kpcb k (get_current k))\<lparr>pid := sc_pidcounter (ksched k) + 1, parent := get_current k,
        ttbr := l0, kernel_stack := ks\<rparr> \<and>
      vm_mem (s_vm k') (va_to_pa (ks + 8)) = rff \<and> vm_mem (s_vm k') (va_to_pa (ks + 96)) = 0)"
    using nz m by (intro conjI exI [of _ l0] exI [of _ ?ks]) (simp_all add: k' u(5) k2)
  show "kpcb k' q = kpcb k q \<and> s_vmas k' q = s_vmas k q \<and> s_children k' q = s_children k q" if "q \<noteq> p" for q
    using that by (simp add: k' u(2,5,6) k2)
  have "s_vmas k' p = rev used" "s_vma k' = s_vma k3" by (simp_all add: k' u(2) k2)
  then show "map (s_vma k') (s_vmas k' p) = map (s_vma k) (s_vmas k (get_current k))" "set (s_vmas k' p) \<subseteq> set new"
    using u(3) un by (simp_all add: k2 rev_map [symmetric])
  show "s_children k' p = []" "s_files k' = s_files k" "get_current k' = get_current k"
    "sc_runqueue (ksched k') = sc_runqueue (ksched k)" "sc_idle (ksched k') = sc_idle (ksched k)"
    by (simp_all add: k' u(5-7) k2)
  show "s_vma k' a = s_vma k a" if "a \<notin> set new" for a using u(4) [of a] un that by (auto simp: k' k2)
qed

end
