(* ===== verification/Trie.thy ===== *)
theory Trie
  imports Prelude
begin

text \<open>
  The search trie of \<open>utils/datastructures/trie.c\<close>, which maps the names of device files to their
  descriptors (\<open>drivers/dt.c\<close>, \<open>check_vfs\<close> of \<open>filesystem/filesystem.c\<close>). Nodes form a tree through
  their \<open>down\<close> and \<open>next\<close> pointers, so a level is a chain of \<open>trie_node\<close>s; a NULL pointer is \<open>NoNode\<close>.
  Keys are strings without their terminating zero. Allocation of nodes succeeds.
\<close>

section \<open>Types and operations\<close>

datatype trie_node = NoNode | TNode (tc: u8) (tvalue: u64) (down: trie_node) (tnext: trie_node)

record trie =
  thead :: trie_node
  tkeys :: u32

definition trie_init :: trie where "trie_init = \<lparr>thead = NoNode, tkeys = 0\<rparr>"

text \<open>\<open>trie_add_down\<close>: a chain of nodes for the rest of a key, linked in front of \<open>nx\<close> by the caller.\<close>

fun add_down :: "u8 list \<Rightarrow> u64 \<Rightarrow> trie_node" where
  "add_down [] v0 = NoNode"
| "add_down [c] v0 = TNode c v0 NoNode NoNode"
| "add_down (c # cs) v0 = TNode c 0 (add_down cs v0) NoNode"

definition link_next :: "trie_node \<Rightarrow> trie_node \<Rightarrow> trie_node" where
  "link_next n nx = (case n of NoNode \<Rightarrow> NoNode | TNode c v d _ \<Rightarrow> TNode c v d nx)"

text \<open>
  The loop of \<open>trie_add\<close>: the search along a level, the descent, and the insertion of a chain; the
  second result tells whether a chain was inserted.
\<close>

fun add_level :: "u8 list \<Rightarrow> u64 \<Rightarrow> trie_node \<Rightarrow> trie_node \<times> bool" where
  "add_level [] v0 n = (n, False)"
| "add_level (c # cs) v0 NoNode = (add_down (c # cs) v0, True)"
| "add_level (c # cs) v0 (TNode x v d nx) =
     (if x < c then let (nx', b) = add_level (c # cs) v0 nx in (TNode x v d nx', b)
      else if x = c
      then (if cs = [] then (TNode x v0 d nx, False)
            else let (d', b) = add_level cs v0 d in (TNode x v d' nx, b))
      else (link_next (add_down (c # cs) v0) (TNode x v d nx), True))"

text \<open>The first key is added without a search; an empty first key reads past its terminator.\<close>

definition trie_add :: "u8 list \<Rightarrow> u64 \<Rightarrow> trie \<Rightarrow> trie result" where
  "trie_add key v0 t =
     (if tkeys t = 0
      then (if key = [] then Inl WildAccess
            else Inr (t\<lparr>thead := add_down key v0, tkeys := tkeys t + 1\<rparr>))
      else let (n, b) = add_level key v0 (thead t)
           in Inr (t\<lparr>thead := n, tkeys := (if b then tkeys t + 1 else tkeys t)\<rparr>))"

fun get_down :: "trie_node \<Rightarrow> u8 \<Rightarrow> trie_node" where
  "get_down NoNode c = NoNode"
| "get_down (TNode x v d nx) c = (if x < c then get_down nx c else if x = c then d else NoNode)"

fun get_loop :: "u8 list \<Rightarrow> trie_node \<Rightarrow> trie_node \<Rightarrow> u64" where
  "get_loop [] node prevnode = 0"
| "get_loop (c # cs) node prevnode =
     (if node = NoNode then 0
      else let node' = get_down node c
           in if node' = NoNode \<and> cs = [] then tvalue prevnode
              else get_loop cs node' node')"

definition trie_get :: "trie \<Rightarrow> u8 list \<Rightarrow> u64" where
  "trie_get t key = (if tkeys t = 0 then 0 else get_loop key (thead t) (thead t))"

section \<open>The trie as a map\<close>

fun lookup :: "trie_node \<Rightarrow> u8 list \<Rightarrow> u64" where
  "lookup NoNode cs = 0"
| "lookup (TNode x v d nx) [] = 0"
| "lookup (TNode x v d nx) (c # cs) =
     (if x = c then (if cs = [] then v else lookup d cs) else lookup nx (c # cs))"

text \<open>Levels are sorted strictly by their bytes.\<close>

fun above :: "u8 \<Rightarrow> trie_node \<Rightarrow> bool" where
  "above c NoNode = True"
| "above c (TNode x v d nx) = (c < x)"

fun sorted_trie :: "trie_node \<Rightarrow> bool" where
  "sorted_trie NoNode = True"
| "sorted_trie (TNode x v d nx) = (above x nx \<and> sorted_trie d \<and> sorted_trie nx)"

lemma lookup_above: "sorted_trie n \<Longrightarrow> above x n \<Longrightarrow> c \<le> x \<Longrightarrow> lookup n (c # cs) = 0"
  by (induction n arbitrary: x) auto

lemma lookup_add_down: "key \<noteq> [] \<Longrightarrow> lookup (add_down key v0) k = (if k = key then v0 else 0)"
proof (induction key v0 arbitrary: k rule: add_down.induct)
  case (2 c v)
  then show ?case by (cases k) auto
next
  case (3 c c' cs v)
  then show ?case by (cases k) auto
qed simp

lemma sorted_add_down: "sorted_trie (add_down key v0)" "key \<noteq> [] \<Longrightarrow> \<exists>v d. add_down key v0 = TNode (hd key) v d NoNode"
  by (induction key v0 rule: add_down.induct) auto

lemma lookup_add_level:
  assumes "key \<noteq> []" "sorted_trie n"
  shows "lookup (fst (add_level key v0 n)) k = (if k = key then v0 else lookup n k)"
  using assms
proof (induction key v0 n arbitrary: k rule: add_level.induct)
  case (2 c cs v)
  then show ?case by (simp add: lookup_add_down)
next
  case (3 c cs v x w d nx)
  consider "x < c" | "x = c" | "c < x" by fastforce
  then show ?case
  proof cases
    case 1
    then have "fst (add_level (c # cs) v (TNode x w d nx)) = TNode x w d (fst (add_level (c # cs) v nx))"
      by (simp add: split_beta)
    then show ?thesis using 3 1 by (cases k) auto
  next
    case 2
    show ?thesis
    proof (cases "cs = []")
      case True
      then show ?thesis using 2 by (cases k) auto
    next
      case False
      then have "fst (add_level (c # cs) v (TNode x w d nx)) = TNode x w (fst (add_level cs v d)) nx"
        using 2 by (simp add: split_beta)
      then show ?thesis using 3 2 False by (cases k) auto
    qed
  next
    case 3
    then have ne: "\<not> x < c" "x \<noteq> c" by auto
    obtain w' d' where a: "add_down (c # cs) v = TNode c w' d' NoNode" using sorted_add_down(2) [of "c # cs" v] by auto
    have ld: "lookup (TNode c w' d' NoNode) k = (if k = c # cs then v else 0)" for k
      using lookup_add_down [of "c # cs" v] a by simp
    have e: "fst (add_level (c # cs) v (TNode x w d nx)) = TNode c w' d' (TNode x w d nx)"
      using ne a by (simp add: link_next_def)
    have ab: "lookup (TNode x w d nx) (c # zs) = 0" for zs
      using lookup_above [of "TNode x w d nx" c c zs] \<open>sorted_trie (TNode x w d nx)\<close> 3 by simp
    show ?thesis unfolding e
    proof (cases k)
      case Nil
      then show "lookup (TNode c w' d' (TNode x w d nx)) k = (if k = c # cs then v else lookup (TNode x w d nx) k)" by simp
    next
      case (Cons y ys)
      show "lookup (TNode c w' d' (TNode x w d nx)) k = (if k = c # cs then v else lookup (TNode x w d nx) k)"
        using ld [of k] ab [of ys] Cons by (cases "y = c") simp_all
    qed
  qed
qed simp

lemma sorted_add_level:
  "sorted_trie n \<Longrightarrow> sorted_trie (fst (add_level key v0 n)) \<and>
   (\<forall>x. above x n \<longrightarrow> (key \<noteq> [] \<longrightarrow> x < hd key) \<longrightarrow> above x (fst (add_level key v0 n)))"
proof (induction key v0 n rule: add_level.induct)
  case (2 c cs v)
  then show ?case using sorted_add_down [of "c # cs" v] by auto
next
  case (3 c cs v x w d nx)
  consider "x < c" | "x = c" | "c < x" by fastforce
  then show ?case
  proof cases
    case 1
    then show ?thesis using 3 by (auto simp: split_beta)
  next
    case 2
    then show ?thesis using 3 by (auto simp: split_beta)
  next
    case 3
    then have ne: "\<not> x < c" "x \<noteq> c" by auto
    obtain w' d' where a: "add_down (c # cs) v = TNode c w' d' NoNode" using sorted_add_down(2) [of "c # cs" v] by auto
    then have "sorted_trie d'" using sorted_add_down(1) [of "c # cs" v] by simp
    then show ?thesis using 3 ne a \<open>sorted_trie (TNode x w d nx)\<close> by (simp add: link_next_def)
  qed
qed simp

definition trie_inv :: "trie \<Rightarrow> bool" where
  "trie_inv t \<longleftrightarrow> sorted_trie (thead t) \<and> (tkeys t = 0 \<longrightarrow> thead t = NoNode)"

text \<open>What \<open>trie_get\<close> returns: the value of the first node of the last level it searched.\<close>

fun level_of :: "u8 list \<Rightarrow> trie_node \<Rightarrow> trie_node" where
  "level_of (c # c' # cs) n = level_of (c' # cs) (get_down n c)"
| "level_of _ n = n"

lemma get_loop_level:
  "key \<noteq> [] \<Longrightarrow> get_loop key n n =
     (let l = level_of key n in if l \<noteq> NoNode \<and> get_down l (last key) = NoNode then tvalue l else 0)"
proof (induction key n rule: level_of.induct)
  case (1 c c' cs n)
  then show ?case
  proof (cases "n = NoNode")
    case True
    have "level_of ks NoNode = NoNode" for ks by (induction ks "NoNode :: trie_node" rule: level_of.induct) auto
    then show ?thesis using True by simp
  next
    case False
    then show ?thesis using 1 by simp
  qed
qed (auto simp: Let_def)

section \<open>The table of device files\<close>

definition str :: "string \<Rightarrow> u8 list" where "str s = map of_char s"

text \<open>\<open>device_tree_init\<close>, given the addresses of the two descriptors.\<close>

definition device_tree_init :: "u64 \<Rightarrow> u64 \<Rightarrow> trie result" where
  "device_tree_init keyboard_file i2c_file =
     bindR (trie_add (str ''/dev/fb0'') 1 trie_init) (\<lambda>t1.
     bindR (trie_add (str ''/dev/ttyS1'') keyboard_file t1) (\<lambda>t2.
       trie_add (str ''/dev/i2c'') i2c_file t2))"

definition check_vfs :: "trie \<Rightarrow> u8 list \<Rightarrow> u64" where "check_vfs device_trie path = trie_get device_trie path"

section \<open>Properties\<close>

text \<open>
  C32. Insertion. On a trie whose levels are sorted, adding a non-empty key keeps the levels sorted
  and changes the map the trie stands for at exactly that key.
\<close>

theorem trie_add_lookup:
  assumes inv: "trie_inv t" and key: "key \<noteq> []" and n: "tkeys t < 0xFFFFFFFF"
  shows "\<exists>t'. trie_add key v t = Inr t' \<and> trie_inv t' \<and> lookup (thead t') = (lookup (thead t))(key := v)"
proof -
  have n1: "tkeys t + 1 \<noteq> 0"
  proof
    assume "tkeys t + 1 = 0"
    then have "tkeys t = - 1" by (simp add: add_eq_0_iff2)
    then show False using n by simp
  qed
  show ?thesis
  proof (cases "tkeys t = 0")
    case True
    then have h: "thead t = NoNode" using inv by (simp add: trie_inv_def)
    let ?t = "t\<lparr>thead := add_down key v, tkeys := tkeys t + 1\<rparr>"
    have "lookup (add_down key v) = (lookup (thead t))(key := v)"
      using lookup_add_down [OF key] h by (auto simp: fun_eq_iff)
    moreover have "trie_inv ?t" using True sorted_add_down(1) by (simp add: trie_inv_def)
    ultimately show ?thesis using True key by (simp add: trie_add_def)
  next
    case False
    have s: "sorted_trie (thead t)" using inv by (simp add: trie_inv_def)
    have "lookup (fst (add_level key v (thead t))) = (lookup (thead t))(key := v)"
      using lookup_add_level [OF key s] by (auto simp: fun_eq_iff)
    then show ?thesis using False s sorted_add_level [OF s, of key v] n1
      by (auto simp: trie_add_def trie_inv_def split_beta Let_def)
  qed
qed

theorem trie_add_lookup_witness:
  "\<exists>t'. trie_add [5, 6] 9 trie_init = Inr t' \<and> lookup (thead t') [5, 6] = 9 \<and> lookup (thead t') [5] = 0"
proof -
  have "trie_inv trie_init" "[5, 6] \<noteq> ([] :: u8 list)" "tkeys trie_init < 0xFFFFFFFF"
    by (simp_all add: trie_inv_def trie_init_def)
  from trie_add_lookup [OF this, of 9] show ?thesis by (auto simp: trie_init_def)
qed

text \<open>
  The device files. After boot the three device names are found with the values entered for
  them. But \<open>trie_get\<close> does not compare the last byte of a name: every name that differs from
  \<open>/dev/fb0\<close> in its last byte only is found as well, with the value 1, which \<open>sys_open\<close> takes for the
  address of a descriptor.
\<close>

theorem device_trie_lookup:
  "\<exists>t. device_tree_init kbd i2c = Inr t \<and> check_vfs t (str ''/dev/fb0'') = 1 \<and>
     check_vfs t (str ''/dev/ttyS1'') = kbd \<and> check_vfs t (str ''/dev/i2c'') = i2c \<and>
     (\<forall>c. check_vfs t (str ''/dev/fb'' @ [c]) = 1)"
proof -
  have s: "str ''/dev/fb0'' = [47, 100, 101, 118, 47, 102, 98, 48]" "str ''/dev/fb'' = [47, 100, 101, 118, 47, 102, 98]"
    "str ''/dev/ttyS1'' = [47, 100, 101, 118, 47, 116, 116, 121, 83, 49]"
    "str ''/dev/i2c'' = [47, 100, 101, 118, 47, 105, 50, 99]"
    by (simp_all add: str_def)
  let ?h = "TNode 47 0 (TNode 100 0 (TNode 101 0 (TNode 118 0 (TNode 47 0
      (TNode 102 0 (TNode 98 0 (TNode 48 1 NoNode NoNode) NoNode)
      (TNode 105 0 (TNode 50 0 (TNode 99 i2c NoNode NoNode) NoNode)
      (TNode 116 0 (TNode 116 0 (TNode 121 0 (TNode 83 0 (TNode 49 kbd NoNode NoNode) NoNode) NoNode) NoNode) NoNode)))
      NoNode) NoNode) NoNode) NoNode) NoNode"
  have "device_tree_init kbd i2c = Inr \<lparr>thead = ?h, tkeys = 3\<rparr>"
    by (simp add: device_tree_init_def trie_add_def trie_init_def s link_next_def)
  then obtain t where t: "device_tree_init kbd i2c = Inr t" "tkeys t = 3" "thead t = ?h"
    by (rule that) simp_all
  show ?thesis
    using t by (intro exI [of _ t]) (simp add: check_vfs_def trie_get_def s)
qed


end
