(* ===== verification/Syscalls.thy ===== *)
theory Syscalls
  imports Process Trie
begin

text \<open>
  System calls: \<open>system/syscalls.c\<close> and the table of \<open>system/syscalls.h\<close>. What the environment and the
  components below deliver to a call (the addresses that \<open>kmalloc\<close> returned, the path that the user
  pointer names, the file that \<open>open\<close> found on the disk, the virtual counter, a received character)
  is a record of arguments.
\<close>

section \<open>Results\<close>

text \<open>
  What a handler does at its end: it returns a value, ends without a return statement, calls an
  operation of a file and returns its result, or loads a program.
\<close>

datatype outcome = Ret u64 | NoValue | Calls file_op ptr u64 u64 | Loads ptr

type_synonym call_result = "(outcome \<times> ksys) result"

record env =
  e_new :: ptr
  e_vmas :: "ptr list"
  e_path :: "u8 list"
  e_trie :: trie
  e_open :: ptr
  e_kbd_pipe :: ptr
  e_counter :: u64
  e_rx :: u8
  e_pfa :: u64
  e_ret_from_fork :: u64
  e_sp :: u64

abbreviation (input) ENOENT :: u64 where "ENOENT \<equiv> 2"
abbreviation (input) ENOEXEC :: u64 where "ENOEXEC \<equiv> 8"
abbreviation (input) ECHILD :: u64 where "ECHILD \<equiv> 10"
abbreviation (input) ENOSYS :: u64 where "ENOSYS \<equiv> 38"

section \<open>Files\<close>

text \<open>The descriptor is not checked: from 32 on the source reads past the array.\<close>

definition fd_file :: "u64 \<Rightarrow> ksys \<Rightarrow> ptr result" where
  "fd_file fd k = (if unat fd < MAX_OPEN_FILES then Inr (fds (kpcb k (get_current k)) ! unat fd) else Inl WildAccess)"

text \<open>\<open>current->fds[fd] && current->fds[fd]->file_ops->op\<close>, and the call; \<open>otherwise\<close> is the end of the function.\<close>

definition file_call ::
  "(fileops_t \<Rightarrow> file_op option) \<Rightarrow> outcome \<Rightarrow> u64 \<Rightarrow> u64 \<Rightarrow> u64 \<Rightarrow> ksys \<Rightarrow> call_result" where
  "file_call sel otherwise fd a b k =
     bindR (fd_file fd k) (\<lambda>f.
       if f = 0 then Inr (otherwise, k)
       else case s_files k f of
         None \<Rightarrow> Inl WildAccess
       | Some file \<Rightarrow> (case kf_ops file of
             None \<Rightarrow> Inl WildAccess
           | Some ops \<Rightarrow> (case sel ops of None \<Rightarrow> Inr (otherwise, k) | Some op \<Rightarrow> Inr (Calls op f a b, k))))"

definition sys_write :: "u64 \<Rightarrow> u64 \<Rightarrow> u64 \<Rightarrow> ksys \<Rightarrow> call_result" where
  "sys_write fd ubuf n k = file_call fo_write (Ret 0) fd ubuf n k"

definition sys_read :: "u64 \<Rightarrow> u64 \<Rightarrow> u64 \<Rightarrow> ksys \<Rightarrow> call_result" where
  "sys_read fd ubuf n k = file_call fo_read NoValue fd ubuf n k"

definition sys_ioctl :: "u64 \<Rightarrow> u64 \<Rightarrow> u64 \<Rightarrow> ksys \<Rightarrow> call_result" where
  "sys_ioctl fd cmd arg k = file_call fo_ioctl NoValue fd cmd arg k"

text \<open>
  The descriptor that \<open>fd_alloc\<close> chose is stored once more; where it is \<open>-1\<close> that store is outside the
  array. Only the keyboard and the I2C controller are registered, and only the former's open
  operation changes this state.
\<close>

definition install_fd :: "ptr \<Rightarrow> ksys \<Rightarrow> (u64 \<times> ksys) result" where
  "install_fd f k =
     (case fd_alloc (kpcb k (get_current k)) f of
        (None, _) \<Rightarrow> Inl WildAccess
      | (Some i, c) \<Rightarrow> Inr (of_nat i, set_kpcb (get_current k) (\<lambda>_. c\<lparr>fds := (fds c)[i := f]\<rparr>) k))"

definition call_open :: "ptr \<Rightarrow> ptr \<Rightarrow> ksys \<Rightarrow> ksys" where
  "call_open kbd_pipe f k =
     (case s_files k f of
        None \<Rightarrow> k
      | Some file \<Rightarrow> (case kf_ops file of
            None \<Rightarrow> k
          | Some ops \<Rightarrow> if fo_open ops = Some Keyboard_open
                        then k\<lparr>s_files := (s_files k)(f := Some (file\<lparr>kf_private := kbd_pipe, kf_refcount := kf_refcount file + 1\<rparr>))\<rparr>
                        else k))"

definition sys_open :: "env \<Rightarrow> u64 \<Rightarrow> ksys \<Rightarrow> call_result" where
  "sys_open e flags k =
     (let fd = unat (check_vfs (e_trie e) (e_path e))
      in if fd \<noteq> 0
         then (case s_files k fd of
                 None \<Rightarrow> Inl WildAccess
               | Some file \<Rightarrow>
                   if e_new e = 0 then Inl WildAccess
                   else bindR (install_fd (e_new e) (k\<lparr>s_files := (s_files k)(e_new e := Some file)\<rparr>)) (\<lambda>(i, k1).
                          Inr (Ret i, call_open (e_kbd_pipe e) (e_new e) k1)))
         else if e_open e = 0 then Inr (Ret (- ENOENT), k)
         else bindR (install_fd (e_open e) k) (\<lambda>(i, k1). Inr (Ret i, call_open (e_kbd_pipe e) (e_open e) k1)))"

section \<open>Memory\<close>

definition last_area :: "u64 \<Rightarrow> ptr list \<Rightarrow> ksys \<Rightarrow> ptr" where
  "last_area addr vs k =
     fold (\<lambda>v found. if vma_start (s_vma k v) < addr \<and> addr < vma_end (s_vma k v) then v else found) vs 0"

definition mmap_permissions :: "u64 \<Rightarrow> u64" where
  "mmap_permissions prot =
     (let p1 = (if prot AND 8 \<noteq> 0 then 0 else prot)
      in if p1 AND 2 \<noteq> 0 \<and> p1 AND 4 \<noteq> 0 then 1 OR 2 else p1)"

definition sys_mmap :: "ptr \<Rightarrow> u64 \<Rightarrow> u64 \<Rightarrow> u64 \<Rightarrow> ksys \<Rightarrow> call_result" where
  "sys_mmap new addr len prot k =
     (let start_addr = ALIGN_DOWN addr 0x1000;
          end_addr = ALIGN_UP (addr + len) 0x1000;
          current = get_current k;
          found_vma = last_area addr (s_vmas k current) k
      in if found_vma = 0
         then (if new = 0 then Inl WildAccess
               else Inr (Ret start_addr, put_vma new \<lparr>vma_start = start_addr, vma_end = end_addr,
                           permissions = ucast (mmap_permissions prot)\<rparr> current k))
         else Inr (Ret (vma_start (s_vma k found_vma)), k))"

definition brk_blocked :: "u64 \<Rightarrow> ptr \<Rightarrow> ptr list \<Rightarrow> ksys \<Rightarrow> bool" where
  "brk_blocked addr area vs k \<longleftrightarrow> (\<exists>v\<in>set vs. v \<noteq> area \<and> vma_start (s_vma k v) < addr \<and> addr < vma_end (s_vma k v))"

definition sys_brk :: "ptr \<Rightarrow> u64 \<Rightarrow> ksys \<Rightarrow> call_result" where
  "sys_brk new addr k =
     (let current = get_current k;
          area = heap_vma (kpcb k current)
      in if area = 0
         then (if new = 0 then Inl WildAccess
               else let v = \<lparr>vma_start = start_brk (kpcb k current), vma_end = brk (kpcb k current),
                             permissions = VMA_USER OR VMA_READ OR VMA_WRITE\<rparr>
                    in Inr (Ret (vma_end v), set_kpcb current (\<lambda>c. c\<lparr>heap_vma := new\<rparr>) (put_vma new v current k)))
         else let addr = ALIGN_UP addr 0x1000
              in if addr < vma_end (s_vma k area) then Inr (Ret (vma_end (s_vma k area)), k)
                 else if brk_blocked addr area (s_vmas k current) k then Inr (Ret (vma_end (s_vma k area)), k)
                 else Inr (Ret addr, k\<lparr>s_vma := (s_vma k)(area := (s_vma k area)\<lparr>vma_end := addr\<rparr>)\<rparr>))"

section \<open>Processes\<close>

definition sys_getpid :: "ksys \<Rightarrow> call_result" where
  "sys_getpid k =
     (let current = get_current k
      in Inr (Ret (if current \<noteq> 0 \<and> 0 < pid (kpcb k current) then ucast (pid (kpcb k current)) else - 1), k))"

definition sys_getppid :: "ksys \<Rightarrow> call_result" where
  "sys_getppid k =
     (let par = parent (kpcb k (get_current k))
      in Inr (Ret (if par \<noteq> 0 \<and> 0 < pid (kpcb k par) then ucast (pid (kpcb k par)) else - 1), k))"

definition sys_exit :: "ksys \<Rightarrow> call_result" where
  "sys_exit k = bindR (reap_process k) (\<lambda>k1. Inr (Ret 0, k1))"

definition ksys_nanosleep :: "env \<Rightarrow> u64 \<Rightarrow> ksys \<Rightarrow> call_result" where
  "ksys_nanosleep e ns k = bindR (nanosleep_call (e_counter e) ns (s_irq k)) (\<lambda>i. Inr (Ret 0, k\<lparr>s_irq := i\<rparr>))"

definition sys_fork :: "env \<Rightarrow> ksys \<Rightarrow> call_result" where
  "sys_fork e k =
     (let current = get_current k; newproc = e_new e
      in bindR (clone_active_proc (e_pfa e) (e_ret_from_fork e) (e_sp e) newproc (e_vmas e) k) (\<lambda>k1.
           let k2 = put_sched (add_to_schedule newproc (ksched k1)) k1;
               k3 = k2\<lparr>s_children := (s_children k2)(current := newproc # s_children k2 current)\<rparr>
           in Inr (Ret (scast (pid (kpcb k2 newproc))), k3)))"

text \<open>
  \<open>sys_waitid\<close>: the search for the child, and one pass of the endless loop that waits for it. A pass
  that blocks gives the processor away; the loop goes on where the process runs again.
\<close>

definition waitid_pass :: "ptr \<Rightarrow> ksys \<Rightarrow> call_result option" where
  "waitid_pass child k =
     (if pstate (kpcb k child) = PROCESS_TERMINATED then Some (Inr (NoValue, k)) else None)"

definition waitid_block :: "ksys \<Rightarrow> ksys result" where
  "waitid_block k = run_sched deschedule k"

definition sys_waitid :: "u64 \<Rightarrow> ksys \<Rightarrow> (outcome \<times> ksys + ptr \<times> ksys)" where
  "sys_waitid upid k =
     (let current = get_current k
      in if s_children k current = [] then Inl (Ret ECHILD, k)
         else case find (\<lambda>c. ucast (pid (kpcb k c)) = upid) (s_children k current) of
                None \<Rightarrow> Inl (NoValue, k)
              | Some child \<Rightarrow> Inr (child, set_kpcb current (\<lambda>c. c\<lparr>waiting_on := ucast upid\<rparr>) k))"

definition call_waitid :: "u64 \<Rightarrow> ksys \<Rightarrow> call_result" where
  "call_waitid upid k =
     (case sys_waitid upid k of
        Inl r \<Rightarrow> Inr r
      | Inr (child, k1) \<Rightarrow>
          (case waitid_pass child k1 of Some r \<Rightarrow> r | None \<Rightarrow> bindR (waitid_block k1) (\<lambda>k2. Inr (NoValue, k2))))"

section \<open>The rest\<close>

definition sys_execve :: "env \<Rightarrow> ksys \<Rightarrow> call_result" where
  "sys_execve e k = (if e_open e \<noteq> 0 then Inr (Loads (e_open e), k) else Inr (Ret (- ENOEXEC), k))"

definition sys_getc :: "env \<Rightarrow> ksys \<Rightarrow> call_result" where
  "sys_getc e k =
     (let c = e_rx e
      in Inr (Ret (ucast c), k\<lparr>s_irq := (s_irq k)\<lparr>k_uart_out := k_uart_out (s_irq k) @ [c]\<rparr>\<rparr>))"

text \<open>The 16 pages that \<open>sys_pipe2\<close> allocates are not stored anywhere.\<close>

definition sys_pipe2 :: "ksys \<Rightarrow> call_result" where
  "sys_pipe2 k =
     bindR (buddy_alloc (push_bit 12 16) (vm_buddy (s_vm k))) (\<lambda>(_, b).
       Inr (Ret 0, k\<lparr>s_vm := (s_vm k)\<lparr>vm_buddy := b\<rparr>\<rparr>))"

text \<open>Calls that only return zero.\<close>

definition sys_nop :: "ksys \<Rightarrow> call_result" where "sys_nop k = Inr (Ret 0, k)"

section \<open>The table\<close>

datatype syscall_fn = Sys_ioctl | Sys_io_setup | Sys_open | Sys_write | Sys_read | Sys_mmap | Sys_brk | Sys_clone3
  | Sys_execve | Sys_munmap | Sys_exit | Sys_exit_group | Sys_nanosleep | Sys_getpid | Sys_getppid | Sys_clock_gettime
  | Sys_pulse_led | Sys_get_framebuffer | Sys_getc | Sys_pipe2 | Sys_fork | Sys_test_mutex | Sys_waitid | Sys_getcwd

definition SYS_MAX :: nat where "SYS_MAX = 300"

definition syscall_table :: "nat \<Rightarrow> syscall_fn option" where
  "syscall_table = map_of
     [(29, Sys_ioctl), (0, Sys_io_setup), (56, Sys_open), (64, Sys_write), (63, Sys_read), (222, Sys_mmap),
      (214, Sys_brk), (220, Sys_clone3), (221, Sys_execve), (215, Sys_munmap), (93, Sys_exit), (94, Sys_exit_group),
      (101, Sys_nanosleep), (172, Sys_getpid), (173, Sys_getppid), (113, Sys_clock_gettime), (292, Sys_pulse_led),
      (293, Sys_get_framebuffer), (294, Sys_getc), (59, Sys_pipe2), (295, Sys_fork), (297, Sys_test_mutex),
      (95, Sys_waitid), (17, Sys_getcwd)]"

text \<open>
  The call through the table. The LED and the mutex test drive hardware and the mutex of another
  theory; the test is an argument.
\<close>

fun run_syscall :: "(ksys \<Rightarrow> call_result) \<Rightarrow> env \<Rightarrow> syscall_fn \<Rightarrow> u64 \<Rightarrow> u64 \<Rightarrow> u64 \<Rightarrow> ksys \<Rightarrow> call_result" where
  "run_syscall test e Sys_ioctl x0 x1 x2 k = sys_ioctl x0 x1 x2 k"
| "run_syscall test e Sys_open x0 x1 x2 k = sys_open e x1 k"
| "run_syscall test e Sys_write x0 x1 x2 k = sys_write x0 x1 x2 k"
| "run_syscall test e Sys_read x0 x1 x2 k = sys_read x0 x1 x2 k"
| "run_syscall test e Sys_mmap x0 x1 x2 k = sys_mmap (e_new e) x0 x1 x2 k"
| "run_syscall test e Sys_brk x0 x1 x2 k = sys_brk (e_new e) x0 k"
| "run_syscall test e Sys_execve x0 x1 x2 k = sys_execve e k"
| "run_syscall test e Sys_exit x0 x1 x2 k = sys_exit k"
| "run_syscall test e Sys_exit_group x0 x1 x2 k = sys_exit k"
| "run_syscall test e Sys_nanosleep x0 x1 x2 k = ksys_nanosleep e x0 k"
| "run_syscall test e Sys_getpid x0 x1 x2 k = sys_getpid k"
| "run_syscall test e Sys_getppid x0 x1 x2 k = sys_getppid k"
| "run_syscall test e Sys_getc x0 x1 x2 k = sys_getc e k"
| "run_syscall test e Sys_pipe2 x0 x1 x2 k = sys_pipe2 k"
| "run_syscall test e Sys_fork x0 x1 x2 k = sys_fork e k"
| "run_syscall test e Sys_test_mutex x0 x1 x2 k = test k"
| "run_syscall test e Sys_waitid x0 x1 x2 k = call_waitid x0 k"
| "run_syscall test e _ x0 x1 x2 k = sys_nop k"

definition handle_syscall :: "(ksys \<Rightarrow> call_result) \<Rightarrow> env \<Rightarrow> u64 \<Rightarrow> u64 \<Rightarrow> u64 \<Rightarrow> u64 \<Rightarrow> ksys \<Rightarrow> call_result" where
  "handle_syscall test e x0 x1 x2 syscall_number k =
     (let n = unat syscall_number
      in if SYS_MAX < n then Inr (Ret (- ENOSYS), k)
         else if SYS_MAX \<le> n then Inl WildAccess
         else case syscall_table n of
                Some f \<Rightarrow> run_syscall test e f x0 x1 x2 k
              | None \<Rightarrow> Inr (Ret (- 1), k))"

section \<open>Memory calls\<close>

definition writable_executable :: "vma \<Rightarrow> bool" where
  "writable_executable v \<longleftrightarrow> permissions v AND VMA_WRITE \<noteq> 0 \<and> permissions v AND VMA_EXEC \<noteq> 0"

lemma perm_bits: "(x :: 'a::len word) AND 2 \<noteq> 0 \<longleftrightarrow> bit x 1" "x AND 4 \<noteq> 0 \<longleftrightarrow> bit x 2" "x AND 8 \<noteq> 0 \<longleftrightarrow> bit x 3"
  using and_exp_eq_0_iff_not_bit [of x 1] and_exp_eq_0_iff_not_bit [of x 2] and_exp_eq_0_iff_not_bit [of x 3] by simp_all

lemma mmap_not_wx: "\<not> writable_executable \<lparr>vma_start = a, vma_end = b, permissions = ucast (mmap_permissions prot)\<rparr>"
proof -
  have "\<not> (bit (mmap_permissions prot) 1 \<and> bit (mmap_permissions prot) 2)"
    unfolding mmap_permissions_def Let_def perm_bits by (simp add: bit_simps bit_1_iff bit_numeral_rec)
  then show ?thesis by (auto simp: writable_executable_def perm_bits bit_simps)
qed

lemma brk_not_wx: "\<not> writable_executable \<lparr>vma_start = a, vma_end = b, permissions = VMA_USER OR VMA_READ OR VMA_WRITE\<rparr>"
  by (simp add: writable_executable_def)

lemma last_area_fold:
  "fold (\<lambda>v found. if vma_start (s_vma k v) < addr \<and> addr < vma_end (s_vma k v) then v else found) vs f \<in> insert f (set vs) \<and>
   ((\<forall>v\<in>set vs. \<not> (vma_start (s_vma k v) < addr \<and> addr < vma_end (s_vma k v))) \<longrightarrow>
     fold (\<lambda>v found. if vma_start (s_vma k v) < addr \<and> addr < vma_end (s_vma k v) then v else found) vs f = f)"
  by (induction vs arbitrary: f) auto

lemma last_area_cases: "last_area addr vs k \<in> insert 0 (set vs)"
  "\<forall>v\<in>set vs. \<not> (vma_start (s_vma k v) < addr \<and> addr < vma_end (s_vma k v)) \<Longrightarrow> last_area addr vs k = 0"
  using last_area_fold [of k addr vs 0] by (simp_all add: last_area_def)

text \<open>The current process's areas, and a later state in which only its heap has grown.\<close>

abbreviation areas :: "ksys \<Rightarrow> ptr list" where "areas k \<equiv> s_vmas k (get_current k)"

abbreviation heap_area :: "ksys \<Rightarrow> ptr" where "heap_area k \<equiv> heap_vma (kpcb k (get_current k))"

definition mem_inv :: "ksys \<Rightarrow> bool" where
  "mem_inv k \<longleftrightarrow> distinct (areas k) \<and> 0 \<notin> set (areas k) \<and> heap_area k \<in> insert 0 (set (areas k)) \<and>
     (\<forall>v\<in>set (areas k). \<not> writable_executable (s_vma k v))"

definition grown :: "ksys \<Rightarrow> ksys \<Rightarrow> bool" where
  "grown k k' \<longleftrightarrow> get_current k' = get_current k \<and> (heap_area k \<noteq> 0 \<longrightarrow> heap_area k' = heap_area k) \<and>
     (\<forall>q. q \<noteq> get_current k \<longrightarrow> s_vmas k' q = s_vmas k q) \<and>
     (\<forall>v\<in>set (areas k). v \<in> set (areas k') \<and> vma_start (s_vma k' v) = vma_start (s_vma k v) \<and>
        permissions (s_vma k' v) = permissions (s_vma k v) \<and> vma_end (s_vma k v) \<le> vma_end (s_vma k' v) \<and>
        (v \<noteq> heap_area k \<longrightarrow> s_vma k' v = s_vma k v))"

inductive mem_step :: "ksys \<Rightarrow> ksys \<Rightarrow> bool" where
  mmap: "new \<notin> set (areas k) \<Longrightarrow> sys_mmap new addr len prot k = Inr (r, k') \<Longrightarrow> mem_step k k'"
| brk: "new \<notin> set (areas k) \<Longrightarrow> sys_brk new addr k = Inr (r, k') \<Longrightarrow> mem_step k k'"

lemma grown_heap: "grown k k' \<Longrightarrow> heap_area k \<noteq> 0 \<Longrightarrow> heap_area k' = heap_area k"
  unfolding grown_def by blast

lemma grown_area:
  "grown k k' \<Longrightarrow> v \<in> set (areas k) \<Longrightarrow> v \<in> set (areas k') \<and> vma_start (s_vma k' v) = vma_start (s_vma k v) \<and>
    permissions (s_vma k' v) = permissions (s_vma k v) \<and> vma_end (s_vma k v) \<le> vma_end (s_vma k' v) \<and>
    (v \<noteq> heap_area k \<longrightarrow> s_vma k' v = s_vma k v)"
  unfolding grown_def by blast

lemma grown_refl: "grown k k"
  by (simp add: grown_def)

lemma grown_add:
  assumes "mem_inv k" "n \<notin> set (areas k)"
  shows "grown k (put_vma n v (get_current k) k)"
  using assms by (auto simp: grown_def mem_inv_def)

lemma mmap_cases:
  assumes "sys_mmap new addr len prot k = Inr (r, k')"
  obtains (found) "k' = k" "last_area addr (areas k) k \<noteq> 0" "r = Ret (vma_start (s_vma k (last_area addr (areas k) k)))"
  | (new) "new \<noteq> 0" "r = Ret (ALIGN_DOWN addr 0x1000)" "k' = put_vma new \<lparr>vma_start = ALIGN_DOWN addr 0x1000,
        vma_end = ALIGN_UP (addr + len) 0x1000, permissions = ucast (mmap_permissions prot)\<rparr> (get_current k) k"
  using assms by (auto simp: sys_mmap_def Let_def split: if_splits)

lemma brk_cases:
  assumes "sys_brk new addr k = Inr (r, k')"
  obtains (first) "heap_area k = 0" "new \<noteq> 0" "r = Ret (brk (kpcb k (get_current k)))"
      "k' = set_kpcb (get_current k) (\<lambda>c. c\<lparr>heap_vma := new\<rparr>) (put_vma new \<lparr>vma_start = start_brk (kpcb k (get_current k)),
         vma_end = brk (kpcb k (get_current k)), permissions = VMA_USER OR VMA_READ OR VMA_WRITE\<rparr> (get_current k) k)"
  | (keep) "heap_area k \<noteq> 0" "k' = k" "r = Ret (vma_end (s_vma k (heap_area k)))"
  | (grow) "heap_area k \<noteq> 0" "vma_end (s_vma k (heap_area k)) \<le> ALIGN_UP addr 0x1000" "r = Ret (ALIGN_UP addr 0x1000)"
      "\<not> brk_blocked (ALIGN_UP addr 0x1000) (heap_area k) (areas k) k"
      "k' = k\<lparr>s_vma := (s_vma k)(heap_area k := (s_vma k (heap_area k))\<lparr>vma_end := ALIGN_UP addr 0x1000\<rparr>)\<rparr>"
  using assms by (auto simp: sys_brk_def Let_def not_less split: if_splits)

lemma mem_step_inv:
  assumes s: "mem_step k k'" and i: "mem_inv k"
  shows "mem_inv k' \<and> grown k k'"
  using s
proof cases
  case (mmap new addr len prot r)
  from mmap(2) show ?thesis
  proof (cases rule: mmap_cases)
    case found
    then show ?thesis using i grown_refl by simp
  next
    case new
    then show ?thesis using i mmap(1) mmap_not_wx grown_add [OF i mmap(1)] by (auto simp: mem_inv_def)
  qed
next
  case (brk new addr r)
  from brk(2) show ?thesis
  proof (cases rule: brk_cases)
    case first
    have "mem_inv k'" unfolding first(4) using i brk(1) first(2) brk_not_wx by (auto simp: mem_inv_def)
    moreover have "grown k k'" unfolding first(4) using first(1) brk(1) by (auto simp: grown_def)
    ultimately show ?thesis by blast
  next
    case keep
    then show ?thesis using i grown_refl by simp
  next
    case grow
    have "mem_inv k'" unfolding grow(5) using i by (auto simp: mem_inv_def writable_executable_def)
    moreover have "grown k k'" unfolding grow(5) using grow(2) by (auto simp: grown_def)
    ultimately show ?thesis by blast
  qed
qed

lemma grown_trans:
  assumes a: "grown a b" and b: "grown b c" and h: "heap_area a \<in> insert 0 (set (areas a))" "0 \<notin> set (areas a)"
    and f: "heap_area a = 0 \<longrightarrow> heap_area b \<notin> set (areas a)"
  shows "grown a c"
proof -
  have bc: "get_current b = get_current a" "get_current c = get_current a" using a b by (simp_all add: grown_def)
  have hb: "v \<noteq> heap_area b" if "v \<in> set (areas a)" "v \<noteq> heap_area a" for v
    using a that f by (cases "heap_area a = 0") (auto simp: grown_def)
  show ?thesis
    unfolding grown_def
  proof (intro conjI ballI allI impI)
    show "heap_area c = heap_area a" if "heap_area a \<noteq> 0"
      using grown_heap [OF a that] grown_heap [OF b] that by metis
    show "s_vmas c q = s_vmas a q" if "q \<noteq> get_current a" for q using a b that bc by (simp add: grown_def)
    fix v assume v: "v \<in> set (areas a)"
    note av = grown_area [OF a v] and bv = grown_area [OF b, of v]
    show "v \<in> set (areas c)" "vma_start (s_vma c v) = vma_start (s_vma a v)" "permissions (s_vma c v) = permissions (s_vma a v)"
      using av bv by (simp_all only: simp_thms)
    show "vma_end (s_vma a v) \<le> vma_end (s_vma c v)" using av bv by (meson order_trans)
    show "s_vma c v = s_vma a v" if "v \<noteq> heap_area a" using av bv that hb [OF v that] by metis
  qed (use bc in simp)
qed

lemma first_heap_fresh:
  assumes s: "mem_step k k'" and z: "heap_area k = 0" and n: "0 \<notin> set (areas k)"
  shows "heap_area k' = 0 \<or> heap_area k' \<notin> set (areas k)"
  using s
proof cases
  case (mmap new addr len prot r)
  from mmap(2) show ?thesis using z by (cases rule: mmap_cases) simp_all
next
  case (brk new addr r)
  from brk(2) show ?thesis using z brk(1) by (cases rule: brk_cases) simp_all
qed

lemma mem_run_inv:
  assumes "mem_step\<^sup>*\<^sup>* k k'" and i: "mem_inv k"
  shows "mem_inv k' \<and> grown k k' \<and> (heap_area k = 0 \<longrightarrow> heap_area k' \<notin> set (areas k))"
  using assms(1)
proof (induction rule: rtranclp_induct)
  case base
  then show ?case using i grown_refl by (simp add: mem_inv_def)
next
  case (step y z)
  then have y: "mem_inv y" "grown k y" "heap_area k = 0 \<longrightarrow> heap_area y \<notin> set (areas k)" by auto
  note s = mem_step_inv [OF step.hyps(2) y(1)]
  have h: "heap_area k \<in> insert 0 (set (areas k))" "0 \<notin> set (areas k)" using i by (simp_all add: mem_inv_def)
  have "grown k z" by (rule grown_trans [OF y(2) _ h]) (use s y(3) in auto)
  moreover have "heap_area z \<notin> set (areas k)" if hk: "heap_area k = 0"
  proof (cases "heap_area y = 0")
    case True
    have "set (areas k) \<subseteq> set (areas y)" using y(2) by (auto simp: grown_def)
    then show ?thesis using first_heap_fresh [OF step.hyps(2) True] y(1) h(2) by (auto simp: mem_inv_def)
  next
    case False
    then have "heap_area z = heap_area y" using s grown_heap by blast
    then show ?thesis using y(3) hk by simp
  qed
  ultimately show ?case using s by blast
qed

section \<open>Properties of the memory calls\<close>

text \<open>A process with two areas and no heap yet.\<close>

definition demo_ksys :: ksys where
  "demo_ksys = \<lparr>s_irq = demo_irq_sys, s_vm = demo_vm,
     s_vma = (\<lambda>_. \<lparr>vma_start = 0x400000, vma_end = 0x401000, permissions = 5\<rparr>), s_vmas = (\<lambda>_. [7]),
     s_children = (\<lambda>_. []), s_files = (\<lambda>_. None)\<rparr>"

lemma demo_ksys_current: "get_current demo_ksys = 1" "heap_vma (kpcb demo_ksys 1) = 0"
  by (simp_all add: demo_ksys_def demo_irq_sys_def demo_tsys_def add_to_schedule_def demo_sched_def blank_pcb_def Let_def)

lemma demo_ksys_inv: "mem_inv demo_ksys"
  unfolding mem_inv_def demo_ksys_current by (simp add: writable_executable_def) (simp add: demo_ksys_def)

text \<open>
  C29. Memory calls only add areas and grow the heap. In every run of \<open>mmap\<close> and \<open>brk\<close> requests of a
  process, with arbitrary arguments, each area that existed keeps its start, its permissions and
  all its addresses, and only the heap's end moves; the areas of other processes are untouched,
  the list never holds an area twice, and no area is ever both writable and executable.
\<close>

theorem memory_calls_safe:
  assumes "mem_step\<^sup>*\<^sup>* k k'" and "mem_inv k"
  shows "mem_inv k' \<and> grown k k' \<and> (\<forall>v\<in>set (areas k'). \<not> writable_executable (s_vma k' v))"
  using mem_run_inv [OF assms] by (simp add: mem_inv_def)

theorem memory_calls_safe_witness:
  "\<exists>k'. mem_step\<^sup>*\<^sup>* demo_ksys k' \<and> mem_inv k' \<and> grown demo_ksys k' \<and> areas k' = [8, 7]"
proof -
  let ?k = "put_vma 8 \<lparr>vma_start = 0x600000, vma_end = 0x602000, permissions = 3\<rparr> 1 demo_ksys"
  have "sys_mmap 8 0x600000 0x1800 7 demo_ksys = Inr (Ret 0x600000, ?k)"
    unfolding sys_mmap_def demo_ksys_current Let_def
    by (simp add: last_area_def demo_ksys_def ALIGN_DOWN_def ALIGN_UP_def mmap_permissions_def)
  then have s: "mem_step\<^sup>*\<^sup>* demo_ksys ?k"
    by (intro r_into_rtranclp mem_step.mmap [where new = 8]) (simp_all add: demo_ksys_def)
  have c: "get_current ?k = 1" using demo_ksys_current by simp
  have a: "areas ?k = [8, 7]" unfolding c by (simp add: demo_ksys_def)
  from memory_calls_safe [OF s demo_ksys_inv] s a show ?thesis by blast
qed

text \<open>
  What \<open>mmap\<close> creates. Where no area of the process strictly contains the address, the call adds one area
  at the front, from the page of the address on, and returns its start; unless the end wraps around,
  the area covers every requested byte.
\<close>

theorem mmap_covers:
  assumes "\<forall>v\<in>set (areas k). \<not> (vma_start (s_vma k v) < addr \<and> addr < vma_end (s_vma k v))" and "new \<noteq> 0"
    and "unat addr + unat len + 0xFFF < 2 ^ 64"
  shows "\<exists>k'. sys_mmap new addr len prot k = Inr (Ret (ALIGN_DOWN addr 0x1000), k') \<and> areas k' = new # areas k \<and>
    (\<forall>a. unat addr \<le> unat a \<and> unat a < unat addr + unat len \<longrightarrow>
       vma_start (s_vma k' new) \<le> a \<and> a < vma_end (s_vma k' new))"
proof -
  let ?v = "\<lparr>vma_start = ALIGN_DOWN addr 0x1000, vma_end = ALIGN_UP (addr + len) 0x1000,
    permissions = ucast (mmap_permissions prot)\<rparr>"
  let ?k = "put_vma new ?v (get_current k) k"
  have "sys_mmap new addr len prot k = Inr (Ret (ALIGN_DOWN addr 0x1000), ?k)"
    using last_area_cases(2) [OF assms(1)] assms(2) by (simp add: sys_mmap_def Let_def)
  moreover have "get_current ?k = get_current k" "areas ?k = new # areas k" by simp_all
  moreover have "ALIGN_DOWN addr 0x1000 \<le> a \<and> a < ALIGN_UP (addr + len) 0x1000"
    if a: "unat addr \<le> unat a" "unat a < unat addr + unat len" for a
  proof -
    have m: "(0x1000 :: u64) = 2 ^ 12" by simp
    have s: "unat (addr + len) = unat addr + unat len" using assms(3) by (simp add: unat_add_lem [THEN iffD1])
    have "unat (ALIGN_DOWN addr 0x1000) \<le> unat a"
      unfolding m using unat_ALIGN_DOWN [where n = 12 and x = addr] div_times_less_eq_dividend [of "unat addr" "2 ^ 12"] a(1) by simp
    moreover have "unat a < unat (ALIGN_UP (addr + len) 0x1000)"
      unfolding m using unat_ALIGN_UP [where n = 12 and x = "addr + len"] s assms(3) a(2) by simp
    ultimately show ?thesis by (simp add: word_le_nat_alt word_less_nat_alt)
  qed
  ultimately show ?thesis by auto
qed

theorem mmap_covers_witness:
  "\<exists>k'. sys_mmap 8 0x600010 0x20 1 demo_ksys = Inr (Ret (ALIGN_DOWN 0x600010 0x1000), k') \<and> areas k' = 8 # areas demo_ksys"
proof -
  have n: "\<forall>v\<in>set (areas demo_ksys). \<not> (vma_start (s_vma demo_ksys v) < 0x600010 \<and> 0x600010 < vma_end (s_vma demo_ksys v))"
    by (simp add: demo_ksys_def)
  from mmap_covers [OF n, of 8 "0x20" 1] show ?thesis by auto
qed

text \<open>
  Areas overlap. The search of \<open>mmap\<close> misses an area that starts at the requested address: asked
  twice for the same page-aligned address, it creates two areas with the same start, whatever their
  permissions.
\<close>

lemma ALIGN_DOWN_idem: "addr AND 0xFFF = 0 \<Longrightarrow> ALIGN_DOWN addr 0x1000 = addr"
proof -
  assume a: "addr AND 0xFFF = 0"
  have m: "(0x1000 - 1 :: u64) = 0xFFF" by simp
  have "addr = (addr AND 0xFFF) OR (addr AND NOT 0xFFF)" by (rule bit_word_eqI) (auto simp: bit_simps)
  then show ?thesis using a unfolding ALIGN_DOWN_def m by simp
qed

theorem areas_overlap:
  assumes "addr AND 0xFFF = 0" and "n1 \<noteq> 0" and "n2 \<noteq> 0" and "areas k = []"
  shows "\<exists>k1 k2. sys_mmap n1 addr len p1 k = Inr (Ret addr, k1) \<and> sys_mmap n2 addr len p2 k1 = Inr (Ret addr, k2) \<and>
    areas k2 = [n2, n1] \<and> vma_start (s_vma k2 n2) = addr \<and> vma_start (s_vma k2 n1) = addr"
proof -
  let ?v = "\<lambda>p. \<lparr>vma_start = addr, vma_end = ALIGN_UP (addr + len) 0x1000, permissions = ucast (mmap_permissions p)\<rparr>"
  let ?k1 = "put_vma n1 (?v p1) (get_current k) k"
  let ?k2 = "put_vma n2 (?v p2) (get_current k) ?k1"
  note al = ALIGN_DOWN_idem [OF assms(1)]
  have "sys_mmap n1 addr len p1 k = Inr (Ret addr, ?k1)"
    using assms(2,4) al by (simp add: sys_mmap_def Let_def last_area_def)
  moreover have "sys_mmap n2 addr len p2 ?k1 = Inr (Ret addr, ?k2)"
    using assms(3,4) al by (simp add: sys_mmap_def Let_def last_area_def)
  moreover have "areas ?k2 = [n2, n1]" using assms(4) by simp
  ultimately show ?thesis by auto
qed

theorem areas_overlap_witness:
  "\<exists>k1 k2. sys_mmap 8 0x600000 0x1000 1 (demo_ksys\<lparr>s_vmas := (\<lambda>_. [])\<rparr>) = Inr (Ret 0x600000, k1) \<and>
    sys_mmap 9 0x600000 0x1000 2 k1 = Inr (Ret 0x600000, k2) \<and> areas k2 = [9, 8]"
  using areas_overlap [of "0x600000" 8 9 "demo_ksys\<lparr>s_vmas := (\<lambda>_. [])\<rparr>" "0x1000" 1 2] by auto

text \<open>
  What \<open>brk\<close> does. With a heap, the call returns the heap's end afterwards; it moves the end to the
  requested address rounded up to a page, unless that is below the present end or strictly inside
  another area. The first call of a process creates the heap and returns its initial end whatever
  address was asked for.
\<close>

theorem brk_result:
  assumes "heap_area k \<noteq> 0 \<or> new \<noteq> 0"
  shows "\<exists>k' e. sys_brk new addr k = Inr (Ret e, k') \<and> heap_area k' \<noteq> 0 \<and> e = vma_end (s_vma k' (heap_area k')) \<and>
    (heap_area k = 0 \<longrightarrow> heap_area k' = new \<and> e = brk (kpcb k (get_current k))) \<and>
    (heap_area k \<noteq> 0 \<longrightarrow> heap_area k' = heap_area k \<and> areas k' = areas k \<and>
       e = (if vma_end (s_vma k (heap_area k)) \<le> ALIGN_UP addr 0x1000 \<and>
              \<not> brk_blocked (ALIGN_UP addr 0x1000) (heap_area k) (areas k) k
            then ALIGN_UP addr 0x1000 else vma_end (s_vma k (heap_area k))))"
proof (cases "heap_area k = 0")
  case True
  then show ?thesis using assms by (simp add: sys_brk_def Let_def)
next
  case False
  then show ?thesis by (auto simp: sys_brk_def Let_def not_le)
qed

theorem brk_result_witness:
  "\<exists>k' e. sys_brk 8 0x700000 demo_ksys = Inr (Ret e, k') \<and> heap_area k' = 8"
proof -
  have "heap_area demo_ksys = 0" unfolding demo_ksys_current ..
  then show ?thesis using brk_result [of demo_ksys 8 "0x700000"] by auto
qed

section \<open>Fork\<close>

lemma fork_spec:
  assumes f: "sys_fork e k = Inr (r, k')" and p: "e_new e \<noteq> get_current k" and new: "distinct (e_vmas e)"
    "set (e_vmas e) \<inter> set (areas k) = {}"
  shows "e_new e \<noteq> 0 \<and> r = Ret (scast (sc_pidcounter (ksched k) + 1)) \<and> get_current k' = get_current k \<and>
    (\<exists>l0 ks. kpcb k' (e_new e) = (kpcb k (get_current k))\<lparr>pid := sc_pidcounter (ksched k) + 1, parent := get_current k,
        ttbr := l0, kernel_stack := ks, pstate := PROCESS_READY\<rparr> \<and>
      vm_mem (s_vm k') (va_to_pa (ks + 8)) = e_ret_from_fork e \<and> vm_mem (s_vm k') (va_to_pa (ks + 96)) = 0) \<and>
    map (s_vma k') (s_vmas k' (e_new e)) = map (s_vma k) (areas k) \<and>
    (\<forall>q. q \<noteq> e_new e \<longrightarrow> kpcb k' q = kpcb k q \<and> s_vmas k' q = s_vmas k q) \<and>
    s_children k' (get_current k) = e_new e # s_children k (get_current k) \<and>
    sc_runqueue (ksched k') = list_add (Node (e_new e)) Head (sc_runqueue (ksched k)) \<and>
    set (s_vmas k' (e_new e)) \<subseteq> set (e_vmas e)"
proof -
  let ?p = "e_new e" and ?c = "get_current k"
  from f obtain k1 where c: "clone_active_proc (e_pfa e) (e_ret_from_fork e) (e_sp e) ?p (e_vmas e) k = Inr k1"
    by (auto simp: sys_fork_def bindR_eq_Inr Let_def)
  note s = clone_active_proc_spec [OF c p new]
  let ?k2 = "put_sched (add_to_schedule ?p (ksched k1)) k1"
  have k': "k' = ?k2\<lparr>s_children := (s_children ?k2)(?c := ?p # s_children ?k2 ?c)\<rparr>" "r = Ret (scast (pid (kpcb ?k2 ?p)))"
    using f c by (auto simp: sys_fork_def Let_def)
  have a: "sc_pcbs (add_to_schedule q sc) = (sc_pcbs sc)(q := (sc_pcbs sc q)\<lparr>pstate := PROCESS_READY\<rparr>)"
    "sc_current (add_to_schedule q sc) = sc_current sc"
    "sc_runqueue (add_to_schedule q sc) = list_add (Node q) Head (sc_runqueue sc)" for q sc
    by (simp_all add: add_to_schedule_def Let_def)
  have sel: "ksched (x\<lparr>s_children := v\<rparr>) = ksched x" for x :: ksys and v by simp
  from s(1) obtain l0 ks where l: "kpcb k1 ?p = (kpcb k ?c)\<lparr>pid := sc_pidcounter (ksched k) + 1, parent := ?c,
      ttbr := l0, kernel_stack := ks\<rparr>" "vm_mem (s_vm k1) (va_to_pa (ks + 8)) = e_ret_from_fork e"
      "vm_mem (s_vm k1) (va_to_pa (ks + 96)) = 0" "?p \<noteq> 0" by blast
  have "get_current k' = ?c" by (simp add: k'(1) a s(7))
  moreover have "r = Ret (scast (sc_pidcounter (ksched k) + 1))" by (simp add: k'(2) a l(1))
  moreover have "\<exists>l0 ks. kpcb k' ?p = (kpcb k ?c)\<lparr>pid := sc_pidcounter (ksched k) + 1, parent := ?c,
        ttbr := l0, kernel_stack := ks, pstate := PROCESS_READY\<rparr> \<and>
      vm_mem (s_vm k') (va_to_pa (ks + 8)) = e_ret_from_fork e \<and> vm_mem (s_vm k') (va_to_pa (ks + 96)) = 0"
    using l by (intro exI [of _ l0] exI [of _ ks]) (simp add: k'(1) a)
  moreover have "kpcb k' q = kpcb k q \<and> s_vmas k' q = s_vmas k q" if "q \<noteq> ?p" for q
    using s(2) [OF that] that by (simp add: k'(1) a)
  moreover have "map (s_vma k') (s_vmas k' ?p) = map (s_vma k) (areas k)" using s(3) by (simp add: k'(1))
  moreover have "s_children k' ?c = ?p # s_children k ?c" using s(2) [of ?c] p by (simp add: k'(1))
  moreover have "sc_runqueue (ksched k') = list_add (Node ?p) Head (sc_runqueue (ksched k))" by (simp add: k'(1) a s(8))
  moreover have "set (s_vmas k' ?p) \<subseteq> set (e_vmas e)" using s(10) by (simp add: k'(1))
  ultimately show ?thesis using l(4) by blast
qed

text \<open>A kernel stack: two pages, of which the upper one holds the frames.\<close>

lemma order_for_two: "order_for 0x2000 k \<Longrightarrow> k = 1"
  by (erule order_for_unique) (use order_for_exp [of 1] in simp)

lemma kstack_spec:
  assumes inv: "pt_inv R k roots st" and b: "has_block R 1 (vm_buddy st)"
  shows "\<exists>p b. initialize_proc_kstack st = Inr (page_addr p + 0x2000 - 0x10, st\<lparr>vm_buddy := b\<rparr>) \<and>
    got_block R 1 p (vm_buddy st) b \<and> pt_inv R k roots (st\<lparr>vm_buddy := b\<rparr>) \<and> R \<le> p \<and> p + 2 \<le> NPAGES"
proof -
  note iv = pt_invD [OF inv]
  have u: "unat (0x2000 :: u64) \<le> 2 ^ 43" by simp
  from buddy_alloc_cases [OF iv(1) u] obtain p b where
    p: "buddy_alloc 0x2000 (vm_buddy st) = Inr (page_addr p, b)" "got_block R 1 p (vm_buddy st) b"
  proof cases
    case (1 l p b)
    then show thesis using that order_for_two [of l] by simp
  next
    case (2 l)
    then show thesis using b order_for_two [of l] by simp
  qed
  note g = got_blockD [OF p(2)]
  have lv: "(p, 1) \<in> live_blocks R b" using g(3) by simp
  have wf: "buddy_wf R b" using g(2) by (simp add: buddy_ok_def)
  have bd: "R \<le> p" "p + 2 \<le> NPAGES" using live_blocks_bounds [OF wf lv] by simp_all
  have inv': "pt_inv R k roots (st\<lparr>vm_buddy := b\<rparr>)"
  proof (rule pt_inv_buddy [OF inv g(2)])
    fix n assume "n \<in> table_pages st roots"
    then have "owned R (vm_buddy st) n" by (rule table_pages_owned [OF inv])
    then show "owned R b n" by (auto simp: owned_def g(3))
  qed
  have "vm_map (page_addr p + 0x1000) pa 0 fl (vm_l0 st) (st\<lparr>vm_buddy := b\<rparr>) = Inr (st\<lparr>vm_buddy := b\<rparr>)" for pa fl
    using vm_map_managed [OF inv', of "Suc p" 0] bd iv(4) by (simp add: page_addr_Suc)
  then have "initialize_proc_kstack st = Inr (page_addr p + 0x2000 - 0x10, st\<lparr>vm_buddy := b\<rparr>)"
    using p(1) by (simp add: initialize_proc_kstack_def)
  then show ?thesis using p(2) bd inv' by blast
qed

lemma clone_entries_skip: "(\<And>i. i \<in> set js \<Longrightarrow> f i c st = Inr (c, st)) \<Longrightarrow> clone_entries f js c st = Inr (c, st)"
  by (induction js) auto

lemma entry_index: "i \<in> set entry_indices \<Longrightarrow> i < 512"
  by (auto simp: entry_indices_def word_less_nat_alt unsigned_of_nat take_bit_nat_eq_self)

lemma clone_empty:
  assumes inv: "pt_inv R k roots st" and r: "r < 2 ^ 18" "r \<notin> of_nat ` free_pages R (vm_buddy st)"
    and e: "\<And>i. i < 512 \<Longrightarrow> \<not> pte_valid (vm_mem st (slot r i))" and sup: "0 < card (free_pages R (vm_buddy st))"
  shows "\<exists>p b m. clone_virtual_memory pfa (table_va r) st = Inr (page_addr p, st\<lparr>vm_buddy := b, vm_mem := m\<rparr>)"
proof -
  from buddy_alloc_pt_inv [OF inv sup, of NPAGES] obtain p b where
    p: "buddy_alloc_pt pt_fuel st = Inr (page_addr p, st\<lparr>vm_buddy := b, vm_mem := zero_page (of_nat p) (vm_mem st)\<rparr>)"
      "p \<in> free_pages R (vm_buddy st)" unfolding pt_fuel_def by blast
  let ?st = "st\<lparr>vm_buddy := b, vm_mem := zero_page (of_nat p) (vm_mem st)\<rparr>"
  have "r \<noteq> of_nat p" using r(2) p(2) by blast
  then have "clone_root_entry pfa (table_va r) i (page_addr p) ?st = Inr (page_addr p, ?st)" if "i < 512" for i
    using e [OF that] by (simp add: clone_root_entry_def rd64_slot [OF r(1) that] zero_page_slot [OF r(1) that])
  then have "clone_entries (clone_root_entry pfa (table_va r)) entry_indices (page_addr p) ?st = Inr (page_addr p, ?st)"
    using entry_index by (intro clone_entries_skip) blast
  then show ?thesis using p(1) by (auto simp: clone_virtual_memory_def)
qed

lemma page_offset_in_ram: "p + 2 \<le> NPAGES \<Longrightarrow> unat c < 0x2000 \<Longrightarrow> in_ram (va_to_pa (page_addr p + c))"
proof -
  assume p: "p + 2 \<le> NPAGES" and c: "unat c < 0x2000"
  have v: "va_to_pa (page_addr p + c) = push_bit 12 (of_nat p) + c" by (simp add: va_to_pa_def page_addr_def pa_to_va_def)
  have "unat (push_bit 12 (of_nat p) :: u64) = p * 4096"
    using p by (simp add: push_bit_eq_mult unat_word_ariths unsigned_of_nat take_bit_nat_eq_self NPAGES_def)
  then have "unat (push_bit 12 (of_nat p) + c) = p * 4096 + unat c"
    using p c by (subst unat_add_lem [THEN iffD1]) (simp_all add: NPAGES_def)
  then show ?thesis unfolding v using p c by (simp add: in_ram_def word_less_nat_alt NPAGES_def)
qed

lemma zero_words_ok: "(\<And>i. i < n \<Longrightarrow> in_ram (va_to_pa (a + 8 * of_nat i))) \<Longrightarrow> \<exists>st'. zero_words n a st = Inr st'"
proof (induction n arbitrary: a st)
  case (Suc n)
  have "in_ram (va_to_pa a)" using Suc.prems [of 0] by simp
  moreover have "in_ram (va_to_pa (a + 8 + 8 * of_nat i))" if "i < n" for i
    using Suc.prems [of "Suc i"] that by (simp add: algebra_simps)
  ultimately show ?case using Suc.IH [of "a + 8"] by (simp add: wr64_def)
qed simp

text \<open>The free memory of the example machine is one block of four pages.\<close>

lemma init_block_4: "i \<noteq> 2 \<Longrightarrow> init_block 4 i (Inr (c, st)) = Inr (c, st)"
proof -
  assume i: "i \<noteq> 2"
  have "(4 :: nat) = 2 ^ 2" by simp
  then have "\<not> bit (4 :: nat) i" using i by (simp only: bit_exp_iff) simp
  then show ?thesis by (simp add: init_block_def)
qed

lemma demo_block: "has_block demo_R 1 demo_buddy"
proof -
  define s2 where "s2 = for_range 0 demo_R (\<lambda>i. set_frame (0 + i) (\<lambda>f. f\<lparr>pf_state := PAGE_RESERVED\<rparr>))
    (set_links zero_links ((set_links (\<lambda>L. fold (\<lambda>k. INIT_LIST_HEAD (BuddyList k)) [0..<Suc MAX_ORDER] L) blank_buddy)
       \<lparr>frame_metadata := (\<lambda>p. if p < NPAGES then zero_frame else frame_metadata blank_buddy p)\<rparr>))"
  have b4: "bit (4 :: nat) 2" "demo_R + 2 ^ 2 \<le> NPAGES" by (simp_all add: NPAGES_def bit_iff_odd)
  from init_block_eq [OF b4, of s2] obtain s where
    s: "init_block 4 2 (Inr (demo_R, s2)) = Inr (demo_R + 2 ^ 2, s)"
      "frame_metadata s demo_R = (frame_metadata s2 demo_R)\<lparr>pf_order := 2, pf_state := PAGE_FREE, pf_flags := PAGE_BUDDY_HEAD\<rparr>"
    by blast
  have l: "rev [0..<Suc MAX_ORDER] = rev [3..<Suc MAX_ORDER] @ [2, 1, 0]" by (simp add: MAX_ORDER_def upt_rec)
  have sk: "(\<And>i. i \<in> set is \<Longrightarrow> i \<noteq> 2) \<Longrightarrow> fold (init_block 4) is (Inr (c, st)) = Inr (c, st)" for "is" c st
    by (induction "is") (simp_all add: init_block_4)
  have "fold (init_block 4) (rev [0..<Suc MAX_ORDER]) (Inr (demo_R, s2)) = Inr (demo_R + 2 ^ 2, s)"
    unfolding l fold_append o_apply by (subst sk) (auto simp: s(1) init_block_4)
  then have "initialize_page_frame_array 0x3FFFC000 blank_buddy = Inr (demo_R, s)"
    unfolding initialize_page_frame_array_def initialize_buddy_allocator_def Let_def s2_def set_links_sel(1)
    by (simp add: NPAGES_def del: upt_Suc)
  then have "demo_buddy = s" by (simp add: demo_buddy_def)
  then have "demo_R \<in> free_heads demo_R 2 demo_buddy"
    using s(2) by (simp add: free_heads_def heads_def is_head_def NPAGES_def)
  then show ?thesis unfolding has_block_def by (intro exI [of _ 2]) auto
qed

lemma push_context_ok:
  assumes "\<And>i. i < 12 \<Longrightarrow> in_ram (va_to_pa (sp + 8 * of_nat i))"
  shows "\<exists>st'. push_context rff sp st = Inr st'"
proof -
  obtain s1 where "zero_words 12 sp st = Inr s1" using zero_words_ok [OF assms] by blast
  moreover have "in_ram (va_to_pa (sp + 8))" using assms [of 1] by simp
  ultimately show ?thesis by (simp add: push_context_def wr64_def)
qed

lemma copy_page_same: "in_ram (va_to_pa a) \<Longrightarrow> copy_page a a st = Inr st"
proof -
  have e: "b + (c - b) = c" for b c :: u64 by simp
  show "in_ram (va_to_pa a) \<Longrightarrow> copy_page a a st = Inr st" unfolding copy_page_def e by simp
qed

text \<open>
  The example of a fork: the parent has no mapped page, and its stack pointer lies in the block that
  the page allocator hands out.
\<close>

lemma demo_align:
  assumes "demo_R \<le> p" "p + 2 \<le> NPAGES"
  shows "ALIGN_DOWN (page_addr p) 0x1000 = page_addr p" "ALIGN_DOWN (0x1FF0 + page_addr p) 0x1000 = page_addr p + 0x1000"
proof -
  have "p \<in> {262140, 262141, 262142}" using assms by (auto simp: NPAGES_def)
  then show "ALIGN_DOWN (page_addr p) 0x1000 = page_addr p" "ALIGN_DOWN (0x1FF0 + page_addr p) 0x1000 = page_addr p + 0x1000"
    by (auto simp: page_addr_def pa_to_va_def ALIGN_DOWN_def VIRT_BASE_def)
qed

lemma demo_fork_stack:
  obtains p b where "clone_kstack (page_addr p) demo_vm = Inr (page_addr p + 0x2000 - 0x10, demo_vm\<lparr>vm_buddy := b\<rparr>)"
    "pt_inv demo_R 100 {100, 200} (demo_vm\<lparr>vm_buddy := b\<rparr>)" "demo_R \<le> p" "p + 2 \<le> NPAGES"
    "0 < card (free_pages demo_R b)"
proof -
  have hb: "has_block demo_R 1 (vm_buddy demo_vm)" using demo_block by (simp add: demo_vm_def)
  from kstack_spec [OF demo_inv hb] obtain p b where
    k: "initialize_proc_kstack demo_vm = Inr (page_addr p + 0x2000 - 0x10, demo_vm\<lparr>vm_buddy := b\<rparr>)"
      "got_block demo_R 1 p (vm_buddy demo_vm) b" "pt_inv demo_R 100 {100, 200} (demo_vm\<lparr>vm_buddy := b\<rparr>)"
      "demo_R \<le> p" "p + 2 \<le> NPAGES" by blast
  note g = got_blockD [OF k(2)]
  have lv: "live_blocks demo_R b = {(p, 1)}" using g(3) demo_buddy_ok(2) by (simp add: demo_vm_def)
  have pN: "p < NPAGES" using k(5) by simp
  have al: "ALIGN_DOWN (page_addr p) 0x1000 = page_addr p" "ALIGN_DOWN (0x1FF0 + page_addr p) 0x1000 = page_addr p + 0x1000"
    using demo_align [OF k(4,5)] by simp_all
  have "head_from_page (page_addr p) b = Inr (page_addr p)"
    by (rule owner_pfn_live(2) [OF g(2), of p 1]) (use lv pN in simp_all)
  moreover have "in_ram (va_to_pa (page_addr p + 0x1000))" by (rule page_offset_in_ram [OF k(5)]) simp
  ultimately have ck: "clone_kstack (page_addr p) demo_vm = Inr (page_addr p + 0x2000 - 0x10, demo_vm\<lparr>vm_buddy := b\<rparr>)"
    by (simp add: clone_kstack_def k(1) al copy_page_same)
  have "\<exists>n. n \<in> free_pages demo_R b"
  proof (cases "p = demo_R")
    case True
    then have "Suc (Suc p) \<in> free_pages demo_R b" by (simp add: free_pages_def owned_def lv NPAGES_def)
    then show ?thesis ..
  next
    case False
    then have "demo_R \<in> free_pages demo_R b" using k(4) by (simp add: free_pages_def owned_def lv NPAGES_def)
    then show ?thesis ..
  qed
  then have "0 < card (free_pages demo_R b)" using card_gt_0_iff by fastforce
  with ck show thesis using that k(3,4,5) by blast
qed

text \<open>
  C28. The child of a fork. Where \<open>fork\<close> returns, the value is the child's process id; the child's
  control block is a copy of the parent's but for its id, its parent, its page table, its kernel
  stack and its state, which is ready; its areas have the contents of the parent's, in the same
  order, at new addresses; its saved context returns to \<open>ret_from_fork\<close>, where it finds the value
  zero; it is a child of its parent and the last of the run queue. No other control block changes.
\<close>

theorem fork_creates_child:
  assumes "sys_fork e k = Inr (r, k')" and "e_new e \<noteq> get_current k" and "distinct (e_vmas e)"
    and "set (e_vmas e) \<inter> set (areas k) = {}"
  shows "r = Ret (scast (pid (kpcb k' (e_new e)))) \<and> pid (kpcb k' (e_new e)) = sc_pidcounter (ksched k) + 1 \<and>
    (\<exists>l0 ks. kpcb k' (e_new e) = (kpcb k (get_current k))\<lparr>pid := sc_pidcounter (ksched k) + 1, parent := get_current k,
        ttbr := l0, kernel_stack := ks, pstate := PROCESS_READY\<rparr> \<and>
      vm_mem (s_vm k') (va_to_pa (ks + 8)) = e_ret_from_fork e \<and> vm_mem (s_vm k') (va_to_pa (ks + 96)) = 0) \<and>
    map (s_vma k') (s_vmas k' (e_new e)) = map (s_vma k) (areas k) \<and> set (s_vmas k' (e_new e)) \<inter> set (areas k') = {} \<and>
    (\<forall>q. q \<noteq> e_new e \<longrightarrow> kpcb k' q = kpcb k q) \<and>
    s_children k' (get_current k) = e_new e # s_children k (get_current k) \<and>
    sc_runqueue (ksched k') = list_add (Node (e_new e)) Head (sc_runqueue (ksched k))"
proof -
  note f = fork_spec [OF assms]
  then obtain l0 ks where c: "kpcb k' (e_new e) = (kpcb k (get_current k))\<lparr>pid := sc_pidcounter (ksched k) + 1,
      parent := get_current k, ttbr := l0, kernel_stack := ks, pstate := PROCESS_READY\<rparr>" by blast
  then have "pid (kpcb k' (e_new e)) = sc_pidcounter (ksched k) + 1" by simp
  moreover have "areas k' = areas k" using f assms(2) by metis
  ultimately show ?thesis using f assms(4) by auto
qed

definition fork_ksys :: ksys where
  "fork_ksys = set_kpcb 1 (\<lambda>c. c\<lparr>ttbr := table_va 200, heap_vma := 7\<rparr>) demo_ksys"

lemma demo_fork:
  obtains e r k' where "sys_fork e fork_ksys = Inr (r, k')" "e_new e = 2" "e_vmas e = [8]"
proof -
  obtain p b where p: "clone_kstack (page_addr p) demo_vm = Inr (page_addr p + 0x2000 - 0x10, demo_vm\<lparr>vm_buddy := b\<rparr>)"
    "pt_inv demo_R 100 {100, 200} (demo_vm\<lparr>vm_buddy := b\<rparr>)" "demo_R \<le> p" "p + 2 \<le> NPAGES"
    "0 < card (free_pages demo_R b)" by (rule demo_fork_stack)
  have low: "(200 :: u64) \<notin> of_nat ` free_pages demo_R b"
  proof
    assume "200 \<in> (of_nat :: nat \<Rightarrow> u64) ` free_pages demo_R b"
    then obtain n where n: "demo_R \<le> n" "n < NPAGES" "(of_nat n :: u64) = 200"
      by (auto simp: free_pages_def owned_def not_less)
    from n(3) have "unat (of_nat n :: u64) = 200" by simp
    then show False using n(1,2) by (simp add: unsigned_of_nat take_bit_nat_eq_self NPAGES_def)
  qed
  have e: "\<not> pte_valid (vm_mem (demo_vm\<lparr>vm_buddy := b\<rparr>) (slot 200 i))" if "i < 512" for i
    using that by (simp add: demo_vm_def demo_slot)
  from clone_empty [OF p(2), of 200 0] p(5) low e obtain q b' m where
    c: "clone_virtual_memory 0 (table_va 200) (demo_vm\<lparr>vm_buddy := b\<rparr>) =
        Inr (page_addr q, demo_vm\<lparr>vm_buddy := b', vm_mem := m\<rparr>)" by auto
  let ?v = "demo_vm\<lparr>vm_buddy := b', vm_mem := m\<rparr>" and ?sp = "page_addr p + 0x1EE0"
  have w: "\<exists>v. wr64 ?sp 0 ?v = Inr v" using page_offset_in_ram [OF p(4), of "0x1EE0"] by (simp add: wr64_def)
  then obtain v3 where v3: "wr64 ?sp 0 ?v = Inr v3" by blast
  have "in_ram (va_to_pa (?sp - 96 + 8 * of_nat i))" if "i < 12" for i
  proof -
    have "i \<in> {0, 1, 2, 3, 4, 5, 6, 7, 8, 9, 10, 11}" using that by (simp; arith)
    then have "unat (0x1E80 + 8 * of_nat i :: u64) < 0x2000" by auto
    from page_offset_in_ram [OF p(4) this] show ?thesis by (simp add: algebra_simps)
  qed
  from push_context_ok [OF this] obtain v4 where v4: "push_context 0 (?sp - 96) v3 = Inr v4" by blast
  let ?e = "\<lparr>e_new = 2, e_vmas = [8], e_path = [], e_trie = demo_trie, e_open = 0, e_kbd_pipe = 0, e_counter = 0,
    e_rx = 0, e_pfa = 0, e_ret_from_fork = 0, e_sp = page_addr p\<rparr>"
  have cur: "get_current fork_ksys = 1" "s_vmas fork_ksys = (\<lambda>_. [7])" "s_vm fork_ksys = demo_vm" "ttbr (kpcb fork_ksys 1) = table_va 200"
    using demo_ksys_current by (simp_all add: fork_ksys_def) (simp_all add: demo_ksys_def)
  have "\<exists>k1. clone_active_proc 0 0 (page_addr p) 2 [8] fork_ksys = Inr k1"
    unfolding clone_active_proc_def cur Let_def
    using p(1) c v3 v4 cur by (simp add: algebra_simps)
  then have "\<exists>r k'. sys_fork ?e fork_ksys = Inr (r, k')" by (auto simp: sys_fork_def Let_def)
  then show thesis using that [of ?e] by auto
qed

theorem fork_creates_child_witness:
  "\<exists>e r k'. sys_fork e fork_ksys = Inr (r, k') \<and> r = Ret (scast (pid (kpcb k' 2))) \<and> pid (kpcb k' 2) = sc_pidcounter (ksched fork_ksys) + 1 \<and>
     s_children k' 1 = [2]"
proof -
  obtain e r k' where f: "sys_fork e fork_ksys = Inr (r, k')" "e_new e = 2" "e_vmas e = [8]" by (rule demo_fork)
  have cur: "get_current fork_ksys = 1" "s_vmas fork_ksys = (\<lambda>_. [7])" "s_children fork_ksys = (\<lambda>_. [])"
    using demo_ksys_current by (simp_all add: fork_ksys_def) (simp_all add: demo_ksys_def)
  have h: "e_new e \<noteq> get_current fork_ksys" "distinct (e_vmas e)" "set (e_vmas e) \<inter> set (areas fork_ksys) = {}"
    unfolding cur f by simp_all
  from fork_creates_child [OF f(1) h] show ?thesis using f cur by metis
qed

lemma clone_keeps_areas:
  assumes f: "sys_fork e k = Inr (r, k')" "e_new e \<noteq> get_current k" "distinct (e_vmas e)" "set (e_vmas e) \<inter> set (areas k) = {}"
    and a: "a \<notin> set (e_vmas e)"
  shows "s_vma k' a = s_vma k a"
proof -
  obtain k1 where c: "clone_active_proc (e_pfa e) (e_ret_from_fork e) (e_sp e) (e_new e) (e_vmas e) k = Inr k1" "s_vma k' = s_vma k1"
    using f(1) by (auto simp: sys_fork_def bindR_eq_Inr Let_def)
  show ?thesis using clone_active_proc_spec(5) [OF c(1) f(2-4) a] c(2) by simp
qed

text \<open>
  The heap of a child. The copied control block keeps the parent's heap pointer. When the child
  runs and calls \<open>brk\<close> with an address that its parent's heap may grow to, the call reports success
  and moves the end of the parent's area; none of the child's own areas changes.
\<close>

theorem child_brk_grows_parent:
  assumes f: "sys_fork e k = Inr (r, k')" "e_new e \<noteq> get_current k" "distinct (e_vmas e)" "set (e_vmas e) \<inter> set (areas k) = {}"
    and h: "heap_area k \<noteq> 0" "heap_area k \<in> set (areas k)"
    and c: "child = put_sched ((ksched k')\<lparr>sc_current := e_new e\<rparr>) k'"
    and a: "vma_end (s_vma child (heap_area k)) \<le> ALIGN_UP addr 0x1000"
      "\<not> brk_blocked (ALIGN_UP addr 0x1000) (heap_area k) (areas child) child"
  shows "\<exists>k2. sys_brk new addr child = Inr (Ret (ALIGN_UP addr 0x1000), k2) \<and>
    vma_end (s_vma k2 (heap_area k)) = ALIGN_UP addr 0x1000 \<and> heap_area k \<notin> set (areas child) \<and> areas k2 = areas child \<and>
    map (s_vma k2) (areas child) = map (s_vma k) (areas k)"
proof -
  note fs = fork_spec [OF f]
  have cur: "get_current child = e_new e" "s_vmas child = s_vmas k'" "s_vma child = s_vma k'" by (simp_all add: c)
  have "kpcb child (e_new e) = kpcb k' (e_new e)" by (simp add: c)
  then have hc: "heap_area child = heap_area k" using fs by (auto simp: cur)
  let ?k2 = "child\<lparr>s_vma := (s_vma child)(heap_area k := (s_vma child (heap_area k))\<lparr>vma_end := ALIGN_UP addr 0x1000\<rparr>)\<rparr>"
  have b: "sys_brk new addr child = Inr (Ret (ALIGN_UP addr 0x1000), ?k2)"
    using a h(1) hc by (simp add: sys_brk_def Let_def not_less [symmetric])
  have n: "heap_area k \<notin> set (areas child)" using fs f(4) h(2) unfolding cur by blast
  have "map (s_vma ?k2) (areas child) = map (s_vma k') (areas child)" using n by (simp add: cur(3))
  also have "\<dots> = map (s_vma k) (areas k)" using fs by (simp add: cur)
  finally show ?thesis using b n by (intro exI [of _ ?k2]) simp
qed

theorem child_brk_grows_parent_witness:
  "\<exists>e r k' k2. sys_fork e fork_ksys = Inr (r, k') \<and>
     sys_brk 0 0x500000 (put_sched ((ksched k')\<lparr>sc_current := e_new e\<rparr>) k') = Inr (Ret (ALIGN_UP 0x500000 0x1000), k2) \<and>
     vma_end (s_vma k2 7) = ALIGN_UP 0x500000 0x1000"
proof -
  obtain e r k' where f: "sys_fork e fork_ksys = Inr (r, k')" "e_new e = 2" "e_vmas e = [8]" by (rule demo_fork)
  have cur: "get_current fork_ksys = 1" "s_vmas fork_ksys = (\<lambda>_. [7])" "heap_vma (kpcb fork_ksys 1) = 7"
    "s_vma fork_ksys = (\<lambda>_. \<lparr>vma_start = 0x400000, vma_end = 0x401000, permissions = 5\<rparr>)"
    using demo_ksys_current by (simp_all add: fork_ksys_def) (simp_all add: demo_ksys_def)
  have h: "e_new e \<noteq> get_current fork_ksys" "distinct (e_vmas e)" "set (e_vmas e) \<inter> set (areas fork_ksys) = {}"
    "heap_area fork_ksys \<noteq> 0" "heap_area fork_ksys \<in> set (areas fork_ksys)"
    unfolding cur f by simp_all
  note fs = fork_spec [OF f(1) h(1-3)]
  let ?c = "put_sched ((ksched k')\<lparr>sc_current := e_new e\<rparr>) k'"
  have al: "ALIGN_UP 0x500000 0x1000 = (0x500000 :: u64)" by (simp add: ALIGN_UP_def)
  have n8: "set (s_vmas k' 2) \<subseteq> {8}" using fs f(2,3) by simp
  have m: "map (s_vma k') (s_vmas k' 2) = [\<lparr>vma_start = 0x400000, vma_end = 0x401000, permissions = 5\<rparr>]"
    using fs unfolding cur f by simp
  have s7: "s_vma k' 7 = \<lparr>vma_start = 0x400000, vma_end = 0x401000, permissions = 5\<rparr>"
    using clone_keeps_areas [OF f(1) h(1-3), of 7] f(3) cur(4) by simp
  have "vma_end (s_vma ?c (heap_area fork_ksys)) \<le> ALIGN_UP 0x500000 0x1000"
    unfolding cur al by (simp add: s7)
  moreover have "\<not> brk_blocked (ALIGN_UP 0x500000 0x1000) (heap_area fork_ksys) (areas ?c) ?c"
    using m n8 unfolding brk_blocked_def al cur by (auto simp: f(2))
  ultimately obtain k2 where "sys_brk 0 0x500000 ?c = Inr (Ret (ALIGN_UP 0x500000 0x1000), k2)"
    "vma_end (s_vma k2 (heap_area fork_ksys)) = ALIGN_UP 0x500000 0x1000"
    using child_brk_grows_parent [OF f(1) h refl] by blast
  then show ?thesis using f(1) cur by metis
qed

end
