(* ===== verification/Elf.thy ===== *)
theory Elf
  imports Syscalls Filesystem_Correct
begin

text \<open>
  The program loader \<open>filesystem/elf.c\<close> with the structures of \<open>types/elf_types.h\<close>, over the file system,
  the page tables and the process that calls it. The bytes of user pages are a function of the
  physical address; an access to a user address goes through the tables the processor was switched
  to, and is a wild access where they have no entry. Log output is left out.
\<close>

section \<open>Structures\<close>

definition elf32_header :: layout where
  "elf32_header =
     [(''e_ident'', 16), (''e_type'', 2), (''e_machine'', 2), (''e_version'', 4), (''e_entry'', 4), (''e_phoff'', 4),
      (''e_shoff'', 4), (''e_flags'', 4), (''e_ehsize'', 2), (''e_phentsize'', 2), (''e_phnum'', 2),
      (''e_shentsize'', 2), (''e_shnum'', 2), (''e_shstrndx'', 2)]"

definition elf64_header :: layout where
  "elf64_header =
     [(''e_ident'', 16), (''e_type'', 2), (''e_machine'', 2), (''e_version'', 4), (''e_entry'', 8), (''e_phoff'', 8),
      (''e_shoff'', 8), (''e_flags'', 4), (''e_ehsize'', 2), (''e_phentsize'', 2), (''e_phnum'', 2),
      (''e_shentsize'', 2), (''e_shnum'', 2), (''e_shstrndx'', 2)]"

definition elf32_section_header :: layout where
  "elf32_section_header =
     [(''sh_name'', 4), (''sh_type'', 4), (''sh_flags'', 4), (''sh_addr'', 4), (''sh_offset'', 4), (''sh_size'', 4),
      (''sh_link'', 4), (''sh_info'', 4), (''sh_addralign'', 4), (''sh_entsize'', 4)]"

definition elf64_section_header :: layout where
  "elf64_section_header =
     [(''sh_name'', 4), (''sh_type'', 4), (''sh_flags'', 8), (''sh_addr'', 8), (''sh_offset'', 8), (''sh_size'', 8),
      (''sh_link'', 4), (''sh_info'', 4), (''sh_addralign'', 8), (''sh_entsize'', 8)]"

definition elf32_program_header :: layout where
  "elf32_program_header =
     [(''p_type'', 4), (''p_offset'', 4), (''p_vaddr'', 4), (''p_paddr'', 4), (''p_filesz'', 4), (''p_memsz'', 4),
      (''p_flags'', 4), (''p_align'', 4)]"

definition elf64_program_header :: layout where
  "elf64_program_header =
     [(''p_type'', 4), (''p_flags'', 4), (''p_offset'', 8), (''p_vaddr'', 8), (''p_paddr'', 8), (''p_filesz'', 8),
      (''p_memsz'', 8), (''p_align'', 8)]"

definition ELF_MAGIC :: nat where "ELF_MAGIC = 0x464c457f"

abbreviation (input) PT_LOAD :: nat where "PT_LOAD \<equiv> 1"

definition ph64 :: "string \<Rightarrow> u8 list \<Rightarrow> u64" where
  "ph64 f ph = of_nat (get_member elf64_program_header f ph)"

definition segment_flags :: "nat \<Rightarrow> u64" where
  "segment_flags p_flags =
     (let f0 = MAP_USER;
          f1 = (if bit p_flags 2 then f0 OR MAP_READ else f0);
          f2 = (if bit p_flags 1 then f1 OR MAP_WRITE else f1)
      in if bit p_flags 0 then f2 OR MAP_EXEC else f2)"

section \<open>User memory\<close>

definition user_address :: "u64 \<Rightarrow> u64 \<Rightarrow> vm \<Rightarrow> u64 option" where
  "user_address ttbr0 va st =
     map_option (\<lambda>e. resolve (Some e) va) (aspace (vm_mem st) (drop_bit 12 (va_to_pa ttbr0)) va)"

fun store_user :: "u64 \<Rightarrow> u64 \<Rightarrow> u8 list \<Rightarrow> vm \<Rightarrow> (u64 \<Rightarrow> u8) \<Rightarrow> (u64 \<Rightarrow> u8) result" where
  "store_user ttbr0 va [] st m = Inr m"
| "store_user ttbr0 va (b # bs) st m =
     (case user_address ttbr0 va st of
        None \<Rightarrow> Inl WildAccess
      | Some pa \<Rightarrow> store_user ttbr0 (va + 1) bs st (m(pa := b)))"

section \<open>Loading\<close>

record loader =
  ld_vm :: vm
  ld_fs :: fsys
  ld_file :: "file_t option"
  ld_user :: "u64 \<Rightarrow> u8"

text \<open>The pages of a segment, one by one; the list holds the values of the loop counter.\<close>

fun map_segment :: "u64 \<Rightarrow> u64 \<Rightarrow> nat list \<Rightarrow> vm \<Rightarrow> vm result" where
  "map_segment p_vaddr l0 [] st = Inr st"
| "map_segment p_vaddr l0 (i # js) st =
     bindR (buddy_alloc 0x1000 (vm_buddy st)) (\<lambda>(phys_block, b).
     bindR (vm_map (p_vaddr + of_nat i * 0x1000) (va_to_pa phys_block) 0 (MAP_USER OR MAP_READ OR MAP_WRITE) l0
              (st\<lparr>vm_buddy := b\<rparr>))
       (map_segment p_vaddr l0 js))"

text \<open>\<open>1 << order\<close> is an \<open>int\<close>, so from 31 on the shift is undefined.\<close>

definition load_segment :: "card \<Rightarrow> u64 \<Rightarrow> u8 list \<Rightarrow> loader \<Rightarrow> loader result" where
  "load_segment d l0 ph s =
     (let p_vaddr = ph64 ''p_vaddr'' ph; p_memsz = ph64 ''p_memsz'' ph; p_filesz = ph64 ''p_filesz'' ph;
          flags = segment_flags (get_member elf64_program_header ''p_flags'' ph)
      in bindR (log2_pow2 (p_memsz div 4096)) (\<lambda>order.
         if 31 \<le> order then Inl WildAccess
         else bindR (map_segment p_vaddr l0 [0..<2 ^ order] (ld_vm s)) (\<lambda>v.
              let file1 = map_option (\<lambda>f. snd (fs_seek f (ph64 ''p_offset'' ph) SEEK_SET)) (ld_file s)
              in bindR (fs_read d file1 (block_buf (ld_fs s)) p_filesz (ld_fs s)) (\<lambda>(_, file2, fs1).
                 let in_page_offset = p_vaddr mod 0x1000
                 in bindR (store_user l0 (p_vaddr + in_page_offset) (region (fs_mem fs1) (block_buf fs1) (unat p_filesz)) v
                             (ld_user s)) (\<lambda>m.
                    bindR (update_mapping (ALIGN_DOWN p_vaddr 0x1000) (ALIGN_UP (p_vaddr + p_memsz) 0x1000) flags l0 v)
                      (\<lambda>(_, v1). Inr \<lparr>ld_vm = v1, ld_fs = fs1, ld_file = file2, ld_user = m\<rparr>))))))"

text \<open>
  The loop over the program headers, of which \<open>off\<close> is the position of the next one in the block. A
  header of another type is skipped by \<open>continue\<close>, which leaves the pointer where it is.
\<close>

fun load_segments :: "card \<Rightarrow> u64 \<Rightarrow> u8 list \<Rightarrow> nat \<Rightarrow> nat \<Rightarrow> u64 \<Rightarrow> loader \<Rightarrow> (u64 \<times> loader) result" where
  "load_segments d l0 block 0 off end_brk s = Inr (end_brk, s)"
| "load_segments d l0 block (Suc n) off end_brk s =
     (let ph = drop off block
      in if length ph < size_of elf64_program_header then Inl WildAccess
         else if get_member elf64_program_header ''p_type'' ph \<noteq> PT_LOAD then load_segments d l0 block n off end_brk s
         else let end_brk1 = max (ALIGN_UP (ph64 ''p_vaddr'' ph + ph64 ''p_memsz'' ph) 0x1000) end_brk
              in bindR (load_segment d l0 ph s) (load_segments d l0 block n (off + size_of elf64_program_header) end_brk1))"

text \<open>\<open>blk\<close> is the block that \<open>kmalloc\<close> returned for the header.\<close>

definition readelf :: "card \<Rightarrow> nat \<Rightarrow> file_t \<Rightarrow> ksys \<Rightarrow> fsys \<Rightarrow> (u64 \<Rightarrow> u8) \<Rightarrow> (ksys \<times> fsys \<times> (u64 \<Rightarrow> u8)) result" where
  "readelf d blk file k fs m =
     bindR (fs_read d (Some file) blk 4096 fs) (\<lambda>(_, file1, fs1).
       let block = region (fs_mem fs1) blk 4096
       in if le (take 4 block) \<noteq> ELF_MAGIC then Inr (k, fs1, m)
          else bindR (buddy_alloc_pt pt_fuel (s_vm k)) (\<lambda>(new_proc_l0, v1).
               bindR (load_segments d new_proc_l0 block (get_member elf64_header ''e_phnum'' block)
                        (get_member elf64_header ''e_phoff'' block) 0
                        \<lparr>ld_vm = v1, ld_fs = fs1, ld_file = file1, ld_user = m\<rparr>) (\<lambda>(end_brk, s).
                 let current = get_current k;
                     old_ttbr = ttbr (kpcb k current);
                     k1 = set_kpcb current (\<lambda>c. c\<lparr>ttbr := new_proc_l0\<rparr>) (k\<lparr>s_vm := ld_vm s\<rparr>);
                     trapframe = BASE_TRAPFRAME (kernel_stack (kpcb k1 current))
                 in bindR (wr64 (trapframe + 8 * 31) (USER_STACK_TOP - 16) (s_vm k1)) (\<lambda>v2.
                    bindR (wr64 (trapframe + 8 * 32) (of_nat (get_member elf64_header ''e_entry'' block)) v2) (\<lambda>v3.
                    bindR (wr64 (trapframe + 8 * 33) 0 v3) (\<lambda>v4.
                    bindR (reap_virtual_memory 3 old_ttbr v4) (\<lambda>v5.
                      Inr (set_kpcb current (\<lambda>c. c\<lparr>start_brk := end_brk, brk := end_brk\<rparr>) (k1\<lparr>s_vm := v5\<rparr>),
                           ld_fs s, ld_user s))))))))"

end
