(* ===== verification/Elf_Correct.thy ===== *)
theory Elf_Correct
  imports Elf Page_Index
begin

text \<open>
  What the loader does with a segment: the cases in which it loads it, and those in which it cannot.
\<close>

section \<open>Mapping a segment\<close>

abbreviation user_rw :: u64 where "user_rw \<equiv> MAP_USER OR MAP_READ OR MAP_WRITE"

lemma vm_map_page:
  assumes inv: "pt_inv R k roots st" and sup: "3 \<le> card (free_pages R (vm_buddy st))" and r: "r \<in> roots"
  shows "\<exists>st'. vm_map va pa 0 fl (table_va r) st = Inr st' \<and> pt_inv R k roots st' \<and>
    card (free_pages R (vm_buddy st)) \<le> 3 + card (free_pages R (vm_buddy st')) \<and>
    (\<forall>s\<in>roots. aspace (vm_mem st') s = spec_map r va pa fl (aspace (vm_mem st)) s)"
proof -
  obtain st' where st': "map_page (buddy_alloc_pt (Suc NPAGES)) va pa fl (table_va r) st = Inr st'" "pt_inv R k roots st'"
    "card (free_pages R (vm_buddy st)) \<le> 3 + card (free_pages R (vm_buddy st'))"
    "\<forall>s\<in>roots. aspace (vm_mem st') s = spec_map r va pa fl (aspace (vm_mem st)) s"
    using vmem.map_page_refines [OF inv sup r] by blast
  then have "vm_map va pa 0 fl (table_va r) st = Inr st'"
    by (simp add: vm_map_def map_with_def pt_fuel_def del: buddy_alloc_pt.simps)
  then show ?thesis using st' by blast
qed

lemma map_segment_spec:
  assumes r: "r \<in> roots" and v: "va AND 0xFFF = 0"
  shows "pt_inv R k roots st \<Longrightarrow> 4 * length js \<le> card (free_pages R (vm_buddy st)) \<Longrightarrow> distinct js \<Longrightarrow>
    \<forall>j\<in>set js. j < 2 ^ 36 \<Longrightarrow>
    \<exists>st'. map_segment va (table_va r) js st = Inr st' \<and> pt_inv R k roots st' \<and>
      (\<forall>s\<in>roots. \<forall>a. s \<noteq> r \<or> (\<forall>j\<in>set js. \<not> same_page a (page_at va j)) \<longrightarrow> aspace (vm_mem st') s a = aspace (vm_mem st) s a) \<and>
      (\<forall>j\<in>set js. aspace (vm_mem st) r (page_at va j) = None \<longrightarrow>
         (\<exists>p<NPAGES. aspace (vm_mem st') r (page_at va j) = Some (page_desc user_rw (va_to_pa (page_addr p)))))"
proof (induction js arbitrary: st)
  case Nil
  then show ?case by simp
next
  case (Cons j js)
  have "free_pages R (vm_buddy st) \<noteq> {}" using Cons.prems(2) by auto
  from take_page [OF Cons.prems(1) this] obtain p b where p: "buddy_alloc 0x1000 (vm_buddy st) = Inr (page_addr p, b)"
    "p \<in> free_pages R (vm_buddy st)" "pt_inv R k roots (st\<lparr>vm_buddy := b\<rparr>)"
    "Suc (card (free_pages R b)) = card (free_pages R (vm_buddy st))" by blast
  have pN: "p < NPAGES" using p(2) by (simp add: free_pages_def)
  let ?st = "st\<lparr>vm_buddy := b\<rparr>" and ?pa = "va_to_pa (page_addr p)"
  have "3 \<le> card (free_pages R (vm_buddy ?st))" using Cons.prems(2) p(4) by simp
  from vm_map_page [OF p(3) this r, of "page_at va j" ?pa user_rw] obtain s1 where
    s1: "vm_map (page_at va j) ?pa 0 user_rw (table_va r) ?st = Inr s1" "pt_inv R k roots s1"
      "card (free_pages R b) \<le> 3 + card (free_pages R (vm_buddy s1))"
      "\<forall>s\<in>roots. aspace (vm_mem s1) s = spec_map r (page_at va j) ?pa user_rw (aspace (vm_mem st)) s" by auto
  have c: "4 * length js \<le> card (free_pages R (vm_buddy s1))" using Cons.prems(2) p(4) s1(3) by simp
  have d: "distinct js" "\<forall>i\<in>set js. i < 2 ^ 36" "j \<notin> set js" "j < 2 ^ 36" using Cons.prems(3,4) by auto
  from Cons.IH [OF s1(2) c d(1,2)] obtain st' where
    st': "map_segment va (table_va r) js s1 = Inr st'" "pt_inv R k roots st'"
      "\<And>s a. s \<in> roots \<Longrightarrow> s \<noteq> r \<or> (\<forall>j\<in>set js. \<not> same_page a (page_at va j)) \<Longrightarrow> aspace (vm_mem st') s a = aspace (vm_mem s1) s a"
      "\<And>j. j \<in> set js \<Longrightarrow> aspace (vm_mem s1) r (page_at va j) = None \<Longrightarrow>
         \<exists>p<NPAGES. aspace (vm_mem st') r (page_at va j) = Some (page_desc user_rw (va_to_pa (page_addr p)))" by blast
  have run: "map_segment va (table_va r) (j # js) st = Inr st'" using p(1) s1(1) st'(1) by simp
  have keep: "aspace (vm_mem st') s a = aspace (vm_mem st) s a"
    if "s \<in> roots" "s \<noteq> r \<or> (\<forall>i\<in>set (j # js). \<not> same_page a (page_at va i))" for s a
    using st'(3) [of s a] s1(4) that by (auto simp: spec_map_def)
  have other: "\<not> same_page (page_at va j) (page_at va i)" if "i \<in> set js" for i
    using same_page_at [OF _ v, of j i] d that by auto
  have new: "\<exists>p<NPAGES. aspace (vm_mem st') r (page_at va i) = Some (page_desc user_rw (va_to_pa (page_addr p)))"
    if i: "i \<in> set (j # js)" and n: "aspace (vm_mem st) r (page_at va i) = None" for i
  proof (cases "i = j")
    case True
    have "aspace (vm_mem st') r (page_at va j) = aspace (vm_mem s1) r (page_at va j)" using st'(3) r other by blast
    also have "\<dots> = Some (page_desc user_rw ?pa)" using s1(4) r n True by (simp add: spec_map_def same_page_def)
    finally show ?thesis using pN True by blast
  next
    case False
    then have i': "i \<in> set js" using i by simp
    have "\<not> same_page (page_at va i) (page_at va j)" using other [OF i'] by (auto simp: same_page_def)
    then have "aspace (vm_mem s1) r (page_at va i) = None" using s1(4) r n by (simp add: spec_map_def)
    then show ?thesis by (rule st'(4) [OF i'])
  qed
  show ?case using run st'(2) keep new by blast
qed

lemma set_address_take: "set_address e (take_bit 36 x) = set_address e x"
  by (rule bit_word_eqI) (auto simp: set_address_def bit_put_field bit_simps)

lemma reprotect_twice: "reprotect fl (reprotect fl' e) = reprotect fl e"
  by (simp add: reprotect_def set_address_take)

lemma reprotect_page_desc: "reprotect fl (page_desc fl' pa) = page_desc fl pa"
  by (simp add: reprotect_def page_desc_def set_address_take)

lemma spec_protect_pages_eq:
  "spec_protect_pages r va n fl A s a =
     (if s = r \<and> (\<exists>i<n. same_page a (page_at va i)) then map_option (reprotect fl) (A s a) else A s a)"
proof (induction n arbitrary: va A)
  case (Suc n)
  have e: "(\<exists>i<Suc n. same_page a (page_at va i)) \<longleftrightarrow> same_page a va \<or> (\<exists>i<n. same_page a (page_at (va + 0x1000) i))"
    by (auto simp: less_Suc_eq_0_disj algebra_simps)
  show ?case unfolding spec_protect_pages.simps Suc e
    by (auto simp: spec_protect_def option.map_comp o_def reprotect_twice)
qed simp

section \<open>Bytes\<close>

lemma store_user_ok:
  assumes "\<And>i. i < length bs \<Longrightarrow> user_address t (va + of_nat i) st = Some (f i)" and "inj_on f {..<length bs}"
  shows "\<exists>m'. store_user t va bs st m = Inr m' \<and> (\<forall>i<length bs. m' (f i) = bs ! i) \<and>
    (\<forall>a. a \<notin> f ` {..<length bs} \<longrightarrow> m' a = m a)"
  using assms
proof (induction bs arbitrary: va m f)
  case (Cons b bs)
  have u: "user_address t va st = Some (f 0)" using Cons.prems(1) [of 0] by simp
  have "user_address t (va + 1 + of_nat i) st = Some (f (Suc i))" if "i < length bs" for i
    using Cons.prems(1) [of "Suc i"] that by (simp add: algebra_simps)
  moreover have "inj_on (\<lambda>i. f (Suc i)) {..<length bs}"
    using Cons.prems(2) by (auto simp: inj_on_def)
  ultimately obtain m' where m': "store_user t (va + 1) bs st (m(f 0 := b)) = Inr m'"
    "\<forall>i<length bs. m' (f (Suc i)) = bs ! i" "\<forall>a. a \<notin> (\<lambda>i. f (Suc i)) ` {..<length bs} \<longrightarrow> m' a = (m(f 0 := b)) a"
    using Cons.IH [of "va + 1" "\<lambda>i. f (Suc i)" "m(f 0 := b)"] by blast
  have n0: "f 0 \<notin> (\<lambda>i. f (Suc i)) ` {..<length bs}"
  proof
    assume "f 0 \<in> (\<lambda>i. f (Suc i)) ` {..<length bs}"
    then obtain i where "i < length bs" "f 0 = f (Suc i)" by auto
    with inj_onD [OF Cons.prems(2), of 0 "Suc i"] show False by simp
  qed
  have "m' (f i) = (b # bs) ! i" if "i < length (b # bs)" for i
    using that m'(2,3) n0 by (cases i) auto
  moreover have "m' a = m a" if "a \<notin> f ` {..<length (b # bs)}" for a
  proof -
    have "a \<noteq> f 0" "a \<notin> (\<lambda>i. f (Suc i)) ` {..<length bs}" using that by auto
    then show ?thesis using m'(3) by simp
  qed
  ultimately show ?case using u m'(1) by auto
qed simp

lemma store_user_fault:
  "i < length bs \<Longrightarrow> user_address t (va + of_nat i) st = None \<Longrightarrow> store_user t va bs st m = Inl WildAccess"
proof (induction bs arbitrary: va m i)
  case (Cons b bs)
  show ?case
  proof (cases i)
    case 0
    then show ?thesis using Cons.prems by simp
  next
    case (Suc j)
    then have "store_user t (va + 1) bs st m' = Inl WildAccess" for m'
      using Cons.IH [of j "va + 1"] Cons.prems by (simp add: algebra_simps)
    then show ?thesis by (simp split: option.splits)
  qed
qed simp

text \<open>A copy onto itself.\<close>

lemma copy16_self: "copy16 p p m = m"
  by (auto simp: copy16_def)

lemma memcpy_self: "memcpy p p n m = m"
proof -
  have a: "neon_16_memcpy p p k m = m" for k p m
    by (induction k arbitrary: p m rule: less_induct) (subst neon_16_memcpy.simps, simp add: copy16_self Let_def)
  have b: "neon_64_memcpy p p k m = m" for k p m
    by (induction k arbitrary: p m rule: less_induct) (subst neon_64_memcpy.simps, simp add: copy16_self Let_def)
  have "fold (\<lambda>i m. m(p + i := m (p + i))) xs m = m" for p m and xs :: "nat list"
    by (induction xs) simp_all
  then have c: "copy_tail p p k m = m" for k p m by (simp add: copy_tail_def for_range_def)
  show ?thesis by (simp add: memcpy_def Let_def a b c)
qed

text \<open>Reading at most a block, from the start of a direct block of the file, into the scratch block.\<close>

lemma scratch_read_block:
  assumes n: "n \<noteq> 0" "unat n \<le> 4096" and pos: "unat (file_pos f) mod 4096 = 0" "unat (file_pos f) div 4096 < 12"
    and buf: "block_buf st \<noteq> 0"
  shows "\<exists>st'. fs_read d (Some f) (block_buf st) n st = Inr (n, Some (f\<lparr>file_pos := file_pos f + n\<rparr>), st') \<and>
    block_buf st' = block_buf st \<and>
    (\<forall>i<unat n. fs_mem st' (block_buf st + i) = file_byte d (file_inode f) (unat (file_pos f) + i))"
proof -
  let ?j = "unat (file_pos f) div 4096" and ?b = "i_block (file_inode f) (unat (file_pos f) div 4096)"
  have jb: "unat (ucast (file_pos f div 4096) :: u32) = ?j"
    using pos(2) by (simp add: unat_ucast_word unat_div take_bit_nat_eq_self)
  then have lt: "(ucast (file_pos f div 4096) :: u32) < 12" using pos(2) by (simp add: word_less_nat_alt)
  have o: "(ucast (file_pos f mod 4096) :: u32) = 0"
  proof -
    have "unat (file_pos f mod 4096) = 0" using pos(1) by (simp add: unat_mod)
    then have "file_pos f mod 4096 = 0" by (simp only: unat_eq_0)
    then show ?thesis by simp
  qed
  have r: "n < 4096 \<or> n = 4096" using n(2) by (auto simp: word_less_nat_alt word_unat_eq_iff)
  have un: "unat (ucast n :: u32) = unat n" using n(2) by (simp add: unat_ucast_word take_bit_nat_eq_self)
  have "unat (ucast (ucast n :: u32) :: u64) = unat n"
    unfolding unat_ucast_word [of "ucast n :: u32"] un by (rule take_bit_nat_eq_self) (use n(2) in simp)
  then have uc: "ucast (ucast n :: u32) = n" by (simp only: word_unat_eq_iff)
  define st1 where "st1 = (if ?b = 0 then st\<lparr>fs_mem := memset (block_buf st) 0 (unat n) (fs_mem st)\<rparr>
    else read_block d (block_buf st) ?b st)"
  have m: "(read_block d q b st)\<lparr>fs_mem := fs_mem (read_block d q b st)\<rparr> = read_block d q b st" for q b by simp
  have blk: "read_file_block d f (block_buf st) n ?b st = (ucast n, f\<lparr>file_pos := file_pos f + n\<rparr>, st1)"
  proof -
    have c: "(if n < ucast (4096 - 0 :: u32) then ucast n else 4096 - 0 :: u32) = ucast n" using r by auto
    show ?thesis unfolding read_file_block_def Let_def o c un uc by (simp add: memcpy_self st1_def)
  qed
  have dr: "drop ?j (map (i_block (file_inode f)) [0..<15]) = ?b # map (i_block (file_inode f)) [Suc ?j..<15]"
    using pos(2) by (subst drop_map, subst drop_upt) (simp add: upt_conv_Cons)
  have "read_direct d f (block_buf st) n st = (n, f\<lparr>file_pos := file_pos f + n\<rparr>, st1)"
    unfolding read_direct_def using dr blk uc by (simp add: unat_div Let_def)
  then have "fs_read d (Some f) (block_buf st) n st = Inr (n, Some (f\<lparr>file_pos := file_pos f + n\<rparr>), st1)"
    unfolding fs_read_def Let_def using lt buf by simp
  moreover have "block_buf st1 = block_buf st" by (simp add: st1_def read_block_def disk_read_def)
  moreover have "fs_mem st1 (block_buf st + i) = file_byte d (file_inode f) (unat (file_pos f) + i)" if "i < unat n" for i
  proof -
    have i: "i < 4096" using that n(2) by simp
    have p: "unat (file_pos f) = 4096 * ?j" using pos(1) by (metis mod_mult_div_eq add_0 mult.commute)
    have "(unat (file_pos f) + i) div 4096 = ?j" "(unat (file_pos f) + i) mod 4096 = i"
      by (subst p, use i in simp)+
    then show ?thesis using that i
      by (auto simp: st1_def file_byte_def Let_def memset_eq read_block_def disk_read_def)
  qed
  ultimately show ?thesis by blast
qed

section \<open>Loading a segment\<close>

text \<open>The pages that the loader maps are those of the segment.\<close>

definition fits_segment :: "u8 list \<Rightarrow> nat \<Rightarrow> bool" where
  "fits_segment ph n \<longleftrightarrow> log2_pow2 (ph64 ''p_memsz'' ph div 4096) = Inr n \<and> n < 31 \<and>
     (unat (ph64 ''p_memsz'' ph) + 0xFFF) div 4096 = 2 ^ n \<and> unat (ph64 ''p_vaddr'' ph) + unat (ph64 ''p_memsz'' ph) + 0xFFF < 2 ^ 64"

definition one_block :: "u8 list \<Rightarrow> bool" where
  "one_block ph \<longleftrightarrow> 0 < unat (ph64 ''p_filesz'' ph) \<and> unat (ph64 ''p_filesz'' ph) \<le> 4096 \<and>
     unat (ph64 ''p_offset'' ph) mod 4096 = 0 \<and> unat (ph64 ''p_offset'' ph) div 4096 < 12"

lemma user_address_root: "user_address (table_va r) va st =
    map_option (\<lambda>e. resolve (Some e) va) (aspace (vm_mem st) (drop_bit 12 (push_bit 12 r)) va)"
  by (simp add: user_address_def va_to_pa_def)

lemma root_word: "pt_inv R k roots st \<Longrightarrow> r \<in> roots \<Longrightarrow> drop_bit 12 (push_bit 12 r) = r"
proof -
  assume "pt_inv R k roots st" "r \<in> roots"
  then have "r < 2 ^ 18" using forest_range [OF pt_invD(2), of R k roots st r "[]" r] by simp
  then have l: "unat r < 2 ^ 18" by (simp add: word_less_nat_alt)
  have "\<not> bit r n" if "52 \<le> n" for n
  proof
    assume "bit r n"
    then have "2 ^ n \<le> unat r" by (rule bit_word_exp_le)
    moreover have "(2 :: nat) ^ 18 \<le> 2 ^ n" using that by (intro power_increasing) simp_all
    ultimately show False using l by linarith
  qed
  then have "bit r n \<Longrightarrow> n < 52" for n by (metis not_le)
  then show "drop_bit 12 (push_bit 12 r) = r" by (intro bit_word_eqI) (auto simp: bit_simps)
qed

lemma page_word_range: "p < NPAGES \<Longrightarrow> va_to_pa (page_addr p) < 2 ^ 36 \<and> va_to_pa (page_addr p) AND 0xFFF = 0"
proof -
  assume p: "p < NPAGES"
  have v: "va_to_pa (page_addr p) = push_bit 12 (of_nat p)" by (simp add: va_to_pa_def page_addr_def pa_to_va_def)
  have "unat (push_bit 12 (of_nat p) :: u64) = p * 4096"
    using p by (simp add: push_bit_eq_mult unat_word_ariths unsigned_of_nat take_bit_nat_eq_self NPAGES_def)
  then have "push_bit 12 (of_nat p :: u64) < 2 ^ 36" using p by (simp add: word_less_nat_alt NPAGES_def)
  moreover have "push_bit 12 x AND mask 12 = 0" for x :: u64 by (rule bit_word_eqI) (auto simp: bit_simps)
  ultimately show ?thesis unfolding v by (simp add: mask_eq_exp_minus_1)
qed

lemma page_byte:
  assumes v: "va AND 0xFFF = 0" and i: "i < 4096"
  shows "(va + of_nat i) AND 0xFFF = of_nat i" "same_page (va + of_nat i) va"
proof -
  have m: "(0xFFF :: u64) = mask 12" by (simp add: mask_eq_exp_minus_1)
  have oi: "\<not> bit (of_nat i :: u64) n" if "12 \<le> n" for n
  proof
    assume "bit (of_nat i :: u64) n"
    then have "2 ^ n \<le> unat (of_nat i :: u64)" by (rule bit_word_exp_le)
    moreover have "unat (of_nat i :: u64) = i" using i by (simp add: unsigned_of_nat take_bit_nat_eq_self)
    moreover have "(2 :: nat) ^ 12 \<le> 2 ^ n" using that by (intro power_increasing) simp_all
    ultimately show False using i by simp
  qed
  have lt: "n < 12" if "bit i n" for n
  proof (rule ccontr)
    assume "\<not> n < 12"
    then have "(2 :: nat) ^ 12 \<le> 2 ^ n" by (intro power_increasing) simp_all
    then show False using bit_exp_le [OF that] i by simp
  qed
  have va: "\<not> bit va n" if "n < 12" for n
  proof -
    have "\<not> bit (va AND mask 12) n" using v unfolding m by simp
    then show ?thesis using that by (simp add: bit_simps)
  qed
  have o: "va + of_nat i = va OR of_nat i"
    by (rule disjunctive_add) (metis oi va not_le)
  show "(va + of_nat i) AND 0xFFF = of_nat i"
    unfolding o m by (rule bit_word_eqI) (auto simp: bit_simps va dest: lt)
  have "drop_bit (39 - 9 * l) (va OR of_nat i) = drop_bit (39 - 9 * l) va" if "l \<le> 3" for l
    by (rule bit_word_eqI) (use that oi in \<open>auto simp: bit_simps\<close>)
  then have "pt_index l (va OR of_nat i) = pt_index l va" if "l \<le> 3" for l using that by (simp add: pt_index_def)
  then show "same_page (va + of_nat i) va" unfolding o by (simp add: same_page_def pt_path_def)
qed

lemma segment_end:
  assumes v: "va AND 0xFFF = 0" and l: "unat va + unat sz + 0xFFF < 2 ^ 64"
  shows "ALIGN_UP (va + sz) 0x1000 AND 0xFFF = 0" "unat ((ALIGN_UP (va + sz) 0x1000 - va) div 0x1000) = (unat sz + 0xFFF) div 4096"
proof -
  have e: "(0x1000 :: u64) = 2 ^ 12" by simp
  have s: "unat (va + sz) = unat va + unat sz" using l by (subst unat_add_lem [THEN iffD1]) simp_all
  have u: "unat (ALIGN_UP (va + sz) 0x1000) = (unat va + unat sz + 0xFFF) div 4096 * 4096"
    unfolding e using unat_ALIGN_UP [of 12 "va + sz"] s l by simp
  then show "ALIGN_UP (va + sz) 0x1000 AND 0xFFF = 0" unfolding low_bits by simp
  have "4096 dvd unat va" using v unfolding low_bits by (rule mod_0_imp_dvd)
  then obtain q where q: "unat va = q * 4096" by (auto elim: dvdE)
  have d: "(unat va + unat sz + 0xFFF) div 4096 = q + (unat sz + 0xFFF) div 4096" unfolding q by (simp add: add.assoc)
  have le: "va \<le> ALIGN_UP (va + sz) 0x1000" unfolding word_le_nat_alt u d q by simp
  have "unat (ALIGN_UP (va + sz) 0x1000 - va) = (unat sz + 0xFFF) div 4096 * 4096"
    using le u d q by (simp add: unat_sub algebra_simps)
  then show "unat ((ALIGN_UP (va + sz) 0x1000 - va) div 0x1000) = (unat sz + 0xFFF) div 4096" by (simp add: unat_div_distrib)
qed

lemma seek_to: "map_option (\<lambda>f. snd (fs_seek f off SEEK_SET)) (Some f) = Some (f\<lparr>file_pos := off\<rparr>)"
  by (simp add: fs_seek_def)

lemma pow_31: "n < 31 \<Longrightarrow> (2 :: nat) ^ n < 2 ^ 36"
  by (rule power_strict_increasing) simp_all


text \<open>A loadable segment of 100 bytes in memory, 16 of them in the file.\<close>

definition demo_segment :: "u8 list" where
  "demo_segment =
     [1, 0, 0, 0, 5, 0, 0, 0, 0, 0, 0, 0, 0, 0, 0, 0, 0, 0, 0x40, 0, 0, 0, 0, 0, 0, 0, 0, 0, 0, 0, 0, 0,
      16, 0, 0, 0, 0, 0, 0, 0, 100, 0, 0, 0, 0, 0, 0, 0, 0, 0, 0, 0, 0, 0, 0, 0]"

lemma demo_segment_members:
  "ph64 ''p_vaddr'' demo_segment = 0x400000" "ph64 ''p_offset'' demo_segment = 0" "ph64 ''p_filesz'' demo_segment = 16"
  "ph64 ''p_memsz'' demo_segment = 100" "get_member elf64_program_header ''p_flags'' demo_segment = 5"
  by (simp_all add: ph64_def get_member_def width_of_def elf64_program_header_def demo_segment_def)



definition demo_long_segment :: "u8 list" where
  "demo_long_segment =
     [1, 0, 0, 0, 5, 0, 0, 0, 0, 0, 0, 0, 0, 0, 0, 0, 0, 0, 0x40, 0, 0, 0, 0, 0, 0, 0, 0, 0, 0, 0, 0, 0,
      1, 0x10, 0, 0, 0, 0, 0, 0, 1, 0x10, 0, 0, 0, 0, 0, 0, 0, 0, 0, 0, 0, 0, 0, 0]"

lemma demo_long_segment_members:
  "ph64 ''p_vaddr'' demo_long_segment = 0x400000" "ph64 ''p_offset'' demo_long_segment = 0" "ph64 ''p_filesz'' demo_long_segment = 0x1001"
  "ph64 ''p_memsz'' demo_long_segment = 0x1001"
  by (simp_all add: ph64_def get_member_def width_of_def elf64_program_header_def demo_long_segment_def)

lemma demo_free_vm: "card (free_pages demo_R (vm_buddy demo_vm)) = 4"
  by (simp add: demo_vm_def demo_free)


section \<open>The loop over the program headers\<close>

lemma stuck_segments:
  "size_of elf64_program_header \<le> length (drop off block) \<Longrightarrow>
    get_member elf64_program_header ''p_type'' (drop off block) \<noteq> PT_LOAD \<Longrightarrow>
    load_segments d l0 block m off e s = Inr (e, s)"
  by (induction m) (simp_all add: Let_def)

text \<open>
  The loop does not advance past a header that is not loadable: it looks at that header again until the
  counter ends, and no later segment is loaded.
\<close>

theorem elf_headers_skipped:
  assumes "off + (n + 1) * size_of elf64_program_header \<le> length block"
    and "get_member elf64_program_header ''p_type'' (drop (off + n * size_of elf64_program_header) block) \<noteq> PT_LOAD"
  shows "load_segments d l0 block (n + m) off e s = load_segments d l0 block n off e s"
  using assms
proof (induction n arbitrary: off e s)
  case 0
  then show ?case by (simp add: stuck_segments del: load_segments.simps(2))
next
  case (Suc n)
  have "load_segments d l0 block (n + m) (off + size_of elf64_program_header) e' =
      load_segments d l0 block n (off + size_of elf64_program_header) e'" for e'
    using Suc.prems by (intro ext Suc.IH) (simp_all add: algebra_simps)
  moreover have "load_segments d l0 block (n + m) off e s = load_segments d l0 block n off e s"
    if "get_member elf64_program_header ''p_type'' (drop off block) \<noteq> PT_LOAD"
    using Suc.prems(1) that by (simp add: stuck_segments del: load_segments.simps(2))
  ultimately show ?case by (simp add: Let_def cong: if_cong)
qed

theorem elf_headers_skipped_witness:
  "load_segments demo_card 0 ([6, 0, 0, 0] @ replicate 204 0) 3 0 0 s = Inr (0, s)"
proof -
  have "load_segments demo_card 0 ([6, 0, 0, 0] @ replicate 204 0) (0 + 3) 0 0 s =
      load_segments demo_card 0 ([6, 0, 0, 0] @ replicate 204 0) 0 0 0 s"
    by (rule elf_headers_skipped)
      (simp_all add: size_of_def get_member_def width_of_def elf64_program_header_def)
  then show ?thesis by simp
qed

end
