(* ===== verification/Console_Correct.thy ===== *)
theory Console_Correct
  imports Console
begin

text \<open>
  What the console prints: the decoder stays inside its buffer for every input and removes escape
  sequences, printed numbers can be read back, the panel draws inside the frame buffer as long as no
  tab is printed, and the buffered copy loses no character.
\<close>

section \<open>The decoder\<close>

definition serial_only :: "tty \<Rightarrow> bool" where
  "serial_only st \<longleftrightarrow> \<not> (co_ready (a_out st) \<and> co_use (a_out st))"

definition decoder_ok :: "'o ansi_state \<Rightarrow> bool" where
  "decoder_ok st \<longleftrightarrow> length (a_params st) = 16 \<and> a_len st \<le> 15 \<and> (a_state st = ANSI_END_PARSING \<longrightarrow> 0 \<in> set (a_params st))"

abbreviation uart_of :: "tty \<Rightarrow> u8 list" where "uart_of st \<equiv> co_uart (a_out st)"

definition uart_bytes :: "u8 \<Rightarrow> u8 list" where "uart_bytes c = (if c = 10 then [13, 10] else [c])"

lemma atoi_ok: "0 \<in> set p \<Longrightarrow> \<exists>v q. atoi_until_semicolon p num = Inr (v, q) \<and> 0 \<in> set q"
  by (induction p num rule: atoi_until_semicolon.induct) auto

lemma read_params_ok: "0 \<in> set p \<Longrightarrow> \<exists>vs. read_params n p = Inr vs"
proof (induction n arbitrary: p)
  case (Suc n)
  then obtain c p' where p: "p = c # p'" by (cases p) auto
  from atoi_ok [OF Suc.prems, of 0] obtain v q where a: "atoi_until_semicolon p 0 = Inr (v, q)" "0 \<in> set q" by blast
  from Suc.IH [OF a(2)] show ?case using a(1) p by (auto simp del: atoi_until_semicolon.simps)
qed simp

lemma uart_putc_serial:
  "\<not> (co_ready s \<and> co_use s) \<Longrightarrow> uart_putc font c s = Inr (s\<lparr>co_uart := co_uart s @ uart_bytes c\<rparr>)"
  by (auto simp: uart_putc_def uart_bytes_def)

lemma serial_out:
  "serial_only (st\<lparr>a_state := x\<rparr>) = serial_only st" "serial_only (st\<lparr>a_params := ps\<rparr>) = serial_only st"
  "serial_only (st\<lparr>a_len := n\<rparr>) = serial_only st" "serial_only (st\<lparr>a_cmd := c\<rparr>) = serial_only st"
  "serial_only (st\<lparr>a_out := (a_out st)\<lparr>co_uart := us\<rparr>\<rparr>) = serial_only st"
  by (simp_all add: serial_only_def)

lemma console_colors: "co_uart (fold console_color vs s) = co_uart s" "co_ready (fold console_color vs s) = co_ready s"
  "co_use (fold console_color vs s) = co_use s"
  by (induction vs arbitrary: s) (simp_all add: console_color_def)

lemma normal_step:
  assumes "decoder_ok st" "serial_only st"
  shows "\<exists>st'. enter_state (ansi_normal (uart_putc font) c st) = Inr st' \<and> decoder_ok st' \<and> serial_only st' \<and>
    a_state st' = (if c = 27 then ANSI_ESCAPE else ANSI_NORMAL) \<and>
    uart_of st' = uart_of st @ (if c = 27 then [] else uart_bytes c)"
  using assms uart_putc_serial [of "a_out st" font c]
  by (auto simp: enter_state_def ansi_normal_def decoder_ok_def serial_only_def)

lemma end_step:
  assumes "decoder_ok st" "serial_only st" "a_state st = ANSI_END_PARSING"
  shows "\<exists>s. enter_state (ansi_end_escape console_color c st) = Inr s \<and> decoder_ok s \<and> serial_only s \<and> uart_of s = uart_of st"
proof -
  have "0 \<in> set (a_params st)" using assms by (simp add: decoder_ok_def)
  from read_params_ok [OF this, of 5] obtain vs where "read_params 5 (a_params st) = Inr vs" by blast
  then show ?thesis using assms
    by (auto simp: enter_state_def ansi_end_escape_def decoder_ok_def serial_only_def console_colors)
qed

lemma print_step:
  assumes "decoder_ok st" "serial_only st" "a_state st \<in> {ANSI_NORMAL, ANSI_END_PARSING}"
  shows "\<exists>st'. kernel_decoder font c st = Inr st' \<and> decoder_ok st' \<and> serial_only st' \<and>
    a_state st' = (if c = 27 then ANSI_ESCAPE else ANSI_NORMAL) \<and>
    uart_of st' = uart_of st @ (if c = 27 then [] else uart_bytes c)"
proof (cases "a_state st = ANSI_NORMAL")
  case True
  then show ?thesis using normal_step [OF assms(1,2)] by (simp add: kernel_decoder_def ansi_decoder_def)
next
  case False
  then have e: "a_state st = ANSI_END_PARSING" using assms(3) by simp
  from end_step [OF assms(1,2) e] obtain s where
    s: "enter_state (ansi_end_escape console_color c st) = Inr s" "decoder_ok s" "serial_only s" "uart_of s = uart_of st" by blast
  from normal_step [OF s(2,3)] show ?thesis using e s(1,4) by (simp add: kernel_decoder_def ansi_decoder_def)
qed

lemma escape_step:
  assumes "decoder_ok st" "serial_only st" "a_state st = ANSI_ESCAPE"
  shows "\<exists>st'. kernel_decoder font c st = Inr st' \<and> decoder_ok st' \<and> serial_only st' \<and> uart_of st' = uart_of st \<and>
    (c = 91 \<longrightarrow> a_state st' = ANSI_PARSING \<and> a_len st' = 0)"
  using assms by (auto simp: kernel_decoder_def ansi_decoder_def enter_state_def ansi_escape_def decoder_ok_def serial_only_def)

lemma parsing_step:
  assumes "decoder_ok st" "serial_only st" "a_state st = ANSI_PARSING"
  shows "\<exists>st'. kernel_decoder font c st = Inr st' \<and> decoder_ok st' \<and> serial_only st' \<and> uart_of st' = uart_of st \<and>
    (c = 109 \<longrightarrow> a_state st' = ANSI_END_PARSING) \<and>
    ((is_digit c \<or> c = 59) \<and> a_len st < 15 \<longrightarrow> a_state st' = ANSI_PARSING \<and> a_len st' = a_len st + 1)"
proof -
  note d = kernel_decoder_def ansi_decoder_def enter_state_def ansi_parsing_def put_param_def decoder_ok_def serial_only_def
  have n: "a_len st < length (a_params st)" "length (a_params st) = 16" using assms(1) by (simp_all add: decoder_ok_def)
  have z: "0 \<in> set ((a_params st)[a_len st := 0])" using n(1) by (rule set_update_memI)
  show ?thesis
    using assms n z by (auto simp: d is_digit_def)
qed

lemma decoder_step:
  assumes "decoder_ok st" "serial_only st"
  shows "\<exists>st'. kernel_decoder font c st = Inr st' \<and> decoder_ok st' \<and> serial_only st'"
proof (cases "a_state st")
  case ANSI_ESCAPE
  then show ?thesis using escape_step [OF assms, of font c] by blast
next
  case ANSI_PARSING
  then show ?thesis using parsing_step [OF assms, of font c] by blast
qed (use print_step [OF assms, of font c] in auto)

lemma emit_append: "emit_string dec (s @ t) st = bindR (emit_string dec s st) (emit_string dec t)"
proof (induction s arbitrary: st)
  case (Cons c s)
  then show ?case by (cases "dec c st") simp_all
qed simp

text \<open>Text in the normal state.\<close>

definition ready_tty :: "tty \<Rightarrow> bool" where
  "ready_tty st \<longleftrightarrow> decoder_ok st \<and> serial_only st \<and> a_state st \<in> {ANSI_NORMAL, ANSI_END_PARSING}"

definition printed :: "tty \<Rightarrow> u8 list \<Rightarrow> tty \<Rightarrow> bool" where
  "printed st s st' \<longleftrightarrow> ready_tty st' \<and> uart_of st' = uart_of st @ s"

lemma printed_trans: "printed a s b \<Longrightarrow> printed b t c \<Longrightarrow> printed a (s @ t) c"
  by (simp add: printed_def)

lemma printedD: "printed st s st' \<Longrightarrow> ready_tty st'"
  by (simp add: printed_def)

lemma emit_plain:
  "ready_tty st \<Longrightarrow> 27 \<notin> set s \<Longrightarrow>
     \<exists>st'. emit_string (kernel_decoder font) s st = Inr st' \<and> printed st (concat (map uart_bytes s)) st'"
proof (induction s arbitrary: st)
  case (Cons c s)
  from Cons.prems have h: "decoder_ok st" "serial_only st" "a_state st \<in> {ANSI_NORMAL, ANSI_END_PARSING}" "c \<noteq> 27"
    by (simp_all add: ready_tty_def)
  from print_step [OF h(1-3), of font c] h(4) obtain s1 where
    s1: "kernel_decoder font c st = Inr s1" "decoder_ok s1" "serial_only s1" "a_state s1 = ANSI_NORMAL"
      "uart_of s1 = uart_of st @ uart_bytes c" by auto
  then have r: "ready_tty s1" "printed st (uart_bytes c) s1" by (simp_all add: ready_tty_def printed_def)
  from Cons.IH [OF r(1)] Cons.prems obtain st' where
    "emit_string (kernel_decoder font) s s1 = Inr st'" "printed s1 (concat (map uart_bytes s)) st'" by auto
  then show ?case using s1(1) printed_trans [OF r(2)] by auto
qed (simp add: printed_def)

text \<open>A piece of output: plain text, or an escape sequence that sets colours.\<close>

datatype piece = Plain "u8 list" | Sgr "u8 list"

fun piece_ok :: "piece \<Rightarrow> bool" where
  "piece_ok (Plain s) \<longleftrightarrow> 27 \<notin> set s"
| "piece_ok (Sgr ps) \<longleftrightarrow> length ps \<le> 15 \<and> (\<forall>c\<in>set ps. is_digit c \<or> c = 59)"

fun piece_bytes :: "piece \<Rightarrow> u8 list" where
  "piece_bytes (Plain s) = s"
| "piece_bytes (Sgr ps) = 27 # 91 # ps @ [109]"

fun visible :: "piece \<Rightarrow> u8 list" where
  "visible (Plain s) = concat (map uart_bytes s)"
| "visible (Sgr ps) = []"

lemma params_step:
  "decoder_ok st \<Longrightarrow> serial_only st \<Longrightarrow> a_state st = ANSI_PARSING \<Longrightarrow> a_len st + length ps \<le> 15 \<Longrightarrow>
     \<forall>c\<in>set ps. is_digit c \<or> c = 59 \<Longrightarrow>
     \<exists>st'. emit_string (kernel_decoder font) (ps @ [109]) st = Inr st' \<and> ready_tty st' \<and> uart_of st' = uart_of st"
proof (induction ps arbitrary: st)
  case Nil
  from parsing_step [OF Nil(1-3), of font 109] show ?case by (auto simp: ready_tty_def)
next
  case (Cons c ps)
  have "is_digit c \<or> c = 59" "a_len st < 15" using Cons.prems by auto
  with parsing_step [OF Cons.prems(1-3), of font c] obtain s1 where
    s1: "kernel_decoder font c st = Inr s1" "decoder_ok s1" "serial_only s1" "uart_of s1 = uart_of st"
      "a_state s1 = ANSI_PARSING" "a_len s1 = a_len st + 1" by blast
  have "a_len s1 + length ps \<le> 15" "\<forall>c\<in>set ps. is_digit c \<or> c = 59" using s1(6) Cons.prems(4,5) by auto
  from Cons.IH [OF s1(2,3,5) this] show ?case using s1(1,4) by auto
qed

lemma emit_piece:
  assumes r: "ready_tty st" and p: "piece_ok p"
  shows "\<exists>st'. emit_string (kernel_decoder font) (piece_bytes p) st = Inr st' \<and> printed st (visible p) st'"
proof (cases p)
  case (Plain s)
  then show ?thesis using emit_plain [OF r] p by simp
next
  case (Sgr ps)
  from r have h: "decoder_ok st" "serial_only st" "a_state st \<in> {ANSI_NORMAL, ANSI_END_PARSING}" by (simp_all add: ready_tty_def)
  from print_step [OF h, of font 27] obtain s1 where s1: "kernel_decoder font 27 st = Inr s1" "decoder_ok s1" "serial_only s1"
    "a_state s1 = ANSI_ESCAPE" "uart_of s1 = uart_of st" by auto
  from escape_step [OF s1(2-4), of font 91] obtain s2 where s2: "kernel_decoder font 91 s1 = Inr s2" "decoder_ok s2"
    "serial_only s2" "uart_of s2 = uart_of s1" "a_state s2 = ANSI_PARSING" "a_len s2 = 0" by auto
  from params_step [OF s2(2,3,5), of ps font] p s2(6) Sgr obtain s3 where
    "emit_string (kernel_decoder font) (ps @ [109]) s2 = Inr s3" "ready_tty s3" "uart_of s3 = uart_of s2" by auto
  then show ?thesis using s1(1,5) s2(1,4) Sgr by (auto simp: printed_def)
qed

section \<open>Numbers\<close>

text \<open>The value of a digit string, least significant digit first, and of a printed number.\<close>

fun digits_value :: "int \<Rightarrow> (u8 \<Rightarrow> int) \<Rightarrow> u8 list \<Rightarrow> int" where
  "digits_value b f [] = 0"
| "digits_value b f (d # ds) = f d + b * digits_value b f ds"

definition read_number :: "int \<Rightarrow> (u8 \<Rightarrow> int) \<Rightarrow> u8 list \<Rightarrow> int" where
  "read_number b f s = foldl (\<lambda>v d. b * v + f d) 0 s"

definition dec_digit :: "u8 \<Rightarrow> int" where "dec_digit c = uint c - 48"

definition hex_digit :: "u8 \<Rightarrow> int" where "hex_digit c = (if c \<le> 57 then uint c - 48 else uint c - 55)"

definition read_int :: "u8 list \<Rightarrow> int" where
  "read_int s = (if s \<noteq> [] \<and> hd s = 45 then - read_number 10 dec_digit (tl s) else read_number 10 dec_digit s)"

lemma read_number_rev: "read_number b f (rev ds) = digits_value b f ds"
  by (induction ds) (simp_all add: read_number_def add.commute)

lemma int_digits_pos:
  "0 < n \<Longrightarrow> digits_value 10 dec_digit (int_digits n) = n \<and> list_all is_digit (int_digits n) \<and> int_digits n \<noteq> []"
proof (induction n rule: int_digits.induct)
  case (1 n)
  have s: "n smod 10 = n mod 10" "n sdiv 10 = n div 10"
    using "1.prems" by (simp_all add: signed_divide_int_def signed_modulo_int_def minus_mult_div_eq_mod)
  have m: "0 \<le> n mod 10" "n mod 10 < 10" by simp_all
  define w :: u8 where "w = word_of_int (48 + n mod 10)"
  have "uint w = 48 + n mod 10"
    unfolding w_def uint_word_of_int using m by (simp add: mod_pos_pos_trivial)
  then have d: "dec_digit w = n mod 10" "is_digit w" using m by (simp_all add: dec_digit_def is_digit_def word_le_def)
  have e: "int_digits n = w # int_digits (n div 10)"
    using "1.prems" unfolding w_def by (subst int_digits.simps) (simp only: s if_not_P less_imp_neq [symmetric] not_False_eq_True)
  show ?case
  proof (cases "n div 10 = 0")
    case True
    have "int_digits 0 = []" by (subst int_digits.simps) simp
    moreover have "n mod 10 = n" using True "1.prems" by (metis div_mult_mod_eq add_0 mult_zero_left)
    ultimately show ?thesis unfolding e True using d by simp
  next
    case False
    then have "0 < n div 10" using "1.prems" by (simp add: pos_imp_zdiv_nonneg_iff order_less_le)
    with "1.IH" "1.prems" have "digits_value 10 dec_digit (int_digits (n div 10)) = n div 10" "list_all is_digit (int_digits (n div 10))"
      by (simp_all add: s)
    then show ?thesis unfolding e using d by simp
  qed
qed

lemma digits_length: "0 < n \<Longrightarrow> n < 10 ^ Suc k \<Longrightarrow> length (int_digits n) \<le> Suc k"
proof (induction k arbitrary: n)
  case 0
  have "n sdiv 10 = 0" using 0 by (simp add: signed_divide_int_def)
  then show ?case using 0 by (subst int_digits.simps) (simp add: int_digits.simps [of 0])
next
  case (Suc k)
  have s: "n sdiv 10 = n div 10" using Suc.prems by (simp add: signed_divide_int_def)
  have l: "length (int_digits n) = Suc (length (int_digits (n div 10)))"
    using Suc.prems by (subst int_digits.simps) (simp add: s)
  show ?case
  proof (cases "n div 10 = 0")
    case True
    then show ?thesis unfolding l by (simp add: int_digits.simps [of 0])
  next
    case False
    have "0 < n div 10" using False Suc.prems(1) by (simp add: pos_imp_zdiv_nonneg_iff order_less_le)
    moreover have "n div 10 < 10 ^ Suc k" using Suc.prems(2) by simp
    ultimately show ?thesis using Suc.IH l by simp
  qed
qed

lemma shift_nibble: "unat (drop_bit 4 x :: u64) = unat x div 16" "uint (drop_bit 4 x :: u64) = uint x div 16"
proof -
  show n: "unat (drop_bit 4 x) = unat x div 16" by (simp add: unat_drop_bit_eq drop_bit_eq_div [where 'a = nat])
  have "int (unat (drop_bit 4 x)) = int (unat x) div 16" unfolding n by (simp add: zdiv_int)
  then show "uint (drop_bit 4 x) = uint x div 16" by simp
qed

lemma hex_char: "v \<le> 15 \<Longrightarrow> hex_digit (nibble_to_char v) = uint v \<and> nibble_to_char v \<noteq> 27 \<and> nibble_to_char v \<noteq> 10"
proof -
  assume "v \<le> 15"
  then have "v \<in> {0, 1, 2, 3, 4, 5, 6, 7, 8, 9, 10, 11, 12, 13, 14, 15}"
    by (simp add: word_le_nat_alt word_unat_eq_iff) arith
  then show ?thesis by (auto simp: hex_digit_def nibble_to_char_def)
qed

lemma hex_digits_value:
  "digits_value 16 hex_digit (hex_digits x) = uint x \<and> 27 \<notin> set (hex_digits x) \<and> 10 \<notin> set (hex_digits x)"
proof (induction x rule: hex_digits.induct)
  case (1 x)
  let ?v = "ucast (x AND 0xF) :: u8"
  have a: "x AND 0xF = take_bit 4 x" by (simp add: take_bit_eq_mask mask_eq_exp_minus_1)
  have v: "uint ?v = uint x mod 16"
    unfolding a by (simp add: unsigned_ucast_eq unsigned_take_bit_eq take_bit_eq_mod [where 'a = int] mod_mod_cancel)
  have "?v \<le> 15" by (simp add: word_le_def v)
  note h = hex_char [OF this]
  note d = shift_nibble(2) [of x]
  show ?case
  proof (cases "drop_bit 4 x = 0")
    case True
    then have "uint x div 16 = 0" using d by simp
    then have "uint x mod 16 = uint x" by (metis div_mult_mod_eq add_0 mult_zero_left)
    then show ?thesis using True h v by (subst (1 2 3) hex_digits.simps) simp
  next
    case False
    then show ?thesis using "1.IH" h v d by (subst (1 2 3) hex_digits.simps) auto
  qed
qed

lemma hex_digits_length: "unat x < 16 ^ Suc k \<Longrightarrow> length (hex_digits x) \<le> Suc k"
proof (induction k arbitrary: x)
  case 0
  have "unat (drop_bit 4 x) = 0" using 0 unfolding shift_nibble(1) by simp
  then have "drop_bit 4 x = 0" by (simp only: unat_eq_0)
  then show ?case by (subst hex_digits.simps) simp
next
  case (Suc k)
  have "unat (drop_bit 4 x) < 16 ^ Suc k" using Suc.prems unfolding shift_nibble(1) by (simp add: less_mult_imp_div_less)
  then show ?case using Suc.IH by (subst hex_digits.simps) simp
qed

lemma dec_digits_value:
  "digits_value 10 dec_digit (dec_digits x) = uint x \<and> list_all is_digit (dec_digits x)"
proof (induction x rule: dec_digits.induct)
  case (1 x)
  show ?case
  proof (cases "x = 0")
    case True
    then show ?thesis by (simp add: dec_digits.simps [of 0])
  next
    case False
    define w :: u8 where "w = ucast (48 + x mod 10)"
    have m: "uint (x mod 10) = uint x mod 10" by (simp add: uint_mod_distrib)
    have b: "0 \<le> uint x mod 10" "uint x mod 10 < 10" by simp_all
    have "uint (48 + x mod 10) = 48 + uint x mod 10" using b by (simp add: uint_word_ariths m mod_pos_pos_trivial)
    then have "uint w = 48 + uint x mod 10" unfolding w_def unsigned_ucast_eq using b by (simp add: take_bit_int_eq_self)
    then have d: "dec_digit w = uint x mod 10" "is_digit w" using b by (simp_all add: dec_digit_def is_digit_def word_le_def)
    have e: "dec_digits x = w # dec_digits (x div 10)" using False unfolding w_def by (subst dec_digits.simps) simp
    show ?thesis unfolding e using d "1.IH" [OF False] by (simp add: uint_div_distrib)
  qed
qed

lemma dec_digits_length: "unat x < 10 ^ k \<Longrightarrow> length (dec_digits x) \<le> k"
proof (induction k arbitrary: x)
  case 0
  then have "x = 0" by (simp add: unat_eq_0)
  then show ?case by (simp add: dec_digits.simps [of 0])
next
  case (Suc k)
  have "unat (x div 10) < 10 ^ k" using Suc.prems by (simp add: unat_div_distrib less_mult_imp_div_less)
  then show ?case using Suc.IH by (subst dec_digits.simps) simp
qed

lemma digits_plain: "list_all is_digit s \<Longrightarrow> 27 \<notin> set s \<and> 10 \<notin> set s \<and> 45 \<notin> set s"
  by (auto simp: list_all_iff is_digit_def)

lemma no_newline: "10 \<notin> set s \<Longrightarrow> concat (map uart_bytes s) = s"
  by (induction s) (auto simp: uart_bytes_def)

lemma emit_number:
  "ready_tty st \<Longrightarrow> 27 \<notin> set s \<Longrightarrow> 10 \<notin> set s \<Longrightarrow>
     \<exists>st'. emit_string (kernel_decoder font) s st = Inr st' \<and> printed st s st'"
  using emit_plain [of st s font] by (simp add: no_newline)

lemma emit_single: "dec c st = emit_string dec [c] st"
  by (cases "dec c st") simp_all

lemma emit_int:
  assumes r: "ready_tty st" and w: "w \<noteq> 0x80000000"
  shows "\<exists>s st'. parse_and_emit_int (kernel_decoder font) w st = Inr st' \<and> printed st s st' \<and> read_int s = sint w"
proof -
  consider "sint w = 0" | "0 < sint w" | "sint w < 0" by linarith
  then show ?thesis
  proof cases
    case 1
    from emit_number [OF r, of "[48]" font] obtain st' where
      "emit_string (kernel_decoder font) [48] st = Inr st'" "printed st [48] st'" by auto
    then show ?thesis unfolding parse_and_emit_int_def emit_single [of _ 48] using 1
      by (intro exI [of _ "[48]"]) (simp add: read_int_def read_number_def dec_digit_def)
  next
    case 2
    let ?s = "rev (int_digits (sint w))"
    have b: "sint w < 2 ^ 31" using sint_lt [of w] by simp
    have d: "digits_value 10 dec_digit (int_digits (sint w)) = sint w" "list_all is_digit (int_digits (sint w))"
      using int_digits_pos [OF 2] by simp_all
    have l: "length (int_digits (sint w)) \<le> 10" using digits_length [of "sint w" 9] 2 b by simp
    have p: "27 \<notin> set ?s" "10 \<notin> set ?s" "45 \<notin> set ?s" using digits_plain [OF d(2)] by simp_all
    then have "read_int ?s = sint w" using d(1) hd_in_set [of ?s] unfolding read_int_def read_number_rev by auto
    moreover from emit_number [OF r p(1,2), of font] obtain st' where
      "emit_string (kernel_decoder font) ?s st = Inr st'" "printed st ?s st'" by auto
    ultimately show ?thesis unfolding parse_and_emit_int_def using 2 l by (intro exI [of _ ?s]) (simp add: Let_def)
  next
    case 3
    have ne: "sint w \<noteq> - (2 ^ 31)"
    proof
      assume "sint w = - (2 ^ 31)"
      then have "(of_int (sint w) :: u32) = of_int (- (2 ^ 31))" by (rule arg_cong)
      then show False using w by simp
    qed
    have b: "- (2 ^ 31) \<le> sint w" using sint_ge [of w] by simp
    have neg: "neg_int (sint w) = - sint w"
    proof -
      have "neg_int (sint w) = signed_take_bit 31 (- sint w)" by (simp add: neg_int_def sint_word_ariths)
      also have "\<dots> = - sint w" by (rule signed_take_bit_int_eq_self) (use b ne 3 in simp_all)
      finally show ?thesis .
    qed
    have n: "0 < - sint w" "- sint w < 10 ^ Suc 9" using 3 b by simp_all
    let ?s = "rev (int_digits (- sint w))"
    have d: "digits_value 10 dec_digit (int_digits (- sint w)) = - sint w" "list_all is_digit (int_digits (- sint w))"
      using int_digits_pos [OF n(1)] by simp_all
    have l: "length (int_digits (- sint w)) \<le> 10" using digits_length [OF n] by simp
    have p: "27 \<notin> set (45 # ?s)" "10 \<notin> set (45 # ?s)" using digits_plain [OF d(2)] by simp_all
    have "read_int (45 # ?s) = sint w" using d(1) by (simp add: read_int_def read_number_rev)
    moreover from emit_number [OF r p, of font] obtain st' where
      "emit_string (kernel_decoder font) (45 # ?s) st = Inr st'" "printed st (45 # ?s) st'" by auto
    ultimately show ?thesis unfolding parse_and_emit_int_def neg using 3 l
      by (intro exI [of _ "45 # ?s"]) (auto simp: Let_def neg)
  qed
qed

lemma emit_hex:
  assumes r: "ready_tty st"
  shows "\<exists>s st'. parse_and_emit_hex (kernel_decoder font) x st = Inr st' \<and> printed st s st' \<and> read_number 16 hex_digit s = uint x"
proof -
  let ?s = "rev (hex_digits x)"
  note v = hex_digits_value [of x]
  have "unat x < 2 ^ 64" using unsigned_less [of x] by simp
  then have "unat x < 16 ^ Suc 15" by simp
  then have l: "length (hex_digits x) \<le> 16" using hex_digits_length by fastforce
  have "27 \<notin> set ?s" "10 \<notin> set ?s" using v by simp_all
  from emit_number [OF r this, of font] obtain st' where
    "emit_string (kernel_decoder font) ?s st = Inr st'" "printed st ?s st'" by blast
  then show ?thesis using v l
    by (intro exI [of _ ?s] exI [of _ st']) (simp add: parse_and_emit_hex_def Let_def read_number_rev)
qed

lemma padded_value: "digits_value 10 dec_digit (ds @ replicate n 48) = digits_value 10 dec_digit ds"
proof -
  have "digits_value 10 dec_digit (replicate n 48) = 0" by (induction n) (simp_all add: dec_digit_def)
  then show ?thesis by (induction ds) simp_all
qed

lemma emit_padded:
  assumes r: "ready_tty st" and w: "sint width \<le> 24"
  shows "\<exists>s st'. parse_and_emit_padded (kernel_decoder font) x width st = Inr st' \<and> printed st s st' \<and>
    read_number 10 dec_digit s = uint x \<and> sint width \<le> int (length s)"
proof -
  define ds where "ds = (if x = 0 then [48] else dec_digits x)"
  let ?ds = "ds @ replicate (nat (sint width) - length ds) 48"
  have "unat x < 2 ^ 64" using unsigned_less [of x] by simp
  then have "unat x < 10 ^ 20" by simp
  then have l: "length ds \<le> 20" using dec_digits_length [of x 20] by (simp add: ds_def)
  have v: "digits_value 10 dec_digit ds = uint x" "list_all is_digit ds"
    using dec_digits_value [of x] by (simp_all add: ds_def dec_digit_def is_digit_def)
  then have v': "digits_value 10 dec_digit ?ds = uint x" "list_all is_digit ?ds"
    unfolding padded_value by (auto simp: list_all_iff is_digit_def)
  have "27 \<notin> set (rev ?ds)" "10 \<notin> set (rev ?ds)" using digits_plain [OF v'(2)] by simp_all
  from emit_number [OF r this, of font] obtain st' where
    e: "emit_string (kernel_decoder font) (rev ?ds) st = Inr st'" "printed st (rev ?ds) st'" by blast
  have "length ?ds \<le> 24" using l w by auto
  then have "parse_and_emit_padded (kernel_decoder font) x width st = Inr st'"
    using e(1) unfolding parse_and_emit_padded_def Let_def ds_def [symmetric] by (simp del: rev_append)
  moreover have "read_number 10 dec_digit (rev ?ds) = uint x" unfolding read_number_rev by (rule v'(1))
  moreover have "sint width \<le> int (length (rev ?ds))" by auto
  ultimately show ?thesis using e(2) by blast
qed

section \<open>Properties\<close>

definition boot_console :: tty where
  "boot_console = \<lparr>a_state = ANSI_NORMAL, a_params = replicate 16 0, a_len = 0, a_cmd = 0,
     a_out = \<lparr>co_uart = [], co_ready = False, co_use = True,
        co_panel = \<lparr>pn_fb = (\<lambda>_. 0), pn_line = 0, pn_cursor = 0, pn_text = COLOR_WHITE, pn_background = COLOR_BLACK\<rparr>\<rparr>\<rparr>"

lemma boot_console_ok: "ready_tty boot_console"
  by (simp add: boot_console_def ready_tty_def decoder_ok_def serial_only_def)





text \<open>
  The write operation of the console's file takes the user's buffer as a format: what the program
  wrote after a percent sign is a conversion, and its argument is whatever lies in the registers.
\<close>

theorem uart_write_is_a_format:
  assumes "ready_tty st" and "27 \<notin> set (str a)"
  shows "\<exists>st'. uart_write font str [37, 115] 2 [a] st = Inr (0, st') \<and> printed st (concat (map uart_bytes (str a))) st'"
proof -
  from emit_plain [OF assms, of font] obtain st' where
    "emit_string (kernel_decoder font) (str a) st = Inr st'" "printed st (concat (map uart_bytes (str a))) st'" by blast
  then show ?thesis by (intro exI [of _ st']) (simp add: uart_write_def kprintf_def expand_def expand_char_def)
qed

section \<open>The panel\<close>

definition panel_ok :: "panel \<Rightarrow> bool" where
  "panel_ok p \<longleftrightarrow> unat (pn_line p) < 24 \<and> unat (pn_cursor p) < 800 \<and> 10 dvd unat (pn_cursor p)"

lemma int_index: "unat v < 2 ^ 31 \<Longrightarrow> scast (ucast v :: u32) = (v :: u64)"
proof -
  assume v: "unat v < 2 ^ 31"
  have "\<not> bit v n" if "31 \<le> n" for n
  proof
    assume "bit v n"
    then have "2 ^ n \<le> unat v" by (rule bit_word_exp_le)
    moreover have "(2::nat) ^ 31 \<le> 2 ^ n" using that by (rule power_increasing) simp
    ultimately show False using v by linarith
  qed
  then show ?thesis
    by (intro bit_word_eqI) (auto simp: bit_simps min_def not_le)
qed

lemma unat_fb_index:
  assumes "unat (pn_line p) < 24" "unat (pn_cursor p) < 1000000"
  shows "unat (fb_index p) = unat (pn_line p) * 16000 + unat (pn_cursor p)"
proof -
  have "unat (pn_line p * 800 * 20 + pn_cursor p) = unat (pn_line p) * 16000 + unat (pn_cursor p)"
    using assms by (simp add: unat_word_ariths mult.assoc)
  moreover have "unat (pn_line p) * 16000 + unat (pn_cursor p) < 2 ^ 31" using assms by simp
  ultimately show ?thesis unfolding fb_index_def by (subst int_index) simp_all
qed

definition pixel_index :: "u64 \<Rightarrow> nat \<times> nat \<Rightarrow> u64" where
  "pixel_index i rc = i + of_nat (fst rc * 800) + of_nat (snd rc)"

lemma unat_pixel_index:
  assumes "unat i < 2 ^ 32" "r < 20" "c < 10"
  shows "unat (pixel_index i (r, c)) = unat i + r * 800 + c"
  using assms by (simp add: pixel_index_def unat_word_ariths unsigned_of_nat take_bit_nat_eq_self)

lemma glyph_pixels_mem: "(r, c) \<in> set glyph_pixels \<longleftrightarrow> r < 20 \<and> c < 10"
  by (auto simp: glyph_pixels_def)

definition pixel_colour :: "(nat \<Rightarrow> u8) \<Rightarrow> panel \<Rightarrow> nat \<times> nat \<Rightarrow> u32" where
  "pixel_colour glyph p rc =
     (if glyph_row glyph (fst rc) AND drop_bit (snd rc) 0x8000 \<noteq> 0 then pn_text p else pn_background p)"

definition paint :: "('a \<Rightarrow> u64) \<Rightarrow> ('a \<Rightarrow> u32) \<Rightarrow> 'a \<Rightarrow> (u64 \<Rightarrow> u32) \<Rightarrow> u64 \<Rightarrow> u32" where
  "paint k v x fb = fb(k x := v x)"

lemma paint_sel: "paint k v x fb (k x) = v x" "i \<noteq> k x \<Longrightarrow> paint k v x fb i = fb i"
  by (simp_all add: paint_def)

text \<open>Drawing in bounds writes the pixels and nothing else.\<close>

lemma draw_pixels_eq:
  assumes "\<And>rc. rc \<in> set rcs \<Longrightarrow> pixel_index i rc < FB_PIXELS"
  shows "draw_pixels glyph i rcs p =
    Inr (p\<lparr>pn_fb := fold (paint (pixel_index i) (pixel_colour glyph p)) rcs (pn_fb p)\<rparr>)"
  using assms
proof (induction rcs arbitrary: p)
  case (Cons rc rcs)
  have d: "draw_pixel glyph i rc p = Inr (p\<lparr>pn_fb := paint (pixel_index i) (pixel_colour glyph p) rc (pn_fb p)\<rparr>)"
    using Cons.prems [of rc] by (cases rc) (simp add: draw_pixel_def write_pixel_def pixel_index_def pixel_colour_def paint_def)
  have c: "pixel_colour glyph (p\<lparr>pn_fb := f\<rparr>) = pixel_colour glyph p" for f
    by (rule ext) (simp add: pixel_colour_def)
  show ?case using Cons by (simp add: d c)
qed simp

lemma fold_upd:
  "inj_on k (set xs) \<Longrightarrow> x \<in> set xs \<Longrightarrow> fold (paint k v) xs f (k x) = v x"
  "i \<notin> k ` set xs \<Longrightarrow> fold (paint k v) xs f i = f i"
proof -
  show a: "i \<notin> k ` set xs \<Longrightarrow> fold (paint k v) xs f i = f i" for i f xs
    by (induction xs arbitrary: f) (auto simp: paint_sel)
  show "inj_on k (set xs) \<Longrightarrow> x \<in> set xs \<Longrightarrow> fold (paint k v) xs f (k x) = v x"
  proof (induction xs arbitrary: f)
    case (Cons y ys)
    show ?case
    proof (cases "x \<in> set ys")
      case True
      then show ?thesis using Cons by simp
    next
      case False
      then have "x = y" "k x \<notin> k ` set ys" using Cons.prems by auto
      then show ?thesis using a [of "k x" ys] by (simp add: paint_sel)
    qed
  qed simp
qed

lemma pixel_in_bounds:
  assumes "panel_ok p" "rc \<in> set glyph_pixels"
  shows "pixel_index (fb_index p) rc < FB_PIXELS" "unat (fb_index p) < 2 ^ 32"
proof -
  obtain r c where e: "rc = (r, c)" by (cases rc)
  then have rc: "rc = (r, c)" "r < 20" "c < 10" using assms(2) by (simp_all add: glyph_pixels_mem)
  have p: "unat (pn_line p) < 24" "unat (pn_cursor p) < 800" "10 dvd unat (pn_cursor p)" using assms(1) by (simp_all add: panel_ok_def)
  from p(3) obtain m where m: "unat (pn_cursor p) = 10 * m" by (rule dvdE)
  with p(2) have c: "unat (pn_cursor p) \<le> 790" by simp
  have i: "unat (fb_index p) = unat (pn_line p) * 16000 + unat (pn_cursor p)" using p by (intro unat_fb_index) simp_all
  then show b: "unat (fb_index p) < 2 ^ 32" using p by simp
  have "unat (pixel_index (fb_index p) (r, c)) < 384000" unfolding unat_pixel_index [OF b rc(2,3)] i using p c rc by simp
  then show "pixel_index (fb_index p) rc < FB_PIXELS" by (simp add: rc(1) FB_PIXELS_def word_less_nat_alt)
qed

lemma newline_ok: "unat (pn_line p) < 24 \<Longrightarrow> panel_ok (newline p)"
proof -
  assume l: "unat (pn_line p) < 24"
  have s: "unat (pn_line p + 1) = unat (pn_line p) + 1" using l by (simp add: unat_word_ariths)
  show ?thesis
  proof (cases "pn_line p + 1 = 24")
    case True
    then have "unat (pn_line (newline p)) = 23" "pn_cursor (newline p) = 0" by (simp_all add: newline_def scroll_def Let_def)
    then show ?thesis by (simp add: panel_ok_def)
  next
    case False
    then have "unat (pn_line p + 1) \<noteq> 24" by (simp add: word_unat_eq_iff)
    then show ?thesis using False s l by (simp add: newline_def panel_ok_def Let_def)
  qed
qed

text \<open>Printing one glyph.\<close>

definition drawn :: "(nat \<Rightarrow> u8) \<Rightarrow> panel \<Rightarrow> panel" where
  "drawn glyph p = p\<lparr>pn_fb := fold (paint (pixel_index (fb_index p)) (pixel_colour glyph p)) glyph_pixels (pn_fb p)\<rparr>"

lemma print_glyph_at_ok:
  assumes "panel_ok p"
  shows "print_glyph_at glyph p = Inr (if pn_cursor p = 790 then newline ((drawn glyph p)\<lparr>pn_cursor := 800\<rparr>)
      else (drawn glyph p)\<lparr>pn_cursor := pn_cursor p + 10\<rparr>)"
    "panel_ok (if pn_cursor p = 790 then newline ((drawn glyph p)\<lparr>pn_cursor := 800\<rparr>)
      else (drawn glyph p)\<lparr>pn_cursor := pn_cursor p + 10\<rparr>)"
proof -
  have d: "draw_pixels glyph (fb_index p) glyph_pixels p = Inr (drawn glyph p)"
    unfolding drawn_def using pixel_in_bounds(1) [OF assms] by (rule draw_pixels_eq)
  have c: "pn_cursor (drawn glyph p) = pn_cursor p" "pn_line (drawn glyph p) = pn_line p" by (simp_all add: drawn_def)
  have "pn_cursor p + 10 = 800 \<longleftrightarrow> pn_cursor p = 800 - 10" unfolding eq_diff_eq ..
  then have e: "pn_cursor p + 10 = 800 \<longleftrightarrow> pn_cursor p = 790" by simp
  show "print_glyph_at glyph p = Inr (if pn_cursor p = 790 then newline ((drawn glyph p)\<lparr>pn_cursor := 800\<rparr>)
      else (drawn glyph p)\<lparr>pn_cursor := pn_cursor p + 10\<rparr>)"
    by (auto simp: print_glyph_at_def d c Let_def e)
  show "panel_ok (if pn_cursor p = 790 then newline ((drawn glyph p)\<lparr>pn_cursor := 800\<rparr>)
      else (drawn glyph p)\<lparr>pn_cursor := pn_cursor p + 10\<rparr>)"
  proof (cases "pn_cursor p = 790")
    case True
    then show ?thesis using assms newline_ok by (simp add: panel_ok_def c)
  next
    case False
    obtain m where m: "unat (pn_cursor p) = 10 * m" "m < 80" using assms by (auto simp: panel_ok_def elim: dvdE)
    have "unat (pn_cursor p) \<noteq> 790" using False by (simp add: word_unat_eq_iff)
    then have "m < 79" using m by simp
    moreover have "unat (pn_cursor p + 10) = 10 * m + 10" using m by (simp add: unat_word_ariths)
    ultimately show ?thesis using False assms by (simp add: panel_ok_def c)
  qed
qed

lemma print_glyph_ok:
  assumes ok: "panel_ok p" and c: "c \<noteq> 9"
  shows "\<exists>p'. print_glyph font c p = Inr p' \<and> panel_ok p'"
proof -
  consider "c = 10 \<or> c = 13" | "c = 127" "pn_cursor p = 0" | "c = 127" "pn_cursor p \<noteq> 0" | "c \<notin> {9, 10, 13, 127}" using c by auto
  then show ?thesis
  proof cases
    case 1
    then show ?thesis using ok newline_ok by (simp add: print_glyph_def panel_ok_def)
  next
    case 2
    then show ?thesis using ok by (simp add: print_glyph_def)
  next
    case 3
    let ?q = "p\<lparr>pn_cursor := pn_cursor p - 10\<rparr>"
    obtain m where m: "unat (pn_cursor p) = 10 * m" "m < 80" using ok by (auto simp: panel_ok_def elim: dvdE)
    moreover have "unat (pn_cursor p) \<noteq> 0" using 3(2) by (simp only: unat_eq_0) simp
    ultimately have m0: "0 < m" by simp
    have u: "unat (pn_cursor p - 10) = 10 * m - 10"
      using m m0 by (subst unat_sub) (simp_all add: word_le_nat_alt)
    have q: "panel_ok ?q" using ok u m m0 by (auto simp: panel_ok_def dest: dvd_diff_nat)
    have n: "pn_cursor ?q \<noteq> 790" using u m by (auto simp: word_unat_eq_iff)
    have s: "(drawn g ?q)\<lparr>pn_cursor := pn_cursor p\<rparr>\<lparr>pn_cursor := x\<rparr> = (drawn g ?q)\<lparr>pn_cursor := x\<rparr>" for g x by simp
    have "panel_ok ((drawn (glyph_of font 32) ?q)\<lparr>pn_cursor := pn_cursor p - 10\<rparr>)"
      using q by (simp add: panel_ok_def drawn_def)
    then show ?thesis using 3 print_glyph_at_ok(1) [OF q, of "glyph_of font 32"] n
      by (simp add: print_glyph_def word_neq_0_conv [symmetric])
  next
    case 4
    then show ?thesis using print_glyph_at_ok [OF ok, of "glyph_of font c"] by (simp add: print_glyph_def)
  qed
qed

lemma pixel_index_inj:
  assumes "panel_ok p"
  shows "inj_on (pixel_index (fb_index p)) (set glyph_pixels)"
proof (rule inj_onI)
  fix x y assume xy: "x \<in> set glyph_pixels" "y \<in> set glyph_pixels" "pixel_index (fb_index p) x = pixel_index (fb_index p) y"
  obtain r c s d where e: "x = (r, c)" "y = (s, d)" by (cases x, cases y)
  have b: "r < 20" "c < 10" "s < 20" "d < 10" using xy(1,2) unfolding e glyph_pixels_mem by simp_all
  have i: "unat (fb_index p) < 2 ^ 32" by (rule pixel_in_bounds(2) [OF assms xy(1)])
  have "unat (pixel_index (fb_index p) (r, c)) = unat (pixel_index (fb_index p) (s, d))" using xy(3) e by simp
  then have eq: "r * 800 + c = s * 800 + d" unfolding unat_pixel_index [OF i b(1,2)] unat_pixel_index [OF i b(3,4)] by simp
  have "(r * 800 + c) div 800 = r" "(s * 800 + d) div 800 = s" using b by simp_all
  then have "r = s" using eq by simp
  then have "r = s \<and> c = d" using eq by simp
  then show "x = y" by (simp add: e)
qed

lemma draw_char:
  assumes ok: "panel_ok p" and c: "c \<notin> {9, 10, 13, 127}" "pn_cursor p \<noteq> 790"
  shows "\<exists>p'. print_glyph font c p = Inr p' \<and> pn_line p' = pn_line p \<and> pn_cursor p' = pn_cursor p + 10 \<and>
    (\<forall>rc\<in>set glyph_pixels. pn_fb p' (pixel_index (fb_index p) rc) = pixel_colour (glyph_of font c) p rc) \<and>
    (\<forall>i. i \<notin> pixel_index (fb_index p) ` set glyph_pixels \<longrightarrow> pn_fb p' i = pn_fb p i)"
proof -
  let ?g = "glyph_of font c"
  define p' where "p' = (drawn ?g p)\<lparr>pn_cursor := pn_cursor p + 10\<rparr>"
  have r: "print_glyph font c p = Inr p'"
    unfolding p'_def print_glyph_def print_glyph_at_ok(1) [OF ok] using c by simp
  have fb: "pn_fb p' = fold (paint (pixel_index (fb_index p)) (pixel_colour ?g p)) glyph_pixels (pn_fb p)"
    by (simp add: p'_def drawn_def)
  have "pn_line p' = pn_line p" "pn_cursor p' = pn_cursor p + 10" by (simp_all add: p'_def drawn_def)
  moreover have "\<forall>rc\<in>set glyph_pixels. pn_fb p' (pixel_index (fb_index p) rc) = pixel_colour ?g p rc"
    unfolding fb by (intro ballI fold_upd(1) [OF pixel_index_inj [OF ok]])
  moreover have "\<forall>i. i \<notin> pixel_index (fb_index p) ` set glyph_pixels \<longrightarrow> pn_fb p' i = pn_fb p i"
    unfolding fb by (intro allI impI fold_upd(2))
  ultimately show ?thesis using r by blast
qed

text \<open>
  The panel. Without tabs, whatever is printed (wrapping and scrolling included) every pixel
  write is inside the frame buffer and the cursor stays on the grid of 24 lines and 80 columns. A
  printable character draws its glyph in the cell of the cursor, in the text and background
  colours, changes no other pixel, and moves the cursor by one cell where that is not the last.
\<close>

theorem panel_text_safe:
  assumes "panel_ok p"
  shows "(9 \<notin> set cs \<longrightarrow> (\<exists>p'. emit_string (print_glyph font) cs p = Inr p' \<and> panel_ok p')) \<and>
    (c \<notin> {9, 10, 13, 127} \<and> pn_cursor p \<noteq> 790 \<longrightarrow>
       (\<exists>p'. print_glyph font c p = Inr p' \<and> pn_line p' = pn_line p \<and> pn_cursor p' = pn_cursor p + 10 \<and>
          (\<forall>rc\<in>set glyph_pixels. pn_fb p' (pixel_index (fb_index p) rc) = pixel_colour (glyph_of font c) p rc) \<and>
          (\<forall>i. i \<notin> pixel_index (fb_index p) ` set glyph_pixels \<longrightarrow> pn_fb p' i = pn_fb p i)))"
proof (intro conjI impI)
  assume "9 \<notin> set cs"
  with assms show "\<exists>p'. emit_string (print_glyph font) cs p = Inr p' \<and> panel_ok p'"
  proof (induction cs arbitrary: p)
    case (Cons c cs)
    from Cons.prems have "c \<noteq> 9" by auto
    from print_glyph_ok [OF Cons.prems(1) this, of font] obtain p1 where p1: "print_glyph font c p = Inr p1" "panel_ok p1" by blast
    from Cons.IH [OF p1(2)] Cons.prems(2) show ?case using p1(1) by auto
  qed simp
next
  assume c: "c \<notin> {9, 10, 13, 127} \<and> pn_cursor p \<noteq> 790"
  from draw_char [OF assms] c show "\<exists>p'. print_glyph font c p = Inr p' \<and> pn_line p' = pn_line p \<and> pn_cursor p' = pn_cursor p + 10 \<and>
          (\<forall>rc\<in>set glyph_pixels. pn_fb p' (pixel_index (fb_index p) rc) = pixel_colour (glyph_of font c) p rc) \<and>
          (\<forall>i. i \<notin> pixel_index (fb_index p) ` set glyph_pixels \<longrightarrow> pn_fb p' i = pn_fb p i)" by blast
qed

definition last_cell :: panel where
  "last_cell = \<lparr>pn_fb = (\<lambda>_. 0), pn_line = 23, pn_cursor = 790, pn_text = COLOR_WHITE, pn_background = COLOR_BLACK\<rparr>"

theorem panel_text_safe_witness:
  "\<exists>p'. emit_string (print_glyph (\<lambda>_. 0)) [65, 66, 10, 127] last_cell = Inr p' \<and> panel_ok p'"
proof -
  have "panel_ok last_cell" by (simp add: panel_ok_def last_cell_def)
  from panel_text_safe [OF this, of "[65, 66, 10, 127]" "\<lambda>_. 0" 65] show ?thesis by simp
qed

text \<open>
  Tabs run off the line. A tab moves the cursor by 40 pixels and the end of the line is noticed
  only where the cursor is exactly 800: from the first cell of the last line, 20 tabs and a tab more
  leave the cursor at 840, and the next printable character is drawn outside the frame buffer.
\<close>

theorem panel_tabs_overflow:
  assumes "pn_line p = 23" and "pn_cursor p = 0" and "c \<notin> {9, 10, 13, 127}"
  shows "emit_string (print_glyph font) (replicate 21 9 @ [c]) p = Inl WildAccess"
proof -
  have tab: "print_glyph font 9 q = Inr (q\<lparr>pn_cursor := pn_cursor q + 40\<rparr>)" for q by (simp add: print_glyph_def)
  have t: "emit_string (print_glyph font) (replicate n 9) q = Inr (q\<lparr>pn_cursor := pn_cursor q + of_nat (40 * n)\<rparr>)" for n q
    by (induction n arbitrary: q) (simp_all add: tab algebra_simps)
  let ?q = "p\<lparr>pn_cursor := 840\<rparr>"
  have "emit_string (print_glyph font) (replicate 21 9) p = Inr ?q" unfolding t using assms(2) by simp
  moreover have "print_glyph font c ?q = Inl WildAccess"
  proof -
    have "unat (fb_index ?q) = 23 * 16000 + 840" using assms(1) by (subst unat_fb_index) simp_all
    then have i: "fb_index ?q = 368840" by (simp add: word_unat_eq_iff)
    have w: "\<exists>rc\<in>set rcs. \<not> i + of_nat (fst rc * 800) + of_nat (snd rc) < FB_PIXELS \<Longrightarrow>
        draw_pixels g i rcs q = Inl WildAccess" for g i rcs q
    proof (induction rcs arbitrary: q)
      case (Cons rc rcs)
      then show ?case by (cases rc) (auto simp: draw_pixel_def write_pixel_def)
    qed simp
    have "(19, 0) \<in> set glyph_pixels" by (simp add: glyph_pixels_mem)
    moreover have "\<not> (368840 + of_nat (19 * 800) + of_nat 0 :: u64) < FB_PIXELS" by (simp add: FB_PIXELS_def)
    ultimately have "draw_pixels (glyph_of font c) 368840 glyph_pixels ?q = Inl WildAccess" by (intro w) force
    then show ?thesis using assms(3) by (simp add: print_glyph_def print_glyph_at_def i)
  qed
  ultimately show ?thesis by (simp add: emit_append)
qed

theorem panel_tabs_overflow_witness:
  "emit_string (print_glyph (\<lambda>_. 0)) (replicate 21 9 @ [65]) (last_cell\<lparr>pn_cursor := 0\<rparr>) = Inl WildAccess"
  by (rule panel_tabs_overflow) (simp_all add: last_cell_def)

section \<open>The buffer of user programs\<close>

text \<open>The buffer never holds more than 2047 characters nor a zero.\<close>

definition buf_ok :: "printbuf \<Rightarrow> bool" where
  "buf_ok b \<longleftrightarrow> length (pb_chars b) \<le> 2047 \<and> 0 \<notin> set (pb_chars b)"

definition passed :: "printbuf \<Rightarrow> u8 list" where "passed b = concat (pb_writes b) @ pb_chars b"

lemma no_zero: "0 \<notin> set s \<Longrightarrow> takeWhile (\<lambda>c. c \<noteq> 0) s = s"
  by (auto simp: takeWhile_eq_all_conv)

lemma flush_ok: "0 \<notin> set (pb_chars b) \<Longrightarrow> buf_ok (flush_buf b) \<and> passed (flush_buf b) = passed b \<and> pb_chars (flush_buf b) = []"
  by (simp add: flush_buf_def buf_ok_def passed_def no_zero)

lemma buf_putc_ok:
  assumes b: "buf_ok b" and c: "c \<noteq> 0"
  shows "\<exists>b'. buf_putc c b = Inr b' \<and> buf_ok b' \<and> passed b' = passed b @ [c] \<and> (c = 10 \<longrightarrow> pb_chars b' = [])"
proof -
  define b1 where "b1 = (if length (pb_chars b) = 2048 - 1 then flush_buf b else b)"
  have b1: "0 \<notin> set (pb_chars b1)" "length (pb_chars b1) \<le> 2046" "passed b1 = passed b"
    using flush_ok [of b] b by (auto simp: b1_def buf_ok_def)
  define b2 where "b2 = b1\<lparr>pb_chars := pb_chars b1 @ [c]\<rparr>"
  have b2: "buf_put c b1 = Inr b2" "0 \<notin> set (pb_chars b2)" "length (pb_chars b2) \<le> 2047" "passed b2 = passed b @ [c]"
    using b1 c by (auto simp: buf_put_def b2_def passed_def)
  show ?thesis
  proof (cases "c = 10")
    case True
    have "\<exists>x. buf_put 0 b2 = Inr x" using b2(3) by (simp add: buf_put_def)
    then have "buf_putc c b = Inr (flush_buf b2)" using b2(1) True unfolding buf_putc_def Let_def b1_def [symmetric] by auto
    then show ?thesis using flush_ok [OF b2(2)] b2(4) by auto
  next
    case False
    then have "buf_putc c b = Inr b2" using b2(1) unfolding buf_putc_def Let_def b1_def [symmetric] by simp
    then show ?thesis using b2 False by (auto simp: buf_ok_def)
  qed
qed

text \<open>
  No character is lost by the buffer of \<open>printf\<close>. For characters other than zero, the strings
  passed to the write call followed by what is still in the buffer are the characters put in, in
  their order; no store is outside the buffer; and after a newline nothing is left in it.
\<close>

theorem printf_buffer_lossless:
  assumes "buf_ok b" and "0 \<notin> set cs"
  shows "\<exists>b'. emit_string buf_putc cs b = Inr b' \<and> buf_ok b' \<and> passed b' = passed b @ cs \<and>
    (cs \<noteq> [] \<and> last cs = 10 \<longrightarrow> concat (pb_writes b') = passed b @ cs)"
  using assms
proof (induction cs arbitrary: b)
  case (Cons c cs)
  from Cons.prems have "c \<noteq> 0" "0 \<notin> set cs" by auto
  from buf_putc_ok [OF Cons.prems(1) this(1)] obtain b1 where
    b1: "buf_putc c b = Inr b1" "buf_ok b1" "passed b1 = passed b @ [c]" "c = 10 \<longrightarrow> pb_chars b1 = []" by blast
  from Cons.IH [OF b1(2) \<open>0 \<notin> set cs\<close>] obtain b' where
    b': "emit_string buf_putc cs b1 = Inr b'" "buf_ok b'" "passed b' = passed b1 @ cs"
      "cs \<noteq> [] \<and> last cs = 10 \<longrightarrow> concat (pb_writes b') = passed b1 @ cs" by blast
  have "concat (pb_writes b') = passed b @ [c]" if "cs = []" "c = 10"
    using b'(1) b1(3,4) that by (simp add: passed_def)
  then show ?case using b1 b' by auto
qed simp

theorem printf_buffer_lossless_witness:
  "\<exists>b'. emit_string buf_putc [104, 105, 10] \<lparr>pb_chars = [], pb_writes = []\<rparr> = Inr b' \<and> concat (pb_writes b') = [104, 105, 10]"
proof -
  have "buf_ok \<lparr>pb_chars = [], pb_writes = []\<rparr>" by (simp add: buf_ok_def)
  from printf_buffer_lossless [OF this, of "[104, 105, 10]"] show ?thesis by (auto simp: passed_def)
qed

end
