(* ===== verification/Emmc.thy ===== *)
theory Emmc
  imports Prelude "HOL-Library.State_Monad"
begin

text \<open>
  The SD card driver: \<open>emmc/emmc.c\<close> and \<open>emmc/emmc_clock.c\<close> with the command table of
  \<open>emmc/emmc.h\<close>. The host controller, the card behind it, the GPIO pins and the firmware that
  answers \<open>mailbox_clock_rate\<close> are hardware: a parameter of every operation, a record of functions
  on a hardware state of any type. An access to a device register is a call of one of them, so
  every result below holds for all the values a controller can present.

  The driver runs in the state monad over its own static data, the words of memory and the state
  of the hardware. Loops that wait for a condition without a bound take fuel and give \<open>None\<close>
  where it runs out; all the other loops of the driver count.
\<close>

section \<open>Registers and commands\<close>

datatype emmc_reg =
  ARG2 | BLOCK_SIZE_COUNT | ARG1 | CMD_XFER_MODE | RESPONSE nat | DATA | STATUS | CONTROL nat
  | INT_FLAGS | INT_MASK | INT_ENABLE | CONTROL2

text \<open>The fields of a command, each as wide as the bit field of the source in \<open>emmc_cmd_reg\<close>.\<close>

record emmc_cmd_t =
  resp_a :: u32
  block_count :: u32
  auto_command :: u32
  direction :: u32
  multiblock :: u32
  resp_b :: u32
  response_type :: u32
  res0 :: u32
  crc_enable :: u32
  idx_enable :: u32
  is_data :: u32
  cmd_class :: u32
  cmd_index :: u32
  res1 :: u32

definition field_at :: "nat \<Rightarrow> nat \<Rightarrow> u32 \<Rightarrow> u32" where
  "field_at pos w v = push_bit pos (take_bit w v)"

text \<open>\<open>TO_REG\<close>: the 32 bits of a command in memory.\<close>

definition emmc_cmd_reg :: "emmc_cmd_t \<Rightarrow> u32" where
  "emmc_cmd_reg c =
     field_at 0 1 (resp_a c) OR field_at 1 1 (block_count c) OR field_at 2 2 (auto_command c)
     OR field_at 4 1 (direction c) OR field_at 5 1 (multiblock c) OR field_at 6 10 (resp_b c)
     OR field_at 16 2 (response_type c) OR field_at 18 1 (res0 c) OR field_at 19 1 (crc_enable c)
     OR field_at 20 1 (idx_enable c) OR field_at 21 1 (is_data c) OR field_at 22 2 (cmd_class c)
     OR field_at 24 6 (cmd_index c) OR field_at 30 2 (res1 c)"

abbreviation (input) RTNone :: u32 where "RTNone \<equiv> 0"
abbreviation (input) RT136 :: u32 where "RT136 \<equiv> 1"
abbreviation (input) RT48 :: u32 where "RT48 \<equiv> 2"
abbreviation (input) RT48Busy :: u32 where "RT48Busy \<equiv> 3"

abbreviation (input) CTGoIdle :: u32 where "CTGoIdle \<equiv> 0"
abbreviation (input) CTSendCide :: u32 where "CTSendCide \<equiv> 2"
abbreviation (input) CTSendRelativeAddr :: u32 where "CTSendRelativeAddr \<equiv> 3"
abbreviation (input) CTIOSetOpCond :: u32 where "CTIOSetOpCond \<equiv> 5"
abbreviation (input) CTSelectCard :: u32 where "CTSelectCard \<equiv> 7"
abbreviation (input) CTSendIfCond :: u32 where "CTSendIfCond \<equiv> 8"
abbreviation (input) CTSetBlockLen :: u32 where "CTSetBlockLen \<equiv> 16"
abbreviation (input) CTReadBlock :: u32 where "CTReadBlock \<equiv> 17"
abbreviation (input) CTReadMultiple :: u32 where "CTReadMultiple \<equiv> 18"
abbreviation (input) CTWriteBlock :: u32 where "CTWriteBlock \<equiv> 24"
abbreviation (input) CTWriteMultiple :: u32 where "CTWriteMultiple \<equiv> 25"
abbreviation (input) CTOcrCheck :: u32 where "CTOcrCheck \<equiv> 41"
abbreviation (input) CTSendSCR :: u32 where "CTSendSCR \<equiv> 51"
abbreviation (input) CTApp :: u32 where "CTApp \<equiv> 55"

definition RES_CMD :: emmc_cmd_t where
  "RES_CMD = \<lparr>resp_a = 1, block_count = 1, auto_command = 3, direction = 1, multiblock = 1, resp_b = 0xF,
     response_type = 3, res0 = 1, crc_enable = 1, idx_enable = 1, is_data = 1, cmd_class = 3,
     cmd_index = 0xF, res1 = 3\<rparr>"

text \<open>An initialiser of the table, whose fields \<open>resp_a\<close>, \<open>resp_b\<close>, \<open>res0\<close>, \<open>idx_enable\<close>, the class and
  \<open>res1\<close> are zero.\<close>

definition cmd_init :: "u32 \<Rightarrow> u32 \<Rightarrow> u32 \<Rightarrow> u32 \<Rightarrow> u32 \<Rightarrow> u32 \<Rightarrow> u32 \<Rightarrow> u32 \<Rightarrow> emmc_cmd_t" where
  "cmd_init bc ac dir mb rt crc dat ix =
     \<lparr>resp_a = 0, block_count = bc, auto_command = ac, direction = dir, multiblock = mb, resp_b = 0,
      response_type = rt, res0 = 0, crc_enable = crc, idx_enable = 0, is_data = dat, cmd_class = 0,
      cmd_index = ix, res1 = 0\<rparr>"

definition commands :: "emmc_cmd_t list" where
  "commands =
     [cmd_init 0 0 0 0 RTNone 0 0 0, RES_CMD, cmd_init 0 0 0 0 RT136 1 0 2, cmd_init 0 0 0 0 RT48 1 0 3,
      cmd_init 0 0 0 0 RTNone 0 0 4, cmd_init 0 0 0 0 RT136 0 0 5, cmd_init 0 0 0 0 RT48 1 0 6,
      cmd_init 0 0 0 0 RT48Busy 1 0 7, cmd_init 0 0 0 0 RT48 1 0 8, cmd_init 0 0 0 0 RT136 1 0 9]
     @ replicate 6 RES_CMD
     @ [cmd_init 0 0 0 0 RT48 1 0 16, cmd_init 0 0 1 0 RT48 1 1 17, cmd_init 1 1 1 1 RT48 1 1 18]
     @ replicate 22 RES_CMD
     @ [cmd_init 0 0 0 0 RT48 0 0 41]
     @ replicate 9 RES_CMD
     @ [cmd_init 0 0 1 0 RT48 1 1 51]
     @ replicate 3 RES_CMD
     @ [cmd_init 0 0 0 0 RT48 1 0 55]"

section \<open>State\<close>

text \<open>A transfer buffer: words of memory or the two words of \<open>device.scr\<close>.\<close>

datatype emmc_buf = ScrBuf | MemBuf u64

record scr_register_t =
  scr :: "u32 list"
  bus_widths :: u32
  version :: u32

record emmc_device_t =
  last_success :: bool
  transfer_blocks :: u32
  last_command :: emmc_cmd_t
  last_command_value :: u32
  block_size :: u32
  last_response :: "u32 list"
  sdhc :: bool
  ocr :: u16
  rca :: u32
  offset :: u64
  buffer :: emmc_buf
  base_clock :: u32
  last_error :: u32
  last_interrupt :: u32
  scr_reg :: scr_register_t

text \<open>The hardware.\<close>

record 'h mmio =
  mm_read :: "emmc_reg \<Rightarrow> 'h \<Rightarrow> u32 \<times> 'h"
  mm_write :: "emmc_reg \<Rightarrow> u32 \<Rightarrow> 'h \<Rightarrow> 'h"
  mm_sleep :: "u32 \<Rightarrow> 'h \<Rightarrow> 'h"
  mm_clock_rate :: "'h \<Rightarrow> u32 \<times> 'h"
  mm_pin :: "nat \<Rightarrow> nat \<Rightarrow> 'h \<Rightarrow> 'h"

record 'h emmc =
  em_dev :: emmc_device_t
  em_mem :: "u64 \<Rightarrow> u32"
  em_hw :: 'h

type_synonym ('h, 'a) em = "('h emmc, 'a) state"

definition rd :: "'h mmio \<Rightarrow> emmc_reg \<Rightarrow> ('h, u32) em" where
  "rd H r = State (\<lambda>s. let (v, h) = mm_read H r (em_hw s) in (v, s\<lparr>em_hw := h\<rparr>))"

definition wr :: "'h mmio \<Rightarrow> emmc_reg \<Rightarrow> u32 \<Rightarrow> ('h, unit) em" where
  "wr H r v = State (\<lambda>s. ((), s\<lparr>em_hw := mm_write H r v (em_hw s)\<rparr>))"

definition timer_sleep :: "'h mmio \<Rightarrow> u32 \<Rightarrow> ('h, unit) em" where
  "timer_sleep H ms = State (\<lambda>s. ((), s\<lparr>em_hw := mm_sleep H ms (em_hw s)\<rparr>))"

definition mailbox_clock_rate :: "'h mmio \<Rightarrow> ('h, u32) em" where
  "mailbox_clock_rate H = State (\<lambda>s. let (v, h) = mm_clock_rate H (em_hw s) in (v, s\<lparr>em_hw := h\<rparr>))"

definition gpio_pin_set_func :: "'h mmio \<Rightarrow> nat \<Rightarrow> nat \<Rightarrow> ('h, unit) em" where
  "gpio_pin_set_func H pin f = State (\<lambda>s. ((), s\<lparr>em_hw := mm_pin H pin f (em_hw s)\<rparr>))"

definition dget :: "(emmc_device_t \<Rightarrow> 'a) \<Rightarrow> ('h, 'a) em" where
  "dget f = State (\<lambda>s. (f (em_dev s), s))"

definition dmod :: "(emmc_device_t \<Rightarrow> emmc_device_t) \<Rightarrow> ('h, unit) em" where
  "dmod f = State (\<lambda>s. ((), s\<lparr>em_dev := f (em_dev s)\<rparr>))"

text \<open>Word \<open>i\<close> of the transfer buffer.\<close>

definition word_addr :: "u64 \<Rightarrow> nat \<Rightarrow> u64" where "word_addr b i = b + 4 * of_nat i"

definition put_word :: "nat \<Rightarrow> u32 \<Rightarrow> ('h, unit) em" where
  "put_word i v = State (\<lambda>s. ((),
     case buffer (em_dev s) of
       MemBuf b \<Rightarrow> s\<lparr>em_mem := (em_mem s)(word_addr b i := v)\<rparr>
     | ScrBuf \<Rightarrow> s\<lparr>em_dev := (em_dev s)\<lparr>scr_reg := (scr_reg (em_dev s))\<lparr>scr := (scr (scr_reg (em_dev s)))[i := v]\<rparr>\<rparr>\<rparr>))"

definition get_word :: "nat \<Rightarrow> ('h, u32) em" where
  "get_word i = State (\<lambda>s.
     (case buffer (em_dev s) of MemBuf b \<Rightarrow> em_mem s (word_addr b i)
      | ScrBuf \<Rightarrow> scr (scr_reg (em_dev s)) ! i, s))"

section \<open>Commands and transfers\<close>

text \<open>\<open>for (cycles = 0; cycles <= timeout; cycles++)\<close>\<close>

primrec wait_loop :: "'h mmio \<Rightarrow> emmc_reg \<Rightarrow> u32 \<Rightarrow> bool \<Rightarrow> nat \<Rightarrow> ('h, bool) em" where
  "wait_loop H r msk on 0 = State_Monad.return False"
| "wait_loop H r msk on (Suc n) = do {
     v \<leftarrow> rd H r;
     if (if v AND msk \<noteq> 0 then on else \<not> on) then State_Monad.return True
     else do { timer_sleep H 1; wait_loop H r msk on n } }"

definition wait_reg_mask :: "'h mmio \<Rightarrow> emmc_reg \<Rightarrow> u32 \<Rightarrow> bool \<Rightarrow> nat \<Rightarrow> ('h, bool) em" where
  "wait_reg_mask H r msk on timeout = wait_loop H r msk on (Suc timeout)"

definition sd_error_mask :: "nat \<Rightarrow> u32" where "sd_error_mask err = push_bit (16 + err) 1"

definition set_last_error :: "u32 \<Rightarrow> ('h, unit) em" where
  "set_last_error intr_val =
     dmod (\<lambda>d. d\<lparr>last_error := intr_val AND 0xFFFF0000, last_interrupt := intr_val\<rparr>)"

primrec write_words :: "'h mmio \<Rightarrow> nat \<Rightarrow> nat \<Rightarrow> ('h, unit) em" where
  "write_words H i 0 = State_Monad.return ()"
| "write_words H i (Suc n) = do { v \<leftarrow> get_word i; wr H DATA v; write_words H (Suc i) n }"

primrec read_words :: "'h mmio \<Rightarrow> nat \<Rightarrow> nat \<Rightarrow> ('h, unit) em" where
  "read_words H i 0 = State_Monad.return ()"
| "read_words H i (Suc n) = do { v \<leftarrow> rd H DATA; put_word i v; read_words H (Suc i) n }"

definition block_words :: "emmc_device_t \<Rightarrow> nat" where "block_words d = unat (block_size d) div 4"

text \<open>The blocks of a transfer; word \<open>i\<close> is where \<open>data\<close> points. Block sizes are multiples of four.\<close>

primrec transfer_loop :: "'h mmio \<Rightarrow> u32 \<Rightarrow> bool \<Rightarrow> nat \<Rightarrow> nat \<Rightarrow> ('h, bool) em" where
  "transfer_loop H wrIrpt write i 0 = State_Monad.return True"
| "transfer_loop H wrIrpt write i (Suc n) = do {
     wait_reg_mask H INT_FLAGS (wrIrpt OR 0x8000) True 2000;
     intr_val \<leftarrow> rd H INT_FLAGS;
     wr H INT_FLAGS (wrIrpt OR 0x8000);
     if intr_val AND 0xFFFF0000 \<noteq> 0
     then do { set_last_error intr_val; State_Monad.return False }
     else do {
       len \<leftarrow> dget block_words;
       (if write then write_words H i len else read_words H i len);
       transfer_loop H wrIrpt write (i + len) n } }"

definition do_data_transfer :: "'h mmio \<Rightarrow> emmc_cmd_t \<Rightarrow> ('h, bool) em" where
  "do_data_transfer H cmd = do {
     blocks \<leftarrow> dget transfer_blocks;
     (if direction cmd \<noteq> 0 then transfer_loop H (push_bit 5 1) False 0 (unat blocks)
      else transfer_loop H (push_bit 4 1) True 0 (unat blocks)) }"

text \<open>The wait for the end of a command; the result tells whether it came in time.\<close>

primrec command_wait :: "'h mmio \<Rightarrow> nat \<Rightarrow> ('h, bool) em" where
  "command_wait H 0 = State_Monad.return False"
| "command_wait H (Suc n) = do {
     v \<leftarrow> rd H INT_FLAGS;
     if v AND 0x8001 \<noteq> 0 then State_Monad.return True
     else do { timer_sleep H 1; command_wait H n } }"

definition set_response :: "nat \<Rightarrow> u32 \<Rightarrow> ('h, unit) em" where
  "set_response i v = dmod (\<lambda>d. d\<lparr>last_response := (last_response d)[i := v]\<rparr>)"

definition read_response :: "'h mmio \<Rightarrow> emmc_cmd_t \<Rightarrow> ('h, unit) em" where
  "read_response H cmd =
     (if response_type cmd = RT48 \<or> response_type cmd = RT48Busy
      then do { v \<leftarrow> rd H (RESPONSE 0); set_response 0 v }
      else if response_type cmd = RT136
      then do { v0 \<leftarrow> rd H (RESPONSE 0); set_response 0 v0; v1 \<leftarrow> rd H (RESPONSE 1); set_response 1 v1;
                v2 \<leftarrow> rd H (RESPONSE 2); set_response 2 v2; v3 \<leftarrow> rd H (RESPONSE 3); set_response 3 v3 }
      else State_Monad.return ())"

text \<open>The wait for the end of the transfer; \<open>0x100002\<close>, a data timeout, counts as success.\<close>

definition finish_transfer :: "'h mmio \<Rightarrow> emmc_cmd_t \<Rightarrow> ('h, bool) em" where
  "finish_transfer H cmd =
     (if response_type cmd = RT48Busy \<or> is_data cmd \<noteq> 0
      then do {
        wait_reg_mask H INT_FLAGS 0x8002 True 2000;
        intr_val \<leftarrow> rd H INT_FLAGS;
        wr H INT_FLAGS 0xFFFF0002;
        if intr_val AND 0xFFFF0002 \<noteq> 2 \<and> intr_val AND 0xFFFF0002 \<noteq> 0x100002
        then do { set_last_error intr_val; State_Monad.return False }
        else do { wr H INT_FLAGS 0xFFFF0002; State_Monad.return True } }
      else State_Monad.return True)"

definition emmc_issue_command :: "'h mmio \<Rightarrow> emmc_cmd_t \<Rightarrow> u32 \<Rightarrow> nat \<Rightarrow> ('h, bool) em" where
  "emmc_issue_command H cmd arg timeout = do {
     dmod (\<lambda>d. d\<lparr>last_command_value := emmc_cmd_reg cmd\<rparr>);
     blocks \<leftarrow> dget transfer_blocks;
     if 0xFFFF < blocks then State_Monad.return False
     else do {
       size \<leftarrow> dget block_size;
       wr H BLOCK_SIZE_COUNT (size OR push_bit 16 blocks);
       wr H ARG1 arg;
       wr H CMD_XFER_MODE (emmc_cmd_reg cmd);
       timer_sleep H 10;
       in_time \<leftarrow> command_wait H timeout;
       if \<not> in_time then do { dmod (\<lambda>d. d\<lparr>last_success := False\<rparr>); State_Monad.return False }
       else do {
         intr_val \<leftarrow> rd H INT_FLAGS;
         wr H INT_FLAGS 0xFFFF0001;
         if intr_val AND 0xFFFF0001 \<noteq> 1
         then do { set_last_error intr_val; dmod (\<lambda>d. d\<lparr>last_success := False\<rparr>); State_Monad.return False }
         else do {
           read_response H cmd;
           (if is_data cmd \<noteq> 0 then do { do_data_transfer H cmd; State_Monad.return () }
            else State_Monad.return ());
           finished \<leftarrow> finish_transfer H cmd;
           if \<not> finished then State_Monad.return False
           else do { dmod (\<lambda>d. d\<lparr>last_success := True\<rparr>); State_Monad.return True } } } } }"

definition emmc_app_command :: "'h mmio \<Rightarrow> u32 \<Rightarrow> u32 \<Rightarrow> nat \<Rightarrow> ('h, bool) em" where
  "emmc_app_command H command arg timeout =
     (if 60 \<le> cmd_index (commands ! unat command) then State_Monad.return False
      else do {
        dmod (\<lambda>d. d\<lparr>last_command := commands ! unat CTApp\<rparr>);
        r \<leftarrow> dget rca;
        ok \<leftarrow> emmc_issue_command H (commands ! unat CTApp) (if r \<noteq> 0 then push_bit 16 r else 0) 2000;
        if ok then do {
          dmod (\<lambda>d. d\<lparr>last_command := commands ! unat command\<rparr>);
          emmc_issue_command H (commands ! unat command) arg 2000 }
        else State_Monad.return False })"

definition emmc_command :: "'h mmio \<Rightarrow> u32 \<Rightarrow> u32 \<Rightarrow> nat \<Rightarrow> ('h, bool) em" where
  "emmc_command H command arg timeout =
     (if command AND 0x80000000 \<noteq> 0 then State_Monad.return False
      else do {
        dmod (\<lambda>d. d\<lparr>last_command := commands ! unat command\<rparr>);
        if emmc_cmd_reg (commands ! unat command) = emmc_cmd_reg RES_CMD then State_Monad.return False
        else emmc_issue_command H (commands ! unat command) arg timeout })"

section \<open>Reading\<close>

definition data_command :: "bool \<Rightarrow> u32 \<Rightarrow> u32" where
  "data_command write blocks =
     (if write \<and> 1 < blocks then CTWriteMultiple else if write then CTWriteBlock
      else if 1 < blocks then CTReadMultiple else CTReadBlock)"

text \<open>The attempts that are left.\<close>

primrec retry_command :: "'h mmio \<Rightarrow> u32 \<Rightarrow> u32 \<Rightarrow> nat \<Rightarrow> ('h, bool) em" where
  "retry_command H command arg 0 = State_Monad.return False"
| "retry_command H command arg (Suc n) = do {
     ok \<leftarrow> emmc_command H command arg 5000;
     if ok then State_Monad.return True else retry_command H command arg n }"

text \<open>The division by a zero block size gives zero on the machine, as in HOL.\<close>

definition do_data_command :: "'h mmio \<Rightarrow> bool \<Rightarrow> u64 \<Rightarrow> u32 \<Rightarrow> u32 \<Rightarrow> ('h, bool) em" where
  "do_data_command H write b bsize block_no = do {
     high \<leftarrow> dget sdhc;
     size \<leftarrow> dget block_size;
     let block_no = (if high then block_no else block_no * 512) in
     if bsize < size then State_Monad.return False
     else do {
       dmod (\<lambda>d. d\<lparr>transfer_blocks := bsize div size\<rparr>);
       if bsize mod size \<noteq> 0 then State_Monad.return False
       else do {
         dmod (\<lambda>d. d\<lparr>buffer := MemBuf b\<rparr>);
         retry_command H (data_command write (bsize div size)) block_no 3 } } }"

definition do_read :: "'h mmio \<Rightarrow> u64 \<Rightarrow> u32 \<Rightarrow> u32 \<Rightarrow> ('h, u32) em" where
  "do_read H b bsize block_no = do {
     ok \<leftarrow> do_data_command H False b bsize block_no;
     State_Monad.return (if ok then bsize else - 1) }"

definition emmc_read :: "'h mmio \<Rightarrow> u64 \<Rightarrow> u32 \<Rightarrow> ('h, u32) em" where
  "emmc_read H b n = do {
     pos \<leftarrow> dget offset;
     if pos mod 512 \<noteq> 0 then State_Monad.return (- 1)
     else do {
       r \<leftarrow> do_read H b n (ucast (pos div 512));
       State_Monad.return (if r \<noteq> n then - 1 else n) } }"

definition emmc_seek :: "u64 \<Rightarrow> ('h, unit) em" where
  "emmc_seek pos = dmod (\<lambda>d. d\<lparr>offset := pos\<rparr>)"

definition emmc_seek_sector :: "u64 \<Rightarrow> ('h, unit) em" where
  "emmc_seek_sector sec = dmod (\<lambda>d. d\<lparr>offset := sec * 512\<rparr>)"

section \<open>The clock\<close>

primrec highest_bit :: "u32 \<Rightarrow> nat \<Rightarrow> nat option" where
  "highest_bit v 0 = None"
| "highest_bit v (Suc n) = (if bit v n then Some n else highest_bit v n)"

definition get_clock_divider :: "u32 \<Rightarrow> u32 \<Rightarrow> u32" where
  "get_clock_divider base target =
     (let target_div = (if target \<le> base then (if base mod target \<noteq> 0 then 0 else base div target) else 1);
          d0 = (case highest_bit target_div 32 of None \<Rightarrow> 31
                | Some fb \<Rightarrow> if target_div AND NOT (push_bit fb 1) \<noteq> 0 then Suc fb else fb);
          d1 = (if 32 \<le> d0 then 31 else d0);
          d2 = (if d1 \<noteq> 0 then 2 ^ (d1 - 1) else (0::nat));
          d3 = (if 0x400 \<le> d2 then 0x3FF else d2);
          freqSel = of_nat d3 AND 0xFF;
          upper = drop_bit 8 (of_nat d3) AND 3
      in push_bit 8 freqSel OR push_bit 6 upper)"

primrec wait_idle :: "'h mmio \<Rightarrow> nat \<Rightarrow> ('h, unit option) em" where
  "wait_idle H 0 = State_Monad.return None"
| "wait_idle H (Suc n) = do {
     v \<leftarrow> rd H STATUS;
     if v AND 3 = 0 then State_Monad.return (Some ()) else do { timer_sleep H 1; wait_idle H n } }"

definition switch_clock_rate :: "'h mmio \<Rightarrow> nat \<Rightarrow> u32 \<Rightarrow> u32 \<Rightarrow> ('h, bool option) em" where
  "switch_clock_rate H fuel base target = do {
     idle \<leftarrow> wait_idle H fuel;
     (case idle of None \<Rightarrow> State_Monad.return None
      | Some _ \<Rightarrow> do {
          c \<leftarrow> rd H (CONTROL 1);
          let c1 = c AND NOT 4;
          wr H (CONTROL 1) c1;
          timer_sleep H 3;
          wr H (CONTROL 1) ((c1 OR get_clock_divider base target) AND NOT 0xFFE0);
          timer_sleep H 3;
          wr H (CONTROL 1) (c1 OR 4);
          timer_sleep H 3;
          State_Monad.return (Some True) }) }"

definition emmc_setup_clock :: "'h mmio \<Rightarrow> ('h, bool) em" where
  "emmc_setup_clock H = do {
     wr H CONTROL2 0;
     rate \<leftarrow> mailbox_clock_rate H;
     n \<leftarrow> rd H (CONTROL 1);
     wr H (CONTROL 1) (((n OR 1 OR get_clock_divider rate 400000) AND NOT (push_bit 16 0xF)) OR push_bit 16 11);
     stable \<leftarrow> wait_reg_mask H (CONTROL 1) 2 True 2000;
     if \<not> stable then State_Monad.return False
     else do {
       timer_sleep H 30;
       c \<leftarrow> rd H (CONTROL 1);
       wr H (CONTROL 1) (c OR 4);
       timer_sleep H 30;
       State_Monad.return True } }"

section \<open>Initialising the card\<close>

text \<open>\<open>for (i = 0; i < 10000; i++)\<close>\<close>

primrec reset_wait :: "'h mmio \<Rightarrow> nat \<Rightarrow> ('h, bool) em" where
  "reset_wait H 0 = State_Monad.return False"
| "reset_wait H (Suc n) = do {
     v \<leftarrow> rd H (CONTROL 1);
     if v AND push_bit 25 1 = 0 then State_Monad.return True
     else do { timer_sleep H 1; reset_wait H n } }"

definition reset_command :: "'h mmio \<Rightarrow> ('h, bool) em" where
  "reset_command H = do {
     c \<leftarrow> rd H (CONTROL 1);
     wr H (CONTROL 1) (c OR push_bit 25 1);
     reset_wait H 10000 }"

text \<open>The attempts of \<open>check_ocr\<close> that are left.\<close>

primrec ocr_attempts :: "'h mmio \<Rightarrow> nat \<Rightarrow> ('h, bool) em" where
  "ocr_attempts H 0 = State_Monad.return False"
| "ocr_attempts H (Suc n) = do {
     ok \<leftarrow> emmc_app_command H CTOcrCheck 0 2000;
     if ok then State_Monad.return True else ocr_attempts H n }"

definition check_ocr :: "'h mmio \<Rightarrow> ('h, bool) em" where
  "check_ocr H = do {
     passed \<leftarrow> ocr_attempts H 5;
     if \<not> passed then State_Monad.return False
     else do {
       dmod (\<lambda>d. d\<lparr>ocr := ucast (drop_bit 8 (last_response d ! 0) AND 0xFFFF)\<rparr>);
       State_Monad.return True } }"

definition check_usable_card :: "'h mmio \<Rightarrow> ('h, bool) em" where
  "check_usable_card H = do {
     ok \<leftarrow> emmc_command H CTIOSetOpCond 0 1000;
     if ok then State_Monad.return True
     else do {
       err \<leftarrow> dget last_error;
       if err = 0 then State_Monad.return True
       else if err AND push_bit 16 1 \<noteq> 0
       then do {
         ok \<leftarrow> reset_command H;
         if \<not> ok then State_Monad.return False
         else do { wr H INT_FLAGS (sd_error_mask 0); State_Monad.return True } }
       else State_Monad.return False } }"

definition check_v2_card :: "'h mmio \<Rightarrow> ('h, bool) em" where
  "check_v2_card H = do {
     ok \<leftarrow> emmc_command H CTSendIfCond 0x1AA 200;
     if \<not> ok then do {
       err \<leftarrow> dget last_error;
       if err AND push_bit 16 1 \<noteq> 0
       then do {
         ok \<leftarrow> reset_command H;
         if \<not> ok then State_Monad.return False
         else do { wr H INT_FLAGS (sd_error_mask 0); State_Monad.return False } }
       else State_Monad.return False }
     else dget (\<lambda>d. last_response d ! 0 AND 0xFFF = 0x1AA) }"

text \<open>The loop while the card is busy, which has no bound in the source.\<close>

primrec check_sdhc_support :: "'h mmio \<Rightarrow> nat \<Rightarrow> bool \<Rightarrow> ('h, bool option) em" where
  "check_sdhc_support H 0 v2_card = State_Monad.return None"
| "check_sdhc_support H (Suc fuel) v2_card = do {
     ok \<leftarrow> emmc_app_command H CTOcrCheck (0x00FF8000 OR (if v2_card then push_bit 30 1 else 0)) 2000;
     if \<not> ok then State_Monad.return (Some False)
     else do {
       r \<leftarrow> dget (\<lambda>d. last_response d ! 0);
       if bit r 31
       then do {
         dmod (\<lambda>d. d\<lparr>ocr := ucast (drop_bit 8 r AND 0xFFFF), sdhc := bit r 30\<rparr>);
         State_Monad.return (Some True) }
       else do { timer_sleep H 500; check_sdhc_support H fuel v2_card } } }"

definition check_rca :: "'h mmio \<Rightarrow> ('h, bool) em" where
  "check_rca H = do {
     ok \<leftarrow> emmc_command H CTSendCide 0 2000;
     if \<not> ok then State_Monad.return False
     else do {
       ok \<leftarrow> emmc_command H CTSendRelativeAddr 0 2000;
       if \<not> ok then State_Monad.return False
       else do {
         dmod (\<lambda>d. d\<lparr>rca := drop_bit 16 (last_response d ! 0) AND 0xFFFF\<rparr>);
         dget (\<lambda>d. bit (last_response d ! 0) 8) } } }"

definition BSWAP32 :: "u32 \<Rightarrow> u32" where
  "BSWAP32 x = (push_bit 24 x AND 0xff000000) OR (push_bit 8 x AND 0x00ff0000)
     OR (drop_bit 8 x AND 0x0000ff00) OR (drop_bit 24 x AND 0x000000ff)"

definition scr_version :: "u32 \<Rightarrow> u32" where
  "scr_version w =
     (let scr0 = BSWAP32 w; spec = drop_bit 24 scr0 AND 0xF; spec3 = drop_bit 15 scr0 AND 1;
          spec4 = drop_bit 10 scr0 AND 1
      in if spec = 0 then 1 else if spec = 1 then 11
         else if spec = 2 then (if spec3 = 0 then 2 else if spec4 = 0 then 3 else 4)
         else 0xFFFFFFFF)"

definition set_scr :: "'h mmio \<Rightarrow> ('h, bool) em" where
  "set_scr H = do {
     high \<leftarrow> dget sdhc;
     ok \<leftarrow> (if high then State_Monad.return True else emmc_command H CTSetBlockLen 512 2000);
     if \<not> ok then State_Monad.return False
     else do {
       bsc \<leftarrow> rd H BLOCK_SIZE_COUNT;
       wr H BLOCK_SIZE_COUNT ((bsc AND NOT 0xFFF) OR 0x200);
       dmod (\<lambda>d. d\<lparr>buffer := ScrBuf, block_size := 8, transfer_blocks := 1\<rparr>);
       ok \<leftarrow> emmc_app_command H CTSendSCR 0 30000;
       if \<not> ok then State_Monad.return False
       else do {
         dmod (\<lambda>d. d\<lparr>block_size := 512, scr_reg := (scr_reg d)\<lparr>version := scr_version (scr (scr_reg d) ! 0)\<rparr>\<rparr>);
         State_Monad.return True } } }"

definition select_card :: "'h mmio \<Rightarrow> ('h, bool) em" where
  "select_card H = do {
     r \<leftarrow> dget rca;
     ok \<leftarrow> emmc_command H CTSelectCard (push_bit 16 r) 2000;
     if \<not> ok then State_Monad.return False
     else do {
       status \<leftarrow> dget (\<lambda>d. drop_bit 9 (last_response d ! 0) AND 0xF);
       State_Monad.return (status = 3 \<or> status = 4) } }"

text \<open>The steps of \<open>emmc_card_reset\<close> after the card answered \<open>check_sdhc_support\<close>.\<close>

definition card_identify :: "'h mmio \<Rightarrow> nat \<Rightarrow> ('h, bool option) em" where
  "card_identify H fuel = do {
     rate \<leftarrow> dget base_clock;
     switched \<leftarrow> switch_clock_rate H fuel rate 25000000;
     if switched = None then State_Monad.return None
     else do {
       timer_sleep H 10;
       ok \<leftarrow> check_rca H;
       ok \<leftarrow> (if ok then select_card H else State_Monad.return False);
       ok \<leftarrow> (if ok then set_scr H else State_Monad.return False);
       if \<not> ok then State_Monad.return (Some False)
       else do { wr H INT_FLAGS 0xFFFFFFFF; State_Monad.return (Some True) } } }"

text \<open>The steps before: reset of the controller, the clock, the idle command and the voltage checks.\<close>

definition card_wake :: "'h mmio \<Rightarrow> nat \<Rightarrow> ('h, bool option) em" where
  "card_wake H fuel = do {
     ok \<leftarrow> emmc_setup_clock H;
     if \<not> ok then State_Monad.return (Some False)
     else do {
       wr H INT_ENABLE 0;
       wr H INT_FLAGS 0xFFFFFFFF;
       wr H INT_MASK 0xFFFFFFFF;
       timer_sleep H 203;
       dmod (\<lambda>d. d\<lparr>transfer_blocks := 0, last_command_value := 0, last_success := False, block_size := 0\<rparr>);
       ok \<leftarrow> emmc_command H CTGoIdle 0 2000;
       if \<not> ok then State_Monad.return (Some False)
       else do {
         v2_card \<leftarrow> check_v2_card H;
         ok \<leftarrow> check_usable_card H;
         ok \<leftarrow> (if ok then check_ocr H else State_Monad.return False);
         if \<not> ok then State_Monad.return (Some False) else check_sdhc_support H fuel v2_card } } }"

definition emmc_card_reset :: "'h mmio \<Rightarrow> nat \<Rightarrow> ('h, bool option) em" where
  "emmc_card_reset H fuel = do {
     wr H (CONTROL 1) (push_bit 24 1);
     ok \<leftarrow> wait_reg_mask H (CONTROL 1) (push_bit 24 7) False 2000;
     if \<not> ok then State_Monad.return (Some False)
     else do {
       c0 \<leftarrow> rd H (CONTROL 0);
       wr H (CONTROL 0) (c0 OR push_bit 8 0x0F);
       timer_sleep H 3;
       r \<leftarrow> card_wake H fuel;
       if r = Some True then card_identify H fuel else State_Monad.return r } }"

primrec reset_attempts :: "'h mmio \<Rightarrow> nat \<Rightarrow> nat \<Rightarrow> ('h, bool option) em" where
  "reset_attempts H fuel 0 = State_Monad.return (Some False)"
| "reset_attempts H fuel (Suc n) = do {
     r \<leftarrow> emmc_card_reset H fuel;
     if r = Some False then do { timer_sleep H 100; reset_attempts H fuel n }
     else State_Monad.return r }"

primrec set_pins :: "'h mmio \<Rightarrow> nat \<Rightarrow> nat list \<Rightarrow> ('h, unit) em" where
  "set_pins H f [] = State_Monad.return ()"
| "set_pins H f (p # ps) = do { gpio_pin_set_func H p f; set_pins H f ps }"

definition emmc_init :: "'h mmio \<Rightarrow> nat \<Rightarrow> ('h, bool option) em" where
  "emmc_init H fuel = do {
     set_pins H 0 [34, 35, 36, 37, 38, 39];
     set_pins H 7 [48, 49, 50, 51, 52];
     dmod (\<lambda>d. d\<lparr>transfer_blocks := 0, last_command_value := 0, last_success := False, block_size := 0,
        sdhc := False, ocr := 0, rca := 0, offset := 0, base_clock := 0\<rparr>);
     reset_attempts H fuel 10 }"

end
