(* ===== verification/Emmc_Correct.thy ===== *)
theory Emmc_Correct
  imports Emmc
begin

text \<open>
  What the SD card driver does. The first part holds for every hardware: which words of memory and
  which fields of the device a command can change. The second part is a controller that completes
  every command, for which a read delivers the words of the card.
\<close>

section \<open>What an operation can change\<close>

definition same_setup :: "emmc_device_t \<Rightarrow> emmc_device_t \<Rightarrow> bool" where
  "same_setup d d' \<longleftrightarrow> buffer d' = buffer d \<and> block_size d' = block_size d \<and>
     transfer_blocks d' = transfer_blocks d \<and> sdhc d' = sdhc d \<and> offset d' = offset d"

text \<open>Only the words of the buffer with an index in \<open>I\<close> changed.\<close>

definition touch :: "nat set \<Rightarrow> 'h emmc \<Rightarrow> 'h emmc \<Rightarrow> bool" where
  "touch I s s' \<longleftrightarrow> same_setup (em_dev s) (em_dev s') \<and>
     (\<forall>a. em_mem s' a \<noteq> em_mem s a \<longrightarrow> (\<exists>b. buffer (em_dev s) = MemBuf b \<and> a \<in> word_addr b ` I))"

lemma touch_setup: "touch I s s' \<Longrightarrow> same_setup (em_dev s) (em_dev s')"
  by (simp add: touch_def)

lemma touch_refl [simp]: "touch I s s"
  by (simp add: touch_def same_setup_def)

lemma touch_trans:
  assumes "touch I s t" and "touch J t u" and "I \<subseteq> K" and "J \<subseteq> K"
  shows "touch K s u"
proof -
  have "buffer (em_dev t) = buffer (em_dev s)" using assms(1) by (simp add: touch_def same_setup_def)
  then show ?thesis using assms unfolding touch_def same_setup_def by simp (metis image_mono subsetD)
qed

lemma touch_trans2: "touch I s t \<Longrightarrow> touch I t u \<Longrightarrow> touch I s u"
  by (rule touch_trans [of I s t I u]) simp_all

lemma touch_io_bind:
  assumes "state_io_rel (touch I) m" and "\<And>x. state_io_rel (touch I) (f x)"
  shows "state_io_rel (touch I) (m \<bind> f)"
proof (rule state_io_relI)
  fix a s s'
  assume r: "run_state (m \<bind> f) s = (a, s')"
  obtain x t where t: "run_state m s = (x, t)" by fastforce
  with r have "run_state (f x) t = (a, s')" by simp
  then have "touch I t s'" using assms(2) by (rule state_io_relD [rotated])
  moreover have "touch I s t" using assms(1) t by (rule state_io_relD)
  ultimately show "touch I s s'" by (rule touch_trans2 [rotated])
qed

lemma touch_io_let: "state_io_rel (touch I) (f x) \<Longrightarrow> state_io_rel (touch I) (let y = x in f y)"
  by simp

lemma touch_io_if:
  "(b \<Longrightarrow> state_io_rel (touch I) m) \<Longrightarrow> (\<not> b \<Longrightarrow> state_io_rel (touch I) n) \<Longrightarrow>
     state_io_rel (touch I) (if b then m else n)"
  by simp

lemma touch_io_prim:
  "state_io_rel (touch I) (State_Monad.return x)"
  "state_io_rel (touch I) (rd H r)"
  "state_io_rel (touch I) (wr H r v)"
  "state_io_rel (touch I) (timer_sleep H n)"
  "state_io_rel (touch I) (dget f)"
  "state_io_rel (touch I) (get_word i)"
  "state_io_rel (touch I) (set_last_error w)"
  "state_io_rel (touch I) (set_response i w)"
  by (auto simp: state_io_rel_def rd_def wr_def timer_sleep_def dget_def get_word_def set_last_error_def
      set_response_def dmod_def touch_def same_setup_def split: prod.splits)

lemma touch_io_dmod:
  "(\<And>d. same_setup d (f d)) \<Longrightarrow> state_io_rel (touch I) (dmod f)"
  by (simp add: state_io_rel_def dmod_def touch_def)

lemma touch_put_word: "i \<in> I \<Longrightarrow> state_io_rel (touch I) (put_word i v)"
  by (auto simp: state_io_rel_def put_word_def touch_def same_setup_def split: emmc_buf.splits)

lemmas touch_io = touch_io_bind touch_io_let touch_io_if touch_io_prim

lemma touch_wait_reg: "state_io_rel (touch I) (wait_reg_mask H r msk on n)"
proof -
  have "state_io_rel (touch I) (wait_loop H r msk on m)" for m
    by (induction m) (auto intro!: touch_io)
  then show ?thesis unfolding wait_reg_mask_def by fast
qed

lemma touch_command_wait: "state_io_rel (touch I) (command_wait H n)"
  by (induction n) (simp_all add: touch_io)

lemma touch_write_words: "state_io_rel (touch I) (write_words H i n)"
  by (induction n arbitrary: i) (simp_all add: touch_io)

lemma touch_read_words: "{i..<i + n} \<subseteq> I \<Longrightarrow> state_io_rel (touch I) (read_words H i n)"
proof (induction n arbitrary: i)
  case (Suc n)
  have "state_io_rel (touch I) (put_word i v)" for v using Suc.prems by (intro touch_put_word) auto
  moreover have "state_io_rel (touch I) (read_words H (Suc i) n)" using Suc.prems by (intro Suc.IH) auto
  ultimately show ?case by (auto intro!: touch_io)
qed (simp add: touch_io)

text \<open>The number of words of a whole transfer.\<close>

definition transfer_words :: "emmc_device_t \<Rightarrow> nat" where
  "transfer_words d = unat (transfer_blocks d) * block_words d"

lemma unit_run: "\<exists>t. run_state (m :: ('s, unit) state) s = ((), t)"
  by (cases "run_state m s") simp

lemma touch_io_at: "state_io_rel (touch I) m \<Longrightarrow> run_state m s = (x, t) \<Longrightarrow> touch I s t"
  by (rule state_io_relD)

lemma touch_transfer_loop:
  assumes "run_state (transfer_loop H w write i n) s = (r, s')"
    and "{i..<i + n * block_words (em_dev s)} \<subseteq> I"
  shows "touch I s s'"
  using assms
proof (induction n arbitrary: i s)
  case 0
  then show ?case by simp
next
  case (Suc n)
  obtain b1 s1 where s1: "run_state (wait_reg_mask H INT_FLAGS (w OR 0x8000) True 2000) s = (b1, s1)" by fastforce
  obtain v s2 where s2: "run_state (rd H INT_FLAGS) s1 = (v, s2)" by fastforce
  obtain s3 where s3: "run_state (wr H INT_FLAGS (w OR 0x8000)) s2 = ((), s3)" by (rule exE [OF unit_run])
  have t3: "touch I s s3"
    by (rule touch_trans2 [OF touch_io_at [OF touch_wait_reg s1]
          touch_trans2 [OF touch_io_at [OF touch_io_prim(2) s2] touch_io_at [OF touch_io_prim(3) s3]]])
  then have bs: "block_words (em_dev s3) = block_words (em_dev s)"
    by (auto simp: touch_def same_setup_def block_words_def)
  show ?case
  proof (cases "v AND 0xFFFF0000 = 0")
    case False
    obtain s4 where s4: "run_state (set_last_error v) s3 = ((), s4)" by (rule exE [OF unit_run])
    have "s' = s4" using Suc.prems(1) s1 s2 s3 s4 False by simp
    moreover have "touch I s3 s4" by (rule touch_io_at [OF touch_io_prim(7) s4])
    ultimately show ?thesis using touch_trans2 [OF t3] by simp
  next
    case True
    let ?m = "if write then write_words H i (block_words (em_dev s)) else read_words H i (block_words (em_dev s))"
    obtain s4 where s4: "run_state ?m s3 = ((), s4)" by (rule exE [OF unit_run])
    have sub: "{i..<i + block_words (em_dev s)} \<subseteq> I"
      by (rule order_trans [OF _ Suc.prems(2)]) (simp add: ivl_subset)
    have "state_io_rel (touch I) ?m"
      using touch_read_words [OF sub, of H] touch_write_words [of I H i "block_words (em_dev s)"] by simp
    then have t4: "touch I s3 s4" using s4 by (rule touch_io_at)
    then have bs4: "block_words (em_dev s4) = block_words (em_dev s)"
      using bs by (auto simp: touch_def same_setup_def block_words_def)
    have "run_state (transfer_loop H w write (i + block_words (em_dev s)) n) s4 = (r, s')"
      using Suc.prems(1) s1 s2 s3 s4 True bs by (simp add: dget_def)
    moreover have "{i + block_words (em_dev s) ..< i + block_words (em_dev s) + n * block_words (em_dev s4)} \<subseteq> I"
      by (rule order_trans [OF _ Suc.prems(2)]) (simp add: bs4 ivl_subset)
    ultimately have "touch I s4 s'" by (rule Suc.IH)
    then show ?thesis by (rule touch_trans2 [OF t3 touch_trans2 [OF t4]])
  qed
qed

lemma touch_data_transfer:
  assumes "run_state (do_data_transfer H cmd) s = (r, s')"
  shows "touch {..<transfer_words (em_dev s)} s s'"
  using assms unfolding do_data_transfer_def
  by (auto simp: dget_def transfer_words_def atLeast0LessThan split: if_splits intro: touch_transfer_loop)


lemma touch_read_response: "state_io_rel (touch I) (read_response H cmd)"
  by (auto simp: read_response_def intro!: touch_io)

lemma touch_finish: "state_io_rel (touch I) (finish_transfer H cmd)"
  by (auto simp: finish_transfer_def intro!: touch_io touch_wait_reg)

lemma touch_set_success: "state_io_rel (touch I) (dmod (\<lambda>d. d\<lparr>last_success := b\<rparr>))"
  by (intro touch_io_dmod) (simp add: same_setup_def)

text \<open>Binding after an operation that determines how much the rest may touch.\<close>

definition keeps :: "('h, 'a) em \<Rightarrow> bool" where
  "keeps m \<longleftrightarrow> (\<forall>s r s'. run_state m s = (r, s') \<longrightarrow> touch {..<transfer_words (em_dev s)} s s')"

lemma keepsI: "(\<And>I. state_io_rel (touch I) m) \<Longrightarrow> keeps m"
  by (auto simp: keeps_def)

lemma keeps_bind:
  assumes "keeps m" and "\<And>x. keeps (f x)"
  shows "keeps (m \<bind> f)"
  unfolding keeps_def
proof (intro allI impI)
  fix s r s'
  assume r: "run_state (m \<bind> f) s = (r, s')"
  obtain x t where t: "run_state m s = (x, t)" by fastforce
  with r have "run_state (f x) t = (r, s')" by simp
  then have "touch {..<transfer_words (em_dev t)} t s'" using assms(2) unfolding keeps_def by blast
  moreover have k: "touch {..<transfer_words (em_dev s)} s t" using assms(1) t unfolding keeps_def by blast
  moreover have "transfer_words (em_dev t) = transfer_words (em_dev s)"
    using touch_setup [OF k] by (simp add: same_setup_def transfer_words_def block_words_def)
  ultimately show "touch {..<transfer_words (em_dev s)} s s'" using touch_trans2 [OF k] by simp
qed

lemma keeps_if: "(b \<Longrightarrow> keeps m) \<Longrightarrow> (\<not> b \<Longrightarrow> keeps n) \<Longrightarrow> keeps (if b then m else n)"
  by simp

lemmas keeps_io = keeps_bind keeps_if touch_io_prim [THEN keepsI] touch_command_wait [THEN keepsI]
  touch_read_response [THEN keepsI] touch_finish [THEN keepsI] touch_set_success [THEN keepsI]

lemma keeps_data_transfer: "keeps (do_data_transfer H cmd)"
  by (simp add: keeps_def touch_data_transfer)

lemma keeps_set_command: 
  "keeps (dmod (\<lambda>d. d\<lparr>last_command_value := v\<rparr>))" "keeps (dmod (\<lambda>d. d\<lparr>last_command := c\<rparr>))"
  by (intro keepsI touch_io_dmod; simp add: same_setup_def)+

lemma keeps_issue: "keeps (emmc_issue_command H cmd arg n)"
  unfolding emmc_issue_command_def
  by (intro keeps_io keeps_data_transfer keeps_set_command)

lemma keeps_command: "keeps (emmc_command H c arg n)"
  unfolding emmc_command_def by (intro keeps_io keeps_issue keeps_set_command)

lemma keeps_app_command: "keeps (emmc_app_command H c arg n)"
  unfolding emmc_app_command_def by (intro keeps_io keeps_issue keeps_set_command)

lemma keeps_retry: "keeps (retry_command H c arg n)"
  by (induction n) (auto intro!: keeps_io keeps_command)

section \<open>A controller that serves reads\<close>

text \<open>
  What the driver relies on, as the manual of the controller and the SD specification have it,
  without latency: a flag stays set until it is written with a one; a read command queues the words
  of the addressed blocks and sets command-complete and buffer-ready; reading the last word of a
  block sets buffer-ready for the next one, or transfer-complete after the last.
\<close>

record sd_view =
  sv_queue :: "u32 list"
  sv_flags :: u32
  sv_arg :: u32
  sv_bsc :: u32

definition card_words :: "(nat \<Rightarrow> u32) \<Rightarrow> nat \<Rightarrow> nat \<Rightarrow> u32 list" where
  "card_words disk block n = map (\<lambda>i. disk (128 * block + i)) [0..<128 * n]"

definition is_read_command :: "u32 \<Rightarrow> bool" where
  "is_read_command c \<longleftrightarrow>
     c = emmc_cmd_reg (commands ! unat CTReadBlock) \<or> c = emmc_cmd_reg (commands ! unat CTReadMultiple)"

definition sd_controller :: "'h mmio \<Rightarrow> ('h \<Rightarrow> sd_view) \<Rightarrow> (nat \<Rightarrow> u32) \<Rightarrow> bool" where
  "sd_controller H view disk \<longleftrightarrow> (\<forall>h.
     (case mm_read H INT_FLAGS h of (v, h') \<Rightarrow> v = sv_flags (view h) \<and> view h' = view h) \<and>
     (\<forall>i. view (snd (mm_read H (RESPONSE i) h)) = view h) \<and>
     (\<forall>v. view (mm_write H INT_FLAGS v h) = (view h)\<lparr>sv_flags := sv_flags (view h) AND NOT v\<rparr>) \<and>
     (\<forall>v. view (mm_write H ARG1 v h) = (view h)\<lparr>sv_arg := v\<rparr>) \<and>
     (\<forall>v. view (mm_write H BLOCK_SIZE_COUNT v h) = (view h)\<lparr>sv_bsc := v\<rparr>) \<and>
     (\<forall>n. view (mm_sleep H n h) = view h) \<and>
     (\<forall>c. is_read_command c \<and> sv_bsc (view h) AND 0xFFF = 512 \<longrightarrow>
        view (mm_write H CMD_XFER_MODE c h) =
          (view h)\<lparr>sv_flags := sv_flags (view h) OR 0x21,
                   sv_queue := card_words disk (unat (sv_arg (view h))) (unat (drop_bit 16 (sv_bsc (view h))))\<rparr>) \<and>
     (\<forall>w ws. sv_queue (view h) = w # ws \<longrightarrow>
        (case mm_read H DATA h of (v, h') \<Rightarrow> v = w \<and>
           view h' = (view h)\<lparr>sv_queue := ws,
             sv_flags := sv_flags (view h) OR (if ws = [] then 2 else if 128 dvd length ws then 0x20 else 0)\<rparr>)))"

text \<open>The words a read stores.\<close>

primrec stored :: "u64 \<Rightarrow> nat \<Rightarrow> u32 list \<Rightarrow> (u64 \<Rightarrow> u32) \<Rightarrow> (u64 \<Rightarrow> u32)" where
  "stored b i [] m = m"
| "stored b i (w # ws) m = stored b (Suc i) ws (m(word_addr b i := w))"

lemma stored_append: "stored b i (xs @ ys) m = stored b (i + length xs) ys (stored b i xs m)"
  by (induction xs arbitrary: i m) simp_all

lemma word_addr_inj: "word_addr b i = word_addr b j \<Longrightarrow> i < 2 ^ 62 \<Longrightarrow> j < 2 ^ 62 \<Longrightarrow> i = j"
proof -
  assume eq: "word_addr b i = word_addr b j" and "i < 2 ^ 62" and "j < 2 ^ 62"
  have u: "unat (4 * of_nat k :: u64) = 4 * k" if "k < 2 ^ 62" for k
  proof -
    have "(4 * of_nat k :: u64) = of_nat (4 * k)" by simp
    then show ?thesis using that by (simp only: unat_of_nat) simp
  qed
  have "(4 * of_nat i :: u64) = 4 * of_nat j" using eq by (simp add: word_addr_def)
  then have "4 * i = 4 * j" using u [OF \<open>i < 2 ^ 62\<close>] u [OF \<open>j < 2 ^ 62\<close>] by metis
  then show "i = j" by simp
qed

lemma stored_other: "i + length ws \<le> 2 ^ 62 \<Longrightarrow> k < i \<Longrightarrow> stored b i ws m (word_addr b k) = m (word_addr b k)"
proof (induction ws arbitrary: i m)
  case (Cons w ws)
  have "word_addr b k \<noteq> word_addr b i" using word_addr_inj [of b k i] Cons.prems by auto
  then show ?case using Cons by simp
qed simp

lemma stored_nth: "i + length ws \<le> 2 ^ 62 \<Longrightarrow> j < length ws \<Longrightarrow> stored b i ws m (word_addr b (i + j)) = ws ! j"
proof (induction ws arbitrary: i j m)
  case (Cons w ws)
  show ?case
  proof (cases j)
    case 0
    then show ?thesis using stored_other [of "Suc i" ws i b] Cons.prems by simp
  next
    case (Suc k)
    then show ?thesis using Cons.IH [of "Suc i" k] Cons.prems by simp
  qed
qed simp

subsection \<open>Single accesses\<close>

lemma controller_laws:
  assumes "sd_controller H view disk"
  shows flags_law: "mm_read H INT_FLAGS h = (v, h') \<Longrightarrow> v = sv_flags (view h) \<and> view h' = view h"
    and response_law: "view (snd (mm_read H (RESPONSE i) h)) = view h"
    and ack_law: "view (mm_write H INT_FLAGS v h) = (view h)\<lparr>sv_flags := sv_flags (view h) AND NOT v\<rparr>"
    and arg_law: "view (mm_write H ARG1 v h) = (view h)\<lparr>sv_arg := v\<rparr>"
    and bsc_law: "view (mm_write H BLOCK_SIZE_COUNT v h) = (view h)\<lparr>sv_bsc := v\<rparr>"
    and sleep_law: "view (mm_sleep H n h) = view h"
    and command_law: "is_read_command c \<Longrightarrow> sv_bsc (view h) AND 0xFFF = 512 \<Longrightarrow>
        view (mm_write H CMD_XFER_MODE c h) =
          (view h)\<lparr>sv_flags := sv_flags (view h) OR 0x21,
                   sv_queue := card_words disk (unat (sv_arg (view h))) (unat (drop_bit 16 (sv_bsc (view h))))\<rparr>"
    and data_law: "sv_queue (view h) = w # ws \<Longrightarrow> mm_read H DATA h = (v, h') \<Longrightarrow> v = w \<and>
           view h' = (view h)\<lparr>sv_queue := ws,
             sv_flags := sv_flags (view h) OR (if ws = [] then 2 else if 128 dvd length ws then 0x20 else 0)\<rparr>"
  using spec [OF assms [unfolded sd_controller_def], of h] by simp_all

text \<open>The states that differ from \<open>s\<close> in the hardware only, whose view is \<open>v\<close>.\<close>

definition only_hw :: "('h \<Rightarrow> sd_view) \<Rightarrow> 'h emmc \<Rightarrow> sd_view \<Rightarrow> 'h emmc \<Rightarrow> bool" where
  "only_hw view s v s' \<longleftrightarrow> em_dev s' = em_dev s \<and> em_mem s' = em_mem s \<and> view (em_hw s') = v"

lemma run_rd_flags:
  assumes "sd_controller H view disk"
  obtains s' where "run_state (rd H INT_FLAGS) s = (sv_flags (view (em_hw s)), s')"
    "only_hw view s (view (em_hw s)) s'"
  using flags_law [OF assms, of "em_hw s"]
  by (cases "mm_read H INT_FLAGS (em_hw s)") (simp add: rd_def only_hw_def)

lemma run_ack:
  assumes "sd_controller H view disk"
  obtains s' where "run_state (wr H INT_FLAGS v) s = ((), s')"
    "only_hw view s ((view (em_hw s))\<lparr>sv_flags := sv_flags (view (em_hw s)) AND NOT v\<rparr>) s'"
  using ack_law [OF assms, of v "em_hw s"] by (simp add: wr_def only_hw_def)

lemma run_wait_flags:
  assumes "sd_controller H view disk" and "sv_flags (view (em_hw s)) AND m \<noteq> 0"
  obtains s' where "run_state (wait_reg_mask H INT_FLAGS m True n) s = (True, s')"
    "only_hw view s (view (em_hw s)) s'"
  by (rule run_rd_flags [OF assms(1), of s]) (use assms(2) in \<open>simp add: wait_reg_mask_def\<close>)

lemma run_read_word:
  assumes "sd_controller H view disk" and "sv_queue (view (em_hw s)) = w # ws" and "buffer (em_dev s) = MemBuf b"
  obtains s' where "run_state (do { v \<leftarrow> rd H DATA; put_word i v }) s = ((), s')"
    "em_dev s' = em_dev s" "em_mem s' = (em_mem s)(word_addr b i := w)"
    "view (em_hw s') = (view (em_hw s))\<lparr>sv_queue := ws, sv_flags := sv_flags (view (em_hw s))
        OR (if ws = [] then 2 else if 128 dvd length ws then 0x20 else 0)\<rparr>"
  using data_law [OF assms(1,2)] assms(3)
  by (cases "mm_read H DATA (em_hw s)") (simp add: rd_def put_word_def)

lemma run_read_words:
  assumes "sd_controller H view disk" and "buffer (em_dev s) = MemBuf b"
    and "length (sv_queue (view (em_hw s))) = m + 128 * r" and "0 < m" and "m \<le> 128"
  obtains s' where "run_state (read_words H i m) s = ((), s')" "em_dev s' = em_dev s"
    "em_mem s' = stored b i (take m (sv_queue (view (em_hw s)))) (em_mem s)"
    "view (em_hw s') = (view (em_hw s))\<lparr>sv_queue := drop m (sv_queue (view (em_hw s))),
        sv_flags := sv_flags (view (em_hw s)) OR (if r = 0 then 2 else 0x20)\<rparr>"
proof -
  have "\<exists>s'. run_state (read_words H i m) s = ((), s') \<and> em_dev s' = em_dev s \<and>
      em_mem s' = stored b i (take m (sv_queue (view (em_hw s)))) (em_mem s) \<and>
      view (em_hw s') = (view (em_hw s))\<lparr>sv_queue := drop m (sv_queue (view (em_hw s))),
        sv_flags := sv_flags (view (em_hw s)) OR (if r = 0 then 2 else 0x20)\<rparr>"
    using assms(2-)
  proof (induction m arbitrary: i s)
    case (Suc m)
    then obtain w ws where q: "sv_queue (view (em_hw s)) = w # ws" by (cases "sv_queue (view (em_hw s))") auto
    obtain s1 where s1: "run_state (do { v \<leftarrow> rd H DATA; put_word i v }) s = ((), s1)"
      "em_dev s1 = em_dev s" "em_mem s1 = (em_mem s)(word_addr b i := w)"
      "view (em_hw s1) = (view (em_hw s))\<lparr>sv_queue := ws, sv_flags := sv_flags (view (em_hw s))
        OR (if ws = [] then 2 else if 128 dvd length ws then 0x20 else 0)\<rparr>"
      by (rule run_read_word [OF assms(1) q Suc.prems(1)])
    have step: "run_state (read_words H i (Suc m)) s = run_state (read_words H (Suc i) m) s1"
      using s1(1) by (simp add: split: prod.splits)
    have len: "length ws = m + 128 * r" using Suc.prems(2) q by simp
    show ?case
    proof (cases "m = 0")
      case True
      have "ws = [] \<longleftrightarrow> r = 0" using len True by (cases ws) auto
      then show ?thesis using step s1 q len True by (simp add: fun_eq_iff)
    next
      case False
      have "ws \<noteq> []" and "\<not> 128 dvd length ws" using len False Suc.prems(4) by (auto simp: dvd_add_left_iff dest: dvd_imp_le)
      then have v1: "view (em_hw s1) = (view (em_hw s))\<lparr>sv_queue := ws\<rparr>" using s1(4) by simp
      have "\<exists>s'. run_state (read_words H (Suc i) m) s1 = ((), s') \<and> em_dev s' = em_dev s1 \<and>
          em_mem s' = stored b (Suc i) (take m (sv_queue (view (em_hw s1)))) (em_mem s1) \<and>
          view (em_hw s') = (view (em_hw s1))\<lparr>sv_queue := drop m (sv_queue (view (em_hw s1))),
            sv_flags := sv_flags (view (em_hw s1)) OR (if r = 0 then 2 else 0x20)\<rparr>"
        by (rule Suc.IH) (use Suc.prems s1(2) v1 len False in simp_all)
      then show ?thesis using step s1(2,3) v1 q by simp
    qed
  qed simp
  then show thesis using that by blast
qed

text \<open>The loop over the blocks: buffer-ready is set before each block, transfer-complete at the end.\<close>

lemma run_transfer_loop:
  assumes "sd_controller H view disk" and "buffer (em_dev s) = MemBuf b" and "block_words (em_dev s) = 128"
    and "length (sv_queue (view (em_hw s))) = 128 * n" and "sv_flags (view (em_hw s)) = (if n = 0 then 2 else 0x20)"
  obtains s' where "run_state (transfer_loop H 0x20 False i n) s = (True, s')" "em_dev s' = em_dev s"
    "em_mem s' = stored b i (sv_queue (view (em_hw s))) (em_mem s)" "sv_flags (view (em_hw s')) = 2"
proof -
  have "\<exists>s'. run_state (transfer_loop H 0x20 False i n) s = (True, s') \<and> em_dev s' = em_dev s \<and>
      em_mem s' = stored b i (sv_queue (view (em_hw s))) (em_mem s) \<and> sv_flags (view (em_hw s')) = 2"
    using assms(2-)
  proof (induction n arbitrary: i s)
    case (Suc n)
    let ?q = "sv_queue (view (em_hw s))"
    have fl: "sv_flags (view (em_hw s)) = 0x20" using Suc.prems(4) by simp
    obtain s1 where s1: "run_state (wait_reg_mask H INT_FLAGS 0x8020 True 2000) s = (True, s1)"
        "only_hw view s (view (em_hw s)) s1"
      by (rule run_wait_flags [OF assms(1), where m = "0x8020" and s = s and n = 2000]) (use fl in simp_all)
    have v1: "view (em_hw s1) = view (em_hw s)" using s1(2) by (simp add: only_hw_def)
    obtain s2 where s2: "run_state (rd H INT_FLAGS) s1 = (0x20, s2)" "only_hw view s1 (view (em_hw s)) s2"
      by (rule run_rd_flags [OF assms(1), of s1]) (use fl v1 in simp_all)
    have v2: "view (em_hw s2) = view (em_hw s)" using s2(2) by (simp add: only_hw_def)
    obtain s3 where s3: "run_state (wr H INT_FLAGS 0x8020) s2 = ((), s3)"
        "only_hw view s2 ((view (em_hw s))\<lparr>sv_flags := 0\<rparr>) s3"
      by (rule run_ack [OF assms(1), where s = s2 and v = "0x8020"]) (use fl v2 in simp_all)
    have same: "em_dev s3 = em_dev s" "em_mem s3 = em_mem s" "view (em_hw s3) = (view (em_hw s))\<lparr>sv_flags := 0\<rparr>"
      using s1(2) s2(2) s3(2) by (simp_all add: only_hw_def)
    obtain s4 where s4: "run_state (read_words H i 128) s3 = ((), s4)" "em_dev s4 = em_dev s"
        "em_mem s4 = stored b i (take 128 ?q) (em_mem s)" "sv_queue (view (em_hw s4)) = drop 128 ?q"
        "sv_flags (view (em_hw s4)) = (if n = 0 then 2 else 0x20)"
      by (rule run_read_words [OF assms(1), where s = s3 and b = b and m = 128 and r = n and i = i])
        (use same Suc.prems in simp_all)
    have "\<exists>s'. run_state (transfer_loop H 0x20 False (i + 128) n) s4 = (True, s') \<and> em_dev s' = em_dev s4 \<and>
        em_mem s' = stored b (i + 128) (sv_queue (view (em_hw s4))) (em_mem s4) \<and> sv_flags (view (em_hw s')) = 2"
      by (rule Suc.IH) (use Suc.prems s4 in simp_all)
    then obtain s5 where s5: "run_state (transfer_loop H 0x20 False (i + 128) n) s4 = (True, s5)"
        "em_dev s5 = em_dev s" "em_mem s5 = stored b (i + 128) (drop 128 ?q) (stored b i (take 128 ?q) (em_mem s))"
        "sv_flags (view (em_hw s5)) = 2" using s4(2-4) by auto
    have "stored b (i + 128) (drop 128 ?q) (stored b i (take 128 ?q) (em_mem s)) = stored b i ?q (em_mem s)"
      using stored_append [of b i "take 128 ?q" "drop 128 ?q" "em_mem s"] Suc.prems(3) by simp
    moreover have "run_state (transfer_loop H 0x20 False i (Suc n)) s = (True, s5)"
      using s1(1) s2(1) s3(1) s4(1) s5(1) same(1) Suc.prems(2) by (simp add: dget_def)
    ultimately show ?case using s5 by auto
  qed simp
  then show thesis using that by blast
qed

lemma run_finish:
  assumes "sd_controller H view disk" and "sv_flags (view (em_hw s)) = 2"
  obtains s' where "run_state (finish_transfer H cmd) s = (True, s')" "em_dev s' = em_dev s" "em_mem s' = em_mem s"
proof -
  obtain s1 where s1: "run_state (wait_reg_mask H INT_FLAGS 0x8002 True 2000) s = (True, s1)"
      "only_hw view s (view (em_hw s)) s1"
    by (rule run_wait_flags [OF assms(1), where m = "0x8002" and s = s and n = 2000]) (use assms(2) in simp_all)
  obtain s2 where s2: "run_state (rd H INT_FLAGS) s1 = (2, s2)" "only_hw view s1 (view (em_hw s)) s2"
    by (rule run_rd_flags [OF assms(1), of s1]) (use assms(2) s1(2) in \<open>simp_all add: only_hw_def\<close>)
  have "run_state (finish_transfer H cmd) s =
      (if response_type cmd = RT48Busy \<or> is_data cmd \<noteq> 0
       then (True, snd (run_state (wr H INT_FLAGS 0xFFFF0002) (snd (run_state (wr H INT_FLAGS 0xFFFF0002) s2))))
       else (True, s))"
    using s1(1) s2(1) by (simp add: finish_transfer_def wr_def)
  moreover have "em_dev (snd (run_state (wr H INT_FLAGS v) t)) = em_dev t"
    "em_mem (snd (run_state (wr H INT_FLAGS v) t)) = em_mem t" for v t by (simp_all add: wr_def)
  ultimately show thesis using that s1(2) s2(2) by (cases "response_type cmd = RT48Busy \<or> is_data cmd \<noteq> 0") (simp_all add: only_hw_def)
qed

text \<open>Sending a read command: from no flag to buffer-ready and command-complete.\<close>

definition send_command :: "'h mmio \<Rightarrow> u32 \<Rightarrow> u32 \<Rightarrow> u32 \<Rightarrow> u32 \<Rightarrow> 'h \<Rightarrow> 'h" where
  "send_command H sz blocks arg c h =
     mm_sleep H 10 (mm_write H CMD_XFER_MODE c (mm_write H ARG1 arg (mm_write H BLOCK_SIZE_COUNT (sz OR push_bit 16 blocks) h)))"

lemma block_count_field:
  assumes "blocks \<le> 0xFFFF"
  shows "(512 OR push_bit 16 (blocks :: u32)) AND 0xFFF = 512" "drop_bit 16 (512 OR push_bit 16 blocks) = blocks"
proof -
  have "(512 :: nat) = 2 ^ 9" "(512 :: int) = 2 ^ 9" by simp_all
  then have b: "bit (512 :: nat) n \<longleftrightarrow> n = 9" "bit (512 :: int) n \<longleftrightarrow> n = 9" for n
    by (simp_all only: bit_exp_iff) auto
  have c: "0xFFF = (mask 12 :: u32)" by (simp add: mask_eq_exp_minus_1)
  have hi: "n < 16" if "bit blocks n" for n
  proof (rule ccontr)
    assume "\<not> n < 16"
    then have "(2::nat) ^ 16 \<le> 2 ^ n" by (intro power_increasing) simp_all
    moreover have "(2::nat) ^ n \<le> unat blocks" using that by (rule bit_word_exp_le)
    moreover have "unat blocks \<le> 0xFFFF" using assms by (simp add: word_le_nat_alt)
    ultimately show False by simp
  qed
  show "(512 OR push_bit 16 blocks) AND 0xFFF = 512"
    unfolding c by (rule bit_word_eqI) (auto simp: bit_simps b)
  show "drop_bit 16 (512 OR push_bit 16 blocks) = blocks"
    by (rule bit_word_eqI) (auto simp: bit_simps b dest: hi)
qed

lemma run_read_command:
  assumes ctl: "sd_controller H view disk" and cmd: "is_read_command (emmc_cmd_reg cmd)"
    and kind: "response_type cmd = RT48" "is_data cmd \<noteq> 0" "direction cmd \<noteq> 0"
    and dev: "buffer (em_dev s) = MemBuf b" "block_size (em_dev s) = 512"
    and k: "unat (transfer_blocks (em_dev s)) = k" "0 < k" "k \<le> 0xFFFF"
    and fl: "sv_flags (view (em_hw s)) = 0"
  obtains s' where "run_state (emmc_issue_command H cmd arg (Suc n)) s = (True, s')"
    "same_setup (em_dev s) (em_dev s')" "em_mem s' = stored b 0 (card_words disk (unat arg) k) (em_mem s)"
proof -
  let ?d = "(em_dev s)\<lparr>last_command_value := emmc_cmd_reg cmd\<rparr>"
  let ?bl = "transfer_blocks (em_dev s)"
  define s1 where "s1 = s\<lparr>em_dev := ?d, em_hw := send_command H 512 ?bl arg (emmc_cmd_reg cmd) (em_hw s)\<rparr>"
  have bl: "?bl \<le> 0xFFFF" using k by (simp add: word_le_nat_alt)
  have v1: "view (em_hw s1) = (view (em_hw s))\<lparr>sv_flags := 0x21, sv_arg := arg, sv_bsc := 512 OR push_bit 16 ?bl,
      sv_queue := card_words disk (unat arg) k\<rparr>"
    using cmd block_count_field [OF bl] fl k(1)
    by (simp add: s1_def send_command_def sleep_law [OF ctl] command_law [OF ctl] arg_law [OF ctl] bsc_law [OF ctl])
  obtain s2 where s2: "run_state (rd H INT_FLAGS) s1 = (0x21, s2)" "only_hw view s1 (view (em_hw s1)) s2"
    by (rule run_rd_flags [OF ctl, of s1]) (use v1 in simp_all)
  have w: "run_state (command_wait H (Suc n)) s1 = (True, s2)" using s2(1) by simp
  obtain s3 where s3: "run_state (rd H INT_FLAGS) s2 = (0x21, s3)" "only_hw view s2 (view (em_hw s1)) s3"
    by (rule run_rd_flags [OF ctl, of s2]) (use v1 s2(2) in \<open>simp_all add: only_hw_def\<close>)
  obtain s4 where s4: "run_state (wr H INT_FLAGS 0xFFFF0001) s3 = ((), s4)"
      "only_hw view s3 ((view (em_hw s1))\<lparr>sv_flags := 0x20\<rparr>) s4"
    by (rule run_ack [OF ctl, where s = s3 and v = "0xFFFF0001"]) (use v1 s3(2) in \<open>simp_all add: only_hw_def\<close>)
  define s5 where "s5 = snd (run_state (read_response H cmd) s4)"
  have r5: "run_state (read_response H cmd) s4 = ((), s5)" by (cases "run_state (read_response H cmd) s4") (simp add: s5_def)
  have d4: "em_dev s4 = ?d" "em_mem s4 = em_mem s" "view (em_hw s4) = (view (em_hw s1))\<lparr>sv_flags := 0x20\<rparr>"
    using s2(2) s3(2) s4(2) by (simp_all add: only_hw_def s1_def)
  have d5: "em_mem s5 = em_mem s" "view (em_hw s5) = (view (em_hw s1))\<lparr>sv_flags := 0x20\<rparr>" "same_setup (em_dev s) (em_dev s5)"
    using kind d4 response_law [OF ctl, of 0 "em_hw s4"]
    by (auto simp: s5_def read_response_def rd_def set_response_def dmod_def same_setup_def split: prod.splits)
  have q: "length (sv_queue (view (em_hw s5))) = 128 * k" using d5(2) v1 by (simp add: card_words_def)
  obtain s6 where s6: "run_state (transfer_loop H 0x20 False 0 k) s5 = (True, s6)" "em_dev s6 = em_dev s5"
      "em_mem s6 = stored b 0 (card_words disk (unat arg) k) (em_mem s)" "sv_flags (view (em_hw s6)) = 2"
    by (rule run_transfer_loop [OF ctl, where s = s5 and b = b and i = 0 and n = k])
      (use d5 dev q v1 k(2) in \<open>simp_all add: same_setup_def block_words_def\<close>)
  have t: "run_state (do_data_transfer H cmd) s5 = (True, s6)"
    using s6(1) kind d5(3) k(1) by (simp add: do_data_transfer_def dget_def same_setup_def)
  obtain s7 where s7: "run_state (finish_transfer H cmd) s6 = (True, s7)" "em_dev s7 = em_dev s6" "em_mem s7 = em_mem s6"
    by (rule run_finish [OF ctl s6(4)])
  define s8 where "s8 = s7\<lparr>em_dev := (em_dev s7)\<lparr>last_success := True\<rparr>\<rparr>"
  have head: "run_state (emmc_issue_command H cmd arg (Suc n)) s = (True, s8)"
    using bl dev w s3(1) s4(1) r5 t s7(1) kind unfolding emmc_issue_command_def
    by (simp add: dmod_def dget_def wr_def timer_sleep_def s1_def send_command_def s8_def not_less del: command_wait.simps)
  show thesis
    by (rule that [OF head]) (use d5(3) s6 s7 in \<open>simp_all add: s8_def same_setup_def\<close>)
qed

section \<open>Reads\<close>

lemma read_command_facts:
  assumes "c = CTReadBlock \<or> c = CTReadMultiple"
  shows "response_type (commands ! unat c) = RT48" "is_data (commands ! unat c) \<noteq> 0"
    "direction (commands ! unat c) \<noteq> 0" "emmc_cmd_reg (commands ! unat c) \<noteq> emmc_cmd_reg RES_CMD"
    "is_read_command (emmc_cmd_reg (commands ! unat c))" "c AND 0x80000000 = 0"
proof -
  have "response_type (commands ! 17) = RT48 \<and> is_data (commands ! 17) \<noteq> 0 \<and> direction (commands ! 17) \<noteq> 0 \<and>
      emmc_cmd_reg (commands ! 17) \<noteq> emmc_cmd_reg RES_CMD" by code_simp
  moreover have "response_type (commands ! 18) = RT48 \<and> is_data (commands ! 18) \<noteq> 0 \<and> direction (commands ! 18) \<noteq> 0 \<and>
      emmc_cmd_reg (commands ! 18) \<noteq> emmc_cmd_reg RES_CMD" by code_simp
  ultimately show "response_type (commands ! unat c) = RT48" "is_data (commands ! unat c) \<noteq> 0"
    "direction (commands ! unat c) \<noteq> 0" "emmc_cmd_reg (commands ! unat c) \<noteq> emmc_cmd_reg RES_CMD"
    "is_read_command (emmc_cmd_reg (commands ! unat c))" "c AND 0x80000000 = 0"
    using assms by (auto simp: is_read_command_def)
qed

lemma stored_outside: "a \<notin> word_addr b ` {i..<i + length ws} \<Longrightarrow> stored b i ws m a = m a"
proof (induction ws arbitrary: i m)
  case (Cons w ws)
  have "stored b (Suc i) ws (m(word_addr b i := w)) a = (m(word_addr b i := w)) a"
    by (rule Cons.IH) (use Cons.prems in \<open>auto simp: image_iff\<close>)
  moreover have "a \<noteq> word_addr b i" using Cons.prems by auto
  ultimately show ?case by simp
qed simp

lemma sector_block:
  assumes "unat sec < 2 ^ 32"
  shows "sec * 512 mod 512 = (0 :: u64)" "unat (ucast (sec * 512 div 512) :: u32) = unat (sec :: u64)"
proof -
  have "unat (sec * 512) = unat sec * 512" using assms by (simp add: unat_word_ariths)
  then have "sec * 512 mod 512 = 0" "sec * 512 div 512 = sec"
    by (simp_all add: word_unat_eq_iff unat_mod unat_div)
  then show "sec * 512 mod 512 = 0" "unat (ucast (sec * 512 div 512) :: u32) = unat sec"
    using assms by (simp_all add: unat_ucast_word take_bit_eq_mod)
qed

lemma run_read_blocks:
  assumes ctl: "sd_controller H view disk" and dev: "sdhc (em_dev s)" "block_size (em_dev s) = 512"
    and n: "unat n = 512 * k" "0 < k" "k \<le> 0xFFFF" and fl: "sv_flags (view (em_hw s)) = 0"
  obtains s' where "run_state (do_data_command H False b n blk) s = (True, s')"
    "em_mem s' = stored b 0 (card_words disk (unat blk) k) (em_mem s)"
proof -
  let ?t = "s\<lparr>em_dev := (em_dev s)\<lparr>transfer_blocks := n div 512, buffer := MemBuf b\<rparr>\<rparr>"
  let ?c = "data_command False (n div 512)"
  let ?u = "?t\<lparr>em_dev := (em_dev ?t)\<lparr>last_command := commands ! unat ?c\<rparr>\<rparr>"
  have c: "?c = CTReadBlock \<or> ?c = CTReadMultiple" by (simp add: data_command_def)
  have len: "\<not> n < 512" "n mod 512 = 0" "unat (n div 512) = k"
    using n by (simp_all add: word_less_nat_alt word_unat_eq_iff unat_mod unat_div)
  obtain s' where s': "run_state (emmc_issue_command H (commands ! unat ?c) blk (Suc 4999)) ?u = (True, s')"
      "em_mem s' = stored b 0 (card_words disk (unat blk) k) (em_mem ?u)"
    by (rule run_read_command [OF ctl read_command_facts(5,1,2,3) [OF c], where s = ?u and b = b and k = k and n = 4999])
      (use dev len n fl in simp_all)
  have "run_state (emmc_command H ?c blk 5000) ?t = (True, s')"
    using s'(1) read_command_facts(4,6) [OF c] by (simp add: emmc_command_def dmod_def)
  then have "run_state (retry_command H ?c blk 3) ?t = (True, s')" by (simp add: numeral_3_eq_3)
  then have "run_state (do_data_command H False b n blk) s = (True, s')"
    using dev len by (simp add: do_data_command_def dget_def dmod_def Let_def)
  then show thesis using that s'(2) by simp
qed

lemma read_result:
  assumes "run_state (emmc_read H b n) s = (r, s')"
  obtains "offset (em_dev s) mod 512 \<noteq> 0" "r = - 1" "s' = s"
  | ok where "offset (em_dev s) mod 512 = 0" "r = (if ok then n else - 1)"
      "run_state (do_data_command H False b n (ucast (offset (em_dev s) div 512))) s = (ok, s')"
proof (cases "offset (em_dev s) mod 512 = 0")
  case False
  then have "r = - 1" and "s' = s" using assms by (simp_all add: emmc_read_def dget_def)
  with that(1) False show thesis by blast
next
  case True
  obtain ok t where t: "run_state (do_data_command H False b n (ucast (offset (em_dev s) div 512))) s = (ok, t)"
    by fastforce
  then have e: "r = (if ok then n else - 1)" "s' = t"
    using assms True by (auto simp: emmc_read_def do_read_def dget_def split: if_splits)
  show thesis by (rule that(2) [OF True e(1)]) (use t e(2) in simp)
qed

text \<open>A transfer fits its buffer.\<close>

lemma transfer_fits: "unat ((n :: u32) div sz) * (unat sz div 4) \<le> unat n div 4"
proof -
  have "4 * (unat (n div sz) * (unat sz div 4)) \<le> unat (n div sz) * unat sz"
    by (simp add: mult.left_commute [of 4])
  also have "\<dots> \<le> unat n" by (simp add: unat_div)
  finally show ?thesis by simp
qed

lemma data_command_frame:
  assumes r: "run_state (do_data_command H w b n blk) s = (ok, s')"
  shows "offset (em_dev s') = offset (em_dev s)" "sdhc (em_dev s') = sdhc (em_dev s)"
    "block_size (em_dev s') = block_size (em_dev s)"
    "em_mem s' a \<noteq> em_mem s a \<Longrightarrow> a \<in> word_addr b ` {..<unat n div 4}"
proof -
  let ?sz = "block_size (em_dev s)"
  let ?t = "s\<lparr>em_dev := (em_dev s)\<lparr>transfer_blocks := n div ?sz, buffer := MemBuf b\<rparr>\<rparr>"
  have kr: "touch {..<transfer_words (em_dev ?t)} ?t s'" if "run_state (retry_command H c x 3) ?t = (ok, s')" for c x
    using keeps_retry [of H c x 3] that unfolding keeps_def by blast
  have "em_mem s' = em_mem s \<and> offset (em_dev s') = offset (em_dev s) \<and> sdhc (em_dev s') = sdhc (em_dev s) \<and>
      block_size (em_dev s') = ?sz \<or> touch {..<transfer_words (em_dev ?t)} ?t s'"
    using r kr by (auto simp: do_data_command_def dget_def dmod_def Let_def split: if_splits)
  moreover have "{..<transfer_words (em_dev ?t)} \<subseteq> {..<unat n div 4}"
    using transfer_fits [of n ?sz] by (simp add: transfer_words_def block_words_def lessThan_subset_iff)
  ultimately show "offset (em_dev s') = offset (em_dev s)" "sdhc (em_dev s') = sdhc (em_dev s)"
    "block_size (em_dev s') = ?sz" "em_mem s' a \<noteq> em_mem s a \<Longrightarrow> a \<in> word_addr b ` {..<unat n div 4}"
    by (auto simp: touch_def same_setup_def)
qed

section \<open>Two concrete controllers\<close>

text \<open>One that serves reads from \<open>disk\<close>; its state is its view.\<close>

definition demo_controller :: "(nat \<Rightarrow> u32) \<Rightarrow> sd_view mmio" where
  "demo_controller disk =
     \<lparr>mm_read = (\<lambda>r h. case r of
          INT_FLAGS \<Rightarrow> (sv_flags h, h)
        | DATA \<Rightarrow> (case sv_queue h of [] \<Rightarrow> (0, h)
            | w # ws \<Rightarrow> (w, h\<lparr>sv_queue := ws,
                sv_flags := sv_flags h OR (if ws = [] then 2 else if 128 dvd length ws then 0x20 else 0)\<rparr>))
        | _ \<Rightarrow> (0, h)),
      mm_write = (\<lambda>r v h. case r of
          INT_FLAGS \<Rightarrow> h\<lparr>sv_flags := sv_flags h AND NOT v\<rparr>
        | ARG1 \<Rightarrow> h\<lparr>sv_arg := v\<rparr>
        | BLOCK_SIZE_COUNT \<Rightarrow> h\<lparr>sv_bsc := v\<rparr>
        | CMD_XFER_MODE \<Rightarrow> h\<lparr>sv_flags := sv_flags h OR 0x21,
            sv_queue := card_words disk (unat (sv_arg h)) (unat (drop_bit 16 (sv_bsc h)))\<rparr>
        | _ \<Rightarrow> h),
      mm_sleep = (\<lambda>n h. h), mm_clock_rate = (\<lambda>h. (0, h)), mm_pin = (\<lambda>p f h. h)\<rparr>"

lemma demo_controller_serves: "sd_controller (demo_controller disk) id disk"
  by (simp add: sd_controller_def demo_controller_def)

text \<open>
  One that completes the command and then reports a data timeout (bit 20) with the end of the
  transfer; its state is the number of times the flags were read.
\<close>

definition timeout_controller :: "nat mmio" where
  "timeout_controller =
     \<lparr>mm_read = (\<lambda>r h. if r = INT_FLAGS then (if h < 2 then 1 else 0x108002, Suc h) else (0, h)),
      mm_write = (\<lambda>r v h. h), mm_sleep = (\<lambda>n h. h), mm_clock_rate = (\<lambda>h. (0, h)), mm_pin = (\<lambda>p f h. h)\<rparr>"

definition demo_device :: emmc_device_t where
  "demo_device =
     \<lparr>last_success = False, transfer_blocks = 0, last_command = RES_CMD, last_command_value = 0,
      block_size = 512, last_response = [0, 0, 0, 0], sdhc = True, ocr = 0, rca = 0, offset = 0,
      buffer = ScrBuf, base_clock = 0, last_error = 0, last_interrupt = 0,
      scr_reg = \<lparr>scr = [0, 0], bus_widths = 0, version = 0\<rparr>\<rparr>"

text \<open>\<open>emmc_issue_command\<close> ignores the result of \<open>do_data_transfer\<close>: a read of a sector reports success
  though no word was transferred.\<close>

lemma emmc_read_false_success:
  "case run_state (emmc_read timeout_controller b 512) \<lparr>em_dev = demo_device, em_mem = m, em_hw = 0\<rparr> of
     (r, s') \<Rightarrow> r = 512 \<and> em_mem s' = m \<and> last_success (em_dev s') \<and> last_error (em_dev s') = 0x100000"
proof -
  have c: "response_type (commands ! 17) = RT48" "is_data (commands ! 17) \<noteq> 0" "direction (commands ! 17) \<noteq> 0"
    "emmc_cmd_reg (commands ! 17) \<noteq> emmc_cmd_reg RES_CMD"
    using read_command_facts [of CTReadBlock] by simp_all
  have w: "command_wait timeout_controller 5000 = (do {
      v \<leftarrow> rd timeout_controller INT_FLAGS;
      if v AND 0x8001 \<noteq> 0 then State_Monad.return True
      else do { timer_sleep timeout_controller 1; command_wait timeout_controller 4999 } })"
    using command_wait.simps(2) [of timeout_controller 4999] by simp
  have l: "wait_reg_mask timeout_controller INT_FLAGS msk True 2000 = (do {
      v \<leftarrow> rd timeout_controller INT_FLAGS;
      if (if v AND msk \<noteq> 0 then True else \<not> True) then State_Monad.return True
      else do { timer_sleep timeout_controller 1; wait_loop timeout_controller INT_FLAGS msk True 2000 } })" for msk
    using wait_loop.simps(2) [of timeout_controller INT_FLAGS msk True 2000] by (simp add: wait_reg_mask_def)
  have h: "mm_read timeout_controller r n = (if r = INT_FLAGS then (if n < 2 then 1 else 0x108002, Suc n) else (0, n))"
    "mm_write timeout_controller r v n = n" "mm_sleep timeout_controller x n = n" for r v n x
    by (simp_all add: timeout_controller_def)
  show ?thesis
    using c by (simp add: emmc_read_def do_read_def do_data_command_def data_command_def numeral_3_eq_3
        emmc_command_def emmc_issue_command_def w l dget_def dmod_def wr_def rd_def timer_sleep_def Let_def
        demo_device_def h read_response_def set_response_def do_data_transfer_def
        set_last_error_def finish_transfer_def)
qed

text \<open>
  \<open>switch_clock_rate\<close> writes \<open>CONTROL1\<close> last with the value it read before, so the divider bits
  5 to 15 are the old ones, whatever rate was asked for.
\<close>

lemma clock_divider_kept:
  assumes "run_state (switch_clock_rate H fuel base target) s = (Some r, s')"
  shows "\<exists>h c h1 h2. mm_read H (CONTROL 1) h = (c, h1) \<and>
    em_hw s' = mm_sleep H 3 (mm_write H (CONTROL 1) ((c AND NOT 4) OR 4) h2) \<and>
    ((c AND NOT 4) OR 4) AND 0xFFE0 = c AND 0xFFE0"
proof -
  obtain o1 s1 where i: "run_state (wait_idle H fuel) s = (o1, s1)" by fastforce
  with assms have o1: "o1 = Some ()" by (cases o1) (simp_all add: switch_clock_rate_def)
  obtain c h1 where c: "mm_read H (CONTROL 1) (em_hw s1) = (c, h1)" by fastforce
  have "\<exists>h2. em_hw s' = mm_sleep H 3 (mm_write H (CONTROL 1) ((c AND NOT 4) OR 4) h2)"
    using assms i o1 c by (auto simp: switch_clock_rate_def rd_def wr_def timer_sleep_def Let_def)
  moreover have "((c AND NOT 4) OR 4) AND 0xFFE0 = c AND 0xFFE0"
  proof (rule bit_word_eqI)
    fix n assume "n < LENGTH(32)"
    have "(4 :: nat) = 2 ^ 2" "(4 :: int) = 2 ^ 2" by simp_all
    then have b: "bit (4 :: nat) n \<longleftrightarrow> n = 2" "bit (4 :: int) n \<longleftrightarrow> n = 2"
      by (simp_all only: bit_exp_iff) auto
    show "bit (((c AND NOT 4) OR 4) AND 0xFFE0) n = bit (c AND 0xFFE0) n"
      by (cases "n = 2") (simp_all add: bit_simps b)
  qed
  ultimately show ?thesis using c by blast
qed

section \<open>Properties\<close>

text \<open>
  C15. Whatever the controller and the card do, \<open>emmc_read\<close> into a buffer returns the number of bytes
  asked for or -1, changes no word outside of the buffer, and leaves the position and the setup
  of the driver as they were; at a position that is not the start of a sector it does nothing.
  (Block sizes are multiples of four: the driver sets 0, 8 and 512.)
\<close>

theorem emmc_read_bounded:
  assumes "4 dvd unat (block_size (em_dev s))"
    and "run_state (emmc_read H b n) s = (r, s')"
  shows "(r = n \<or> r = - 1) \<and>
    offset (em_dev s') = offset (em_dev s) \<and> sdhc (em_dev s') = sdhc (em_dev s) \<and>
    block_size (em_dev s') = block_size (em_dev s) \<and>
    (\<forall>a. em_mem s' a \<noteq> em_mem s a \<longrightarrow> (\<exists>i < unat n div 4. a = b + 4 * of_nat i)) \<and>
    (offset (em_dev s) mod 512 \<noteq> 0 \<longrightarrow> r = - 1 \<and> s' = s)"
  using assms(2)
proof (cases rule: read_result)
  case 1
  then show ?thesis by simp
next
  case (2 ok)
  then show ?thesis using data_command_frame [OF 2(3)] by (auto simp: image_iff word_addr_def)
qed

theorem emmc_read_bounded_witness:
  "\<exists>r s'. run_state (emmc_read timeout_controller 0x1000 512) \<lparr>em_dev = demo_device, em_mem = (\<lambda>_. 0), em_hw = 0\<rparr> = (r, s') \<and>
     (r = 512 \<or> r = - 1)"
proof -
  let ?s = "\<lparr>em_dev = demo_device, em_mem = (\<lambda>_. 0), em_hw = 0\<rparr>"
  obtain r s' where r: "run_state (emmc_read timeout_controller 0x1000 512) ?s = (r, s')" by fastforce
  have "4 dvd unat (block_size (em_dev ?s))" by (simp add: demo_device_def)
  from emmc_read_bounded [OF this r] r show ?thesis by blast
qed

text \<open>
  C18. With a controller that serves reads and a high-capacity card, seeking to a sector and reading
  up to 65535 sectors succeeds, and word \<open>i\<close> of the buffer is then word \<open>i\<close> of the card from that
  sector on; no other word of memory changed.
\<close>

theorem emmc_read_correct:
  assumes "sd_controller H view disk" and "sdhc (em_dev s)" and "block_size (em_dev s) = 512"
    and "sv_flags (view (em_hw s)) = 0" and "unat sec < 2 ^ 32"
    and "unat n = 512 * k" and "0 < k" and "k \<le> 0xFFFF"
  shows "\<exists>s'. run_state (do { emmc_seek_sector sec; emmc_read H b n }) s = (n, s') \<and>
    (\<forall>i < unat n div 4. em_mem s' (b + 4 * of_nat i) = disk (128 * unat sec + i)) \<and>
    (\<forall>a. (\<nexists>i. i < unat n div 4 \<and> a = b + 4 * of_nat i) \<longrightarrow> em_mem s' a = em_mem s a)"
proof -
  let ?s = "s\<lparr>em_dev := (em_dev s)\<lparr>offset := sec * 512\<rparr>\<rparr>"
  let ?ws = "card_words disk (unat sec) k"
  obtain s' where s': "run_state (do_data_command H False b n (ucast (sec * 512 div 512))) ?s = (True, s')"
      "em_mem s' = stored b 0 ?ws (em_mem s)"
    by (rule run_read_blocks [OF assms(1), where s = ?s and n = n and k = k and b = b and blk = "ucast (sec * 512 div 512)"])
      (use assms sector_block [OF assms(5)] in simp_all)
  have len: "unat n div 4 = length ?ws" "length ?ws \<le> 2 ^ 62" using assms(6,8) by (simp_all add: card_words_def)
  have "run_state (emmc_read H b n) ?s = (n, s')"
    using s'(1) sector_block [OF assms(5)] by (simp add: emmc_read_def do_read_def dget_def)
  then have "run_state (do { emmc_seek_sector sec; emmc_read H b n }) s = (n, s')"
    by (simp add: emmc_seek_sector_def dmod_def)
  moreover have "em_mem s' (b + 4 * of_nat i) = disk (128 * unat sec + i)" if "i < unat n div 4" for i
  proof -
    have "em_mem s' (word_addr b i) = ?ws ! i" using stored_nth [of 0 ?ws i b] that len s'(2) by simp
    then show ?thesis using that len(1) by (simp add: word_addr_def card_words_def)
  qed
  moreover have "em_mem s' a = em_mem s a" if "\<nexists>i. i < unat n div 4 \<and> a = b + 4 * of_nat i" for a
  proof -
    have "a \<notin> word_addr b ` {0..<0 + length ?ws}" using that len(1) by (auto simp: word_addr_def)
    from stored_outside [OF this] s'(2) show ?thesis by simp
  qed
  ultimately show ?thesis by blast
qed

theorem emmc_read_correct_witness:
  "\<exists>s'. run_state (do { emmc_seek_sector 3; emmc_read (demo_controller of_nat) 0x1000 1024 })
      \<lparr>em_dev = demo_device, em_mem = (\<lambda>_. 0), em_hw = \<lparr>sv_queue = [], sv_flags = 0, sv_arg = 0, sv_bsc = 0\<rparr>\<rparr> = (1024, s') \<and>
    em_mem s' 0x1004 = 385"
proof -
  let ?s = "\<lparr>em_dev = demo_device, em_mem = (\<lambda>_. 0), em_hw = \<lparr>sv_queue = [], sv_flags = 0, sv_arg = 0, sv_bsc = 0\<rparr>\<rparr>"
  obtain s' where s': "run_state (do { emmc_seek_sector 3; emmc_read (demo_controller of_nat) 0x1000 1024 }) ?s = (1024, s')"
      "\<forall>i < unat (1024 :: u32) div 4. em_mem s' (0x1000 + 4 * of_nat i) = of_nat (128 * unat (3 :: u64) + i)"
    using emmc_read_correct [OF demo_controller_serves [of of_nat], where s = ?s and sec = 3 and n = 1024 and k = 2 and b = "0x1000"]
    by (auto simp: demo_device_def)
  have "em_mem s' 0x1004 = 385" using s'(2) [rule_format, of 1] by simp
  with s'(1) show ?thesis by blast
qed

end
