(* ===== verification/Mutex.thy ===== *)
theory Mutex
  imports Scheduler
begin

text \<open>
  The mutex of \<open>synchronization/mutex.c\<close> with the spinlock of \<open>spinlock.c\<close> and the wait queue of
  \<open>wait.c\<close>, under every interleaving of the processes that use it. Each process has a program
  counter; one step is one atomic action of the code: a swap, a store, or the code between taking
  and releasing the wait lock. Processes are control blocks, so their addresses are not 0. The wait
  list is the sequence its intrusive list holds.
\<close>

section \<open>Steps\<close>

text \<open>
  The places in \<open>mutex_acquire\<close>: before the swap, taking the wait lock, entering the list, marking
  the process blocked, dropping the lock, and in \<open>deschedule\<close>; then the places in \<open>mutex_release\<close>:
  before the store, taking the wait lock, waking a waiter, dropping the lock.
\<close>

datatype mutex_pc = Outside | Swap | TakeLock | Enqueue | MarkBlocked | DropLock | Sleep
  | Critical | StoreOwner | TakeLockR | WakeOne | DropLockR

record mutex_t =
  owner :: ptr
  wait_lock :: bool
  wait_list :: "ptr list"
  mpc :: "ptr \<Rightarrow> mutex_pc"
  mstate :: "ptr \<Rightarrow> PROC_STATE"

definition goto :: "ptr \<Rightarrow> mutex_pc \<Rightarrow> mutex_t \<Rightarrow> mutex_t" where
  "goto p l m = m\<lparr>mpc := (mpc m)(p := l)\<rparr>"

text \<open>\<open>ACQUIRE\<close>: the swap stores the caller also where it fails.\<close>

definition mutex_swap :: "ptr \<Rightarrow> mutex_t \<Rightarrow> mutex_t" where
  "mutex_swap p m = goto p (if owner m = 0 then Critical else TakeLock) (m\<lparr>owner := p\<rparr>)"

text \<open>\<open>spinlock_acquire\<close>: spin while the swap returns 1.\<close>

definition spinlock_acquire :: "ptr \<Rightarrow> mutex_pc \<Rightarrow> mutex_t \<Rightarrow> mutex_t" where
  "spinlock_acquire p l m = (if wait_lock m then m else goto p l (m\<lparr>wait_lock := True\<rparr>))"

definition spinlock_release :: "ptr \<Rightarrow> mutex_pc \<Rightarrow> mutex_t \<Rightarrow> mutex_t" where
  "spinlock_release p l m = goto p l (m\<lparr>wait_lock := False\<rparr>)"

text \<open>The entry is added unless it is linked already.\<close>

definition mutex_enqueue :: "ptr \<Rightarrow> mutex_t \<Rightarrow> mutex_t" where
  "mutex_enqueue p m =
     goto p MarkBlocked (if p \<in> set (wait_list m) then m else m\<lparr>wait_list := p # wait_list m\<rparr>)"

text \<open>\<open>deschedule\<close> returns when the process is no longer blocked.\<close>

definition mutex_sleep :: "ptr \<Rightarrow> mutex_t \<Rightarrow> mutex_t" where
  "mutex_sleep p m = (if mstate m p = PROCESS_BLOCKED then m else goto p Swap m)"

text \<open>\<open>default_wake_fn\<close> makes the first waiter ready; its entry leaves the list.\<close>

definition mutex_wake :: "ptr \<Rightarrow> mutex_t \<Rightarrow> mutex_t" where
  "mutex_wake p m =
     goto p DropLockR
       (case wait_list m of [] \<Rightarrow> m
        | q # qs \<Rightarrow> m\<lparr>mstate := (mstate m)(q := PROCESS_READY), wait_list := qs\<rparr>)"

definition mutex_step :: "ptr \<Rightarrow> mutex_t \<Rightarrow> mutex_t" where
  "mutex_step p m =
     (case mpc m p of
        Outside \<Rightarrow> goto p Swap m
      | Swap \<Rightarrow> mutex_swap p m
      | TakeLock \<Rightarrow> spinlock_acquire p Enqueue m
      | Enqueue \<Rightarrow> mutex_enqueue p m
      | MarkBlocked \<Rightarrow> goto p DropLock (m\<lparr>mstate := (mstate m)(p := PROCESS_BLOCKED)\<rparr>)
      | DropLock \<Rightarrow> spinlock_release p Sleep m
      | Sleep \<Rightarrow> mutex_sleep p m
      | Critical \<Rightarrow> goto p StoreOwner m
      | StoreOwner \<Rightarrow> goto p TakeLockR (m\<lparr>owner := 0\<rparr>)
      | TakeLockR \<Rightarrow> spinlock_acquire p WakeOne m
      | WakeOne \<Rightarrow> mutex_wake p m
      | DropLockR \<Rightarrow> spinlock_release p Outside m)"

definition mutex_unlocked :: mutex_t where
  "mutex_unlocked = \<lparr>owner = 0, wait_lock = False, wait_list = [], mpc = (\<lambda>_. Outside), mstate = (\<lambda>_. PROCESS_READY)\<rparr>"

inductive mutex_reach :: "mutex_t \<Rightarrow> bool" where
  start: "mutex_reach mutex_unlocked"
| step: "mutex_reach m \<Longrightarrow> p \<noteq> 0 \<Longrightarrow> mutex_reach (mutex_step p m)"

section \<open>Mutual exclusion\<close>

definition holds :: "mutex_pc \<Rightarrow> bool" where "holds l \<longleftrightarrow> l = Critical \<or> l = StoreOwner"

definition locked :: "mutex_pc \<Rightarrow> bool" where
  "locked l \<longleftrightarrow> l \<in> {Enqueue, MarkBlocked, DropLock, WakeOne, DropLockR}"

definition mutex_inv :: "mutex_t \<Rightarrow> bool" where
  "mutex_inv m \<longleftrightarrow> (\<forall>p. holds (mpc m p) \<longrightarrow> owner m \<noteq> 0) \<and> (\<forall>p q. holds (mpc m p) \<and> holds (mpc m q) \<longrightarrow> p = q) \<and>
     (\<forall>p. locked (mpc m p) \<longrightarrow> wait_lock m) \<and> (\<forall>p q. locked (mpc m p) \<and> locked (mpc m q) \<longrightarrow> p = q)"

lemma mutex_invD:
  assumes "mutex_inv m"
  shows "holds (mpc m p) \<Longrightarrow> owner m \<noteq> 0" "holds (mpc m p) \<Longrightarrow> holds (mpc m q) \<Longrightarrow> p = q"
    "locked (mpc m p) \<Longrightarrow> wait_lock m" "locked (mpc m p) \<Longrightarrow> locked (mpc m q) \<Longrightarrow> p = q"
  using assms unfolding mutex_inv_def by blast+

lemma goto_sel [simp]:
  "mpc (goto p l m) = (mpc m)(p := l)" "owner (goto p l m) = owner m" "wait_lock (goto p l m) = wait_lock m"
  "mstate (goto p l m) = mstate m" "wait_list (goto p l m) = wait_list m"
  by (simp_all add: goto_def)

text \<open>A step of one process: what it does to the two locks and to its own place.\<close>

lemma mutex_invI:
  assumes inv: "mutex_inv m" and pc: "mpc m' = (mpc m)(p := l)"
    and h: "holds l \<Longrightarrow> owner m' \<noteq> 0 \<and> (holds (mpc m p) \<or> (\<forall>q. \<not> holds (mpc m q)))"
    and ho: "\<And>q. q \<noteq> p \<Longrightarrow> holds (mpc m q) \<Longrightarrow> owner m' \<noteq> 0"
    and w: "locked l \<Longrightarrow> wait_lock m' \<and> (locked (mpc m p) \<or> (\<forall>q. \<not> locked (mpc m q)))"
    and wo: "\<And>q. q \<noteq> p \<Longrightarrow> locked (mpc m q) \<Longrightarrow> wait_lock m'"
  shows "mutex_inv m'"
proof -
  note i = mutex_invD [OF inv]
  have "owner m' \<noteq> 0" if "holds (mpc m' q)" for q
    using that h ho unfolding pc by (cases "q = p") auto
  moreover have "q = r" if "holds (mpc m' q)" "holds (mpc m' r)" for q r
    using that h i(2) unfolding pc by (cases "q = p"; cases "r = p") (auto; blast)+
  moreover have "wait_lock m'" if "locked (mpc m' q)" for q
    using that w wo unfolding pc by (cases "q = p") auto
  moreover have "q = r" if "locked (mpc m' q)" "locked (mpc m' r)" for q r
    using that w i(4) unfolding pc by (cases "q = p"; cases "r = p") (auto; blast)+
  ultimately show ?thesis unfolding mutex_inv_def by blast
qed

lemma mutex_step_inv:
  assumes inv: "mutex_inv m" and p: "p \<noteq> 0"
  shows "mutex_inv (mutex_step p m)"
proof -
  note i = mutex_invD [OF inv]
  have free: "\<not> locked (mpc m q)" if "\<not> wait_lock m" for q using that i(3) by blast
  have other: "q \<noteq> p \<Longrightarrow> locked (mpc m p) \<Longrightarrow> \<not> locked (mpc m q)" "q \<noteq> p \<Longrightarrow> holds (mpc m p) \<Longrightarrow> \<not> holds (mpc m q)" for q
    using i(2,4) by blast+
  show ?thesis
  proof (cases "mpc m p")
    case Swap
    show ?thesis
      by (rule mutex_invI [OF inv, where l = "if owner m = 0 then Critical else TakeLock" and p = p])
        (use p i(1,3) in \<open>auto simp: mutex_step_def Swap mutex_swap_def holds_def locked_def split: if_splits\<close>)
  next
    case TakeLock
    show ?thesis
    proof (cases "wait_lock m")
      case True
      then show ?thesis using inv by (simp add: mutex_step_def TakeLock spinlock_acquire_def)
    next
      case False
      show ?thesis
        by (rule mutex_invI [OF inv, where l = Enqueue and p = p])
          (use False free i(1) in \<open>auto simp: mutex_step_def TakeLock spinlock_acquire_def holds_def\<close>)
    qed
  next
    case TakeLockR
    show ?thesis
    proof (cases "wait_lock m")
      case True
      then show ?thesis using inv by (simp add: mutex_step_def TakeLockR spinlock_acquire_def)
    next
      case False
      show ?thesis
        by (rule mutex_invI [OF inv, where l = WakeOne and p = p])
          (use False free i(1) in \<open>auto simp: mutex_step_def TakeLockR spinlock_acquire_def holds_def\<close>)
    qed
  next
    case Sleep
    show ?thesis
    proof (cases "mstate m p = PROCESS_BLOCKED")
      case True
      then show ?thesis using inv by (simp add: mutex_step_def Sleep mutex_sleep_def)
    next
      case False
      show ?thesis
        by (rule mutex_invI [OF inv, where l = Swap and p = p])
          (use False i(1,3) in \<open>auto simp: mutex_step_def Sleep mutex_sleep_def holds_def locked_def\<close>)
    qed
  next
    case Outside
    show ?thesis
      by (rule mutex_invI [OF inv, where l = Swap and p = p])
        (use i(1,3) i(1) [of p] i(3) [of p] in \<open>auto simp: mutex_step_def Outside holds_def locked_def\<close>)
  next
    case Enqueue
    show ?thesis
      by (rule mutex_invI [OF inv, where l = MarkBlocked and p = p])
        (use i(1,3) i(1) [of p] i(3) [of p] in \<open>auto simp: mutex_step_def Enqueue mutex_enqueue_def holds_def locked_def\<close>)
  next
    case MarkBlocked
    show ?thesis
      by (rule mutex_invI [OF inv, where l = DropLock and p = p])
        (use i(1,3) i(1) [of p] i(3) [of p] in \<open>auto simp: mutex_step_def MarkBlocked holds_def locked_def\<close>)
  next
    case DropLock
    show ?thesis
      by (rule mutex_invI [OF inv, where l = Sleep and p = p])
        (use i(1,3) other(1) in \<open>auto simp: mutex_step_def DropLock spinlock_release_def holds_def locked_def\<close>)
  next
    case Critical
    show ?thesis
      by (rule mutex_invI [OF inv, where l = StoreOwner and p = p])
        (use i(1,3) i(1) [of p] i(3) [of p] in \<open>auto simp: mutex_step_def Critical holds_def locked_def\<close>)
  next
    case StoreOwner
    show ?thesis
      by (rule mutex_invI [OF inv, where l = TakeLockR and p = p])
        (use i(3) other(2) in \<open>auto simp: mutex_step_def StoreOwner holds_def locked_def\<close>)
  next
    case WakeOne
    show ?thesis
      by (rule mutex_invI [OF inv, where l = DropLockR and p = p])
        (use i(1,3) i(1) [of p] i(3) [of p] in \<open>auto simp: mutex_step_def WakeOne mutex_wake_def holds_def locked_def split: list.splits\<close>)
  next
    case DropLockR
    show ?thesis
      by (rule mutex_invI [OF inv, where l = Outside and p = p])
        (use i(1,3) other(1) in \<open>auto simp: mutex_step_def DropLockR spinlock_release_def holds_def locked_def\<close>)
  qed
qed

lemma mutex_reach_inv: "mutex_reach m \<Longrightarrow> mutex_inv m"
proof (induction rule: mutex_reach.induct)
  case start
  then show ?case by (simp add: mutex_inv_def mutex_unlocked_def holds_def locked_def)
next
  case (step m p)
  then show ?case by (intro mutex_step_inv)
qed

text \<open>A run of steps by the processes of a list.\<close>

definition mutex_run :: "ptr list \<Rightarrow> mutex_t \<Rightarrow> mutex_t" where "mutex_run ps m = fold mutex_step ps m"

lemma mutex_run_reach: "mutex_reach m \<Longrightarrow> 0 \<notin> set ps \<Longrightarrow> mutex_reach (mutex_run ps m)"
  unfolding mutex_run_def by (induction ps arbitrary: m) (auto intro: mutex_reach.step)

section \<open>Properties\<close>

text \<open>
  C30. Mutual exclusion. In every state that some interleaving of any number of processes reaches,
  at most one process is between a successful acquire and its release, and at most one is inside the
  section guarded by the wait lock.
\<close>

theorem mutex_exclusion:
  assumes "mutex_reach m"
  shows "(mpc m p = Critical \<longrightarrow> mpc m q = Critical \<longrightarrow> p = q) \<and>
    (locked (mpc m p) \<longrightarrow> locked (mpc m q) \<longrightarrow> p = q)"
  using mutex_invD(2,4) [OF mutex_reach_inv [OF assms]] by (auto simp: holds_def)

theorem mutex_exclusion_witness:
  "mpc (mutex_run [1, 1, 2, 2] mutex_unlocked) 1 = Critical \<and> mpc (mutex_run [1, 1, 2, 2] mutex_unlocked) 2 \<noteq> Critical"
proof -
  let ?m = "mutex_run [1, 1, 2, 2] mutex_unlocked"
  have r: "mutex_reach ?m" by (rule mutex_run_reach) (simp_all add: mutex_reach.start)
  have "mpc ?m 1 = Critical"
    by (simp add: mutex_run_def mutex_step_def mutex_unlocked_def mutex_swap_def goto_def)
  then show ?thesis using mutex_exclusion [OF r, of 1 2] by auto
qed

text \<open>
  A wake-up can be lost. Some interleaving of two processes ends with the mutex free, the owner
  long outside, and the other process asleep on the wait list: it had failed the swap before the
  release and entered the list after the releaser had found it empty. No step of the sleeper
  changes anything, so it sleeps until a third acquisition and release.
\<close>

theorem mutex_lost_wakeup:
  "\<exists>m. mutex_reach m \<and> owner m = 0 \<and> \<not> wait_lock m \<and> mpc m 1 = Outside \<and> mpc m 2 = Sleep \<and>
     mstate m 2 = PROCESS_BLOCKED \<and> mutex_step 2 m = m"
proof -
  let ?m = "mutex_run [1, 1, 2, 2, 1, 1, 1, 1, 1, 2, 2, 2, 2] mutex_unlocked"
  have r: "mutex_reach ?m" by (rule mutex_run_reach) (simp_all add: mutex_reach.start)
  have e: "owner ?m = 0 \<and> \<not> wait_lock ?m \<and> mpc ?m 1 = Outside \<and> mpc ?m 2 = Sleep \<and> mstate ?m 2 = PROCESS_BLOCKED"
    by (simp add: mutex_run_def mutex_step_def mutex_unlocked_def mutex_swap_def goto_def spinlock_acquire_def
        spinlock_release_def mutex_wake_def mutex_enqueue_def)
  then have "mutex_step 2 ?m = ?m" by (simp add: mutex_step_def mutex_sleep_def)
  with r e show ?thesis by blast
qed

end
