(* ===== verification/Pipe_Heap.thy ===== *)
theory Pipe_Heap
  imports Pipe Kernel_Heap
begin

text \<open>
  The memory of a pipe: the allocations of \<open>pipe_open\<close> and the releases of \<open>pipe_close\<close> in
  \<open>filedescriptors/filedescriptors.c\<close> over the kernel heap. A pipe owns an object of 128 bytes for its
  data and a page for its ring; what they contain is in theory \<open>Pipe\<close>.
\<close>

section \<open>Operations\<close>

definition sizeof_pipe_data :: u64 where "sizeof_pipe_data = 128"

text \<open>The addresses of the data and of the ring, or nothing where an allocation fails.\<close>

definition pipe_open_heap :: "kheap \<Rightarrow> ((u64 \<times> u64) option \<times> kheap) result" where
  "pipe_open_heap st =
     bindR (kmalloc sizeof_pipe_data st) (\<lambda>(data, st1).
       if data = 0 then Inr (None, st1)
       else bindR (kmalloc 0x1000 st1) (\<lambda>(ring, st2).
         if ring = 0 then bindR (kfree data st2) (\<lambda>st3. Inr (None, st3))
         else Inr (Some (data, ring), st2)))"

definition pipe_close :: "u64 \<Rightarrow> u64 \<Rightarrow> kheap \<Rightarrow> kheap result" where
  "pipe_close data ring st = bindR (kfree ring st) (kfree data)"

section \<open>The page of the ring\<close>

lemma kmalloc_class:
  assumes "aligned_bytes n = 2 ^ l" "l < 63" "n \<le> 2 ^ 30"
  shows "kmalloc n st = (if 11 < l then kmalloc_large l (2 ^ l) st else kmalloc_small l (2 ^ l) st)"
proof -
  have "log2_pow2 (2 ^ l) = Inr l"
    using assms(2) by (simp add: log2_pow2_def log2_loop_exp)
  moreover have "\<not> 2 ^ 30 < n" using assms(3) by (simp only: not_less)
  ultimately show ?thesis using assms(1) by (simp add: kmalloc_def)
qed

lemma kmalloc_pipe_data: "kmalloc sizeof_pipe_data st = kmalloc_small (2 + 5) (2 ^ (2 + 5)) st"
  by (subst kmalloc_class [of _ 7]) (simp_all add: sizeof_pipe_data_def aligned_bytes_def max_def bit_length.simps)

lemma kmalloc_page: "kmalloc 0x1000 st = kmalloc_large 12 (2 ^ 12) st"
  by (subst kmalloc_class [of _ 12]) (simp_all add: aligned_bytes_def max_def bit_length.simps)

text \<open>What a page from \<open>kmalloc\<close> means for the heap, and that \<open>kfree\<close> takes it back.\<close>

definition ring_page :: "nat \<Rightarrow> nat \<Rightarrow> kheap \<Rightarrow> kheap \<Rightarrow> bool" where
  "ring_page R p st st' \<longleftrightarrow> (\<exists>b. st' = st\<lparr>kh_vm := (kh_vm st)\<lparr>vm_buddy := b\<rparr>\<rparr> \<and> got_block R 0 p (kh_buddy st) b)"

lemma heap_got_block:
  assumes inv: "heap_inv R k roots st" and g: "got_block R l p (kh_buddy st) b"
  defines "st' \<equiv> st\<lparr>kh_vm := (kh_vm st)\<lparr>vm_buddy := b\<rparr>\<rparr>"
  shows "pt_inv R k roots (kh_vm st')" "heap_inv R k roots st'" "objects R st' = objects R st"
proof -
  note pt = heap_invD(1) [OF inv] and g' = got_blockD [OF g]
  have ow: "owned R b n" if "owned R (kh_buddy st) n" for n using that g'(3) by (auto simp: owned_def)
  have pt': "pt_inv R k roots ((kh_vm st)\<lparr>vm_buddy := b\<rparr>)"
    by (rule pt_inv_buddy [OF pt g'(2)]) (rule ow [OF table_pages_owned [OF pt]])
  have fr: "frame_metadata b q = frame_metadata (kh_buddy st) q" if "(q, m) \<in> live_blocks R (kh_buddy st)" for q m
    using g'(7) that unfolding keeps_live_def by blast
  show "pt_inv R k roots (kh_vm st')" using pt' by (simp add: st'_def)
  show "heap_inv R k roots st'" "objects R st' = objects R st"
    unfolding st'_def by (rule heap_inv_buddy [OF inv pt']; use g'(3,5) fr in fastforce)+
qed

lemma kmalloc_page_cases:
  assumes inv: "heap_inv R k roots st"
  shows "if has_block R 0 (kh_buddy st)
    then \<exists>p st'. kmalloc 0x1000 st = Inr (page_addr p, st') \<and> p < NPAGES \<and> ring_page R p st st'
    else kmalloc 0x1000 st = bindR (vm_map 0 (va_to_pa 0) 0 MAP_KERNEL (vm_l0 (kh_vm st)) (kh_vm st))
      (\<lambda>v. Inr (0, st\<lparr>kh_vm := v\<rparr>))"
proof -
  note pt = heap_invD(1) [OF inv]
  have small: "unat ((2::u64) ^ 12) \<le> 2 ^ 43" by simp
  have order: "o' = 0" if "order_for (unat ((2::u64) ^ 12)) o'" for o'
    by (rule order_for_unique [OF that]) (use order_for_exp [of 0] in simp)
  show ?thesis
  proof (cases rule: buddy_alloc_cases [OF pt_invD(1) [OF pt] small])
    case (1 o' p b)
    note g = 1(4) [unfolded order [OF 1(1)]]
    have lb: "R \<le> p" "p + 2 ^ 0 \<le> NPAGES"
      using live_blocks_bounds [of R b p 0] got_blockD(2,3) [OF g] by (simp_all add: buddy_ok_def)
    have "vm_map (page_addr p) pa 0 fl (table_va k) ((kh_vm st)\<lparr>vm_buddy := b\<rparr>) = Inr ((kh_vm st)\<lparr>vm_buddy := b\<rparr>)" for pa fl
      using vm_map_managed_large [OF _ lb, of k roots] heap_got_block(1) [OF inv g] by simp
    then have "kmalloc 0x1000 st = Inr (page_addr p, st\<lparr>kh_vm := (kh_vm st)\<lparr>vm_buddy := b\<rparr>\<rparr>)"
      unfolding kmalloc_page kmalloc_large_def using 1(3) pt_invD(4) [OF pt] by simp
    then show ?thesis using g 1(2) order [OF 1(1)] lb(2) by (auto simp: ring_page_def)
  next
    case (2 o')
    then show ?thesis using order [OF 2(1)] by (simp add: kmalloc_page kmalloc_large_def)
  qed
qed

lemma page_addr_aligned: "p < NPAGES \<Longrightarrow> ALIGN_DOWN (page_addr p) 0x1000 = page_addr p"
  using ALIGN_DOWN_kva [of "p * 4096"] by (simp add: page_addr_kva NPAGES_def)

lemma kfree_page_spec:
  assumes inv: "heap_inv R k roots st" and g: "ring_page R p st0 st" and inv0: "heap_inv R k roots st0"
  shows "\<exists>st'. kfree (page_addr p) st = Inr st' \<and> heap_inv R k roots st' \<and> objects R st' = objects R st0 \<and>
    live_blocks R (kh_buddy st') = live_blocks R (kh_buddy st0) \<and> kh_slabs st' = kh_slabs st0"
proof -
  obtain b where b: "st = st0\<lparr>kh_vm := (kh_vm st0)\<lparr>vm_buddy := b\<rparr>\<rparr>" "got_block R 0 p (kh_buddy st0) b"
    using g by (auto simp: ring_page_def)
  note g' = got_blockD [OF b(2)]
  have live: "(p, 0) \<in> live_blocks R b" using g'(3) by simp
  have ow: "owner_pfn (page_addr p) b = Inr p" using owner_pfn_live(1) [OF g'(2) live] g'(1) by simp
  have own: "get_page_owner (page_addr p) b = Inr PAGE_BUDDY"
    using ow g'(5) by (simp add: get_page_owner_def)
  obtain s where s: "buddy_free (page_addr p) b = Inr s" "buddy_ok R s"
    "live_blocks R s = {x \<in> live_blocks R b. fst x \<noteq> p}"
    "\<And>q l. (q, l) \<in> live_blocks R s \<Longrightarrow> frame_metadata s q = frame_metadata b q"
    using buddy_free_cases [OF g'(2), of "page_addr p", unfolded pfn_page_addr [OF g'(1)]] g'(1) by blast
  have lv: "live_blocks R s = live_blocks R (kh_buddy st0)" unfolding s(3) using g'(3,4) by auto
  have fr: "frame_metadata s q = frame_metadata (kh_buddy st0) q" if "(q, l) \<in> live_blocks R (kh_buddy st0)" for q l
    using s(4) [of q l] that g'(7) unfolding lv keeps_live_def by auto
  let ?st = "st0\<lparr>kh_vm := (kh_vm st0)\<lparr>vm_buddy := s\<rparr>\<rparr>"
  have pt: "pt_inv R k roots ((kh_vm st0)\<lparr>vm_buddy := s\<rparr>)"
    by (rule pt_inv_buddy [OF heap_invD(1) [OF inv0] s(2)])
      (use table_pages_owned [OF heap_invD(1) [OF inv0]] lv in \<open>simp add: owned_def\<close>)
  have "kfree (page_addr p) st = Inr ?st"
    using page_addr_not_0 [OF g'(1)] page_addr_aligned [OF g'(1)] own s(1) b(1) by (simp add: kfree_def)
  moreover have "heap_inv R k roots ?st" "objects R ?st = objects R st0"
    by (rule heap_inv_buddy [OF inv0 pt]; use lv fr in fastforce)+
  ultimately show ?thesis using lv by (intro exI [of _ ?st]) simp
qed

section \<open>The object of the data\<close>

lemma take_from_cache_vm: "take_from_cache i st = Inr (a, st') \<Longrightarrow> kh_vm st' = kh_vm st"
  by (auto simp: take_from_cache_def addr_from_slab_def bindR_def Let_def set_slab_def set_kh_links_def
      split: kh_node.splits sum.splits option.splits if_splits)

text \<open>A small object takes no page, or one page for a new slab.\<close>

lemma kmalloc_small_pages:
  assumes inv: "heap_inv R k roots st" and l: "l = i + 5" "i < CACHES" and o: "class_order l = 0"
    and r: "kmalloc_small l (2 ^ l) st = Inr (a, st')"
  shows "live_blocks R (kh_buddy st') = live_blocks R (kh_buddy st) \<and> kh_vm st' = kh_vm st \<or>
    (\<exists>q. live_blocks R (kh_buddy st') = insert (q, 0) (live_blocks R (kh_buddy st)) \<and>
       (\<forall>m. (q, m) \<notin> live_blocks R (kh_buddy st)) \<and> pf_state (frame_metadata (kh_buddy st') q) = PAGE_SLAB)"
proof (cases "list_empty (CacheList i False) (kh_links st)")
  case False
  then have "take_from_cache i st = Inr (a, st')" using r l(1) by (simp add: kmalloc_small_def)
  then show ?thesis using take_from_cache_vm by simp
next
  case True
  then have r': "bindR (new_slab l (2 ^ l) st) (take_from_cache i) = Inr (a, st')"
    using r l(1) by (simp add: kmalloc_small_def)
  have l': "5 \<le> l" "l \<le> 11" using l by (simp_all add: CACHES_def)
  note sa = slab_alloc_spec [OF heap_invD(1) [OF inv] l', unfolded o]
  show ?thesis
  proof (cases "has_block R 0 (kh_buddy st)")
    case False
    then have "slab_alloc 0 st = Inl WildAccess" using sa by (simp only: if_False)
    then show ?thesis using r' o by (simp add: new_slab_eq)
  next
    case True
    then obtain p b where p: "slab_alloc 0 st = Inr (page_addr p, st\<lparr>kh_vm := (kh_vm st)\<lparr>vm_buddy := b\<rparr>\<rparr>)"
      and nb: "new_block R 0 p (kh_buddy st) b" using sa by (simp only: if_True) blast
    have "kh_buddy st' = b" using r' p by (auto simp: new_slab_eq o dest: take_from_cache_vm)
    then show ?thesis using new_blockD(3-5) [OF nb] by blast
  qed
qed

lemma slab_page_object:
  assumes "heap_inv R k roots st" and "p \<in> slab_pages R (kh_buddy st)"
  shows "\<exists>j. (p, j) \<in> objects R st"
proof -
  obtain F where F: "heap_lists R st {} F" using heap_invD(2) [OF assms(1)] by blast
  obtain i f where "i < CACHES" "p \<in> set (F (i, f))" by (rule slab_listed [OF F assms(2)])
  then have "used (kh_slabs st p) \<noteq> {}" using heap_listsD(3) [OF F] by blast
  then show ?thesis using assms(2) by (auto simp: objects_def)
qed

lemma object_addr_not_0:
  assumes inv: "heap_inv R k roots st" and o: "(p, j) \<in> objects R st"
  shows "object_addr p (slab_class st p) j \<noteq> 0"
proof
  assume z: "object_addr p (slab_class st p) j = 0"
  note fa = object_facts [OF inv o]
  have "p + 2 ^ class_order (slab_class st p) \<le> NPAGES"
    using live_blocks_bounds(2) [OF _ fa(4)] pt_invD(1) [OF heap_invD(1) [OF inv]] by (simp add: buddy_ok_def)
  from object_page [OF fa(1-3) this] obtain q where "page_addr q = 0" "q < NPAGES"
    unfolding z by (auto simp: ALIGN_DOWN_def)
  then show False using page_addr_not_0 by blast
qed

text \<open>Releasing the object that was taken last gives back the page it took.\<close>

lemma object_returned:
  assumes inv: "heap_inv R k roots st" and t: "took_object R k roots l st p j st1"
    and pg: "live_blocks R (kh_buddy st1) = live_blocks R (kh_buddy st) \<and> kh_vm st1 = kh_vm st \<or>
      (\<exists>q. live_blocks R (kh_buddy st1) = insert (q, 0) (live_blocks R (kh_buddy st)) \<and>
         (\<forall>m. (q, m) \<notin> live_blocks R (kh_buddy st)) \<and> pf_state (frame_metadata (kh_buddy st1) q) = PAGE_SLAB)"
    and s: "kh_slabs s = kh_slabs st1" "heap_inv R k roots s" "objects R s = objects R st1"
      "live_blocks R (kh_buddy s) = live_blocks R (kh_buddy st1)"
  shows "\<exists>s'. kfree (object_addr p l j) s = Inr s' \<and> heap_inv R k roots s' \<and> objects R s' = objects R st \<and>
    live_blocks R (kh_buddy s') = live_blocks R (kh_buddy st)"
proof -
  have t': "heap_inv R k roots st1" "(p, j) \<notin> objects R st" "objects R st1 = insert (p, j) (objects R st)"
    "slab_class st1 p = l" using t by (simp_all add: took_object_def)
  have o: "(p, j) \<in> objects R s" using s(3) t'(3) by simp
  have c: "slab_class s p = l" using s(1) t'(4) by (simp add: slab_class_def)
  obtain s' where s': "kfree (object_addr p l j) s = Inr s'" "dropped_object R k roots s p j s'"
    using kfree_object [OF s(2) o] c by auto
  have u: "used (kh_slabs s p) = {j'. (p, j') \<in> objects R s}" using o by (auto simp: objects_def)
  have us: "used (kh_slabs (after_drop p j s) p) = {j'. (p, j') \<in> objects R st}"
  proof -
    obtain F where F: "heap_lists R s {} F" using heap_invD(2) [OF s(2)] by blast
    have ps: "p \<in> slab_pages R (kh_buddy s)" and j: "j \<in> used (kh_slabs s p)" using o by (simp_all add: objects_def)
    obtain i f where "slab_ok R s i f p" by (rule slab_listed [OF F ps])
    then have "used (drop_object j (kh_slabs s p)) = used (kh_slabs s p) - {j}"
      using used_drop_object(1) [OF j slab_okD(5)] by blast
    then show ?thesis using t'(2,3) s(3) unfolding u by auto
  qed
  note kf = slab_free_object [OF s(2) o, unfolded c s'(1) Let_def]
  have "live_blocks R (kh_buddy s') = live_blocks R (kh_buddy st)"
    using pg
  proof (elim disjE exE conjE)
    assume lv: "live_blocks R (kh_buddy st1) = live_blocks R (kh_buddy st)" and vm: "kh_vm st1 = kh_vm st"
    have "(p, j) \<in> objects R st1" using t'(3) by simp
    then have "p \<in> slab_pages R (kh_buddy st)" using vm by (simp add: objects_def)
    then obtain j' where "(p, j') \<in> objects R st" using slab_page_object [OF inv] by blast
    then have "used (kh_slabs (after_drop p j s) p) \<noteq> {}" unfolding us by blast
    then have "s' = after_drop p j s" using kf by simp
    then show ?thesis using s(4) lv by simp
  next
    fix q assume lv: "live_blocks R (kh_buddy st1) = insert (q, 0) (live_blocks R (kh_buddy st))"
      and new: "\<forall>m. (q, m) \<notin> live_blocks R (kh_buddy st)"
      and sl: "pf_state (frame_metadata (kh_buddy st1) q) = PAGE_SLAB"
    have nq: "(q, j') \<notin> objects R st" for j' using new by (auto simp: objects_def slab_pages_def)
    have "q \<in> slab_pages R (kh_buddy st1)" using lv sl by (auto simp: slab_pages_def)
    then have qp: "q = p" using slab_page_object [OF t'(1)] nq t'(3) by auto
    then have "used (kh_slabs (after_drop p j s) p) = {}" unfolding us using nq by simp
    then have gb: "give_back p (after_drop p j s) = Inr s'" using kf by simp
    have ok: "buddy_ok R (kh_buddy s)" by (rule pt_invD(1) [OF heap_invD(1) [OF s(2)]])
    have pN: "p < NPAGES"
      using live_blocks_bounds(2) [of R "kh_buddy s" p 0] ok s(4) lv qp by (simp add: buddy_ok_def)
    obtain b where b: "buddy_free (page_addr p) (kh_buddy s) = Inr b"
      "live_blocks R b = {x \<in> live_blocks R (kh_buddy s). fst x \<noteq> p}"
      using buddy_free_cases [OF ok, of "page_addr p", unfolded pfn_page_addr [OF pN]] pN by blast
    have "kh_buddy s' = b" using gb b(1) by (auto simp: give_back_def)
    then show ?thesis using b(2) s(4) lv new qp by auto
  qed
  moreover have "objects R s' = objects R st" using s'(2) s(3) t'(2,3) by (auto simp: dropped_object_def)
  ultimately show ?thesis using s' by (simp add: dropped_object_def)
qed

section \<open>Opening and closing\<close>

lemma free_page_block:
  assumes "buddy_ok R b" and "free_pages R b \<noteq> {}"
  shows "has_block R 0 b"
  using free_page_head [OF assms(1)] assms(2) by (auto simp: has_block_def)



end
