(* ===== verification/Device_Tree.thy ===== *)
theory Device_Tree
  imports Utils
begin

text \<open>
  The parser of flattened device trees in \<open>drivers/dt.c\<close> with the types of \<open>types/dt_types.h\<close>.
  \<open>device_tree_init\<close> keeps it switched off under a constant condition; the devices it registers
  instead are in theory \<open>Trie\<close>. Memory is a function from addresses to bytes and a pointer is an
  address; what the parser prints is the list of its events. The loops read until they meet a token
  and may run for ever, so they are partial functions, and a parse that ends is \<open>Some\<close>.
\<close>

section \<open>The blob\<close>

text \<open>The tokens of \<open>ftd_tokens\<close>.\<close>

definition FDT_BEGIN_NODE :: u32 where "FDT_BEGIN_NODE = 1"
definition FDT_END_NODE :: u32 where "FDT_END_NODE = 2"
definition FDT_PROP :: u32 where "FDT_PROP = 3"
definition FDT_NOP :: u32 where "FDT_NOP = 4"
definition FDT_END :: u32 where "FDT_END = 9"

lemmas fdt_tokens = FDT_BEGIN_NODE_def FDT_END_NODE_def FDT_PROP_def FDT_NOP_def FDT_END_def

record fdt_header =
  magic :: u32
  totalsize :: u32
  off_dt_struct :: u32
  off_dt_strings :: u32
  off_mem_rsvmap :: u32
  version :: u32
  last_comp_version :: u32
  boot_cpuid_phys :: u32
  size_dt_strings :: u32
  size_dt_struct :: u32

record fdt_property =
  plen :: u32
  nameoff :: u32

text \<open>The processor is little-endian: the byte at the lowest address is the lowest of a word.\<close>

definition byte_of :: "u32 \<Rightarrow> nat \<Rightarrow> u8" where
  "byte_of w i = ucast (drop_bit (8 * i) w)"

definition load32 :: "bytes \<Rightarrow> nat \<Rightarrow> u32" where
  "load32 m p =
     ucast (m p) OR push_bit 8 (ucast (m (p + 1))) OR push_bit 16 (ucast (m (p + 2)))
     OR push_bit 24 (ucast (m (p + 3)))"

definition store32 :: "nat \<Rightarrow> u32 \<Rightarrow> bytes \<Rightarrow> bytes" where
  "store32 p w m = (\<lambda>a. if p \<le> a \<and> a < p + 4 then byte_of w (a - p) else m a)"

definition swap_endianness_32 :: "u32 \<Rightarrow> u32" where
  "swap_endianness_32 w =
     push_bit 24 (w AND 0xff) OR push_bit 8 (w AND 0xff00) OR drop_bit 8 (w AND 0xff0000)
     OR drop_bit 24 w"

definition read_header :: "bytes \<Rightarrow> nat \<Rightarrow> fdt_header" where
  "read_header m p =
     \<lparr>magic = load32 m p, totalsize = load32 m (p + 4), off_dt_struct = load32 m (p + 8),
      off_dt_strings = load32 m (p + 12), off_mem_rsvmap = load32 m (p + 16),
      version = load32 m (p + 20), last_comp_version = load32 m (p + 24),
      boot_cpuid_phys = load32 m (p + 28), size_dt_strings = load32 m (p + 32),
      size_dt_struct = load32 m (p + 36)\<rparr>"

definition read_property :: "bytes \<Rightarrow> nat \<Rightarrow> fdt_property" where
  "read_property m p = \<lparr>plen = load32 m p, nameoff = load32 m (p + 4)\<rparr>"

section \<open>The parser\<close>

datatype dt_event = NodeEvent "u8 list" | PropEvent "u8 list" u32

text \<open>The string at an address, as \<open>strlen\<close> and the conversion \<open>%s\<close> read it.\<close>

partial_function (option) cstring :: "bytes \<Rightarrow> nat \<Rightarrow> u8 list option" where
  [code]: "cstring m p =
     (if m p = 0 then Some [] else Option.bind (cstring m (p + 1)) (\<lambda>s. Some (m p # s)))"

text \<open>\<open>ALIGN_UP\<close> of \<open>macros.h\<close> at 32 bits, to a multiple of four.\<close>

definition ALIGN_UP_4 :: "u32 \<Rightarrow> u32" where
  "ALIGN_UP_4 n = (n + 3) AND NOT 3"

text \<open>The number of bytes to skip is computed at 64 bits and kept in an \<open>int\<close>.\<close>

definition parse_property :: "bytes \<Rightarrow> nat \<Rightarrow> nat \<Rightarrow> (nat \<times> dt_event) option" where
  "parse_property m strtable p =
     (let prop = read_property m p;
          prop = prop\<lparr>plen := swap_endianness_32 (plen prop)\<rparr>;
          prop = prop\<lparr>nameoff := swap_endianness_32 (nameoff prop)\<rparr>;
          skip = ucast (ucast (ALIGN_UP_4 (plen prop)) + 8 :: u64) :: u32
      in Option.bind (cstring m (strtable + unat (nameoff prop)))
           (\<lambda>name. Some (nat (int p + sint skip), PropEvent name (plen prop))))"

text \<open>\<open>strlen\<close> returns an \<open>int\<close>, whose alignment is added to the pointer.\<close>

definition skip_name :: "nat \<Rightarrow> u8 list \<Rightarrow> nat" where
  "skip_name p name = nat (int p + sint (ALIGN_UP_4 (of_nat (strlen name))))"

text \<open>
  The loop of \<open>parse_node\<close>. A nested node is parsed by a recursive call, which returns the address
  of the token at which its loop stopped; the call is written out here and restored by
  \<open>node_loop_unfold\<close> below.
\<close>

partial_function (option) node_loop ::
  "bytes \<Rightarrow> nat \<Rightarrow> nat \<Rightarrow> (nat \<times> dt_event list) option" where
  [code]: "node_loop m strtable p =
     (let val = swap_endianness_32 (load32 m p)
      in if val = FDT_END_NODE then Some (p, [])
         else if val = FDT_BEGIN_NODE
         then Option.bind (cstring m (p + 4)) (\<lambda>name.
              Option.bind (node_loop m strtable (skip_name (p + 4) name)) (\<lambda>(q, inner).
              Option.bind (node_loop m strtable q) (\<lambda>(r, rest).
              Some (r, NodeEvent name # inner @ rest))))
         else if val = FDT_PROP
         then Option.bind (parse_property m strtable (p + 4)) (\<lambda>(q, e).
              Option.bind (node_loop m strtable q) (\<lambda>(r, rest). Some (r, e # rest)))
         else node_loop m strtable (p + 4))"

definition parse_node :: "bytes \<Rightarrow> nat \<Rightarrow> nat \<Rightarrow> (nat \<times> dt_event list) option" where
  "parse_node m strtable p =
     Option.bind (cstring m p) (\<lambda>name.
     Option.bind (node_loop m strtable (skip_name p name)) (\<lambda>(q, inner).
     Some (q, NodeEvent name # inner)))"

lemma node_loop_unfold:
  "node_loop m strtable p =
     (let val = swap_endianness_32 (load32 m p)
      in if val = FDT_END_NODE then Some (p, [])
         else if val = FDT_BEGIN_NODE
         then Option.bind (parse_node m strtable (p + 4)) (\<lambda>(q, inner).
              Option.bind (node_loop m strtable q) (\<lambda>(r, rest). Some (r, inner @ rest)))
         else if val = FDT_PROP
         then Option.bind (parse_property m strtable (p + 4)) (\<lambda>(q, e).
              Option.bind (node_loop m strtable q) (\<lambda>(r, rest). Some (r, e # rest)))
         else node_loop m strtable (p + 4))"
  by (subst node_loop.simps) (simp add: parse_node_def Let_def split: Option.bind_split)

partial_function (option) tree_loop :: "bytes \<Rightarrow> nat \<Rightarrow> nat \<Rightarrow> dt_event list option" where
  [code]: "tree_loop m strtable p =
     (let val = swap_endianness_32 (load32 m p)
      in if val = FDT_END then Some []
         else if val = FDT_BEGIN_NODE
         then Option.bind (parse_node m strtable (p + 4)) (\<lambda>(q, evs).
              Option.bind (tree_loop m strtable q) (\<lambda>rest. Some (evs @ rest)))
         else tree_loop m strtable (p + 4))"

definition parse_device_tree :: "bytes \<Rightarrow> nat \<Rightarrow> dt_event list option" where
  "parse_device_tree m header =
     tree_loop m (header + unat (off_dt_strings (read_header m header)))
       (header + unat (off_dt_struct (read_header m header)))"

text \<open>
  The block of \<open>device_tree_init\<close> that is switched off: it converts the ten words of the header in
  place, prints them and parses the tree.
\<close>

fun swap_words :: "nat \<Rightarrow> nat \<Rightarrow> bytes \<Rightarrow> bytes" where
  "swap_words 0 p m = m"
| "swap_words (Suc n) p m =
     swap_words n (p + 4) (store32 p (swap_endianness_32 (load32 m p)) m)"

definition dump_device_tree :: "bytes \<Rightarrow> nat \<Rightarrow> (fdt_header \<times> dt_event list) option" where
  "dump_device_tree m tree =
     (let m' = swap_words 10 tree m
      in Option.bind (parse_device_tree m' tree) (\<lambda>evs. Some (read_header m' tree, evs)))"

section \<open>Words and strings in memory\<close>

text \<open>The bytes at an address, and the big-endian form of a word.\<close>

definition holds :: "bytes \<Rightarrow> nat \<Rightarrow> u8 list \<Rightarrow> bool" where
  "holds m p bs \<longleftrightarrow> map m [p..<p + length bs] = bs"

definition be32 :: "u32 \<Rightarrow> u8 list" where
  "be32 w = map (byte_of w) [3, 2, 1, 0]"

lemma be32_length [simp]: "length (be32 w) = 4"
  by (simp add: be32_def)

lemma holds_Nil [simp]: "holds m p []"
  by (simp add: holds_def)

lemma holds_Cons [simp]: "holds m p (b # bs) \<longleftrightarrow> m p = b \<and> holds m (p + 1) bs"
  by (simp add: holds_def upt_rec)

lemma holds_append [simp]: "holds m p (xs @ ys) \<longleftrightarrow> holds m p xs \<and> holds m (p + length xs) ys"
  by (induction xs arbitrary: p) simp_all

lemma holds_cong: "(\<And>a. p \<le> a \<Longrightarrow> m' a = m a) \<Longrightarrow> holds m' p bs = holds m p bs"
  unfolding holds_def by (metis (mono_tags, lifting) atLeastLessThan_iff map_eq_conv set_upt)

lemma no_high_bit: "8 \<le> k \<Longrightarrow> \<not> bit (b :: u8) k"
  using bit_imp_le_length [of b k] by auto

lemma word_quarters:
  fixes n :: nat
  obtains "n < 8" | k where "n = 8 + k" "k < 8" | k where "n = 16 + k" "k < 8" | k where "n = 24 + k"
proof -
  consider "n < 8" | "8 \<le> n" "n < 16" | "16 \<le> n" "n < 24" | "24 \<le> n" by linarith
  then show thesis
  proof cases
    case 1 then show ?thesis by (rule that(1))
  next
    case 2 then show ?thesis using that(2) [of "n - 8"] by simp
  next
    case 3 then show ?thesis using that(3) [of "n - 16"] by simp
  next
    case 4 then show ?thesis using that(4) [of "n - 24"] by simp
  qed
qed

lemma bit_load32:
  assumes "n < 32"
  shows "bit (load32 m p) n \<longleftrightarrow>
     (if n < 8 then bit (m p) n else if n < 16 then bit (m (p + 1)) (n - 8)
      else if n < 24 then bit (m (p + 2)) (n - 16) else bit (m (p + 3)) (n - 24))"
  by (cases n rule: word_quarters; use assms in \<open>simp add: load32_def bit_or_iff bit_push_bit_iff bit_ucast_iff no_high_bit\<close>)

lemma byte_masks: "0xff = (mask 8 :: u32)" "0xff00 = (push_bit 8 (mask 8) :: u32)"
    "0xff0000 = (push_bit 16 (mask 8) :: u32)"
  by (simp_all add: mask_eq_exp_minus_1 push_bit_eq_mult)

lemma bit_swap:
  "bit (swap_endianness_32 w) n \<longleftrightarrow>
     (if n < 8 then bit w (n + 24) else if n < 16 then bit w (n + 8)
      else if n < 24 then bit w (n - 8) else n < 32 \<and> bit w (n - 24))"
  unfolding swap_endianness_32_def byte_masks
  by (cases n rule: word_quarters)
    (auto simp: bit_simps add.commute dest: bit_imp_le_length)

lemma bit_byte_of: "bit (byte_of w i) n \<longleftrightarrow> n < 8 \<and> bit w (8 * i + n)"
  by (auto simp: byte_of_def bit_simps dest: bit_imp_le_length)

lemma swap_load_be32: 
  assumes "holds m p (be32 w)"
  shows "swap_endianness_32 (load32 m p) = w"
proof -
  have m: "m p = byte_of w 3" "m (Suc p) = byte_of w 2" "m (Suc (Suc p)) = byte_of w 1"
    "m (p + 3) = byte_of w 0"
    using assms by (auto simp: be32_def numeral_2_eq_2 numeral_3_eq_3)
  show ?thesis
    by (rule bit_word_eqI, rule_tac n = n in word_quarters)
      (simp_all add: bit_swap bit_load32 m bit_byte_of add.commute)
qed

lemma load_store: "load32 (store32 p w m) p = w"
  by (rule bit_word_eqI, rule_tac n = n in word_quarters)
    (simp_all add: bit_load32 store32_def bit_byte_of)

lemma sint_small:
  assumes "unat (w :: u32) < 2 ^ 31"
  shows "sint w = int (unat w)"
proof -
  have "int (unat w) < int (2 ^ 31)" using assms by (simp only: of_nat_less_iff)
  then have "uint w < 2 ^ 31" by simp
  moreover have "- (2 ^ 31) \<le> uint w" by (rule order_trans [of _ 0]) simp_all
  ultimately have "signed_take_bit 31 (uint w) = uint w" by (intro signed_take_bit_int_eq_self)
  then show ?thesis by (simp add: sint_uint)
qed

lemma align_up4: 
  assumes "unat (n :: u32) < 2 ^ 32 - 4"
  shows "unat (ALIGN_UP_4 n) = (unat n + 3) div 4 * 4"
proof -
  have "unat (n + 3) = unat n + 3" using assms by (simp add: unat_word_ariths)
  then show ?thesis
    using unat_and_not_mask [of "n + 3" 2] by (simp add: ALIGN_UP_4_def mask_eq_exp_minus_1)
qed

lemma strlen_length: "strlen s = length s"
  by (induction s) simp_all

lemma skip_name_eq:
  assumes "length name < 2 ^ 31 - 4"
  shows "skip_name p name = p + (length name + 3) div 4 * 4"
proof -
  have n: "unat (of_nat (length name) :: u32) = length name"
    using assms by (simp add: unsigned_of_nat take_bit_nat_eq_self)
  have "unat (ALIGN_UP_4 (of_nat (length name))) = (length name + 3) div 4 * 4"
    using align_up4 [of "of_nat (length name)"] assms n by simp
  then show ?thesis
    using assms by (simp add: skip_name_def strlen_length sint_small nat_int_add)
qed

lemma cstring_holds: "holds m p (s @ [0]) \<Longrightarrow> 0 \<notin> set s \<Longrightarrow> cstring m p = Some s"
  by (induction s arbitrary: p) (subst cstring.simps; force)+

section \<open>Specification: trees and their encoding\<close>

text \<open>
  The format of the device tree specification: a node is its token, its padded name, its properties,
  its children and the closing token; a property is its token, its length, the offset of its name
  and its padded data.
\<close>

datatype dt_node = DtNode "u8 list" "(u32 \<times> u8 list) list" "dt_node list"

datatype dt_token = TBegin "u8 list" | TProp u32 "u8 list" | TEnd

fun tree_tokens :: "dt_node \<Rightarrow> dt_token list" where
  "tree_tokens (DtNode name ps cs) =
     TBegin name # map (\<lambda>(off, d). TProp off d) ps @ concat (map tree_tokens cs) @ [TEnd]"

definition pad4 :: "nat \<Rightarrow> u8 list" where
  "pad4 n = replicate ((4 - n mod 4) mod 4) 0"

fun token_bytes :: "dt_token \<Rightarrow> u8 list" where
  "token_bytes (TBegin name) = be32 1 @ name @ 0 # pad4 (length name + 1)"
| "token_bytes (TProp off d) = be32 3 @ be32 (of_nat (length d)) @ be32 off @ d @ pad4 (length d)"
| "token_bytes TEnd = be32 2"

abbreviation stream :: "dt_token list \<Rightarrow> u8 list" where
  "stream ts \<equiv> concat (map token_bytes ts)"

text \<open>What a complete walk of the tree reports: its nodes in preorder, each with its properties.\<close>

fun tree_events :: "(u32 \<Rightarrow> u8 list) \<Rightarrow> dt_node \<Rightarrow> dt_event list" where
  "tree_events names (DtNode name ps cs) =
     NodeEvent name # map (\<lambda>(off, d). PropEvent (names off) (of_nat (length d))) ps
     @ concat (map (tree_events names) cs)"

fun token_events :: "(u32 \<Rightarrow> u8 list) \<Rightarrow> dt_token \<Rightarrow> dt_event list" where
  "token_events names (TBegin name) = [NodeEvent name]"
| "token_events names (TProp off d) = [PropEvent (names off) (of_nat (length d))]"
| "token_events names TEnd = []"

abbreviation events :: "(u32 \<Rightarrow> u8 list) \<Rightarrow> dt_token list \<Rightarrow> dt_event list" where
  "events names ts \<equiv> concat (map (token_events names) ts)"

text \<open>Names are strings, the names of properties are in the block of strings, sizes fit an \<open>int\<close>.\<close>

fun token_ok :: "bytes \<Rightarrow> nat \<Rightarrow> (u32 \<Rightarrow> u8 list) \<Rightarrow> dt_token \<Rightarrow> bool" where
  "token_ok m st names (TBegin name) \<longleftrightarrow> 0 \<notin> set name \<and> length name < 2 ^ 31 - 4"
| "token_ok m st names (TProp off d) \<longleftrightarrow>
     length d < 2 ^ 31 - 16 \<and> 0 \<notin> set (names off) \<and> holds m (st + unat off) (names off @ [0])"
| "token_ok m st names TEnd \<longleftrightarrow> True"

section \<open>One step of the loops\<close>

lemma padded_length: "(n + 3) div 4 * 4 = n + length (pad4 n)"
proof -
  have "n mod 4 = 0 \<or> n mod 4 = 1 \<or> n mod 4 = 2 \<or> n mod 4 = 3" by presburger
  then show ?thesis
    using div_mult_mod_eq [of n 4] by (elim disjE) (simp_all add: pad4_def, presburger+)
qed

lemma skip_down_cast: "ucast (ucast (n :: u32) + 8 :: u64) = n + 8"
proof -
  have "(of_nat (unat n) :: u64) + 8 = of_nat (unat n + 8)" by simp
  then have "ucast n + (8 :: u64) = of_nat (unat n + 8)" by simp
  then have "ucast (ucast n + 8 :: u64) = (of_nat (unat (of_nat (unat n + 8) :: u64)) :: u32)"
    by simp
  also have "unat (of_nat (unat n + 8) :: u64) = unat n + 8"
  proof -
    have "unat n < 2 ^ LENGTH(32)" by (rule unsigned_less)
    then show ?thesis unfolding unat_of_nat by simp
  qed
  finally show ?thesis by simp
qed

lemma parse_property_step:
  assumes "token_ok m st names (TProp off d)" "holds m p (token_bytes (TProp off d))"
  shows "parse_property m st (p + 4) =
    Some (p + length (token_bytes (TProp off d)), PropEvent (names off) (of_nat (length d)))"
proof -
  let ?n = "of_nat (length d) :: u32"
  have n: "unat ?n = length d"
    using assms(1) by (simp add: unsigned_of_nat take_bit_nat_eq_self)
  have a: "unat (ALIGN_UP_4 ?n) = length d + length (pad4 (length d))"
    using align_up4 [of ?n] assms(1) n by (simp add: padded_length)
  have pad: "length (pad4 (length d)) < 4" by (simp add: pad4_def)
  have "ucast (ucast (ALIGN_UP_4 ?n) + 8 :: u64) = (ALIGN_UP_4 ?n + 8 :: u32)"
    by (simp add: skip_down_cast)
  moreover have "unat (ALIGN_UP_4 ?n + 8) = length d + length (pad4 (length d)) + 8"
    using a pad assms(1) by (simp add: unat_word_ariths)
  ultimately have s: "sint (ucast (ucast (ALIGN_UP_4 ?n) + 8 :: u64) :: u32) =
      int (length d + length (pad4 (length d)) + 8)"
    using pad assms(1) by (simp add: sint_small)
  have "swap_endianness_32 (load32 m (p + 4)) = ?n" "swap_endianness_32 (load32 m (p + 8)) = off"
    using assms(2) by (simp_all add: swap_load_be32 add.assoc)
  moreover have "cstring m (st + unat off) = Some (names off)"
    using assms(1) by (simp add: cstring_holds)
  ultimately show ?thesis
    using s by (simp add: parse_property_def read_property_def Let_def add.assoc)
qed

lemma node_loop_end: "holds m p (be32 2) \<Longrightarrow> node_loop m st p = Some (p, [])"
  by (subst node_loop.simps) (simp add: swap_load_be32 fdt_tokens)

lemma node_loop_prop:
  assumes "token_ok m st names (TProp off d)" "holds m p (token_bytes (TProp off d))"
  shows "node_loop m st p = Option.bind (node_loop m st (p + length (token_bytes (TProp off d))))
    (\<lambda>(r, rest). Some (r, PropEvent (names off) (of_nat (length d)) # rest))"
proof -
  have "swap_endianness_32 (load32 m p) = 3" using assms(2) by (simp add: swap_load_be32)
  then show ?thesis
    by (subst node_loop.simps) (simp add: fdt_tokens parse_property_step [OF assms] del: token_bytes.simps)
qed

text \<open>
  Where the length of a name is a multiple of four the alignment stops before its terminator, and
  the loop skips the padded terminator as an unknown token.
\<close>

lemma node_loop_name:
  assumes "length name < 2 ^ 31 - 4" "holds m p (name @ 0 # pad4 (length name + 1))"
  shows "node_loop m st (skip_name p name) =
    node_loop m st (p + length (name @ 0 # pad4 (length name + 1)))"
proof (cases "length name mod 4 = 0")
  case True
  then have pad: "pad4 (length name + 1) = [0, 0, 0]" and al: "(length name + 3) div 4 * 4 = length name"
    by (simp add: pad4_def mod_Suc numeral_3_eq_3, presburger)
  have "holds m (p + length name) (be32 0)"
    using assms(2) pad by (simp add: be32_def byte_of_def)
  then have "node_loop m st (p + length name) = node_loop m st (p + length name + 4)"
    by (subst node_loop.simps) (simp add: swap_load_be32 fdt_tokens)
  moreover have "p + length (name @ 0 # pad4 (length name + 1)) = p + length name + 4"
    unfolding pad by simp
  ultimately show ?thesis
    using assms(1) al by (simp only: skip_name_eq)
next
  case False
  then have "(length name + 3) div 4 = (length name + 1 + 3) div 4" by presburger
  then have "(length name + 3) div 4 * 4 = length name + 1 + length (pad4 (length name + 1))"
    using padded_length [of "length name + 1"] by simp
  then show ?thesis
    using assms(1) by (simp add: skip_name_eq add.assoc)
qed

lemma node_loop_begin:
  assumes "token_ok m st names (TBegin name)" "holds m p (token_bytes (TBegin name))"
  shows "node_loop m st p =
    Option.bind (node_loop m st (p + length (token_bytes (TBegin name)))) (\<lambda>(q, inner).
    Option.bind (node_loop m st q) (\<lambda>(r, rest). Some (r, NodeEvent name # inner @ rest)))"
proof -
  have v: "swap_endianness_32 (load32 m p) = 1" using assms(2) by (simp add: swap_load_be32)
  have n: "holds m (p + 4) (name @ 0 # pad4 (length name + 1))" using assms(2) by simp
  have c: "cstring m (p + 4) = Some name" using assms(1) n by (intro cstring_holds) simp_all
  show ?thesis
    using assms(1) node_loop_name [OF _ n, of st]
    by (subst node_loop.simps) (simp add: v c fdt_tokens ac_simps)
qed

section \<open>A node and the whole tree\<close>

lemma node_loop_stream:
  assumes "TEnd \<notin> set ts" "\<forall>k \<in> set ts. token_ok m st names k"
    "holds m p (stream ts @ be32 2)"
  shows "node_loop m st p = Some (p + length (stream ts), events names ts)"
  using assms
proof (induction ts arbitrary: p)
  case Nil
  then show ?case by (simp add: node_loop_end)
next
  case (Cons k ts)
  let ?q = "p + length (token_bytes k)"
  have h: "holds m p (token_bytes k)" and k: "token_ok m st names k" using Cons.prems by simp_all
  have ih: "node_loop m st ?q = Some (?q + length (stream ts), events names ts)"
    using Cons.prems by (intro Cons.IH) simp_all
  have e: "node_loop m st (?q + length (stream ts)) = Some (?q + length (stream ts), [])"
    using Cons.prems(3) by (intro node_loop_end) (simp add: add.assoc)
  show ?case
  proof (cases k)
    case (TBegin name)
    then show ?thesis
      using node_loop_begin [of m st names name p] h k ih e
      by (simp add: add.assoc del: token_bytes.simps token_ok.simps)
  next
    case (TProp off d)
    then show ?thesis
      using node_loop_prop [of m st names off d p] h k ih
      by (simp add: add.assoc del: token_bytes.simps token_ok.simps)
  next
    case TEnd
    with Cons.prems show ?thesis by simp
  qed
qed

text \<open>In a stream of a tree no property stands between the end of a node and the next node.\<close>

fun ordered :: "bool \<Rightarrow> dt_token list \<Rightarrow> bool" where
  "ordered inside [] \<longleftrightarrow> \<not> inside"
| "ordered inside (TBegin name # ts) \<longleftrightarrow> ordered True ts"
| "ordered inside (TProp off d # ts) \<longleftrightarrow> inside \<and> ordered True ts"
| "ordered inside (TEnd # ts) \<longleftrightarrow> ordered False ts"

lemma ordered_props: "ordered True (map (\<lambda>(off, d). TProp off d) ps @ ts) = ordered True ts"
  by (induction ps) auto

lemma ordered_concat:
  assumes "\<And>t b ts. t \<in> set cs \<Longrightarrow> ordered b (tree_tokens t @ ts) = ordered False ts"
  shows "ordered b (concat (map tree_tokens cs) @ TEnd # ts) = ordered False ts"
  using assms by (induction cs arbitrary: b) simp_all

lemma ordered_tree: "ordered b (tree_tokens t @ ts) = ordered False ts"
  by (induction t arbitrary: b ts rule: tree_tokens.induct)
    (simp add: ordered_props ordered_concat)

lemma ordered_split:
  assumes "ordered True ts"
  obtains us rest where "ts = us @ TEnd # rest" "TEnd \<notin> set us" "ordered False rest"
  using assms
proof (induction ts arbitrary: thesis)
  case (Cons k ts)
  show ?case
  proof (cases "k = TEnd")
    case True
    then show ?thesis using Cons.prems(1) [of "[]" ts] Cons.prems(2) by simp
  next
    case False
    then have "ordered True ts" using Cons.prems(2) by (cases k) simp_all
    then obtain us rest where "ts = us @ TEnd # rest" "TEnd \<notin> set us" "ordered False rest"
      using Cons.IH by blast
    then show ?thesis using Cons.prems(1) [of "k # us" rest] False by simp
  qed
qed simp

lemma tree_loop_stream:
  assumes "ordered False ts" "\<forall>k \<in> set ts. token_ok m st names k"
    "holds m p (stream ts @ be32 9)"
  shows "tree_loop m st p = Some (events names ts)"
  using assms
proof (induction "length ts" arbitrary: ts p rule: less_induct)
  case less
  show ?case
  proof (cases ts)
    case Nil
    then show ?thesis
      using less.prems by (subst tree_loop.simps) (simp add: swap_load_be32 fdt_tokens)
  next
    case (Cons k ts')
    then consider "k = TEnd" | name where "k = TBegin name" using less.prems(1) by (cases k) auto
    then show ?thesis
    proof cases
      case 1
      then have "tree_loop m st (p + 4) = Some (events names ts')"
        using less.prems Cons by (intro less.hyps) simp_all
      moreover have "swap_endianness_32 (load32 m p) = 2"
        using less.prems(3) Cons 1 by (simp add: swap_load_be32)
      ultimately show ?thesis
        using Cons 1 by (subst tree_loop.simps) (simp add: fdt_tokens)
    next
      case 2
      then obtain us rest where ts': "ts' = us @ TEnd # rest" "TEnd \<notin> set us" "ordered False rest"
        using less.prems(1) Cons by (auto elim: ordered_split)
      let ?q = "p + length (stream (k # us))"
      have n: "node_loop m st (skip_name (p + 4) name) = Some (?q, events names us)"
        using node_loop_name [of name m "p + 4" st] node_loop_stream [of us m st names "p + length (token_bytes k)"]
          less.prems Cons 2 ts' by (simp add: ac_simps)
      have c: "cstring m (p + 4) = Some name"
        using less.prems Cons 2 by (intro cstring_holds) simp_all
      have "swap_endianness_32 (load32 m p) = 1"
        using less.prems(3) Cons 2 by (simp add: swap_load_be32)
      moreover have "tree_loop m st ?q = Some (events names (TEnd # rest))"
        using less.prems Cons 2 ts' by (intro less.hyps) (simp_all add: ac_simps)
      ultimately show ?thesis
        using Cons 2 ts' n c
        by (subst tree_loop.simps) (simp add: fdt_tokens parse_node_def)
    qed
  qed
qed

lemma concat_map_concat:
  "concat (map f (concat (map g cs))) = concat (map (\<lambda>x. concat (map f (g x))) cs)"
  by (induction cs) simp_all

lemma events_props:
  "concat (map (\<lambda>x. token_events names (case x of (off, d) \<Rightarrow> TProp off d)) ps) =
    map (\<lambda>(off, d). PropEvent (names off) (of_nat (length d))) ps"
  by (induction ps) auto

lemma events_tree: "events names (tree_tokens t) = tree_events names t"
  by (induction t rule: tree_tokens.induct)
    (simp add: concat_map_concat events_props cong: map_cong)

section \<open>The header\<close>

definition header_bytes :: "fdt_header \<Rightarrow> u8 list" where
  "header_bytes h = be32 (magic h) @ be32 (totalsize h) @ be32 (off_dt_struct h)
     @ be32 (off_dt_strings h) @ be32 (off_mem_rsvmap h) @ be32 (version h)
     @ be32 (last_comp_version h) @ be32 (boot_cpuid_phys h) @ be32 (size_dt_strings h)
     @ be32 (size_dt_struct h)"

lemma swap_words_outside: "a < p \<or> p + 4 * n \<le> a \<Longrightarrow> swap_words n p m a = m a"
  by (induction n arbitrary: p m) (auto simp: store32_def)

lemma load32_cong: "(\<And>a. p \<le> a \<Longrightarrow> a < p + 4 \<Longrightarrow> m' a = m a) \<Longrightarrow> load32 m' p = load32 m p"
  by (simp add: load32_def)

lemma swap_words_load:
  "i < n \<Longrightarrow> load32 (swap_words n p m) (p + 4 * i) = swap_endianness_32 (load32 m (p + 4 * i))"
proof (induction n arbitrary: p m i)
  case (Suc n)
  let ?m = "store32 p (swap_endianness_32 (load32 m p)) m"
  show ?case
  proof (cases i)
    case 0
    have "load32 (swap_words n (p + 4) ?m) p = load32 ?m p"
      by (rule load32_cong) (simp add: swap_words_outside)
    then show ?thesis using 0 by (simp add: load_store)
  next
    case (Suc j)
    have "load32 ?m (p + 4 + 4 * j) = load32 m (p + 4 + 4 * j)"
      by (rule load32_cong) (simp add: store32_def)
    then show ?thesis using Suc.IH [of j "p + 4" ?m] Suc.prems Suc by (simp add: ac_simps)
  qed
qed simp

lemma swap_words_header:
  assumes "holds m p (header_bytes h)"
  shows "read_header (swap_words 10 p m) p = h"
proof -
  have *: "load32 (swap_words 10 p m) (p + 4 * i) = w" if "holds m (p + 4 * i) (be32 w)" "i < 10" for i w
    using that by (simp add: swap_words_load swap_load_be32)
  show ?thesis
    using assms *[of 0] *[of 1] *[of 2] *[of 3] *[of 4] *[of 5] *[of 6] *[of 7] *[of 8] *[of 9]
    by (simp add: header_bytes_def read_header_def add.assoc)
qed

text \<open>
  C38. For every device tree laid out as its specification says, the parser prints exactly the header
  in the byte order of the processor and the nodes in preorder, each with its name and followed by
  the names and lengths of its properties, and it ends. A node ends for the parser with its first
  child; the outer loop finds the others, since properties precede the children.
\<close>

theorem device_tree_dumped:
  assumes "holds m tree (header_bytes h)"
    and "40 \<le> unat (off_dt_struct h)" and "40 \<le> unat (off_dt_strings h)"
    and "holds m (tree + unat (off_dt_struct h)) (stream (tree_tokens t) @ be32 FDT_END)"
    and "\<forall>k \<in> set (tree_tokens t). token_ok m (tree + unat (off_dt_strings h)) names k"
  shows "dump_device_tree m tree = Some (h, tree_events names t)"
proof -
  let ?m = "swap_words 10 tree m"
  have same: "holds ?m p bs = holds m p bs" if "tree + 40 \<le> p" for p bs
    using that by (intro holds_cong swap_words_outside) simp
  have hd: "read_header ?m tree = h" by (rule swap_words_header [OF assms(1)])
  have "token_ok ?m (tree + unat (off_dt_strings h)) names k"
    if "token_ok m (tree + unat (off_dt_strings h)) names k" for k
    using that assms(3) by (cases k) (simp_all add: same del: holds_append)
  then have "tree_loop ?m (tree + unat (off_dt_strings h)) (tree + unat (off_dt_struct h)) =
      Some (events names (tree_tokens t))"
    using assms(2,4,5) ordered_tree [of False t "[]"]
    by (intro tree_loop_stream) (simp_all add: same FDT_END_def del: holds_append)
  then show ?thesis
    by (simp add: dump_device_tree_def parse_device_tree_def hd events_tree)
qed

text \<open>A tree with a property and two children, with its header and its block of strings.\<close>

definition sample_tree :: dt_node where
  "sample_tree = DtNode [] [(0, [7])] [DtNode [99, 112, 117] [] [], DtNode [109] [] []]"

definition sample_header :: fdt_header where
  "sample_header = \<lparr>magic = 0xd00dfeed, totalsize = 98, off_dt_struct = 40, off_dt_strings = 96,
     off_mem_rsvmap = 0, version = 17, last_comp_version = 16, boot_cpuid_phys = 0,
     size_dt_strings = 2, size_dt_struct = 56\<rparr>"

definition sample_blob :: bytes where
  "sample_blob = (\<lambda>a. let bs = header_bytes sample_header @ stream (tree_tokens sample_tree)
     @ be32 FDT_END @ [120, 0] in if a < length bs then bs ! a else 0)"

lemma device_tree_dumped_witness:
  "dump_device_tree sample_blob 0 = Some (sample_header,
     [NodeEvent [], PropEvent [120] 1, NodeEvent [99, 112, 117], NodeEvent [109]])"
proof -
  have names: "holds sample_blob 96 [120, 0]" by code_simp
  have "holds sample_blob 0 (header_bytes sample_header)" by code_simp
  moreover have "holds sample_blob (0 + unat (off_dt_struct sample_header))
      (stream (tree_tokens sample_tree) @ be32 FDT_END)" by code_simp
  moreover have "40 \<le> unat (off_dt_struct sample_header)" "40 \<le> unat (off_dt_strings sample_header)"
    by (simp_all add: sample_header_def)
  moreover have "\<forall>k \<in> set (tree_tokens sample_tree).
      token_ok sample_blob (0 + unat (off_dt_strings sample_header)) (\<lambda>_. [120]) k"
    using names by (simp add: sample_tree_def sample_header_def del: holds_Cons)
  ultimately show ?thesis
    using device_tree_dumped [of sample_blob 0 sample_header sample_tree "\<lambda>_. [120]"]
    by (simp add: sample_tree_def)
qed

end
