(* ===== verification/Spec2Isabelle.thy ===== *)
theory Spec2Isabelle
  imports Memprofiler Mailbox Shell Boot_Map_Correct Elf_Correct Console_Correct Kernel_Heap Scheduler_Correct Emmc_Correct Filesystem_Correct Priority_Queue Mutex Pipe_Heap Trie Device_Tree Utils
begin

text \<open>
  RPOS is a kernel for the Raspberry Pi 4, written in C and AArch64 assembly (\<open>src/src/kernel\<close>), with a few
  user programs (\<open>src/src/user\<close>). This development models its C code and proves what makes each part correct.
  Paths below are relative to \<open>src/src/kernel/src\<close>, and headers to \<open>src/src/kernel/include\<close>.

  The program. The boot code builds the first page tables (\<open>boot/highhalf.c\<close>) and jumps to the high half.
  \<open>kernel_main\<close> then starts the parts in this order: page allocator and page tables, frame buffer,
  interrupt controller, timers, SD card, kernel heap, scheduler, file system, device names, keyboard. All of
  them live on the page allocator (\<open>memory/paging.c\<close>): the page tables take their tables from it, the heap its
  slabs, a process its tables and stacks. Processes enter the kernel by system calls, page faults and interrupts;
  a call blocks by leaving the run queue and the interrupts of the timer and the keyboard put processes back.

  Conventions. A function that may fault returns \<open>fault + 'a\<close>: \<open>WildAccess\<close> is an access outside an object or
  another undefined behaviour of C, \<open>Panicked\<close> a call of \<open>panic\<close>, \<open>Halted\<close> an intended endless loop, \<open>OutOfFuel\<close>
  a bound of the model. Integers keep their width where it can matter; page-frame numbers, orders and indices that
  the code bounds are natural numbers. State is a record that every operation takes and returns. Linked structures
  are stores of links, so that the order of the assignments in \<open>list_add\<close> and \<open>list_remove\<close> counts. Hardware and
  firmware are parameters: records of functions on a state of any type, so that the results hold for all the values
  a register can present. Log output, barriers and cache and TLB maintenance are left out.

  \<^bold>\<open>Foundations\<close>
  \<^item> \<open>Prelude\<close>: words, faults and their sequencing, counting loops, alignment, flipping a bit.
  \<^item> \<open>Intrusive_List\<close>: \<open>utils/datastructures.h\<close>; the locale \<open>list_family\<close> gives clients a family of disjoint lists.
  \<^item> \<open>Utils\<close>: \<open>memory/mem.c\<close> with the vector loops of \<open>mem.S\<close>, \<open>utils/utils.c\<close>.
  \<^item> \<open>Priority_Queue\<close>, \<open>Trie\<close>: \<open>utils/datastructures/pq.c\<close> (refines a multiset, locale \<open>priority_queue\<close>) and \<open>trie.c\<close>
    (refines a map) with the names of \<open>drivers/dt.c\<close>.
  \<^item> \<open>Device_Tree\<close>: the parser of \<open>drivers/dt.c\<close>, which the kernel keeps switched off; it lists every tree of the
    specification in preorder. Its loops are partial functions, so the property includes that they end.

  \<^bold>\<open>Memory\<close>
  \<^item> \<open>Buddy\<close>, \<open>Buddy_Correct\<close>, \<open>Page_Allocator\<close>: the buddy allocator of \<open>memory/paging.c\<close> over the frame array of the first
    GiB. The invariant: blocks tile the managed pages, tails point to their heads, free lists hold exactly the free
    heads. Clients use the locale \<open>page_allocator\<close>, which proves whole runs of requests safe.
  \<^item> \<open>Page_Tables\<close>, \<open>Page_Tables_Correct\<close>, \<open>Virtual_Memory\<close>, \<open>Page_Index\<close>: \<open>map\<close>, \<open>update_mapping\<close>, \<open>translate_va\<close> of
    \<open>memory/mmap.c\<close> and \<open>mmu.c\<close> and \<open>buddy_alloc_pt\<close> of \<open>paging.c\<close>. Tables that form a forest are an address space,
    a partial map from addresses to descriptors, and mapping refines its update. The locale \<open>table_source\<close> is what
    mapping needs of the function that allocates tables; \<open>buddy_alloc_pt\<close>, which maps the pages it returns, is its
    instance, by induction on the number of free pages.
  \<^item> \<open>Address_Space\<close>: copying and releasing tables, page faults of user code (\<open>system/userfault.c\<close>), memory areas.
  \<^item> \<open>Kmalloc\<close>, \<open>Kmalloc_Correct\<close>, \<open>Kernel_Heap\<close>: the slab heap of \<open>memory/kmalloc.c\<close>. Objects in use are pairs of a slab and
    an index; \<open>kmalloc\<close> adds one, \<open>kfree\<close> removes one, and they never overlap.
  \<^item> \<open>Boot_Map\<close>, \<open>Boot_Tables\<close>, \<open>Boot_Map_Correct\<close>: the tables that \<open>boot/highhalf.c\<close> builds, for every image that the linker
    script allows (the hypothesis \<open>linked\<close>).
  \<^item> \<open>Memprofiler\<close>: \<open>memory/memprofiler.c\<close>; its figures are right in every state of the page allocator.

  \<^bold>\<open>Processes\<close>
  \<^item> \<open>Scheduler\<close>, \<open>Scheduler_Correct\<close>: \<open>system/scheduler.c\<close>; a step relation of ticks, blocking, waking, creation and exit, and
    its invariant: the run queue holds exactly the ready processes.
  \<^item> \<open>Mutex\<close>: \<open>synchronization\<close>, all interleavings of the atomic steps.
  \<^item> \<open>Timers\<close>, \<open>Interrupts\<close>: \<open>utils/timer.c\<close> and \<open>system/irq.c\<close>; a step relation of interrupts and of the processes that sleep and
    read, with the invariant that joins scheduler, sleep queue and keyboard.
  \<^item> \<open>Process\<close>, \<open>Syscalls\<close>: \<open>system/process.c\<close> and \<open>system/syscalls.c\<close>, the table, the dispatcher and every call.
  \<^item> \<open>Elf\<close>, \<open>Elf_Correct\<close>: \<open>filesystem/elf.c\<close>, loading a program from the file system into new tables.

  \<^bold>\<open>Devices and files\<close>
  \<^item> \<open>Registers\<close>: the layouts of the registers in \<open>types\<close>; members are independent and determine the value.
  \<^item> \<open>Devices\<close>: pins, the early serial line, the I2C bus (\<open>io/gpio.c\<close>, \<open>boot/uart_low.c\<close>, \<open>filedescriptors.c\<close>).
  \<^item> \<open>Mailbox\<close>: \<open>mailbox/mailbox.c\<close> and the frame buffer of \<open>io/lcd.c\<close>.
  \<^item> \<open>Emmc\<close>, \<open>Emmc_Correct\<close>: the SD card driver \<open>emmc\<close>, in the state monad.
  \<^item> \<open>Filesystem\<close>, \<open>Filesystem_Correct\<close>: \<open>filesystem/disk.c\<close> and \<open>filesystem.c\<close> over the bytes of a card.
  \<^item> \<open>Pipe\<close>: the ring buffer of pipes and the keyboard; it refines a bounded queue (locale \<open>byte_queue\<close>).
  \<^item> \<open>Pipe_Heap\<close>: the memory of a pipe over the heap and the page allocator; closing returns what opening took.
  \<^item> \<open>Console\<close>, \<open>Console_Correct\<close>: the panel \<open>io/cli.c\<close>, \<open>io/mini_uart.c\<close>, \<open>io/kprintf.c\<close> and \<open>usrtmp/printf.c\<close>.
  \<^item> \<open>Shell\<close>: the line editor of the user program \<open>src/src/user/jsh/main.c\<close>.

  \<^bold>\<open>Bounds and fuel\<close>
  \<^item> \<open>pt_fuel\<close> is one more than the number of pages. The recursion of \<open>buddy_alloc_pt\<close> and \<open>map\<close> takes a page at every
    level, so it never reaches the bound (\<open>ends_buddy_alloc_pt\<close>, \<open>map_terminates\<close>).
  \<^item> Table walks recurse on the level, 3 to 0. Loops over bits, orders and bytes are structural or have a measure.
  \<^item> Loops that wait for hardware (\<open>Emmc\<close>, \<open>Devices\<close>, \<open>Mailbox\<close>) take the number of reads; what ends is stated with the
    hypothesis that the hardware serves, and what is done holds for every hardware. Two rounds are the loop of
    \<open>i2c_write\<close> (\<open>i2c_blocks_two\<close>).
  \<^item> \<open>handle_irq\<close> is a partial function; \<open>handle_irq_returns_iff\<close> says when it returns.
  \<^item> The search of the profiler takes more rounds than the list has members; \<open>profile_search\<close> shows that it is over then.

  \<^bold>\<open>Not modelled\<close>
  \<^item> Assembly (\<open>*.S\<close>): entry and exit, the context switch, the MMU switch. Of a context switch the model keeps the
    current process and its table register. The vector loops of \<open>mem.S\<close> and the atomic swap are modelled.
  \<^item> \<open>kernel.c\<close> and \<open>usrtmp\<close>: the sequence of initialisations, whose parts are modelled, and test programs; \<open>tests\<close>
    is a test harness for the host.
  \<^item> \<open>drivers/fb.c\<close>, \<open>usb.c\<close> and \<open>pcie.c\<close> hold empty functions or constants; \<open>boot/sysregs_dbg.c\<close> reads registers into a local variable.
  \<^item> Functions that only print: the partitions and directories of \<open>disk.c\<close>, \<open>show_invalid_entry_message\<close>.
  \<^item> \<open>user/lib/printf.c\<close> is a copy of \<open>usrtmp/printf.c\<close> with a floating-point conversion; \<open>ls\<close> and \<open>pwd\<close> print a constant.
  \<^item> Stubs that return a constant or nothing: \<open>pipe_write\<close>, \<open>trie_remove\<close>, \<open>pq_init\<close>, \<open>ram_profile\<close>.
  \<^item> Concurrency of several cores: the kernel runs on one. The mutex is modelled under every interleaving.
\<close>

end
